(* ===== verification/Prelude.thy ===== *)
theory Prelude
  imports Main "HOL-Library.Word"
begin

unbundle bit_operations_syntax

text \<open>
  What every component of the development shares: the names of the Rust types
  the model uses, the parts of Rust's standard library that the sources call
  (results, saturating arithmetic, big- and little-endian bytes, the ASCII
  tests and the trimming of \<^verbatim>\<open>str\<close>, the iterator methods), and the generic lemmas
  about them, collected in \<open>std_simps\<close>.

  A Rust \<^verbatim>\<open>Result<T, E>\<close> is the sum \<open>'e + 'a\<close>; \<open>Ok\<close> and \<open>Err\<close> name its two
  injections. A \<^verbatim>\<open>u8\<close>, \<^verbatim>\<open>u16\<close> or \<^verbatim>\<open>u32\<close> whose bits the code looks at is a word. A
  \<^verbatim>\<open>u64\<close> that the code only adds to with saturation, subtracts with saturation
  and compares (a time, a revision, a count) is a \<open>nat\<close>: on \<open>nat\<close>, \<open>a - b\<close> is
  \<^verbatim>\<open>a.saturating_sub(b)\<close>, and saturating addition is written out below. A
  \<^verbatim>\<open>String\<close> is the list of its UTF-8 bytes, so \<open>length\<close> is \<^verbatim>\<open>len()\<close>.
\<close>

named_theorems std_simps

type_synonym u8 = "8 word"
type_synonym u16 = "16 word"
type_synonym u32 = "32 word"
type_synonym bytes = "8 word list"

abbreviation Ok :: "'a \<Rightarrow> 'e + 'a" where
  "Ok \<equiv> Inr"

abbreviation Err :: "'e \<Rightarrow> 'e + 'a" where
  "Err \<equiv> Inl"

definition is_ok :: "'e + 'a \<Rightarrow> bool" where
  "is_ok r = (case r of Inl _ \<Rightarrow> False | Inr _ \<Rightarrow> True)"

text \<open>\<^verbatim>\<open>Result::ok\<close>.\<close>

definition ok_opt :: "'e + 'a \<Rightarrow> 'a option" where
  "ok_opt r = (case r of Inl _ \<Rightarrow> None | Inr x \<Rightarrow> Some x)"

text \<open>The \<^verbatim>\<open>?\<close> operator: an error ends the function, a value goes on.\<close>

definition bind_result :: "'e + 'a \<Rightarrow> ('a \<Rightarrow> 'e + 'b) \<Rightarrow> 'e + 'b" where
  "bind_result r f = (case r of Inl e \<Rightarrow> Inl e | Inr x \<Rightarrow> f x)"

lemma is_ok_simps [simp]: "is_ok (Ok x)" "\<not> is_ok (Err e)"
  by (simp_all add: is_ok_def)

lemma is_ok_iff [std_simps]: "is_ok r \<longleftrightarrow> (\<exists>x. r = Ok x)"
  by (cases r) auto

lemma ok_opt_simps [simp]: "ok_opt (Ok x) = Some x" "ok_opt (Err e) = None"
  by (simp_all add: ok_opt_def)

lemma bind_result_simps [simp]:
  "bind_result (Ok x) f = f x"
  "bind_result (Err e) f = Err e"
  by (simp_all add: bind_result_def)

lemma bind_result_eq_Ok [simp]:
  "bind_result r f = Ok y \<longleftrightarrow> (\<exists>x. r = Ok x \<and> f x = Ok y)"
  by (cases r) auto

section \<open>Unsigned 64-bit arithmetic\<close>

definition U64_MAX :: nat where
  "U64_MAX = 2 ^ 64 - 1"

definition saturating_add :: "nat \<Rightarrow> nat \<Rightarrow> nat" where
  "saturating_add a b = min (a + b) U64_MAX"

lemma saturating_add_le [simp]: "saturating_add a b \<le> a + b"
  by (simp add: saturating_add_def)

lemma saturating_add_mono: "a \<le> a' \<Longrightarrow> saturating_add a b \<le> saturating_add a' b"
  by (auto simp: saturating_add_def)

section \<open>Iterators\<close>

text \<open>\<^verbatim>\<open>iter().position(p)\<close>: the index of the first element that satisfies \<open>p\<close>.\<close>

fun position :: "('a \<Rightarrow> bool) \<Rightarrow> 'a list \<Rightarrow> nat option" where
  "position p [] = None"
| "position p (x # xs) = (if p x then Some 0 else map_option Suc (position p xs))"

text \<open>\<^verbatim>\<open>Vec::remove(i)\<close> for an index in range.\<close>

definition remove_at :: "nat \<Rightarrow> 'a list \<Rightarrow> 'a list" where
  "remove_at i xs = take i xs @ drop (Suc i) xs"

lemma position_None [simp]: "position p xs = None \<longleftrightarrow> (\<forall>x\<in>set xs. \<not> p x)"
  by (induction xs) auto

lemma position_Some:
  "position p xs = Some i \<Longrightarrow> i < length xs \<and> p (xs ! i) \<and> (\<forall>j<i. \<not> p (xs ! j))"
proof (induction xs arbitrary: i)
  case (Cons x xs)
  then show ?case
    by (auto split: if_splits simp: nth_Cons split: nat.splits)
qed simp

lemma position_split:
  assumes "position p xs = Some i"
  obtains ys x zs where "xs = ys @ x # zs" "length ys = i" "p x" "\<forall>y\<in>set ys. \<not> p y"
proof -
  from position_Some [OF assms] have i: "i < length xs" "p (xs ! i)" "\<forall>j<i. \<not> p (xs ! j)"
    by auto
  have "xs = take i xs @ xs ! i # drop (Suc i) xs"
    using i(1) by (simp add: id_take_nth_drop)
  moreover have "\<forall>y\<in>set (take i xs). \<not> p y"
    using i(1,3) by (auto simp: in_set_conv_nth)
  ultimately show ?thesis
    using that i by (metis length_take min.absorb2 less_imp_le_nat)
qed

lemma remove_at_append [simp]: "remove_at (length ys) (ys @ x # zs) = ys @ zs"
  by (simp add: remove_at_def)

lemma length_remove_at [simp]: "i < length xs \<Longrightarrow> length (remove_at i xs) = length xs - 1"
  by (simp add: remove_at_def)

lemma set_remove_at_subset: "set (remove_at i xs) \<subseteq> set xs"
  by (auto simp: remove_at_def dest: in_set_takeD in_set_dropD)

text \<open>
  \<^verbatim>\<open>min_by_key\<close> gives the first of several equal minima, \<^verbatim>\<open>max_by_key\<close> the last
  of several equal maxima.
\<close>

fun min_by_key :: "('a \<Rightarrow> 'k::linorder) \<Rightarrow> 'a list \<Rightarrow> 'a option" where
  "min_by_key f [] = None"
| "min_by_key f (x # xs) = (case min_by_key f xs of
     None \<Rightarrow> Some x
   | Some y \<Rightarrow> if f x \<le> f y then Some x else Some y)"

fun max_by_key :: "('a \<Rightarrow> 'k::linorder) \<Rightarrow> 'a list \<Rightarrow> 'a option" where
  "max_by_key f [] = None"
| "max_by_key f (x # xs) = (case max_by_key f xs of
     None \<Rightarrow> Some x
   | Some y \<Rightarrow> if f y < f x then Some x else Some y)"

lemma min_by_key_None [simp]: "min_by_key f xs = None \<longleftrightarrow> xs = []"
  by (cases xs) (auto split: option.splits)

lemma max_by_key_None [simp]: "max_by_key f xs = None \<longleftrightarrow> xs = []"
  by (cases xs) (auto split: option.splits)

lemma min_by_key_Some:
  "min_by_key f xs = Some m \<Longrightarrow> m \<in> set xs \<and> (\<forall>x\<in>set xs. f m \<le> f x)"
  by (induction xs arbitrary: m) (fastforce split: option.splits if_splits)+

lemma max_by_key_Some:
  "max_by_key f xs = Some m \<Longrightarrow> m \<in> set xs \<and> (\<forall>x\<in>set xs. f x \<le> f m)"
  by (induction xs arbitrary: m) (fastforce split: option.splits if_splits)+

section \<open>Bytes of a word\<close>

text \<open>\<^verbatim>\<open>u16::to_be_bytes\<close>, \<^verbatim>\<open>u16::from_be_bytes\<close> and their relatives.\<close>

definition u16_to_be_bytes :: "u16 \<Rightarrow> bytes" where
  "u16_to_be_bytes w = [ucast (drop_bit 8 w), ucast w]"

definition u16_from_be_bytes :: "u8 \<Rightarrow> u8 \<Rightarrow> u16" where
  "u16_from_be_bytes a b = push_bit 8 (ucast a) OR ucast b"

definition u32_to_be_bytes :: "u32 \<Rightarrow> bytes" where
  "u32_to_be_bytes w = [ucast (drop_bit 24 w), ucast (drop_bit 16 w), ucast (drop_bit 8 w), ucast w]"

definition u32_from_be_bytes :: "u8 \<Rightarrow> u8 \<Rightarrow> u8 \<Rightarrow> u8 \<Rightarrow> u32" where
  "u32_from_be_bytes a b c d =
     push_bit 24 (ucast a) OR push_bit 16 (ucast b) OR push_bit 8 (ucast c) OR ucast d"

lemma unat_drop_bit: "unat (drop_bit k a) = unat a div 2 ^ k"
  for a :: "'a::len word"
proof -
  have "take_bit LENGTH('a) (unat a) = unat a"
    by (simp add: take_bit_nat_eq_self)
  then show ?thesis
    by (subst unsigned_drop_bit_eq) (simp add: drop_bit_eq_div)
qed

lemma length_u16_to_be_bytes [simp]: "length (u16_to_be_bytes w) = 2"
  by (simp add: u16_to_be_bytes_def)

lemma length_u32_to_be_bytes [simp]: "length (u32_to_be_bytes w) = 4"
  by (simp add: u32_to_be_bytes_def)

lemma u16_be_roundtrip [simp]:
  "u16_from_be_bytes (ucast (drop_bit 8 w)) (ucast w) = w"
proof (rule bit_word_eqI)
  fix n assume "n < LENGTH(16)"
  then show "bit (u16_from_be_bytes (ucast (drop_bit 8 w)) (ucast w)) n = bit w n"
    by (auto simp: u16_from_be_bytes_def bit_or_iff bit_push_bit_iff bit_ucast_iff bit_drop_bit_eq)
qed

lemma u32_be_roundtrip [simp]:
  "u32_from_be_bytes (ucast (drop_bit 24 w)) (ucast (drop_bit 16 w)) (ucast (drop_bit 8 w)) (ucast w) = w"
proof (rule bit_word_eqI)
  fix n assume "n < LENGTH(32)"
  then consider "n < 8" | "8 \<le> n" "n < 16" | "16 \<le> n" "n < 24" | "24 \<le> n" "n < 32"
    by force
  then show "bit (u32_from_be_bytes (ucast (drop_bit 24 w)) (ucast (drop_bit 16 w))
      (ucast (drop_bit 8 w)) (ucast w)) n = bit w n"
    by cases (auto simp: u32_from_be_bytes_def bit_or_iff bit_push_bit_iff bit_ucast_iff bit_drop_bit_eq)
qed

section \<open>Text\<close>

text \<open>
  A string is the list of its UTF-8 bytes. \<^verbatim>\<open>u8::is_ascii_*\<close> look at one byte;
  \<^verbatim>\<open>char::is_ascii_*\<close> over all characters of a string is the same test over all
  its bytes, because every byte of a character outside ASCII is at least 128.
\<close>

definition is_ascii_digit :: "char \<Rightarrow> bool" where
  "is_ascii_digit c \<longleftrightarrow> 48 \<le> (of_char c :: nat) \<and> (of_char c :: nat) \<le> 57"

definition is_ascii_uppercase :: "char \<Rightarrow> bool" where
  "is_ascii_uppercase c \<longleftrightarrow> 65 \<le> (of_char c :: nat) \<and> (of_char c :: nat) \<le> 90"

definition is_ascii_lowercase :: "char \<Rightarrow> bool" where
  "is_ascii_lowercase c \<longleftrightarrow> 97 \<le> (of_char c :: nat) \<and> (of_char c :: nat) \<le> 122"

definition is_ascii_alphabetic :: "char \<Rightarrow> bool" where
  "is_ascii_alphabetic c \<longleftrightarrow> is_ascii_uppercase c \<or> is_ascii_lowercase c"

definition is_ascii_alphanumeric :: "char \<Rightarrow> bool" where
  "is_ascii_alphanumeric c \<longleftrightarrow> is_ascii_alphabetic c \<or> is_ascii_digit c"

definition is_ascii_hexdigit :: "char \<Rightarrow> bool" where
  "is_ascii_hexdigit c \<longleftrightarrow> is_ascii_digit c
     \<or> 65 \<le> (of_char c :: nat) \<and> (of_char c :: nat) \<le> 70
     \<or> 97 \<le> (of_char c :: nat) \<and> (of_char c :: nat) \<le> 102"

definition to_ascii_lower :: "char \<Rightarrow> char" where
  "to_ascii_lower c = (if is_ascii_uppercase c then char_of ((of_char c :: nat) + 32) else c)"

definition to_ascii_upper :: "char \<Rightarrow> char" where
  "to_ascii_upper c = (if is_ascii_lowercase c then char_of ((of_char c :: nat) - 32) else c)"

definition to_ascii_lowercase :: "string \<Rightarrow> string" where
  "to_ascii_lowercase s = map to_ascii_lower s"

definition to_ascii_uppercase :: "string \<Rightarrow> string" where
  "to_ascii_uppercase s = map to_ascii_upper s"

definition eq_ignore_ascii_case :: "string \<Rightarrow> string \<Rightarrow> bool" where
  "eq_ignore_ascii_case a b \<longleftrightarrow> to_ascii_lowercase a = to_ascii_lowercase b"

text \<open>\<^verbatim>\<open>s.chars().count()\<close>: every byte that does not continue a character.\<close>

definition chars_count :: "string \<Rightarrow> nat" where
  "chars_count s = length (filter (\<lambda>c. \<not> (128 \<le> (of_char c :: nat) \<and> (of_char c :: nat) < 192)) s)"

lemma to_ascii_lower_idem [simp]: "to_ascii_lower (to_ascii_lower c) = to_ascii_lower c"
  by (simp add: to_ascii_lower_def is_ascii_uppercase_def)

lemma to_ascii_lowercase_idem [simp]:
  "to_ascii_lowercase (to_ascii_lowercase s) = to_ascii_lowercase s"
  by (simp add: to_ascii_lowercase_def)

lemma eq_ignore_ascii_case_refl [simp]: "eq_ignore_ascii_case s s"
  by (simp add: eq_ignore_ascii_case_def)

lemma eq_ignore_ascii_case_sym: "eq_ignore_ascii_case a b \<longleftrightarrow> eq_ignore_ascii_case b a"
  by (auto simp: eq_ignore_ascii_case_def)

text \<open>
  \<^verbatim>\<open>str::trim\<close> strips the characters with Unicode's White_Space property from
  both ends. Here are their UTF-8 encodings: U+0009 to U+000D, U+0020, U+0085,
  U+00A0, U+1680, U+2000 to U+200A, U+2028, U+2029, U+202F, U+205F, U+3000.
\<close>

definition white_space :: "string list" where
  "white_space = map (map char_of)
     (map (\<lambda>n. [n]) [9, 10, 11, 12, 13, 32 :: nat]
      @ [[194, 133], [194, 160], [225, 154, 128]]
      @ map (\<lambda>n. [226, 128, n]) [128, 129, 130, 131, 132, 133, 134, 135, 136, 137, 138, 168, 169, 175]
      @ [[226, 129, 159], [227, 128, 128]])"

definition strips :: "string \<Rightarrow> string \<Rightarrow> bool" where
  "strips w s \<longleftrightarrow> w \<noteq> [] \<and> take (length w) s = w"

function strip_start :: "string list \<Rightarrow> string \<Rightarrow> string" where
  "strip_start ws s = (case find (\<lambda>w. strips w s) ws of
     None \<Rightarrow> s
   | Some w \<Rightarrow> strip_start ws (drop (length w) s))"
  by pat_completeness auto
termination
proof (relation "measure (\<lambda>(ws, s). length s)", goal_cases)
  case (2 ws s w)
  then have "w \<noteq> []" "length w \<le> length s"
    by (auto simp: strips_def find_Some_iff dest!: arg_cong [where f = length])
  then show ?case by (cases w) auto
qed simp

declare strip_start.simps [simp del]

definition trim_start :: "string \<Rightarrow> string" where
  "trim_start s = strip_start white_space s"

definition trim_end :: "string \<Rightarrow> string" where
  "trim_end s = rev (strip_start (map rev white_space) (rev s))"

definition trim :: "string \<Rightarrow> string" where
  "trim s = trim_end (trim_start s)"

lemma strip_start_suffix: "\<exists>pre. s = pre @ strip_start ws s"
proof (induction ws s rule: strip_start.induct)
  case (1 ws s)
  show ?case
  proof (cases "find (\<lambda>w. strips w s) ws")
    case None
    then show ?thesis by (simp add: strip_start.simps)
  next
    case (Some w)
    with 1 obtain pre where pre: "drop (length w) s = pre @ strip_start ws (drop (length w) s)"
      by blast
    have "s = take (length w) s @ drop (length w) s"
      by simp
    also have "\<dots> = (take (length w) s @ pre) @ strip_start ws (drop (length w) s)"
      using pre by simp
    finally have "s = (take (length w) s @ pre) @ strip_start ws s"
      using Some by (simp add: strip_start.simps [of ws s])
    then show ?thesis by blast
  qed
qed

lemma strip_start_done: "w \<in> set ws \<Longrightarrow> \<not> strips w (strip_start ws s)"
proof (induction ws s rule: strip_start.induct)
  case (1 ws s)
  show ?case
  proof (cases "find (\<lambda>w. strips w s) ws")
    case None
    then have "strip_start ws s = s" and "\<forall>x\<in>set ws. \<not> strips x s"
      by (simp add: strip_start.simps, auto simp: find_None_iff)
    with 1 show ?thesis by simp
  next
    case (Some v)
    with 1 show ?thesis by (simp add: strip_start.simps [of ws s])
  qed
qed

lemma strip_start_id: "(\<And>w. w \<in> set ws \<Longrightarrow> \<not> strips w s) \<Longrightarrow> strip_start ws s = s"
  by (subst strip_start.simps) (auto simp: find_Some_iff split: option.splits)

lemma strips_prefix: "strips w p \<Longrightarrow> strips w (p @ q)"
  unfolding strips_def by (metis append_assoc append_eq_conv_conj append_take_drop_id)

lemma trim_prefix: "\<exists>suf. trim_start s = trim s @ suf"
proof -
  obtain pre where "rev (trim_start s) = pre @ strip_start (map rev white_space) (rev (trim_start s))"
    using strip_start_suffix by blast
  then have "trim_start s = rev (pre @ strip_start (map rev white_space) (rev (trim_start s)))"
    by (metis rev_rev_ident)
  then show ?thesis
    by (auto simp: trim_def trim_end_def)
qed

lemma trim_idem [simp]: "trim (trim s) = trim s"
proof -
  have "\<not> strips w (trim s)" if "w \<in> set white_space" for w
    using strip_start_done [OF that, of s] strips_prefix trim_prefix [of s]
    by (metis trim_start_def)
  then have start: "trim_start (trim s) = trim s"
    by (simp add: trim_start_def strip_start_id)
  have "strip_start (map rev white_space) (rev (trim s)) = rev (trim s)"
    by (rule strip_start_id) (simp add: trim_def trim_end_def strip_start_done)
  with start show ?thesis
    by (simp add: trim_def trim_end_def)
qed

lemma trim_id_ascii:
  assumes "\<forall>c\<in>set s. 33 \<le> (of_char c :: nat) \<and> (of_char c :: nat) < 128"
  shows "trim s = s"
proof -
  have no: "\<not> strips w t"
    if w: "w \<in> set white_space \<union> set (map rev white_space)" and t: "set t \<subseteq> set s" for w t
  proof
    assume "strips w t"
    then have "hd w \<in> set t"
      unfolding strips_def by (metis in_set_takeD list.set_sel(1))
    with assms t have "33 \<le> (of_char (hd w) :: nat) \<and> (of_char (hd w) :: nat) < 128"
      by auto
    then show False
      using w by (auto simp: white_space_def)
  qed
  have "trim_start s = s"
    by (simp add: trim_start_def strip_start_id no)
  moreover have "strip_start (map rev white_space) (rev s) = rev s"
  proof (rule strip_start_id)
    fix w assume "w \<in> set (map rev white_space)"
    then show "\<not> strips w (rev s)" by (intro no) auto
  qed
  ultimately show ?thesis
    by (simp add: trim_def trim_end_def)
qed

text \<open>\<^verbatim>\<open>str::split_once(c)\<close> at the first occurrence of the byte.\<close>

fun split_once :: "char \<Rightarrow> string \<Rightarrow> (string \<times> string) option" where
  "split_once c [] = None"
| "split_once c (x # xs) = (if x = c then Some ([], xs)
     else map_option (\<lambda>(a, b). (x # a, b)) (split_once c xs))"

lemma split_once_append:
  "c \<notin> set a \<Longrightarrow> split_once c (a @ c # b) = Some (a, b)"
  by (induction a) auto

lemma split_once_None: "split_once c s = None \<longleftrightarrow> c \<notin> set s"
  by (induction s) auto

lemma split_once_Some: "split_once c s = Some (a, b) \<Longrightarrow> s = a @ c # b \<and> c \<notin> set a"
  by (induction s arbitrary: a) (auto split: if_splits)

text \<open>\<^verbatim>\<open>slice::chunks\<close>.\<close>

function chunks :: "nat \<Rightarrow> 'b list \<Rightarrow> 'b list list" where
  "chunks n xs = (if xs = [] \<or> n = 0 then [] else take n xs # chunks n (drop n xs))"
  by pat_completeness auto
termination
  by (relation "measure (\<lambda>(_, xs). length xs)") auto

declare chunks.simps [simp del]

lemma concat_chunks: "0 < n \<Longrightarrow> concat (chunks n xs) = xs"
proof (induction n xs rule: chunks.induct)
  case (1 n xs)
  then show ?case by (cases "xs = []") (simp_all add: chunks.simps [of n "[]"] chunks.simps [of n xs])
qed

end
