(* ===== verification/Net_Addr.thy ===== *)
theory Net_Addr
  imports Prelude
begin

unbundle bit_operations_syntax

text \<open>
  Addresses as the sources use them: \<^verbatim>\<open>std::net::Ipv4Addr\<close> and \<^verbatim>\<open>Ipv6Addr\<close> with
  the tests the code calls on them, \<^verbatim>\<open>IpAddr\<close> and \<^verbatim>\<open>SocketAddr\<close>. An IPv4 address
  is the \<^verbatim>\<open>u32\<close> it converts to, an IPv6 address the \<^verbatim>\<open>u128\<close>; octets and segments
  are read off it in network order. A CIDR block, the reference the tests are
  compared with, is a base address and a prefix length.
\<close>

type_synonym ipv4 = "32 word"
type_synonym ipv6 = "128 word"

datatype ip_addr = V4 ipv4 | V6 ipv6

record socket_addr =
  sa_ip :: ip_addr
  sa_port :: u16

definition is_ipv4 :: "socket_addr \<Rightarrow> bool" where
  "is_ipv4 a = (case sa_ip a of V4 _ \<Rightarrow> True | V6 _ \<Rightarrow> False)"

section \<open>IPv4\<close>

definition octet :: "nat \<Rightarrow> ipv4 \<Rightarrow> u8" where
  "octet i a = ucast (drop_bit (8 * (3 - i)) a)"

definition ipv4_new :: "u8 \<Rightarrow> u8 \<Rightarrow> u8 \<Rightarrow> u8 \<Rightarrow> ipv4" where
  "ipv4_new a b c d = u32_from_be_bytes a b c d"

definition v4_is_unspecified :: "ipv4 \<Rightarrow> bool" where
  "v4_is_unspecified a \<longleftrightarrow> a = 0"

definition v4_is_loopback :: "ipv4 \<Rightarrow> bool" where
  "v4_is_loopback a \<longleftrightarrow> octet 0 a = 127"

definition v4_is_private :: "ipv4 \<Rightarrow> bool" where
  "v4_is_private a \<longleftrightarrow> octet 0 a = 10
     \<or> octet 0 a = 172 \<and> 16 \<le> octet 1 a \<and> octet 1 a \<le> 31
     \<or> octet 0 a = 192 \<and> octet 1 a = 168"

definition v4_is_link_local :: "ipv4 \<Rightarrow> bool" where
  "v4_is_link_local a \<longleftrightarrow> octet 0 a = 169 \<and> octet 1 a = 254"

definition v4_is_broadcast :: "ipv4 \<Rightarrow> bool" where
  "v4_is_broadcast a \<longleftrightarrow> a = 0xFFFFFFFF"

definition v4_is_multicast :: "ipv4 \<Rightarrow> bool" where
  "v4_is_multicast a \<longleftrightarrow> 224 \<le> octet 0 a \<and> octet 0 a \<le> 239"

definition v4_is_documentation :: "ipv4 \<Rightarrow> bool" where
  "v4_is_documentation a \<longleftrightarrow>
       octet 0 a = 192 \<and> octet 1 a = 0 \<and> octet 2 a = 2
     \<or> octet 0 a = 198 \<and> octet 1 a = 51 \<and> octet 2 a = 100
     \<or> octet 0 a = 203 \<and> octet 1 a = 0 \<and> octet 2 a = 113"

lemmas v4_tests = v4_is_unspecified_def v4_is_loopback_def v4_is_private_def
  v4_is_link_local_def v4_is_broadcast_def v4_is_multicast_def v4_is_documentation_def

section \<open>IPv6\<close>

definition segment :: "nat \<Rightarrow> ipv6 \<Rightarrow> u16" where
  "segment i a = ucast (drop_bit (16 * (7 - i)) a)"

definition octet6 :: "nat \<Rightarrow> ipv6 \<Rightarrow> u8" where
  "octet6 i a = ucast (drop_bit (8 * (15 - i)) a)"

definition v6_is_unspecified :: "ipv6 \<Rightarrow> bool" where
  "v6_is_unspecified a \<longleftrightarrow> a = 0"

definition v6_is_loopback :: "ipv6 \<Rightarrow> bool" where
  "v6_is_loopback a \<longleftrightarrow> a = 1"

definition v6_is_multicast :: "ipv6 \<Rightarrow> bool" where
  "v6_is_multicast a \<longleftrightarrow> octet6 0 a = 0xFF"

definition to_ipv4_mapped :: "ipv6 \<Rightarrow> ipv4 option" where
  "to_ipv4_mapped a =
     (if (\<forall>i<5. segment i a = 0) \<and> segment 5 a = 0xFFFF then Some (ucast a) else None)"

lemma to_ipv4_mapped_code [code]:
  "to_ipv4_mapped a =
     (if list_all (\<lambda>i. segment i a = 0) [0..<5] \<and> segment 5 a = 0xFFFF then Some (ucast a) else None)"
  by (simp add: to_ipv4_mapped_def list_all_iff)

section \<open>CIDR blocks\<close>

definition in_cidr :: "ipv4 \<Rightarrow> ipv4 \<Rightarrow> nat \<Rightarrow> bool" where
  "in_cidr a base len \<longleftrightarrow> drop_bit (32 - len) a = drop_bit (32 - len) base"

definition in_cidr6 :: "ipv6 \<Rightarrow> ipv6 \<Rightarrow> nat \<Rightarrow> bool" where
  "in_cidr6 a base len \<longleftrightarrow> drop_bit (128 - len) a = drop_bit (128 - len) base"

lemma unat_octet: "unat (octet i a) = unat a div 2 ^ (8 * (3 - i)) mod 256"
  by (simp add: octet_def unsigned_ucast_eq unat_drop_bit take_bit_eq_mod)

lemma in_cidr_unat:
  "in_cidr a base len \<longleftrightarrow> unat a div 2 ^ (32 - len) = unat base div 2 ^ (32 - len)"
  by (simp add: in_cidr_def word_unat_eq_iff unat_drop_bit)

text \<open>An address as the number its four octets spell.\<close>

lemma four_digits:
  fixes n :: nat
  assumes "n < 4294967296"
  shows "n = n div 16777216 mod 256 * 16777216 + n div 65536 mod 256 * 65536
    + n div 256 mod 256 * 256 + n mod 256"
proof -
  have "n = n div 256 * 256 + n mod 256"
    by simp
  also have "n div 256 = n div 65536 * 256 + n div 256 mod 256"
    using div_mult_mod_eq [of "n div 256" 256] by (simp flip: div_mult2_eq)
  also have "n div 65536 = n div 16777216 * 256 + n div 65536 mod 256"
    using div_mult_mod_eq [of "n div 65536" 256] by (simp flip: div_mult2_eq)
  also have "n div 16777216 = n div 16777216 mod 256"
    using assms by simp
  finally show ?thesis
    by (simp only: distrib_right mult.assoc numeral_times_numeral Num.arith_simps add.assoc)
qed

lemma unat_octets:
  fixes a :: ipv4
  shows "unat a = unat (octet 0 a) * 16777216 + unat (octet 1 a) * 65536
    + unat (octet 2 a) * 256 + unat (octet 3 a)"
proof -
  have "unat a < 4294967296"
    using unsigned_less [of a] by simp
  note four_digits [OF this]
  moreover have "unat (octet 0 a) = unat a div 16777216 mod 256"
      "unat (octet 1 a) = unat a div 65536 mod 256"
      "unat (octet 2 a) = unat a div 256 mod 256" "unat (octet 3 a) = unat a mod 256"
    by (simp_all add: unat_octet)
  ultimately show ?thesis by (simp only:)
qed

lemma octet_less: "unat (octet i a) < 256"
  by (simp add: unat_octet)

text \<open>The block of an IPv6 address, read off its segments.\<close>

lemma in_cidr6_bits: "in_cidr6 a b len \<longleftrightarrow> (\<forall>k<128. 128 - len \<le> k \<longrightarrow> bit a k = bit b k)"
proof
  assume c: "in_cidr6 a b len"
  have "bit a k = bit b k" if "128 - len \<le> k" for k
  proof -
    have "bit (drop_bit (128 - len) a) (k - (128 - len)) = bit (drop_bit (128 - len) b) (k - (128 - len))"
      using c by (simp add: in_cidr6_def)
    with that show ?thesis by (simp add: bit_drop_bit_eq)
  qed
  then show "\<forall>k<128. 128 - len \<le> k \<longrightarrow> bit a k = bit b k" by blast
next
  assume c: "\<forall>k<128. 128 - len \<le> k \<longrightarrow> bit a k = bit b k"
  show "in_cidr6 a b len" unfolding in_cidr6_def
  proof (rule bit_word_eqI)
    fix n assume "n < LENGTH(128)"
    show "bit (drop_bit (128 - len) a) n = bit (drop_bit (128 - len) b) n"
      using c by (cases "128 - len + n < 128") (auto simp: bit_drop_bit_eq add.commute dest: bit_imp_le_length)
  qed
qed

lemma segment_bits:
  assumes "i < 8"
  shows "drop_bit m (segment i a) = drop_bit m (segment i b)
    \<longleftrightarrow> (\<forall>k<16. m \<le> k \<longrightarrow> bit a (16 * (7 - i) + k) = bit b (16 * (7 - i) + k))" (is "?l \<longleftrightarrow> ?r")
proof
  assume ?l
  have "bit a (16 * (7 - i) + k) = bit b (16 * (7 - i) + k)" if "k < 16" "m \<le> k" for k
  proof -
    have "bit (drop_bit m (segment i a)) (k - m) = bit (drop_bit m (segment i b)) (k - m)" using \<open>?l\<close> by simp
    with that show ?thesis by (simp add: segment_def bit_drop_bit_eq bit_ucast_iff add.commute)
  qed
  then show ?r by blast
next
  assume ?r
  then show ?l
    by (intro bit_word_eqI) (auto simp: segment_def bit_drop_bit_eq bit_ucast_iff add.commute add.left_commute)
qed

lemma in_cidr6_segments:
  assumes "i < 8" "r \<le> 16"
  shows "in_cidr6 a b (16 * i + r) \<longleftrightarrow> (\<forall>j<i. segment j a = segment j b)
    \<and> drop_bit (16 - r) (segment i a) = drop_bit (16 - r) (segment i b)" (is "?l \<longleftrightarrow> ?hi \<and> ?lo")
proof -
  have hi: "segment j a = segment j b \<longleftrightarrow> (\<forall>k<16. bit a (16 * (7 - j) + k) = bit b (16 * (7 - j) + k))" if "j < i" for j
    using segment_bits [of j 0 a b] that assms(1) by simp
  have hi: "?hi \<longleftrightarrow> (\<forall>j<i. \<forall>k<16. bit a (16 * (7 - j) + k) = bit b (16 * (7 - j) + k))" by (simp add: hi)
  show ?thesis
  proof
    assume ?l
    then show "?hi \<and> ?lo" unfolding hi segment_bits [OF assms(1)] in_cidr6_bits using assms by auto
  next
    assume h: "?hi \<and> ?lo"
    show ?l unfolding in_cidr6_bits
    proof (intro allI impI)
      fix k :: nat assume k: "k < 128" "128 - (16 * i + r) \<le> k"
      define j where "j = 7 - k div 16"
      have e: "k = 16 * (7 - j) + k mod 16" using k(1) by (simp add: j_def)
      show "bit a k = bit b k"
      proof (cases "j < i")
        case True
        with h [unfolded hi] have "bit a (16 * (7 - j) + k mod 16) = bit b (16 * (7 - j) + k mod 16)" by simp
        with e show ?thesis by simp
      next
        case False
        moreover have "16 * (7 - i) + (16 - r) \<le> 16 * (k div 16) + k mod 16" using k(2) assms by simp
        moreover have "k mod 16 < 16" by simp
        ultimately have "k div 16 = 7 - i" using k(1) assms unfolding j_def by linarith
        moreover have "j = i" using calculation assms(1) by (simp add: j_def)
        moreover have "16 - r \<le> k mod 16" using calculation(1) k(2) assms e \<open>j = i\<close> by linarith
        ultimately have "j = i" "16 - r \<le> k mod 16" by simp_all
        with h [unfolded segment_bits [OF assms(1)]] have "bit a (16 * (7 - j) + k mod 16) = bit b (16 * (7 - j) + k mod 16)" by simp
        with e show ?thesis by simp
      qed
    qed
  qed
qed

lemma high_bits: "x AND NOT (mask n) = push_bit n (drop_bit n y) \<longleftrightarrow> drop_bit n x = drop_bit n y" for x y :: "'a::len word"
proof
  assume h: "x AND NOT (mask n) = push_bit n (drop_bit n y)"
  show "drop_bit n x = drop_bit n y"
  proof (rule bit_word_eqI)
    fix k assume "k < LENGTH('a)"
    have "bit (x AND NOT (mask n)) (n + k) = bit (push_bit n (drop_bit n y)) (n + k)" using h by simp
    then show "bit (drop_bit n x) k = bit (drop_bit n y) k"
      by (cases "n + k < LENGTH('a)") (auto simp: bit_simps dest: bit_imp_le_length)
  qed
next
  assume "drop_bit n x = drop_bit n y"
  then have "push_bit n (drop_bit n x) = push_bit n (drop_bit n y)" by simp
  moreover have "push_bit n (drop_bit n x) = x AND NOT (mask n)"
    by (rule bit_word_eqI) (auto simp: bit_simps)
  ultimately show "x AND NOT (mask n) = push_bit n (drop_bit n y)" by simp
qed

lemma in_cidr6_96: "in_cidr6 a b 96 \<longleftrightarrow> (\<forall>i<6. segment i a = segment i b)"
  using in_cidr6_segments [of 6 0 a b] by simp

lemma segments_96: "drop_bit 32 a = drop_bit 32 b \<longleftrightarrow> (\<forall>i<6. segment i a = segment i b)" for a b :: ipv6
  using in_cidr6_96 [of a b] by (simp add: in_cidr6_def)

lemma v4_of_segments:
  "ipv4_new (ucast (drop_bit 8 (segment 6 a))) (ucast (segment 6 a))
     (ucast (drop_bit 8 (segment 7 a))) (ucast (segment 7 a)) = ucast a"
proof (rule bit_word_eqI)
  fix n assume "n < LENGTH(32)"
  then consider "n < 8" | "8 \<le> n" "n < 16" | "16 \<le> n" "n < 24" | "24 \<le> n" "n < 32"
    by force
  then show "bit (ipv4_new (ucast (drop_bit 8 (segment 6 a))) (ucast (segment 6 a))
      (ucast (drop_bit 8 (segment 7 a))) (ucast (segment 7 a))) n = bit (ucast a :: ipv4) n"
    by cases (auto simp: ipv4_new_def u32_from_be_bytes_def segment_def bit_or_iff bit_push_bit_iff
        bit_ucast_iff bit_drop_bit_eq)
qed

end
