(* ===== verification/Exit_Policy.thy ===== *)
theory Exit_Policy
  imports Net_Addr
begin

unbundle bit_operations_syntax

text \<open>
  Where a relay connects on a stranger's behalf
  (\<^verbatim>\<open>hidra-node/src/relay/exit_policy.rs\<close>): the policy of a relay, the test for an
  address of the public internet, and the resolution of an exit destination.
  The resolver of the operating system (\<^verbatim>\<open>tokio::net::lookup_host\<close>) is a parameter
  of \<open>resolve_target\<close>: its answer is a list of addresses or a failure.

  The lemmas compare the octet tests with the blocks of the IANA
  special-purpose registries of IPv4 and IPv6, written as CIDR blocks, and show what a strict
  relay can be made to connect to.
\<close>

datatype resolve_error =
    Port_Zero \<comment> \<open>destination port 0 refused\<close>
  | Not_Resolved string \<comment> \<open>could not resolve destination, with the resolver's words\<close>
  | No_Address \<comment> \<open>destination did not resolve\<close>
  | Policy_Refused \<comment> \<open>destination refused by this relay's exit policy\<close>

record exit_policy =
  private_hops :: bool
  private_targets :: bool

definition STRICT :: exit_policy where
  "STRICT = \<lparr>private_hops = False, private_targets = False\<rparr>"

definition ALLOW_PRIVATE :: exit_policy where
  "ALLOW_PRIVATE = \<lparr>private_hops = True, private_targets = True\<rparr>"

definition is_public_v4 :: "ipv4 \<Rightarrow> bool" where
  "is_public_v4 ip \<longleftrightarrow>
     \<not> (v4_is_unspecified ip
        \<or> v4_is_loopback ip
        \<or> v4_is_private ip
        \<or> v4_is_link_local ip
        \<or> v4_is_broadcast ip
        \<or> v4_is_multicast ip
        \<or> v4_is_documentation ip
        \<or> octet 0 ip = 0
        \<or> octet 0 ip = 100 \<and> octet 1 ip AND 0xC0 = 64
        \<or> octet 0 ip = 192 \<and> octet 1 ip = 0 \<and> octet 2 ip = 0
        \<or> octet 0 ip = 192 \<and> octet 1 ip = 88 \<and> octet 2 ip = 99
        \<or> octet 0 ip = 198 \<and> octet 1 ip AND 0xFE = 18
        \<or> 240 \<le> octet 0 ip)"

definition is_public_v6 :: "ipv6 \<Rightarrow> bool" where
  "is_public_v6 ip =
     (case to_ipv4_mapped ip of
        Some v4 \<Rightarrow> is_public_v4 v4
      | None \<Rightarrow>
          (let s = (\<lambda>i. segment i ip) in
           if map s [0, 1, 2, 3, 4, 5] = [0, 0, 0, 0, 0, 0]
                \<and> \<not> (v6_is_unspecified ip \<or> v6_is_loopback ip)
              \<or> s 0 = 0x64 \<and> s 1 = 0xFF9B \<and> map s [2, 3, 4, 5] = [0, 0, 0, 0]
           then is_public_v4 (ipv4_new (ucast (drop_bit 8 (s 6))) (ucast (s 6))
                                       (ucast (drop_bit 8 (s 7))) (ucast (s 7)))
           else \<not> (v6_is_unspecified ip
                   \<or> v6_is_loopback ip
                   \<or> v6_is_multicast ip
                   \<or> s 0 AND 0xFE00 = 0xFC00
                   \<or> s 0 AND 0xFFC0 = 0xFE80
                   \<or> s 0 AND 0xFFC0 = 0xFEC0
                   \<or> s 0 = 0x2001 \<and> s 1 = 0x0DB8
                   \<or> s 0 = 0x2001 \<and> s 1 < 0x0200
                   \<or> s 0 = 0x2002
                   \<or> s 0 = 0x0100 \<and> map s [1, 2, 3] = [0, 0, 0])))"

definition is_public :: "ip_addr \<Rightarrow> bool" where
  "is_public ip = (case ip of V4 v4 \<Rightarrow> is_public_v4 v4 | V6 v6 \<Rightarrow> is_public_v6 v6)"

definition permits_hop :: "exit_policy \<Rightarrow> socket_addr \<Rightarrow> bool" where
  "permits_hop p addr \<longleftrightarrow> private_hops p \<or> is_public (sa_ip addr)"

definition permits_target :: "exit_policy \<Rightarrow> ip_addr \<Rightarrow> bool" where
  "permits_target p ip \<longleftrightarrow> private_targets p \<or> is_public ip"

definition choose_addrs :: "exit_policy \<Rightarrow> socket_addr list \<Rightarrow> resolve_error + socket_addr list" where
  "choose_addrs p addrs =
     (if addrs = [] then Err No_Address
      else if list_ex (\<lambda>a. \<not> permits_target p (sa_ip a)) addrs
      then Err Policy_Refused
      else Ok addrs)"

definition resolve_target ::
  "(string \<Rightarrow> u16 \<Rightarrow> string + socket_addr list) \<Rightarrow> exit_policy \<Rightarrow> string \<Rightarrow> u16
     \<Rightarrow> resolve_error + socket_addr list" where
  "resolve_target lookup_host p host port =
     (if port = 0 then Err Port_Zero
      else (case lookup_host host port of
              Inl e \<Rightarrow> Err (Not_Resolved e)
            | Inr addrs \<Rightarrow> choose_addrs p addrs))"

definition filter_answer :: "exit_policy \<Rightarrow> ip_addr list \<Rightarrow> ip_addr list" where
  "filter_answer p ips = filter (permits_target p) ips"

section \<open>The registry as CIDR blocks\<close>

definition special_v4 :: "(ipv4 \<times> nat) list" where
  "special_v4 =
     [(ipv4_new 0 0 0 0, 8), (ipv4_new 10 0 0 0, 8), (ipv4_new 100 64 0 0, 10),
      (ipv4_new 127 0 0 0, 8), (ipv4_new 169 254 0 0, 16), (ipv4_new 172 16 0 0, 12),
      (ipv4_new 192 0 0 0, 24), (ipv4_new 192 0 2 0, 24), (ipv4_new 192 88 99 0, 24),
      (ipv4_new 192 168 0 0, 16), (ipv4_new 198 18 0 0, 15), (ipv4_new 198 51 100 0, 24),
      (ipv4_new 203 0 113 0, 24), (ipv4_new 224 0 0 0, 4), (ipv4_new 240 0 0 0, 4)]"

definition special_v6 :: "(ipv6 \<times> nat) list" where
  "special_v6 =
     [(0, 128), (1, 128), (0x01000000000000000000000000000000, 64), (0x20010000000000000000000000000000, 23),
      (0x20010DB8000000000000000000000000, 32), (0x20020000000000000000000000000000, 16),
      (0xFC000000000000000000000000000000, 7), (0xFE800000000000000000000000000000, 10),
      (0xFEC00000000000000000000000000000, 10), (0xFF000000000000000000000000000000, 8)]"

lemma mask_c0: "x AND 0xC0 = 64 \<longleftrightarrow> unat x div 64 = 1" for x :: u8
proof -
  have "\<forall>n\<in>set [0..255]. (n AND 192 = (64::int)) = (n div 64 = 1)"
    by code_simp
  moreover have "uint x \<in> set [0..255]"
    using uint_lt2p [of x] by simp
  ultimately have "(uint x AND 192 = 64) = (uint x div 64 = 1)"
    by blast
  moreover have "uint x div 64 = int (unat x div 64)"
    by (simp add: of_nat_div)
  ultimately show ?thesis
    by (simp add: word_uint_eq_iff [of "x AND _"] unsigned_and_eq)
qed

lemma mask_fe: "x AND 0xFE = 18 \<longleftrightarrow> unat x div 2 = 9" for x :: u8
proof -
  have "\<forall>n\<in>set [0..255]. (n AND 254 = (18::int)) = (n div 2 = 9)"
    by code_simp
  moreover have "uint x \<in> set [0..255]"
    using uint_lt2p [of x] by simp
  ultimately have "(uint x AND 254 = 18) = (uint x div 2 = 9)"
    by blast
  moreover have "uint x div 2 = int (unat x div 2)"
    by (simp add: of_nat_div)
  ultimately show ?thesis
    by (simp add: word_uint_eq_iff [of "x AND _"] unsigned_and_eq)
qed

text \<open>
  Every test of \<open>is_public_v4\<close> is one block of the registry, read off the four
  octets; the block tests read the same octets off the number they spell.
\<close>

lemma div_digits: "x = k * d + e \<Longrightarrow> e < d \<Longrightarrow> x div d = k" for x k d e :: nat
  by simp

lemma digit_eq: "e < d \<Longrightarrow> k * d + e = n \<longleftrightarrow> k = n div d \<and> e = n mod d" for k d e n :: nat
  by auto

lemma octet_blocks:
  fixes p q r s n :: nat
  assumes n: "n = p * 16777216 + q * 65536 + r * 256 + s"
    and b: "p < 256" "q < 256" "r < 256" "s < 256"
  shows "n div 268435456 = p div 16" "n div 16777216 = p"
    "n div 4194304 = p * 4 + q div 64" "n div 1048576 = p * 16 + q div 16"
    "n div 131072 = p * 128 + q div 2" "n div 65536 = p * 256 + q"
    "n div 256 = p * 65536 + (q * 256 + r)"
proof -
  show h: "n div 65536 = p * 256 + q"
    by (rule div_digits [where e = "r * 256 + s"]) (use n b in auto)
  show p: "n div 16777216 = p"
    by (rule div_digits [where e = "q * 65536 + r * 256 + s"]) (use n b in auto)
  show "n div 256 = p * 65536 + (q * 256 + r)"
    by (rule div_digits [where e = s]) (use n b in auto)
  have "n div 268435456 = n div 16777216 div 16"
    by (simp flip: div_mult2_eq)
  with p show "n div 268435456 = p div 16" by simp
  have "n div 4194304 = n div 65536 div 64" "n div 1048576 = n div 65536 div 16"
      "n div 131072 = n div 65536 div 2"
    by (simp_all flip: div_mult2_eq)
  then show "n div 4194304 = p * 4 + q div 64" "n div 1048576 = p * 16 + q div 16"
      "n div 131072 = p * 128 + q div 2"
    using div_mult_self1 [of 64 q "p * 4"] div_mult_self1 [of 16 q "p * 16"] div_mult_self1 [of 2 q "p * 128"]
    by (simp_all add: h ac_simps)
qed

lemma is_public_v4_octets:
  fixes a :: ipv4
  defines "p \<equiv> unat (octet 0 a)" and "q \<equiv> unat (octet 1 a)" and "r \<equiv> unat (octet 2 a)"
  shows "is_public_v4 a \<longleftrightarrow> \<not> (unat a = 0 \<or> p = 127
      \<or> (p = 10 \<or> p = 172 \<and> 16 \<le> q \<and> q \<le> 31 \<or> p = 192 \<and> q = 168)
      \<or> p = 169 \<and> q = 254 \<or> unat a = 4294967295 \<or> 224 \<le> p \<and> p \<le> 239
      \<or> (p = 192 \<and> q = 0 \<and> r = 2 \<or> p = 198 \<and> q = 51 \<and> r = 100 \<or> p = 203 \<and> q = 0 \<and> r = 113)
      \<or> p = 0 \<or> p = 100 \<and> q div 64 = 1 \<or> p = 192 \<and> q = 0 \<and> r = 0 \<or> p = 192 \<and> q = 88 \<and> r = 99
      \<or> p = 198 \<and> q div 2 = 9 \<or> 240 \<le> p)"
  unfolding is_public_v4_def v4_tests mask_c0 mask_fe p_def q_def r_def
  by (simp only: word_unat_eq_iff [of "octet _ _"] word_unat_eq_iff [of a] word_le_nat_alt) simp

lemma is_public_v4_registry:
  "is_public_v4 a \<longleftrightarrow> \<not> list_ex (\<lambda>(base, len). in_cidr a base len) special_v4"
proof -
  define p q r s where "p = unat (octet 0 a)" and "q = unat (octet 1 a)"
    and "r = unat (octet 2 a)" and "s = unat (octet 3 a)"
  note defs = p_def [symmetric] q_def [symmetric] r_def [symmetric] s_def [symmetric]
  have a: "unat a = p * 16777216 + q * 65536 + r * 256 + s"
    using unat_octets [of a] by (simp only: defs)
  have b: "p < 256" "q < 256" "r < 256" "s < 256"
    by (simp_all only: p_def q_def r_def s_def octet_less)
  have d: "q div 64 < 4" "q div 16 < 16" "q div 2 < 128" "q * 256 + r < 65536"
    using b by (auto simp: less_mult_imp_div_less)
  have "list_ex (\<lambda>(base, len). in_cidr a base len) special_v4 \<longleftrightarrow>
      p = 0 \<or> p = 10 \<or> p = 100 \<and> q div 64 = 1 \<or> p = 127 \<or> p = 169 \<and> q = 254
      \<or> p = 172 \<and> q div 16 = 1 \<or> p = 192 \<and> q = 0 \<and> r = 0
      \<or> p = 192 \<and> q = 0 \<and> r = 2 \<or> p = 192 \<and> q = 88 \<and> r = 99
      \<or> p = 192 \<and> q = 168 \<or> p = 198 \<and> q div 2 = 9
      \<or> p = 198 \<and> q = 51 \<and> r = 100 \<or> p = 203 \<and> q = 0 \<and> r = 113
      \<or> p div 16 = 14 \<or> p div 16 = 15"
    unfolding special_v4_def in_cidr_unat ipv4_new_def u32_from_be_bytes_def
    by (simp add: octet_blocks [OF a b] digit_eq [OF d(1)] digit_eq [OF d(2)] digit_eq [OF d(3)]
        digit_eq [OF d(4)] digit_eq [OF b(2)] digit_eq [OF b(3)])
  moreover have "unat a = 0 \<Longrightarrow> p = 0" "unat a = 4294967295 \<Longrightarrow> 240 \<le> p"
    using a b by linarith+
  moreover have "q div 16 = 1 \<longleftrightarrow> 16 \<le> q \<and> q \<le> 31" "p div 16 = 14 \<longleftrightarrow> 224 \<le> p \<and> p \<le> 239"
      "p div 16 = 15 \<longleftrightarrow> 240 \<le> p"
    using b by linarith+
  ultimately show ?thesis
    unfolding is_public_v4_octets defs by argo
qed

text \<open>
  The IPv4 address an address stands for: itself, or the one an IPv6 address of
  the mapped (\<^verbatim>\<open>::ffff:0:0/96\<close>), the compatible (\<^verbatim>\<open>::/96\<close>, but the unspecified and the
  loopback address) or the NAT64 (\<^verbatim>\<open>64:ff9b::/96\<close>) block carries in its last 32 bits.
\<close>

definition carried_v4 :: "ip_addr \<Rightarrow> ipv4 option" where
  "carried_v4 ip = (case ip of
      V4 a \<Rightarrow> Some a
    | V6 a \<Rightarrow> if in_cidr6 a 0xFFFF00000000 96
               \<or> in_cidr6 a 0 96 \<and> a \<noteq> 0 \<and> a \<noteq> 1
               \<or> in_cidr6 a 0x0064FF9B000000000000000000000000 96
             then Some (ucast a) else None)"

lemma less_6: "(\<forall>i<6. P i) \<longleftrightarrow> P 0 \<and> P 1 \<and> P 2 \<and> P 3 \<and> P 4 \<and> P (5::nat)"
  by (auto simp: All_less_Suc numeral_eq_Suc)

lemma less_5: "(\<forall>i<5. P i) \<longleftrightarrow> P 0 \<and> P 1 \<and> P 2 \<and> P 3 \<and> P (4::nat)"
  by (auto simp: All_less_Suc numeral_eq_Suc)

lemma less_2: "(\<forall>i<2. P i) \<longleftrightarrow> P 0 \<and> P (1::nat)"
  by (auto simp: All_less_Suc numeral_eq_Suc)

lemma less_4: "(\<forall>i<4. P i) \<longleftrightarrow> P 0 \<and> P 1 \<and> P 2 \<and> P (3::nat)"
  by (auto simp: All_less_Suc numeral_eq_Suc)

lemma mapped_cidr: "in_cidr6 a 0xFFFF00000000 96 \<longleftrightarrow> to_ipv4_mapped a \<noteq> None"
  unfolding in_cidr6_96 less_6 to_ipv4_mapped_def less_5 by (simp add: segment_def)

lemma compat_cidr: "in_cidr6 a 0 96 \<longleftrightarrow> map (\<lambda>i. segment i a) [0, 1, 2, 3, 4, 5] = [0, 0, 0, 0, 0, 0]"
  unfolding in_cidr6_96 less_6 by (simp add: segment_def)

lemma nat64_cidr: "in_cidr6 a 0x0064FF9B000000000000000000000000 96 \<longleftrightarrow>
    segment 0 a = 0x64 \<and> segment 1 a = 0xFF9B \<and> map (\<lambda>i. segment i a) [2, 3, 4, 5] = [0, 0, 0, 0]"
proof -
  have "map (\<lambda>i. segment i 0x0064FF9B000000000000000000000000) [0, 1, 2, 3, 4, 5] = [0x64, 0xFF9B, 0, 0, 0, 0]"
    by code_simp
  then show ?thesis unfolding in_cidr6_96 less_6 by simp
qed

lemma is_public_carried:
  "carried_v4 ip = Some v \<Longrightarrow> is_public ip \<longleftrightarrow> is_public_v4 v"
proof (cases ip)
  case (V6 a)
  assume c: "carried_v4 ip = Some v"
  from c have v: "v = ucast a"
    by (simp add: carried_v4_def V6 split: if_splits)
  show ?thesis
  proof (cases "to_ipv4_mapped a")
    case (Some w)
    then have "w = ucast a"
      by (simp add: to_ipv4_mapped_def split: if_splits)
    with Some v V6 show ?thesis
      by (simp add: is_public_def is_public_v6_def)
  next
    case None
    let ?compat = "map (\<lambda>i. segment i a) [0, 1, 2, 3, 4, 5] = [0, 0, 0, 0, 0, 0]
        \<and> \<not> (v6_is_unspecified a \<or> v6_is_loopback a)"
    let ?nat64 = "segment 0 a = 0x64 \<and> segment 1 a = 0xFF9B
        \<and> map (\<lambda>i. segment i a) [2, 3, 4, 5] = [0, 0, 0, 0]"
    from c have "in_cidr6 a 0xFFFF00000000 96 \<or> in_cidr6 a 0 96 \<and> a \<noteq> 0 \<and> a \<noteq> 1
        \<or> in_cidr6 a 0x0064FF9B000000000000000000000000 96"
      by (simp add: carried_v4_def V6 split: if_split_asm)
    with None have "?compat \<or> ?nat64"
      unfolding mapped_cidr compat_cidr nat64_cidr v6_is_unspecified_def v6_is_loopback_def by blast
    with None have "is_public_v6 a = is_public_v4 (ucast a)"
      unfolding is_public_v6_def Let_def v4_of_segments by (simp only: option.case if_True)
    with v V6 show ?thesis
      by (simp add: is_public_def)
  qed
qed (simp_all add: carried_v4_def is_public_def)

text \<open>The tests of \<open>is_public_v6\<close> for an address that carries no IPv4 one are ten blocks of the registry.\<close>

lemma special_masks:
  fixes s :: u16
  shows "s AND 0xFE00 = 0xFC00 \<longleftrightarrow> drop_bit 9 s = 0x7E" "s AND 0xFFC0 = 0xFE80 \<longleftrightarrow> drop_bit 6 s = 0x3FA"
    "s AND 0xFFC0 = 0xFEC0 \<longleftrightarrow> drop_bit 6 s = 0x3FB" "s < 0x0200 \<longleftrightarrow> drop_bit 9 s = 0"
proof -
  have m: "NOT (mask 9) = (0xFE00 :: u16)" "NOT (mask 6) = (0xFFC0 :: u16)" by (simp_all add: mask_eq_exp_minus_1)
  show "s AND 0xFE00 = 0xFC00 \<longleftrightarrow> drop_bit 9 s = 0x7E" "s AND 0xFFC0 = 0xFE80 \<longleftrightarrow> drop_bit 6 s = 0x3FA"
    "s AND 0xFFC0 = 0xFEC0 \<longleftrightarrow> drop_bit 6 s = 0x3FB"
    using high_bits [where n = 9 and x = s and y = "0xFC00"] high_bits [where n = 6 and x = s and y = "0xFE80"]
      high_bits [where n = 6 and x = s and y = "0xFEC0"] by (simp_all add: m del: and_minus_numerals)
  show "s < 0x0200 \<longleftrightarrow> drop_bit 9 s = 0"
    by (simp add: word_less_nat_alt word_unat_eq_iff unat_drop_bit div_eq_0_iff)
qed

lemma multicast_segment: "v6_is_multicast a \<longleftrightarrow> drop_bit 8 (segment 0 a) = 0xFF"
proof -
  have "drop_bit 8 (segment 0 a) = ucast (octet6 0 a)"
    by (rule bit_word_eqI) (auto simp: segment_def octet6_def bit_drop_bit_eq bit_ucast_iff)
  moreover have "(ucast o' :: u16) = 0xFF \<longleftrightarrow> o' = 0xFF" for o' :: u8
  proof
    assume "(ucast o' :: u16) = 0xFF"
    then have "(ucast (ucast o' :: u16) :: u8) = ucast (0xFF :: u16)" by simp
    moreover have "(ucast (ucast o' :: u16) :: u8) = o'" by (rule bit_word_eqI) (simp add: bit_ucast_iff)
    ultimately show "o' = 0xFF" by simp
  qed simp
  ultimately show ?thesis by (simp add: v6_is_multicast_def)
qed

lemma segments_v6:
  "map (\<lambda>i. segment i (0x01000000000000000000000000000000 :: ipv6)) [0, 1, 2, 3] = [0x100, 0, 0, 0]"
  "map (\<lambda>i. segment i (0x20010000000000000000000000000000 :: ipv6)) [0, 1] = [0x2001, 0]"
  "map (\<lambda>i. segment i (0x20010DB8000000000000000000000000 :: ipv6)) [0, 1] = [0x2001, 0xDB8]"
  "map (\<lambda>i. segment i (0x20020000000000000000000000000000 :: ipv6)) [0] = [0x2002]"
  "map (\<lambda>i. segment i (0xFC000000000000000000000000000000 :: ipv6)) [0] = [0xFC00]"
  "map (\<lambda>i. segment i (0xFE800000000000000000000000000000 :: ipv6)) [0] = [0xFE80]"
  "map (\<lambda>i. segment i (0xFEC00000000000000000000000000000 :: ipv6)) [0] = [0xFEC0]"
  "map (\<lambda>i. segment i (0xFF000000000000000000000000000000 :: ipv6)) [0] = [0xFF00]"
  by code_simp+

lemma special_v6_segments:
  "list_ex (\<lambda>(base, len). in_cidr6 a base len) special_v6 \<longleftrightarrow>
     a = 0 \<or> a = 1 \<or> map (\<lambda>i. segment i a) [0, 1, 2, 3] = [0x100, 0, 0, 0]
     \<or> segment 0 a = 0x2001 \<and> (drop_bit 9 (segment 1 a) = 0 \<or> segment 1 a = 0xDB8) \<or> segment 0 a = 0x2002
     \<or> drop_bit 9 (segment 0 a) = 0x7E \<or> drop_bit 6 (segment 0 a) \<in> {0x3FA, 0x3FB} \<or> drop_bit 8 (segment 0 a) = 0xFF"
proof -
  have "in_cidr6 a b 128 \<longleftrightarrow> a = b" for b by (simp add: in_cidr6_def)
  moreover have "in_cidr6 a 0x01000000000000000000000000000000 64 \<longleftrightarrow> map (\<lambda>i. segment i a) [0, 1, 2, 3] = [0x100, 0, 0, 0]"
    using in_cidr6_segments [of 4 0 a "0x01000000000000000000000000000000"] segments_v6(1) by (simp add: less_4)
  moreover have "in_cidr6 a 0x20010000000000000000000000000000 23 \<longleftrightarrow> segment 0 a = 0x2001 \<and> drop_bit 9 (segment 1 a) = 0"
    using in_cidr6_segments [of 1 7 a "0x20010000000000000000000000000000"] segments_v6(2) by simp
  moreover have "in_cidr6 a 0x20010DB8000000000000000000000000 32 \<longleftrightarrow> segment 0 a = 0x2001 \<and> segment 1 a = 0xDB8"
    using in_cidr6_segments [of 2 0 a "0x20010DB8000000000000000000000000"] segments_v6(3) by (simp add: less_2)
  moreover have "in_cidr6 a 0x20020000000000000000000000000000 16 \<longleftrightarrow> segment 0 a = 0x2002"
    using in_cidr6_segments [of 1 0 a "0x20020000000000000000000000000000"] segments_v6(4) by simp
  moreover have "in_cidr6 a 0xFC000000000000000000000000000000 7 \<longleftrightarrow> drop_bit 9 (segment 0 a) = 0x7E"
    using in_cidr6_segments [of 0 7 a "0xFC000000000000000000000000000000"] segments_v6(5) by simp
  moreover have "in_cidr6 a 0xFE800000000000000000000000000000 10 \<longleftrightarrow> drop_bit 6 (segment 0 a) = 0x3FA"
    using in_cidr6_segments [of 0 10 a "0xFE800000000000000000000000000000"] segments_v6(6) by simp
  moreover have "in_cidr6 a 0xFEC00000000000000000000000000000 10 \<longleftrightarrow> drop_bit 6 (segment 0 a) = 0x3FB"
    using in_cidr6_segments [of 0 10 a "0xFEC00000000000000000000000000000"] segments_v6(7) by simp
  moreover have "in_cidr6 a 0xFF000000000000000000000000000000 8 \<longleftrightarrow> drop_bit 8 (segment 0 a) = 0xFF"
    using in_cidr6_segments [of 0 8 a "0xFF000000000000000000000000000000"] segments_v6(8) by simp
  ultimately show ?thesis unfolding special_v6_def by simp blast
qed

lemma is_public_v6_registry:
  assumes "carried_v4 (V6 a) = None"
  shows "is_public_v6 a \<longleftrightarrow> \<not> list_ex (\<lambda>(base, len). in_cidr6 a base len) special_v6"
proof -
  have n: "to_ipv4_mapped a = None"
    "\<not> (map (\<lambda>i. segment i a) [0, 1, 2, 3, 4, 5] = [0, 0, 0, 0, 0, 0] \<and> \<not> (a = 0 \<or> a = 1)
      \<or> segment 0 a = 0x64 \<and> segment 1 a = 0xFF9B \<and> map (\<lambda>i. segment i a) [2, 3, 4, 5] = [0, 0, 0, 0])"
proof -
    show m: "to_ipv4_mapped a = None" using assms by (simp add: carried_v4_def mapped_cidr split: if_splits)
    have "\<not> (in_cidr6 a 0 96 \<and> a \<noteq> 0 \<and> a \<noteq> 1 \<or> in_cidr6 a 0x0064FF9B000000000000000000000000 96)"
      using assms by (simp add: carried_v4_def split: if_splits)
    then show "\<not> (map (\<lambda>i. segment i a) [0, 1, 2, 3, 4, 5] = [0, 0, 0, 0, 0, 0] \<and> \<not> (a = 0 \<or> a = 1)
      \<or> segment 0 a = 0x64 \<and> segment 1 a = 0xFF9B \<and> map (\<lambda>i. segment i a) [2, 3, 4, 5] = [0, 0, 0, 0])"
      unfolding compat_cidr nat64_cidr by argo
  qed
  have "is_public_v6 a \<longleftrightarrow> \<not> (a = 0 \<or> a = 1 \<or> v6_is_multicast a \<or> segment 0 a AND 0xFE00 = 0xFC00 \<or> segment 0 a AND 0xFFC0 = 0xFE80
      \<or> segment 0 a AND 0xFFC0 = 0xFEC0 \<or> segment 0 a = 0x2001 \<and> segment 1 a = 0x0DB8 \<or> segment 0 a = 0x2001 \<and> segment 1 a < 0x0200
      \<or> segment 0 a = 0x2002 \<or> segment 0 a = 0x0100 \<and> map (\<lambda>i. segment i a) [1, 2, 3] = [0, 0, 0])"
    unfolding is_public_v6_def n(1) option.case Let_def v6_is_unspecified_def v6_is_loopback_def
    unfolding if_not_P [OF n(2)] by argo
  then show ?thesis
    unfolding special_v6_segments multicast_segment special_masks by auto
qed

text \<open>
  A relay with the default policy resolves an exit destination only to
  addresses outside every special-purpose block: the port is not 0, the answer is
  the resolver's whole answer, and no address of it is, or carries in an IPv6
  form, an IPv4 address of the registry's blocks (loopback, private, shared,
  link-local with the cloud metadata service, multicast, documentation,
  benchmarking, reserved).
\<close>

theorem strict_exit_only_public:
  assumes "resolve_target lookup_host STRICT host port = Ok addrs"
    and "a \<in> set addrs" and "carried_v4 (sa_ip a) = Some v"
  shows "port \<noteq> 0 \<and> lookup_host host port = Ok addrs
    \<and> \<not> list_ex (\<lambda>(base, len). in_cidr v base len) special_v4"
proof -
  from assms(1) have "port \<noteq> 0" "lookup_host host port = Ok addrs" "choose_addrs STRICT addrs = Ok addrs"
    by (auto simp: resolve_target_def choose_addrs_def split: if_splits sum.splits)
  moreover from this(3) assms(2) have "is_public (sa_ip a)"
    by (auto simp: choose_addrs_def permits_target_def STRICT_def list_ex_iff split: if_splits)
  ultimately show ?thesis
    using is_public_carried [OF assms(3)] is_public_v4_registry by blast
qed

theorem strict_exit_only_public_witness:
  "\<not> list_ex (\<lambda>(base, len). in_cidr (ipv4_new 8 8 8 8) base len) special_v4"
proof -
  let ?a = "\<lparr>sa_ip = V4 (ipv4_new 8 8 8 8), sa_port = 443\<rparr>"
  have "resolve_target (\<lambda>_ _. Ok [?a]) STRICT ''dns.google'' 443 = Ok [?a]"
    by code_simp
  from strict_exit_only_public [OF this, of ?a "ipv4_new 8 8 8 8"] show ?thesis
    by (simp add: carried_v4_def)
qed

text \<open>
  The test a relay applies to an IPv4 address is the registry: an address
  is public exactly when it lies in none of the fifteen special-purpose blocks.
\<close>

theorem is_public_v4_is_registry:
  "is_public (V4 a) \<longleftrightarrow> \<not> list_ex (\<lambda>(base, len). in_cidr a base len) special_v4"
  by (simp add: is_public_def is_public_v4_registry)

end
