(* ===== verification/Nonce_Search.thy ===== *)
theory Nonce_Search
  imports Prelude
begin

unbundle bit_operations_syntax

text \<open>
  Bytes of a 64-bit count, the leading zero bits of a hash, and the search for a
  nonce that the DHT's ID puzzle and the admission's proof of work share: count
  up from zero until a test holds. The locale \<open>nonce_search\<close> states the search by
  its one equation; whenever some nonce passes the test, it returns the least.
\<close>

definition ascii_bytes :: "string \<Rightarrow> bytes" where
  "ascii_bytes s = map (\<lambda>c. of_nat (of_char c)) s"

definition u64_to_le_bytes :: "64 word \<Rightarrow> bytes" where
  "u64_to_le_bytes w = map (\<lambda>i. ucast (drop_bit (8 * i) w)) [0..<8]"

definition u64_to_be_bytes :: "64 word \<Rightarrow> bytes" where
  "u64_to_be_bytes w = rev (u64_to_le_bytes w)"

text \<open>\<^verbatim>\<open>u8::leading_zeros\<close>.\<close>

definition leading_zeros :: "u8 \<Rightarrow> nat" where
  "leading_zeros b = length (takeWhile (\<lambda>i. \<not> bit b i) (rev [0..<8]))"

lemma ascii_bytes_inject:
  "ascii_bytes s = ascii_bytes t \<longleftrightarrow> s = t"
proof -
  have "inj (\<lambda>c. of_nat (of_char c) :: u8)"
  proof (rule injI)
    fix c d :: char
    assume "(of_nat (of_char c) :: u8) = of_nat (of_char d)"
    then have "unat (of_nat (of_char c) :: u8) = unat (of_nat (of_char d) :: u8)"
      by simp
    then show "c = d"
      by (simp add: unat_of_nat take_bit_nat_eq_self)
  qed
  then show ?thesis
    by (simp add: ascii_bytes_def inj_map_eq_map)
qed

lemma length_u64_to_le_bytes [simp]: "length (u64_to_le_bytes w) = 8"
  by (simp add: u64_to_le_bytes_def)

lemma u64_to_le_bytes_inject: "u64_to_le_bytes v = u64_to_le_bytes w \<longleftrightarrow> v = w"
proof
  assume eq: "u64_to_le_bytes v = u64_to_le_bytes w"
  show "v = w"
  proof (rule bit_word_eqI)
    fix n assume n: "n < LENGTH(64)"
    then have "n div 8 < 8"
      by auto
    then have "(ucast (drop_bit (8 * (n div 8)) v) :: u8) = ucast (drop_bit (8 * (n div 8)) w)"
      using eq by (auto simp: u64_to_le_bytes_def)
    then have "bit (ucast (drop_bit (8 * (n div 8)) v) :: u8) (n mod 8) = bit (ucast (drop_bit (8 * (n div 8)) w) :: u8) (n mod 8)"
      by simp
    with n show "bit v n = bit w n"
      by (simp add: bit_ucast_iff bit_drop_bit_eq)
  qed
qed simp

locale nonce_search =
  fixes ok :: "64 word \<Rightarrow> bool"
    and search :: "64 word \<Rightarrow> 64 word option"
  assumes search: "search n = (if ok n then Some n else search (n + 1))"
begin

lemma search_first:
  assumes "ok (of_nat m)" "\<forall>k<m. \<not> ok (of_nat k)" "k \<le> m"
  shows "search (of_nat k) = Some (of_nat m)"
  using assms(3)
proof (induction "m - k" arbitrary: k)
  case 0
  with assms(1) show ?case by (subst search) simp
next
  case (Suc d)
  then have "k < m" by simp
  with assms(2) have "search (of_nat k) = search (of_nat (Suc k))"
    by (subst search) (simp add: add.commute)
  also have "\<dots> = Some (of_nat m)"
    using Suc.hyps(2) \<open>k < m\<close> by (intro Suc.hyps(1)) simp_all
  finally show ?case .
qed

lemma search_least:
  assumes "ok nonce"
  shows "\<exists>n. search 0 = Some n \<and> ok n \<and> (\<forall>k. ok k \<longrightarrow> n \<le> k)"
proof -
  let ?P = "\<lambda>k. ok (of_nat k)"
  define m where "m = (LEAST k. ?P k)"
  have ex: "?P (unat nonce)"
    using assms by simp
  have m: "?P m" "\<forall>k<m. \<not> ?P k"
    unfolding m_def using LeastI [of ?P, OF ex] not_less_Least [of _ ?P] by auto
  have "m \<le> unat nonce"
    unfolding m_def by (rule Least_le [of ?P, OF ex])
  moreover have "unat nonce < 2 ^ 64"
    using unsigned_less [of nonce] by simp
  ultimately have small: "unat (of_nat m :: 64 word) = m"
    by (simp add: unat_of_nat)
  have "of_nat m \<le> k" if "ok k" for k
  proof -
    from that have "?P (unat k)" by simp
    with m(2) have "m \<le> unat k" by (metis linorder_not_less)
    with small show ?thesis by (simp add: word_le_nat_alt)
  qed
  then show ?thesis
    using search_first [OF m, of 0] m(1) by auto
qed

end

end
