(* ===== verification/Dht_Node.thy ===== *)
theory Dht_Node
  imports Net_Addr Nonce_Search "HOL-Library.List_Lexorder"
begin

unbundle bit_operations_syntax

text \<open>
  The identity of a DHT node (\<^verbatim>\<open>hidra-node/src/p2p/dht/node.rs\<close>): the ID puzzle,
  the IDs, their XOR distance and the bucket an ID falls in. A \<^verbatim>\<open>[u8; 20]\<close> is a
  byte list; \<open>id_ok\<close> says it has the array's length. BLAKE3 is a parameter
  \<open>blake3\<close> wherever a hash is taken. \<open>solve_id_puzzle\<close> is a loop that may not
  end, so it is a partial function; where some nonce solves the puzzle, it
  returns, with the first one.

  The lemmas read a distance as the number its bytes spell: comparing byte
  arrays is comparing those numbers, and \<open>bucket_index\<close> is their binary
  logarithm.
\<close>

type_synonym node_id = bytes

definition ID_LEN :: nat where
  "ID_LEN = 20"

definition ID_BITS :: nat where
  "ID_BITS = ID_LEN * 8"

definition MAX_ID_PUZZLE_BITS :: nat where
  "MAX_ID_PUZZLE_BITS = 64"

definition ID_DOMAIN :: bytes where
  "ID_DOMAIN = ascii_bytes ''hidra/node-id/v1''"

definition id_hash :: "(bytes \<Rightarrow> bytes) \<Rightarrow> bytes \<Rightarrow> 64 word \<Rightarrow> bytes" where
  "id_hash blake3 public_key nonce = blake3 (ID_DOMAIN @ public_key @ u64_to_le_bytes nonce)"

fun leading_zero_bits :: "bytes \<Rightarrow> nat" where
  "leading_zero_bits [] = 0"
| "leading_zero_bits (b # bs) = (if b = 0 then 8 + leading_zero_bits bs else leading_zeros b)"

definition id_puzzle_ok :: "(bytes \<Rightarrow> bytes) \<Rightarrow> bytes \<Rightarrow> 64 word \<Rightarrow> nat \<Rightarrow> bool" where
  "id_puzzle_ok blake3 public_key nonce bits \<longleftrightarrow>
     min bits MAX_ID_PUZZLE_BITS \<le> leading_zero_bits (drop ID_LEN (id_hash blake3 public_key nonce))"

partial_function (option) solve_loop ::
  "(bytes \<Rightarrow> bytes) \<Rightarrow> bytes \<Rightarrow> nat \<Rightarrow> 64 word \<Rightarrow> 64 word option" where
  "solve_loop blake3 public_key bits nonce =
     (if bits \<le> leading_zero_bits (drop ID_LEN (id_hash blake3 public_key nonce)) then Some nonce
      else solve_loop blake3 public_key bits (nonce + 1))"

definition solve_id_puzzle :: "(bytes \<Rightarrow> bytes) \<Rightarrow> bytes \<Rightarrow> nat \<Rightarrow> 64 word option" where
  "solve_id_puzzle blake3 public_key bits =
     solve_loop blake3 public_key (min bits MAX_ID_PUZZLE_BITS) 0"

definition for_node :: "(bytes \<Rightarrow> bytes) \<Rightarrow> bytes \<Rightarrow> 64 word \<Rightarrow> node_id" where
  "for_node blake3 public_key nonce = take ID_LEN (id_hash blake3 public_key nonce)"

definition from_public_key :: "(bytes \<Rightarrow> bytes) \<Rightarrow> bytes \<Rightarrow> node_id" where
  "from_public_key blake3 pubkey = take ID_LEN (blake3 pubkey)"

definition xor_distance :: "node_id \<Rightarrow> node_id \<Rightarrow> bytes" where
  "xor_distance a b = map2 (\<lambda>x y. x XOR y) a b"

fun leading_bit_from :: "nat \<Rightarrow> bytes \<Rightarrow> nat option" where
  "leading_bit_from i [] = None"
| "leading_bit_from i (b # bs) =
     (if b \<noteq> 0 then Some ((ID_LEN - 1 - i) * 8 + (7 - leading_zeros b))
      else leading_bit_from (Suc i) bs)"

definition leading_bit_position :: "bytes \<Rightarrow> nat option" where
  "leading_bit_position data = leading_bit_from 0 data"

definition bucket_index :: "node_id \<Rightarrow> node_id \<Rightarrow> nat option" where
  "bucket_index a b = leading_bit_position (xor_distance a b)"

definition is_closer :: "node_id \<Rightarrow> node_id \<Rightarrow> node_id \<Rightarrow> bool" where
  "is_closer self target other \<longleftrightarrow> xor_distance self target < xor_distance other target"

record node_info =
  ni_id :: node_id
  dht_addr :: socket_addr
  relay_addr :: "socket_addr option"
  ni_public_key :: bytes
  id_nonce :: "64 word"

definition is_relay :: "node_info \<Rightarrow> bool" where
  "is_relay n \<longleftrightarrow> relay_addr n \<noteq> None"

definition id_is_valid :: "(bytes \<Rightarrow> bytes) \<Rightarrow> node_info \<Rightarrow> nat \<Rightarrow> bool" where
  "id_is_valid blake3 n bits \<longleftrightarrow>
     ni_id n = for_node blake3 (ni_public_key n) (id_nonce n)
     \<and> id_puzzle_ok blake3 (ni_public_key n) (id_nonce n) bits"

definition id_ok :: "node_id \<Rightarrow> bool" where
  "id_ok a \<longleftrightarrow> length a = ID_LEN"

section \<open>Distances as numbers\<close>

fun be_val :: "bytes \<Rightarrow> nat" where
  "be_val [] = 0"
| "be_val (x # xs) = unat x * 256 ^ length xs + be_val xs"

lemma unat_u8_less: "unat x < 256" for x :: u8
  using unsigned_less [of x] by simp

lemma be_val_zeros: "\<forall>x\<in>set xs. x = 0 \<Longrightarrow> be_val xs = 0"
  by (induction xs) auto

lemma be_val_leading: "be_val (replicate n 0 @ xs) = be_val xs"
  by (induction n) auto

lemma be_val_less: "be_val xs < 256 ^ length xs"
proof (induction xs)
  case (Cons x xs)
  have "unat x * 256 ^ length xs + be_val xs < (unat x + 1) * 256 ^ length xs"
    using Cons.IH by simp
  also have "\<dots> \<le> 256 * 256 ^ length xs"
    using unat_u8_less [of x] by (intro mult_right_mono) simp_all
  finally show ?case by simp
qed simp

lemma be_val_less_iff: "length xs = length ys \<Longrightarrow> xs < ys \<longleftrightarrow> be_val xs < be_val ys"
proof (induction xs ys rule: list_induct2)
  case (Cons x xs y ys)
  have len: "256 ^ length xs = (256 ^ length ys :: nat)"
    using Cons.hyps by simp
  consider "x < y" | "x = y" | "y < x"
    by fastforce
  then show ?case
  proof cases
    case 1
    then have "unat x + 1 \<le> unat y"
      by (simp add: word_less_nat_alt)
    then have "(unat x + 1) * 256 ^ length xs \<le> unat y * 256 ^ length ys"
      unfolding len by (rule mult_right_mono) simp
    then show ?thesis
      using 1 be_val_less [of xs] by simp
  next
    case 2
    then show ?thesis
      using Cons.IH len by simp
  next
    case 3
    then have "unat y + 1 \<le> unat x"
      by (simp add: word_less_nat_alt)
    then have "(unat y + 1) * 256 ^ length ys \<le> unat x * 256 ^ length xs"
      unfolding len by (rule mult_right_mono) simp
    then show ?thesis
      using 3 be_val_less [of ys] by auto
  qed
qed simp

lemma be_val_inj: "length xs = length ys \<Longrightarrow> be_val xs = be_val ys \<Longrightarrow> xs = ys"
  using be_val_less_iff [of xs ys] be_val_less_iff [of ys xs] by force

lemma length_xor_distance [simp]: "length (xor_distance a b) = min (length a) (length b)"
  by (simp add: xor_distance_def)

lemma xor_distance_commute: "xor_distance a b = xor_distance b a"
  by (induction a b rule: list_induct2') (auto simp: xor_distance_def xor.commute)

lemma xor_twice: "x XOR (x XOR y) = y" for x y :: u8
  by (simp flip: xor.assoc)

lemma xor_distance_cancel:
  "length a = length b \<Longrightarrow> length b = length c \<Longrightarrow> xor_distance a b = xor_distance a c \<longleftrightarrow> b = c"
proof (induction a b c rule: list_induct3)
  case (Cons x xs y ys z zs)
  have "x XOR y = x XOR z \<longleftrightarrow> y = z"
    using xor_twice [of x y] xor_twice [of x z] by metis
  with Cons.IH show ?case
    by (simp add: xor_distance_def)
qed (simp add: xor_distance_def)

lemma xor_distance_zero: "length a = length b \<Longrightarrow> (\<forall>x\<in>set (xor_distance a b). x = 0) \<longleftrightarrow> a = b"
proof (induction a b rule: list_induct2)
  case (Cons x xs y ys)
  have "x XOR y = 0 \<longleftrightarrow> x = y"
    by (auto dest: arg_cong [where f = "\<lambda>z. x XOR z"] simp: xor_twice)
  with Cons.IH show ?case
    by (simp add: xor_distance_def)
qed (simp add: xor_distance_def)

text \<open>The highest bit of a byte, and of a byte string.\<close>

lemma unat_bits:
  "unat b = of_bool (bit b 0) + 2 * of_bool (bit b 1) + 4 * of_bool (bit b 2) + 8 * of_bool (bit b 3)
     + 16 * of_bool (bit b 4) + 32 * of_bool (bit b 5) + 64 * of_bool (bit b 6) + 128 * of_bool (bit b 7)"
  for b :: u8
proof -
  have "unat b = take_bit 8 (unat b)"
    using unat_u8_less [of b] by (simp add: take_bit_nat_eq_self)
  also have "\<dots> = horner_sum of_bool 2 (map (bit (unat b)) [0..<8])"
    by (simp add: horner_sum_bit_eq_take_bit)
  also have "map (bit (unat b)) [0..<8] = map (bit b) [0..<8]"
    by (auto simp: bit_unsigned_iff)
  also have "[0..<8] = [0, 1, 2, 3, 4, 5, 6, 7 :: nat]"
    by code_simp
  finally show ?thesis
    by simp
qed

lemma leading_zeros_bounds:
  assumes "b \<noteq> 0"
  shows "leading_zeros b \<le> 7" "2 ^ (7 - leading_zeros b) \<le> unat b" "unat b < 2 ^ (8 - leading_zeros b)"
proof -
  have "rev [0..<8] = [7, 6, 5, 4, 3, 2, 1, 0 :: nat]"
    by code_simp
  then have z: "leading_zeros b = length (takeWhile (\<lambda>i. \<not> bit b i) [7, 6, 5, 4, 3, 2, 1, 0])"
    by (simp only: leading_zeros_def)
  have "unat b \<noteq> 0"
    using assms unat_eq_zero by blast
  then have "leading_zeros b \<le> 7 \<and> 2 ^ (7 - leading_zeros b) \<le> unat b \<and> unat b < 2 ^ (8 - leading_zeros b)"
    unfolding z unat_bits [of b] takeWhile.simps of_bool_def by (cases "bit b 7"; cases "bit b 6";
      cases "bit b 5"; cases "bit b 4"; cases "bit b 3"; cases "bit b 2"; simp split: if_splits)
  then show "leading_zeros b \<le> 7" "2 ^ (7 - leading_zeros b) \<le> unat b" "unat b < 2 ^ (8 - leading_zeros b)"
    by blast+
qed

lemma leading_bit_from_val:
  "i + length d = ID_LEN \<Longrightarrow> leading_bit_from i d = Some k \<Longrightarrow> 2 ^ k \<le> be_val d \<and> be_val d < 2 ^ Suc k"
proof (induction i d rule: leading_bit_from.induct)
  case (2 i b bs)
  show ?case
  proof (cases "b = 0")
    case True
    with 2 show ?thesis by simp
  next
    case False
    let ?z = "leading_zeros b" and ?n = "length bs"
    have n: "ID_LEN - 1 - i = ?n"
      using 2 by simp
    with 2 False have k: "k = ?n * 8 + (7 - ?z)"
      by simp
    have n8: "(2::nat) ^ (?n * 8) = 256 ^ ?n"
      by (simp add: mult.commute [of ?n] power_mult)
    have Sk: "Suc k = ?n * 8 + (8 - ?z)"
      using leading_zeros_bounds(1) [OF False] k by simp
    have p: "(2::nat) ^ k = 2 ^ (7 - ?z) * 256 ^ ?n" "(2::nat) ^ Suc k = 2 ^ (8 - ?z) * 256 ^ ?n"
      unfolding Sk unfolding k power_add n8 by simp_all
    have "2 ^ (7 - ?z) * 256 ^ ?n \<le> unat b * 256 ^ ?n"
      using leading_zeros_bounds(2) [OF False] by (rule mult_right_mono) simp
    moreover have "(unat b + 1) * 256 ^ ?n \<le> 2 ^ (8 - ?z) * 256 ^ ?n"
      using leading_zeros_bounds(3) [OF False] by (intro mult_right_mono) simp_all
    ultimately show ?thesis
      using be_val_less [of bs] unfolding p be_val.simps distrib_right by linarith
  qed
qed simp

lemma leading_bit_from_None: "leading_bit_from i d = None \<longleftrightarrow> (\<forall>x\<in>set d. x = 0)"
  by (induction i d rule: leading_bit_from.induct) auto

lemma log2_unique: "2 ^ i \<le> n \<Longrightarrow> n < 2 ^ Suc i \<Longrightarrow> 2 ^ k \<le> n \<Longrightarrow> n < 2 ^ Suc k \<Longrightarrow> i = k"
  for n i k :: nat
proof -
  assume "2 ^ i \<le> n" "n < 2 ^ Suc i" "2 ^ k \<le> n" "n < 2 ^ Suc k"
  then have "(2::nat) ^ i < 2 ^ Suc k" "(2::nat) ^ k < 2 ^ Suc i"
    by linarith+
  then have "i < Suc k" "k < Suc i"
    by (auto intro: power_less_imp_less_exp [rotated] simp del: power_Suc)
  then show "i = k" by simp
qed

lemma bucket_index_None: "id_ok a \<Longrightarrow> id_ok b \<Longrightarrow> bucket_index a b = None \<longleftrightarrow> a = b"
  by (simp add: bucket_index_def leading_bit_position_def leading_bit_from_None xor_distance_zero id_ok_def)

lemma bucket_index_Some:
  assumes "id_ok a" "id_ok b"
  shows "bucket_index a b = Some i \<longleftrightarrow>
    2 ^ i \<le> be_val (xor_distance a b) \<and> be_val (xor_distance a b) < 2 ^ Suc i"
proof -
  let ?d = "xor_distance a b"
  have len: "0 + length ?d = ID_LEN"
    using assms by (simp add: id_ok_def)
  note val = leading_bit_from_val [OF len]
  show ?thesis
  proof (cases "leading_bit_from 0 ?d")
    case None
    then have "be_val ?d = 0"
      unfolding leading_bit_from_None by (rule be_val_zeros)
    with None show ?thesis
      by (simp add: bucket_index_def leading_bit_position_def)
  next
    case (Some k)
    with val log2_unique show ?thesis
      unfolding bucket_index_def leading_bit_position_def by (metis option.inject)
  qed
qed

lemma bucket_index_less: "id_ok a \<Longrightarrow> id_ok b \<Longrightarrow> bucket_index a b = Some i \<Longrightarrow> i < ID_BITS"
proof -
  assume a: "id_ok a" "id_ok b" "bucket_index a b = Some i"
  then have "2 ^ i \<le> be_val (xor_distance a b)"
    by (simp add: bucket_index_Some)
  also have "\<dots> < 256 ^ ID_LEN"
    using be_val_less [of "xor_distance a b"] a by (simp add: id_ok_def)
  also have "(256 :: nat) ^ ID_LEN = 2 ^ ID_BITS"
    by (simp add: ID_BITS_def ID_LEN_def)
  finally show "i < ID_BITS"
    by (simp add: power_strict_increasing_iff)
qed

lemma bucket_index_commute: "bucket_index a b = bucket_index b a"
  by (simp add: bucket_index_def xor_distance_commute)

section \<open>The puzzle\<close>

interpretation id_search: nonce_search
  "\<lambda>n. bits \<le> leading_zero_bits (drop ID_LEN (id_hash blake3 pk n))" "solve_loop blake3 pk bits"
  for bits blake3 pk
  by unfold_locales (rule solve_loop.simps)

lemma solve_id_puzzle_least:
  assumes "id_puzzle_ok blake3 pk nonce bits"
  shows "\<exists>n. solve_id_puzzle blake3 pk bits = Some n \<and> id_puzzle_ok blake3 pk n bits
    \<and> (\<forall>k. id_puzzle_ok blake3 pk k bits \<longrightarrow> n \<le> k)"
  using id_search.search_least [of "min bits MAX_ID_PUZZLE_BITS" blake3 pk nonce] assms
  by (simp add: solve_id_puzzle_def id_puzzle_ok_def)

text \<open>
  The puzzle solver returns whenever the puzzle has a solution, and
  with the least nonce that solves it, so a node that keeps its key keeps its
  ID across restarts; and the ID derived with that nonce is accepted by
  \<open>id_is_valid\<close>.
\<close>

theorem solve_id_puzzle_total:
  assumes "id_puzzle_ok blake3 pk nonce bits"
  shows "\<exists>n. solve_id_puzzle blake3 pk bits = Some n
    \<and> (\<forall>k. id_puzzle_ok blake3 pk k bits \<longrightarrow> n \<le> k)
    \<and> id_is_valid blake3 \<lparr>ni_id = for_node blake3 pk n, dht_addr = a, relay_addr = r,
         ni_public_key = pk, id_nonce = n\<rparr> bits"
  using solve_id_puzzle_least [OF assms] by (auto simp: id_is_valid_def)

theorem solve_id_puzzle_total_witness:
  "\<exists>n. solve_id_puzzle (\<lambda>m. replicate 31 0 @ [last m]) (replicate 32 7) 70 = Some n"
proof -
  have "id_puzzle_ok (\<lambda>m. replicate 31 0 @ [last m]) (replicate 32 7) 5 70"
    by code_simp
  from solve_id_puzzle_total [OF this] show ?thesis
    by blast
qed

text \<open>
  The bucket of an ID is the binary logarithm of its XOR distance, read
  as a 160-bit number: bucket \<open>i\<close> holds exactly the IDs at distance \<open>2^i\<close> to
  \<open>2^(i+1) - 1\<close>, the index is below 160, and only the node's own ID has none.
\<close>

theorem bucket_index_is_log2:
  assumes "id_ok a" "id_ok b"
  shows "(bucket_index a b = Some i \<longleftrightarrow>
      2 ^ i \<le> be_val (xor_distance a b) \<and> be_val (xor_distance a b) < 2 ^ Suc i)
    \<and> (bucket_index a b = None \<longleftrightarrow> a = b)
    \<and> (bucket_index a b = Some i \<longrightarrow> i < 160)"
  using assms bucket_index_Some bucket_index_None bucket_index_less
  by (simp add: ID_BITS_def ID_LEN_def)

theorem bucket_index_is_log2_witness:
  "bucket_index (replicate 20 0) (replicate 18 0 @ [5, 0]) = Some 10"
proof -
  have "xor_distance (replicate 20 0) (replicate 18 0 @ [5, 0]) = replicate 18 0 @ [5, 0]"
    by code_simp
  then have "be_val (xor_distance (replicate 20 0) (replicate 18 0 @ [5, 0])) = 1280"
    by (simp add: be_val_leading)
  then show ?thesis
    using bucket_index_is_log2 [of "replicate 20 0" "replicate 18 0 @ [5, 0]" 10]
    by (simp add: id_ok_def ID_LEN_def)
qed

end
