(* ===== verification/Routing_Table.thy ===== *)
theory Routing_Table
  imports Dht_Node "HOL-Library.Multiset"
begin

unbundle bit_operations_syntax

text \<open>
  The Kademlia routing table (\<^verbatim>\<open>hidra-node/src/p2p/dht/kbuckets.rs\<close>): network
  neighbourhoods, one bucket's update, removal and queries, and the table of
  \<open>ID_BITS\<close> buckets. \<^verbatim>\<open>Instant::now()\<close> is the argument \<open>now\<close>, in seconds; the shuffle
  of \<open>find_relays\<close> is a parameter.

  \<open>table_inv\<close> is what the table promises: every seat is in the bucket of its ID,
  a bucket holds at most \<open>K\<close> seats with distinct IDs, and one network
  neighbourhood has at most two seats of a bucket and ten of the table. The
  steps of \<open>table_step\<close> are everything the node does to its table; the invariant
  holds in every reachable table.
\<close>

definition K :: nat where
  "K = 20"

definition MAX_PER_PREFIX_IN_BUCKET :: nat where
  "MAX_PER_PREFIX_IN_BUCKET = 2"

definition MAX_PER_PREFIX_IN_TABLE :: nat where
  "MAX_PER_PREFIX_IN_TABLE = 10"

section \<open>Neighbourhoods\<close>

datatype neighbourhood = Prefix bytes | Host ip_addr

definition diversity_prefix_v4 :: "ipv4 \<Rightarrow> bytes option" where
  "diversity_prefix_v4 v4 =
     (if v4_is_loopback v4 \<or> v4_is_private v4 \<or> v4_is_link_local v4 \<or> v4_is_unspecified v4 then None
      else Some [4, octet 0 v4, octet 1 v4, octet 2 v4, 0, 0, 0])"

definition diversity_prefix :: "socket_addr \<Rightarrow> bytes option" where
  "diversity_prefix addr = (case sa_ip addr of
      V4 v4 \<Rightarrow> diversity_prefix_v4 v4
    | V6 v6 \<Rightarrow> (case to_ipv4_mapped v6 of
        Some v4 \<Rightarrow> diversity_prefix_v4 v4
      | None \<Rightarrow>
          (let unique_local = segment 0 v6 AND 0xFE00 = 0xFC00;
               link_local = segment 0 v6 AND 0xFFC0 = 0xFE80 in
           if v6_is_loopback v6 \<or> v6_is_unspecified v6 \<or> unique_local \<or> link_local then None
           else Some (6 # map (\<lambda>i. octet6 i v6) [0, 1, 2, 3, 4, 5]))))"

definition neighbourhood_of :: "socket_addr \<Rightarrow> neighbourhood" where
  "neighbourhood_of addr = (case diversity_prefix addr of
      Some p \<Rightarrow> Prefix p
    | None \<Rightarrow> Host (sa_ip addr))"

section \<open>A bucket\<close>

record bucket_entry =
  be_info :: node_info
  last_seen :: nat

type_synonym kbucket = "bucket_entry list"

abbreviation entry_id :: "bucket_entry \<Rightarrow> node_id" where
  "entry_id e \<equiv> ni_id (be_info e)"

abbreviation entry_addr :: "bucket_entry \<Rightarrow> socket_addr" where
  "entry_addr e \<equiv> dht_addr (be_info e)"

datatype update_result =
    Inserted
  | Updated
  | BucketFull node_id
  | TooManyFromPrefix
  | AddressKept

definition is_full :: "kbucket \<Rightarrow> bool" where
  "is_full es \<longleftrightarrow> K \<le> length es"

definition bucket_contains :: "kbucket \<Rightarrow> node_id \<Rightarrow> bool" where
  "bucket_contains es i \<longleftrightarrow> list_ex (\<lambda>e. entry_id e = i) es"

definition count_prefix :: "kbucket \<Rightarrow> bytes \<Rightarrow> node_id \<Rightarrow> nat" where
  "count_prefix es prefix except =
     length (filter (\<lambda>e. entry_id e \<noteq> except \<and> diversity_prefix (entry_addr e) = Some prefix) es)"

definition update_or_insert :: "nat \<Rightarrow> node_info \<Rightarrow> kbucket \<Rightarrow> kbucket \<times> update_result" where
  "update_or_insert now info es =
     (case position (\<lambda>e. entry_id e = ni_id info) es of
        Some pos \<Rightarrow>
          (if entry_addr (es ! pos) \<noteq> dht_addr info then (es, AddressKept)
           else (let es' = es[pos := \<lparr>be_info = info, last_seen = now\<rparr>];
                     entry = es' ! pos
                 in (remove_at pos es' @ [entry], Updated)))
      | None \<Rightarrow>
          (if \<not> is_full es then (es @ [\<lparr>be_info = info, last_seen = now\<rparr>], Inserted)
           else (es, BucketFull (entry_id (es ! 0)))))"

definition bucket_remove :: "node_id \<Rightarrow> kbucket \<Rightarrow> kbucket \<times> bool" where
  "bucket_remove i es =
     (case position (\<lambda>e. entry_id e = i) es of
        Some pos \<Rightarrow> (remove_at pos es, True)
      | None \<Rightarrow> (es, False))"

definition get_nodes :: "kbucket \<Rightarrow> node_info list" where
  "get_nodes es = map be_info es"

definition bucket_stale_nodes :: "nat \<Rightarrow> nat \<Rightarrow> kbucket \<Rightarrow> node_id list" where
  "bucket_stale_nodes now timeout es =
     map entry_id (filter (\<lambda>e. timeout < now - last_seen e) es)"

section \<open>The table\<close>

record routing_table =
  our_id :: node_id
  buckets :: "kbucket list"

definition new_table :: "node_id \<Rightarrow> routing_table" where
  "new_table i = \<lparr>our_id = i, buckets = replicate ID_BITS []\<rparr>"

definition update :: "nat \<Rightarrow> node_info \<Rightarrow> routing_table \<Rightarrow> routing_table \<times> update_result" where
  "update now info t =
     (if ni_id info = our_id t then (t, Updated)
      else (case bucket_index (our_id t) (ni_id info) of
              None \<Rightarrow> (t, Updated)
            | Some idx \<Rightarrow>
                (let too_many = (case diversity_prefix (dht_addr info) of
                        None \<Rightarrow> False
                      | Some prefix \<Rightarrow>
                          (let in_bucket = count_prefix (buckets t ! idx) prefix (ni_id info);
                               in_table = sum_list (map (\<lambda>b. count_prefix b prefix (ni_id info)) (buckets t))
                           in MAX_PER_PREFIX_IN_BUCKET \<le> in_bucket \<or> MAX_PER_PREFIX_IN_TABLE \<le> in_table))
                 in if too_many then (t, TooManyFromPrefix)
                    else (let (es, r) = update_or_insert now info (buckets t ! idx)
                          in (t\<lparr>buckets := (buckets t)[idx := es]\<rparr>, r)))))"

definition remove :: "node_id \<Rightarrow> routing_table \<Rightarrow> routing_table" where
  "remove i t = (case bucket_index (our_id t) i of
      Some idx \<Rightarrow> t\<lparr>buckets := (buckets t)[idx := fst (bucket_remove i (buckets t ! idx))]\<rparr>
    | None \<Rightarrow> t)"

definition all_nodes :: "routing_table \<Rightarrow> node_info list" where
  "all_nodes t = concat (map get_nodes (buckets t))"

definition find_closest :: "routing_table \<Rightarrow> node_id \<Rightarrow> nat \<Rightarrow> node_info list" where
  "find_closest t target limit =
     take limit (sort_key (\<lambda>n. xor_distance (ni_id n) target) (all_nodes t))"

definition find_relays ::
  "(node_info list \<Rightarrow> node_info list) \<Rightarrow> routing_table \<Rightarrow> nat \<Rightarrow> node_info list" where
  "find_relays shuffle t limit = take limit (shuffle (filter is_relay (all_nodes t)))"

definition stale_nodes :: "nat \<Rightarrow> nat \<Rightarrow> routing_table \<Rightarrow> node_id list" where
  "stale_nodes now timeout t = concat (map (bucket_stale_nodes now timeout) (buckets t))"

definition total_nodes :: "routing_table \<Rightarrow> nat" where
  "total_nodes t = sum_list (map length (buckets t))"

definition address_of :: "routing_table \<Rightarrow> node_id \<Rightarrow> socket_addr option" where
  "address_of t i = (case bucket_index (our_id t) i of
      None \<Rightarrow> None
    | Some idx \<Rightarrow> map_option entry_addr (find (\<lambda>e. entry_id e = i) (buckets t ! idx)))"

definition table_contains :: "routing_table \<Rightarrow> node_id \<Rightarrow> bool" where
  "table_contains t i = (case bucket_index (our_id t) i of
      Some idx \<Rightarrow> bucket_contains (buckets t ! idx) i
    | None \<Rightarrow> False)"

section \<open>The invariant\<close>

definition prefix_count :: "bytes \<Rightarrow> kbucket \<Rightarrow> nat" where
  "prefix_count p es = length (filter (\<lambda>e. diversity_prefix (entry_addr e) = Some p) es)"

definition bucket_ok :: "node_id \<Rightarrow> nat \<Rightarrow> kbucket \<Rightarrow> bool" where
  "bucket_ok own i es \<longleftrightarrow>
     length es \<le> K \<and> distinct (map entry_id es)
     \<and> (\<forall>e\<in>set es. id_ok (entry_id e) \<and> bucket_index own (entry_id e) = Some i)
     \<and> (\<forall>p. prefix_count p es \<le> MAX_PER_PREFIX_IN_BUCKET)"

definition table_inv :: "routing_table \<Rightarrow> bool" where
  "table_inv t \<longleftrightarrow>
     id_ok (our_id t) \<and> length (buckets t) = ID_BITS
     \<and> (\<forall>i<ID_BITS. bucket_ok (our_id t) i (buckets t ! i))
     \<and> (\<forall>p. sum_list (map (prefix_count p) (buckets t)) \<le> MAX_PER_PREFIX_IN_TABLE)"

abbreviation seat :: "bucket_entry \<Rightarrow> node_id \<times> socket_addr" where
  "seat e \<equiv> (entry_id e, entry_addr e)"

text \<open>What one bucket's update does to the seats: nothing, a refresh, or one more.\<close>

lemma update_or_insert_cases:
  assumes "update_or_insert now info es = (es', r)"
  obtains (same) "es' = es" "r \<notin> {Inserted, Updated}"
  | (refreshed) "r = Updated" "mset (map seat es') = mset (map seat es)"
      "(ni_id info, dht_addr info) \<in> seat ` set es"
  | (inserted) "r = Inserted" "es' = es @ [\<lparr>be_info = info, last_seen = now\<rparr>]" "length es < K"
      "ni_id info \<notin> set (map entry_id es)"
proof (cases "position (\<lambda>e. entry_id e = ni_id info) es")
  case None
  then have new: "ni_id info \<notin> set (map entry_id es)"
    by (auto simp: position_None)
  show ?thesis
  proof (cases "K \<le> length es")
    case True
    with assms None show ?thesis by (intro same) (auto simp: update_or_insert_def is_full_def)
  next
    case False
    with assms None new show ?thesis by (intro inserted) (auto simp: update_or_insert_def is_full_def)
  qed
next
  case (Some pos)
  then obtain ys x zs where es: "es = ys @ x # zs" "length ys = pos" "entry_id x = ni_id info"
    by (rule position_split) auto
  show ?thesis
  proof (cases "entry_addr x = dht_addr info")
    case True
    then have "es' = ys @ zs @ [\<lparr>be_info = info, last_seen = now\<rparr>]" "r = Updated"
      using assms Some es by (auto simp: update_or_insert_def Let_def remove_at_def)
    then show ?thesis
      using es True by (intro refreshed) (auto intro: image_eqI [of _ _ x])
  next
    case False
    then show ?thesis
      using assms Some es by (intro same) (auto simp: update_or_insert_def)
  qed
qed

lemma prefix_count_mset:
  "mset (map seat es') = mset (map seat es) \<Longrightarrow> prefix_count p es' = prefix_count p es"
proof -
  have c: "prefix_count p xs = size (filter_mset (\<lambda>(i, a). diversity_prefix a = Some p) (mset (map seat xs)))" for xs
    unfolding prefix_count_def by (induction xs) auto
  assume "mset (map seat es') = mset (map seat es)"
  then show ?thesis by (simp add: c)
qed

lemma prefix_count_simps [simp]:
  "prefix_count p [] = 0"
  "prefix_count p (xs @ ys) = prefix_count p xs + prefix_count p ys"
  "prefix_count p [e] = (if diversity_prefix (entry_addr e) = Some p then 1 else 0)"
  by (simp_all add: prefix_count_def)

lemma count_prefix_absent:
  "i \<notin> set (map entry_id es) \<Longrightarrow> count_prefix es p i = prefix_count p es"
  unfolding count_prefix_def prefix_count_def by (induction es) auto


lemma prefix_count_le_remove: "prefix_count p (ys @ zs) \<le> prefix_count p (ys @ x # zs)"
  by (simp add: prefix_count_def)

lemma bucket_ok_mset:
  assumes "mset (map seat es') = mset (map seat es)" "bucket_ok own i es"
  shows "bucket_ok own i es'"
proof -
  have ids: "map entry_id es = map fst (map seat es)" "map entry_id es' = map fst (map seat es')"
    by simp_all
  have "length es' = length es"
    using assms(1) mset_eq_length by fastforce
  moreover have "mset (map entry_id es') = mset (map entry_id es)"
    unfolding ids mset_map [of fst] assms(1) by simp
  then have "distinct (map entry_id es') = distinct (map entry_id es)" "entry_id ` set es' = entry_id ` set es"
    using mset_eq_imp_distinct_iff mset_eq_setD by (blast, fastforce)
  ultimately show ?thesis
    using assms(2) unfolding bucket_ok_def prefix_count_mset [OF assms(1)] by (metis imageE imageI)
qed

lemma bucket_ok_remove:
  assumes "bucket_ok own i (ys @ x # zs)"
  shows "bucket_ok own i (ys @ zs)"
proof -
  have "prefix_count p (ys @ zs) \<le> MAX_PER_PREFIX_IN_BUCKET" for p
    using assms prefix_count_le_remove [of p ys zs x] order_trans unfolding bucket_ok_def by blast
  then show ?thesis
    using assms by (simp add: bucket_ok_def del: prefix_count_simps)
qed

lemma table_invD:
  assumes "table_inv t"
  shows "id_ok (our_id t)" "length (buckets t) = ID_BITS"
    "i < ID_BITS \<Longrightarrow> bucket_ok (our_id t) i (buckets t ! i)"
    "sum_list (map (prefix_count p) (buckets t)) \<le> MAX_PER_PREFIX_IN_TABLE"
  using assms by (auto simp: table_inv_def)

text \<open>Replacing one bucket keeps the invariant if that bucket and the counts of the table allow it.\<close>

lemma table_inv_bucket:
  assumes "table_inv t" "i < ID_BITS" "bucket_ok (our_id t) i es"
    and "\<And>p. sum_list (map (prefix_count p) ((buckets t)[i := es])) \<le> MAX_PER_PREFIX_IN_TABLE"
  shows "table_inv (t\<lparr>buckets := (buckets t)[i := es]\<rparr>)"
  using assms by (auto simp: table_inv_def nth_list_update)

lemma sum_prefix_update:
  assumes "table_inv t" "i < ID_BITS"
  shows "sum_list (map (prefix_count p) ((buckets t)[i := es]))
    = sum_list (map (prefix_count p) (buckets t)) + prefix_count p es - prefix_count p (buckets t ! i)"
  using assms table_invD(2) [OF assms(1)]
  by (simp add: map_update sum_list_update)

lemma other_bucket_absent:
  assumes "table_inv t" "bucket_index (our_id t) i = Some idx" "j < ID_BITS" "j \<noteq> idx"
  shows "i \<notin> set (map entry_id (buckets t ! j))"
  using table_invD(3) [OF assms(1,3)] assms(2,4) by (auto simp: bucket_ok_def)

lemma count_prefix_table:
  assumes "table_inv t" "bucket_index (our_id t) i = Some idx" "i \<notin> set (map entry_id (buckets t ! idx))"
  shows "map (\<lambda>b. count_prefix b p i) (buckets t) = map (prefix_count p) (buckets t)"
proof (rule map_cong [OF refl])
  fix b assume "b \<in> set (buckets t)"
  then obtain j where "j < ID_BITS" "b = buckets t ! j"
    using table_invD(2) [OF assms(1)] by (auto simp: in_set_conv_nth)
  then have "i \<notin> set (map entry_id b)"
    using other_bucket_absent [OF assms(1,2)] assms(3) by (cases "j = idx") auto
  then show "count_prefix b p i = prefix_count p b"
    by (rule count_prefix_absent)
qed

text \<open>The branches of \<open>update\<close> that touch a bucket, with the limits that were checked.\<close>

lemma update_cases:
  assumes "update now info t = (t', r)"
  obtains (same) "t' = t" "r \<noteq> Inserted" "r = Updated \<Longrightarrow> bucket_index (our_id t) (ni_id info) = None \<or> ni_id info = our_id t"
  | (bucket) idx es where "bucket_index (our_id t) (ni_id info) = Some idx"
      "update_or_insert now info (buckets t ! idx) = (es, r)"
      "t' = t\<lparr>buckets := (buckets t)[idx := es]\<rparr>" "ni_id info \<noteq> our_id t"
      "\<And>p. diversity_prefix (dht_addr info) = Some p \<Longrightarrow>
          count_prefix (buckets t ! idx) p (ni_id info) < MAX_PER_PREFIX_IN_BUCKET
          \<and> sum_list (map (\<lambda>b. count_prefix b p (ni_id info)) (buckets t)) < MAX_PER_PREFIX_IN_TABLE"
proof (cases "ni_id info = our_id t \<or> bucket_index (our_id t) (ni_id info) = None")
  case True
  with assms show ?thesis
    by (auto simp: update_def split: if_splits intro!: same)
next
  case False
  then obtain idx where idx: "bucket_index (our_id t) (ni_id info) = Some idx"
    by auto
  obtain es r' where u: "update_or_insert now info (buckets t ! idx) = (es, r')"
    by fastforce
  show ?thesis
  proof (cases "update now info t = (t, TooManyFromPrefix)")
    case True
    with assms show ?thesis by (intro same) auto
  next
    case False
    then show ?thesis
      using assms \<open>\<not> (_ \<or> _)\<close> u
      by (intro bucket [OF idx])
        (auto simp: update_def idx Let_def not_le split: option.splits if_splits)
  qed
qed

lemma table_inv_new: "id_ok i \<Longrightarrow> table_inv (new_table i)"
  by (simp add: table_inv_def new_table_def bucket_ok_def sum_list_replicate)

lemma table_inv_insert:
  assumes inv: "table_inv t" and i: "bucket_index (our_id t) (ni_id info) = Some idx" "idx < ID_BITS"
    and new: "length (buckets t ! idx) < K" "ni_id info \<notin> set (map entry_id (buckets t ! idx))"
    and ok: "id_ok (ni_id info)"
    and room: "\<And>p. diversity_prefix (dht_addr info) = Some p \<Longrightarrow>
        prefix_count p (buckets t ! idx) < MAX_PER_PREFIX_IN_BUCKET
        \<and> sum_list (map (prefix_count p) (buckets t)) < MAX_PER_PREFIX_IN_TABLE"
  shows "table_inv (t\<lparr>buckets := (buckets t)[idx := buckets t ! idx @ [\<lparr>be_info = info, last_seen = now\<rparr>]]\<rparr>)"
proof (rule table_inv_bucket [OF inv i(2)])
  have b: "bucket_ok (our_id t) idx (buckets t ! idx)"
    using inv i(2) by (rule table_invD(3))
  have "prefix_count p (buckets t ! idx @ [\<lparr>be_info = info, last_seen = now\<rparr>]) \<le> MAX_PER_PREFIX_IN_BUCKET" for p
    using b room [of p] by (auto simp: bucket_ok_def)
  then show "bucket_ok (our_id t) idx (buckets t ! idx @ [\<lparr>be_info = info, last_seen = now\<rparr>])"
    using b i(1) new ok by (auto simp: bucket_ok_def)
  show "sum_list (map (prefix_count p) ((buckets t)[idx := buckets t ! idx @ [\<lparr>be_info = info, last_seen = now\<rparr>]]))
      \<le> MAX_PER_PREFIX_IN_TABLE" for p
    using room [of p] table_invD(4) [OF inv, of p] by (auto simp: sum_prefix_update [OF inv i(2)])
qed

lemma table_inv_update:
  assumes inv: "table_inv t" and ok: "id_ok (ni_id info)"
  shows "table_inv (fst (update now info t))"
proof -
  obtain t' r where u: "update now info t = (t', r)"
    by fastforce
  from u have "table_inv t'"
  proof (cases rule: update_cases)
    case same
    with inv show ?thesis by simp
  next
    case (bucket idx es)
    note b = bucket
    have idx: "idx < ID_BITS"
      using table_invD(1) [OF inv] ok b(1) by (rule bucket_index_less)
    from b(2) show ?thesis
    proof (cases rule: update_or_insert_cases)
      case same
      with inv b(3) show ?thesis by simp
    next
      case refreshed
      with b(3) idx inv show ?thesis
        by (auto intro!: table_inv_bucket bucket_ok_mset [OF refreshed(2)] dest: table_invD
            simp: sum_prefix_update prefix_count_mset [OF refreshed(2)])
    next
      case inserted
      show ?thesis
        unfolding b(3) inserted(2)
        using inserted(3,4) b(5) count_prefix_absent [OF inserted(4)] count_prefix_table [OF inv b(1) inserted(4)]
        by (intro table_inv_insert inv b(1) idx ok) auto
    qed
  qed
  with u show ?thesis by simp
qed

lemma bucket_remove_cases:
  obtains (absent) "bucket_remove i es = (es, False)" "i \<notin> set (map entry_id es)"
  | (present) ys x zs where "es = ys @ x # zs" "entry_id x = i" "bucket_remove i es = (ys @ zs, True)"
proof (cases "position (\<lambda>e. entry_id e = i) es")
  case None
  then show ?thesis by (intro absent) (auto simp: bucket_remove_def simp del: position_None, auto)
next
  case (Some pos)
  then obtain ys x zs where "es = ys @ x # zs" "length ys = pos" "entry_id x = i"
    by (rule position_split) auto
  with Some show ?thesis by (intro present) (auto simp: bucket_remove_def)
qed

lemma table_inv_remove:
  assumes inv: "table_inv t" and ok: "id_ok i"
  shows "table_inv (remove i t)"
proof (cases "bucket_index (our_id t) i")
  case (Some idx)
  then have idx: "idx < ID_BITS"
    using table_invD(1) [OF inv] ok bucket_index_less by blast
  note b = table_invD(3) [OF inv idx]
  show ?thesis
  proof (cases rule: bucket_remove_cases [of i "buckets t ! idx"])
    case absent
    with Some inv show ?thesis by (simp add: remove_def)
  next
    case (present ys x zs)
    have "sum_list (map (prefix_count p) ((buckets t)[idx := ys @ zs])) \<le> MAX_PER_PREFIX_IN_TABLE" for p
      using table_invD(4) [OF inv, of p] prefix_count_le_remove [of p ys zs x]
      by (simp add: sum_prefix_update [OF inv idx] present(1))
    then show ?thesis
      using present b Some inv idx by (auto simp: remove_def intro!: table_inv_bucket intro: bucket_ok_remove)
  qed
qed (simp add: remove_def inv)

section \<open>Seats\<close>

text \<open>
  The abstract table: the set of (ID, address) pairs that have a seat. The
  queries of the table read it, and \<open>update\<close> and \<open>remove\<close> change it by one pair.
\<close>

definition seats :: "routing_table \<Rightarrow> (node_id \<times> socket_addr) set" where
  "seats t = (\<Union>b\<in>set (buckets t). seat ` set b)"

lemma seats_nth: "seats t = (\<Union>j<length (buckets t). seat ` set (buckets t ! j))"
proof -
  have "set (buckets t) = (\<lambda>j. buckets t ! j) ` {..<length (buckets t)}"
    by (auto simp: set_conv_nth)
  then show ?thesis by (simp add: seats_def)
qed

lemma seats_index:
  assumes "table_inv t" "(i, a) \<in> seats t"
  obtains j e where "bucket_index (our_id t) i = Some j" "j < length (buckets t)"
    "e \<in> set (buckets t ! j)" "i = entry_id e" "a = entry_addr e"
proof -
  from assms(2) obtain j e where "j < length (buckets t)" "e \<in> set (buckets t ! j)"
      "i = entry_id e" "a = entry_addr e"
    by (auto simp: seats_nth)
  moreover from this have "bucket_index (our_id t) i = Some j"
    using table_invD(2,3) [OF assms(1)] by (simp add: bucket_ok_def)
  ultimately show ?thesis using that by blast
qed

lemma seats_bucket:
  assumes "table_inv t" "id_ok i" "bucket_index (our_id t) i = Some idx"
  shows "(i, a) \<in> seats t \<longleftrightarrow> (i, a) \<in> seat ` set (buckets t ! idx)"
proof -
  have "idx < length (buckets t)"
    using bucket_index_less assms table_invD(1,2) by metis
  then have "(i, a) \<in> seat ` set (buckets t ! idx) \<Longrightarrow> (i, a) \<in> seats t"
    by (auto simp: seats_nth)
  then show ?thesis
    using assms(3) by (auto elim!: seats_index [OF assms(1)])
qed

lemma find_seat:
  "distinct (map entry_id es) \<Longrightarrow>
   map_option entry_addr (find (\<lambda>e. entry_id e = i) es) = Some a \<longleftrightarrow> (i, a) \<in> seat ` set es"
  by (induction es) force+

lemma address_of_seats:
  assumes "table_inv t" "id_ok i"
  shows "address_of t i = Some a \<longleftrightarrow> (i, a) \<in> seats t"
proof (cases "bucket_index (our_id t) i")
  case None
  then show ?thesis by (auto simp: address_of_def elim: seats_index [OF assms(1)])
next
  case (Some idx)
  then have "bucket_ok (our_id t) idx (buckets t ! idx)"
    using bucket_index_less assms table_invD by blast
  then show ?thesis
    unfolding seats_bucket [OF assms Some] address_of_def Some option.case
    by (intro find_seat) (simp add: bucket_ok_def)
qed

lemma seats_replace:
  "i < length (buckets t) \<Longrightarrow> seats (t\<lparr>buckets := (buckets t)[i := es]\<rparr>) =
    seat ` set es \<union> (\<Union>j\<in>{..<length (buckets t)} - {i}. seat ` set (buckets t ! j))"
  unfolding seats_nth by (auto simp: nth_list_update split: if_splits)

lemma seats_split:
  "i < length (buckets t) \<Longrightarrow> seats t =
    seat ` set (buckets t ! i) \<union> (\<Union>j\<in>{..<length (buckets t)} - {i}. seat ` set (buckets t ! j))"
  using seats_replace [of i t "buckets t ! i"] by simp

lemma seats_update:
  assumes "table_inv t" "id_ok (ni_id info)" "update now info t = (t', r)"
  shows "seats t' = (if r = Inserted then insert (ni_id info, dht_addr info) (seats t) else seats t)"
  using assms(3)
proof (cases rule: update_cases)
  case (bucket idx es)
  then have idx: "idx < length (buckets t)"
    using bucket_index_less assms table_invD(1,2) by metis
  from bucket(2) show ?thesis
  proof (cases rule: update_or_insert_cases)
    case same
    with bucket(3) show ?thesis by auto
  next
    case refreshed
    from mset_eq_setD [OF refreshed(2)] have "seat ` set es = seat ` set (buckets t ! idx)"
      by simp
    with refreshed(1) show ?thesis
      by (simp add: bucket(3) seats_replace [OF idx] seats_split [OF idx])
  next
    case inserted
    then show ?thesis by (simp add: bucket(3) seats_replace [OF idx] seats_split [OF idx])
  qed
qed simp

lemma update_reports:
  assumes "table_inv t" "id_ok (ni_id info)" "update now info t = (t', r)"
  shows "r = Updated \<Longrightarrow> ni_id info \<noteq> our_id t \<Longrightarrow> (ni_id info, dht_addr info) \<in> seats t"
    and "r = Inserted \<Longrightarrow> (ni_id info, a) \<notin> seats t"
proof -
  show "(ni_id info, dht_addr info) \<in> seats t" if r: "r = Updated" and own: "ni_id info \<noteq> our_id t"
    using assms(3)
  proof (cases rule: update_cases)
    case same
    then show ?thesis
      using r own bucket_index_None table_invD(1) [OF assms(1)] assms(2) by auto
  next
    case (bucket idx es)
    from bucket(2) r show ?thesis
      unfolding seats_bucket [OF assms(1,2) bucket(1)]
      by (cases rule: update_or_insert_cases) auto
  qed
  show "(ni_id info, a) \<notin> seats t" if r: "r = Inserted"
    using assms(3)
  proof (cases rule: update_cases)
    case (bucket idx es)
    from bucket(2) r have "ni_id info \<notin> set (map entry_id (buckets t ! idx))"
      by (cases rule: update_or_insert_cases) auto
    then show ?thesis
      unfolding seats_bucket [OF assms(1,2) bucket(1)] by auto
  qed (simp add: r)
qed

lemma seats_new [simp]: "seats (new_table i) = {}"
  by (auto simp: seats_def new_table_def)

lemma option_eqI_Some: "(\<And>a. x = Some a \<longleftrightarrow> y = Some a) \<Longrightarrow> x = y"
  by (cases x; cases y) auto

lemma seat_unique: "table_inv t \<Longrightarrow> id_ok i \<Longrightarrow> (i, a) \<in> seats t \<Longrightarrow> (i, b) \<in> seats t \<Longrightarrow> a = b"
  by (metis address_of_seats option.inject)

lemma all_nodes_seats: "seats t = (\<lambda>n. (ni_id n, dht_addr n)) ` set (all_nodes t)"
  by (force simp: seats_def all_nodes_def get_nodes_def)

lemma seats_remove:
  assumes "table_inv t" "id_ok i"
  shows "seats (remove i t) = {(j, a) \<in> seats t. j \<noteq> i}"
proof (cases "bucket_index (our_id t) i")
  case None
  then show ?thesis by (auto simp: remove_def elim: seats_index [OF assms(1)])
next
  case (Some idx)
  then have idx: "idx < length (buckets t)"
    using bucket_index_less assms table_invD(1,2) by metis
  then have "bucket_ok (our_id t) idx (buckets t ! idx)"
    using table_invD(2,3) [OF assms(1)] by simp
  then have "seat ` set (fst (bucket_remove i (buckets t ! idx))) = {(j, a) \<in> seat ` set (buckets t ! idx). j \<noteq> i}"
    by (cases rule: bucket_remove_cases [of i "buckets t ! idx"]) (auto simp: bucket_ok_def intro: rev_image_eqI)
  moreover have "i \<notin> set (map entry_id (buckets t ! j))" if "j < length (buckets t)" "j \<noteq> idx" for j
    using other_bucket_absent [OF assms(1) Some] that table_invD(2) [OF assms(1)] by simp
  ultimately show ?thesis
    by (simp add: remove_def Some seats_replace [OF idx] seats_split [OF idx]) fastforce
qed

lemma filter_all_nodes:
  "length (filter (\<lambda>n. diversity_prefix (dht_addr n) = Some p) (all_nodes t))
   = sum_list (map (prefix_count p) (buckets t))"
proof -
  have "length (filter (\<lambda>n. diversity_prefix (dht_addr n) = Some p) (concat (map get_nodes bs)))
      = sum_list (map (prefix_count p) bs)" for bs
    by (induction bs) (simp_all add: get_nodes_def prefix_count_def filter_map comp_def)
  then show ?thesis by (simp add: all_nodes_def)
qed

lemma distinct_concat_indexed:
  assumes "\<And>j. j < length xss \<Longrightarrow> distinct (xss ! j) \<and> (\<forall>x\<in>set (xss ! j). f x = j + k)"
  shows "distinct (concat xss)"
  using assms
proof (induction xss arbitrary: k)
  case (Cons xs xss)
  have "distinct (concat xss)"
    using Cons.prems [of "Suc _"] by (intro Cons.IH [of "Suc k"]) auto
  moreover have "f x \<noteq> k" if "x \<in> set (concat xss)" for x
  proof -
    from that obtain j where "j < length xss" "x \<in> set (xss ! j)"
      by (metis UN_E in_set_conv_nth set_concat)
    then show ?thesis
      using Cons.prems [of "Suc j"] by auto
  qed
  ultimately show ?case
    using Cons.prems [of 0] by auto
qed simp

lemma distinct_all_nodes:
  assumes "table_inv t"
  shows "distinct (map ni_id (all_nodes t))"
proof -
  have "distinct (concat (map (map entry_id) (buckets t)))"
  proof (rule distinct_concat_indexed [where f = "\<lambda>i. the (bucket_index (our_id t) i)" and k = 0])
    fix j assume "j < length (map (map entry_id) (buckets t))"
    then show "distinct (map (map entry_id) (buckets t) ! j)
        \<and> (\<forall>x\<in>set (map (map entry_id) (buckets t) ! j). the (bucket_index (our_id t) x) = j + 0)"
      using table_invD(2,3) [OF assms] by (auto simp: bucket_ok_def)
  qed
  then show ?thesis
    by (simp add: all_nodes_def map_concat get_nodes_def comp_def)
qed

section \<open>Reachable tables\<close>

inductive table_step :: "routing_table \<Rightarrow> routing_table \<Rightarrow> bool" where
  step_update: "id_ok (ni_id info) \<Longrightarrow> table_step t (fst (update now info t))"
| step_remove: "id_ok i \<Longrightarrow> table_step t (remove i t)"

inductive_cases table_stepE: "table_step t t'"

lemma table_step_inv: "table_step t t' \<Longrightarrow> table_inv t \<Longrightarrow> table_inv t'"
  by (erule table_stepE) (simp_all add: table_inv_update table_inv_remove)

lemma table_reachable_inv: "table_step\<^sup>*\<^sup>* t t' \<Longrightarrow> table_inv t \<Longrightarrow> table_inv t'"
  by (induction rule: rtranclp_induct) (auto intro: table_step_inv)

section \<open>The closest nodes\<close>

text \<open>
  What the code that answers lookups relies on: \<open>closest t target n\<close> is a list of
  \<open>n\<close> members (or all of them, if they are fewer), in the order of their distance
  to the target, and nobody left out is nearer than somebody in it.
\<close>

locale closest_table =
  fixes members :: "'t \<Rightarrow> node_info list"
    and closest :: "'t \<Rightarrow> node_id \<Rightarrow> nat \<Rightarrow> node_info list"
  assumes closest_members: "\<exists>rest. mset (closest t target n) + mset rest = mset (members t)
      \<and> (\<forall>x\<in>set (closest t target n). \<forall>y\<in>set rest.
           xor_distance (ni_id x) target \<le> xor_distance (ni_id y) target)"
    and closest_sorted: "sorted (map (\<lambda>x. xor_distance (ni_id x) target) (closest t target n))"
    and closest_length: "length (closest t target n) = min n (length (members t))"
begin

lemma closest_subset: "set (closest t target n) \<subseteq> set (members t)"
  using closest_members [of t target n] by (metis mset_subset_eq_add_left set_mset_mono set_mset_mset)

lemma closest_complete:
  assumes "y \<in> set (members t)" "y \<notin> set (closest t target n)"
  shows "length (closest t target n) = n"
    and "x \<in> set (closest t target n) \<Longrightarrow> xor_distance (ni_id x) target \<le> xor_distance (ni_id y) target"
proof -
  obtain rest where rest: "mset (closest t target n) + mset rest = mset (members t)"
      "\<forall>x\<in>set (closest t target n). \<forall>y\<in>set rest. xor_distance (ni_id x) target \<le> xor_distance (ni_id y) target"
    using closest_members by blast
  have "y \<in> set rest"
    using assms rest(1) by (metis set_mset_mset union_iff)
  then have "0 < length rest"
    by (cases rest) auto
  moreover have "length (closest t target n) + length rest = length (members t)"
    using arg_cong [OF rest(1), of size] by simp
  ultimately show "length (closest t target n) = n"
    using closest_length [of t target n] by linarith
  show "x \<in> set (closest t target n) \<Longrightarrow> xor_distance (ni_id x) target \<le> xor_distance (ni_id y) target"
    using rest(2) \<open>y \<in> set rest\<close> by blast
qed

lemma closest_all: "length (members t) \<le> n \<Longrightarrow> mset (closest t target n) = mset (members t)"
proof -
  assume n: "length (members t) \<le> n"
  obtain rest where rest: "mset (closest t target n) + mset rest = mset (members t)"
    using closest_members by blast
  moreover have "length (closest t target n) + length rest = length (members t)"
    using arg_cong [OF rest, of size] by simp
  ultimately show ?thesis
    using n closest_length [of t target n] by simp
qed

text \<open>A member nearer than somebody in the answer is in the answer.\<close>

lemma nearer_in_closest:
  assumes "y \<in> set (members t)" "x \<in> set (closest t target n)"
    and "xor_distance (ni_id y) target < xor_distance (ni_id x) target"
  shows "y \<in> set (closest t target n)"
  using closest_complete(2) [OF assms(1) _ assms(2)] assms(3) by force

end

lemma sort_take_split:
  fixes f :: "'a \<Rightarrow> 'k::linorder"
  assumes "x \<in> set (take n (sort_key f xs))" "y \<in> set (drop n (sort_key f xs))"
  shows "f x \<le> f y"
proof -
  have "sorted (map f (take n (sort_key f xs)) @ map f (drop n (sort_key f xs)))"
    by (simp flip: map_append)
  then show ?thesis
    using assms unfolding sorted_append by simp
qed

interpretation rt: closest_table all_nodes find_closest
proof (unfold_locales, goal_cases)
  case (1 t target n)
  let ?s = "sort_key (\<lambda>x. xor_distance (ni_id x) target) (all_nodes t)"
  have "mset (take n ?s) + mset (drop n ?s) = mset (all_nodes t)"
    by (simp flip: mset_append)
  then show ?case
    unfolding find_closest_def by (intro exI [of _ "drop n ?s"]) (auto intro: sort_take_split)
next
  case (2 target t n)
  show ?case unfolding find_closest_def by (simp add: take_map [symmetric] sorted_wrt_take)
next
  case (3 t target n)
  show ?case unfolding find_closest_def by simp
qed

section \<open>Properties\<close>

text \<open>
  Claim C7. Every table that can be reached from a new one by updates and
  removals, in any order, has its promised shape: each seated ID is in the one
  bucket its distance selects, a bucket has at most 20 seats, all of different
  IDs, and one network neighbourhood never has more than two seats of a bucket
  or ten of the table, whatever addresses and IDs the updates bring.
\<close>

theorem reachable_table_diverse:
  assumes "id_ok own" "table_step\<^sup>*\<^sup>* (new_table own) t"
  shows "table_inv t
    \<and> length (filter (\<lambda>n. diversity_prefix (dht_addr n) = Some p) (all_nodes t)) \<le> 10
    \<and> distinct (map ni_id (all_nodes t))"
proof -
  have inv: "table_inv t"
    using assms table_reachable_inv table_inv_new by blast
  then show ?thesis
    using table_invD(4) [OF inv, of p] distinct_all_nodes [OF inv]
    unfolding filter_all_nodes MAX_PER_PREFIX_IN_TABLE_def by blast
qed

definition sample_id :: "u8 \<Rightarrow> node_id" where
  "sample_id b = b # replicate 19 0"

definition sample_node :: "u8 \<Rightarrow> u8 \<Rightarrow> node_info" where
  "sample_node b host = \<lparr>ni_id = sample_id b,
     dht_addr = \<lparr>sa_ip = V4 (ipv4_new 81 2 3 host), sa_port = 9000\<rparr>,
     relay_addr = None, ni_public_key = [], id_nonce = 0\<rparr>"

lemma sample_id_ok [simp]: "id_ok (sample_id b)"
  by (simp add: sample_id_def id_ok_def ID_LEN_def)

theorem reachable_table_diverse_witness:
  "length (filter (\<lambda>n. diversity_prefix (dht_addr n) = Some [4, 81, 2, 3, 0, 0, 0])
     (all_nodes (fst (update 7 (sample_node 128 1) (new_table (sample_id 0)))))) \<le> 10"
proof -
  have "table_step (new_table (sample_id 0)) (fst (update 7 (sample_node 128 1) (new_table (sample_id 0))))"
    by (rule step_update) (simp add: sample_node_def)
  from reachable_table_diverse [OF sample_id_ok r_into_rtranclp, OF this] show ?thesis
    by blast
qed

text \<open>
  Claim C19. The table is a map from IDs to addresses: an update that reports
  \<open>Inserted\<close> adds its node, any other update leaves every known address as it
  was, so a claim to another address never moves a seated node; an update that
  reports \<open>Updated\<close> confirms the address on file; a removal forgets exactly the
  one ID.
\<close>

theorem table_refines_map:
  assumes "id_ok own" "table_step\<^sup>*\<^sup>* (new_table own) t" "id_ok i" "id_ok (ni_id info)"
    and "update now info t = (t', r)"
  shows "address_of t' i = (if r = Inserted \<and> i = ni_id info then Some (dht_addr info) else address_of t i)
    \<and> (r = Updated \<longrightarrow> ni_id info \<noteq> our_id t \<longrightarrow> address_of t (ni_id info) = Some (dht_addr info))
    \<and> (r = Inserted \<longrightarrow> address_of t (ni_id info) = None)
    \<and> address_of (remove (ni_id info) t) i = (if i = ni_id info then None else address_of t i)"
proof -
  have inv: "table_inv t"
    using assms table_reachable_inv table_inv_new by blast
  then have inv': "table_inv t'" "table_inv (remove (ni_id info) t)"
    using table_inv_update [OF inv assms(4), of now] table_inv_remove [OF inv assms(4)] assms(5) by auto
  note addr = address_of_seats [OF inv] address_of_seats [OF inv'(1)] address_of_seats [OF inv'(2)]
  note rep = update_reports [OF inv assms(4,5)]
  have "address_of t' i = (if r = Inserted \<and> i = ni_id info then Some (dht_addr info) else address_of t i)"
  proof (rule option_eqI_Some)
    fix a
    show "address_of t' i = Some a \<longleftrightarrow>
      (if r = Inserted \<and> i = ni_id info then Some (dht_addr info) else address_of t i) = Some a"
      using rep(2) by (auto simp: addr [OF assms(3)] addr [OF assms(4)] seats_update [OF inv assms(4,5)])
  qed
  moreover have "address_of (remove (ni_id info) t) i = (if i = ni_id info then None else address_of t i)"
    by (rule option_eqI_Some) (auto simp: addr [OF assms(3)] seats_remove [OF inv assms(4)])
  moreover have "address_of t (ni_id info) = None" if "r = Inserted"
    using rep(2) [OF that] addr(1) [OF assms(4)] by (cases "address_of t (ni_id info)") auto
  ultimately show ?thesis
    using rep(1) addr(1) [OF assms(4)] by blast
qed

theorem table_refines_map_witness:
  "address_of (fst (update 7 (sample_node 128 1) (new_table (sample_id 0)))) (sample_id 128)
     = Some (dht_addr (sample_node 128 1))"
proof -
  let ?t = "new_table (sample_id 0)" and ?n = "sample_node 128 1"
  have "snd (update 7 ?n ?t) = Inserted"
    by code_simp
  then have u: "update 7 ?n ?t = (fst (update 7 ?n ?t), Inserted)"
    by (simp add: prod_eq_iff)
  show ?thesis
    using table_refines_map [OF sample_id_ok rtranclp.rtrancl_refl sample_id_ok _ u, of 128]
    by (simp add: sample_node_def)
qed

text \<open>
  Claim C20. \<open>find_closest\<close> answers with seated nodes in the order of their
  distance to the target, as many as asked for unless the table has fewer, and
  no node it leaves out is nearer than one it names.
\<close>

theorem find_closest_optimal:
  assumes "id_ok target" "\<forall>x\<in>set (all_nodes t). id_ok (ni_id x)"
  shows "set (find_closest t target n) \<subseteq> set (all_nodes t)
    \<and> length (find_closest t target n) = min n (total_nodes t)
    \<and> sorted (map (\<lambda>x. be_val (xor_distance (ni_id x) target)) (find_closest t target n))
    \<and> (\<forall>x\<in>set (find_closest t target n). \<forall>y\<in>set (all_nodes t) - set (find_closest t target n).
         be_val (xor_distance (ni_id x) target) \<le> be_val (xor_distance (ni_id y) target))"
proof -
  let ?c = "find_closest t target n"
  have sub: "set ?c \<subseteq> set (all_nodes t)"
    by (rule rt.closest_subset)
  have le: "xor_distance (ni_id x) target \<le> xor_distance (ni_id y) target
      \<longleftrightarrow> be_val (xor_distance (ni_id x) target) \<le> be_val (xor_distance (ni_id y) target)"
    if "x \<in> set (all_nodes t)" "y \<in> set (all_nodes t)" for x y
    using be_val_less_iff [of "xor_distance (ni_id y) target" "xor_distance (ni_id x) target"] assms that
    by (force simp: id_ok_def not_less [symmetric])
  have "sorted (map (\<lambda>x. be_val (xor_distance (ni_id x) target)) ?c)"
    using rt.closest_sorted [of target t n] sub le
    unfolding sorted_map by (blast intro: sorted_wrt_mono_rel [rotated])
  moreover have "length ?c = min n (total_nodes t)"
    unfolding rt.closest_length total_nodes_def all_nodes_def get_nodes_def
    by (simp add: length_concat comp_def)
  moreover have "be_val (xor_distance (ni_id x) target) \<le> be_val (xor_distance (ni_id y) target)"
    if "x \<in> set ?c" "y \<in> set (all_nodes t) - set ?c" for x y
    using rt.closest_complete(2) [of y t target n x] that le sub by blast
  ultimately show ?thesis
    using sub by blast
qed

theorem find_closest_optimal_witness:
  "map ni_id (find_closest (fst (update 8 (sample_node 3 2)
     (fst (update 7 (sample_node 128 1) (new_table (sample_id 0)))))) (sample_id 1) 1) = [sample_id 3]
   \<and> length (find_closest (fst (update 8 (sample_node 3 2)
     (fst (update 7 (sample_node 128 1) (new_table (sample_id 0)))))) (sample_id 1) 1) = min 1 2"
proof -
  let ?t = "fst (update 8 (sample_node 3 2) (fst (update 7 (sample_node 128 1) (new_table (sample_id 0)))))"
  have "list_all (\<lambda>x. id_ok (ni_id x)) (all_nodes ?t)" "total_nodes ?t = 2"
    "map ni_id (find_closest ?t (sample_id 1) 1) = [sample_id 3]"
    by code_simp+
  then show ?thesis
    using find_closest_optimal [OF sample_id_ok, of ?t 1 1] by (simp add: list_all_iff)
qed

end
