(* ===== verification/Text_Format.thy ===== *)
theory Text_Format
  imports Net_Addr
begin

text \<open>
  Numbers and addresses as text, the way Rust's \<^verbatim>\<open>Display\<close> and \<^verbatim>\<open>FromStr\<close> write and
  read them: unsigned integers in decimal (\<open>show_nat\<close>, \<open>parse_uint\<close>) and in
  hexadecimal, zero-padded numbers, \<^verbatim>\<open>Ipv4Addr\<close>, \<^verbatim>\<open>Ipv6Addr\<close> with its longest run of
  zero segments shortened, and \<^verbatim>\<open>SocketAddr\<close>.
\<close>

section \<open>Numbers\<close>

definition digit_char :: "nat \<Rightarrow> char" where
  "digit_char d = (if d < 10 then char_of (48 + d) else char_of (87 + d))"

function show_radix :: "nat \<Rightarrow> nat \<Rightarrow> string" where
  "show_radix b n =
     (if b \<le> 1 \<or> n < b then [digit_char n] else show_radix b (n div b) @ [digit_char (n mod b)])"
  by pat_completeness auto
termination
  by (relation "measure snd") auto

declare show_radix.simps [simp del]

definition show_nat :: "nat \<Rightarrow> string" where
  "show_nat n = show_radix 10 n"

definition show_hex :: "nat \<Rightarrow> string" where
  "show_hex n = show_radix 16 n"

text \<open>\<^verbatim>\<open>format!("{:0w$}")\<close>.\<close>

definition show_padded :: "nat \<Rightarrow> nat \<Rightarrow> string" where
  "show_padded w n = replicate (w - length (show_nat n)) (CHR ''0'') @ show_nat n"

definition digit_val :: "char \<Rightarrow> nat" where
  "digit_val c = of_char c - 48"

definition dec_val :: "string \<Rightarrow> nat" where
  "dec_val s = foldl (\<lambda>acc c. acc * 10 + digit_val c) 0 s"

text \<open>\<^verbatim>\<open>str::parse\<close> for an unsigned type whose largest value is \<open>hi\<close>: an optional plus sign, then digits.\<close>

definition parse_uint :: "nat \<Rightarrow> string \<Rightarrow> nat option" where
  "parse_uint hi s =
     (let ds = (case s of c # rest \<Rightarrow> if c = CHR ''+'' then rest else s | [] \<Rightarrow> [])
      in if ds = [] \<or> \<not> list_all is_ascii_digit ds \<or> hi < dec_val ds then None
         else Some (dec_val ds))"

lemma is_ascii_digit_char [simp]: "d < 10 \<Longrightarrow> is_ascii_digit (digit_char d)"
  by (simp add: is_ascii_digit_def digit_char_def)

lemma digit_val_char [simp]: "d < 10 \<Longrightarrow> digit_val (digit_char d) = d"
  by (simp add: digit_val_def digit_char_def)

lemma show_radix_not_Nil [simp]: "show_radix b n \<noteq> []"
  by (subst show_radix.simps) simp

lemma show_nat_not_Nil [simp]: "show_nat n \<noteq> []"
  by (simp add: show_nat_def)

lemma show_radix_10_digits: "b = 10 \<Longrightarrow> list_all is_ascii_digit (show_radix b n)"
proof (induction b n rule: show_radix.induct)
  case (1 b n)
  then show ?case
    by (subst show_radix.simps) auto
qed

lemma show_nat_digits [simp]: "list_all is_ascii_digit (show_nat n)"
  by (simp add: show_nat_def show_radix_10_digits)

lemma dec_val_snoc [simp]: "dec_val (s @ [c]) = dec_val s * 10 + digit_val c"
  by (simp add: dec_val_def)

lemma dec_val_Nil [simp]: "dec_val [] = 0"
  by (simp add: dec_val_def)

lemma dec_val_single [simp]: "dec_val [c] = digit_val c"
  by (simp add: dec_val_def)

lemma dec_val_show_radix: "b = 10 \<Longrightarrow> dec_val (show_radix b n) = n"
proof (induction b n rule: show_radix.induct)
  case (1 b n)
  then show ?case
    by (subst show_radix.simps) auto
qed

lemma dec_val_show [simp]: "dec_val (show_nat n) = n"
  by (simp add: show_nat_def dec_val_show_radix)

lemma show_nat_inject [simp]: "show_nat m = show_nat n \<longleftrightarrow> m = n"
  using dec_val_show by metis

lemma show_nat_no_plus: "hd (show_nat n) \<noteq> CHR ''+''"
proof -
  have "is_ascii_digit (hd (show_nat n))"
    using show_nat_digits [of n] show_nat_not_Nil by (metis hd_in_set list_all_iff)
  then show ?thesis by (auto simp: is_ascii_digit_def)
qed

lemma parse_show_nat [simp]: "n \<le> hi \<Longrightarrow> parse_uint hi (show_nat n) = Some n"
  using show_nat_no_plus [of n] show_nat_digits [of n] dec_val_show [of n] show_nat_not_Nil [of n]
  unfolding parse_uint_def Let_def by (cases "show_nat n") (simp_all del: dec_val_show show_nat_digits)

lemma length_show_radix: "1 < b \<Longrightarrow> n < b ^ Suc k \<Longrightarrow> length (show_radix b n) \<le> Suc k"
proof (induction k arbitrary: n)
  case 0
  then show ?case by (subst show_radix.simps) simp
next
  case (Suc k)
  then have "n div b < b ^ Suc k"
    by (simp add: less_mult_imp_div_less mult.commute)
  with Suc have "length (show_radix b (n div b)) \<le> Suc k"
    by blast
  then show ?case by (subst show_radix.simps) simp
qed

section \<open>Addresses\<close>

definition show_ipv4 :: "ipv4 \<Rightarrow> string" where
  "show_ipv4 a = show_nat (unat (octet 0 a)) @ ''.'' @ show_nat (unat (octet 1 a)) @ ''.''
     @ show_nat (unat (octet 2 a)) @ ''.'' @ show_nat (unat (octet 3 a))"

text \<open>The span (start, length) of the longest run of zero segments, the first of several.\<close>

fun zero_span :: "nat \<Rightarrow> nat \<times> nat \<Rightarrow> nat \<times> nat \<Rightarrow> u16 list \<Rightarrow> nat \<times> nat" where
  "zero_span i current longest [] = longest"
| "zero_span i current longest (s # ss) =
     (if s = 0 then
        (let current' = (if snd current = 0 then i else fst current, snd current + 1) in
         zero_span (Suc i) current' (if snd longest < snd current' then current' else longest) ss)
      else zero_span (Suc i) (0, 0) longest ss)"

fun fmt_subslice :: "u16 list \<Rightarrow> string" where
  "fmt_subslice [] = []"
| "fmt_subslice [s] = show_hex (unat s)"
| "fmt_subslice (s # ss) = show_hex (unat s) @ '':'' @ fmt_subslice ss"

definition show_ipv6 :: "ipv6 \<Rightarrow> string" where
  "show_ipv6 a = (case to_ipv4_mapped a of
      Some v4 \<Rightarrow> ''::ffff:'' @ show_ipv4 v4
    | None \<Rightarrow>
        (let segs = map (\<lambda>i. segment i a) [0..<8];
             (start, len) = zero_span 0 (0, 0) (0, 0) segs
         in if 1 < len
            then fmt_subslice (take start segs) @ ''::'' @ fmt_subslice (drop (start + len) segs)
            else fmt_subslice segs))"

definition show_socket_addr :: "socket_addr \<Rightarrow> string" where
  "show_socket_addr a = (case sa_ip a of
      V4 v4 \<Rightarrow> show_ipv4 v4 @ '':'' @ show_nat (unat (sa_port a))
    | V6 v6 \<Rightarrow> ''['' @ show_ipv6 v6 @ '']:'' @ show_nat (unat (sa_port a)))"

lemma length_show_octet: "length (show_nat (unat x)) \<le> 3" for x :: u8
proof -
  have "unat x < 256"
    using unsigned_less [of x] by simp
  then show ?thesis
    using length_show_radix [of 10 "unat x" 2] by (simp add: show_nat_def)
qed

lemma length_show_port: "length (show_nat (unat x)) \<le> 5" for x :: u16
proof -
  have "unat x < 65536"
    using unsigned_less [of x] by simp
  then show ?thesis
    using length_show_radix [of 10 "unat x" 4] by (simp add: show_nat_def)
qed

lemma length_show_segment: "length (show_hex (unat x)) \<le> 4" for x :: u16
proof -
  have "unat x < 65536"
    using unsigned_less [of x] by simp
  then show ?thesis
    using length_show_radix [of 16 "unat x" 3] by (simp add: show_hex_def)
qed

lemma length_show_ipv4: "length (show_ipv4 a) \<le> 15"
  unfolding show_ipv4_def length_append
  using length_show_octet [of "octet 0 a"] length_show_octet [of "octet 1 a"]
    length_show_octet [of "octet 2 a"] length_show_octet [of "octet 3 a"] by simp

lemma length_fmt_subslice: "length (fmt_subslice ss) \<le> 5 * length ss"
proof (induction ss rule: fmt_subslice.induct)
  case (2 s)
  show ?case using length_show_segment [of s] by simp
next
  case (3 s v va)
  then show ?case using length_show_segment [of s] by simp
qed simp

lemma length_show_ipv6: "length (show_ipv6 a) \<le> 82"
proof (cases "to_ipv4_mapped a")
  case None
  let ?segs = "map (\<lambda>i. segment i a) [0..<8]"
  obtain start len where z: "zero_span 0 (0, 0) (0, 0) ?segs = (start, len)"
    by fastforce
  have "length (fmt_subslice (take start ?segs)) \<le> 40" "length (fmt_subslice (drop (start + len) ?segs)) \<le> 40"
    "length (fmt_subslice ?segs) \<le> 40"
    using length_fmt_subslice [of "take start ?segs"] length_fmt_subslice [of "drop (start + len) ?segs"]
      length_fmt_subslice [of ?segs] by auto
  then show ?thesis
    unfolding show_ipv6_def None z Let_def by simp
next
  case (Some v4)
  then show ?thesis using length_show_ipv4 [of v4] by (simp add: show_ipv6_def)
qed

lemma length_show_socket_addr: "length (show_socket_addr a) < 256"
proof (cases "sa_ip a")
  case (V4 v4)
  then show ?thesis
    using length_show_port [of "sa_port a"] length_show_ipv4 [of v4] by (simp add: show_socket_addr_def)
next
  case (V6 v6)
  then show ?thesis
    using length_show_port [of "sa_port a"] length_show_ipv6 [of v6] by (simp add: show_socket_addr_def)
qed

section \<open>Reading an IPv4 address\<close>

text \<open>
  \<^verbatim>\<open>Ipv4Addr::from_str\<close>: four decimal numbers of at most three digits, without
  leading zeros, separated by dots.
\<close>

fun split_on :: "char \<Rightarrow> string \<Rightarrow> string list" where
  "split_on c [] = [[]]"
| "split_on c (x # xs) = (if x = c then [] # split_on c xs
     else (case split_on c xs of [] \<Rightarrow> [[x]] | w # ws \<Rightarrow> (x # w) # ws))"

definition parse_octet :: "string \<Rightarrow> u8 option" where
  "parse_octet s =
     (if s = [] \<or> 3 < length s \<or> \<not> list_all is_ascii_digit s \<or> (hd s = CHR ''0'' \<and> 1 < length s)
         \<or> 255 < dec_val s then None
      else Some (of_nat (dec_val s)))"

definition parse_ipv4 :: "string \<Rightarrow> ipv4 option" where
  "parse_ipv4 s = (case map parse_octet (split_on (CHR ''.'') s) of
      [Some a, Some b, Some c, Some d] \<Rightarrow> Some (ipv4_new a b c d)
    | _ \<Rightarrow> None)"

lemma split_on_not_Nil [simp]: "split_on c s \<noteq> []"
  by (cases s) (auto split: list.splits)

lemma split_on_free: "c \<notin> set s \<Longrightarrow> split_on c s = [s]"
  by (induction s) auto

lemma split_on_append: "c \<notin> set s \<Longrightarrow> split_on c (s @ c # t) = s # split_on c t"
  by (induction s) auto

lemma show_nat_no_dot: "CHR ''.'' \<notin> set (show_nat n)"
  using show_nat_digits [of n] by (auto simp: list_all_iff is_ascii_digit_def)

lemma hd_show_radix: "b = 10 \<Longrightarrow> 0 < n \<Longrightarrow> hd (show_radix b n) \<noteq> CHR ''0''"
proof (induction b n rule: show_radix.induct)
  case (1 b n)
  show ?case
  proof (cases "n < b")
    case True
    then have "hd (show_radix b n) = digit_char n"
      by (subst show_radix.simps) simp
    moreover have "digit_char n \<noteq> CHR ''0''"
    proof
      assume "digit_char n = CHR ''0''"
      from arg_cong [OF this, of digit_val] show False
        using True 1 by (simp add: digit_val_def digit_char_def)
    qed
    ultimately show ?thesis by simp
  next
    case False
    then have "hd (show_radix b n) = hd (show_radix b (n div b))"
      by (subst show_radix.simps) (use 1 in simp)
    then show ?thesis
      using 1 False by (simp add: div_greater_zero_iff)
  qed
qed

lemma parse_show_octet [simp]: "parse_octet (show_nat (unat x)) = Some x"
proof -
  have "hd (show_nat (unat x)) \<noteq> CHR ''0'' \<or> length (show_nat (unat x)) = 1"
  proof (cases "unat x = 0")
    case True
    then show ?thesis by (simp add: show_nat_def show_radix.simps)
  next
    case False
    then show ?thesis by (simp add: show_nat_def hd_show_radix)
  qed
  moreover have "unat x < 256"
    using unsigned_less [of x] by simp
  ultimately show ?thesis
    using length_show_octet [of x] by (auto simp: parse_octet_def)
qed

lemma ipv4_new_octets: "ipv4_new (octet 0 a) (octet 1 a) (octet 2 a) (octet 3 a) = a"
  by (simp add: ipv4_new_def octet_def)

lemma parse_show_ipv4 [simp]: "parse_ipv4 (show_ipv4 a) = Some a"
  by (simp add: parse_ipv4_def show_ipv4_def split_on_append split_on_free show_nat_no_dot
      ipv4_new_octets [simplified])

section \<open>Words and lines\<close>

text \<open>\<^verbatim>\<open>str::split_whitespace\<close>.\<close>

fun word_of :: "string \<Rightarrow> string \<times> string" where
  "word_of [] = ([], [])"
| "word_of (c # cs) = (if list_ex (\<lambda>w. strips w (c # cs)) white_space then ([], c # cs)
     else (let (w, rest) = word_of cs in (c # w, rest)))"

lemma length_word_of: "length (snd (word_of s)) \<le> length s"
  by (induction s) (auto simp: Let_def split: prod.splits)

lemma length_trim_start: "length (trim_start s) \<le> length s"
  using strip_start_suffix [of s white_space] unfolding trim_start_def by (metis le_add2 length_append)

function split_whitespace :: "string \<Rightarrow> string list" where
  "split_whitespace s = (case trim_start s of
      [] \<Rightarrow> []
    | c # cs \<Rightarrow> (let (w, rest) = word_of cs in (c # w) # split_whitespace rest))"
  by pat_completeness auto
termination
proof (relation "measure length", goal_cases)
  case (2 s c cs x w rest)
  then have "length rest \<le> length cs"
    using length_word_of [of cs] by (metis snd_conv)
  moreover have "Suc (length cs) \<le> length s"
    using length_trim_start [of s] 2(1) by simp
  ultimately show ?case by simp
qed simp

declare split_whitespace.simps [simp del]

definition is_graphic :: "char \<Rightarrow> bool" where
  "is_graphic c \<longleftrightarrow> 33 \<le> (of_char c :: nat) \<and> (of_char c :: nat) < 128"

lemma graphic_no_strip:
  assumes "is_graphic c" "w \<in> set white_space"
  shows "\<not> strips w (c # cs)"
proof
  assume "strips w (c # cs)"
  then have "hd w = c" "w \<noteq> []"
    unfolding strips_def by (cases w; auto)+
  then show False
    using assms by (auto simp: white_space_def is_graphic_def)
qed

lemma word_of_graphic:
  assumes "list_all is_graphic w" "rest = [] \<or> (\<exists>v\<in>set white_space. strips v rest)"
  shows "word_of (w @ rest) = (w, rest)"
  using assms(1)
proof (induction w)
  case Nil
  then show ?case using assms(2) by (cases rest) (auto simp: list_ex_iff strips_def)
next
  case (Cons c w)
  then have "\<not> list_ex (\<lambda>v. strips v (c # w @ rest)) white_space"
    using graphic_no_strip by (auto simp: list_ex_iff)
  with Cons show ?case by simp
qed

lemma trim_start_graphic: "is_graphic c \<Longrightarrow> trim_start (c # cs) = c # cs"
  unfolding trim_start_def by (rule strip_start_id) (rule graphic_no_strip)

lemma strip_space: "strips ('' '') (CHR '' '' # s)" "'' '' \<in> set white_space"
proof -
  show "strips ('' '') (CHR '' '' # s)"
    by (simp add: strips_def)
  have "char_of (32 :: nat) = CHR '' ''"
    by code_simp
  then show "'' '' \<in> set white_space"
    by (simp add: white_space_def)
qed

lemma trim_start_space: "trim_start (CHR '' '' # s) = trim_start s"
proof -
  obtain v where v: "find (\<lambda>w. strips w (CHR '' '' # s)) white_space = Some v"
    using strip_space(1) [of s] strip_space(2) by (metis find_None_iff not_Some_eq)
  then have "v \<in> set white_space" "strips v (CHR '' '' # s)"
    by (auto simp: find_Some_iff)
  then have "hd v = CHR '' ''"
    unfolding strips_def by (metis hd_take length_greater_0_conv list.sel(1))
  moreover have "list_all (\<lambda>v. hd v = CHR '' '' \<longrightarrow> v = '' '') white_space"
    by code_simp
  ultimately have "v = '' ''"
    using \<open>v \<in> set white_space\<close> by (auto simp: list_all_iff)
  with v show ?thesis
    unfolding trim_start_def by (subst strip_start.simps) simp
qed

lemma split_whitespace_Nil [simp]: "split_whitespace [] = []"
proof -
  have "trim_start [] = []"
    using length_trim_start [of "[]"] by simp
  then show ?thesis by (subst split_whitespace.simps) simp
qed

lemma split_whitespace_word:
  assumes "list_all is_graphic w" "w \<noteq> []" "rest = [] \<or> (\<exists>v\<in>set white_space. strips v rest)"
  shows "split_whitespace (w @ rest) = w # split_whitespace rest"
proof -
  obtain c cs where w: "w = c # cs"
    using assms(2) by (cases w) auto
  then have "trim_start (w @ rest) = c # cs @ rest" "word_of (cs @ rest) = (cs, rest)"
    using assms(1) word_of_graphic [OF _ assms(3), of cs] trim_start_graphic by auto
  then show ?thesis
    using w by (subst split_whitespace.simps) simp
qed

lemma split_whitespace_space: "split_whitespace (CHR '' '' # s) = split_whitespace s"
  by (subst (1 2) split_whitespace.simps) (simp add: trim_start_space)

lemma split_on_single: "split_on c s = [[]] \<longleftrightarrow> s = []"
  by (cases s) (auto split: list.splits)

lemma split_on_last: "last (split_on c s) = [] \<longleftrightarrow> s = [] \<or> last s = c"
proof (induction s)
  case (Cons x s)
  obtain w ws where w: "split_on c s = w # ws"
    using split_on_not_Nil by (metis neq_Nil_conv)
  with Cons split_on_single [of c s] show ?case
    by (cases "s = []"; cases ws) auto
qed simp

lemma split_on_join:
  "split_on c (s @ t) = butlast (split_on c s) @ (last (split_on c s) @ hd (split_on c t)) # tl (split_on c t)"
proof (induction s)
  case Nil
  then show ?case by (cases "split_on c t") (use split_on_not_Nil [of c t] in auto)
next
  case (Cons x s)
  obtain w ws where "split_on c s = w # ws"
    using split_on_not_Nil by (metis neq_Nil_conv)
  with Cons show ?case by (cases ws) auto
qed

text \<open>Appending to a text that is empty or ends with a line end adds lines and changes none.\<close>

lemma split_on_whole:
  assumes "s = [] \<or> last s = c"
  shows "split_on c (s @ t) = butlast (split_on c s) @ split_on c t" "split_on c s = butlast (split_on c s) @ [[]]"
proof -
  have l: "last (split_on c s) = []"
    using assms by (simp add: split_on_last)
  then show "split_on c s = butlast (split_on c s) @ [[]]"
    by (metis append_butlast_last_id split_on_not_Nil)
  show "split_on c (s @ t) = butlast (split_on c s) @ split_on c t"
    using l split_on_not_Nil [of c t] by (subst split_on_join) simp
qed

section \<open>Signed numbers\<close>

definition show_int :: "int \<Rightarrow> string" where
  "show_int i = (if i < 0 then CHR ''-'' # show_nat (nat (- i)) else show_nat (nat i))"

text \<open>\<^verbatim>\<open>str::parse::<i64>\<close>.\<close>

definition parse_i64 :: "string \<Rightarrow> int option" where
  "parse_i64 s = (case s of
      [] \<Rightarrow> None
    | c # ds \<Rightarrow>
        (let (neg, digits) = (if c = CHR ''-'' then (True, ds) else if c = CHR ''+'' then (False, ds) else (False, s))
         in if digits = [] \<or> \<not> list_all is_ascii_digit digits then None
            else (let v = (if neg then - int (dec_val digits) else int (dec_val digits))
                  in if - (2 ^ 63) \<le> v \<and> v < 2 ^ 63 then Some v else None)))"

definition i64_ok :: "int \<Rightarrow> bool" where
  "i64_ok i \<longleftrightarrow> - (2 ^ 63) \<le> i \<and> i < 2 ^ 63"

lemma is_graphic_digit: "is_ascii_digit c \<Longrightarrow> is_graphic c"
  by (simp add: is_ascii_digit_def is_graphic_def)

lemma show_nat_first: "\<exists>c cs. show_nat n = c # cs \<and> c \<noteq> CHR ''-'' \<and> c \<noteq> CHR ''+''"
proof -
  obtain c cs where "show_nat n = c # cs"
    by (cases "show_nat n") auto
  moreover from this have "is_ascii_digit c"
    using show_nat_digits [of n] by simp
  ultimately show ?thesis by (auto simp: is_ascii_digit_def)
qed

lemma parse_show_i64 [simp]:
  assumes "i64_ok i"
  shows "parse_i64 (show_int i) = Some i"
proof (cases "i < 0")
  case True
  with assms show ?thesis by (simp add: parse_i64_def show_int_def i64_ok_def Let_def)
next
  case False
  obtain c cs where c: "show_nat (nat i) = c # cs" "c \<noteq> CHR ''-''" "c \<noteq> CHR ''+''"
    using show_nat_first by blast
  then have "is_ascii_digit c" "list_all is_ascii_digit cs" "dec_val (c # cs) = nat i"
    using show_nat_digits [of "nat i"] dec_val_show [of "nat i"] by (simp_all del: dec_val_show show_nat_digits)
  with False c assms show ?thesis
    by (simp add: parse_i64_def show_int_def i64_ok_def Let_def)
qed

lemma show_int_graphic: "list_all is_graphic (show_int i)"
proof -
  have "list_all is_graphic (show_nat n)" for n
    using show_nat_digits [of n] is_graphic_digit by (auto simp: list_all_iff)
  then show ?thesis by (simp add: show_int_def is_graphic_def)
qed

end
