(* ===== verification/Crypto_Params.thy ===== *)
theory Crypto_Params
  imports Text_Format
begin

text \<open>
  The cryptography the sources call from other crates, as parameters. A
  definition that signs or verifies takes a record of the primitives as an
  argument; what the code relies on is a predicate on that record, which the
  theorems name as a hypothesis, and \<open>sample_ed\<close> is an instance that shows the
  predicate can hold.
\<close>

record ed25519 =
  ed_key_ok :: "bytes \<Rightarrow> bool"
  verify_strict :: "bytes \<Rightarrow> bytes \<Rightarrow> bytes \<Rightarrow> bool"
  ed_verify :: "bytes \<Rightarrow> bytes \<Rightarrow> bytes \<Rightarrow> bool"
  ed_sign :: "bytes \<Rightarrow> bytes \<Rightarrow> bytes"
  verifying_key :: "bytes \<Rightarrow> bytes"

text \<open>A key has 32 bytes, a signature 64, and it verifies under the key of its signer.\<close>

definition ed_correct :: "ed25519 \<Rightarrow> bool" where
  "ed_correct ed \<longleftrightarrow> (\<forall>sk m. length (ed_sign ed sk m) = 64 \<and> length (verifying_key ed sk) = 32 \<and> ed_key_ok ed (verifying_key ed sk)
     \<and> verify_strict ed (verifying_key ed sk) m (ed_sign ed sk m)
     \<and> ed_verify ed (verifying_key ed sk) m (ed_sign ed sk m))"

definition sample_ed :: ed25519 where
  "sample_ed = \<lparr>ed_key_ok = (\<lambda>k. length k = 32),
     verify_strict = (\<lambda>k m sig. sig = take 64 (k @ m @ replicate 64 0)),
     ed_verify = (\<lambda>k m sig. sig = take 64 (k @ m @ replicate 64 0)),
     ed_sign = (\<lambda>sk m. take 64 (take 32 (sk @ replicate 32 0) @ m @ replicate 64 0)),
     verifying_key = (\<lambda>sk. take 32 (sk @ replicate 32 0))\<rparr>"

lemma sample_ed_correct [simp]: "ed_correct sample_ed"
  by (auto simp: ed_correct_def sample_ed_def min_def)

end
