(* ===== verification/Dht_Descriptor.thy ===== *)
theory Dht_Descriptor
  imports Dht_Node Crypto_Params
begin

text \<open>
  A hidden service's descriptor (\<^verbatim>\<open>hidra-node/src/p2p/dht/descriptor.rs\<close>): the bytes
  a service signs, signing and verification. The lemmas show that what \<open>sign\<close>
  makes \<open>verify\<close> accepts, and that the signed bytes leave no choice in what they
  say.
\<close>

definition MAX_INTRO_POINTS :: nat where
  "MAX_INTRO_POINTS = 8"

definition DOMAIN :: bytes where
  "DOMAIN = ascii_bytes ''hidra/service-descriptor/v1''"

record service_descriptor =
  service_pubkey :: bytes
  intro_points :: "socket_addr list"
  revision :: nat
  sd_signature :: bytes

definition service_target :: "(bytes \<Rightarrow> bytes) \<Rightarrow> bytes \<Rightarrow> node_id" where
  "service_target blake3 service_hash =
     (let padded = service_hash @ replicate 12 0 in from_public_key blake3 padded)"

definition service_hash_of :: "(bytes \<Rightarrow> bytes) \<Rightarrow> bytes \<Rightarrow> bytes" where
  "service_hash_of blake3 pubkey = take 20 (blake3 pubkey)"

definition point_bytes :: "socket_addr \<Rightarrow> bytes" where
  "point_bytes p = (let s = ascii_bytes (show_socket_addr p) in of_nat (length s) # s)"

definition signed_bytes :: "bytes \<Rightarrow> bytes \<Rightarrow> nat \<Rightarrow> socket_addr list \<Rightarrow> bytes" where
  "signed_bytes service_hash pubkey rv points =
     DOMAIN @ service_hash @ pubkey @ u64_to_le_bytes (of_nat rv)
     @ [of_nat (length points)] @ concat (map point_bytes points)"

datatype descriptor_error =
    KeyNotOfAddress
  | IntroPointCount
  | SignatureLength
  | NotAnEd25519Key
  | NotSignedByService

definition sign_descriptor ::
  "ed25519 \<Rightarrow> (bytes \<Rightarrow> bytes) \<Rightarrow> bytes \<Rightarrow> socket_addr list \<Rightarrow> nat \<Rightarrow> service_descriptor" where
  "sign_descriptor ed blake3 service_key points rv =
     (let pubkey = verifying_key ed service_key;
          hash = service_hash_of blake3 pubkey;
          signature = ed_sign ed service_key (signed_bytes hash pubkey rv points)
      in \<lparr>service_pubkey = pubkey, intro_points = points, revision = rv, sd_signature = signature\<rparr>)"

definition service_hash :: "(bytes \<Rightarrow> bytes) \<Rightarrow> service_descriptor \<Rightarrow> bytes" where
  "service_hash blake3 d = service_hash_of blake3 (service_pubkey d)"

definition verify_descriptor ::
  "ed25519 \<Rightarrow> (bytes \<Rightarrow> bytes) \<Rightarrow> service_descriptor \<Rightarrow> bytes \<Rightarrow> descriptor_error + unit" where
  "verify_descriptor ed blake3 d expected_hash =
     (if service_hash blake3 d \<noteq> expected_hash then Err KeyNotOfAddress
      else if intro_points d = [] \<or> MAX_INTRO_POINTS < length (intro_points d) then Err IntroPointCount
      else if length (sd_signature d) \<noteq> 64 then Err SignatureLength
      else if \<not> ed_key_ok ed (service_pubkey d) then Err NotAnEd25519Key
      else if verify_strict ed (service_pubkey d)
          (signed_bytes expected_hash (service_pubkey d) (revision d) (intro_points d)) (sd_signature d)
        then Ok () else Err NotSignedByService)"

lemma verify_descriptor_ok:
  "is_ok (verify_descriptor ed blake3 d h) \<longleftrightarrow>
     h = service_hash_of blake3 (service_pubkey d) \<and> intro_points d \<noteq> []
     \<and> length (intro_points d) \<le> MAX_INTRO_POINTS \<and> length (sd_signature d) = 64
     \<and> ed_key_ok ed (service_pubkey d)
     \<and> verify_strict ed (service_pubkey d) (signed_bytes h (service_pubkey d) (revision d) (intro_points d))
         (sd_signature d)"
  by (auto simp: verify_descriptor_def service_hash_def)

lemma of_nat_u8_inject:
  assumes "m < 256" "n < 256"
  shows "(of_nat m :: u8) = of_nat n \<longleftrightarrow> m = n"
proof -
  have "unat (of_nat m :: u8) = m" "unat (of_nat n :: u8) = n"
    using assms by (simp_all add: unat_of_nat take_bit_nat_eq_self)
  then show ?thesis by metis
qed

lemma points_inject:
  "length ps = length qs \<Longrightarrow> concat (map point_bytes ps) = concat (map point_bytes qs) \<Longrightarrow>
   map show_socket_addr ps = map show_socket_addr qs"
proof (induction ps qs rule: list_induct2)
  case (Cons p ps q qs)
  let ?s = "ascii_bytes (show_socket_addr p)" and ?t = "ascii_bytes (show_socket_addr q)"
  have len: "length ?s < 256" "length ?t < 256"
    by (simp_all add: ascii_bytes_def length_show_socket_addr)
  from Cons.prems have "(of_nat (length ?s) :: u8) = of_nat (length ?t)"
    and rest: "?s @ concat (map point_bytes ps) = ?t @ concat (map point_bytes qs)"
    by (simp_all add: point_bytes_def [of p] point_bytes_def [of q] Let_def)
  then have "length ?s = length ?t"
    using of_nat_u8_inject [OF len] by blast
  with rest have "?s = ?t" "concat (map point_bytes ps) = concat (map point_bytes qs)"
    by simp_all
  with Cons.IH show ?case
    by (simp add: ascii_bytes_inject)
qed simp

lemma signed_bytes_inject:
  assumes "signed_bytes h pk r ps = signed_bytes h pk r' qs"
    and "r \<le> U64_MAX" "r' \<le> U64_MAX" "length ps \<le> MAX_INTRO_POINTS" "length qs \<le> MAX_INTRO_POINTS"
  shows "r = r' \<and> map show_socket_addr ps = map show_socket_addr qs"
proof -
  from assms(1) have "u64_to_le_bytes (of_nat r) = u64_to_le_bytes (of_nat r')"
    and "(of_nat (length ps) :: u8) = of_nat (length qs)"
    and c: "concat (map point_bytes ps) = concat (map point_bytes qs)"
    by (auto simp: signed_bytes_def)
  then have "(of_nat r :: 64 word) = of_nat r'" and len: "length ps = length qs"
    using assms(4,5) of_nat_u8_inject [of "length ps" "length qs"]
    by (simp_all add: u64_to_le_bytes_inject MAX_INTRO_POINTS_def)
  moreover have "unat (of_nat r :: 64 word) = r" "unat (of_nat r' :: 64 word) = r'"
    using assms(2,3) by (simp_all add: unat_of_nat take_bit_nat_eq_self U64_MAX_def)
  ultimately show ?thesis
    using points_inject [OF len c] by metis
qed

lemma sign_verifies:
  assumes "ed_correct ed" "points \<noteq> []" "length points \<le> MAX_INTRO_POINTS"
  shows "is_ok (verify_descriptor ed blake3 (sign_descriptor ed blake3 key points rv)
      (service_hash_of blake3 (verifying_key ed key)))"
  using assms by (simp add: verify_descriptor_ok sign_descriptor_def Let_def ed_correct_def)

text \<open>
  A service's own descriptor verifies under its own address exactly
  when it names between one and eight introduction points; no other address
  accepts it; and a descriptor that verifies with the same signed bytes says
  the same revision and the same introduction points, so nobody can move a
  signature to other points or to another revision.
\<close>

theorem descriptor_sign_verify:
  assumes "ed_correct ed" "d = sign_descriptor ed blake3 key points rv" "rv \<le> U64_MAX"
  shows "(is_ok (verify_descriptor ed blake3 d h) \<longleftrightarrow>
      h = service_hash_of blake3 (verifying_key ed key) \<and> 1 \<le> length points \<and> length points \<le> 8)
    \<and> (is_ok (verify_descriptor ed blake3 d h) \<longrightarrow>
        is_ok (verify_descriptor ed blake3 d' h) \<longrightarrow> revision d' \<le> U64_MAX \<longrightarrow>
        signed_bytes h (service_pubkey d) (revision d') (intro_points d')
          = signed_bytes h (service_pubkey d) rv points \<longrightarrow>
        revision d' = rv \<and> map show_socket_addr (intro_points d') = map show_socket_addr points)"
proof -
  have d: "service_pubkey d = verifying_key ed key" "intro_points d = points" "revision d = rv"
    "sd_signature d = ed_sign ed key (signed_bytes (service_hash_of blake3 (verifying_key ed key)) (verifying_key ed key) rv points)"
    using assms(2) by (simp_all add: sign_descriptor_def Let_def)
  have "is_ok (verify_descriptor ed blake3 d h) \<longleftrightarrow>
      h = service_hash_of blake3 (verifying_key ed key) \<and> 1 \<le> length points \<and> length points \<le> 8"
    using assms(1) by (cases points) (auto simp: verify_descriptor_ok d ed_correct_def MAX_INTRO_POINTS_def)
  then show ?thesis
    using signed_bytes_inject assms(3) d(2) unfolding verify_descriptor_ok by blast
qed

theorem descriptor_sign_verify_witness:
  "is_ok (verify_descriptor sample_ed (\<lambda>b. take 32 (b @ replicate 32 1))
     (sign_descriptor sample_ed (\<lambda>b. take 32 (b @ replicate 32 1)) [7]
        [\<lparr>sa_ip = V4 (ipv4_new 81 2 3 4), sa_port = 80\<rparr>] 99)
     (service_hash_of (\<lambda>b. take 32 (b @ replicate 32 1)) (verifying_key sample_ed [7])))"
  using descriptor_sign_verify [OF sample_ed_correct refl, of 99] by (simp add: U64_MAX_def)

end
