(* ===== verification/Sliding_Window.thy ===== *)
theory Sliding_Window
  imports Prelude
begin

text \<open>
  A sliding window: a list of the times of recent events, from which old times
  are dropped and to which the present time is added while there is room. Two
  rate limits of the sources work this way. \<open>window_ok span cap w ts clock\<close>
  relates the window \<open>w\<close> to the whole history \<open>ts\<close>; it says that the window
  misses no event that still counts, and that no interval of \<open>span\<close> seconds of
  the history holds more than \<open>cap\<close> events.
\<close>

definition window_ok :: "nat \<Rightarrow> nat \<Rightarrow> nat list \<Rightarrow> nat list \<Rightarrow> nat \<Rightarrow> bool" where
  "window_ok span cap w ts clock \<longleftrightarrow>
     (\<forall>t\<in>set ts. t \<le> clock)
     \<and> (\<forall>T\<ge>clock. length (filter (\<lambda>t. T < t + span) ts) \<le> length (filter (\<lambda>t. T < t + span) w))
     \<and> (\<forall>T. length (filter (\<lambda>t. t \<le> T \<and> T < t + span) ts) \<le> cap)"

lemma window_ok_Nil: "window_ok span cap w [] clock"
  by (simp add: window_ok_def)

lemma window_ok_later: "window_ok span cap w ts clock \<Longrightarrow> clock \<le> now \<Longrightarrow> window_ok span cap w ts now"
  unfolding window_ok_def by (meson order_trans)

text \<open>Times that no longer count may be dropped.\<close>

lemma window_ok_drop:
  assumes "window_ok span cap w ts now"
    and "\<And>T. now \<le> T \<Longrightarrow> filter (\<lambda>t. T < t + span) w' = filter (\<lambda>t. T < t + span) w"
  shows "window_ok span cap w' ts now"
  using assms by (simp add: window_ok_def)

lemma window_ok_dropWhile:
  assumes "window_ok span cap w ts now" "0 < span"
  shows "window_ok span cap (dropWhile (\<lambda>t. span \<le> now - t) w) ts now"
proof (rule window_ok_drop [OF assms(1)])
  fix T assume "now \<le> T"
  with assms(2) show "filter (\<lambda>t. T < t + span) (dropWhile (\<lambda>t. span \<le> now - t) w) = filter (\<lambda>t. T < t + span) w"
    by (induction w) auto
qed

lemma window_ok_filter:
  assumes "window_ok span cap w ts now" "0 < span"
  shows "window_ok span cap (filter (\<lambda>t. now - t < span) w) ts now"
proof (rule window_ok_drop [OF assms(1)])
  fix T assume "now \<le> T"
  with assms(2) show "filter (\<lambda>t. T < t + span) (filter (\<lambda>t. now - t < span) w) = filter (\<lambda>t. T < t + span) w"
    by (induction w) auto
qed

text \<open>An event may be noted while the window has room.\<close>

lemma window_ok_note:
  assumes "window_ok span cap w ts now" "length w < cap"
  shows "window_ok span cap (w @ [now]) (ts @ [now]) now"
proof -
  have "length (filter (\<lambda>t. t \<le> T \<and> T < t + span) (ts @ [now])) \<le> cap" for T
  proof (cases "now \<le> T")
    case True
    have "length (filter (\<lambda>t. t \<le> T \<and> T < t + span) ts) \<le> length (filter (\<lambda>t. T < t + span) ts)"
      by (simp add: length_filter_conv_card card_mono subset_iff)
    also have "\<dots> \<le> length (filter (\<lambda>t. T < t + span) w)"
      using assms(1) True by (simp add: window_ok_def)
    also have "\<dots> \<le> length w"
      by simp
    finally show ?thesis
      using assms(2) by simp
  next
    case False
    then show ?thesis
      using assms(1) by (simp add: window_ok_def)
  qed
  then show ?thesis
    using assms(1) by (auto simp: window_ok_def)
qed

lemma window_ok_quota:
  "window_ok span cap w ts clock \<Longrightarrow> length (filter (\<lambda>t. t \<le> T \<and> T < t + span) ts) \<le> cap"
  by (simp add: window_ok_def)

end
