(* ===== verification/Dht_Store.thy ===== *)
theory Dht_Store
  imports Dht_Descriptor Sliding_Window "HOL-Library.AList" "HOL-Library.Multiset"
begin

text \<open>
  The descriptors a DHT node holds (\<^verbatim>\<open>hidra-node/src/p2p/dht/store.rs\<close>). A
  \<^verbatim>\<open>HashMap\<close> is an association list with distinct keys in the order the map would
  iterate in; that order is not specified, so the step relation \<open>store_step\<close> may
  reorder the entries at any time, and the order in which \<open>evict_one\<close> reads its
  local map of counts is the parameter \<open>iter\<close>. \<open>now\<close> is the clock's reading.

  \<open>store_inv\<close> is what the store promises in every reachable state; \<open>store_step\<close>
  also keeps a log of the addresses each pusher introduced, which the quota is
  proved about.
\<close>

definition MAX_STORED_SERVICES :: nat where
  "MAX_STORED_SERVICES = 4096"

definition DESCRIPTOR_TTL_SECS :: nat where
  "DESCRIPTOR_TTL_SECS = 3600"

definition MAX_CLOCK_SKEW_SECS :: nat where
  "MAX_CLOCK_SKEW_SECS = 600"

definition MAX_NEW_PER_PUSHER_PER_HOUR :: nat where
  "MAX_NEW_PER_PUSHER_PER_HOUR = 32"

definition MAX_TRACKED_PUSHERS :: nat where
  "MAX_TRACKED_PUSHERS = 8192"

definition HOUR :: nat where
  "HOUR = 3600"

datatype origin = Own | Fetched | Pushed node_id

record stored =
  st_descriptor :: service_descriptor
  st_origin :: origin
  delivered_by :: "node_id list"

definition MAX_DELIVERERS :: nat where
  "MAX_DELIVERERS = 4"

definition note_delivery :: "node_id list \<Rightarrow> origin \<Rightarrow> node_id list" where
  "note_delivery delivered org = (case org of
      Pushed by \<Rightarrow> (if by \<notin> set delivered \<and> length delivered < MAX_DELIVERERS then delivered @ [by] else delivered)
    | _ \<Rightarrow> delivered)"

datatype refused = NotSigned | FromTheFuture | Expired | NotNewer | PusherOverQuota | Full

record service_store =
  entries :: "(bytes \<times> stored) list"
  introduced :: "(node_id \<times> nat list) list"

definition new_store :: service_store where
  "new_store = \<lparr>entries = [], introduced = []\<rparr>"

definition expired :: "service_descriptor \<Rightarrow> nat \<Rightarrow> bool" where
  "expired d now \<longleftrightarrow> saturating_add (revision d) DESCRIPTOR_TTL_SECS \<le> now"

definition get :: "service_store \<Rightarrow> bytes \<Rightarrow> nat \<Rightarrow> stored option" where
  "get s h now = (case map_of (entries s) h of
      Some st \<Rightarrow> (if expired (st_descriptor st) now then None else Some st)
    | None \<Rightarrow> None)"

definition forget_own :: "bytes \<Rightarrow> service_store \<Rightarrow> service_store" where
  "forget_own h s = (case map_of (entries s) h of
      Some st \<Rightarrow> (if st_origin st = Own then s\<lparr>entries := AList.delete h (entries s)\<rparr> else s)
    | None \<Rightarrow> s)"

section \<open>Eviction\<close>

definition sole :: "stored \<Rightarrow> node_id option" where
  "sole st = (case st_origin st of
      Pushed by \<Rightarrow> (if length (delivered_by st) \<le> 1 then Some by else None)
    | _ \<Rightarrow> None)"

definition bump :: "node_id \<Rightarrow> (node_id \<times> nat) list \<Rightarrow> (node_id \<times> nat) list" where
  "bump by counts = AList.update by ((case map_of counts by of Some c \<Rightarrow> c | None \<Rightarrow> 0) + 1) counts"

definition sole_counts :: "(bytes \<times> stored) list \<Rightarrow> (node_id \<times> nat) list" where
  "sole_counts es =
     fold (\<lambda>(_, st) counts. case sole st of Some by \<Rightarrow> bump by counts | None \<Rightarrow> counts) es []"

text \<open>The heaviest pusher's oldest entry, unless the newcomer comes from that same pusher.\<close>

definition evict_heaviest ::
  "((node_id \<times> nat) list \<Rightarrow> (node_id \<times> nat) list) \<Rightarrow> origin \<Rightarrow> service_store \<Rightarrow> service_store \<times> bool" where
  "evict_heaviest iter incoming s =
     (case max_by_key snd (iter (sole_counts (entries s))) of
        None \<Rightarrow> (s, False)
      | Some (heaviest, _) \<Rightarrow>
          (if incoming = Pushed heaviest then (s, False)
           else (case min_by_key (\<lambda>(_, st). revision (st_descriptor st))
                        (filter (\<lambda>(_, st). sole st = Some heaviest) (entries s)) of
                   Some (h, _) \<Rightarrow> (s\<lparr>entries := AList.delete h (entries s)\<rparr>, True)
                 | None \<Rightarrow> (s, False))))"

definition evict_one ::
  "((node_id \<times> nat) list \<Rightarrow> (node_id \<times> nat) list) \<Rightarrow> nat \<Rightarrow> origin \<Rightarrow> service_store \<Rightarrow> service_store \<times> bool" where
  "evict_one iter now incoming s =
     (let before = length (entries s);
          s1 = s\<lparr>entries := filter (\<lambda>(_, st). \<not> expired (st_descriptor st) now) (entries s)\<rparr>
      in if length (entries s1) < before then (s1, True)
         else (case min_by_key (\<lambda>(_, st). revision (st_descriptor st))
                      (filter (\<lambda>(_, st). st_origin st = Fetched) (entries s1)) of
                 Some (h, _) \<Rightarrow> (s1\<lparr>entries := AList.delete h (entries s1)\<rparr>, True)
               | None \<Rightarrow> evict_heaviest iter incoming s1))"

section \<open>Putting a descriptor\<close>

definition merge_origin :: "origin \<Rightarrow> origin \<Rightarrow> origin" where
  "merge_origin held new = (case (held, new) of
      (Own, _) \<Rightarrow> Own
    | (_, Own) \<Rightarrow> Own
    | (Pushed first, Pushed _) \<Rightarrow> Pushed first
    | (Fetched, Pushed _) \<Rightarrow> Fetched
    | (_, p) \<Rightarrow> p)"

definition put_held ::
  "bytes \<Rightarrow> service_descriptor \<Rightarrow> origin \<Rightarrow> nat \<Rightarrow> stored \<Rightarrow> service_store \<Rightarrow> service_store \<times> (refused + unit)" where
  "put_held h d org now held s =
     (if \<not> expired (st_descriptor held) now \<and> revision d \<le> revision (st_descriptor held) then
        (if revision (st_descriptor held) = revision d
         then s\<lparr>entries := AList.update h (held\<lparr>delivered_by := note_delivery (delivered_by held) org\<rparr>) (entries s)\<rparr>
         else s, Err NotNewer)
      else
        (let merged = merge_origin (st_origin held) org;
             delivered = note_delivery (delivered_by held) merged
         in (s\<lparr>entries := AList.update h
               \<lparr>st_descriptor = d, st_origin = merged, delivered_by = delivered\<rparr> (entries s)\<rparr>, Ok ())))"

definition window_of :: "service_store \<Rightarrow> node_id \<Rightarrow> nat list" where
  "window_of s by = (case map_of (introduced s) by of Some w \<Rightarrow> w | None \<Rightarrow> [])"

definition slide_window :: "nat \<Rightarrow> node_id \<Rightarrow> service_store \<Rightarrow> service_store" where
  "slide_window now by s =
     s\<lparr>introduced := AList.update by (dropWhile (\<lambda>t. HOUR \<le> now - t) (window_of s by)) (introduced s)\<rparr>"

definition note_introduced :: "nat \<Rightarrow> node_id \<Rightarrow> service_store \<Rightarrow> service_store" where
  "note_introduced now by s =
     (let kept = (if MAX_TRACKED_PUSHERS \<le> length (introduced s) \<and> map_of (introduced s) by = None
                  then filter (\<lambda>(_, w). w \<noteq> [] \<and> now - last w < HOUR) (introduced s)
                  else introduced s);
          w = (case map_of kept by of Some w \<Rightarrow> w | None \<Rightarrow> [])
      in s\<lparr>introduced := AList.update by (w @ [now]) kept\<rparr>)"

definition put_new ::
  "((node_id \<times> nat) list \<Rightarrow> (node_id \<times> nat) list) \<Rightarrow> bytes \<Rightarrow> service_descriptor \<Rightarrow> origin \<Rightarrow> nat \<Rightarrow>
   service_store \<Rightarrow> service_store \<times> (refused + unit)" where
  "put_new iter h d org now s =
     (let s1 = (case org of Pushed by \<Rightarrow> slide_window now by s | _ \<Rightarrow> s);
          over = (case org of Pushed by \<Rightarrow> MAX_NEW_PER_PUSHER_PER_HOUR \<le> length (window_of s1 by) | _ \<Rightarrow> False)
      in if over then (s1, Err PusherOverQuota)
         else
           (let (s2, room) = (if MAX_STORED_SERVICES \<le> length (entries s1) then evict_one iter now org s1 else (s1, True))
            in if \<not> room then (s2, Err Full)
               else
                 (let s3 = (case org of Pushed by \<Rightarrow> note_introduced now by s2 | _ \<Rightarrow> s2)
                  in (s3\<lparr>entries := AList.update h
                        \<lparr>st_descriptor = d, st_origin = org, delivered_by = note_delivery [] org\<rparr> (entries s3)\<rparr>, Ok ()))))"

definition put ::
  "ed25519 \<Rightarrow> (bytes \<Rightarrow> bytes) \<Rightarrow> ((node_id \<times> nat) list \<Rightarrow> (node_id \<times> nat) list) \<Rightarrow>
   bytes \<Rightarrow> service_descriptor \<Rightarrow> origin \<Rightarrow> nat \<Rightarrow> service_store \<Rightarrow> service_store \<times> (refused + unit)" where
  "put ed blake3 iter h d org now s =
     (if \<not> is_ok (verify_descriptor ed blake3 d h) then (s, Err NotSigned)
      else if saturating_add now MAX_CLOCK_SKEW_SECS < revision d then (s, Err FromTheFuture)
      else if expired d now then (s, Err Expired)
      else (case map_of (entries s) h of
              Some held \<Rightarrow> put_held h d org now held s
            | None \<Rightarrow> put_new iter h d org now s))"

section \<open>Keys and windows\<close>

text \<open>What \<^verbatim>\<open>HashMap\<close>'s iteration promises: every entry once, in some order.\<close>

definition iterates :: "('a list \<Rightarrow> 'a list) \<Rightarrow> bool" where
  "iterates iter \<longleftrightarrow> (\<forall>xs. mset (iter xs) = mset xs)"

lemma iterates_set: "iterates iter \<Longrightarrow> set (iter xs) = set xs"
  unfolding iterates_def using mset_eq_setD by blast

lemma length_alist_update:
  "length (AList.update k v al) = (if k \<in> fst ` set al then length al else Suc (length al))"
  by (induction al) auto

lemma map_of_in_set: "distinct (map fst al) \<Longrightarrow> (k, v) \<in> set al \<longleftrightarrow> map_of al k = Some v"
  by (auto dest: map_of_SomeD)

lemma length_delete_present:
  assumes "(k, v) \<in> set al"
  shows "length (AList.delete k al) < length al"
  unfolding AList.delete_eq using assms by (intro length_filter_less [where x = "(k, v)"]) auto

lemma map_of_filter_live:
  "distinct (map fst al) \<Longrightarrow>
   map_of (filter (\<lambda>(_, v). P v) al) k = (case map_of al k of Some v \<Rightarrow> if P v then Some v else None | None \<Rightarrow> None)"
  by (induction al) (auto split: option.splits simp: map_of_eq_None_iff image_iff)

definition sole_count :: "(bytes \<times> stored) list \<Rightarrow> node_id \<Rightarrow> nat" where
  "sole_count es q = length (filter (\<lambda>(_, st). sole st = Some q) es)"

lemma sole_counts_map:
  "map_of (sole_counts es) q = (if sole_count es q = 0 then None else Some (sole_count es q))"
proof (induction es rule: rev_induct)
  case Nil
  show ?case by (simp add: sole_counts_def sole_count_def)
next
  case (snoc x es)
  obtain h st where x: "x = (h, st)"
    by fastforce
  have "sole_counts (es @ [x]) = (case sole st of Some by \<Rightarrow> bump by (sole_counts es) | None \<Rightarrow> sole_counts es)"
    by (cases "sole st") (simp_all add: sole_counts_def x)
  moreover have "sole_count (es @ [x]) q = sole_count es q + (if sole st = Some q then 1 else 0)"
    by (simp add: sole_count_def x)
  ultimately show ?case
    using snoc.IH by (auto simp: bump_def update_conv split: option.splits if_splits)
qed

text \<open>The heaviest pusher that \<open>evict_one\<close> finds has as many sole entries as anybody.\<close>

lemma heaviest_max:
  assumes "iterates iter" "distinct (map fst (sole_counts es))"
    and "max_by_key snd (iter (sole_counts es)) = Some (q, c)"
  shows "c = sole_count es q" "0 < c" "sole_count es q' \<le> sole_count es q"
proof -
  have m: "(q, c) \<in> set (sole_counts es)" "\<forall>x\<in>set (sole_counts es). snd x \<le> c"
    using max_by_key_Some [OF assms(3)] iterates_set [OF assms(1)] by auto
  then have "map_of (sole_counts es) q = Some c"
    using assms(2) by simp
  then show c: "c = sole_count es q" and "0 < c"
    by (auto simp: sole_counts_map split: if_splits)
  show "sole_count es q' \<le> sole_count es q"
  proof (cases "sole_count es q' = 0")
    case False
    then have "(q', sole_count es q') \<in> set (sole_counts es)"
      by (auto intro!: map_of_SomeD simp: sole_counts_map)
    with m c show ?thesis by force
  qed simp
qed

lemma distinct_sole_counts: "distinct (map fst (sole_counts es))"
proof -
  have "distinct (map fst cs) \<Longrightarrow> distinct (map fst
      (fold (\<lambda>(_, st) counts. case sole st of Some by \<Rightarrow> bump by counts | None \<Rightarrow> counts) es cs))" for cs
    by (induction es arbitrary: cs) (auto simp: bump_def distinct_update split: option.splits)
  then show ?thesis by (simp add: sole_counts_def)
qed

lemma evict_heaviest_cases:
  assumes "evict_heaviest iter org s = (s', ok)" "iterates iter"
  obtains (pushed) h st q where "ok" "(h, st) \<in> set (entries s)" "sole st = Some q" "org \<noteq> Pushed q"
      "s' = s\<lparr>entries := AList.delete h (entries s)\<rparr>"
      "\<And>q'. sole_count (entries s) q' \<le> sole_count (entries s) q"
  | (none) "\<not> ok" "s' = s"
proof (cases "max_by_key snd (iter (sole_counts (entries s)))")
  case None
  then show ?thesis
    using assms(1) by (intro none) (auto simp: evict_heaviest_def)
next
  case (Some hc)
  obtain q c where hc: "hc = (q, c)" by fastforce
  note max = heaviest_max [OF assms(2) distinct_sole_counts Some [unfolded hc]]
  let ?v = "min_by_key (\<lambda>(_, st). revision (st_descriptor st)) (filter (\<lambda>(_, st). sole st = Some q) (entries s))"
  show ?thesis
  proof (cases "org = Pushed q \<or> ?v = None")
    case True
    then show ?thesis
      using assms(1) Some hc by (intro none) (auto simp: evict_heaviest_def split: option.splits if_splits)
  next
    case False
    then obtain h st where v: "?v = Some (h, st)"
      by (cases ?v) auto
    then have "(h, st) \<in> set (entries s)" "sole st = Some q"
      using min_by_key_Some [OF v] by auto
    then show ?thesis
      using assms(1) Some hc v False max(3) by (intro pushed [of h st q]) (auto simp: evict_heaviest_def)
  qed
qed

text \<open>What an eviction may take: everything that has expired, else one entry.\<close>

lemma evict_one_cases:
  assumes "evict_one iter now org s = (s', ok)" "iterates iter"
  obtains (gone) "ok" "s' = s\<lparr>entries := filter (\<lambda>(_, st). \<not> expired (st_descriptor st) now) (entries s)\<rparr>"
      "length (entries s') < length (entries s)"
  | (one) h st where "ok" "(h, st) \<in> set (entries s)" "s' = s\<lparr>entries := AList.delete h (entries s)\<rparr>"
      "st_origin st = Fetched \<or> (\<exists>q. sole st = Some q \<and> org \<noteq> Pushed q
          \<and> (\<forall>(h', st')\<in>set (entries s). st_origin st' \<noteq> Fetched)
          \<and> (\<forall>q'. sole_count (entries s) q' \<le> sole_count (entries s) q))"
  | (none) "\<not> ok" "s' = s"
proof -
  let ?live = "filter (\<lambda>(_, st). \<not> expired (st_descriptor st) now) (entries s)"
  let ?f = "filter (\<lambda>(_, st). st_origin st = Fetched) (entries s)"
  let ?m = "min_by_key (\<lambda>(_, st). revision (st_descriptor st)) ?f"
  show ?thesis
  proof (cases "length ?live < length (entries s)")
    case True
    then show ?thesis
      using assms(1) by (intro gone) (auto simp: evict_one_def Let_def)
  next
    case False
    then have live: "?live = entries s"
      by (metis filter_id_conv length_filter_less)
    have ev: "evict_one iter now org s = (case ?m of
        Some (h, _) \<Rightarrow> (s\<lparr>entries := AList.delete h (entries s)\<rparr>, True) | None \<Rightarrow> evict_heaviest iter org s)"
      by (simp add: evict_one_def Let_def live)
    show ?thesis
    proof (cases ?m)
      case (Some e)
      then show ?thesis
        using assms(1) ev min_by_key_Some [OF Some] by (cases e) (auto intro: one)
    next
      case None
      then have nofetched: "\<forall>(h', st')\<in>set (entries s). st_origin st' \<noteq> Fetched"
        by (auto simp: filter_empty_conv)
      from None ev assms(1) have "evict_heaviest iter org s = (s', ok)"
        by simp
      from this assms(2) show ?thesis
      proof (cases rule: evict_heaviest_cases)
        case (pushed h st q)
        with nofetched show ?thesis by (intro one [of h st]) auto
      qed (rule none)
    qed
  qed
qed

lemma evict_one_shrinks:
  assumes "evict_one iter now org s = (s', ok)" "iterates iter" "distinct (map fst (entries s))"
  shows "introduced s' = introduced s" "distinct (map fst (entries s'))"
    "map_of (entries s') h = Some st \<Longrightarrow> map_of (entries s) h = Some st"
    "ok \<Longrightarrow> length (entries s') < length (entries s)" "\<not> ok \<Longrightarrow> s' = s"
  using assms(1,2)
  by (cases rule: evict_one_cases;
      auto simp: distinct_map_filter distinct_delete assms(3) map_of_filter_live [OF assms(3)] delete_conv'
        split: option.splits if_splits dest: length_delete_present)+

lemma window_slide [simp]:
  "window_of (slide_window now by s) b =
     (if b = by then dropWhile (\<lambda>t. HOUR \<le> now - t) (window_of s by) else window_of s b)"
  by (simp add: window_of_def slide_window_def update_conv')

text \<open>A pusher that was just looked up is tracked, so the branch that forgets idle pushers is not taken.\<close>

lemma note_introduced_tracked:
  assumes "map_of (introduced s) by \<noteq> None"
  shows "note_introduced now by s = s\<lparr>introduced := AList.update by (window_of s by @ [now]) (introduced s)\<rparr>"
  using assms by (auto simp: note_introduced_def Let_def window_of_def)

lemma put_new_cases:
  assumes "put_new iter h d org now s = (s', r)" "iterates iter"
  obtains (over) b where "r = Err PusherOverQuota" "org = Pushed b" "s' = slide_window now b s"
      "MAX_NEW_PER_PUSHER_PER_HOUR \<le> length (window_of s' b)"
  | (full) "r = Err Full" "s' = (case org of Pushed by \<Rightarrow> slide_window now by s | _ \<Rightarrow> s)"
      "MAX_STORED_SERVICES \<le> length (entries s)"
  | (new) s1 s2 s3 where "r = Ok ()"
      "s1 = (case org of Pushed by \<Rightarrow> slide_window now by s | _ \<Rightarrow> s)"
      "\<And>by. org = Pushed by \<Longrightarrow> length (window_of s1 by) < MAX_NEW_PER_PUSHER_PER_HOUR"
      "s2 = s1 \<and> length (entries s) < MAX_STORED_SERVICES
        \<or> MAX_STORED_SERVICES \<le> length (entries s) \<and> evict_one iter now org s1 = (s2, True)"
      "s3 = (case org of Pushed by \<Rightarrow> note_introduced now by s2 | _ \<Rightarrow> s2)"
      "s' = s3\<lparr>entries := AList.update h
         \<lparr>st_descriptor = d, st_origin = org, delivered_by = note_delivery [] org\<rparr> (entries s3)\<rparr>"
proof -
  define s1 where "s1 = (case org of Pushed by \<Rightarrow> slide_window now by s | _ \<Rightarrow> s)"
  have e1: "entries s1 = entries s"
    by (simp add: s1_def slide_window_def split: origin.splits)
  define over where "over = (case org of Pushed by \<Rightarrow> MAX_NEW_PER_PUSHER_PER_HOUR \<le> length (window_of s1 by) | _ \<Rightarrow> False)"
  obtain s2 room where ev: "(if MAX_STORED_SERVICES \<le> length (entries s1) then evict_one iter now org s1 else (s1, True)) = (s2, room)"
    by fastforce
  have pn: "put_new iter h d org now s = (if over then (s1, Err PusherOverQuota) else if \<not> room then (s2, Err Full) else
      (let s3 = (case org of Pushed by \<Rightarrow> note_introduced now by s2 | _ \<Rightarrow> s2) in (s3\<lparr>entries := AList.update h
        \<lparr>st_descriptor = d, st_origin = org, delivered_by = note_delivery [] org\<rparr> (entries s3)\<rparr>, Ok ())))"
    unfolding put_new_def Let_def s1_def [symmetric] over_def [symmetric] using ev by simp
  consider "over" | "\<not> over" "\<not> room" | "\<not> over" "room" by blast
  then show ?thesis
  proof cases
    case 1
    with assms(1) pn show ?thesis
      by (auto simp: over_def s1_def split: origin.splits intro!: that(1))
  next
    case 2
    then have "evict_one iter now org s1 = (s2, False)" "MAX_STORED_SERVICES \<le> length (entries s)"
      using ev e1 by (auto split: if_splits)
    from this(1) assms(2) have "s2 = s1"
      by (cases rule: evict_one_cases) auto
    then show ?thesis
      using 2 pn assms(1) \<open>MAX_STORED_SERVICES \<le> _\<close> s1_def by (intro that(2)) auto
  next
    case 3
    have "\<And>by. org = Pushed by \<Longrightarrow> length (window_of s1 by) < MAX_NEW_PER_PUSHER_PER_HOUR"
      using 3 by (simp add: over_def)
    then show ?thesis
      using 3 ev e1 pn assms(1) s1_def
      by (intro that(3) [of s1 s2]) (auto simp: Let_def split: if_splits)
  qed
qed

section \<open>The invariant\<close>

definition entry_ok :: "ed25519 \<Rightarrow> (bytes \<Rightarrow> bytes) \<Rightarrow> bytes \<Rightarrow> stored \<Rightarrow> bool" where
  "entry_ok ed blake3 h st \<longleftrightarrow> is_ok (verify_descriptor ed blake3 (st_descriptor st) h)
     \<and> distinct (delivered_by st) \<and> length (delivered_by st) \<le> MAX_DELIVERERS"

definition store_inv :: "ed25519 \<Rightarrow> (bytes \<Rightarrow> bytes) \<Rightarrow> service_store \<Rightarrow> bool" where
  "store_inv ed blake3 s \<longleftrightarrow>
     distinct (map fst (entries s)) \<and> length (entries s) \<le> MAX_STORED_SERVICES
     \<and> (\<forall>h st. map_of (entries s) h = Some st \<longrightarrow> entry_ok ed blake3 h st)"

lemma store_invD:
  assumes "store_inv ed blake3 s"
  shows "distinct (map fst (entries s))" "length (entries s) \<le> MAX_STORED_SERVICES"
    "map_of (entries s) h = Some st \<Longrightarrow> entry_ok ed blake3 h st"
  using assms by (simp_all add: store_inv_def)

lemma store_inv_sub:
  assumes "store_inv ed blake3 s" "distinct (map fst (entries s'))" "length (entries s') \<le> length (entries s)"
    and "\<And>h st. map_of (entries s') h = Some st \<Longrightarrow> map_of (entries s) h = Some st"
  shows "store_inv ed blake3 s'"
  using assms by (auto simp: store_inv_def)

lemma store_inv_set:
  assumes "store_inv ed blake3 s" "entry_ok ed blake3 h st"
    and "map_of (entries s) h = None \<Longrightarrow> length (entries s) < MAX_STORED_SERVICES"
  shows "store_inv ed blake3 (s\<lparr>entries := AList.update h st (entries s)\<rparr>)"
  using assms by (auto simp: store_inv_def update_conv' distinct_update length_alist_update
      map_of_eq_None_iff split: if_splits)

lemma note_delivery_ok:
  "distinct ds \<Longrightarrow> length ds \<le> MAX_DELIVERERS \<Longrightarrow>
   distinct (note_delivery ds org) \<and> length (note_delivery ds org) \<le> MAX_DELIVERERS"
  by (auto simp: note_delivery_def split: origin.splits)

lemma store_inv_entries: "store_inv ed blake3 s \<Longrightarrow> entries s' = entries s \<Longrightarrow> store_inv ed blake3 s'"
  by (simp add: store_inv_def)

lemma entries_windows [simp]:
  "entries (slide_window now b s) = entries s"
  "entries (note_introduced now b s) = entries s"
  by (simp_all add: slide_window_def note_introduced_def Let_def)

lemma store_inv_put_new:
  assumes inv: "store_inv ed blake3 s" and new: "map_of (entries s) h = None" and it: "iterates iter"
    and ok: "is_ok (verify_descriptor ed blake3 d h)" and put: "put_new iter h d org now s = (s', r)"
  shows "store_inv ed blake3 s'"
  using put it
proof (cases rule: put_new_cases)
  case (new s1 s2 s3)
  have e: "entries s3 = entries s2" "entries s1 = entries s"
    using new(2,5) by (simp_all split: origin.splits)
  have "distinct (map fst (entries s2)) \<and> length (entries s2) < MAX_STORED_SERVICES
      \<and> (\<forall>k st. map_of (entries s2) k = Some st \<longrightarrow> map_of (entries s) k = Some st)"
    using new(4) evict_one_shrinks [OF _ it, of now org s1 s2 True] store_invD [OF inv] e(2) by auto
  then have "store_inv ed blake3 s3 \<and> length (entries s3) < MAX_STORED_SERVICES"
    using inv e by (auto simp: store_inv_def)
  moreover have "entry_ok ed blake3 h \<lparr>st_descriptor = d, st_origin = org, delivered_by = note_delivery [] org\<rparr>"
    using ok note_delivery_ok [of "[]" org] by (simp add: entry_ok_def)
  ultimately show ?thesis
    unfolding new(6) by (intro store_inv_set) auto
qed (auto intro: store_inv_entries [OF inv] split: origin.splits)

lemma store_inv_put:
  assumes inv: "store_inv ed blake3 s" and it: "iterates iter"
    and put: "put ed blake3 iter h d org now s = (s', r)"
  shows "store_inv ed blake3 s'"
proof (cases "is_ok (verify_descriptor ed blake3 d h) \<and> revision d \<le> saturating_add now MAX_CLOCK_SKEW_SECS
    \<and> \<not> expired d now")
  case False
  then have "s' = s"
    using put by (auto simp: put_def split: if_splits)
  with inv show ?thesis by simp
next
  case True
  then have p: "put ed blake3 iter h d org now s = (case map_of (entries s) h of
      Some held \<Rightarrow> put_held h d org now held s | None \<Rightarrow> put_new iter h d org now s)"
    by (simp add: put_def)
  show ?thesis
  proof (cases "map_of (entries s) h")
    case None
    then show ?thesis
      using store_inv_put_new [OF inv None it, of d org now s' r] True p put by simp
  next
    case (Some held)
    have held: "entry_ok ed blake3 h held"
      using inv Some by (rule store_invD(3))
    have set: "store_inv ed blake3 (s\<lparr>entries := AList.update h st (entries s)\<rparr>)" if "entry_ok ed blake3 h st" for st
      using inv that Some by (intro store_inv_set) auto
    show ?thesis
      using put p Some held True note_delivery_ok inv
      by (auto simp: put_held_def Let_def entry_ok_def intro!: set split: if_splits)
  qed
qed

lemma store_inv_forget: "store_inv ed blake3 s \<Longrightarrow> store_inv ed blake3 (forget_own h s)"
  unfolding forget_own_def
  by (auto split: option.splits intro!: store_inv_sub [of ed blake3 s]
      simp: distinct_delete delete_conv' store_invD(1) split: if_splits intro: length_delete_le)

section \<open>Steps, with a log of introductions\<close>

definition introduces :: "service_store \<Rightarrow> bytes \<Rightarrow> origin \<Rightarrow> refused + unit \<Rightarrow> node_id \<Rightarrow> bool" where
  "introduces s h org r b \<longleftrightarrow> map_of (entries s) h = None \<and> org = Pushed b \<and> r = Ok ()"

lemma put_windows:
  assumes "put ed blake3 iter h d org now s = (s', r)" "iterates iter" "distinct (map fst (entries s))"
  obtains (kept) "window_of s' b = window_of s b" "\<not> introduces s h org r b"
  | (slid) "window_of s' b = dropWhile (\<lambda>t. HOUR \<le> now - t) (window_of s b)" "\<not> introduces s h org r b"
  | (noted) "window_of s' b = dropWhile (\<lambda>t. HOUR \<le> now - t) (window_of s b) @ [now]"
      "introduces s h org r b" "length (window_of s' b) \<le> MAX_NEW_PER_PUSHER_PER_HOUR"
proof (cases "put ed blake3 iter h d org now s = put_new iter h d org now s \<and> map_of (entries s) h = None")
  case False
  then have "introduced s' = introduced s \<and> \<not> introduces s h org r b"
    using assms(1) by (auto simp: put_def put_held_def Let_def introduces_def split: option.splits if_splits)
  then show ?thesis by (intro kept) (simp_all add: window_of_def)
next
  case True
  with assms(1) have "put_new iter h d org now s = (s', r)" by simp
  from this assms(2) show ?thesis
  proof (cases rule: put_new_cases)
    case (over c)
    then show ?thesis
      by (cases "b = c") (auto simp: introduces_def intro: kept slid)
  next
    case full
    then show ?thesis
      by (cases "org = Pushed b") (auto simp: introduces_def intro: slid kept split: origin.splits)
  next
    case (new s1 s2 s3)
    have i: "introduced s2 = introduced s1"
      using new(2,4) evict_one_shrinks(1) [OF _ assms(2), of now org s1 s2 True] assms(3)
      by (auto split: origin.splits)
    show ?thesis
    proof (cases "org = Pushed b")
      case o: True
      have "map_of (introduced s2) b \<noteq> None"
        using new(2) o by (simp add: i slide_window_def update_conv')
      then have "window_of s' b = window_of s1 b @ [now]"
        using new(5,6) o i by (simp add: note_introduced_tracked window_of_def update_conv')
      then show ?thesis
        using new(1,2,3) o True by (intro noted) (auto simp: introduces_def intro: Suc_leI)
    next
      case False
      have "window_of s' b = window_of s1 b"
        using new(2,5,6) False i
        by (cases org) (auto simp: note_introduced_tracked window_of_def slide_window_def update_conv')
      then show ?thesis
        using new(2) False by (intro kept) (auto simp: introduces_def split: origin.splits)
    qed
  qed
qed

type_synonym store_config = "service_store \<times> (node_id \<times> nat) list \<times> nat"

inductive store_step :: "ed25519 \<Rightarrow> (bytes \<Rightarrow> bytes) \<Rightarrow> store_config \<Rightarrow> store_config \<Rightarrow> bool"
  for ed blake3 where
  step_put: "iterates iter \<Longrightarrow> clock \<le> now \<Longrightarrow> put ed blake3 iter h d org now s = (s', r) \<Longrightarrow>
    log' = log @ (case org of Pushed b \<Rightarrow> if introduces s h org r b then [(b, now)] else [] | _ \<Rightarrow> []) \<Longrightarrow>
    store_step ed blake3 (s, log, clock) (s', log', now)"
| step_forget: "store_step ed blake3 (s, log, clock) (forget_own h s, log, clock)"
| step_reorder: "mset es = mset (entries s) \<Longrightarrow> mset ws = mset (introduced s) \<Longrightarrow>
    store_step ed blake3 (s, log, clock) (\<lparr>entries = es, introduced = ws\<rparr>, log, clock)"

inductive_cases store_stepE: "store_step ed blake3 c c'"

definition times_of :: "node_id \<Rightarrow> (node_id \<times> nat) list \<Rightarrow> nat list" where
  "times_of b log = map snd (filter (\<lambda>e. fst e = b) log)"

definition quota_inv :: "store_config \<Rightarrow> bool" where
  "quota_inv = (\<lambda>(s, log, clock). distinct (map fst (introduced s)) \<and>
     (\<forall>b. window_ok HOUR MAX_NEW_PER_PUSHER_PER_HOUR (window_of s b) (times_of b log) clock))"

lemma HOUR_pos [simp]: "0 < HOUR"
  by (simp add: HOUR_def)

lemma distinct_introduced_put:
  assumes "put ed blake3 iter h d org now s = (s', r)" "iterates iter" "distinct (map fst (entries s))"
    and "distinct (map fst (introduced s))"
  shows "distinct (map fst (introduced s'))"
proof (cases "put ed blake3 iter h d org now s = put_new iter h d org now s")
  case False
  then have "introduced s' = introduced s"
    using assms(1) by (auto simp: put_def put_held_def Let_def split: option.splits if_splits)
  with assms(4) show ?thesis by simp
next
  case True
  have slide: "distinct (map fst (introduced (slide_window now b s)))" for b
    using assms(4) by (simp add: slide_window_def distinct_update)
  have noted: "distinct (map fst (introduced t)) \<Longrightarrow> distinct (map fst (introduced (note_introduced now b t)))" for b t
    by (simp add: note_introduced_def Let_def distinct_update distinct_map_filter)
  from True assms(1) have "put_new iter h d org now s = (s', r)"
    by simp
  from this assms(2) show ?thesis
  proof (cases rule: put_new_cases)
    case (new s1 s2 s3)
    have "introduced s2 = introduced s1"
      using new(2,4) evict_one_shrinks(1) [OF _ assms(2), of now org s1 s2 True] assms(3) by (auto split: origin.splits)
    moreover have "distinct (map fst (introduced s1))"
      using new(2) assms(4) slide by (simp split: origin.splits)
    ultimately show ?thesis
      using new(5,6) noted by (simp split: origin.splits)
  qed (use assms(4) slide in \<open>auto split: origin.splits\<close>)
qed

lemma times_of_append: "times_of b (log @ log') = times_of b log @ times_of b log'"
  by (simp add: times_of_def)

lemma quota_put:
  assumes "quota_inv (s, log, clock)" "clock \<le> now" "iterates iter" "distinct (map fst (entries s))"
    and "put ed blake3 iter h d org now s = (s', r)"
    and "log' = log @ (case org of Pushed b \<Rightarrow> if introduces s h org r b then [(b, now)] else [] | _ \<Rightarrow> [])"
  shows "quota_inv (s', log', now)"
proof -
  have "window_ok HOUR MAX_NEW_PER_PUSHER_PER_HOUR (window_of s' b) (times_of b log') now" for b
  proof -
    have ok: "window_ok HOUR MAX_NEW_PER_PUSHER_PER_HOUR (window_of s b) (times_of b log) now"
      using assms(1) window_ok_later [OF _ assms(2)] by (simp add: quota_inv_def)
    have log: "times_of b log' = times_of b log @ (if introduces s h org r b then [now] else [])"
      by (auto simp: assms(6) times_of_def introduces_def split: origin.splits)
    from assms(5,3,4) show ?thesis
    proof (cases rule: put_windows [where b = b])
      case kept
      with ok log show ?thesis by simp
    next
      case slid
      with window_ok_dropWhile [OF ok] log show ?thesis by simp
    next
      case noted
      then show ?thesis
        using window_ok_note [OF window_ok_dropWhile [OF ok HOUR_pos]] log by simp
    qed
  qed
  then show ?thesis
    using distinct_introduced_put [OF assms(5,3,4)] assms(1) by (simp add: quota_inv_def)
qed

definition store_ok :: "ed25519 \<Rightarrow> (bytes \<Rightarrow> bytes) \<Rightarrow> store_config \<Rightarrow> bool" where
  "store_ok ed blake3 c \<longleftrightarrow> store_inv ed blake3 (fst c) \<and> quota_inv c"

lemma permuted_distinct:
  assumes "mset bl = mset al" "distinct (map fst al)"
  shows "distinct (map fst bl)"
proof -
  have "mset (map fst bl) = mset (map fst al)"
    using assms(1) by simp
  with assms(2) show ?thesis
    using mset_eq_imp_distinct_iff by blast
qed

lemma map_of_permuted:
  assumes "distinct (map fst al)" "mset bl = mset al"
  shows "map_of bl = map_of al"
  using map_of_inject_set [OF assms(1) permuted_distinct [OF assms(2,1)]] mset_eq_setD [OF assms(2)] by simp

lemma introduced_forget_own [simp]: "introduced (forget_own h s) = introduced s"
  by (simp add: forget_own_def split: option.splits)

lemma store_step_ok:
  assumes "store_step ed blake3 c c'" "store_ok ed blake3 c"
  shows "store_ok ed blake3 c'"
  using assms(1)
proof (cases rule: store_step.cases)
  case (step_put iter clock now h d org s s' r log' log)
  then have inv: "store_inv ed blake3 s" "quota_inv (s, log, clock)"
    using assms(2) by (simp_all add: store_ok_def)
  show ?thesis
    using step_put(1,2) store_inv_put [OF inv(1) step_put(3,5)]
      quota_put [OF inv(2) step_put(4,3) store_invD(1) [OF inv(1)] step_put(5,6)]
    by (simp add: store_ok_def)
next
  case (step_forget s log clock h)
  with assms(2) show ?thesis
    by (simp add: store_ok_def store_inv_forget quota_inv_def window_of_def)
next
  case (step_reorder es s ws log clock)
  then have d: "distinct (map fst (entries s))" "distinct (map fst (introduced s))"
    using assms(2) by (auto simp: store_ok_def store_inv_def quota_inv_def)
  have "map_of es = map_of (entries s)" "map_of ws = map_of (introduced s)"
    "distinct (map fst es)" "distinct (map fst ws)" "length es = length (entries s)"
    using map_of_permuted [OF d(1) step_reorder(3)] map_of_permuted [OF d(2) step_reorder(4)]
      step_reorder(3,4) d mset_eq_length permuted_distinct by auto
  with step_reorder(1,2) assms(2) show ?thesis
    by (simp add: store_ok_def store_inv_def quota_inv_def window_of_def)
qed

lemma store_reachable_ok:
  "(store_step ed blake3)\<^sup>*\<^sup>* (new_store, [], 0) c \<Longrightarrow> store_ok ed blake3 c"
proof (induction rule: rtranclp_induct)
  case base
  show ?case
    by (simp add: store_ok_def store_inv_def quota_inv_def new_store_def times_of_def window_ok_Nil)
qed (rule store_step_ok)

section \<open>What one put does\<close>

lemma put_entries:
  assumes "put ed blake3 iter h d org now s = (s', r)" "iterates iter" "distinct (map fst (entries s))"
  obtains (refused) e where "r = Err e" "\<And>k. map_option st_descriptor (map_of (entries s') k) = map_option st_descriptor (map_of (entries s) k)"
      "\<And>k. map_option st_origin (map_of (entries s') k) = map_option st_origin (map_of (entries s) k)"
  | (renewed) held ds where "r = Ok ()" "map_of (entries s) h = Some held" "\<not> expired d now"
      "\<not> expired (st_descriptor held) now \<Longrightarrow> revision (st_descriptor held) < revision d"
      "map_of (entries s') = (map_of (entries s))(h \<mapsto>
         \<lparr>st_descriptor = d, st_origin = merge_origin (st_origin held) org, delivered_by = ds\<rparr>)"
  | (added) s2 where "r = Ok ()" "map_of (entries s) h = None" "\<not> expired d now"
      "entries s2 = entries s \<or> (\<exists>s1. entries s1 = entries s \<and> evict_one iter now org s1 = (s2, True))"
      "map_of (entries s') = (map_of (entries s2))(h \<mapsto>
         \<lparr>st_descriptor = d, st_origin = org, delivered_by = note_delivery [] org\<rparr>)"
proof -
  consider (early) e where "s' = s" "r = Err e"
    | (held) held where "\<not> expired d now" "map_of (entries s) h = Some held" "put_held h d org now held s = (s', r)"
    | (new) "\<not> expired d now" "map_of (entries s) h = None" "put_new iter h d org now s = (s', r)"
    using assms(1) by (auto simp: put_def split: if_splits option.splits)
  then show ?thesis
  proof cases
    case early
    then show ?thesis by (intro refused) auto
  next
    case (held st)
    show ?thesis
    proof (cases "\<not> expired (st_descriptor st) now \<and> revision d \<le> revision (st_descriptor st)")
      case True
      with held show ?thesis
        by (intro refused [of NotNewer]) (auto simp: put_held_def update_conv' split: if_splits)
    next
      case False
      with held show ?thesis
        by (intro renewed [of st]) (auto simp: put_held_def update_conv' Let_def split: if_splits)
    qed
  next
    case new
    from new(3) assms(2) show ?thesis
    proof (cases rule: put_new_cases)
      case (new s1 s2 s3)
      then show ?thesis
        using \<open>map_of (entries s) h = None\<close> \<open>\<not> expired d now\<close>
        by (intro added [of s2]) (auto simp: update_conv' split: origin.splits)
    qed (auto intro!: refused split: origin.splits)
  qed
qed

lemma evict_one_victim:
  assumes "evict_one iter now org s = (s', ok)" "iterates iter" "distinct (map fst (entries s))"
    and "map_of (entries s) k = Some st" "map_of (entries s') k = None"
  shows "expired (st_descriptor st) now \<or> st_origin st = Fetched
    \<or> (\<exists>q. sole st = Some q \<and> org \<noteq> Pushed q \<and> (\<forall>q'. sole_count (entries s) q' \<le> sole_count (entries s) q))"
  using assms(1,2)
proof (cases rule: evict_one_cases)
  case (one h st')
  then have "k = h"
    using assms(4,5) by (auto simp: delete_conv' split: if_splits)
  then have "st' = st"
    using one(2) assms(3,4) by simp
  with one(4) show ?thesis by blast
qed (use assms(3,4,5) in \<open>auto simp: map_of_filter_live split: if_splits\<close>)

section \<open>Properties\<close>

text \<open>
  Claim C12. Whatever sequence of puts, withdrawals and map reorderings a node
  goes through, with a clock that does not run backwards: it holds at most 4096
  descriptors, each one verified against the address it is held under and
  credited to at most four distinct deliverers; and no pusher ever introduced
  more than 32 new addresses within any hour.
\<close>

theorem store_reachable_bounds:
  assumes "(store_step ed blake3)\<^sup>*\<^sup>* (new_store, [], 0) (s, log, clock)"
  shows "length (entries s) \<le> 4096 \<and> distinct (map fst (entries s))
    \<and> (\<forall>h st. map_of (entries s) h = Some st \<longrightarrow>
         is_ok (verify_descriptor ed blake3 (st_descriptor st) h)
         \<and> distinct (delivered_by st) \<and> length (delivered_by st) \<le> 4)
    \<and> (\<forall>b T. length (filter (\<lambda>(p, t). p = b \<and> t \<le> T \<and> T < t + 3600) log) \<le> 32)"
proof -
  have ok: "store_inv ed blake3 s" "quota_inv (s, log, clock)"
    using store_reachable_ok [OF assms] by (simp_all add: store_ok_def)
  have "length (filter (\<lambda>(p, t). p = b \<and> t \<le> T \<and> T < t + 3600) log)
      = length (filter (\<lambda>t. t \<le> T \<and> T < t + HOUR) (times_of b log))" for b T
    unfolding times_of_def by (induction log) (auto simp: HOUR_def)
  moreover have "length (filter (\<lambda>t. t \<le> T \<and> T < t + HOUR) (times_of b log)) \<le> 32" for b T
    using ok(2) window_ok_quota by (fastforce simp: quota_inv_def MAX_NEW_PER_PUSHER_PER_HOUR_def)
  ultimately show ?thesis
    using ok(1) by (auto simp: store_inv_def entry_ok_def MAX_STORED_SERVICES_def MAX_DELIVERERS_def)
qed

definition sample_hash :: "bytes \<Rightarrow> bytes" where
  "sample_hash b = take 32 (b @ replicate 32 1)"

definition sample_descriptor :: "u8 \<Rightarrow> nat \<Rightarrow> service_descriptor" where
  "sample_descriptor key r = sign_descriptor sample_ed sample_hash [key]
     [\<lparr>sa_ip = V4 (ipv4_new 81 2 3 4), sa_port = 80\<rparr>] r"

definition sample_address :: "u8 \<Rightarrow> bytes" where
  "sample_address key = service_hash_of sample_hash (verifying_key sample_ed [key])"

definition sample_put :: "u8 \<Rightarrow> nat \<Rightarrow> origin \<Rightarrow> nat \<Rightarrow> service_store \<Rightarrow> service_store \<times> (refused + unit)" where
  "sample_put key r org now s =
     put sample_ed sample_hash (\<lambda>xs. xs) (sample_address key) (sample_descriptor key r) org now s"

lemma iterates_id: "iterates (\<lambda>xs. xs)"
  by (simp add: iterates_def)

lemma sample_verifies [simp]:
  "is_ok (verify_descriptor sample_ed sample_hash (sample_descriptor key r) (sample_address key))"
  unfolding sample_descriptor_def sample_address_def
  by (rule sign_verifies) (simp_all add: MAX_INTRO_POINTS_def)

lemma sample_revision [simp]: "revision (sample_descriptor key r) = r"
  by (simp add: sample_descriptor_def sign_descriptor_def Let_def)

lemmas sample_evaluate = sample_put_def put_def put_new_def Let_def expired_def saturating_add_def U64_MAX_def
  DESCRIPTOR_TTL_SECS_def MAX_CLOCK_SKEW_SECS_def MAX_STORED_SERVICES_def HOUR_def
  MAX_NEW_PER_PUSHER_PER_HOUR_def slide_window_def note_introduced_tracked window_of_def update_conv'
  note_delivery_def MAX_DELIVERERS_def

lemma sample_own:
  "sample_put 7 100 Own 90 new_store = (\<lparr>entries = [(sample_address 7,
     \<lparr>st_descriptor = sample_descriptor 7 100, st_origin = Own, delivered_by = []\<rparr>)], introduced = []\<rparr>, Ok ())"
  by (simp add: sample_evaluate new_store_def)

lemma sample_pushed:
  "sample_put 7 100 (Pushed [1]) 90 new_store = (\<lparr>entries = [(sample_address 7,
     \<lparr>st_descriptor = sample_descriptor 7 100, st_origin = Pushed [1], delivered_by = [[1]]\<rparr>)],
     introduced = [([1], [90])]\<rparr>, Ok ())"
  by (simp add: sample_evaluate new_store_def)

lemma sample_reach:
  "(store_step sample_ed sample_hash)\<^sup>*\<^sup>* (new_store, [], 0)
     (fst (sample_put 7 100 (Pushed [1]) 90 new_store), [([1], 90)], 90)"
proof (rule r_into_rtranclp, rule step_put [OF iterates_id])
  show "put sample_ed sample_hash (\<lambda>xs. xs) (sample_address 7) (sample_descriptor 7 100) (Pushed [1]) 90 new_store
      = (fst (sample_put 7 100 (Pushed [1]) 90 new_store), Ok ())"
    using sample_pushed by (simp add: sample_put_def)
  show "[([1], 90)] = [] @ (case Pushed [1] of
      Pushed b \<Rightarrow> if introduces new_store (sample_address 7) (Pushed [1]) (Ok ()) b then [(b, 90)] else [] | _ \<Rightarrow> [])"
    by (simp add: introduces_def new_store_def)
qed simp

theorem store_reachable_bounds_witness:
  "length (entries (fst (sample_put 7 100 (Pushed [1]) 90 new_store))) \<le> 4096
   \<and> length (filter (\<lambda>(p, t). p = [1 :: u8] \<and> t \<le> 100 \<and> 100 < t + 3600) [([1], 90 :: nat)]) \<le> 32"
  using store_reachable_bounds [OF sample_reach] by blast

text \<open>
  A descriptor that \<open>put\<close> accepts is what \<open>get\<close> returns for its address
  at that moment; one that it refuses leaves every descriptor and every origin
  as it was; and an unexpired descriptor that is still held after a put never
  went back to an older revision.
\<close>

theorem put_then_get:
  assumes "put ed blake3 iter h d org now s = (s', r)" "iterates iter" "distinct (map fst (entries s))"
  shows "(r = Ok () \<longrightarrow> map_option st_descriptor (get s' h now) = Some d)
    \<and> (r \<noteq> Ok () \<longrightarrow> (\<forall>k. map_option st_descriptor (get s' k now) = map_option st_descriptor (get s k now)))
    \<and> (\<forall>k st st'. get s k now = Some st \<longrightarrow> map_of (entries s') k = Some st' \<longrightarrow>
         revision (st_descriptor st) \<le> revision (st_descriptor st'))"
  using assms
proof (cases rule: put_entries)
  case (refused e)
  have "map_option st_descriptor (get s' k now) = map_option st_descriptor (get s k now)" for k
    using refused(2) [of k] unfolding get_def
    by (cases "map_of (entries s) k"; cases "map_of (entries s') k") auto
  moreover have "revision (st_descriptor st) \<le> revision (st_descriptor st')"
    if "get s k now = Some st" "map_of (entries s') k = Some st'" for k st st'
    using refused(2) [of k] that by (auto simp: get_def split: option.splits if_splits)
  ultimately show ?thesis using refused(1) by blast
next
  case (renewed held ds)
  then show ?thesis
    by (auto simp: get_def less_imp_le split: option.splits if_splits)
next
  case (added s2)
  have sub: "map_of (entries s) k = Some st'" if "map_of (entries s2) k = Some st'" for k st'
    using added(4) evict_one_shrinks(3) [OF _ assms(2)] assms(3) that by metis
  have "revision (st_descriptor st) \<le> revision (st_descriptor st')"
    if "get s k now = Some st" "map_of (entries s') k = Some st'" for k st st'
  proof (cases "k = h")
    case True
    then show ?thesis using that(1) added(2) by (simp add: get_def)
  next
    case False
    then have "map_of (entries s) k = Some st'"
      using that(2) added(5) sub by simp
    then show ?thesis using that(1) by (simp add: get_def split: if_splits)
  qed
  moreover have "map_option st_descriptor (get s' h now) = Some d"
    using added(3,5) by (simp add: get_def)
  ultimately show ?thesis using added(1) by blast
qed

theorem put_then_get_witness:
  "map_option st_descriptor (get (fst (sample_put 7 100 Own 90 new_store)) (sample_address 7) 90)
     = Some (sample_descriptor 7 100)"
  using put_then_get [OF sample_own [unfolded sample_put_def] iterates_id] sample_own
  by (simp add: new_store_def)

text \<open>
  Nobody can push this node's own services out: while a descriptor
  the node announced itself has not expired, every put leaves it in place, still
  the node's own, at the same revision or a newer one.
\<close>

theorem own_service_kept:
  assumes "put ed blake3 iter h d org now s = (s', r)" "iterates iter" "distinct (map fst (entries s))"
    and "get s k now = Some st" "st_origin st = Own"
  shows "\<exists>st'. get s' k now = Some st' \<and> st_origin st' = Own
    \<and> revision (st_descriptor st) \<le> revision (st_descriptor st')"
proof -
  have k: "map_of (entries s) k = Some st" "\<not> expired (st_descriptor st) now"
    using assms(4) by (auto simp: get_def split: option.splits if_splits)
  show ?thesis
    using assms(1,2,3)
  proof (cases rule: put_entries)
    case (refused e)
    then show ?thesis
      using k assms(5) refused(2,3) [of k] unfolding get_def by (cases "map_of (entries s') k") auto
  next
    case (renewed held ds)
    then show ?thesis
      using k assms(5) by (cases "k = h") (auto simp: get_def merge_origin_def less_imp_le)
  next
    case (added s2)
    have "map_of (entries s2) k \<noteq> None"
      using added(4)
    proof (elim disjE exE conjE)
      fix s1 assume s1: "entries s1 = entries s" "evict_one iter now org s1 = (s2, True)"
      show ?thesis
        using evict_one_victim [OF s1(2) assms(2), of k st] s1(1) assms(3,5) k by (auto simp: sole_def)
    qed (use k in simp)
    moreover have "x = st" if "map_of (entries s2) k = Some x" for x
      using added(4) evict_one_shrinks(3) [OF _ assms(2)] assms(3) k that by (metis option.inject)
    ultimately have "map_of (entries s2) k = Some st"
      by blast
    then show ?thesis
      using added(2,5) k assms(5) by (auto simp: get_def)
  qed
qed

theorem own_service_kept_witness:
  "\<exists>st'. get (fst (sample_put 9 200 (Pushed [1]) 95 (fst (sample_put 7 100 Own 90 new_store)))) (sample_address 7) 95 = Some st'
     \<and> st_origin st' = Own"
proof -
  let ?s = "fst (sample_put 7 100 Own 90 new_store)"
  obtain s' r where p: "sample_put 9 200 (Pushed [1]) 95 ?s = (s', r)"
    by fastforce
  have st: "get ?s (sample_address 7) 95 = Some \<lparr>st_descriptor = sample_descriptor 7 100, st_origin = Own, delivered_by = []\<rparr>"
    and d: "distinct (map fst (entries ?s))"
    by (simp_all add: sample_own get_def expired_def saturating_add_def U64_MAX_def DESCRIPTOR_TTL_SECS_def)
  from own_service_kept [OF p [unfolded sample_put_def [of 9]] iterates_id d st] p show ?thesis
    by auto
qed

text \<open>
  A push displaces an unexpired descriptor only if it is a looked-up
  copy, or if it is credited to one other pusher alone who has at least as many
  such entries as anybody, the newcomer included: a node cannot make room for
  itself among the entries of smaller pushers.
\<close>

theorem push_displaces_heaviest_only:
  assumes "put ed blake3 iter h d (Pushed p) now s = (s', r)" "iterates iter" "distinct (map fst (entries s))"
    and "get s k now = Some st"
  shows "map_of (entries s') k \<noteq> None \<or> st_origin st = Fetched
    \<or> (\<exists>q. sole st = Some q \<and> q \<noteq> p \<and> (\<forall>q'. sole_count (entries s) q' \<le> sole_count (entries s) q))"
proof -
  have k: "map_of (entries s) k = Some st" "\<not> expired (st_descriptor st) now"
    using assms(4) by (auto simp: get_def split: option.splits if_splits)
  show ?thesis
    using assms(1,2,3)
  proof (cases rule: put_entries)
    case (refused e)
    then show ?thesis using k refused(2) [of k] by (cases "map_of (entries s') k") simp_all
  next
    case (renewed held ds)
    then show ?thesis using k by simp
  next
    case (added s2)
    show ?thesis
    proof (rule ccontr)
      assume c: "\<not> ?thesis"
      then have gone: "map_of (entries s2) k = None"
        using added(5) by (auto split: if_splits)
      with added(4) k obtain s1 where s1: "entries s1 = entries s" "evict_one iter now (Pushed p) s1 = (s2, True)"
        by auto
      show False
        using evict_one_victim [OF s1(2) assms(2), of k st] s1(1) assms(3) k c gone by auto
    qed
  qed
qed

theorem push_displaces_heaviest_only_witness:
  "map_of (entries (fst (sample_put 9 200 (Pushed [1]) 95 (fst (sample_put 7 100 Own 90 new_store))))) (sample_address 7) \<noteq> None"
proof -
  let ?s = "fst (sample_put 7 100 Own 90 new_store)"
  obtain s' r where p: "sample_put 9 200 (Pushed [1]) 95 ?s = (s', r)"
    by fastforce
  have st: "get ?s (sample_address 7) 95 = Some \<lparr>st_descriptor = sample_descriptor 7 100, st_origin = Own, delivered_by = []\<rparr>"
    and d: "distinct (map fst (entries ?s))"
    by (simp_all add: sample_own get_def expired_def saturating_add_def U64_MAX_def DESCRIPTOR_TTL_SECS_def)
  from push_displaces_heaviest_only [OF p [unfolded sample_put_def [of 9]] iterates_id d st] p show ?thesis
    by (auto simp: sole_def)
qed

text \<open>
  The table of tracked pushers only grows. \<open>put\<close> looks its pusher up
  with \<^verbatim>\<open>entry(by).or_default()\<close> before it asks whether the pusher is untracked, so
  the branch that forgets idle pushers beyond 8192 of them is never taken: no
  put ever removes a pusher, and a push that is stored always leaves its pusher
  tracked.
\<close>

theorem tracked_pushers_only_grow:
  assumes "put ed blake3 iter h d org now s = (s', r)" "iterates iter" "distinct (map fst (entries s))"
  shows "fst ` set (introduced s) \<subseteq> fst ` set (introduced s')
    \<and> (\<forall>b. org = Pushed b \<longrightarrow> map_of (entries s) h = None \<longrightarrow> r = Ok () \<longrightarrow> b \<in> fst ` set (introduced s'))"
proof (cases "put ed blake3 iter h d org now s = put_new iter h d org now s")
  case False
  then show ?thesis
    using assms(1) by (auto simp: put_def put_held_def Let_def split: option.splits if_splits)
next
  case True
  have slide: "fst ` set (introduced (slide_window now b s)) = insert b (fst ` set (introduced s))" for b
    by (simp add: slide_window_def dom_update)
  from True assms(1) have "put_new iter h d org now s = (s', r)"
    by simp
  from this assms(2) show ?thesis
  proof (cases rule: put_new_cases)
    case (new s1 s2 s3)
    have i: "introduced s2 = introduced s1"
      using new(2,4) evict_one_shrinks(1) [OF _ assms(2), of now org s1 s2 True] assms(3) by (auto split: origin.splits)
    show ?thesis
    proof (cases org)
      case (Pushed b)
      then have "map_of (introduced s2) b \<noteq> None"
        using new(2) by (simp add: i slide_window_def update_conv')
      then show ?thesis
        using new(2,5,6) Pushed slide by (auto simp: note_introduced_tracked dom_update i)
    qed (use new(2,5,6) i in auto)
  qed (auto simp: slide split: origin.splits)
qed

theorem tracked_pushers_only_grow_witness:
  "[1] \<in> fst ` set (introduced (fst (sample_put 7 100 (Pushed [1]) 90 new_store)))"
  using tracked_pushers_only_grow [OF sample_pushed [unfolded sample_put_def] iterates_id] sample_pushed
  by (simp add: new_store_def)

end
