(* ===== verification/Dht_Message.thy ===== *)
theory Dht_Message
  imports Dht_Store Routing_Table
begin

text \<open>
  The DHT's wire format and the answers to requests
  (\<^verbatim>\<open>hidra-node/src/p2p/dht/message.rs\<close> and \<^verbatim>\<open>handler.rs\<close>). \<^verbatim>\<open>bincode\<close> is a pair of
  parameters, \<open>ser\<close> and \<open>deser\<close>; a message is a value of \<open>dht_message\<close>. The
  handler reads the routing table and changes only the store.

  The lemmas show that a packet is accepted only from the key its sender's ID
  was derived from, that \<open>is_near\<close> counts the distinct networks closer to the
  target, and what each request is answered with.
\<close>

definition MAGIC :: bytes where
  "MAGIC = ascii_bytes ''HDT2''"

definition SIGNATURE_LEN :: nat where
  "SIGNATURE_LEN = 64"

definition PUBKEY_LEN :: nat where
  "PUBKEY_LEN = 32"

definition HEADER_LEN :: nat where
  "HEADER_LEN = 4 + SIGNATURE_LEN + PUBKEY_LEN"

type_synonym request = "64 word"

datatype dht_message =
    Ping request node_info
  | Pong request node_info
  | FindNode request node_info node_id
  | FindNodeResponse request node_info "node_info list"
  | Store request node_info node_id bytes
  | StoreResponse request bool
  | AnnounceRelay request node_info
  | AnnounceService request node_info bytes service_descriptor
  | LookupService request node_info bytes
  | LookupServiceResponse request node_info "service_descriptor option"

fun sender :: "dht_message \<Rightarrow> node_info option" where
  "sender (Ping _ s) = Some s"
| "sender (Pong _ s) = Some s"
| "sender (FindNode _ s _) = Some s"
| "sender (FindNodeResponse _ s _) = Some s"
| "sender (Store _ s _ _) = Some s"
| "sender (AnnounceRelay _ s) = Some s"
| "sender (AnnounceService _ s _ _) = Some s"
| "sender (LookupService _ s _) = Some s"
| "sender (LookupServiceResponse _ s _) = Some s"
| "sender (StoreResponse _ _) = None"

fun request_id :: "dht_message \<Rightarrow> request" where
  "request_id (Ping r _) = r"
| "request_id (Pong r _) = r"
| "request_id (FindNode r _ _) = r"
| "request_id (FindNodeResponse r _ _) = r"
| "request_id (Store r _ _ _) = r"
| "request_id (StoreResponse r _) = r"
| "request_id (AnnounceRelay r _) = r"
| "request_id (AnnounceService r _ _ _) = r"
| "request_id (LookupService r _ _) = r"
| "request_id (LookupServiceResponse r _ _) = r"

fun message_type :: "dht_message \<Rightarrow> string" where
  "message_type (Ping _ _) = ''PING''"
| "message_type (Pong _ _) = ''PONG''"
| "message_type (FindNode _ _ _) = ''FIND_NODE''"
| "message_type (FindNodeResponse _ _ _) = ''FIND_NODE_RESPONSE''"
| "message_type (Store _ _ _ _) = ''STORE''"
| "message_type (StoreResponse _ _) = ''STORE_RESPONSE''"
| "message_type (AnnounceRelay _ _) = ''ANNOUNCE_RELAY''"
| "message_type (AnnounceService _ _ _ _) = ''ANNOUNCE_SERVICE''"
| "message_type (LookupService _ _ _) = ''LOOKUP_SERVICE''"
| "message_type (LookupServiceResponse _ _ _) = ''LOOKUP_SERVICE_RESPONSE''"

fun is_response :: "dht_message \<Rightarrow> bool" where
  "is_response (Pong _ _) = True"
| "is_response (FindNodeResponse _ _ _) = True"
| "is_response (StoreResponse _ _) = True"
| "is_response (LookupServiceResponse _ _ _) = True"
| "is_response _ = False"

datatype message_error =
    SerializeFailed
  | PacketTooShort
  | InvalidMagic
  | InvalidPublicKey
  | SignatureFailed
  | DeserializeFailed
  | SenderNotTheSigner

definition sign_and_serialize ::
  "ed25519 \<Rightarrow> (dht_message \<Rightarrow> bytes option) \<Rightarrow> dht_message \<Rightarrow> bytes \<Rightarrow> message_error + bytes" where
  "sign_and_serialize ed ser msg signing_key = (case ser msg of
      None \<Rightarrow> Err SerializeFailed
    | Some payload \<Rightarrow>
        (let pubkey = verifying_key ed signing_key;
             sign_data = pubkey @ payload;
             signature = ed_sign ed signing_key sign_data
         in Ok (MAGIC @ signature @ pubkey @ payload)))"

definition verify_and_deserialize ::
  "ed25519 \<Rightarrow> (bytes \<Rightarrow> dht_message option) \<Rightarrow> bytes \<Rightarrow> message_error + (dht_message \<times> bytes)" where
  "verify_and_deserialize ed deser packet =
     (if length packet < HEADER_LEN then Err PacketTooShort
      else if take 4 packet \<noteq> MAGIC then Err InvalidMagic
      else
        (let sig_bytes = take SIGNATURE_LEN (drop 4 packet);
             pubkey_bytes = take PUBKEY_LEN (drop (4 + SIGNATURE_LEN) packet);
             payload = drop HEADER_LEN packet
         in if \<not> ed_key_ok ed pubkey_bytes then Err InvalidPublicKey
            else if \<not> ed_verify ed pubkey_bytes (pubkey_bytes @ payload) sig_bytes then Err SignatureFailed
            else (case deser payload of
                    None \<Rightarrow> Err DeserializeFailed
                  | Some msg \<Rightarrow> Ok (msg, pubkey_bytes))))"

definition verify_and_bind ::
  "ed25519 \<Rightarrow> (bytes \<Rightarrow> bytes) \<Rightarrow> (bytes \<Rightarrow> dht_message option) \<Rightarrow> bytes \<Rightarrow> nat \<Rightarrow>
   message_error + (dht_message \<times> bytes)" where
  "verify_and_bind ed blake3 deser packet id_bits =
     bind_result (verify_and_deserialize ed deser packet) (\<lambda>(msg, pubkey).
       case sender msg of
         Some s \<Rightarrow> (if ni_public_key s \<noteq> pubkey \<or> \<not> id_is_valid blake3 s id_bits then Err SenderNotTheSigner
                   else Ok (msg, pubkey))
       | None \<Rightarrow> Ok (msg, pubkey))"

section \<open>Requests\<close>

record handle_result =
  response :: "dht_message option"
  contact :: "node_info option"

definition NEAR_NEIGHBOURHOODS :: nat where
  "NEAR_NEIGHBOURHOODS = 3 * K"

fun near_loop :: "bytes \<Rightarrow> node_id \<Rightarrow> neighbourhood list \<Rightarrow> node_info list \<Rightarrow> bool" where
  "near_loop ours target closer [] = True"
| "near_loop ours target closer (n # ns) =
     (if ours \<le> xor_distance (ni_id n) target then True
      else (let closer' = List.insert (neighbourhood_of (dht_addr n)) closer
            in if NEAR_NEIGHBOURHOODS \<le> length closer' then False
               else near_loop ours target closer' ns))"

definition is_near :: "routing_table \<Rightarrow> node_id \<Rightarrow> node_id \<Rightarrow> bool" where
  "is_near table own target =
     near_loop (xor_distance own target) target [] (find_closest table target (total_nodes table))"

definition handle_message ::
  "ed25519 \<Rightarrow> (bytes \<Rightarrow> bytes) \<Rightarrow> ((node_id \<times> nat) list \<Rightarrow> (node_id \<times> nat) list) \<Rightarrow>
   routing_table \<Rightarrow> dht_message \<Rightarrow> node_info \<Rightarrow> service_store \<Rightarrow> nat \<Rightarrow> service_store \<times> handle_result" where
  "handle_message ed blake3 iter table msg our_info services now =
     (let contact = sender msg;
          reply = (\<lambda>r. (services, \<lparr>response = Some r, contact = contact\<rparr>))
      in case msg of
        Ping rid s \<Rightarrow> reply (Pong rid our_info)
      | FindNode rid s target \<Rightarrow> reply (FindNodeResponse rid our_info (find_closest table target K))
      | Store rid s key value \<Rightarrow> reply (StoreResponse rid True)
      | AnnounceService rid s h d \<Rightarrow>
          (if is_near table (ni_id our_info) (service_target blake3 h)
           then (fst (put ed blake3 iter h d (Pushed (ni_id s)) now services), \<lparr>response = None, contact = contact\<rparr>)
           else (services, \<lparr>response = None, contact = contact\<rparr>))
      | LookupService rid s h \<Rightarrow>
          reply (LookupServiceResponse rid our_info (map_option st_descriptor (get services h now)))
      | AnnounceRelay rid s \<Rightarrow> (services, \<lparr>response = None, contact = contact\<rparr>)
      | _ \<Rightarrow> (services, \<lparr>response = None, contact = None\<rparr>))"

section \<open>Lemmas\<close>

lemma verify_and_deserialize_ok:
  assumes "verify_and_deserialize ed deser packet = Ok (msg, pk)"
  obtains sig payload where "packet = MAGIC @ sig @ pk @ payload" "length sig = SIGNATURE_LEN"
    "length pk = PUBKEY_LEN" "ed_key_ok ed pk" "ed_verify ed pk (pk @ payload) sig" "deser payload = Some msg"
proof -
  let ?sig = "take SIGNATURE_LEN (drop 4 packet)" and ?payload = "drop HEADER_LEN packet"
  have c: "HEADER_LEN \<le> length packet" "take 4 packet = MAGIC"
      "pk = take PUBKEY_LEN (drop (4 + SIGNATURE_LEN) packet)"
      "ed_key_ok ed pk" "ed_verify ed pk (pk @ ?payload) ?sig" "deser ?payload = Some msg"
    using assms by (auto simp: verify_and_deserialize_def Let_def not_less split: if_splits option.splits)
  have "packet = take 4 packet @ drop 4 packet"
    by simp
  also have "drop 4 packet = ?sig @ drop (4 + SIGNATURE_LEN) packet"
    by (metis append_take_drop_id drop_drop add.commute)
  also have "drop (4 + SIGNATURE_LEN) packet = pk @ ?payload"
    unfolding c(3) by (metis append_take_drop_id drop_drop add.commute HEADER_LEN_def)
  finally have "packet = MAGIC @ ?sig @ pk @ ?payload"
    using c(2) by simp
  moreover have "length ?sig = SIGNATURE_LEN" "length pk = PUBKEY_LEN"
    using c(1,3) by (simp_all add: HEADER_LEN_def)
  ultimately show ?thesis
    using that c by blast
qed

lemma length_MAGIC: "length MAGIC = 4"
  by (simp add: MAGIC_def ascii_bytes_def)

lemma serialize_then_verify:
  assumes "ed_correct ed" "ser msg = Some payload" "deser payload = Some msg"
  shows "\<exists>packet. sign_and_serialize ed ser msg key = Ok packet
    \<and> verify_and_deserialize ed deser packet = Ok (msg, verifying_key ed key)"
proof -
  let ?pk = "verifying_key ed key"
  let ?sig = "ed_sign ed key (?pk @ payload)"
  have len: "length ?sig = 64" "length ?pk = 32"
    and ok: "ed_key_ok ed ?pk" "ed_verify ed ?pk (?pk @ payload) ?sig"
    using assms(1) by (auto simp: ed_correct_def)
  let ?p = "MAGIC @ ?sig @ ?pk @ payload"
  have parts: "\<not> length ?p < HEADER_LEN" "take 4 ?p = MAGIC" "take SIGNATURE_LEN (drop 4 ?p) = ?sig"
    "take PUBKEY_LEN (drop (4 + SIGNATURE_LEN) ?p) = ?pk" "drop HEADER_LEN ?p = payload"
    using len by (simp_all add: length_MAGIC HEADER_LEN_def SIGNATURE_LEN_def PUBKEY_LEN_def)
  have "verify_and_deserialize ed deser ?p = Ok (msg, ?pk)"
    unfolding verify_and_deserialize_def Let_def parts(2-5) using parts(1) ok assms(3) by simp
  then show ?thesis
    using assms(2) by (auto simp: sign_and_serialize_def Let_def)
qed

lemma near_loop_count:
  assumes "sorted (map (\<lambda>n. xor_distance (ni_id n) target) ns)" "distinct closer" "length closer < NEAR_NEIGHBOURHOODS"
  shows "near_loop ours target closer ns \<longleftrightarrow>
    card (set closer \<union> (\<lambda>n. neighbourhood_of (dht_addr n)) ` {n \<in> set ns. xor_distance (ni_id n) target < ours})
      < NEAR_NEIGHBOURHOODS"
  using assms
proof (induction ns arbitrary: closer)
  case Nil
  then show ?case by (simp add: distinct_card)
next
  case (Cons n ns)
  let ?nb = "neighbourhood_of (dht_addr n)"
  let ?c = "List.insert ?nb closer"
  let ?near = "\<lambda>ns. (\<lambda>n. neighbourhood_of (dht_addr n)) ` {n \<in> set ns. xor_distance (ni_id n) target < ours}"
  show ?case
  proof (cases "ours \<le> xor_distance (ni_id n) target")
    case True
    then have "?near (n # ns) = {}"
      using Cons.prems(1) by (auto simp: not_less[symmetric] dest: order.strict_trans2 [of _ ours])
    then have "set closer \<union> ?near (n # ns) = set closer"
      by blast
    then show ?thesis
      using True Cons.prems(2,3) by (simp only:) (simp add: distinct_card)
  next
    case False
    then have eq: "set closer \<union> ?near (n # ns) = set ?c \<union> ?near ns"
      by (auto simp: not_le)
    have d: "distinct ?c"
      using Cons.prems(2) by simp
    show ?thesis
    proof (cases "NEAR_NEIGHBOURHOODS \<le> length ?c")
      case full: True
      have "length ?c \<le> card (set ?c \<union> ?near ns)"
        unfolding distinct_card [OF d, symmetric] by (intro card_mono) auto
      then show ?thesis
        using full False unfolding eq by (simp add: Let_def)
    next
      case more: False
      then have "near_loop ours target closer (n # ns) = near_loop ours target ?c ns"
        using False by (simp add: Let_def)
      also have "\<dots> \<longleftrightarrow> card (set ?c \<union> ?near ns) < NEAR_NEIGHBOURHOODS"
        using Cons.prems(1) d more by (intro Cons.IH) auto
      finally show ?thesis
        unfolding eq .
    qed
  qed
qed

section \<open>Properties\<close>

text \<open>
  Claim C18. A packet is accepted only if its signature verifies under the key
  it carries, over that key and the whole payload, and only if the sender named
  inside has that very key and an ID the key earned with a solved puzzle: a
  node cannot speak under another node's ID, nor under an unpaid one.
\<close>

theorem packet_bound_to_signer:
  assumes "verify_and_bind ed blake3 deser packet id_bits = Ok (msg, pk)"
  shows "(\<exists>sig payload. packet = MAGIC @ sig @ pk @ payload \<and> length sig = 64 \<and> length pk = 32
      \<and> ed_verify ed pk (pk @ payload) sig \<and> deser payload = Some msg)
    \<and> (\<forall>s. sender msg = Some s \<longrightarrow> ni_public_key s = pk
      \<and> ni_id s = for_node blake3 pk (id_nonce s) \<and> id_puzzle_ok blake3 pk (id_nonce s) id_bits)"
proof -
  have v: "verify_and_deserialize ed deser packet = Ok (msg, pk)"
    using assms by (cases "verify_and_deserialize ed deser packet")
      (auto simp: verify_and_bind_def split: option.splits if_splits)
  then have "\<exists>sig payload. packet = MAGIC @ sig @ pk @ payload \<and> length sig = 64 \<and> length pk = 32
      \<and> ed_verify ed pk (pk @ payload) sig \<and> deser payload = Some msg"
    by (rule verify_and_deserialize_ok) (auto simp: SIGNATURE_LEN_def PUBKEY_LEN_def)
  moreover have "ni_public_key s = pk \<and> id_is_valid blake3 s id_bits" if "sender msg = Some s" for s
    using assms v that by (auto simp: verify_and_bind_def split: if_splits)
  ultimately show ?thesis
    by (auto simp: id_is_valid_def)
qed

definition sample_sender :: "bytes \<Rightarrow> node_info" where
  "sample_sender key = \<lparr>ni_id = for_node sample_hash (verifying_key sample_ed key) 0,
     dht_addr = \<lparr>sa_ip = V4 (ipv4_new 81 2 3 4), sa_port = 9000\<rparr>, relay_addr = None,
     ni_public_key = verifying_key sample_ed key, id_nonce = 0\<rparr>"

definition sample_ping :: dht_message where
  "sample_ping = Ping 5 (sample_sender [7])"

lemma sample_sender_valid: "id_is_valid sample_hash (sample_sender key) 0"
  by (simp add: id_is_valid_def sample_sender_def id_puzzle_ok_def)

lemma sample_packet:
  obtains packet where "sign_and_serialize sample_ed (\<lambda>_. Some [1]) sample_ping [7] = Ok packet"
    "verify_and_bind sample_ed sample_hash (\<lambda>_. Some sample_ping) packet 0
      = Ok (sample_ping, verifying_key sample_ed [7])"
proof -
  obtain packet where p: "sign_and_serialize sample_ed (\<lambda>_. Some [1]) sample_ping [7] = Ok packet"
      "verify_and_deserialize sample_ed (\<lambda>_. Some sample_ping) packet = Ok (sample_ping, verifying_key sample_ed [7])"
    using serialize_then_verify [OF sample_ed_correct, of "\<lambda>_. Some [1]" sample_ping "[1]" "\<lambda>_. Some sample_ping" "[7]"]
    by auto
  then have "verify_and_bind sample_ed sample_hash (\<lambda>_. Some sample_ping) packet 0
      = Ok (sample_ping, verifying_key sample_ed [7])"
    using sample_sender_valid [of "[7]"] by (simp add: verify_and_bind_def sample_ping_def) (simp add: sample_sender_def)
  with p(1) that show ?thesis by blast
qed

theorem packet_bound_to_signer_witness:
  "\<exists>packet. verify_and_bind sample_ed sample_hash (\<lambda>_. Some sample_ping) packet 0
     = Ok (sample_ping, verifying_key sample_ed [7])
   \<and> take 4 packet = MAGIC"
  using sample_packet packet_bound_to_signer
  by (metis (no_types, lifting) append_eq_conv_conj length_MAGIC)

text \<open>
  What a node signs and sends is accepted by \<open>verify_and_bind\<close> as the
  same message from the same key, provided the sender it names is the node
  itself with a valid ID.
\<close>

theorem packet_roundtrip:
  assumes "ed_correct ed" "ser msg = Some payload" "deser payload = Some msg"
    and "\<forall>s. sender msg = Some s \<longrightarrow> ni_public_key s = verifying_key ed key \<and> id_is_valid blake3 s id_bits"
  shows "\<exists>packet. sign_and_serialize ed ser msg key = Ok packet
    \<and> verify_and_bind ed blake3 deser packet id_bits = Ok (msg, verifying_key ed key)"
  using serialize_then_verify [of ed ser msg payload deser key] assms
  by (auto simp: verify_and_bind_def split: option.splits)

theorem packet_roundtrip_witness:
  "\<exists>packet. sign_and_serialize sample_ed (\<lambda>_. Some [1]) sample_ping [7] = Ok packet
    \<and> verify_and_bind sample_ed sample_hash (\<lambda>_. Some sample_ping) packet 0
        = Ok (sample_ping, verifying_key sample_ed [7])"
proof (rule packet_roundtrip [OF sample_ed_correct, of _ _ "[1]"])
  show "\<forall>s. sender sample_ping = Some s \<longrightarrow>
      ni_public_key s = verifying_key sample_ed [7] \<and> id_is_valid sample_hash s 0"
    using sample_sender_valid [of "[7]"] by (simp add: sample_ping_def) (simp add: sample_sender_def)
qed simp_all

text \<open>
  A node takes itself to be near a target exactly when fewer than
  sixty distinct networks among the nodes of its table are strictly closer to
  the target than it is: adding nodes to one network, however close their IDs,
  changes the answer by at most one.
\<close>

theorem is_near_counts_networks:
  "is_near t own target \<longleftrightarrow>
     card ((\<lambda>n. neighbourhood_of (dht_addr n)) `
       {n \<in> set (all_nodes t). xor_distance (ni_id n) target < xor_distance own target}) < 60"
proof -
  have "length (all_nodes t) = total_nodes t"
    by (simp add: all_nodes_def total_nodes_def get_nodes_def length_concat comp_def)
  then have "set (find_closest t target (total_nodes t)) = set (all_nodes t)"
    using rt.closest_all [of t "total_nodes t" target] by (auto dest: mset_eq_setD)
  then show ?thesis
    unfolding is_near_def
    by (subst near_loop_count) (simp_all add: rt.closest_sorted NEAR_NEIGHBOURHOODS_def K_def)
qed

text \<open>
  However a request is answered, only an announcement can change the
  store, and only by a put credited to its sender; the response carries the
  request's number and, where it names a sender, the node itself; only requests
  hand back a contact, the request's own sender; and a descriptor handed out in
  a lookup verifies for the address asked for and has not expired.
\<close>

theorem handle_message_answers:
  assumes "store_inv ed blake3 services" "iterates iter"
    and "handle_message ed blake3 iter table msg our_info services now = (services', res)"
  shows "store_inv ed blake3 services'
    \<and> (services' \<noteq> services \<longrightarrow> (\<exists>rid s h d. msg = AnnounceService rid s h d
         \<and> is_near table (ni_id our_info) (service_target blake3 h)
         \<and> services' = fst (put ed blake3 iter h d (Pushed (ni_id s)) now services)))
    \<and> (\<forall>r. response res = Some r \<longrightarrow> is_response r \<and> \<not> is_response msg
         \<and> request_id r = request_id msg \<and> sender r \<in> {None, Some our_info})
    \<and> contact res = (if is_response msg then None else sender msg)
    \<and> (\<forall>rid s h d. msg = LookupService rid s h \<longrightarrow>
         response res = Some (LookupServiceResponse rid our_info (Some d)) \<longrightarrow>
         is_ok (verify_descriptor ed blake3 d h) \<and> \<not> expired d now)"
proof -
  have inv: "store_inv ed blake3 (fst (put ed blake3 iter h d org now services))" for h d org
    using store_inv_put [OF assms(1,2)] by (metis prod.collapse)
  have get: "is_ok (verify_descriptor ed blake3 (st_descriptor st) h) \<and> \<not> expired (st_descriptor st) now"
    if "get services h now = Some st" for h st
    using that store_invD(3) [OF assms(1)] by (auto simp: get_def entry_ok_def split: option.splits if_splits)
  show ?thesis
    using assms(1,3) inv get by (cases msg) (auto simp: handle_message_def Let_def split: if_splits)
qed

theorem handle_message_answers_witness:
  "\<exists>services' res. handle_message sample_ed sample_hash (\<lambda>xs. xs) (new_table (sample_id 0)) sample_ping
     (sample_sender [8]) new_store 90 = (services', res) \<and> services' = new_store
     \<and> contact res = Some (sample_sender [7])"
proof -
  obtain services' res where h: "handle_message sample_ed sample_hash (\<lambda>xs. xs) (new_table (sample_id 0)) sample_ping
      (sample_sender [8]) new_store 90 = (services', res)"
    by fastforce
  have "store_inv sample_ed sample_hash new_store"
    by (simp add: store_inv_def new_store_def)
  from handle_message_answers [OF this iterates_id h] h show ?thesis
    by (auto simp: sample_ping_def)
qed

end
