(* ===== verification/Onion.thy ===== *)
theory Onion
  imports Crypto_Params Net_Addr Nonce_Search
begin

unbundle bit_operations_syntax

text \<open>
  Onion circuits (\<^verbatim>\<open>hidra-node/src/onion/\<close>): fixed-size cells (\<^verbatim>\<open>cell.rs\<close>), the layer
  a client and one hop share, with a counter per direction (\<^verbatim>\<open>layer.rs\<close>), and
  wrapping and peeling a cell for every hop (\<^verbatim>\<open>builder.rs\<close>, \<^verbatim>\<open>circuit.rs\<close>). The
  cipher, the key derivation and the header codec come from other crates and are
  parameters: \<open>aead\<close>, \<open>hkdf\<close> and \<open>codec\<close>. Operations that change a layer return
  it, also when they fail.

  The lemmas show that padding is reversible and hides lengths, that an onion
  opens hop by hop to its payload and the right next addresses, that replies
  peel, and that a receiver accepts the cells of its peer only once and in
  order, whatever a network delivers.
\<close>

section \<open>Cells\<close>

definition CELL_BODY :: nat where
  "CELL_BODY = 2048"

definition LEN_PREFIX :: nat where
  "LEN_PREFIX = 2"

definition MAX_COMMAND :: nat where
  "MAX_COMMAND = CELL_BODY - LEN_PREFIX"

definition MAX_DATA :: nat where
  "MAX_DATA = MAX_COMMAND - 12"

datatype onion_error =
    CommandTooLong
  | WrongBodyLength
  | LengthPastBody
  | HeaderCodec
  | CountExhausted
  | InvalidLayerKey
  | EncryptionFailed
  | CellDidNotOpen
  | TooShortForHeaderLength
  | TooShortForHeader

definition pad_cell :: "bytes \<Rightarrow> onion_error + bytes" where
  "pad_cell command =
     (if MAX_COMMAND < length command then Err CommandTooLong
      else (let body = u16_to_be_bytes (of_nat (length command)) @ command
            in Ok (body @ replicate (CELL_BODY - length body) 0)))"

definition unpad_cell :: "bytes \<Rightarrow> onion_error + bytes" where
  "unpad_cell body =
     (if length body \<noteq> CELL_BODY then Err WrongBodyLength
      else (let len = unat (u16_from_be_bytes (body ! 0) (body ! 1))
            in if MAX_COMMAND < len then Err LengthPastBody
               else Ok (take len (drop LEN_PREFIX body))))"

record layer_header =
  next_hop :: "socket_addr option"

datatype relay_command =
    Connect string u16
  | Connected
  | Data bytes
  | End
  | ConnectFailed string
  | ResolveDns string
  | DnsResolved "string list"
  | RegisterService bytes bytes "64 word" bytes
  | ServiceRegistered
  | ConnectService bytes
  | ServiceConnected
  | Extend socket_addr bytes
  | Extended bytes
  | ExtendFinish bytes bytes
  | ExtendDone bytes
  | ExtendError string

section \<open>Layers\<close>

record aead =
  aead_encrypt :: "bytes \<Rightarrow> bytes \<Rightarrow> bytes \<Rightarrow> bytes option"
  aead_decrypt :: "bytes \<Rightarrow> bytes \<Rightarrow> bytes \<Rightarrow> bytes option"

record codec =
  ser_header :: "layer_header \<Rightarrow> bytes option"
  deser_header :: "bytes \<Rightarrow> layer_header option"

definition FORWARD_LABEL :: bytes where
  "FORWARD_LABEL = ascii_bytes ''HidraNet onion layer v2: client to hop''"

definition BACKWARD_LABEL :: bytes where
  "BACKWARD_LABEL = ascii_bytes ''HidraNet onion layer v2: hop to client''"

record direction =
  dir_key :: bytes
  dir_next :: "64 word"

definition nonce :: "direction \<Rightarrow> bytes" where
  "nonce d = replicate 4 0 @ u64_to_be_bytes (dir_next d)"

definition seal :: "aead \<Rightarrow> direction \<Rightarrow> bytes \<Rightarrow> direction \<times> (onion_error + bytes)" where
  "seal a d plaintext =
     (if dir_next d = - 1 then (d, Err CountExhausted)
      else if length (dir_key d) \<noteq> 32 then (d, Err InvalidLayerKey)
      else (case aead_encrypt a (dir_key d) (nonce d) plaintext of
              None \<Rightarrow> (d, Err EncryptionFailed)
            | Some out \<Rightarrow> (d\<lparr>dir_next := dir_next d + 1\<rparr>, Ok out)))"

definition open_cell :: "aead \<Rightarrow> direction \<Rightarrow> bytes \<Rightarrow> direction \<times> (onion_error + bytes)" where
  "open_cell a d ciphertext =
     (if length (dir_key d) \<noteq> 32 then (d, Err InvalidLayerKey)
      else (case aead_decrypt a (dir_key d) (nonce d) ciphertext of
              None \<Rightarrow> (d, Err CellDidNotOpen)
            | Some out \<Rightarrow> (d\<lparr>dir_next := dir_next d + 1\<rparr>, Ok out)))"

record layer_cipher =
  forward :: direction
  backward :: direction

definition new_layer :: "(bytes \<Rightarrow> bytes \<Rightarrow> bytes) \<Rightarrow> bytes \<Rightarrow> layer_cipher" where
  "new_layer hkdf session_key =
     \<lparr>forward = \<lparr>dir_key = hkdf session_key FORWARD_LABEL, dir_next = 0\<rparr>,
      backward = \<lparr>dir_key = hkdf session_key BACKWARD_LABEL, dir_next = 0\<rparr>\<rparr>"

definition seal_forward :: "aead \<Rightarrow> layer_cipher \<Rightarrow> bytes \<Rightarrow> layer_cipher \<times> (onion_error + bytes)" where
  "seal_forward a l plaintext = (let (d, r) = seal a (forward l) plaintext in (l\<lparr>forward := d\<rparr>, r))"

definition open_forward :: "aead \<Rightarrow> layer_cipher \<Rightarrow> bytes \<Rightarrow> layer_cipher \<times> (onion_error + bytes)" where
  "open_forward a l ciphertext = (let (d, r) = open_cell a (forward l) ciphertext in (l\<lparr>forward := d\<rparr>, r))"

definition seal_backward :: "aead \<Rightarrow> layer_cipher \<Rightarrow> bytes \<Rightarrow> layer_cipher \<times> (onion_error + bytes)" where
  "seal_backward a l plaintext = (let (d, r) = seal a (backward l) plaintext in (l\<lparr>backward := d\<rparr>, r))"

definition open_backward :: "aead \<Rightarrow> layer_cipher \<Rightarrow> bytes \<Rightarrow> layer_cipher \<times> (onion_error + bytes)" where
  "open_backward a l ciphertext = (let (d, r) = open_cell a (backward l) ciphertext in (l\<lparr>backward := d\<rparr>, r))"

definition seal_forward_cell ::
  "aead \<Rightarrow> codec \<Rightarrow> layer_cipher \<Rightarrow> layer_header \<Rightarrow> bytes \<Rightarrow> layer_cipher \<times> (onion_error + bytes)" where
  "seal_forward_cell a c l header inner = (case ser_header c header of
      None \<Rightarrow> (l, Err HeaderCodec)
    | Some header_bytes \<Rightarrow>
        seal_forward a l (u32_to_be_bytes (of_nat (length header_bytes)) @ header_bytes @ inner))"

definition split_header :: "codec \<Rightarrow> bytes \<Rightarrow> onion_error + (layer_header \<times> bytes)" where
  "split_header c plaintext =
     (if length plaintext < 4 then Err TooShortForHeaderLength
      else (let header_len = unat (u32_from_be_bytes (plaintext ! 0) (plaintext ! 1) (plaintext ! 2) (plaintext ! 3))
            in if length plaintext < 4 + header_len then Err TooShortForHeader
               else (case deser_header c (take header_len (drop 4 plaintext)) of
                       None \<Rightarrow> Err HeaderCodec
                     | Some header \<Rightarrow> Ok (header, drop (4 + header_len) plaintext))))"

definition open_forward_cell ::
  "aead \<Rightarrow> codec \<Rightarrow> layer_cipher \<Rightarrow> bytes \<Rightarrow> layer_cipher \<times> (onion_error + (layer_header \<times> bytes))" where
  "open_forward_cell a c l ciphertext =
     (let (l', r) = open_forward a l ciphertext in (l', bind_result r (split_header c)))"

section \<open>Circuits\<close>

record circuit_hop =
  hop_addr :: socket_addr
  hop_layer :: layer_cipher

record circuit =
  circuit_id :: u32
  hops :: "circuit_hop list"

text \<open>The loop of \<open>build_onion\<close>, from the last hop to the first.\<close>

fun wrap_hops :: "aead \<Rightarrow> codec \<Rightarrow> circuit_hop list \<Rightarrow> bytes \<Rightarrow> circuit_hop list \<times> (onion_error + bytes)" where
  "wrap_hops a c [] current = ([], Ok current)"
| "wrap_hops a c (h # hs) current = (case wrap_hops a c hs current of
      (hs', Err e) \<Rightarrow> (h # hs', Err e)
    | (hs', Ok inner) \<Rightarrow>
        (let next = (case hs of [] \<Rightarrow> None | h2 # _ \<Rightarrow> Some (hop_addr h2));
             (l, r) = seal_forward_cell a c (hop_layer h) \<lparr>next_hop = next\<rparr> inner
         in (h\<lparr>hop_layer := l\<rparr> # hs', r)))"

definition build_onion :: "aead \<Rightarrow> codec \<Rightarrow> circuit \<Rightarrow> bytes \<Rightarrow> circuit \<times> (onion_error + bytes)" where
  "build_onion a c circ payload = (case pad_cell payload of
      Err e \<Rightarrow> (circ, Err e)
    | Ok current \<Rightarrow> (let (hs, r) = wrap_hops a c (hops circ) current in (circ\<lparr>hops := hs\<rparr>, r)))"

fun peel_hops :: "aead \<Rightarrow> circuit_hop list \<Rightarrow> bytes \<Rightarrow> circuit_hop list \<times> (onion_error + bytes)" where
  "peel_hops a [] data = ([], Ok data)"
| "peel_hops a (h # hs) data = (case open_backward a (hop_layer h) data of
      (l, Err e) \<Rightarrow> (h\<lparr>hop_layer := l\<rparr> # hs, Err e)
    | (l, Ok inner) \<Rightarrow> (let (hs', r) = peel_hops a hs inner in (h\<lparr>hop_layer := l\<rparr> # hs', r)))"

definition peel_response_layers :: "aead \<Rightarrow> circuit \<Rightarrow> bytes \<Rightarrow> circuit \<times> (onion_error + bytes)" where
  "peel_response_layers a circ data =
     (let (hs, r) = peel_hops a (hops circ) data in (circ\<lparr>hops := hs\<rparr>, bind_result r unpad_cell))"

section \<open>What the parameters promise\<close>

definition aead_correct :: "aead \<Rightarrow> bool" where
  "aead_correct a \<longleftrightarrow> (\<forall>k n m c. aead_encrypt a k n m = Some c \<longrightarrow> aead_decrypt a k n c = Some m)"

text \<open>An authenticated cipher also refuses what was sealed under another key or nonce.\<close>

definition aead_ideal :: "aead \<Rightarrow> bool" where
  "aead_ideal a \<longleftrightarrow> aead_correct a \<and>
     (\<forall>k n m c k' n'. aead_encrypt a k n m = Some c \<longrightarrow> (k', n') \<noteq> (k, n) \<longrightarrow> aead_decrypt a k' n' c = None)"

definition codec_correct :: "codec \<Rightarrow> bool" where
  "codec_correct c \<longleftrightarrow> (\<forall>h b. ser_header c h = Some b \<longrightarrow> deser_header c b = Some h \<and> length b < 2 ^ 32)"

definition sample_aead :: aead where
  "sample_aead = \<lparr>aead_encrypt = (\<lambda>k n m. if length k = 32 \<and> length n = 12 then Some (k @ n @ m) else None),
     aead_decrypt = (\<lambda>k n c. if length k = 32 \<and> length n = 12 \<and> take 44 c = k @ n then Some (drop 44 c) else None)\<rparr>"

lemma sample_aead_ideal: "aead_ideal sample_aead"
  by (auto simp: aead_ideal_def aead_correct_def sample_aead_def split: if_splits)

section \<open>Padding\<close>

lemma pad_cell_ok: "pad_cell c = Ok b \<longleftrightarrow> length c \<le> MAX_COMMAND
    \<and> b = u16_to_be_bytes (of_nat (length c)) @ c @ replicate (CELL_BODY - LEN_PREFIX - length c) 0"
  by (auto simp: pad_cell_def Let_def LEN_PREFIX_def)

lemma length_pad_cell: "pad_cell c = Ok b \<Longrightarrow> length b = CELL_BODY"
  by (auto simp: pad_cell_ok MAX_COMMAND_def CELL_BODY_def LEN_PREFIX_def)

lemma unpad_pad: "pad_cell c = Ok b \<Longrightarrow> unpad_cell b = Ok c"
proof -
  assume b: "pad_cell c = Ok b"
  then have len: "length b = CELL_BODY"
    by (rule length_pad_cell)
  from b have c: "length c \<le> 2046"
    and eq: "b = u16_to_be_bytes (of_nat (length c)) @ c @ replicate (CELL_BODY - LEN_PREFIX - length c) 0"
    by (auto simp: pad_cell_ok MAX_COMMAND_def CELL_BODY_def LEN_PREFIX_def)
  have "u16_from_be_bytes (b ! 0) (b ! 1) = of_nat (length c)"
    unfolding eq u16_to_be_bytes_def by simp
  then have "unat (u16_from_be_bytes (b ! 0) (b ! 1)) = length c"
    using c by (simp add: unat_of_nat take_bit_nat_eq_self)
  then show ?thesis
    using c len by (simp add: unpad_cell_def Let_def eq LEN_PREFIX_def MAX_COMMAND_def CELL_BODY_def)
qed

section \<open>One layer\<close>

lemma seal_then_open: "aead_correct a \<Longrightarrow> seal a d m = (d', Ok c) \<Longrightarrow> open_cell a d c = (d', Ok m)"
  by (auto simp: seal_def open_cell_def aead_correct_def split: if_splits option.splits)

lemma open_cell_Err: "open_cell a d c = (d', Err e) \<Longrightarrow> d' = d"
  by (auto simp: open_cell_def split: if_splits option.splits)

lemma split_header_append:
  assumes "codec_correct c" "ser_header c h = Some b"
  shows "split_header c (u32_to_be_bytes (of_nat (length b)) @ b @ inner) = Ok (h, inner)"
proof -
  have b: "deser_header c b = Some h" "length b < 2 ^ 32"
    using assms by (auto simp: codec_correct_def)
  then have "unat (of_nat (length b) :: u32) = length b"
    by (simp add: unat_of_nat take_bit_nat_eq_self)
  moreover have "drop (4 + n) (x1 # x2 # x3 # x4 # xs) = drop n xs" for n x1 x2 x3 x4 and xs :: bytes
    by (simp add: eval_nat_numeral)
  ultimately show ?thesis
    using b(1) by (simp add: split_header_def u32_to_be_bytes_def Let_def)
qed

lemma seal_cell_then_open:
  assumes "aead_correct a" "codec_correct c" "forward l = forward relay"
    and "seal_forward_cell a c l h inner = (l', Ok out)"
  shows "open_forward_cell a c relay out = (relay\<lparr>forward := forward l'\<rparr>, Ok (h, inner))"
proof -
  obtain hb d where hb: "ser_header c h = Some hb"
      "seal a (forward l) (u32_to_be_bytes (of_nat (length hb)) @ hb @ inner) = (d, Ok out)" "l' = l\<lparr>forward := d\<rparr>"
    using assms(4) by (auto simp: seal_forward_cell_def seal_forward_def split: option.splits prod.splits)
  then have "open_cell a (forward relay) out = (d, Ok (u32_to_be_bytes (of_nat (length hb)) @ hb @ inner))"
    using seal_then_open [OF assms(1)] assms(3) by metis
  then show ?thesis
    using split_header_append [OF assms(2) hb(1)] hb(3) by (simp add: open_forward_cell_def open_forward_def)
qed

section \<open>All the layers\<close>

text \<open>
  What the relays of a circuit do with an onion: the first opens its layer and
  hands what is inside to the next.
\<close>

fun travel :: "aead \<Rightarrow> codec \<Rightarrow> layer_cipher list \<Rightarrow> bytes \<Rightarrow>
    layer_cipher list \<times> (onion_error + (socket_addr option list \<times> bytes))" where
  "travel a c [] data = ([], Ok ([], data))"
| "travel a c (l # ls) data = (case open_forward_cell a c l data of
      (l', Err e) \<Rightarrow> (l' # ls, Err e)
    | (l', Ok (h, inner)) \<Rightarrow>
        (let (ls', r) = travel a c ls inner
         in (l' # ls', bind_result r (\<lambda>(ns, body). Ok (next_hop h # ns, body)))))"

fun next_hops :: "circuit_hop list \<Rightarrow> socket_addr option list" where
  "next_hops [] = []"
| "next_hops (h # hs) = (case hs of [] \<Rightarrow> None | h2 # _ \<Rightarrow> Some (hop_addr h2)) # next_hops hs"

abbreviation fwd :: "circuit_hop \<Rightarrow> direction" where
  "fwd h \<equiv> forward (hop_layer h)"

abbreviation bwd :: "circuit_hop \<Rightarrow> direction" where
  "bwd h \<equiv> backward (hop_layer h)"

lemma wrap_then_travel:
  assumes "aead_correct a" "codec_correct c"
  shows "wrap_hops a c hs body = (hs', Ok onion) \<Longrightarrow> map forward relays = map fwd hs \<Longrightarrow>
    \<exists>relays'. travel a c relays onion = (relays', Ok (next_hops hs, body)) \<and> map forward relays' = map fwd hs'"
proof (induction hs arbitrary: hs' onion relays)
  case Nil
  then show ?case by simp
next
  case (Cons h hs)
  from Cons.prems(2) obtain l ls where relays: "relays = l # ls" "forward l = fwd h" "map forward ls = map fwd hs"
    by auto
  let ?next = "case hs of [] \<Rightarrow> None | h2 # _ \<Rightarrow> Some (hop_addr h2)"
  from Cons.prems(1) obtain hs1 inner l' where w: "wrap_hops a c hs body = (hs1, Ok inner)"
      "seal_forward_cell a c (hop_layer h) \<lparr>next_hop = ?next\<rparr> inner = (l', Ok onion)" "hs' = h\<lparr>hop_layer := l'\<rparr> # hs1"
    by (auto split: sum.splits prod.splits simp: Let_def)
  obtain ls' where ls': "travel a c ls inner = (ls', Ok (next_hops hs, body))" "map forward ls' = map fwd hs1"
    using Cons.IH [OF w(1) relays(3)] by blast
  have "open_forward_cell a c l onion = (l\<lparr>forward := forward l'\<rparr>, Ok (\<lparr>next_hop = ?next\<rparr>, inner))"
    using seal_cell_then_open [OF assms _ w(2), of l] relays(2) by simp
  then show ?case
    using ls' w(3) relays(1) by simp
qed

text \<open>A reply: the last hop seals its body, every hop before it seals what it received.\<close>

fun seal_replies :: "aead \<Rightarrow> layer_cipher list \<Rightarrow> bytes \<Rightarrow> layer_cipher list \<times> (onion_error + bytes)" where
  "seal_replies a [] body = ([], Ok body)"
| "seal_replies a (l # ls) body = (case seal_replies a ls body of
      (ls', Err e) \<Rightarrow> (l # ls', Err e)
    | (ls', Ok inner) \<Rightarrow> (let (l', r) = seal_backward a l inner in (l' # ls', r)))"

lemma seal_replies_then_peel:
  assumes "aead_correct a"
  shows "seal_replies a relays body = (relays', Ok data) \<Longrightarrow> map backward relays = map bwd hs \<Longrightarrow>
    \<exists>hs'. peel_hops a hs data = (hs', Ok body) \<and> map bwd hs' = map backward relays'"
proof (induction relays arbitrary: relays' data hs)
  case Nil
  then show ?case by simp
next
  case (Cons l ls)
  from Cons.prems(2) obtain h hs1 where hs: "hs = h # hs1" "bwd h = backward l" "map backward ls = map bwd hs1"
    by (cases hs) auto
  from Cons.prems(1) obtain ls' inner d where s: "seal_replies a ls body = (ls', Ok inner)"
      "seal a (backward l) inner = (d, Ok data)" "relays' = l\<lparr>backward := d\<rparr> # ls'"
    by (auto simp: seal_backward_def Let_def split: sum.splits prod.splits)
  obtain hs' where "peel_hops a hs1 inner = (hs', Ok body)" "map bwd hs' = map backward ls'"
    using Cons.IH [OF s(1) hs(3)] by blast
  moreover have "open_cell a (bwd h) data = (d, Ok inner)"
    using seal_then_open [OF assms s(2)] hs(2) by simp
  ultimately show ?case
    using hs(1) s(3) by (simp add: open_backward_def)
qed

section \<open>A stream of cells\<close>

fun seal_all :: "aead \<Rightarrow> direction \<Rightarrow> bytes list \<Rightarrow> direction \<times> (onion_error + bytes list)" where
  "seal_all a d [] = (d, Ok [])"
| "seal_all a d (m # ms) = (case seal a d m of
      (d', Err e) \<Rightarrow> (d', Err e)
    | (d', Ok c) \<Rightarrow> (let (d'', r) = seal_all a d' ms in (d'', bind_result r (\<lambda>cs. Ok (c # cs)))))"

fun receive :: "aead \<Rightarrow> direction \<Rightarrow> bytes list \<Rightarrow> bytes list" where
  "receive a d [] = []"
| "receive a d (x # xs) = (case open_cell a d x of
      (d', Ok m) \<Rightarrow> m # receive a d' xs
    | (d', Err e) \<Rightarrow> receive a d' xs)"

definition at_count :: "bytes \<Rightarrow> nat \<Rightarrow> direction" where
  "at_count k i = \<lparr>dir_key = k, dir_next = of_nat i\<rparr>"

lemma unat_count: "i < 2 ^ 64 \<Longrightarrow> unat (of_nat i :: 64 word) = i"
  by (simp add: unat_of_nat take_bit_nat_eq_self)

lemma nonce_at_count:
  assumes "i < 2 ^ 64" "j < 2 ^ 64"
  shows "nonce (at_count k i) = nonce (at_count k j) \<longleftrightarrow> i = j"
proof
  assume "nonce (at_count k i) = nonce (at_count k j)"
  then have "(of_nat i :: 64 word) = of_nat j"
    using u64_to_le_bytes_inject by (simp add: nonce_def u64_to_be_bytes_def at_count_def)
  then show "i = j"
    using unat_count assms by metis
qed simp

lemma at_count_Suc [simp]: "(at_count k i)\<lparr>dir_next := dir_next (at_count k i) + 1\<rparr> = at_count k (Suc i)"
  by (simp add: at_count_def add.commute)

lemma last_count: "i < 2 ^ 64 \<Longrightarrow> (of_nat i :: 64 word) \<noteq> - 1 \<Longrightarrow> Suc i < 2 ^ 64"
proof (rule ccontr)
  assume i: "i < 2 ^ 64" "(of_nat i :: 64 word) \<noteq> - 1" "\<not> Suc i < 2 ^ 64"
  then have "i = 2 ^ 64 - 1" by simp
  moreover have "(of_nat (2 ^ 64 - 1) :: 64 word) = - 1"
    by simp
  ultimately show False using i(2) by simp
qed

text \<open>The cell at position \<open>j\<close> was sealed under the count \<open>i + j\<close>, which did not wrap around.\<close>

lemma seal_all_cells:
  assumes "seal_all a (at_count k i) ms = (d, Ok cs)" "i < 2 ^ 64"
  shows "length cs = length ms \<and> i + length ms < 2 ^ 64 \<and> (\<forall>j<length ms.
    aead_encrypt a k (nonce (at_count k (i + j))) (ms ! j) = Some (cs ! j))"
  using assms
proof (induction ms arbitrary: i cs)
  case (Cons m ms)
  from Cons.prems(1) obtain c cs' where c: "seal a (at_count k i) m = (at_count k (Suc i), Ok c)"
      "seal_all a (at_count k (Suc i)) ms = (d, Ok cs')" "cs = c # cs'"
    by (auto simp: seal_def Let_def bind_result_def split: if_splits option.splits prod.splits sum.splits)
  then have e: "aead_encrypt a k (nonce (at_count k i)) m = Some c" "Suc i < 2 ^ 64"
    using last_count [OF Cons.prems(2)]
    by (auto simp: seal_def at_count_def split: if_splits option.splits)
  have IH: "length cs' = length ms \<and> Suc i + length ms < 2 ^ 64 \<and> (\<forall>j<length ms.
      aead_encrypt a k (nonce (at_count k (Suc i + j))) (ms ! j) = Some (cs' ! j))"
    using Cons.IH [OF c(2) e(2)] .
  then show ?case
    using c(3) e(1) by (auto simp: less_Suc_eq_0_disj)
qed simp

text \<open>
  Only the next cell opens: against any delivery of the sealed cells and of
  forgeries that open nowhere, what a receiver at count \<open>i\<close> accepts continues the
  sent messages from position \<open>i\<close>.
\<close>

definition stream_of :: "aead \<Rightarrow> bytes \<Rightarrow> bytes list \<Rightarrow> bytes list \<Rightarrow> bool" where
  "stream_of a k ms cs \<longleftrightarrow> length k = 32 \<and> length cs = length ms \<and> length ms < 2 ^ 64
     \<and> (\<forall>j<length ms. aead_encrypt a k (nonce (at_count k j)) (ms ! j) = Some (cs ! j))"

lemma open_stream_cell:
  assumes "aead_ideal a" "stream_of a k ms cs" "i \<le> length ms" "x \<in> set cs \<or> (\<forall>n. aead_decrypt a k n x = None)"
  shows "(\<exists>e. open_cell a (at_count k i) x = (at_count k i, Err e))
    \<or> i < length ms \<and> open_cell a (at_count k i) x = (at_count k (Suc i), Ok (ms ! i))"
proof (cases "\<exists>j<length ms. x = cs ! j")
  case False
  then have "aead_decrypt a k (nonce (at_count k i)) x = None"
    using assms(2,4) by (auto simp: in_set_conv_nth stream_of_def)
  then show ?thesis
    using assms(2) by (simp add: open_cell_def stream_of_def at_count_def)
next
  case True
  then obtain j where j: "j < length ms" "x = cs ! j" by blast
  then have enc: "aead_encrypt a k (nonce (at_count k j)) (ms ! j) = Some x" and len: "length ms < 2 ^ 64"
    using assms(2) by (auto simp: stream_of_def)
  have key: "dir_key (at_count k i) = k" "length k = 32"
    using assms(2) by (simp_all add: at_count_def stream_of_def)
  show ?thesis
  proof (cases "i = j")
    case True
    with enc assms(1) have "aead_decrypt a k (nonce (at_count k i)) x = Some (ms ! i)"
      by (auto simp: aead_ideal_def aead_correct_def)
    with True j(1) key show ?thesis
      by (simp add: open_cell_def)
  next
    case False
    then have "nonce (at_count k i) \<noteq> nonce (at_count k j)"
      using nonce_at_count [of i j k] assms(3) j(1) len by linarith
    then have "aead_decrypt a k (nonce (at_count k i)) x = None"
      using enc assms(1) unfolding aead_ideal_def by blast
    then show ?thesis
      using key by (simp add: open_cell_def)
  qed
qed

lemma receive_prefix:
  assumes "aead_ideal a" "stream_of a k ms cs"
  shows "i \<le> length ms \<Longrightarrow> \<forall>x\<in>set xs. x \<in> set cs \<or> (\<forall>n. aead_decrypt a k n x = None) \<Longrightarrow>
    \<exists>n. receive a (at_count k i) xs = take n (drop i ms)"
proof (induction xs arbitrary: i)
  case Nil
  show ?case by (rule exI [of _ 0]) simp
next
  case (Cons x xs)
  have "x \<in> set cs \<or> (\<forall>n. aead_decrypt a k n x = None)"
    using Cons.prems by simp
  then consider e where "open_cell a (at_count k i) x = (at_count k i, Err e)"
    | "i < length ms" "open_cell a (at_count k i) x = (at_count k (Suc i), Ok (ms ! i))"
    using open_stream_cell [OF assms Cons.prems(1)] by blast
  then show ?case
  proof cases
    case 1
    with Cons show ?thesis by simp
  next
    case 2
    then obtain n where "receive a (at_count k (Suc i)) xs = take n (drop (Suc i) ms)"
      using Cons.IH [of "Suc i"] Cons.prems by auto
    with 2 show ?thesis
      by (intro exI [of _ "Suc n"]) (simp add: Cons_nth_drop_Suc [symmetric])
  qed
qed

lemma receive_in_order:
  assumes "aead_ideal a" "stream_of a k ms cs"
  shows "i \<le> length ms \<Longrightarrow> receive a (at_count k i) (drop i cs) = drop i ms"
proof (induction "length ms - i" arbitrary: i)
  case 0
  then show ?case using assms(2) by (simp add: stream_of_def)
next
  case (Suc n)
  then have i: "i < length ms" "i < length cs"
    using assms(2) by (simp_all add: stream_of_def)
  then have "aead_decrypt a k (nonce (at_count k i)) (cs ! i) = Some (ms ! i)" "length k = 32"
    using assms by (auto simp: aead_ideal_def aead_correct_def stream_of_def)
  then have "open_cell a (at_count k i) (cs ! i) = (at_count k (Suc i), Ok (ms ! i))"
    by (simp add: open_cell_def) (simp add: at_count_def)
  moreover have "receive a (at_count k (Suc i)) (drop (Suc i) cs) = drop (Suc i) ms"
    using Suc i by (intro Suc.hyps(1)) simp_all
  ultimately show ?case
    using i by (simp add: Cons_nth_drop_Suc [symmetric])
qed

section \<open>Sealing succeeds\<close>

definition aead_total :: "aead \<Rightarrow> bool" where
  "aead_total a \<longleftrightarrow> (\<forall>k n m. length k = 32 \<longrightarrow> length n = 12 \<longrightarrow> aead_encrypt a k n m \<noteq> None)"

definition ready :: "direction \<Rightarrow> bool" where
  "ready d \<longleftrightarrow> length (dir_key d) = 32 \<and> dir_next d \<noteq> - 1"

lemma length_nonce [simp]: "length (nonce d) = 12"
  by (simp add: nonce_def u64_to_be_bytes_def)

lemma seal_total: "aead_total a \<Longrightarrow> ready d \<Longrightarrow> \<exists>d' c. seal a d m = (d', Ok c)"
  unfolding aead_total_def ready_def seal_def by (metis (no_types, lifting) length_nonce option.case_eq_if)

lemma wrap_hops_total:
  assumes "aead_total a"
  shows "\<forall>h\<in>set hs. ready (fwd h) \<Longrightarrow> \<forall>n\<in>set (next_hops hs). ser_header c \<lparr>next_hop = n\<rparr> \<noteq> None \<Longrightarrow>
    \<exists>hs' onion. wrap_hops a c hs body = (hs', Ok onion)"
proof (induction hs)
  case (Cons h hs)
  then obtain hs' inner where w: "wrap_hops a c hs body = (hs', Ok inner)"
    by auto
  let ?next = "case hs of [] \<Rightarrow> None | h2 # _ \<Rightarrow> Some (hop_addr h2)"
  obtain hb where hb: "ser_header c \<lparr>next_hop = ?next\<rparr> = Some hb"
    using Cons.prems(2) by auto
  obtain d out where "seal a (fwd h) (u32_to_be_bytes (of_nat (length hb)) @ hb @ inner) = (d, Ok out)"
    using seal_total [OF assms] Cons.prems(1) by (metis list.set_intros(1))
  with w hb show ?case
    by (simp add: Let_def seal_forward_cell_def seal_forward_def)
qed simp

section \<open>Properties\<close>

text \<open>
  A command of at most 2046 bytes is padded to exactly 2048 bytes
  whatever its length, and unpadding gives it back; a longer one is refused.
\<close>

theorem pad_unpad_roundtrip:
  "(length command \<le> 2046 \<longrightarrow> (\<exists>body. pad_cell command = Ok body \<and> length body = 2048 \<and> unpad_cell body = Ok command))
   \<and> (2046 < length command \<longrightarrow> pad_cell command = Err CommandTooLong)"
proof -
  have "\<exists>body. pad_cell command = Ok body" if "length command \<le> 2046"
    using that by (auto simp: pad_cell_ok MAX_COMMAND_def CELL_BODY_def LEN_PREFIX_def)
  moreover have "pad_cell command = Err CommandTooLong" if "2046 < length command"
    using that by (simp add: pad_cell_def MAX_COMMAND_def CELL_BODY_def LEN_PREFIX_def)
  ultimately show ?thesis
    using unpad_pad length_pad_cell unfolding CELL_BODY_def by metis
qed

theorem pad_unpad_roundtrip_witness:
  "\<exists>body. pad_cell [1, 2, 3] = Ok body \<and> length body = 2048 \<and> unpad_cell body = Ok [1, 2, 3]"
  using pad_unpad_roundtrip [of "[1, 2, 3]"] by simp

text \<open>
  Claim C5. An onion built for a circuit whose relays are in step with the
  client reaches its end: relay by relay it opens, each relay reads the address
  of the next and only the last reads none, the last gets the padded payload,
  and client and relays are in step again for the next cell.
\<close>

theorem onion_delivers:
  assumes "aead_correct a" "aead_total a" "codec_correct c"
    and "\<forall>h\<in>set (hops circ). ready (fwd h)"
    and "\<forall>n\<in>set (next_hops (hops circ)). ser_header c \<lparr>next_hop = n\<rparr> \<noteq> None"
    and "length payload \<le> 2046" "map forward relays = map fwd (hops circ)"
  shows "\<exists>circ' onion relays' body. build_onion a c circ payload = (circ', Ok onion)
    \<and> travel a c relays onion = (relays', Ok (next_hops (hops circ), body))
    \<and> length body = 2048 \<and> unpad_cell body = Ok payload
    \<and> map forward relays' = map fwd (hops circ')"
proof -
  obtain body where body: "pad_cell payload = Ok body"
    using assms(6) by (auto simp: pad_cell_ok MAX_COMMAND_def CELL_BODY_def LEN_PREFIX_def)
  obtain hs' onion where w: "wrap_hops a c (hops circ) body = (hs', Ok onion)"
    using wrap_hops_total [OF assms(2,4,5)] by blast
  have "build_onion a c circ payload = (circ\<lparr>hops := hs'\<rparr>, Ok onion)"
    by (simp add: build_onion_def body w)
  then show ?thesis
    using wrap_then_travel [OF assms(1,3) w assms(7)] unpad_pad [OF body] length_pad_cell [OF body]
    by (fastforce simp: CELL_BODY_def)
qed

definition sample_addr :: "u8 \<Rightarrow> socket_addr" where
  "sample_addr n = \<lparr>sa_ip = V4 (ipv4_new 81 2 3 n), sa_port = 9001\<rparr>"

definition sample_codec :: codec where
  "sample_codec = \<lparr>ser_header = (\<lambda>h. if h = \<lparr>next_hop = None\<rparr> then Some [0]
       else if h = \<lparr>next_hop = Some (sample_addr 2)\<rparr> then Some [1] else None),
     deser_header = (\<lambda>b. if b = [0] then Some \<lparr>next_hop = None\<rparr>
       else if b = [1] then Some \<lparr>next_hop = Some (sample_addr 2)\<rparr> else None)\<rparr>"

definition sample_layer :: "u8 \<Rightarrow> layer_cipher" where
  "sample_layer b = new_layer (\<lambda>key label. replicate 32 (if label = FORWARD_LABEL then b else b + 1)) []"

definition sample_circuit :: circuit where
  "sample_circuit = \<lparr>circuit_id = 1, hops =
     [\<lparr>hop_addr = sample_addr 1, hop_layer = sample_layer 10\<rparr>, \<lparr>hop_addr = sample_addr 2, hop_layer = sample_layer 20\<rparr>]\<rparr>"

lemma sample_params:
  "aead_correct sample_aead" "aead_total sample_aead" "codec_correct sample_codec"
  using sample_aead_ideal
  by (auto simp: aead_ideal_def aead_total_def sample_aead_def codec_correct_def sample_codec_def split: if_splits)

theorem onion_delivers_witness:
  "\<exists>circ' onion relays' body. build_onion sample_aead sample_codec sample_circuit [1, 2, 3] = (circ', Ok onion)
    \<and> travel sample_aead sample_codec [sample_layer 10, sample_layer 20] onion
        = (relays', Ok ([Some (sample_addr 2), None], body))
    \<and> unpad_cell body = Ok [1, 2, 3]"
proof -
  have "\<forall>h\<in>set (hops sample_circuit). ready (fwd h)"
    by (simp add: sample_circuit_def ready_def sample_layer_def new_layer_def)
  moreover have nexts: "next_hops (hops sample_circuit) = [Some (sample_addr 2), None]"
    by (simp add: sample_circuit_def)
  then have "\<forall>n\<in>set (next_hops (hops sample_circuit)). ser_header sample_codec \<lparr>next_hop = n\<rparr> \<noteq> None"
    by (simp add: sample_codec_def)
  moreover have "map forward [sample_layer 10, sample_layer 20] = map fwd (hops sample_circuit)"
    by (simp add: sample_circuit_def)
  ultimately show ?thesis
    using onion_delivers [OF sample_params, of sample_circuit "[1, 2, 3]" "[sample_layer 10, sample_layer 20]"]
    unfolding nexts by force
qed

text \<open>
  A reply that the last relay padded and every relay sealed in turn
  peels, at the client in step with them, to the command it carried.
\<close>

theorem reply_peels:
  assumes "aead_correct a" "pad_cell command = Ok body" "seal_replies a relays body = (relays', Ok data)"
    and "map backward relays = map bwd (hops circ)"
  shows "\<exists>circ'. peel_response_layers a circ data = (circ', Ok command)
    \<and> map bwd (hops circ') = map backward relays'"
  using seal_replies_then_peel [OF assms(1,3,4)] unpad_pad [OF assms(2)]
  by (fastforce simp: peel_response_layers_def)

lemma sample_reply:
  "\<exists>body relays' data. pad_cell [1, 2, 3] = Ok body
     \<and> seal_replies sample_aead [sample_layer 10, sample_layer 20] body = (relays', Ok data)"
proof -
  obtain body where body: "pad_cell [1, 2, 3] = Ok body"
    by (auto simp: pad_cell_ok MAX_COMMAND_def CELL_BODY_def LEN_PREFIX_def)
  have "ready (backward (sample_layer b))" for b
    by (simp add: ready_def sample_layer_def new_layer_def)
  note total = seal_total [OF sample_params(2) this]
  obtain d2 inner where s2: "seal sample_aead (backward (sample_layer 20)) body = (d2, Ok inner)"
    using total by blast
  obtain d1 data where "seal sample_aead (backward (sample_layer 10)) inner = (d1, Ok data)"
    using total by blast
  with s2 body show ?thesis
    by (simp add: seal_backward_def)
qed

theorem reply_peels_witness:
  "\<exists>data circ'. peel_response_layers sample_aead sample_circuit data = (circ', Ok [1, 2, 3])"
proof -
  obtain body relays' data where r: "pad_cell [1, 2, 3] = Ok body"
      "seal_replies sample_aead [sample_layer 10, sample_layer 20] body = (relays', Ok data)"
    using sample_reply by blast
  from reply_peels [OF sample_params(1) r, of sample_circuit] show ?thesis
    by (auto simp: sample_circuit_def)
qed

text \<open>
  Claim C6. A receiver takes the cells of its peer once and in order. Whatever
  sequence of the sealed cells, repeated, reordered or left out, and of
  forgeries that open under no nonce the network delivers, the messages that
  open are the first so many messages that were sealed; if it delivers the cells
  as they were sent, all of them open.
\<close>

theorem cells_open_once_in_order:
  assumes "aead_ideal a" "length k = 32"
    and "seal_all a \<lparr>dir_key = k, dir_next = 0\<rparr> ms = (d, Ok cs)"
    and "\<forall>x\<in>set xs. x \<in> set cs \<or> (\<forall>n. aead_decrypt a k n x = None)"
  shows "(\<exists>n. receive a \<lparr>dir_key = k, dir_next = 0\<rparr> xs = take n ms)
    \<and> receive a \<lparr>dir_key = k, dir_next = 0\<rparr> cs = ms"
proof -
  have start: "\<lparr>dir_key = k, dir_next = 0\<rparr> = at_count k 0"
    by (simp add: at_count_def)
  have st: "stream_of a k ms cs"
    using seal_all_cells [of a k 0 ms d cs] assms(2,3) unfolding start stream_of_def by simp
  show ?thesis
    unfolding start using receive_prefix [OF assms(1) st, of 0 xs] receive_in_order [OF assms(1) st, of 0] assms(4)
    by simp
qed

lemma sample_stream: "\<exists>d c1 c2. seal_all sample_aead \<lparr>dir_key = replicate 32 5, dir_next = 0\<rparr> [[1], [2]] = (d, Ok [c1, c2])"
  by (simp add: seal_def sample_aead_def Let_def)

theorem cells_open_once_in_order_witness:
  "\<exists>c1 c2 n. receive sample_aead \<lparr>dir_key = replicate 32 5, dir_next = 0\<rparr> [c2, c1, c1] = take n [[1], [2]]
    \<and> receive sample_aead \<lparr>dir_key = replicate 32 5, dir_next = 0\<rparr> [c1, c2] = [[1], [2]]"
proof -
  obtain d c1 c2 where s: "seal_all sample_aead \<lparr>dir_key = replicate 32 5, dir_next = 0\<rparr> [[1], [2]] = (d, Ok [c1, c2])"
    using sample_stream by blast
  have "\<forall>x\<in>set [c2, c1, c1]. x \<in> set [c1, c2] \<or> (\<forall>n. aead_decrypt sample_aead (replicate 32 5) n x = None)"
    by simp
  from cells_open_once_in_order [OF sample_aead_ideal _ s this] show ?thesis
    by auto
qed

end
