(* ===== verification/Handshake.thy ===== *)
theory Handshake
  imports Nonce_Search
begin

text \<open>
  The handshake of a link (\<^verbatim>\<open>hidra-node/src/crypto/handshake.rs\<close>): Noise XX over X25519 joined by an ML-KEM
  encapsulation, and the cipher each direction of the link uses after it. BLAKE3,
  ChaCha20-Poly1305, X25519 and ML-KEM come from other crates: the record \<open>noise_ops\<close>, with
  what the code relies on in \<open>noise_ok\<close>. Random keys are arguments.

  A step that fails returns its error only: every caller drops the handshake then, and a
  cipher that fails is as it was. The symmetric state is an \<^verbatim>\<open>Option\<close> in the code, emptied by
  \<^verbatim>\<open>into_transport\<close>, which consumes the handshake: no other step can find it empty.

  The lemmas show that the two ends stay in step after each message, and end with the same
  two ciphers, crossed, and each other's static keys, so that what one sends the other reads.
\<close>

section \<open>The primitives\<close>

record noise_ops =
  n_hash :: "bytes \<Rightarrow> bytes"
  n_keyed :: "bytes \<Rightarrow> bytes \<Rightarrow> bytes"
  n_encrypt :: "bytes \<Rightarrow> bytes \<Rightarrow> bytes \<Rightarrow> bytes \<Rightarrow> bytes option"
  n_decrypt :: "bytes \<Rightarrow> bytes \<Rightarrow> bytes \<Rightarrow> bytes \<Rightarrow> bytes option"
  n_public :: "bytes \<Rightarrow> bytes"
  n_dh :: "bytes \<Rightarrow> bytes \<Rightarrow> bytes"
  kem_keypair :: "bytes \<Rightarrow> bytes \<times> bytes"
  kem_key_ok :: "bytes \<Rightarrow> bool"
  kem_encapsulate :: "bytes \<Rightarrow> bytes \<Rightarrow> bytes \<times> bytes"
  kem_decapsulate :: "bytes \<Rightarrow> bytes \<Rightarrow> bytes"

definition PROTOCOL_NAME :: bytes where
  "PROTOCOL_NAME = ascii_bytes ''Noise_XXhfs_25519+MLKEM1024_ChaChaPoly_BLAKE3''"

definition DH_LEN :: nat where "DH_LEN = 32"
definition TAG_LEN :: nat where "TAG_LEN = 16"
definition KEM_EK_LEN :: nat where "KEM_EK_LEN = 1568"
definition KEM_CT_LEN :: nat where "KEM_CT_LEN = 1568"

datatype role = Initiator | Responder

datatype noise_error = NotKeyed | NonceExhausted | AeadFailed | TooShort | KemKeyRejected | MissingKey | BadStaticLength | BadKemLength

section \<open>Ciphers\<close>

record cipher_state =
  cs_key :: "bytes option"
  cs_nonce :: "64 word"

definition cipher_empty :: cipher_state where
  "cipher_empty = \<lparr>cs_key = None, cs_nonce = 0\<rparr>"

definition cipher_from_key :: "bytes \<Rightarrow> cipher_state" where
  "cipher_from_key key = \<lparr>cs_key = Some key, cs_nonce = 0\<rparr>"

definition has_key :: "cipher_state \<Rightarrow> bool" where
  "has_key c \<longleftrightarrow> cs_key c \<noteq> None"

definition build_nonce :: "64 word \<Rightarrow> bytes" where
  "build_nonce n = replicate 4 0 @ u64_to_le_bytes n"

definition cipher_encrypt :: "('z) noise_ops_scheme \<Rightarrow> bytes \<Rightarrow> bytes \<Rightarrow> cipher_state \<Rightarrow> noise_error + cipher_state \<times> bytes" where
  "cipher_encrypt ops ad plaintext c = (case cs_key c of
      None \<Rightarrow> Err NotKeyed
    | Some key \<Rightarrow>
        (if cs_nonce c = - 1 then Err NonceExhausted
         else (case n_encrypt ops key (build_nonce (cs_nonce c)) ad plaintext of
             None \<Rightarrow> Err AeadFailed
           | Some ciphertext \<Rightarrow> Ok (c\<lparr>cs_nonce := cs_nonce c + 1\<rparr>, ciphertext))))"

definition cipher_decrypt :: "('z) noise_ops_scheme \<Rightarrow> bytes \<Rightarrow> bytes \<Rightarrow> cipher_state \<Rightarrow> noise_error + cipher_state \<times> bytes" where
  "cipher_decrypt ops ad ciphertext c = (case cs_key c of
      None \<Rightarrow> Err NotKeyed
    | Some key \<Rightarrow>
        (if cs_nonce c = - 1 then Err NonceExhausted
         else (case n_decrypt ops key (build_nonce (cs_nonce c)) ad ciphertext of
             None \<Rightarrow> Err AeadFailed
           | Some plaintext \<Rightarrow> Ok (c\<lparr>cs_nonce := cs_nonce c + 1\<rparr>, plaintext))))"

text \<open>\<^verbatim>\<open>TransportCipher\<close>: a cipher with no associated data.\<close>

definition transport_encrypt :: "('z) noise_ops_scheme \<Rightarrow> bytes \<Rightarrow> cipher_state \<Rightarrow> noise_error + cipher_state \<times> bytes" where
  "transport_encrypt ops = cipher_encrypt ops []"

definition transport_decrypt :: "('z) noise_ops_scheme \<Rightarrow> bytes \<Rightarrow> cipher_state \<Rightarrow> noise_error + cipher_state \<times> bytes" where
  "transport_decrypt ops = cipher_decrypt ops []"

definition session_key :: "cipher_state \<Rightarrow> noise_error + bytes" where
  "session_key c = (case cs_key c of None \<Rightarrow> Err NotKeyed | Some key \<Rightarrow> Ok key)"

section \<open>The symmetric state\<close>

record symmetric_state =
  ss_h :: bytes
  ss_ck :: bytes
  ss_cipher :: cipher_state

definition hkdf :: "('z) noise_ops_scheme \<Rightarrow> bytes \<Rightarrow> bytes \<Rightarrow> bytes \<times> bytes" where
  "hkdf ops ck ikm =
     (let temp_key = n_keyed ops ck ikm;
          output1 = n_keyed ops temp_key [1];
          output2 = n_keyed ops temp_key (output1 @ [2])
      in (output1, output2))"

definition symmetric_initialize :: "('z) noise_ops_scheme \<Rightarrow> symmetric_state" where
  "symmetric_initialize ops = (let h = n_hash ops PROTOCOL_NAME in \<lparr>ss_h = h, ss_ck = h, ss_cipher = cipher_empty\<rparr>)"

definition mix_key :: "('z) noise_ops_scheme \<Rightarrow> bytes \<Rightarrow> symmetric_state \<Rightarrow> symmetric_state" where
  "mix_key ops ikm s = (let (ck, temp_k) = hkdf ops (ss_ck s) ikm in s\<lparr>ss_ck := ck, ss_cipher := cipher_from_key temp_k\<rparr>)"

definition mix_hash :: "('z) noise_ops_scheme \<Rightarrow> bytes \<Rightarrow> symmetric_state \<Rightarrow> symmetric_state" where
  "mix_hash ops data s = s\<lparr>ss_h := n_hash ops (ss_h s @ data)\<rparr>"

definition encrypt_and_hash :: "('z) noise_ops_scheme \<Rightarrow> bytes \<Rightarrow> symmetric_state \<Rightarrow> noise_error + symmetric_state \<times> bytes" where
  "encrypt_and_hash ops plaintext s =
     bind_result (if has_key (ss_cipher s) then cipher_encrypt ops (ss_h s) plaintext (ss_cipher s) else Ok (ss_cipher s, plaintext))
       (\<lambda>(c, ciphertext). Ok (mix_hash ops ciphertext (s\<lparr>ss_cipher := c\<rparr>), ciphertext))"

definition decrypt_and_hash :: "('z) noise_ops_scheme \<Rightarrow> bytes \<Rightarrow> symmetric_state \<Rightarrow> noise_error + symmetric_state \<times> bytes" where
  "decrypt_and_hash ops ciphertext s =
     bind_result (if has_key (ss_cipher s) then cipher_decrypt ops (ss_h s) ciphertext (ss_cipher s) else Ok (ss_cipher s, ciphertext))
       (\<lambda>(c, plaintext). Ok (mix_hash ops ciphertext (s\<lparr>ss_cipher := c\<rparr>), plaintext))"

definition split_ciphers :: "('z) noise_ops_scheme \<Rightarrow> symmetric_state \<Rightarrow> cipher_state \<times> cipher_state" where
  "split_ciphers ops s = (let (k1, k2) = hkdf ops (ss_ck s) [] in (cipher_from_key k1, cipher_from_key k2))"

section \<open>The messages\<close>

record handshake_state =
  hs_symmetric :: symmetric_state
  hs_s :: bytes
  hs_e :: "bytes option"
  hs_rs :: "bytes option"
  hs_re :: "bytes option"
  hs_role :: role
  hs_e1 :: "bytes option"
  hs_re1 :: "bytes option"

definition new_handshake :: "('z) noise_ops_scheme \<Rightarrow> role \<Rightarrow> bytes \<Rightarrow> handshake_state" where
  "new_handshake ops role static_secret =
     \<lparr>hs_symmetric = symmetric_initialize ops, hs_s = static_secret, hs_e = None, hs_rs = None, hs_re = None, hs_role = role,
      hs_e1 = None, hs_re1 = None\<rparr>"

text \<open>A key the handshake must have by now.\<close>

definition need :: "'a option \<Rightarrow> noise_error + 'a" where
  "need k = (case k of None \<Rightarrow> Err MissingKey | Some x \<Rightarrow> Ok x)"

definition sized :: "noise_error \<Rightarrow> nat \<Rightarrow> bytes \<Rightarrow> noise_error + bytes" where
  "sized e n b = (if length b = n then Ok b else Err e)"

definition write_message_a :: "('z) noise_ops_scheme \<Rightarrow> bytes \<Rightarrow> bytes \<Rightarrow> handshake_state \<Rightarrow> noise_error + handshake_state \<times> bytes" where
  "write_message_a ops e kem_seed hs =
     (let e_pub = n_public ops e;
          (dk, ek) = kem_keypair ops kem_seed;
          sym = mix_hash ops ek (mix_hash ops e_pub (hs_symmetric hs))
      in bind_result (encrypt_and_hash ops [] sym) (\<lambda>(sym, payload_ct).
         Ok (hs\<lparr>hs_e := Some e, hs_e1 := Some dk, hs_symmetric := sym\<rparr>, e_pub @ ek @ payload_ct)))"

definition read_message_a :: "('z) noise_ops_scheme \<Rightarrow> bytes \<Rightarrow> handshake_state \<Rightarrow> noise_error + handshake_state" where
  "read_message_a ops message hs =
     (if length message < DH_LEN + KEM_EK_LEN then Err TooShort
      else
        (let re = take DH_LEN message;
             ek = take KEM_EK_LEN (drop DH_LEN message);
             sym = mix_hash ops ek (mix_hash ops re (hs_symmetric hs))
         in if \<not> kem_key_ok ops ek then Err KemKeyRejected
            else bind_result (decrypt_and_hash ops (drop (DH_LEN + KEM_EK_LEN) message) sym) (\<lambda>(sym, _).
                 Ok (hs\<lparr>hs_re := Some re, hs_re1 := Some ek, hs_symmetric := sym\<rparr>))))"

text \<open>The two Diffie-Hellman steps that depend on the role.\<close>

definition dh_es :: "('z) noise_ops_scheme \<Rightarrow> handshake_state \<Rightarrow> noise_error + bytes" where
  "dh_es ops hs = (case hs_role hs of
      Responder \<Rightarrow> bind_result (need (hs_re hs)) (\<lambda>re. Ok (n_dh ops (hs_s hs) re))
    | Initiator \<Rightarrow> bind_result (need (hs_rs hs)) (\<lambda>rs. bind_result (need (hs_e hs)) (\<lambda>e. Ok (n_dh ops e rs))))"

definition dh_se :: "('z) noise_ops_scheme \<Rightarrow> handshake_state \<Rightarrow> noise_error + bytes" where
  "dh_se ops hs = (case hs_role hs of
      Initiator \<Rightarrow> bind_result (need (hs_re hs)) (\<lambda>re. Ok (n_dh ops (hs_s hs) re))
    | Responder \<Rightarrow> bind_result (need (hs_rs hs)) (\<lambda>rs. bind_result (need (hs_e hs)) (\<lambda>e. Ok (n_dh ops e rs))))"

definition write_message_b :: "('z) noise_ops_scheme \<Rightarrow> bytes \<Rightarrow> bytes \<Rightarrow> handshake_state \<Rightarrow> noise_error + handshake_state \<times> bytes" where
  "write_message_b ops e kem_seed hs0 =
     (let e_pub = n_public ops e;
          hs = hs0\<lparr>hs_e := Some e\<rparr>;
          sym = mix_hash ops e_pub (hs_symmetric hs)
      in bind_result (need (hs_re hs)) (\<lambda>re.
         let sym = mix_key ops (n_dh ops e re) sym in
         bind_result (need (hs_re1 hs)) (\<lambda>re1.
         let (kem_ct, kem_ss) = kem_encapsulate ops re1 kem_seed in
         bind_result (encrypt_and_hash ops kem_ct sym) (\<lambda>(sym, enc_ct).
         let sym = mix_key ops kem_ss sym in
         bind_result (encrypt_and_hash ops (n_public ops (hs_s hs)) sym) (\<lambda>(sym, enc_s).
         bind_result (dh_es ops hs) (\<lambda>es.
         bind_result (encrypt_and_hash ops [] (mix_key ops es sym)) (\<lambda>(sym, payload_ct).
         Ok (hs\<lparr>hs_symmetric := sym\<rparr>, e_pub @ enc_ct @ enc_s @ payload_ct))))))))"

definition read_message_b :: "('z) noise_ops_scheme \<Rightarrow> bytes \<Rightarrow> handshake_state \<Rightarrow> noise_error + handshake_state" where
  "read_message_b ops message hs0 =
     (if length message < DH_LEN + KEM_CT_LEN + TAG_LEN + DH_LEN + TAG_LEN + TAG_LEN then Err TooShort
      else
        (let re = take DH_LEN message;
             hs = hs0\<lparr>hs_re := Some re\<rparr>;
             sym = mix_hash ops re (hs_symmetric hs);
             enc_ct = take (KEM_CT_LEN + TAG_LEN) (drop DH_LEN message);
             enc_s = take (DH_LEN + TAG_LEN) (drop (DH_LEN + KEM_CT_LEN + TAG_LEN) message)
         in bind_result (need (hs_e hs)) (\<lambda>e.
            bind_result (decrypt_and_hash ops enc_ct (mix_key ops (n_dh ops e re) sym)) (\<lambda>(sym, ct_bytes).
            bind_result (sized BadKemLength KEM_CT_LEN ct_bytes) (\<lambda>kem_ct.
            bind_result (need (hs_e1 hs)) (\<lambda>e1.
            bind_result (decrypt_and_hash ops enc_s (mix_key ops (kem_decapsulate ops e1 kem_ct) sym)) (\<lambda>(sym, rs_bytes).
            bind_result (sized BadStaticLength 32 rs_bytes) (\<lambda>rs.
            let hs = hs\<lparr>hs_rs := Some rs\<rparr> in
            bind_result (dh_es ops hs) (\<lambda>es.
            bind_result (decrypt_and_hash ops (drop (DH_LEN + KEM_CT_LEN + TAG_LEN + DH_LEN + TAG_LEN) message) (mix_key ops es sym)) (\<lambda>(sym, _).
            Ok (hs\<lparr>hs_symmetric := sym\<rparr>)))))))))))"

definition write_message_c :: "('z) noise_ops_scheme \<Rightarrow> handshake_state \<Rightarrow> noise_error + handshake_state \<times> bytes" where
  "write_message_c ops hs =
     bind_result (encrypt_and_hash ops (n_public ops (hs_s hs)) (hs_symmetric hs)) (\<lambda>(sym, enc_s).
     bind_result (dh_se ops hs) (\<lambda>se.
     bind_result (encrypt_and_hash ops [] (mix_key ops se sym)) (\<lambda>(sym, payload_ct).
     Ok (hs\<lparr>hs_symmetric := sym\<rparr>, enc_s @ payload_ct))))"

definition read_message_c :: "('z) noise_ops_scheme \<Rightarrow> bytes \<Rightarrow> handshake_state \<Rightarrow> noise_error + handshake_state" where
  "read_message_c ops message hs0 =
     (if length message < DH_LEN + TAG_LEN + TAG_LEN then Err TooShort
      else
        bind_result (decrypt_and_hash ops (take (DH_LEN + TAG_LEN) message) (hs_symmetric hs0)) (\<lambda>(sym, rs_bytes).
        bind_result (sized BadStaticLength 32 rs_bytes) (\<lambda>rs.
        let hs = hs0\<lparr>hs_rs := Some rs\<rparr> in
        bind_result (dh_se ops hs) (\<lambda>se.
        bind_result (decrypt_and_hash ops (drop (DH_LEN + TAG_LEN) message) (mix_key ops se sym)) (\<lambda>(sym, _).
        Ok (hs\<lparr>hs_symmetric := sym\<rparr>))))))"

definition into_transport :: "('z) noise_ops_scheme \<Rightarrow> handshake_state \<Rightarrow> cipher_state \<times> cipher_state" where
  "into_transport ops hs = (let (c1, c2) = split_ciphers ops (hs_symmetric hs)
     in case hs_role hs of Initiator \<Rightarrow> (c1, c2) | Responder \<Rightarrow> (c2, c1))"

definition remote_static_public :: "handshake_state \<Rightarrow> bytes option" where
  "remote_static_public hs = hs_rs hs"

section \<open>What the primitives promise\<close>

text \<open>
  Keys, tags and ciphertexts have their lengths, a Diffie-Hellman secret is the same from
  both ends, a ciphertext opens under the key, nonce and data it was made with, small
  messages can be encrypted, and an encapsulated secret is decapsulated.
\<close>

definition noise_ok :: "('z) noise_ops_scheme \<Rightarrow> bool" where
  "noise_ok ops \<longleftrightarrow> (\<forall>a b. n_dh ops a (n_public ops b) = n_dh ops b (n_public ops a))
     \<and> (\<forall>s. length (n_public ops s) = 32) \<and> (\<forall>k m. length (n_keyed ops k m) = 32)
     \<and> (\<forall>k n ad m c. n_encrypt ops k n ad m = Some c \<longrightarrow> n_decrypt ops k n ad c = Some m \<and> length c = length m + 16)
     \<and> (\<forall>k n ad m. length k = 32 \<longrightarrow> length n = 12 \<longrightarrow> length m \<le> 65536 \<longrightarrow> n_encrypt ops k n ad m \<noteq> None)
     \<and> (\<forall>seed. length (snd (kem_keypair ops seed)) = 1568 \<and> kem_key_ok ops (snd (kem_keypair ops seed))
          \<and> (\<forall>r. length (fst (kem_encapsulate ops (snd (kem_keypair ops seed)) r)) = 1568
               \<and> kem_decapsulate ops (fst (kem_keypair ops seed)) (fst (kem_encapsulate ops (snd (kem_keypair ops seed)) r))
                 = snd (kem_encapsulate ops (snd (kem_keypair ops seed)) r)))"

lemma noise_okD:
  assumes "noise_ok ops"
  shows "n_dh ops a (n_public ops b) = n_dh ops b (n_public ops a)" "length (n_public ops s) = 32" "length (n_keyed ops k m) = 32"
    "n_encrypt ops k n ad m = Some c \<Longrightarrow> n_decrypt ops k n ad c = Some m \<and> length c = length m + 16"
    "length k = 32 \<Longrightarrow> length n = 12 \<Longrightarrow> length m \<le> 65536 \<Longrightarrow> n_encrypt ops k n ad m \<noteq> None"
    "kem_keypair ops seed = (dk, ek) \<Longrightarrow> length ek = 1568 \<and> kem_key_ok ops ek"
    "kem_keypair ops seed = (dk, ek) \<Longrightarrow> kem_encapsulate ops ek r = (ct, ss) \<Longrightarrow> length ct = 1568 \<and> kem_decapsulate ops dk ct = ss"
  using assms unfolding noise_ok_def by (metis fst_conv snd_conv)+

section \<open>The two ends in step\<close>

lemma mix_key_cipher: "noise_ok ops \<Longrightarrow> \<exists>k. ss_cipher (mix_key ops ikm s) = cipher_from_key k \<and> length k = 32"
  by (auto simp: mix_key_def hkdf_def Let_def noise_okD(3))

lemma cipher_seals:
  assumes "noise_ok ops" "cs_key c = Some k" "length k = 32" "cs_nonce c \<noteq> - 1" "length m \<le> 65536"
  obtains ct where "cipher_encrypt ops ad m c = Ok (c\<lparr>cs_nonce := cs_nonce c + 1\<rparr>, ct)"
    "cipher_decrypt ops ad ct c = Ok (c\<lparr>cs_nonce := cs_nonce c + 1\<rparr>, m)" "length ct = length m + 16"
proof -
  have "length (build_nonce (cs_nonce c)) = 12" by (simp add: build_nonce_def)
  then obtain ct where ct: "n_encrypt ops k (build_nonce (cs_nonce c)) ad m = Some ct"
    using noise_okD(5) [OF assms(1,3) _ assms(5)] by fastforce
  from noise_okD(4) [OF assms(1) this] ct assms(2,4) that [of ct] show thesis
    by (simp add: cipher_encrypt_def cipher_decrypt_def)
qed

lemma seal_in_step:
  assumes "noise_ok ops" "cs_key (ss_cipher s) = Some k" "length k = 32" "cs_nonce (ss_cipher s) = n" "n \<noteq> - 1" "length m \<le> 65536"
  obtains s' ct where "encrypt_and_hash ops m s = Ok (s', ct)" "decrypt_and_hash ops ct s = Ok (s', m)" "length ct = length m + 16"
    "cs_key (ss_cipher s') = Some k" "cs_nonce (ss_cipher s') = n + 1"
proof -
  have "cs_nonce (ss_cipher s) \<noteq> - 1" using assms(4,5) by simp
  from cipher_seals [OF assms(1-3) this assms(6), of "ss_h s"] obtain ct where
    ct: "cipher_encrypt ops (ss_h s) m (ss_cipher s) = Ok ((ss_cipher s)\<lparr>cs_nonce := n + 1\<rparr>, ct)"
    "cipher_decrypt ops (ss_h s) ct (ss_cipher s) = Ok ((ss_cipher s)\<lparr>cs_nonce := n + 1\<rparr>, m)" "length ct = length m + 16"
    unfolding assms(4) .
  show thesis
    by (rule that [of "mix_hash ops ct (s\<lparr>ss_cipher := (ss_cipher s)\<lparr>cs_nonce := n + 1\<rparr>\<rparr>)" ct])
      (use ct assms(2) in \<open>simp_all add: encrypt_and_hash_def decrypt_and_hash_def has_key_def mix_hash_def\<close>)
qed

lemma sealed_after_mix:
  assumes "noise_ok ops" "length m \<le> 65536"
  obtains s' ct k where "encrypt_and_hash ops m (mix_key ops ikm s) = Ok (s', ct)" "decrypt_and_hash ops ct (mix_key ops ikm s) = Ok (s', m)"
    "length ct = length m + 16" "cs_key (ss_cipher s') = Some k" "length k = 32" "cs_nonce (ss_cipher s') = 1"
proof -
  obtain k where k: "ss_cipher (mix_key ops ikm s) = cipher_from_key k" "length k = 32" using mix_key_cipher [OF assms(1)] by blast
  have c: "cs_key (ss_cipher (mix_key ops ikm s)) = Some k" "cs_nonce (ss_cipher (mix_key ops ikm s)) = 0"
    by (simp_all add: k(1) cipher_from_key_def)
  from seal_in_step [OF assms(1) c(1) k(2) c(2) _ assms(2)] that k(2) show thesis by auto
qed

text \<open>After message A: both have mixed in the same keys, and no cipher is keyed yet.\<close>

lemma message_a_in_step:
  assumes "noise_ok ops" "kem_keypair ops seed = (dk, ek)"
  obtains i m r st where "write_message_a ops e seed (new_handshake ops Initiator s) = Ok (i, m)"
    "read_message_a ops m (new_handshake ops Responder s') = Ok r"
    "i = (new_handshake ops Initiator s)\<lparr>hs_e := Some e, hs_e1 := Some dk, hs_symmetric := st\<rparr>"
    "r = (new_handshake ops Responder s')\<lparr>hs_re := Some (n_public ops e), hs_re1 := Some ek, hs_symmetric := st\<rparr>"
proof -
  have l: "length (n_public ops e) = 32" "length ek = 1568" "kem_key_ok ops ek"
    using noise_okD(2,6) [OF assms(1)] assms(2) by blast+
  let ?sym = "mix_hash ops [] (mix_hash ops ek (mix_hash ops (n_public ops e) (symmetric_initialize ops)))"
  have c: "ss_cipher (mix_hash ops x t) = ss_cipher t" "ss_cipher (symmetric_initialize ops) = cipher_empty" for x t
    by (simp_all add: mix_hash_def symmetric_initialize_def Let_def)
  have nk: "\<not> has_key cipher_empty" by (simp add: has_key_def cipher_empty_def)
  have u: "mix_hash ops [] (t\<lparr>ss_cipher := cipher_empty\<rparr>) = mix_hash ops [] t" if "ss_cipher t = cipher_empty" for t :: symmetric_state
    using that by (cases t) (simp add: mix_hash_def)
  show thesis
    by (rule that [of _ "n_public ops e @ ek" _ ?sym])
      (simp_all add: write_message_a_def read_message_a_def new_handshake_def assms(2) l DH_LEN_def KEM_EK_LEN_def Let_def encrypt_and_hash_def
        decrypt_and_hash_def c u nk)
qed

text \<open>After message B: the initiator knows the responder's static key.\<close>

lemma message_b_in_step:
  assumes "noise_ok ops" "kem_keypair ops seed = (dk, ek)"
    and i: "hs_symmetric i = st" "hs_e i = Some e" "hs_e1 i = Some dk" "hs_role i = Initiator"
    and r: "hs_symmetric r = st" "hs_re r = Some (n_public ops e)" "hs_re1 r = Some ek" "hs_role r = Responder"
  obtains r' m i' sym' k where "write_message_b ops f seed2 r = Ok (r', m)" "read_message_b ops m i = Ok i'"
    "r' = r\<lparr>hs_e := Some f, hs_symmetric := sym'\<rparr>" "i' = i\<lparr>hs_re := Some (n_public ops f), hs_rs := Some (n_public ops (hs_s r)), hs_symmetric := sym'\<rparr>"
    "cs_key (ss_cipher sym') = Some k" "length k = 32" "cs_nonce (ss_cipher sym') = 1"
proof -
  let ?sym1 = "mix_hash ops (n_public ops f) st"
  obtain ct ss where kem: "kem_encapsulate ops ek seed2 = (ct, ss)" by (cases "kem_encapsulate ops ek seed2")
  have dec: "length ct = 1568" "kem_decapsulate ops dk ct = ss" using noise_okD(7) [OF assms(1,2) kem] by simp_all
  have pub: "length (n_public ops x) = 32" for x using noise_okD(2) [OF assms(1)] .
  have dh: "n_dh ops e (n_public ops f) = n_dh ops f (n_public ops e)" "n_dh ops e (n_public ops (hs_s r)) = n_dh ops (hs_s r) (n_public ops e)"
    using noise_okD(1) [OF assms(1)] by blast+
  obtain s1 c1 where 1: "encrypt_and_hash ops ct (mix_key ops (n_dh ops f (n_public ops e)) ?sym1) = Ok (s1, c1)"
    "decrypt_and_hash ops c1 (mix_key ops (n_dh ops f (n_public ops e)) ?sym1) = Ok (s1, ct)" "length c1 = length ct + 16"
    by (rule sealed_after_mix [where m = ct and ikm = "n_dh ops f (n_public ops e)" and s = ?sym1, OF assms(1)]) (simp_all add: dec(1))
  obtain s2 c2 where 2: "encrypt_and_hash ops (n_public ops (hs_s r)) (mix_key ops ss s1) = Ok (s2, c2)"
    "decrypt_and_hash ops c2 (mix_key ops ss s1) = Ok (s2, n_public ops (hs_s r))" "length c2 = length (n_public ops (hs_s r)) + 16"
    by (rule sealed_after_mix [where m = "n_public ops (hs_s r)" and ikm = ss and s = s1, OF assms(1)]) (simp_all add: pub)
  obtain s3 c3 k where 3: "encrypt_and_hash ops [] (mix_key ops (n_dh ops (hs_s r) (n_public ops e)) s2) = Ok (s3, c3)"
    "decrypt_and_hash ops c3 (mix_key ops (n_dh ops (hs_s r) (n_public ops e)) s2) = Ok (s3, [])" "length c3 = length ([] :: bytes) + 16"
    "cs_key (ss_cipher s3) = Some k" "length k = 32" "cs_nonce (ss_cipher s3) = 1"
    by (rule sealed_after_mix [where m = "[]" and ikm = "n_dh ops (hs_s r) (n_public ops e)" and s = s2, OF assms(1)]) simp_all
  note lens = DH_LEN_def KEM_CT_LEN_def TAG_LEN_def
  let ?m = "n_public ops f @ c1 @ c2 @ c3"
  have m: "length ?m = 1680" "take 32 ?m = n_public ops f" "take 1584 (drop 32 ?m) = c1" "take 48 (drop 1616 ?m) = c2" "drop 1664 ?m = c3"
    using 1(3) 2(3) 3(3) dec(1) pub by simp_all
  have w: "write_message_b ops f seed2 r = Ok (r\<lparr>hs_e := Some f, hs_symmetric := s3\<rparr>, ?m)"
    using 1(1) 2(1) 3(1) by (simp add: write_message_b_def Let_def r need_def kem dh_es_def)
  have "read_message_b ops ?m i = Ok (i\<lparr>hs_re := Some (n_public ops f), hs_rs := Some (n_public ops (hs_s r)), hs_symmetric := s3\<rparr>)"
    unfolding read_message_b_def lens using m 1(2) 2(2) 3(2)
    by (simp add: Let_def i need_def sized_def dec pub dh dh_es_def)
  with w 3(4-6) that show thesis by blast
qed

text \<open>After message C: the responder knows the initiator's, and both are ready.\<close>

lemma message_c_in_step:
  assumes "noise_ok ops" "cs_key (ss_cipher st) = Some k" "length k = 32" "cs_nonce (ss_cipher st) = 1"
    and i: "hs_symmetric i = st" "hs_re i = Some (n_public ops f)" "hs_role i = Initiator"
    and r: "hs_symmetric r = st" "hs_e r = Some f" "hs_role r = Responder"
  obtains i' m r' sym' where "write_message_c ops i = Ok (i', m)" "read_message_c ops m r = Ok r'"
    "i' = i\<lparr>hs_symmetric := sym'\<rparr>" "r' = r\<lparr>hs_rs := Some (n_public ops (hs_s i)), hs_symmetric := sym'\<rparr>"
proof -
  have pub: "length (n_public ops x) = 32" for x using noise_okD(2) [OF assms(1)] .
  have dh: "n_dh ops f (n_public ops (hs_s i)) = n_dh ops (hs_s i) (n_public ops f)" using noise_okD(1) [OF assms(1)] .
  have "(1 :: 64 word) \<noteq> - 1" by simp
  moreover have "length (n_public ops (hs_s i)) \<le> 65536" by (simp add: pub)
  ultimately obtain s1 c1 where
    1: "encrypt_and_hash ops (n_public ops (hs_s i)) st = Ok (s1, c1)" "decrypt_and_hash ops c1 st = Ok (s1, n_public ops (hs_s i))"
    "length c1 = length (n_public ops (hs_s i)) + 16" by (rule seal_in_step [OF assms(1-4)])
  obtain s2 c2 where 2: "encrypt_and_hash ops [] (mix_key ops (n_dh ops (hs_s i) (n_public ops f)) s1) = Ok (s2, c2)"
    "decrypt_and_hash ops c2 (mix_key ops (n_dh ops (hs_s i) (n_public ops f)) s1) = Ok (s2, [])" "length c2 = length ([] :: bytes) + 16"
    by (rule sealed_after_mix [where m = "[]" and ikm = "n_dh ops (hs_s i) (n_public ops f)" and s = s1, OF assms(1)]) simp_all
  have w: "write_message_c ops i = Ok (i\<lparr>hs_symmetric := s2\<rparr>, c1 @ c2)"
    using 1(1) 2(1) by (simp add: write_message_c_def i need_def dh_se_def)
  have "read_message_c ops (c1 @ c2) r = Ok (r\<lparr>hs_rs := Some (n_public ops (hs_s i)), hs_symmetric := s2\<rparr>)"
    unfolding read_message_c_def DH_LEN_def TAG_LEN_def using 1(2,3) 2(2,3) pub
    by (simp add: Let_def r need_def sized_def dh dh_se_def)
  with w that show thesis by blast
qed

text \<open>
  The whole exchange: what \<^verbatim>\<open>connect_to_next\<close> and \<^verbatim>\<open>handle_link\<close> do, one on each side.
\<close>

definition handshake :: "('z) noise_ops_scheme \<Rightarrow> bytes \<Rightarrow> bytes \<Rightarrow> bytes \<Rightarrow> bytes \<Rightarrow> bytes \<Rightarrow> bytes
    \<Rightarrow> noise_error + handshake_state \<times> handshake_state" where
  "handshake ops s_i e_i seed_i s_r e_r seed_r =
     bind_result (write_message_a ops e_i seed_i (new_handshake ops Initiator s_i)) (\<lambda>(i, msg_a).
     bind_result (read_message_a ops msg_a (new_handshake ops Responder s_r)) (\<lambda>r.
     bind_result (write_message_b ops e_r seed_r r) (\<lambda>(r, msg_b).
     bind_result (read_message_b ops msg_b i) (\<lambda>i.
     bind_result (write_message_c ops i) (\<lambda>(i, msg_c).
     bind_result (read_message_c ops msg_c r) (\<lambda>r.
     Ok (i, r)))))))"

lemma handshake_total:
  assumes "noise_ok ops"
  shows "\<exists>i r c1 c2. handshake ops s_i e_i seed_i s_r e_r seed_r = Ok (i, r)
    \<and> remote_static_public i = Some (n_public ops s_r) \<and> remote_static_public r = Some (n_public ops s_i)
    \<and> into_transport ops i = (cipher_from_key c1, cipher_from_key c2) \<and> into_transport ops r = (cipher_from_key c2, cipher_from_key c1)
    \<and> length c1 = 32 \<and> length c2 = 32"
proof -
  obtain dk ek where kem: "kem_keypair ops seed_i = (dk, ek)" by (cases "kem_keypair ops seed_i")
  obtain i m r st where a: "write_message_a ops e_i seed_i (new_handshake ops Initiator s_i) = Ok (i, m)"
    "read_message_a ops m (new_handshake ops Responder s_r) = Ok r"
    "i = (new_handshake ops Initiator s_i)\<lparr>hs_e := Some e_i, hs_e1 := Some dk, hs_symmetric := st\<rparr>"
    "r = (new_handshake ops Responder s_r)\<lparr>hs_re := Some (n_public ops e_i), hs_re1 := Some ek, hs_symmetric := st\<rparr>"
    by (rule message_a_in_step [OF assms kem])
  have i: "hs_symmetric i = st" "hs_e i = Some e_i" "hs_e1 i = Some dk" "hs_role i = Initiator" "hs_s i = s_i"
    and r: "hs_symmetric r = st" "hs_re r = Some (n_public ops e_i)" "hs_re1 r = Some ek" "hs_role r = Responder" "hs_s r = s_r"
    by (simp_all add: a(3,4) new_handshake_def)
  obtain r' m' i' sym' k where b: "write_message_b ops e_r seed_r r = Ok (r', m')" "read_message_b ops m' i = Ok i'"
    "r' = r\<lparr>hs_e := Some e_r, hs_symmetric := sym'\<rparr>" "i' = i\<lparr>hs_re := Some (n_public ops e_r), hs_rs := Some (n_public ops (hs_s r)), hs_symmetric := sym'\<rparr>"
    "cs_key (ss_cipher sym') = Some k" "length k = 32" "cs_nonce (ss_cipher sym') = 1"
    by (rule message_b_in_step [OF assms kem i(1-4) r(1-4)])
  obtain i2 m2 r2 sym2 where c: "write_message_c ops i' = Ok (i2, m2)" "read_message_c ops m2 r' = Ok r2"
    "i2 = i'\<lparr>hs_symmetric := sym2\<rparr>" "r2 = r'\<lparr>hs_rs := Some (n_public ops (hs_s i')), hs_symmetric := sym2\<rparr>"
    by (rule message_c_in_step [OF assms b(5-7), of i' e_r r']) (simp_all add: b(3,4) i r)
  have "handshake ops s_i e_i seed_i s_r e_r seed_r = Ok (i2, r2)" using a(1,2) b(1,2) c(1,2) by (simp add: handshake_def)
  moreover have "remote_static_public i2 = Some (n_public ops s_r)" "remote_static_public r2 = Some (n_public ops s_i)"
    by (simp_all add: remote_static_public_def c(3,4) b(3,4) i r)
  moreover have "into_transport ops i2 = (cipher_from_key (fst (hkdf ops (ss_ck sym2) [])), cipher_from_key (snd (hkdf ops (ss_ck sym2) [])))"
    "into_transport ops r2 = (cipher_from_key (snd (hkdf ops (ss_ck sym2) [])), cipher_from_key (fst (hkdf ops (ss_ck sym2) [])))"
    by (simp_all add: into_transport_def split_ciphers_def c(3,4) b(3,4) i r split: prod.splits)
  moreover have "length (fst (hkdf ops (ss_ck sym2) [])) = 32" "length (snd (hkdf ops (ss_ck sym2) [])) = 32"
    by (simp_all add: hkdf_def Let_def noise_okD(3) [OF assms])
  ultimately show ?thesis by blast
qed

lemma handshake_crosses:
  assumes "noise_ok ops" "handshake ops s_i e_i seed_i s_r e_r seed_r = Ok (i, r)"
  shows "\<exists>c1 c2. into_transport ops i = (cipher_from_key c1, cipher_from_key c2) \<and> into_transport ops r = (cipher_from_key c2, cipher_from_key c1)"
  using handshake_total [OF assms(1), of s_i e_i seed_i s_r e_r seed_r] assms(2) by auto

text \<open>Messages one after another through one direction of the link.\<close>

fun encrypt_all :: "('z) noise_ops_scheme \<Rightarrow> bytes list \<Rightarrow> cipher_state \<Rightarrow> noise_error + cipher_state \<times> bytes list" where
  "encrypt_all ops [] c = Ok (c, [])"
| "encrypt_all ops (m # ms) c = bind_result (transport_encrypt ops m c) (\<lambda>(c, ct).
     bind_result (encrypt_all ops ms c) (\<lambda>(c, cts). Ok (c, ct # cts)))"

fun decrypt_all :: "('z) noise_ops_scheme \<Rightarrow> bytes list \<Rightarrow> cipher_state \<Rightarrow> noise_error + cipher_state \<times> bytes list" where
  "decrypt_all ops [] c = Ok (c, [])"
| "decrypt_all ops (ct # cts) c = bind_result (transport_decrypt ops ct c) (\<lambda>(c, m).
     bind_result (decrypt_all ops cts c) (\<lambda>(c, ms). Ok (c, m # ms)))"

lemma encrypt_all_decrypts:
  assumes "noise_ok ops" "cs_key c = Some k" "length k = 32" "unat (cs_nonce c) + length ms < 2 ^ 64" "\<forall>m\<in>set ms. length m \<le> 65536"
  shows "\<exists>c' cts. encrypt_all ops ms c = Ok (c', cts) \<and> decrypt_all ops cts c = Ok (c', ms)"
  using assms(2,4,5)
proof (induction ms arbitrary: c)
  case (Cons m ms)
  have n: "cs_nonce c \<noteq> - 1"
  proof
    assume "cs_nonce c = - 1"
    then have "unat (cs_nonce c) = 2 ^ 64 - 1" by (simp add: unsigned_minus_1_eq_mask mask_eq_exp_minus_1)
    with Cons.prems(2) show False by simp
  qed
  then have next_nonce: "unat (cs_nonce c + 1) = unat (cs_nonce c) + 1" by (simp add: unatSuc eq_neg_iff_add_eq_0 add.commute)
  obtain ct where ct: "transport_encrypt ops m c = Ok (c\<lparr>cs_nonce := cs_nonce c + 1\<rparr>, ct)"
    "transport_decrypt ops ct c = Ok (c\<lparr>cs_nonce := cs_nonce c + 1\<rparr>, m)"
    using cipher_seals [OF assms(1) Cons.prems(1) assms(3) n, of m "[]"] Cons.prems(3)
    unfolding transport_encrypt_def transport_decrypt_def by auto
  have "\<exists>c' cts. encrypt_all ops ms (c\<lparr>cs_nonce := cs_nonce c + 1\<rparr>) = Ok (c', cts)
      \<and> decrypt_all ops cts (c\<lparr>cs_nonce := cs_nonce c + 1\<rparr>) = Ok (c', ms)"
    using Cons.prems next_nonce by (intro Cons.IH) simp_all
  with ct show ?case by auto
qed simp

text \<open>
  Claim C32. The handshake agrees. When the messages arrive as they were sent, all three are
  accepted and each end has learned the other's static key; and then whatever either
  end encrypts, up to \<open>2\<^sup>6\<^sup>4 - 1\<close> messages of at most 64 KiB one after another, the
  other decrypts, in order.
\<close>

theorem handshake_agrees:
  assumes "noise_ok ops"
  shows "\<exists>i r send_i recv_i send_r recv_r. handshake ops s_i e_i seed_i s_r e_r seed_r = Ok (i, r)
    \<and> remote_static_public i = Some (n_public ops s_r) \<and> remote_static_public r = Some (n_public ops s_i)
    \<and> into_transport ops i = (send_i, recv_i) \<and> into_transport ops r = (send_r, recv_r)
    \<and> (\<forall>ms. length ms < 2 ^ 64 \<longrightarrow> (\<forall>m\<in>set ms. length m \<le> 65536) \<longrightarrow>
         (\<exists>c cts. encrypt_all ops ms send_i = Ok (c, cts) \<and> decrypt_all ops cts recv_r = Ok (c, ms))
       \<and> (\<exists>c cts. encrypt_all ops ms send_r = Ok (c, cts) \<and> decrypt_all ops cts recv_i = Ok (c, ms)))"
proof -
  obtain i r c1 c2 where h: "handshake ops s_i e_i seed_i s_r e_r seed_r = Ok (i, r)"
    "remote_static_public i = Some (n_public ops s_r)" "remote_static_public r = Some (n_public ops s_i)"
    "into_transport ops i = (cipher_from_key c1, cipher_from_key c2)" "into_transport ops r = (cipher_from_key c2, cipher_from_key c1)"
    "length c1 = 32" "length c2 = 32"
    using handshake_total [OF assms] by blast
  have "\<exists>c cts. encrypt_all ops ms (cipher_from_key k) = Ok (c, cts) \<and> decrypt_all ops cts (cipher_from_key k) = Ok (c, ms)"
    if "length ms < 2 ^ 64" "\<forall>m\<in>set ms. length m \<le> 65536" "length k = 32" for ms k
    using encrypt_all_decrypts [OF assms _ that(3), of "cipher_from_key k" ms] that(1,2) by (simp add: cipher_from_key_def)
  with h show ?thesis by metis
qed

text \<open>Primitives that have all the laws: a Diffie-Hellman that adds bytewise, and a cipher that shows its tag.\<close>

definition fit :: "nat \<Rightarrow> bytes \<Rightarrow> bytes" where
  "fit n b = take n (b @ replicate n 0)"

definition sample_noise :: noise_ops where
  "sample_noise = \<lparr>n_hash = fit 32, n_keyed = (\<lambda>k m. fit 32 (m @ k)),
     n_encrypt = (\<lambda>k n ad m. Some (fit 16 (n @ k) @ m)),
     n_decrypt = (\<lambda>k n ad c. if take 16 c = fit 16 (n @ k) then Some (drop 16 c) else None),
     n_public = fit 32, n_dh = (\<lambda>a b. map2 (+) (fit 32 a) (fit 32 b)),
     kem_keypair = (\<lambda>seed. (fit 1568 seed, fit 1568 seed)), kem_key_ok = (\<lambda>ek. length ek = 1568),
     kem_encapsulate = (\<lambda>ek r. (fit 1568 r, fit 32 r)), kem_decapsulate = (\<lambda>dk ct. fit 32 ct)\<rparr>"

lemma length_fit [simp]: "length (fit n b) = n"
  by (simp add: fit_def)

lemma fit_fit: "m \<le> n \<Longrightarrow> fit m (fit n b) = fit m b"
  by (auto simp: fit_def take_append min_def list_eq_iff_nth_eq nth_append)

lemma sample_noise_ok: "noise_ok sample_noise"
proof -
  have "map2 (+) xs ys = map2 (+) ys xs" for xs ys :: bytes
    by (subst zip_commute) (simp add: case_prod_beta' add.commute)
  then show ?thesis by (auto simp: noise_ok_def sample_noise_def fit_fit)
qed

theorem handshake_agrees_witness:
  "\<exists>i r send_i recv_i send_r recv_r c cts. handshake sample_noise [1] [2] [3] [4] [5] [6] = Ok (i, r)
    \<and> remote_static_public i = Some (fit 32 [4]) \<and> remote_static_public r = Some (fit 32 [1])
    \<and> into_transport sample_noise i = (send_i, recv_i) \<and> into_transport sample_noise r = (send_r, recv_r)
    \<and> encrypt_all sample_noise [[7], [8, 9]] send_i = Ok (c, cts) \<and> decrypt_all sample_noise cts recv_r = Ok (c, [[7], [8, 9]])"
proof -
  have n: "n_public sample_noise s = fit 32 s" for s by (simp add: sample_noise_def)
  have "length [[7], [8, 9] :: bytes] < 2 ^ 64" "\<forall>m\<in>set [[7], [8, 9] :: bytes]. length m \<le> 65536" by simp_all
  with handshake_agrees [OF sample_noise_ok, of "[1]" "[2]" "[3]" "[4]" "[5]" "[6]"] show ?thesis
    unfolding n by blast
qed

end
