(* ===== verification/Connection.thy ===== *)
theory Connection
  imports Handshake
begin

text \<open>
  Links between relays (\<^verbatim>\<open>hidra-node/src/network/connection.rs\<close>): the messages and their wire form, frames
  with a length before them, the reader that survives being dropped in the middle of
  a frame, and the encrypted connection. What a socket gives a reader is a list of events: bytes
  that arrived (none when the peer closed), a failure, or the read being dropped by the
  \<^verbatim>\<open>select!\<close> around it.

  The lemmas show that a message is read back as it was written, and that a link delivers
  what was sent over it, whole and in order, however the bytes are cut and however often
  a read is dropped.
\<close>

section \<open>Messages\<close>

definition MAX_FRAME_SIZE :: nat where
  "MAX_FRAME_SIZE = 65536"

datatype message =
    Ping bytes
  | Pong bytes
  | CreateCircuit u32
  | CircuitCreated u32
  | Relay u32 bytes
  | StreamBegin u32 bytes

datatype link_error = EmptyMessage | MessageTooShort | UnknownMessage u8 | FrameTooLong | ClosedEarly | ReadFailed | Cipher noise_error

fun serialize :: "message \<Rightarrow> bytes" where
  "serialize (Ping data) = 1 # data"
| "serialize (Pong data) = 2 # data"
| "serialize (CreateCircuit cid) = 0x10 # u32_to_be_bytes cid"
| "serialize (CircuitCreated cid) = 0x11 # u32_to_be_bytes cid"
| "serialize (Relay cid data) = 0x20 # u32_to_be_bytes cid @ data"
| "serialize (StreamBegin cid data) = 0x21 # u32_to_be_bytes cid @ data"

definition circuit_id_of :: "bytes \<Rightarrow> u32" where
  "circuit_id_of data = u32_from_be_bytes (data ! 1) (data ! 2) (data ! 3) (data ! 4)"

definition deserialize :: "bytes \<Rightarrow> link_error + message" where
  "deserialize data = (case data of
      [] \<Rightarrow> Err EmptyMessage
    | tag # rest \<Rightarrow>
        (if tag = 1 then Ok (Ping rest)
         else if tag = 2 then Ok (Pong rest)
         else if tag = 0x10 then (if length data < 5 then Err MessageTooShort else Ok (CreateCircuit (circuit_id_of data)))
         else if tag = 0x11 then (if length data < 5 then Err MessageTooShort else Ok (CircuitCreated (circuit_id_of data)))
         else if tag = 0x20 then (if length data < 5 then Err MessageTooShort else Ok (Relay (circuit_id_of data) (drop 5 data)))
         else if tag = 0x21 then (if length data < 5 then Err MessageTooShort else Ok (StreamBegin (circuit_id_of data) (drop 5 data)))
         else Err (UnknownMessage tag)))"

section \<open>Frames\<close>

definition write_frame :: "bytes \<Rightarrow> link_error + bytes" where
  "write_frame data = (if 2 ^ 32 \<le> length data then Err FrameTooLong else Ok (u32_to_be_bytes (of_nat (length data)) @ data))"

definition frame_len :: "bytes \<Rightarrow> nat" where
  "frame_len buf = unat (u32_from_be_bytes (buf ! 0) (buf ! 1) (buf ! 2) (buf ! 3))"

definition take_frame :: "bytes \<Rightarrow> link_error + bytes option \<times> bytes" where
  "take_frame buf =
     (if length buf < 4 then Ok (None, buf)
      else (let len = frame_len buf in
        if MAX_FRAME_SIZE < len then Err FrameTooLong
        else if length buf < 4 + len then Ok (None, buf)
        else Ok (Some (take len (drop 4 buf)), drop (4 + len) buf)))"

datatype read_event = Arrived bytes | Failed | Dropped

text \<open>
  \<^verbatim>\<open>FrameReader::read_frame\<close>: the buffer after it, the events left, and its result; \<open>None\<close> when the read was
  dropped, or is still waiting.
\<close>

fun read_frame :: "bytes \<Rightarrow> read_event list \<Rightarrow> bytes \<times> read_event list \<times> (link_error + bytes) option" where
  "read_frame buf es = (case take_frame buf of
      Err e \<Rightarrow> (buf, es, Some (Err e))
    | Ok (Some frame, buf') \<Rightarrow> (buf', es, Some (Ok frame))
    | Ok (None, _) \<Rightarrow> (case es of
        [] \<Rightarrow> (buf, [], None)
      | Dropped # es' \<Rightarrow> (buf, es', None)
      | Failed # es' \<Rightarrow> (buf, es', Some (Err ReadFailed))
      | Arrived b # es' \<Rightarrow> if b = [] then (buf, es', Some (Err ClosedEarly)) else read_frame (buf @ b) es'))"

declare read_frame.simps [simp del]

lemma read_frame_waits:
  assumes "take_frame buf = Ok (None, b)"
  shows "read_frame buf [] = (buf, [], None)" "read_frame buf (Dropped # es) = (buf, es, None)"
    "read_frame buf (Failed # es) = (buf, es, Some (Err ReadFailed))" "read_frame buf (Arrived [] # es) = (buf, es, Some (Err ClosedEarly))"
    "x \<noteq> [] \<Longrightarrow> read_frame buf (Arrived x # es) = read_frame (buf @ x) es"
  using assms by (simp_all add: read_frame.simps [of buf])

section \<open>Connections\<close>

definition send_message :: "('z) noise_ops_scheme \<Rightarrow> message \<Rightarrow> cipher_state \<Rightarrow> link_error + cipher_state \<times> bytes" where
  "send_message ops msg c = (case transport_encrypt ops (serialize msg) c of
      Err e \<Rightarrow> Err (Cipher e)
    | Ok (c', ciphertext) \<Rightarrow> bind_result (write_frame ciphertext) (\<lambda>wire. Ok (c', wire)))"

definition recv_message :: "('z) noise_ops_scheme \<Rightarrow> bytes \<Rightarrow> cipher_state \<Rightarrow> read_event list
    \<Rightarrow> (bytes \<times> cipher_state) \<times> read_event list \<times> (link_error + message) option" where
  "recv_message ops buf c es = (case read_frame buf es of
      (buf', es', None) \<Rightarrow> ((buf', c), es', None)
    | (buf', es', Some (Err e)) \<Rightarrow> ((buf', c), es', Some (Err e))
    | (buf', es', Some (Ok frame)) \<Rightarrow> (case transport_decrypt ops frame c of
        Err e \<Rightarrow> ((buf', c), es', Some (Err (Cipher e)))
      | Ok (c', plaintext) \<Rightarrow> ((buf', c'), es', Some (deserialize plaintext))))"

section \<open>Messages are read back\<close>

lemma u32_be_read: "u32_from_be_bytes (u32_to_be_bytes w ! 0) (u32_to_be_bytes w ! 1) (u32_to_be_bytes w ! 2) (u32_to_be_bytes w ! 3) = w"
  by (simp add: u32_to_be_bytes_def)

lemma circuit_id_read: "circuit_id_of (t # u32_to_be_bytes w @ data) = w" "circuit_id_of (t # u32_to_be_bytes w) = w"
  by (simp_all add: circuit_id_of_def u32_to_be_bytes_def)

lemma deserialize_serialize [simp]: "deserialize (serialize m) = Ok m"
  by (cases m) (simp_all add: deserialize_def circuit_id_read)

text \<open>And the other way, but for what trails a message that carries no data.\<close>

lemma serialize_deserialize:
  assumes "deserialize b = Ok m"
  shows "\<exists>rest. b = serialize m @ rest \<and> ((\<nexists>cid. m = CreateCircuit cid \<or> m = CircuitCreated cid) \<longrightarrow> rest = [])"
proof -
  have id: "u32_to_be_bytes (circuit_id_of b) = take 4 (drop 1 b)" if "5 \<le> length b"
  proof -
    from that obtain t b1 b2 b3 b4 r where b: "b = t # b1 # b2 # b3 # b4 # r"
      by (auto simp: Suc_le_length_iff numeral_eq_Suc)
    have out: "\<not> bit w (8 + n)" "\<not> bit w (16 + n)" "\<not> bit w (24 + n)" for w :: u8 and n
      using bit_imp_le_length [of w] by force+
    have "u32_to_be_bytes (u32_from_be_bytes b1 b2 b3 b4) = [b1, b2, b3, b4]"
      by (auto simp: u32_to_be_bytes_def u32_from_be_bytes_def intro!: bit_word_eqI
          simp: bit_ucast_iff bit_drop_bit_eq bit_or_iff bit_push_bit_iff out)
    then show ?thesis by (simp add: b circuit_id_of_def)
  qed
  obtain t r where b: "b = t # r" using assms by (cases b) (simp_all add: deserialize_def)
  show ?thesis
    using assms id by (auto simp: deserialize_def b split: if_splits intro: exI [of _ "drop 4 r"])
qed

section \<open>Frames are read whole\<close>

definition frame_wire :: "bytes \<Rightarrow> bytes" where
  "frame_wire f = u32_to_be_bytes (of_nat (length f)) @ f"

fun bytes_of :: "read_event list \<Rightarrow> bytes" where
  "bytes_of [] = []"
| "bytes_of (Arrived b # es) = b @ bytes_of es"
| "bytes_of (_ # es) = bytes_of es"

text \<open>A peer that neither closes nor fails: only bytes, and reads dropped.\<close>

definition pieces_ok :: "read_event list \<Rightarrow> bool" where
  "pieces_ok es \<longleftrightarrow> Failed \<notin> set es \<and> Arrived [] \<notin> set es"

lemma pieces_ok_simps [simp]:
  "pieces_ok []" "pieces_ok (Dropped # es) = pieces_ok es" "\<not> pieces_ok (Failed # es)"
  "pieces_ok (Arrived b # es) \<longleftrightarrow> b \<noteq> [] \<and> pieces_ok es"
  by (auto simp: pieces_ok_def)

lemma frame_len_wire:
  assumes "length f \<le> MAX_FRAME_SIZE" "buf @ later = frame_wire f @ rest" "4 \<le> length buf"
  shows "frame_len buf = length f"
proof -
  have l: "length f < 2 ^ 32" using assms(1) by (simp add: MAX_FRAME_SIZE_def)
  have "buf ! i = u32_to_be_bytes (of_nat (length f)) ! i" if "i < 4" for i
    using arg_cong [OF assms(2), of "\<lambda>x. x ! i"] that assms(3) by (simp add: nth_append frame_wire_def)
  then have "frame_len buf = unat (of_nat (length f) :: u32)" using u32_be_read [of "of_nat (length f)"] by (simp add: frame_len_def)
  with l show ?thesis by (simp add: unat_of_nat take_bit_nat_eq_self)
qed

lemma take_frame_wire:
  assumes "length f \<le> MAX_FRAME_SIZE" "buf @ later = frame_wire f @ rest"
  shows "take_frame buf = Ok (if 4 + length f \<le> length buf then (Some f, drop (4 + length f) buf) else (None, buf))"
    and "4 + length f \<le> length buf \<Longrightarrow> drop (4 + length f) buf @ later = rest"
proof -
  have w: "length (frame_wire f) = 4 + length f" by (simp add: frame_wire_def)
  have big: "take (length f) (drop 4 buf) = f" "drop (4 + length f) buf @ later = rest" if "4 + length f \<le> length buf"
  proof -
    have "take (4 + length f) (buf @ later) = take (4 + length f) (frame_wire f @ rest)" using assms(2) by simp
    then have "take (4 + length f) buf = frame_wire f" using that w by simp
    then have "drop 4 (take (4 + length f) buf) = f" by (simp add: frame_wire_def)
    then show "take (length f) (drop 4 buf) = f" by (simp add: drop_take)
    have "drop (4 + length f) (buf @ later) = drop (4 + length f) (frame_wire f @ rest)" using assms(2) by simp
    then show "drop (4 + length f) buf @ later = rest" using that w by simp
  qed
  then show "4 + length f \<le> length buf \<Longrightarrow> drop (4 + length f) buf @ later = rest" by blast
  show "take_frame buf = Ok (if 4 + length f \<le> length buf then (Some f, drop (4 + length f) buf) else (None, buf))"
    using frame_len_wire [OF assms] assms(1) big by (simp add: take_frame_def Let_def)
qed

lemma read_frame_wire:
  assumes "length f \<le> MAX_FRAME_SIZE" "buf @ bytes_of es = frame_wire f @ rest" "pieces_ok es" "read_frame buf es = (buf', es', r)"
  shows "pieces_ok es' \<and> (r = Some (Ok f) \<and> buf' @ bytes_of es' = rest \<or> r = None \<and> es \<noteq> [] \<and> buf' @ bytes_of es' = frame_wire f @ rest)"
  using assms(2-4)
proof (induction buf es rule: read_frame.induct)
  case (1 buf es)
  note t = take_frame_wire [OF assms(1) 1(2)]
  show ?case
  proof (cases "4 + length f \<le> length buf")
    case True
    with 1(4) t 1(3) show ?thesis by (simp add: read_frame.simps [of buf es])
  next
    case False
    then have none: "take_frame buf = Ok (None, buf)" using t(1) by simp
    have "es \<noteq> []" using False 1(2) arg_cong [OF 1(2), of length] by (auto simp: frame_wire_def)
    then obtain ev es1 where es: "es = ev # es1" by (cases es) auto
    show ?thesis
    proof (cases ev)
      case (Arrived b)
      have "pieces_ok es' \<and> (r = Some (Ok f) \<and> buf' @ bytes_of es' = rest \<or> r = None \<and> es1 \<noteq> [] \<and> buf' @ bytes_of es' = frame_wire f @ rest)"
        by (rule 1(1) [OF none refl refl es Arrived]) (use 1(2-4) in \<open>simp_all add: es Arrived read_frame_waits [OF none]\<close>)
      with es show ?thesis by auto
    qed (use 1(2-4) in \<open>auto simp: es read_frame_waits [OF none]\<close>)
  qed
qed

lemma read_frame_nothing:
  assumes "bytes_of es = []" "pieces_ok es" "read_frame [] es = (buf', es', r)"
  shows "buf' = [] \<and> r = None \<and> bytes_of es' = [] \<and> pieces_ok es'"
  using assms by (cases es) (auto simp: read_frame.simps [of "[]"] take_frame_def split: read_event.splits)

section \<open>A link delivers\<close>

fun ev_size :: "read_event \<Rightarrow> nat" where
  "ev_size (Arrived b) = Suc (length b)"
| "ev_size _ = 1"

definition weight :: "bytes \<Rightarrow> read_event list \<Rightarrow> nat" where
  "weight buf es = length buf + sum_list (map ev_size es)"

lemma take_frame_shorter: "take_frame buf = Ok (Some f, buf') \<Longrightarrow> length buf' < length buf"
  by (auto simp: take_frame_def Let_def split: if_splits)

lemma read_frame_progress:
  "read_frame buf es = (buf', es', r) \<Longrightarrow> (r = None \<longrightarrow> es \<noteq> [] \<longrightarrow> weight buf' es' < weight buf es)
    \<and> (\<forall>f. r = Some (Ok f) \<longrightarrow> weight buf' es' < weight buf es)"
proof (induction buf es rule: read_frame.induct)
  case (1 buf es)
  consider (err) e where "take_frame buf = Err e" | (some) f b where "take_frame buf = Ok (Some f, b)" | (none) b where "take_frame buf = Ok (None, b)"
  proof (cases "take_frame buf")
    case (Inr t)
    then show thesis using that(2,3) by (cases "fst t"; cases t) simp_all
  qed (rule that(1))
  then show ?case
  proof cases
    case err
    with 1(2) show ?thesis by (auto simp: read_frame.simps [of buf])
  next
    case some
    with 1(2) take_frame_shorter [OF some] show ?thesis by (auto simp: read_frame.simps [of buf] weight_def)
  next
    case none
    show ?thesis
    proof (cases es)
      case Nil
      with 1(2) show ?thesis by (auto simp: read_frame_waits [OF none])
    next
      case (Cons ev es1)
      show ?thesis
      proof (cases "\<exists>x. ev = Arrived x \<and> x \<noteq> []")
        case True
        then obtain x where x: "ev = Arrived x" "x \<noteq> []" by blast
        have step: "read_frame (buf @ x) es1 = (buf', es', r)" using 1(2) by (simp add: Cons x read_frame_waits [OF none])
        have w: "weight (buf @ x) es1 < weight buf es" by (simp add: weight_def Cons x)
        from 1(1) [OF none refl refl Cons x(1) x(2) step] have
          "(r = None \<longrightarrow> es1 \<noteq> [] \<longrightarrow> weight buf' es' < weight (buf @ x) es1) \<and> (\<forall>f. r = Some (Ok f) \<longrightarrow> weight buf' es' < weight (buf @ x) es1)" .
        moreover have "weight buf' es' = weight (buf @ x) es1" if "es1 = []" "r = None"
          using step that by (auto simp: read_frame.simps [of "buf @ x" "[]"] split: sum.splits option.splits prod.splits)
        ultimately show ?thesis using w by (cases "es1 = []") auto
      next
        case False
        with 1(2) show ?thesis by (cases ev) (auto simp: Cons read_frame_waits [OF none] weight_def)
      qed
    qed
  qed
qed

lemma recv_message_progress:
  assumes "recv_message ops buf c es = ((buf', c'), es', r)"
  shows "r = None \<Longrightarrow> es \<noteq> [] \<Longrightarrow> weight buf' es' < weight buf es" "r = Some (Ok m) \<Longrightarrow> weight buf' es' < weight buf es"
  using assms read_frame_progress [of buf es] by (auto simp: recv_message_def split: prod.splits option.splits sum.splits)

text \<open>A link read to the end: every message until the events run out, or the first error.\<close>

function recv_all :: "('z) noise_ops_scheme \<Rightarrow> bytes \<Rightarrow> cipher_state \<Rightarrow> read_event list \<Rightarrow> (link_error + message) list" where
  "recv_all ops buf c es = (case recv_message ops buf c es of
      ((buf', c'), es', Some (Ok m)) \<Rightarrow> Ok m # recv_all ops buf' c' es'
    | ((buf', c'), es', Some (Err e)) \<Rightarrow> [Err e]
    | ((buf', c'), es', None) \<Rightarrow> if es = [] then [] else recv_all ops buf' c' es')"
  by pat_completeness auto

termination
  by (relation "measure (\<lambda>(ops, buf, c, es). weight buf es)") (auto dest: recv_message_progress [OF sym])

declare recv_all.simps [simp del]

fun send_all :: "('z) noise_ops_scheme \<Rightarrow> message list \<Rightarrow> cipher_state \<Rightarrow> link_error + cipher_state \<times> bytes" where
  "send_all ops [] c = Ok (c, [])"
| "send_all ops (m # ms) c = bind_result (send_message ops m c) (\<lambda>(c', wire).
     bind_result (send_all ops ms c') (\<lambda>(c'', wires). Ok (c'', wire @ wires)))"

lemma send_message_Ok:
  assumes "noise_ok ops" "send_message ops m c = Ok (c', wire)"
  obtains ct where "wire = frame_wire ct" "transport_decrypt ops ct c = Ok (c', serialize m)" "length ct = length (serialize m) + 16"
proof -
  obtain ct k where ct: "cs_key c = Some k" "cs_nonce c \<noteq> - 1" "n_encrypt ops k (build_nonce (cs_nonce c)) [] (serialize m) = Some ct"
    "c' = c\<lparr>cs_nonce := cs_nonce c + 1\<rparr>" "wire = frame_wire ct"
    using assms(2) by (auto simp: send_message_def transport_encrypt_def cipher_encrypt_def write_frame_def frame_wire_def
        split: option.splits if_splits sum.splits)
  from noise_okD(4) [OF assms(1) ct(3)] ct that [of ct] show thesis
    by (simp add: transport_decrypt_def cipher_decrypt_def)
qed

definition fits :: "message \<Rightarrow> bool" where
  "fits m \<longleftrightarrow> length (serialize m) + 16 \<le> MAX_FRAME_SIZE"

lemma recv_all_sent:
  assumes "noise_ok ops" "send_all ops ms c = Ok (c', wire)" "\<forall>m\<in>set ms. fits m" "buf @ bytes_of es = wire" "pieces_ok es"
  shows "recv_all ops buf c es = map Ok ms"
  using assms(2-5)
proof (induction "weight buf es" arbitrary: buf es c ms wire rule: less_induct)
  case less
  obtain buf1 es1 r where rf: "read_frame buf es = (buf1, es1, r)" by (cases "read_frame buf es")
  show ?case
  proof (cases ms)
    case Nil
    then have "buf = []" "bytes_of es = []" using less.prems by simp_all
    with read_frame_nothing [OF _ less.prems(4)] rf have n: "buf1 = []" "r = None" "bytes_of es1 = []" "pieces_ok es1" by auto
    have e: "recv_message ops buf c es = ((buf1, c), es1, None)" using rf n by (simp add: recv_message_def)
    show ?thesis
    proof (cases "es = []")
      case False
      have "weight buf1 es1 < weight buf es" using recv_message_progress(1) [OF e refl False] .
      from less.hyps [OF this less.prems(1,2) _ n(4)] less.prems(3) n Nil have "recv_all ops buf1 c es1 = map Ok ms"
        using \<open>buf = []\<close> \<open>bytes_of es = []\<close> by simp
      with e False show ?thesis by (simp add: recv_all.simps [of ops buf])
    qed (use e in \<open>simp add: recv_all.simps [of ops buf] Nil\<close>)
  next
    case (Cons m ms1)
    from less.prems(1) [unfolded Cons] obtain c1 w1 w2 where s: "send_message ops m c = Ok (c1, w1)" "send_all ops ms1 c1 = Ok (c', w2)" "wire = w1 @ w2"
      by auto
    obtain ct where ct: "w1 = frame_wire ct" "transport_decrypt ops ct c = Ok (c1, serialize m)" "length ct = length (serialize m) + 16"
      by (rule send_message_Ok [OF assms(1) s(1)])
    have l: "length ct \<le> MAX_FRAME_SIZE" using less.prems(2) ct(3) by (simp add: Cons fits_def)
    have "buf @ bytes_of es = frame_wire ct @ w2" using less.prems(3) s(3) ct(1) by simp
    from read_frame_wire [OF l this less.prems(4) rf]
    consider (got) "r = Some (Ok ct)" "buf1 @ bytes_of es1 = w2" "pieces_ok es1" | (waits) "r = None" "es \<noteq> []" "buf1 @ bytes_of es1 = wire" "pieces_ok es1"
      using s(3) ct(1) by auto
    then show ?thesis
    proof cases
      case got
      have e: "recv_message ops buf c es = ((buf1, c1), es1, Some (Ok m))" using rf got(1) ct(2) by (simp add: recv_message_def)
      have "recv_all ops buf1 c1 es1 = map Ok ms1"
        by (rule less.hyps [OF recv_message_progress(2) [OF e refl] s(2) _ got(2,3)]) (use less.prems(2) in \<open>simp add: Cons\<close>)
      with e show ?thesis by (simp add: recv_all.simps [of ops buf] Cons)
    next
      case waits
      have e: "recv_message ops buf c es = ((buf1, c), es1, None)" using rf waits(1) by (simp add: recv_message_def)
      have "recv_all ops buf1 c es1 = map Ok ms"
        by (rule less.hyps [OF recv_message_progress(1) [OF e refl waits(2)] less.prems(1,2) waits(3,4)])
      with e waits(2) show ?thesis by (simp add: recv_all.simps [of ops buf])
    qed
  qed
qed

text \<open>
  Claim C33. A link delivers. After the handshake, the messages one end sends are read by the other,
  the same ones in the same order, however the network cuts the bytes into pieces and
  however often a read is dropped before its frame is whole.
\<close>

theorem link_delivers:
  assumes "noise_ok ops" "handshake ops s_i e_i seed_i s_r e_r seed_r = Ok (i, r)"
    and "send_all ops ms (fst (into_transport ops i)) = Ok (c', wire)" "\<forall>m\<in>set ms. fits m"
    and "bytes_of es = wire" "pieces_ok es"
  shows "recv_all ops [] (snd (into_transport ops r)) es = map Ok ms"
proof -
  obtain k1 k2 where "into_transport ops i = (cipher_from_key k1, cipher_from_key k2)" "into_transport ops r = (cipher_from_key k2, cipher_from_key k1)"
    using handshake_crosses [OF assms(1,2)] by blast
  with recv_all_sent [OF assms(1) _ assms(4) _ assms(6), of _ c' wire "[]"] assms(3,5) show ?thesis by simp
qed

theorem link_delivers_witness:
  "\<exists>i r c wire. handshake sample_noise [1] [2] [3] [4] [5] [6] = Ok (i, r)
    \<and> send_all sample_noise [Ping [7], Relay 9 [8]] (fst (into_transport sample_noise i)) = Ok (c, wire)
    \<and> recv_all sample_noise [] (snd (into_transport sample_noise r)) [Arrived (take 3 wire), Dropped, Arrived (drop 3 wire)] = [Ok (Ping [7]), Ok (Relay 9 [8])]"
proof -
  obtain i r k1 k2 where h: "handshake sample_noise [1] [2] [3] [4] [5] [6] = Ok (i, r)" "into_transport sample_noise i = (cipher_from_key k1, k2)"
    using handshake_total [OF sample_noise_ok] by blast
  have "\<exists>c wire. send_all sample_noise [Ping [7], Relay 9 [8]] (cipher_from_key k1) = Ok (c, wire) \<and> 3 < length wire"
    by (simp add: send_message_def transport_encrypt_def cipher_encrypt_def cipher_from_key_def sample_noise_def write_frame_def u32_to_be_bytes_def)
  then obtain c wire where w: "send_all sample_noise [Ping [7], Relay 9 [8]] (fst (into_transport sample_noise i)) = Ok (c, wire)" "3 < length wire"
    using h(2) by auto
  let ?es = "[Arrived (take 3 wire), Dropped, Arrived (drop 3 wire)]"
  have "pieces_ok ?es" using w(2) by auto
  from link_delivers [OF sample_noise_ok h(1) w(1) _ _ this] h(1) w(1) show ?thesis
    by (fastforce simp: fits_def MAX_FRAME_SIZE_def u32_to_be_bytes_def)
qed

end
