(* ===== verification/Service_Auth.thy ===== *)
theory Service_Auth
  imports Onion Dht_Descriptor
begin

text \<open>
  Proving that a hidden service is the one its address names (\<^verbatim>\<open>hidra-node/src/crypto/service_auth.rs\<close>): the
  registration a service signs for its introduction relay, the challenge every session
  starts with, and the sealed channel that follows. X25519 and the key derivation
  are parameters, Ed25519, BLAKE3 and the cipher those of \<open>Crypto_Params\<close> and \<open>Onion\<close>.

  The lemmas show that a client and the service that answers it share a channel in both
  directions, and that an answer a client accepts was made by the holder of the
  address's key, for this very session.
\<close>

section \<open>Registration\<close>

definition SESSION_DOMAIN :: bytes where
  "SESSION_DOMAIN = ascii_bytes ''hidra/service-auth/v1''"

definition REGISTER_DOMAIN :: bytes where
  "REGISTER_DOMAIN = ascii_bytes ''hidra/service-register/v1''"

definition KDF_C2S :: string where
  "KDF_C2S = ''hidra service-auth v1 client-to-service''"

definition KDF_S2C :: string where
  "KDF_S2C = ''hidra service-auth v1 service-to-client''"

definition HELLO_MAGIC :: bytes where
  "HELLO_MAGIC = ascii_bytes ''HSA1''"

definition ANSWER_MAGIC :: bytes where
  "ANSWER_MAGIC = ascii_bytes ''HSB1''"

definition HELLO_LEN :: nat where "HELLO_LEN = 4 + 32 + 32"
definition ANSWER_LEN :: nat where "ANSWER_LEN = 4 + 32 + 64"
definition REGISTRATION_MAX_SKEW_SECS :: nat where "REGISTRATION_MAX_SKEW_SECS = 600"

datatype auth_error = KeyNotNamed | NotRecent | SignatureSize | NotAKey | NotSignedByIt | NoAnswer | DegenerateExchange
  | SessionExhausted | CouldNotSeal | DidNotOpen | NoChallenge

definition registration_bytes :: "bytes \<Rightarrow> 64 word \<Rightarrow> bytes" where
  "registration_bytes hash timestamp = REGISTER_DOMAIN @ hash @ u64_to_le_bytes timestamp"

definition registration_proof :: "ed25519 \<Rightarrow> (bytes \<Rightarrow> bytes) \<Rightarrow> bytes \<Rightarrow> 64 word \<Rightarrow> bytes \<times> 64 word \<times> bytes" where
  "registration_proof ed blake3 service_key now =
     (let pk = verifying_key ed service_key
      in (pk, now, ed_sign ed service_key (registration_bytes (service_hash_of blake3 pk) now)))"

text \<open>\<^verbatim>\<open>u64::abs_diff\<close>.\<close>

definition abs_diff :: "64 word \<Rightarrow> 64 word \<Rightarrow> nat" where
  "abs_diff a b = max (unat a) (unat b) - min (unat a) (unat b)"

definition verify_registration :: "ed25519 \<Rightarrow> (bytes \<Rightarrow> bytes) \<Rightarrow> 64 word \<Rightarrow> bytes \<Rightarrow> bytes \<Rightarrow> 64 word \<Rightarrow> bytes \<Rightarrow> auth_error + unit" where
  "verify_registration ed blake3 now hash pubkey timestamp signature =
     (if length hash \<noteq> 20 \<or> service_hash_of blake3 pubkey \<noteq> hash then Err KeyNotNamed
      else if REGISTRATION_MAX_SKEW_SECS < abs_diff now timestamp then Err NotRecent
      else if length signature \<noteq> 64 then Err SignatureSize
      else if \<not> ed_key_ok ed pubkey then Err NotAKey
      else if verify_strict ed pubkey (registration_bytes hash timestamp) signature then Ok ()
      else Err NotSignedByIt)"

section \<open>Sessions\<close>

record exchange_ops =
  x_public :: "bytes \<Rightarrow> bytes"
  x_dh :: "bytes \<Rightarrow> bytes \<Rightarrow> bytes"
  derive_key :: "string \<Rightarrow> bytes \<Rightarrow> bytes"

definition transcript :: "bytes \<Rightarrow> bytes \<Rightarrow> bytes \<Rightarrow> bytes \<Rightarrow> bytes" where
  "transcript hash client_eph nc service_eph = SESSION_DOMAIN @ hash @ client_eph @ nc @ service_eph"

definition session_keys :: "('z) exchange_ops_scheme \<Rightarrow> bytes \<Rightarrow> bytes \<Rightarrow> bytes \<times> bytes" where
  "session_keys x shared t = (let material = shared @ t in (derive_key x KDF_C2S material, derive_key x KDF_S2C material))"

record sealed_direction =
  sd_key :: bytes
  sd_counter :: "64 word"

definition new_direction :: "bytes \<Rightarrow> sealed_direction" where
  "new_direction key = \<lparr>sd_key = key, sd_counter = 0\<rparr>"

definition take_nonce :: "sealed_direction \<Rightarrow> sealed_direction \<times> (auth_error + bytes)" where
  "take_nonce d =
     (let c = sd_counter d
      in if c = - 1 then (d, Err SessionExhausted) else (d\<lparr>sd_counter := c + 1\<rparr>, Ok (replicate 4 0 @ u64_to_be_bytes c)))"

record sealed_channel =
  ch_send :: sealed_direction
  ch_recv :: sealed_direction

definition channel_seal :: "aead \<Rightarrow> bytes \<Rightarrow> sealed_channel \<Rightarrow> sealed_channel \<times> (auth_error + bytes)" where
  "channel_seal a plaintext ch = (case take_nonce (ch_send ch) of
      (d, Err e) \<Rightarrow> (ch\<lparr>ch_send := d\<rparr>, Err e)
    | (d, Ok n) \<Rightarrow> (ch\<lparr>ch_send := d\<rparr>, case aead_encrypt a (sd_key d) n plaintext of None \<Rightarrow> Err CouldNotSeal | Some c \<Rightarrow> Ok c))"

definition channel_open :: "aead \<Rightarrow> bytes \<Rightarrow> sealed_channel \<Rightarrow> sealed_channel \<times> (auth_error + bytes)" where
  "channel_open a sealed ch = (case take_nonce (ch_recv ch) of
      (d, Err e) \<Rightarrow> (ch\<lparr>ch_recv := d\<rparr>, Err e)
    | (d, Ok n) \<Rightarrow> (ch\<lparr>ch_recv := d\<rparr>, case aead_decrypt a (sd_key d) n sealed of None \<Rightarrow> Err DidNotOpen | Some m \<Rightarrow> Ok m))"

record client_handshake =
  ch_eph :: bytes
  ch_eph_pub :: bytes
  ch_nonce :: bytes

definition client_start :: "('z) exchange_ops_scheme \<Rightarrow> bytes \<Rightarrow> bytes \<Rightarrow> client_handshake \<times> bytes" where
  "client_start x eph nc = (let eph_pub = x_public x eph
     in (\<lparr>ch_eph = eph, ch_eph_pub = eph_pub, ch_nonce = nc\<rparr>, HELLO_MAGIC @ eph_pub @ nc))"

definition client_finish :: "ed25519 \<Rightarrow> (bytes \<Rightarrow> bytes) \<Rightarrow> ('z) exchange_ops_scheme \<Rightarrow> bytes \<Rightarrow> bytes \<Rightarrow> client_handshake
    \<Rightarrow> auth_error + sealed_channel" where
  "client_finish ed blake3 x pubkey answer st =
     (if length answer \<noteq> ANSWER_LEN \<or> take 4 answer \<noteq> ANSWER_MAGIC then Err NoAnswer
      else
        (let service_eph = take 32 (drop 4 answer);
             sig = drop 36 answer;
             t = transcript (service_hash_of blake3 pubkey) (ch_eph_pub st) (ch_nonce st) service_eph
         in if \<not> ed_key_ok ed pubkey then Err NotAKey
            else if \<not> verify_strict ed pubkey t sig then Err NotSignedByIt
            else
              (let shared = x_dh x (ch_eph st) service_eph
               in if shared = replicate 32 0 then Err DegenerateExchange
                  else (let (c2s, s2c) = session_keys x shared t in Ok \<lparr>ch_send = new_direction c2s, ch_recv = new_direction s2c\<rparr>))))"

definition is_hello :: "bytes \<Rightarrow> bool" where
  "is_hello payload \<longleftrightarrow> length payload = HELLO_LEN \<and> take 4 payload = HELLO_MAGIC"

definition answer_hello :: "ed25519 \<Rightarrow> (bytes \<Rightarrow> bytes) \<Rightarrow> ('z) exchange_ops_scheme \<Rightarrow> bytes \<Rightarrow> bytes \<Rightarrow> bytes
    \<Rightarrow> auth_error + sealed_channel \<times> bytes" where
  "answer_hello ed blake3 x service_key eph hello =
     (if \<not> is_hello hello then Err NoChallenge
      else
        (let client_eph = take 32 (drop 4 hello);
             nc = drop 36 hello;
             service_eph = x_public x eph;
             t = transcript (service_hash_of blake3 (verifying_key ed service_key)) client_eph nc service_eph;
             sig = ed_sign ed service_key t;
             shared = x_dh x eph client_eph
         in if shared = replicate 32 0 then Err DegenerateExchange
            else (let (c2s, s2c) = session_keys x shared t
                  in Ok (\<lparr>ch_send = new_direction s2c, ch_recv = new_direction c2s\<rparr>, ANSWER_MAGIC @ service_eph @ sig))))"

section \<open>The two ends share a channel\<close>

text \<open>What X25519 promises: keys of 32 bytes, and one secret from both ends.\<close>

definition exchange_ok :: "('z) exchange_ops_scheme \<Rightarrow> bool" where
  "exchange_ok x \<longleftrightarrow> (\<forall>s. length (x_public x s) = 32) \<and> (\<forall>a b. x_dh x a (x_public x b) = x_dh x b (x_public x a))"

fun seal_messages :: "aead \<Rightarrow> bytes list \<Rightarrow> sealed_channel \<Rightarrow> auth_error + bytes list" where
  "seal_messages a [] ch = Ok []"
| "seal_messages a (m # ms) ch = (case channel_seal a m ch of
      (ch', Err e) \<Rightarrow> Err e
    | (ch', Ok c) \<Rightarrow> bind_result (seal_messages a ms ch') (\<lambda>cs. Ok (c # cs)))"

fun open_messages :: "aead \<Rightarrow> bytes list \<Rightarrow> sealed_channel \<Rightarrow> auth_error + bytes list" where
  "open_messages a [] ch = Ok []"
| "open_messages a (c # cs) ch = (case channel_open a c ch of
      (ch', Err e) \<Rightarrow> Err e
    | (ch', Ok m) \<Rightarrow> bind_result (open_messages a cs ch') (\<lambda>ms. Ok (m # ms)))"

lemma sealed_opens:
  assumes "aead_correct a" "seal_messages a ms ch = Ok cs" "ch_recv ch' = ch_send ch"
  shows "open_messages a cs ch' = Ok ms"
  using assms(2,3)
proof (induction ms arbitrary: ch ch' cs)
  case (Cons m ms)
  let ?d = "(ch_send ch)\<lparr>sd_counter := sd_counter (ch_send ch) + 1\<rparr>"
  from Cons.prems(1) obtain n c cs1 where s: "take_nonce (ch_send ch) = (?d, Ok n)" "aead_encrypt a (sd_key (ch_send ch)) n m = Some c"
    "seal_messages a ms (ch\<lparr>ch_send := ?d\<rparr>) = Ok cs1" "cs = c # cs1"
    by (auto simp: channel_seal_def take_nonce_def Let_def split: if_splits option.splits)
  have "aead_decrypt a (sd_key (ch_send ch)) n c = Some m" using assms(1) s(2) by (auto simp: aead_correct_def)
  then have o': "channel_open a c ch' = (ch'\<lparr>ch_recv := ?d\<rparr>, Ok m)" using Cons.prems(2) s(1) by (simp add: channel_open_def)
  have "open_messages a cs1 (ch'\<lparr>ch_recv := ?d\<rparr>) = Ok ms" by (rule Cons.IH [OF s(3)]) simp
  with o' s(4) show ?case by simp
qed simp

lemma hello_parts:
  assumes "exchange_ok x" "client_start x eph nc = (st, hello)" "length nc = 32"
  shows "is_hello hello" "take 32 (drop 4 hello) = x_public x eph" "drop 36 hello = nc"
    "ch_eph st = eph" "ch_eph_pub st = x_public x eph" "ch_nonce st = nc"
  using assms by (auto simp: client_start_def Let_def is_hello_def HELLO_LEN_def HELLO_MAGIC_def ascii_bytes_def exchange_ok_def)

text \<open>
  A client and the service agree. A hello is answered, and the answer opens the session with
  channels that match: what either end seals, the other opens, the same messages in the
  same order. (A shared secret of zeros, which no honest pair of keys gives, is refused at both ends.)
\<close>

theorem service_session_agrees:
  assumes "ed_correct ed" "exchange_ok x" "aead_correct a" "length nc = 32" "x_dh x eph (x_public x eph') \<noteq> replicate 32 0"
    and "client_start x eph nc = (st, hello)"
  shows "\<exists>service client answer. answer_hello ed blake3 x service_key eph' hello = Ok (service, answer)
    \<and> client_finish ed blake3 x (verifying_key ed service_key) answer st = Ok client
    \<and> (\<forall>ms cs. seal_messages a ms client = Ok cs \<longrightarrow> open_messages a cs service = Ok ms)
    \<and> (\<forall>ms cs. seal_messages a ms service = Ok cs \<longrightarrow> open_messages a cs client = Ok ms)"
proof -
  note h = hello_parts [OF assms(2,6,4)]
  let ?pk = "verifying_key ed service_key"
  let ?t = "transcript (service_hash_of blake3 ?pk) (x_public x eph) nc (x_public x eph')"
  let ?shared = "x_dh x eph (x_public x eph')"
  obtain c2s s2c where k: "session_keys x ?shared ?t = (c2s, s2c)" by (cases "session_keys x ?shared ?t")
  have dh: "x_dh x eph' (x_public x eph) = ?shared" "length (x_public x eph') = 32" using assms(2) by (auto simp: exchange_ok_def)
  let ?service = "\<lparr>ch_send = new_direction s2c, ch_recv = new_direction c2s\<rparr>" and ?client = "\<lparr>ch_send = new_direction c2s, ch_recv = new_direction s2c\<rparr>"
  let ?answer = "ANSWER_MAGIC @ x_public x eph' @ ed_sign ed service_key ?t"
  have 1: "answer_hello ed blake3 x service_key eph' hello = Ok (?service, ?answer)"
    using h dh assms(5) k by (simp add: answer_hello_def Let_def)
  have sig: "length (ed_sign ed service_key ?t) = 64" "ed_key_ok ed ?pk" "verify_strict ed ?pk ?t (ed_sign ed service_key ?t)"
    using assms(1) by (auto simp: ed_correct_def)
  have m: "length ANSWER_MAGIC = 4" by (simp add: ANSWER_MAGIC_def ascii_bytes_def)
  have "client_finish ed blake3 x ?pk ?answer st = Ok ?client"
    using h sig dh m assms(5) k by (simp add: client_finish_def ANSWER_LEN_def Let_def)
  moreover have "seal_messages a ms ?client = Ok cs \<Longrightarrow> open_messages a cs ?service = Ok ms"
    "seal_messages a ms ?service = Ok cs \<Longrightarrow> open_messages a cs ?client = Ok ms" for ms cs
    using sealed_opens [OF assms(3), of ms ?client cs ?service] sealed_opens [OF assms(3), of ms ?service cs ?client] by simp_all
  ultimately show ?thesis using 1 by blast
qed

section \<open>Only the service answers\<close>

text \<open>
  The key of a service signs three kinds of messages: registrations, descriptors and the
  transcripts of sessions. None can be taken for another.
\<close>

lemma domains_apart:
  "transcript h ce n se \<noteq> registration_bytes h' t" "transcript h ce n se \<noteq> signed_bytes h' pk rv points"
  "registration_bytes h' t \<noteq> signed_bytes h pk rv points"
proof -
  have "transcript h ce n se ! 14 \<noteq> registration_bytes h' t ! 14"
    by (simp add: transcript_def registration_bytes_def SESSION_DOMAIN_def REGISTER_DOMAIN_def ascii_bytes_def)
  then show "transcript h ce n se \<noteq> registration_bytes h' t" by metis
  have "transcript h ce n se ! 14 \<noteq> signed_bytes h' pk rv points ! 14"
    by (simp add: transcript_def signed_bytes_def SESSION_DOMAIN_def DOMAIN_def ascii_bytes_def)
  then show "transcript h ce n se \<noteq> signed_bytes h' pk rv points" by metis
  have "registration_bytes h' t ! 14 \<noteq> signed_bytes h pk rv points ! 14"
    by (simp add: registration_bytes_def signed_bytes_def REGISTER_DOMAIN_def DOMAIN_def ascii_bytes_def)
  then show "registration_bytes h' t \<noteq> signed_bytes h pk rv points" by metis
qed

lemma transcript_inject:
  assumes "transcript h ce n se = transcript h ce' n' se'" "length ce = length ce'" "length n = length n'"
  shows "ce = ce' \<and> n = n' \<and> se = se'"
  using assms by (simp add: transcript_def)

lemma registration_inject:
  assumes "registration_bytes h t = registration_bytes h' t'" "length h = length h'"
  shows "h = h' \<and> t = t'"
  using assms by (simp add: registration_bytes_def u64_to_le_bytes_inject)

text \<open>
  What the holder of a key signed, as far as the three kinds go: \<open>regs\<close> are the times it
  registered at, \<open>sessions\<close> the exchanges it answered. A signature that verifies under
  the key is one of these: nobody else can make one.
\<close>

definition signs_only :: "ed25519 \<Rightarrow> (bytes \<Rightarrow> bytes) \<Rightarrow> bytes \<Rightarrow> 64 word set \<Rightarrow> (bytes \<times> bytes \<times> bytes) set \<Rightarrow> bool" where
  "signs_only ed blake3 pk regs sessions \<longleftrightarrow> (\<forall>m s. verify_strict ed pk m s \<longrightarrow>
     (\<exists>t\<in>regs. m = registration_bytes (service_hash_of blake3 pk) t)
     \<or> (\<exists>rv points. m = signed_bytes (service_hash_of blake3 pk) pk rv points)
     \<or> (\<exists>(ce, n, se)\<in>sessions. length ce = 32 \<and> length n = 32 \<and> m = transcript (service_hash_of blake3 pk) ce n se))"

text \<open>
  Claim C34. Only the service answers. If a client accepts an answer under the key in the service's
  descriptor, the holder of that key answered this client's hello, with its nonce and its
  ephemeral key, in this session: an answer replayed from another session, a registration or a
  descriptor is not taken for one. And a relay accepts a registration of an address only from the
  holder of the key it names, made within ten minutes of the relay's clock.
\<close>

theorem only_the_service_answers:
  assumes "signs_only ed blake3 pk regs sessions"
    and "length (ch_eph_pub st) = 32" "length (ch_nonce st) = 32"
  shows "(client_finish ed blake3 x pk answer st = Ok ch \<longrightarrow> (ch_eph_pub st, ch_nonce st, take 32 (drop 4 answer)) \<in> sessions)
    \<and> (verify_registration ed blake3 now hash pk t sig = Ok () \<longrightarrow> hash = service_hash_of blake3 pk \<and> t \<in> regs \<and> abs_diff now t \<le> 600)"
proof (intro conjI impI)
  let ?h = "service_hash_of blake3 pk" and ?se = "take 32 (drop 4 answer)"
  assume "client_finish ed blake3 x pk answer st = Ok ch"
  then have "verify_strict ed pk (transcript ?h (ch_eph_pub st) (ch_nonce st) ?se) (drop 36 answer)"
    by (auto simp: client_finish_def Let_def split: if_splits)
  with assms(1) domains_apart(1,2) obtain ce n se where s: "(ce, n, se) \<in> sessions" "length ce = 32" "length n = 32"
    "transcript ?h (ch_eph_pub st) (ch_nonce st) ?se = transcript ?h ce n se"
    unfolding signs_only_def by (smt (verit) case_prodE)
  from transcript_inject [OF s(4)] s(1-3) assms(2,3) show "(ch_eph_pub st, ch_nonce st, ?se) \<in> sessions" by simp
next
  assume "verify_registration ed blake3 now hash pk t sig = Ok ()"
  then have v: "length hash = 20" "hash = service_hash_of blake3 pk" "abs_diff now t \<le> 600" "verify_strict ed pk (registration_bytes hash t) sig"
    by (auto simp: verify_registration_def REGISTRATION_MAX_SKEW_SECS_def split: if_splits)
  then show "hash = service_hash_of blake3 pk" "abs_diff now t \<le> 600" by simp_all
  from v(4) assms(1) domains_apart(1,3) obtain t' where "t' \<in> regs" "registration_bytes hash t = registration_bytes hash t'"
    unfolding signs_only_def v(2) by (smt (verit) case_prodE)
  then show "t \<in> regs" using registration_inject by blast
qed

text \<open>
  An instance: the key \<open>pk\<close> answered one hello and registered once. The Ed25519 of the
  example accepts exactly these two messages.
\<close>

definition sample_pk :: bytes where "sample_pk = replicate 32 7"
definition sample_blake3 :: "bytes \<Rightarrow> bytes" where "sample_blake3 b = take 32 (b @ replicate 32 0)"

definition sample_exchange :: exchange_ops where
  "sample_exchange = \<lparr>x_public = (\<lambda>s. take 32 (s @ replicate 32 0)),
     x_dh = (\<lambda>a b. map2 (+) (take 32 (a @ replicate 32 0)) (take 32 (b @ replicate 32 0))), derive_key = (\<lambda>c m. take 32 (m @ replicate 32 0))\<rparr>"

definition sample_session :: "bytes \<times> bytes \<times> bytes" where
  "sample_session = (replicate 32 1, replicate 32 2, replicate 32 3)"

definition strict_ed :: ed25519 where
  "strict_ed = sample_ed\<lparr>verify_strict := (\<lambda>k m s. m = transcript (service_hash_of sample_blake3 sample_pk) (replicate 32 1) (replicate 32 2) (replicate 32 3)
     \<or> m = registration_bytes (service_hash_of sample_blake3 sample_pk) 100)\<rparr>"

lemma strict_signs_only: "signs_only strict_ed sample_blake3 sample_pk {100} {sample_session}"
  by (auto simp: signs_only_def strict_ed_def sample_session_def)

theorem only_the_service_answers_witness:
  "is_ok (client_finish strict_ed sample_blake3 sample_exchange sample_pk (ANSWER_MAGIC @ replicate 32 3 @ replicate 64 0)
      \<lparr>ch_eph = replicate 32 1, ch_eph_pub = replicate 32 1, ch_nonce = replicate 32 2\<rparr>)
   \<and> (replicate 32 1, replicate 32 2, replicate 32 3) \<in> {sample_session}"
proof -
  let ?st = "\<lparr>ch_eph = replicate 32 1, ch_eph_pub = replicate 32 1, ch_nonce = replicate 32 2\<rparr>"
  let ?answer = "ANSWER_MAGIC @ replicate 32 3 @ replicate 64 0"
  have m: "length ANSWER_MAGIC = 4" by (simp add: ANSWER_MAGIC_def ascii_bytes_def)
  have "x_dh sample_exchange (replicate 32 1) (replicate 32 3) ! 0 \<noteq> replicate 32 0 ! 0"
    by (simp add: sample_exchange_def)
  then have "x_dh sample_exchange (replicate 32 1) (replicate 32 3) \<noteq> replicate 32 0" by metis
  then obtain ch where ch: "client_finish strict_ed sample_blake3 sample_exchange sample_pk ?answer ?st = Ok ch"
    using m by (auto simp: client_finish_def ANSWER_LEN_def Let_def strict_ed_def sample_ed_def sample_pk_def session_keys_def)
  with only_the_service_answers [OF strict_signs_only, of ?st] show ?thesis using m by (simp add: sample_session_def)
qed

lemma map2_add_commute: "map2 (+) xs ys = map2 (+) ys (xs :: bytes)"
  by (rule nth_equalityI) (simp_all add: add.commute min.commute)

lemma sample_exchange_ok: "exchange_ok sample_exchange"
proof -
  have "take 32 (take 32 (s @ replicate 32 0) @ replicate 32 0) = take 32 (s @ replicate 32 (0 :: 8 word))" for s
    by (simp add: min_def)
  then have "x_dh sample_exchange p (x_public sample_exchange q) = map2 (+) (take 32 (p @ replicate 32 0)) (take 32 (q @ replicate 32 0))" for p q
    by (simp add: sample_exchange_def del: take_append)
  then have "x_dh sample_exchange p (x_public sample_exchange q) = x_dh sample_exchange q (x_public sample_exchange p)" for p q
    by (simp only:) (rule map2_add_commute)
  moreover have "length (x_public sample_exchange s) = 32" for s by (simp add: sample_exchange_def min_def)
  ultimately show ?thesis by (simp add: exchange_ok_def)
qed

theorem service_session_agrees_witness:
  "\<exists>service client answer. answer_hello sample_ed sample_blake3 sample_exchange [9] [3] (snd (client_start sample_exchange [1] (replicate 32 2))) = Ok (service, answer)
    \<and> client_finish sample_ed sample_blake3 sample_exchange (verifying_key sample_ed [9]) answer (fst (client_start sample_exchange [1] (replicate 32 2))) = Ok client
    \<and> (\<forall>ms cs. seal_messages sample_aead ms client = Ok cs \<longrightarrow> open_messages sample_aead cs service = Ok ms)"
proof -
  have "x_dh sample_exchange [1] (x_public sample_exchange [3]) ! 0 \<noteq> replicate 32 0 ! 0" by (simp add: sample_exchange_def)
  then have "x_dh sample_exchange [1] (x_public sample_exchange [3]) \<noteq> replicate 32 0" by metis
  moreover have "aead_correct sample_aead" using sample_aead_ideal by (simp add: aead_ideal_def)
  moreover have "length (replicate 32 (2 :: 8 word)) = 32" by simp
  ultimately show ?thesis
    using service_session_agrees [OF sample_ed_correct sample_exchange_ok _ _ _ surjective_pairing] by blast
qed

end
