(* ===== verification/Router.thy ===== *)
theory Router
  imports Connection Service_Auth Exit_Policy Text_Format "HOL-Library.AList"
begin

text \<open>
  The relay at work (\<^verbatim>\<open>hidra-node/src/relay/router.rs\<close>): the table of circuits, the links from
  clients and other relays, control cells and extensions, streams to targets, and the bridges
  of hidden services. Every link is a task; they share the table and the registry of services. A
  link is a record whose \<open>lk_mode\<close> says where its task stands between two awaits, and \<open>link_step\<close> is what
  the task does with one event: a message of the link, of the next hop, of the target or of a
  channel. How the network answers in between is an argument (\<open>link_io\<close>); what leaves the relay
  is a list of effects. Where the code gives up the lock of the table between two uses of it, the
  step ends too, so that links interleave as tasks do.

  The lemmas show that a relay dials only what its policy permits, that the table stays
  bounded and no link can harm a circuit whose cells it cannot make, and that no count of a
  key is used for two cells.
\<close>

section \<open>The table of circuits\<close>

text \<open>Instants are nanoseconds since some start.\<close>

abbreviation secs :: "nat \<Rightarrow> nat" where
  "secs n \<equiv> n * 1000000000"

definition CONTROL_IDLE :: nat where "CONTROL_IDLE = secs 60"
definition BUILT_CIRCUIT_IDLE :: nat where "BUILT_CIRCUIT_IDLE = secs 330"
definition MAX_HANDSHAKE_FRAME :: nat where "MAX_HANDSHAKE_FRAME = 4096"
definition CIRCUIT_TTL :: nat where "CIRCUIT_TTL = secs 330"
definition MAX_CIRCUITS :: nat where "MAX_CIRCUITS = 65536"
definition MAX_DNS_ANSWERS :: nat where "MAX_DNS_ANSWERS = 16"

datatype router_error =
    OneCircuit
  | AtCapacity
  | IdInUse
  | UnknownCircuit u32
  | Layer onion_error
  | CommandCodec
  | HopRefused
  | HopUnreachable
  | HopHandshake
  | HopSilent
  | HopUnexpected message
  | LinkBroken

record circuit_entry =
  ce_layer :: layer_cipher
  ce_last_used :: nat

type_synonym circuits = "(u32 \<times> circuit_entry) list"

definition create_circuit :: "nat \<Rightarrow> u32 \<Rightarrow> layer_cipher \<Rightarrow> circuits \<Rightarrow> circuits \<times> (router_error + unit)" where
  "create_circuit now cid layer table =
     (let kept = filter (\<lambda>(_, e). now - ce_last_used e < CIRCUIT_TTL) table
      in if MAX_CIRCUITS \<le> length kept then (kept, Err AtCapacity)
         else if map_of kept cid \<noteq> None then (kept, Err IdInUse)
         else ((cid, \<lparr>ce_layer = layer, ce_last_used = now\<rparr>) # kept, Ok ()))"

definition open_control :: "aead \<Rightarrow> codec \<Rightarrow> nat \<Rightarrow> u32 \<Rightarrow> bytes \<Rightarrow> circuits \<Rightarrow> circuits \<times> (router_error + layer_header \<times> bytes)" where
  "open_control a c now cid data table = (case map_of table cid of
      None \<Rightarrow> (table, Err (UnknownCircuit cid))
    | Some entry \<Rightarrow>
        (let (layer, r) = open_forward_cell a c (ce_layer entry) data
         in (AList.update cid \<lparr>ce_layer = layer, ce_last_used = now\<rparr> table, map_sum Layer id r)))"

definition seal_reply :: "aead \<Rightarrow> nat \<Rightarrow> u32 \<Rightarrow> bytes \<Rightarrow> circuits \<Rightarrow> circuits \<times> (router_error + bytes)" where
  "seal_reply a now cid reply table = (case map_of table cid of
      None \<Rightarrow> (table, Err (UnknownCircuit cid))
    | Some entry \<Rightarrow>
        (let (layer, r) = seal_backward a (ce_layer entry) reply
         in (AList.update cid \<lparr>ce_layer = layer, ce_last_used = now\<rparr> table, map_sum Layer id r)))"

definition open_stream :: "aead \<Rightarrow> codec \<Rightarrow> u32 \<Rightarrow> bytes \<Rightarrow> circuits \<Rightarrow> circuits \<times> (router_error + layer_cipher \<times> layer_header \<times> bytes)" where
  "open_stream a c cid data table = (case map_of table cid of
      None \<Rightarrow> (table, Err (UnknownCircuit cid))
    | Some entry \<Rightarrow> (case open_forward_cell a c (ce_layer entry) data of
        (layer, Err e) \<Rightarrow> (AList.update cid (entry\<lparr>ce_layer := layer\<rparr>) table, Err (Layer e))
      | (layer, Ok (header, inner)) \<Rightarrow> (AList.delete cid table, Ok (layer, header, inner))))"

section \<open>Links\<close>

datatype link_kind = Client_Link | Relay_Link

text \<open>
  Where the task of a link stands: waiting for a message (\<open>Control\<close>), about to seal a reply it has (\<open>Answering\<close>),
  holding the opened cell that begins a stream (\<open>Begun\<close>), in \<^verbatim>\<open>relay_streaming_loop\<close>, in \<^verbatim>\<open>exit_streaming_loop\<close>,
  waiting for clients of a registered service, in \<^verbatim>\<open>bridge\<close> on the service's circuit or on a client's, or over.
\<close>

datatype link_mode =
    Control
  | Answering u32 bytes
  | Begun u32 layer_cipher layer_header bytes
  | Relaying u32 layer_cipher
  | Exiting u32 layer_cipher
  | Waiting u32 layer_cipher bytes
  | Serving u32 layer_cipher bytes
  | Visiting u32 layer_cipher
  | Ended "router_error option"

record link =
  lk_kind :: link_kind
  lk_session_key :: "bytes option"
  lk_next :: "socket_addr option"
  lk_next_addr :: "socket_addr option"
  lk_pending :: "socket_addr option"
  lk_built :: bool
  lk_mode :: link_mode

datatype link_event =
    Received message
  | Link_Down
  | Idle nat
  | Proceed
  | From_Next message
  | Next_Down
  | From_Target bytes
  | Target_Down
  | Client_Comes
  | Senders_Gone
  | From_Other bytes
  | Other_Gone

text \<open>
  What a step shows outside: messages on the link and to the next hop, connections opened (to a
  hop, for an extension, to a target), frames carried to a hop, bytes for the target or for the
  other end of a bridge. \<open>Sealed\<close> records, for the proofs, the key and the count a cell was sealed with.
\<close>

datatype effect =
    Sent message
  | Sent_Next message
  | Hop_Dialled socket_addr
  | Carried socket_addr "bytes list"
  | Exit_Dialled socket_addr
  | To_Target bytes
  | To_Other bytes
  | Sealed bytes "64 word"

text \<open>The relay's settings and the parameters: ciphers, codecs, key derivation, name lookups, the wording of errors.\<close>

datatype connect_error = Refused_By resolve_error | Did_Not_Resolve | Os_Error string | Timed_Out

record router_env =
  e_aead :: aead
  e_codec :: codec
  e_hkdf :: "bytes \<Rightarrow> bytes \<Rightarrow> bytes"
  e_ser :: "relay_command \<Rightarrow> bytes option"
  e_deser :: "bytes \<Rightarrow> relay_command option"
  e_policy :: exit_policy
  e_lookup :: "string \<Rightarrow> u16 \<Rightarrow> string + socket_addr list"
  e_ed :: ed25519
  e_blake3 :: "bytes \<Rightarrow> bytes"
  e_says :: "connect_error \<Rightarrow> string"
  e_says_auth :: "auth_error \<Rightarrow> string"
  e_says_hop :: "router_error \<Rightarrow> string"

text \<open>
  How the network answers during one step: the clocks, whether the \<open>i\<close>th message of the step goes out on
  the link and to the next hop, whether a hop is reached and completes the link's handshake, what
  it replies, the outcome of connecting to a target and of writing to it, and
  whether a service's task still takes clients.
\<close>

record link_io =
  io_now :: nat
  io_wall :: "64 word"
  io_send :: "nat \<Rightarrow> bool"
  io_send_next :: bool
  io_dial :: "socket_addr \<Rightarrow> bool"
  io_handshake :: "socket_addr \<Rightarrow> bool"
  io_reply :: "message option"
  io_carry :: "router_error + bytes"
  io_connect :: "socket_addr \<Rightarrow> connect_error + unit"
  io_write :: bool
  io_takes :: bool

section \<open>The next hop and extensions\<close>

definition connect_to_next :: "router_env \<Rightarrow> link_io \<Rightarrow> socket_addr \<Rightarrow> effect list \<times> (router_error + unit)" where
  "connect_to_next env io addr =
     (if \<not> permits_hop (e_policy env) addr then ([], Err HopRefused)
      else ([Hop_Dialled addr],
        if \<not> io_dial io addr then Err HopUnreachable
        else if \<not> io_handshake io addr then Err HopHandshake
        else Ok ()))"

definition ensure_next :: "router_env \<Rightarrow> link_io \<Rightarrow> socket_addr \<Rightarrow> link \<Rightarrow> link \<times> effect list \<times> (router_error + unit)" where
  "ensure_next env io hop lk =
     (if lk_next lk = None \<or> lk_next_addr lk \<noteq> Some hop
      then (case connect_to_next env io hop of
          (es, Err e) \<Rightarrow> (lk, es, Err e)
        | (es, Ok _) \<Rightarrow> (lk\<lparr>lk_next := Some hop, lk_next_addr := Some hop\<rparr>, es, Ok ()))
      else (lk, [], Ok ()))"

definition read_next_relay :: "message option \<Rightarrow> router_error + bytes" where
  "read_next_relay m = (case m of
      None \<Rightarrow> Err HopSilent
    | Some (Relay _ data) \<Rightarrow> Ok data
    | Some other \<Rightarrow> Err (HopUnexpected other))"

text \<open>
  A message to the next hop and its reply: the part the forwarding of a control cell and of
  the opening of a stream share.
\<close>

definition ask_next :: "router_env \<Rightarrow> link_io \<Rightarrow> socket_addr \<Rightarrow> message \<Rightarrow> link \<Rightarrow> link \<times> effect list \<times> (router_error + bytes)" where
  "ask_next env io hop msg lk = (case ensure_next env io hop lk of
      (lk', es, Err e) \<Rightarrow> (lk', es, Err e)
    | (lk', es, Ok _) \<Rightarrow>
        (if \<not> io_send_next io then (lk', es, Err LinkBroken)
         else (lk', es @ [Sent_Next msg], read_next_relay (io_reply io))))"

definition encode_command :: "router_env \<Rightarrow> relay_command \<Rightarrow> router_error + bytes" where
  "encode_command env cmd = (case e_ser env cmd of None \<Rightarrow> Err CommandCodec | Some b \<Rightarrow> Ok b)"

definition PROTO_NOISE_SESSION :: u8 where "PROTO_NOISE_SESSION = 2"
definition PROTO_RELAY_LINK :: u8 where "PROTO_RELAY_LINK = 3"

definition open_and_carry :: "link_io \<Rightarrow> socket_addr \<Rightarrow> bytes \<Rightarrow> effect list \<times> (router_error + bytes)" where
  "open_and_carry io to_addr msg_a =
     (if \<not> io_dial io to_addr then ([Hop_Dialled to_addr], Err HopUnreachable)
      else ([Hop_Dialled to_addr, Carried to_addr [[PROTO_NOISE_SESSION], msg_a]], io_carry io))"

definition finish_carry :: "link_io \<Rightarrow> socket_addr \<Rightarrow> bytes \<Rightarrow> bytes \<Rightarrow> effect list \<times> (router_error + bytes)" where
  "finish_carry io hop msg_c sealed_create = ([Carried hop [msg_c, sealed_create]], io_carry io)"

definition legacy_answer :: bytes where
  "legacy_answer = ascii_bytes ''Received, agent''"

definition handle_control :: "router_env \<Rightarrow> link_io \<Rightarrow> bytes \<Rightarrow> link \<Rightarrow> link \<times> effect list \<times> (router_error + bytes)" where
  "handle_control env io inner lk = (case e_deser env inner of
      Some (Extend to_addr frame) \<Rightarrow>
        (if MAX_HANDSHAKE_FRAME < length frame
         then (lk, [], encode_command env (ExtendError ''extension handshake frame too large''))
         else if \<not> permits_hop (e_policy env) to_addr
         then (lk, [], encode_command env (ExtendError ''next hop refused by relay policy''))
         else (case open_and_carry io to_addr frame of
             (es, Ok msg_b) \<Rightarrow> (lk\<lparr>lk_pending := Some to_addr\<rparr>, es, encode_command env (Extended msg_b))
           | (es, Err e) \<Rightarrow> (lk, es, encode_command env (ExtendError (e_says_hop env e)))))
    | Some (ExtendFinish frame_c frame_create) \<Rightarrow>
        (if MAX_HANDSHAKE_FRAME < length frame_c \<or> MAX_HANDSHAKE_FRAME < length frame_create
         then (lk, [], encode_command env (ExtendError ''extension handshake frame too large''))
         else (case lk_pending lk of
             Some hop \<Rightarrow> (case finish_carry io hop frame_c frame_create of
                 (es, Ok created) \<Rightarrow> (lk\<lparr>lk_pending := None\<rparr>, es, encode_command env (ExtendDone created))
               | (es, Err e) \<Rightarrow> (lk\<lparr>lk_pending := None\<rparr>, es, encode_command env (ExtendError (e_says_hop env e))))
           | None \<Rightarrow> (lk, [], encode_command env (ExtendError ''no extension is in progress''))))
    | _ \<Rightarrow> (lk, [], Ok legacy_answer))"

section \<open>Cells of a stream\<close>

definition seal_mark :: "layer_cipher \<Rightarrow> effect" where
  "seal_mark l = Sealed (dir_key (backward l)) (dir_next (backward l))"

text \<open>A body sealed with the layer of a stream and sent on the link.\<close>

definition send_sealed :: "router_env \<Rightarrow> bool \<Rightarrow> u32 \<Rightarrow> layer_cipher \<Rightarrow> bytes \<Rightarrow> layer_cipher \<times> effect list \<times> (router_error + unit)" where
  "send_sealed env goes cid l body = (case seal_backward (e_aead env) l body of
      (l', Err e) \<Rightarrow> (l', [], Err (Layer e))
    | (l', Ok sealed) \<Rightarrow> (if goes then (l', [seal_mark l, Sent (Relay cid sealed)], Ok ()) else (l', [seal_mark l], Err LinkBroken)))"

definition reply :: "router_env \<Rightarrow> bool \<Rightarrow> u32 \<Rightarrow> layer_cipher \<Rightarrow> relay_command \<Rightarrow> layer_cipher \<times> effect list \<times> (router_error + unit)" where
  "reply env goes cid l cmd = (case bind_result (encode_command env cmd) (\<lambda>b. map_sum Layer id (pad_cell b)) of
      Err e \<Rightarrow> (l, [], Err e)
    | Ok body \<Rightarrow> send_sealed env goes cid l body)"

fun reply_pieces :: "router_env \<Rightarrow> (nat \<Rightarrow> bool) \<Rightarrow> nat \<Rightarrow> u32 \<Rightarrow> layer_cipher \<Rightarrow> bytes list \<Rightarrow> layer_cipher \<times> effect list \<times> (router_error + unit)" where
  "reply_pieces env goes i cid l [] = (l, [], Ok ())"
| "reply_pieces env goes i cid l (p # ps) = (case reply env (goes i) cid l (Data p) of
      (l', es, Err e) \<Rightarrow> (l', es, Err e)
    | (l', es, Ok _) \<Rightarrow> (let (l'', es', r) = reply_pieces env goes (Suc i) cid l' ps in (l'', es @ es', r)))"

definition reply_data :: "router_env \<Rightarrow> (nat \<Rightarrow> bool) \<Rightarrow> u32 \<Rightarrow> layer_cipher \<Rightarrow> bytes \<Rightarrow> layer_cipher \<times> effect list \<times> (router_error + unit)" where
  "reply_data env goes cid l data = reply_pieces env goes 0 cid l (chunks MAX_DATA data)"

definition open_command :: "router_env \<Rightarrow> layer_cipher \<Rightarrow> bytes \<Rightarrow> layer_cipher \<times> (router_error + relay_command)" where
  "open_command env l data = (case open_forward (e_aead env) l data of
      (l', Err e) \<Rightarrow> (l', Err (Layer e))
    | (l', Ok body) \<Rightarrow> (l', case unpad_cell body of
          Err e \<Rightarrow> Err (Layer e)
        | Ok b \<Rightarrow> (case e_deser env b of None \<Rightarrow> Err CommandCodec | Some cmd \<Rightarrow> Ok cmd)))"

section \<open>The exit\<close>

fun try_addrs :: "(socket_addr \<Rightarrow> connect_error + unit) \<Rightarrow> socket_addr list \<Rightarrow> connect_error \<Rightarrow> socket_addr list \<times> (connect_error + socket_addr)" where
  "try_addrs connect [] err = ([], Err err)"
| "try_addrs connect (a # as) err = (case connect a of
      Ok _ \<Rightarrow> ([a], Ok a)
    | Err e \<Rightarrow> (let (tried, r) = try_addrs connect as e in (a # tried, r)))"

definition exit_connect :: "(socket_addr \<Rightarrow> connect_error + unit) \<Rightarrow> resolve_error + socket_addr list \<Rightarrow> socket_addr list \<times> (connect_error + socket_addr)" where
  "exit_connect connect resolved = (case resolved of
      Err why \<Rightarrow> ([], Err (Refused_By why))
    | Ok addrs \<Rightarrow> try_addrs connect addrs Did_Not_Resolve)"

definition show_ip :: "ip_addr \<Rightarrow> string" where
  "show_ip ip = (case ip of V4 a \<Rightarrow> show_ipv4 a | V6 a \<Rightarrow> show_ipv6 a)"

definition dns_answer :: "router_env \<Rightarrow> string \<Rightarrow> string list" where
  "dns_answer env hostname = (case e_lookup env hostname 0 of
      Ok addrs \<Rightarrow> map show_ip (take MAX_DNS_ANSWERS (filter_answer (e_policy env) (map sa_ip addrs)))
    | Err _ \<Rightarrow> [])"

text \<open>The registry of services: the task that takes the clients of a service, by the service's hash.\<close>

type_synonym registry = "(bytes \<times> nat) list"

definition then_end :: "layer_cipher \<times> effect list \<times> (router_error + unit) \<Rightarrow> link_mode \<times> effect list" where
  "then_end r = (case r of (l, es, Err e) \<Rightarrow> (Ended (Some e), es) | (l, es, Ok _) \<Rightarrow> (Ended None, es))"

definition then_mode :: "(layer_cipher \<Rightarrow> link_mode) \<Rightarrow> layer_cipher \<times> effect list \<times> (router_error + unit) \<Rightarrow> link_mode \<times> effect list" where
  "then_mode m r = (case r of (l, es, Err e) \<Rightarrow> (Ended (Some e), es) | (l, es, Ok _) \<Rightarrow> (m l, es))"

text \<open>
  \<^verbatim>\<open>handle_exit_command\<close> up to the loop it enters, for the link \<open>me\<close>: the registry, and the mode and the
  effects that follow.
\<close>

definition handle_exit_command :: "router_env \<Rightarrow> link_io \<Rightarrow> nat \<Rightarrow> u32 \<Rightarrow> layer_cipher \<Rightarrow> relay_command \<Rightarrow> registry \<Rightarrow> registry \<times> link_mode \<times> effect list" where
  "handle_exit_command env io me cid l cmd reg =
     (let say = (\<lambda>c. reply env (io_send io 0) cid l c) in
      case cmd of
        Connect host port \<Rightarrow>
          (let (tried, r) = exit_connect (io_connect io) (resolve_target (e_lookup env) (e_policy env) host port);
               (m, es) = (case r of
                   Err e \<Rightarrow> then_end (say (ConnectFailed (e_says env e)))
                 | Ok _ \<Rightarrow> then_mode (Exiting cid) (say Connected))
           in (reg, m, map Exit_Dialled tried @ es))
      | RegisterService hash pubkey timestamp signature \<Rightarrow>
          (case verify_registration (e_ed env) (e_blake3 env) (io_wall io) hash pubkey timestamp signature of
             Err e \<Rightarrow> (reg, then_end (say (ConnectFailed (e_says_auth env e))))
           | Ok _ \<Rightarrow> (AList.update hash me reg, then_mode (\<lambda>l'. Waiting cid l' hash) (say ServiceRegistered)))
      | ConnectService hash \<Rightarrow>
          (case map_of reg hash of
             None \<Rightarrow> (reg, then_end (say (ConnectFailed ''service not found at this intro point'')))
           | Some _ \<Rightarrow>
               (if \<not> io_takes io then (reg, then_end (say (ConnectFailed ''service handler disconnected'')))
                else (reg, then_mode (Visiting cid) (say ServiceConnected))))
      | ResolveDns hostname \<Rightarrow> (reg, then_end (say (DnsResolved (dns_answer env hostname))))
      | _ \<Rightarrow> (reg, Ended None, []))"

section \<open>The loops of a stream\<close>

text \<open>One turn of \<^verbatim>\<open>exit_streaming_loop\<close>, of \<^verbatim>\<open>relay_streaming_loop\<close> and of \<^verbatim>\<open>bridge\<close>: the mode after it and its effects.\<close>

definition exit_turn :: "router_env \<Rightarrow> link_io \<Rightarrow> u32 \<Rightarrow> layer_cipher \<Rightarrow> link_event \<Rightarrow> link_mode \<times> effect list" where
  "exit_turn env io cid l ev = (case ev of
      Received (Relay _ data) \<Rightarrow> (case open_command env l data of
          (l', Err e) \<Rightarrow> (Ended (Some e), [])
        | (l', Ok (Data payload)) \<Rightarrow> (if io_write io then (Exiting cid l', [To_Target payload]) else (Ended None, []))
        | (l', Ok End) \<Rightarrow> (Ended None, [])
        | (l', Ok _) \<Rightarrow> (Exiting cid l', []))
    | Received _ \<Rightarrow> (Ended None, [])
    | Link_Down \<Rightarrow> (Ended None, [])
    | From_Target data \<Rightarrow>
        (if data = [] then (case reply env (io_send io 0) cid l End of (_, es, _) \<Rightarrow> (Ended None, es))
         else then_mode (Exiting cid) (reply_data env (io_send io) cid l data))
    | Target_Down \<Rightarrow> (Ended None, [])
    | _ \<Rightarrow> (Exiting cid l, []))"

definition relay_turn :: "router_env \<Rightarrow> link_io \<Rightarrow> u32 \<Rightarrow> layer_cipher \<Rightarrow> link_event \<Rightarrow> link_mode \<times> effect list" where
  "relay_turn env io cid l ev = (case ev of
      Received (Relay _ data) \<Rightarrow> (case open_forward (e_aead env) l data of
          (l', Err e) \<Rightarrow> (Ended (Some (Layer e)), [])
        | (l', Ok opened) \<Rightarrow>
            (if io_send_next io then (Relaying cid l', [Sent_Next (Relay cid opened)]) else (Ended (Some LinkBroken), [])))
    | Received _ \<Rightarrow> (Ended None, [])
    | Link_Down \<Rightarrow> (Ended None, [])
    | From_Next (Relay _ data) \<Rightarrow> then_mode (Relaying cid) (send_sealed env (io_send io 0) cid l data)
    | From_Next _ \<Rightarrow> (Ended None, [])
    | Next_Down \<Rightarrow> (Ended None, [])
    | _ \<Rightarrow> (Relaying cid l, []))"

text \<open>\<open>stay\<close> is the mode while the bridge lasts, \<open>over\<close> the one after it, by its result.\<close>

definition bridge_turn :: "router_env \<Rightarrow> link_io \<Rightarrow> (layer_cipher \<Rightarrow> link_mode) \<Rightarrow> (router_error option \<Rightarrow> layer_cipher \<Rightarrow> link_mode)
    \<Rightarrow> u32 \<Rightarrow> layer_cipher \<Rightarrow> link_event \<Rightarrow> link_mode \<times> effect list" where
  "bridge_turn env io stay over cid l ev = (case ev of
      Received (Relay _ data) \<Rightarrow> (case open_command env l data of
          (l', Err e) \<Rightarrow> (over (Some e) l', [])
        | (l', Ok (Data payload)) \<Rightarrow> (if io_takes io then (stay l', [To_Other payload]) else (over None l', []))
        | (l', Ok End) \<Rightarrow> (over None l', [])
        | (l', Ok _) \<Rightarrow> (stay l', []))
    | Received _ \<Rightarrow> (over None l, [])
    | Link_Down \<Rightarrow> (over None l, [])
    | From_Other payload \<Rightarrow> (case reply_data env (io_send io) cid l payload of
          (l', es, Err e) \<Rightarrow> (over (Some e) l', es)
        | (l', es, Ok _) \<Rightarrow> (stay l', es))
    | Other_Gone \<Rightarrow> (over None l, [])
    | _ \<Rightarrow> (stay l, []))"

section \<open>A new link\<close>

text \<open>
  The first byte of a connection (\<^verbatim>\<open>network/listener.rs\<close>) says what it is: a client's session, a
  relay's link, or neither, and then it is dropped.
\<close>

definition link_kind_of :: "u8 \<Rightarrow> link_kind option" where
  "link_kind_of proto_byte =
     (if proto_byte = PROTO_NOISE_SESSION then Some Client_Link
      else if proto_byte = PROTO_RELAY_LINK then Some Relay_Link
      else None)"

definition new_link :: "link_kind \<Rightarrow> bytes option \<Rightarrow> link" where
  "new_link kind key = \<lparr>lk_kind = kind, lk_session_key = key, lk_next = None, lk_next_addr = None, lk_pending = None,
     lk_built = False, lk_mode = Control\<rparr>"

text \<open>
  \<^verbatim>\<open>handle_link\<close>: the responder's side of the handshake with the peer's frames, \<open>None\<close> when one does not arrive in
  time. The link after it, with the ciphers it sends and receives by, and the frame sent.
\<close>

definition handle_link :: "('z) noise_ops_scheme \<Rightarrow> bytes \<Rightarrow> bytes \<Rightarrow> bytes \<Rightarrow> link_kind \<Rightarrow> bytes option \<Rightarrow> (bytes \<Rightarrow> bytes option)
    \<Rightarrow> noise_error option + link \<times> cipher_state \<times> cipher_state" where
  "handle_link ops secret e kem_seed kind frame_a frame_c = (case frame_a of
      None \<Rightarrow> Err None
    | Some msg_a \<Rightarrow> (case bind_result (read_message_a ops msg_a (new_handshake ops Responder secret)) (write_message_b ops e kem_seed) of
        Err why \<Rightarrow> Err (Some why)
      | Ok (hs, msg_b) \<Rightarrow> (case frame_c msg_b of
          None \<Rightarrow> Err None
        | Some msg_c \<Rightarrow> (case read_message_c ops msg_c hs of
            Err why \<Rightarrow> Err (Some why)
          | Ok hs \<Rightarrow>
              (let (send_cipher, recv_cipher) = into_transport ops hs
               in case kind of
                   Client_Link \<Rightarrow> (case session_key recv_cipher of
                       Err why \<Rightarrow> Err (Some why)
                     | Ok key \<Rightarrow> Ok (new_link kind (Some key), send_cipher, recv_cipher))
                 | Relay_Link \<Rightarrow> Ok (new_link kind None, send_cipher, recv_cipher))))))"

section \<open>A step of a link\<close>

record shared =
  sh_circuits :: circuits
  sh_registry :: registry

definition idle_limit :: "link \<Rightarrow> nat" where
  "idle_limit lk = (if lk_built lk \<and> lk_pending lk = None then BUILT_CIRCUIT_IDLE else CONTROL_IDLE)"

definition pong :: bytes where
  "pong = ascii_bytes ''HidraPong''"

definition answer_here :: "router_env \<Rightarrow> link_io \<Rightarrow> bytes \<Rightarrow> link \<Rightarrow> link \<times> effect list \<times> (router_error + bytes)" where
  "answer_here env io inner lk = (case unpad_cell inner of
      Err e \<Rightarrow> (lk, [], Err (Layer e))
    | Ok command \<Rightarrow> (case handle_control env io command lk of
        (lk', es, r) \<Rightarrow> (lk', es, bind_result r (\<lambda>answer. map_sum Layer id (pad_cell answer)))))"

definition relay_cell :: "router_env \<Rightarrow> link_io \<Rightarrow> u32 \<Rightarrow> bytes \<Rightarrow> link \<Rightarrow> circuits \<Rightarrow> link \<times> circuits \<times> effect list" where
  "relay_cell env io cid data lk table = (case open_control (e_aead env) (e_codec env) (io_now io) cid data table of
      (table', Err e) \<Rightarrow> (lk\<lparr>lk_built := True, lk_mode := Ended (Some e)\<rparr>, table', [])
    | (table', Ok (header, inner)) \<Rightarrow>
        (case (case next_hop header of
             Some hop \<Rightarrow> ask_next env io hop (Relay cid inner) (lk\<lparr>lk_built := True\<rparr>)
           | None \<Rightarrow> answer_here env io inner (lk\<lparr>lk_built := True\<rparr>)) of
           (lk', es, Err e) \<Rightarrow> (lk'\<lparr>lk_mode := Ended (Some e)\<rparr>, table', es)
         | (lk', es, Ok answer) \<Rightarrow> (lk'\<lparr>lk_mode := Answering cid answer\<rparr>, table', es)))"

definition make_circuit :: "router_env \<Rightarrow> link_io \<Rightarrow> u32 \<Rightarrow> link \<Rightarrow> circuits \<Rightarrow> link \<times> circuits \<times> effect list" where
  "make_circuit env io cid lk table = (case lk_session_key lk of
      None \<Rightarrow> (lk\<lparr>lk_mode := Ended (Some OneCircuit)\<rparr>, table, [])
    | Some key \<Rightarrow> (case create_circuit (io_now io) cid (new_layer (e_hkdf env) key) table of
        (table', Err e) \<Rightarrow> (lk\<lparr>lk_session_key := None, lk_mode := Ended (Some e)\<rparr>, table', [])
      | (table', Ok _) \<Rightarrow>
          (if io_send io 0 then (lk\<lparr>lk_session_key := None, lk_built := True\<rparr>, table', [Sent (CircuitCreated cid)])
           else (lk\<lparr>lk_session_key := None, lk_built := True, lk_mode := Ended (Some LinkBroken)\<rparr>, table', []))))"

definition control_turn :: "router_env \<Rightarrow> link_io \<Rightarrow> link_event \<Rightarrow> link \<Rightarrow> circuits \<Rightarrow> link \<times> circuits \<times> effect list" where
  "control_turn env io ev lk table = (case ev of
      Received msg \<Rightarrow> (case msg of
          CreateCircuit cid \<Rightarrow>
            (if lk_kind lk = Client_Link then make_circuit env io cid lk table else (lk\<lparr>lk_mode := Ended None\<rparr>, table, []))
        | Relay cid data \<Rightarrow> relay_cell env io cid data lk table
        | StreamBegin cid data \<Rightarrow> (case open_stream (e_aead env) (e_codec env) cid data table of
              (table', Err e) \<Rightarrow> (lk\<lparr>lk_mode := Ended (Some e)\<rparr>, table', [])
            | (table', Ok (layer, header, inner)) \<Rightarrow> (lk\<lparr>lk_mode := Begun cid layer header inner\<rparr>, table', []))
        | Ping _ \<Rightarrow>
            (if lk_kind lk = Client_Link
             then (if io_send io 0 then (lk, table, [Sent (Pong pong)]) else (lk\<lparr>lk_mode := Ended (Some LinkBroken)\<rparr>, table, []))
             else (lk\<lparr>lk_mode := Ended None\<rparr>, table, []))
        | _ \<Rightarrow> (lk\<lparr>lk_mode := Ended None\<rparr>, table, []))
    | Link_Down \<Rightarrow> (lk\<lparr>lk_mode := Ended None\<rparr>, table, [])
    | Idle n \<Rightarrow> (if idle_limit lk \<le> n then (lk\<lparr>lk_mode := Ended None\<rparr>, table, []) else (lk, table, []))
    | _ \<Rightarrow> (lk, table, []))"

definition send_answer :: "router_env \<Rightarrow> link_io \<Rightarrow> u32 \<Rightarrow> bytes \<Rightarrow> circuits \<Rightarrow> link_mode \<times> circuits \<times> effect list" where
  "send_answer env io cid answer table = (case seal_reply (e_aead env) (io_now io) cid answer table of
      (table', Err e) \<Rightarrow> (Ended (Some e), table', [])
    | (table', Ok sealed) \<Rightarrow>
        (let mark = seal_mark (ce_layer (the (map_of table cid)))
         in if io_send io 0 then (Control, table', [mark, Sent (Relay cid sealed)]) else (Ended (Some LinkBroken), table', [mark])))"

definition begin_stream :: "router_env \<Rightarrow> link_io \<Rightarrow> nat \<Rightarrow> u32 \<Rightarrow> layer_cipher \<Rightarrow> layer_header \<Rightarrow> bytes \<Rightarrow> link \<Rightarrow> registry
    \<Rightarrow> link \<times> registry \<times> effect list" where
  "begin_stream env io me cid l header inner lk reg = (case next_hop header of
      Some hop \<Rightarrow> (case ask_next env io hop (StreamBegin cid inner) lk of
          (lk', es, Err e) \<Rightarrow> (lk'\<lparr>lk_mode := Ended (Some e)\<rparr>, reg, es)
        | (lk', es, Ok answer) \<Rightarrow> (case then_mode (Relaying cid) (send_sealed env (io_send io 0) cid l answer) of
            (m, es') \<Rightarrow> (lk'\<lparr>lk_mode := m\<rparr>, reg, es @ es')))
    | None \<Rightarrow> (case unpad_cell inner of
          Err e \<Rightarrow> (lk\<lparr>lk_mode := Ended (Some (Layer e))\<rparr>, reg, [])
        | Ok b \<Rightarrow> (case e_deser env b of
            None \<Rightarrow> (lk\<lparr>lk_mode := Ended (Some CommandCodec)\<rparr>, reg, [])
          | Some cmd \<Rightarrow> (case handle_exit_command env io me cid l cmd reg of
              (reg', m, es) \<Rightarrow> (lk\<lparr>lk_mode := m\<rparr>, reg', es)))))"

definition link_step :: "router_env \<Rightarrow> link_io \<Rightarrow> nat \<Rightarrow> link_event \<Rightarrow> link \<Rightarrow> shared \<Rightarrow> link \<times> shared \<times> effect list" where
  "link_step env io me ev lk sh = (case lk_mode lk of
      Control \<Rightarrow> (case control_turn env io ev lk (sh_circuits sh) of (lk', table, es) \<Rightarrow> (lk', sh\<lparr>sh_circuits := table\<rparr>, es))
    | Answering cid answer \<Rightarrow>
        (if ev = Proceed then (case send_answer env io cid answer (sh_circuits sh) of
             (m, table, es) \<Rightarrow> (lk\<lparr>lk_mode := m\<rparr>, sh\<lparr>sh_circuits := table\<rparr>, es))
         else (lk, sh, []))
    | Begun cid l header inner \<Rightarrow>
        (if ev = Proceed then (case begin_stream env io me cid l header inner lk (sh_registry sh) of
             (lk', reg, es) \<Rightarrow> (lk', sh\<lparr>sh_registry := reg\<rparr>, es))
         else (lk, sh, []))
    | Relaying cid l \<Rightarrow> (case relay_turn env io cid l ev of (m, es) \<Rightarrow> (lk\<lparr>lk_mode := m\<rparr>, sh, es))
    | Exiting cid l \<Rightarrow> (case exit_turn env io cid l ev of (m, es) \<Rightarrow> (lk\<lparr>lk_mode := m\<rparr>, sh, es))
    | Waiting cid l hash \<Rightarrow> (case ev of
          Client_Comes \<Rightarrow> (lk\<lparr>lk_mode := Serving cid l hash\<rparr>, sh, [])
        | Senders_Gone \<Rightarrow> (lk\<lparr>lk_mode := Ended None\<rparr>, sh\<lparr>sh_registry := AList.delete hash (sh_registry sh)\<rparr>, [])
        | _ \<Rightarrow> (lk, sh, []))
    | Serving cid l hash \<Rightarrow> (case bridge_turn env io (\<lambda>l. Serving cid l hash) (\<lambda>_ l. Waiting cid l hash) cid l ev of
          (m, es) \<Rightarrow> (lk\<lparr>lk_mode := m\<rparr>, sh, es))
    | Visiting cid l \<Rightarrow> (case bridge_turn env io (Visiting cid) (\<lambda>e _. Ended e) cid l ev of
          (m, es) \<Rightarrow> (lk\<lparr>lk_mode := m\<rparr>, sh, es))
    | Ended _ \<Rightarrow> (lk, sh, []))"

section \<open>What a relay dials\<close>

fun dial_permitted :: "exit_policy \<Rightarrow> effect \<Rightarrow> bool" where
  "dial_permitted p (Hop_Dialled a) = permits_hop p a"
| "dial_permitted p (Exit_Dialled a) = permits_target p (sa_ip a)"
| "dial_permitted p _ = True"

abbreviation dials_permitted :: "router_env \<Rightarrow> effect list \<Rightarrow> bool" where
  "dials_permitted env \<equiv> list_all (dial_permitted (e_policy env))"

lemma ask_next_permitted: "ask_next env io hop msg lk = (lk', es, r) \<Longrightarrow> dials_permitted env es"
  by (auto simp: ask_next_def ensure_next_def connect_to_next_def split: if_splits sum.splits prod.splits)

lemma handle_control_permitted: "handle_control env io inner lk = (lk', es, r) \<Longrightarrow> dials_permitted env es"
  by (auto simp: handle_control_def open_and_carry_def finish_carry_def
      split: option.splits relay_command.splits if_splits sum.splits prod.splits)

lemma answer_here_permitted: "answer_here env io inner lk = (lk', es, r) \<Longrightarrow> dials_permitted env es"
  by (auto simp: answer_here_def split: sum.splits prod.splits dest: handle_control_permitted)

lemma send_sealed_permitted: "send_sealed env goes cid l body = (l', es, r) \<Longrightarrow> dials_permitted env es"
  by (auto simp: send_sealed_def seal_mark_def split: sum.splits prod.splits if_splits)

lemma reply_permitted: "reply env goes cid l cmd = (l', es, r) \<Longrightarrow> dials_permitted env es"
  by (auto simp: reply_def split: sum.splits dest: send_sealed_permitted)

lemma reply_pieces_permitted: "reply_pieces env goes i cid l ps = (l', es, r) \<Longrightarrow> dials_permitted env es"
proof (induction ps arbitrary: i l l' es r)
  case (Cons p ps)
  then show ?case by (fastforce simp: Let_def split: sum.splits prod.splits dest: reply_permitted)
qed simp

lemma try_addrs_tries: "try_addrs connect as err = (tried, r) \<Longrightarrow> set tried \<subseteq> set as"
proof (induction as arbitrary: err tried r)
  case (Cons a as)
  then show ?case by (cases "connect a") (fastforce split: prod.splits)+
qed simp

lemma exit_connect_permitted:
  assumes "exit_connect connect (resolve_target lookup p host port) = (tried, r)"
  shows "list_all (dial_permitted p) (map Exit_Dialled tried)"
proof (cases "resolve_target lookup p host port")
  case (Inr addrs)
  then have "\<forall>a\<in>set addrs. permits_target p (sa_ip a)"
    by (auto simp: resolve_target_def choose_addrs_def list_ex_iff split: if_splits sum.splits)
  moreover have "set tried \<subseteq> set addrs" using assms Inr try_addrs_tries by (auto simp: exit_connect_def)
  ultimately show ?thesis by (auto simp: list_all_iff)
qed (use assms in \<open>simp add: exit_connect_def\<close>)

lemma then_permitted:
  "then_end (reply env goes cid l cmd) = (m, es) \<Longrightarrow> dials_permitted env es"
  "then_mode f (reply env goes cid l cmd) = (m, es) \<Longrightarrow> dials_permitted env es"
  "then_mode f (send_sealed env goes cid l body) = (m, es) \<Longrightarrow> dials_permitted env es"
  "then_mode f (reply_data env gos cid l data) = (m, es) \<Longrightarrow> dials_permitted env es"
  by (auto simp: then_end_def then_mode_def reply_data_def split: prod.splits sum.splits
      dest: reply_permitted send_sealed_permitted reply_pieces_permitted)

lemma exit_command_permitted:
  assumes "handle_exit_command env io me cid l cmd reg = (reg', m, es)"
  shows "dials_permitted env es"
proof (cases cmd)
  case (Connect host port)
  then show ?thesis using assms
    by (auto simp: handle_exit_command_def Let_def split: prod.splits sum.splits dest: then_permitted exit_connect_permitted)
qed (use assms in \<open>auto simp: handle_exit_command_def Let_def split: sum.splits option.splits if_splits dest: then_permitted\<close>)

lemma begin_stream_permitted: "begin_stream env io me cid l header inner lk reg = (lk', reg', es) \<Longrightarrow> dials_permitted env es"
  by (auto simp: begin_stream_def split: option.splits sum.splits prod.splits
      dest: ask_next_permitted then_permitted exit_command_permitted)

lemma exit_turn_permitted: "exit_turn env io cid l ev = (m, es) \<Longrightarrow> dials_permitted env es"
  by (auto simp: exit_turn_def split: link_event.splits message.splits sum.splits prod.splits relay_command.splits if_splits
      dest: then_permitted reply_permitted)

lemma relay_turn_permitted: "relay_turn env io cid l ev = (m, es) \<Longrightarrow> dials_permitted env es"
  by (auto simp: relay_turn_def split: link_event.splits message.splits sum.splits prod.splits if_splits dest: then_permitted)

lemma bridge_turn_permitted: "bridge_turn env io stay over cid l ev = (m, es) \<Longrightarrow> dials_permitted env es"
  by (auto simp: bridge_turn_def reply_data_def split: link_event.splits message.splits sum.splits prod.splits relay_command.splits if_splits
      dest: reply_pieces_permitted)

lemma control_turn_permitted:
  assumes "control_turn env io ev lk table = (lk', table', es)"
  shows "dials_permitted env es"
proof -
  have "dials_permitted env es" if "relay_cell env io cid data lk table = (lk', table', es)" for cid data
    using that by (auto simp: relay_cell_def split: sum.splits prod.splits option.splits dest: ask_next_permitted answer_here_permitted)
  then show ?thesis using assms
    by (auto simp: control_turn_def make_circuit_def split: link_event.splits message.splits if_splits option.splits sum.splits prod.splits)
qed

lemma link_step_permitted: "link_step env io me ev lk sh = (lk', sh', es) \<Longrightarrow> dials_permitted env es"
  by (auto simp: link_step_def send_answer_def seal_mark_def Let_def
      split: link_mode.splits prod.splits if_splits sum.splits link_event.splits
      dest: control_turn_permitted begin_stream_permitted relay_turn_permitted exit_turn_permitted bridge_turn_permitted)

section \<open>What a link does to the circuits of others\<close>

text \<open>
  What becomes of a circuit in one step of any link. \<open>kept\<close>: the entry is still there, with the
  same keys, and its counts have not gone back.
\<close>

definition entry_kept :: "circuit_entry \<Rightarrow> circuits \<Rightarrow> u32 \<Rightarrow> bool" where
  "entry_kept e table cid = (case map_of table cid of
      None \<Rightarrow> False
    | Some e' \<Rightarrow> dir_key (forward (ce_layer e')) = dir_key (forward (ce_layer e))
        \<and> dir_key (backward (ce_layer e')) = dir_key (backward (ce_layer e))
        \<and> unat (dir_next (backward (ce_layer e))) \<le> unat (dir_next (backward (ce_layer e'))))"

definition cell_opens :: "router_env \<Rightarrow> circuit_entry \<Rightarrow> bytes \<Rightarrow> bool" where
  "cell_opens env e data \<longleftrightarrow> is_ok (snd (open_forward (e_aead env) (ce_layer e) data))"

lemma unat_Suc64: "(w :: 64 word) \<noteq> - 1 \<Longrightarrow> unat (w + 1) = Suc (unat w)"
  by (metis add.commute unatSuc add_eq_0_iff2 minus_equation_iff)

lemma seal_backward_layer:
  assumes "seal_backward a l body = (l', r)"
  shows "forward l' = forward l \<and> dir_key (backward l') = dir_key (backward l)
    \<and> unat (dir_next (backward l')) = unat (dir_next (backward l)) + (if is_ok r then 1 else 0)"
  using assms by (auto simp: seal_backward_def seal_def Let_def unat_Suc64 split: if_splits option.splits prod.splits)

lemma open_forward_layer:
  assumes "open_forward a l data = (l', r)"
  shows "backward l' = backward l \<and> dir_key (forward l') = dir_key (forward l) \<and> (\<not> is_ok r \<longrightarrow> l' = l)"
  using assms by (auto simp: open_forward_def open_cell_def Let_def split: if_splits option.splits prod.splits)

lemma open_forward_cell_layer:
  assumes "open_forward_cell a c l data = (l', r)"
  shows "backward l' = backward l \<and> dir_key (forward l') = dir_key (forward l) \<and> (\<not> is_ok (snd (open_forward a l data)) \<longrightarrow> l' = l \<and> \<not> is_ok r)"
proof -
  obtain r1 where "open_forward a l data = (l', r1)" "r = bind_result r1 (split_header c)"
    using assms by (auto simp: open_forward_cell_def Let_def split: prod.splits)
  then show ?thesis using open_forward_layer [of a l data l' r1] by (cases r1) auto
qed

lemma open_control_keeps:
  assumes "open_control a c now cid data table = (table', r)" "map_of table k = Some e"
  shows "entry_kept e table' k" "k \<noteq> cid \<Longrightarrow> map_of table' k = Some e"
    "k = cid \<Longrightarrow> \<not> is_ok (snd (open_forward a (ce_layer e) data)) \<Longrightarrow> map_of table' k = Some (e\<lparr>ce_last_used := now\<rparr>)"
  using assms by (auto simp: open_control_def entry_kept_def update_conv' Let_def split: option.splits prod.splits if_splits
      dest!: open_forward_cell_layer)

lemma seal_reply_keeps:
  assumes "seal_reply a now cid body table = (table', r)" "map_of table k = Some e"
  shows "entry_kept e table' k" "k \<noteq> cid \<Longrightarrow> map_of table' k = Some e"
  using assms by (auto simp: seal_reply_def entry_kept_def update_conv' Let_def split: option.splits prod.splits if_splits
      dest!: seal_backward_layer)

lemma open_stream_keeps:
  assumes "open_stream a c cid data table = (table', r)" "map_of table k = Some e"
  shows "k \<noteq> cid \<Longrightarrow> map_of table' k = Some e"
    "k = cid \<Longrightarrow> \<not> is_ok (snd (open_forward a (ce_layer e) data)) \<Longrightarrow> map_of table' k = Some e"
    "\<not> is_ok r \<Longrightarrow> entry_kept e table' k"
  using assms by (auto simp: open_stream_def entry_kept_def update_conv' delete_conv' Let_def split: option.splits prod.splits sum.splits if_splits
      dest!: open_forward_cell_layer)

lemma create_circuit_keeps:
  assumes "create_circuit now cid layer table = (table', r)" "map_of table k = Some e" "distinct (map fst table)" "now - ce_last_used e < CIRCUIT_TTL"
  shows "map_of table' k = Some e"
proof -
  let ?kept = "filter (\<lambda>(_, e). now - ce_last_used e < CIRCUIT_TTL) table"
  have "(k, e) \<in> set ?kept" using assms(2,4) by (auto dest: map_of_SomeD)
  moreover have "distinct (map fst ?kept)" using assms(3) by (rule distinct_map_filter)
  ultimately have "map_of ?kept k = Some e" by simp
  then show ?thesis using assms(1) by (auto simp: create_circuit_def Let_def split: if_splits)
qed

text \<open>What a control cell, a new circuit, the beginning of a stream and an answer leave of circuit \<open>k\<close>.\<close>

abbreviation same_layer :: "circuit_entry \<Rightarrow> circuits \<Rightarrow> u32 \<Rightarrow> bool" where
  "same_layer e table k \<equiv> \<exists>e'. map_of table k = Some e' \<and> ce_layer e' = ce_layer e"

lemma entry_kept_same [simp]: "map_of table k = Some e \<Longrightarrow> entry_kept e table k"
  by (simp add: entry_kept_def)

lemma relay_cell_circuit:
  assumes "relay_cell env io cid data lk table = (lk', table', es)" "map_of table k = Some e"
  shows "entry_kept e table' k \<and> (same_layer e table' k \<or> k = cid \<and> cell_opens env e data)"
proof -
  obtain r where "open_control (e_aead env) (e_codec env) (io_now io) cid data table = (table', r)"
    using assms(1) by (auto simp: relay_cell_def split: sum.splits prod.splits)
  from open_control_keeps [OF this assms(2)] assms(2) show ?thesis
    by (cases "k = cid"; cases "cell_opens env e data") (auto simp: cell_opens_def)
qed

lemma make_circuit_circuit:
  assumes "make_circuit env io cid lk table = (lk', table', es)" "map_of table k = Some e"
    "distinct (map fst table)" "io_now io - ce_last_used e < CIRCUIT_TTL"
  shows "map_of table' k = Some e"
proof (cases "lk_session_key lk")
  case (Some key)
  then obtain r where "create_circuit (io_now io) cid (new_layer (e_hkdf env) key) table = (table', r)"
    using assms(1) by (auto simp: make_circuit_def split: sum.splits prod.splits if_splits)
  from create_circuit_keeps [OF this assms(2-4)] show ?thesis .
qed (use assms in \<open>simp add: make_circuit_def\<close>)

lemma stream_begin_circuit:
  assumes "open_stream (e_aead env) (e_codec env) cid data table = (table', r)" "map_of table k = Some e"
  shows "entry_kept e table' k \<and> same_layer e table' k \<or> k = cid \<and> cell_opens env e data"
  using open_stream_keeps [OF assms] by (cases "k = cid"; cases "cell_opens env e data") (auto simp: cell_opens_def)

lemma stream_begin_kept:
  assumes "open_stream (e_aead env) (e_codec env) cid data table = (table', r)" "map_of table k = Some e"
  shows "entry_kept e table' k \<or> k = cid \<and> cell_opens env e data"
  using stream_begin_circuit [OF assms] by blast

lemma send_answer_circuit:
  assumes "send_answer env io cid answer table = (m, table', es)" "map_of table k = Some e"
  shows "entry_kept e table' k \<and> (same_layer e table' k \<or> k = cid)"
proof -
  obtain r where "seal_reply (e_aead env) (io_now io) cid answer table = (table', r)"
    using assms(1) by (auto simp: send_answer_def Let_def split: sum.splits prod.splits if_splits)
  from seal_reply_keeps [OF this assms(2)] show ?thesis by blast
qed

text \<open>
  Claim C11. No link can harm a circuit whose cells it cannot make. Whatever a peer sends, a circuit in use stays in
  the table under its own keys, its count of sealed cells never going back, unless a cell made with its forward key began
  its stream; and its layer stays as it was unless such a cell opened, or one that opened before is
  being answered. A circuit of the same ID does not replace it.
\<close>

theorem others_circuits_unharmed:
  assumes "link_step env io me ev lk sh = (lk', sh', es)" and "map_of (sh_circuits sh) k = Some e"
    and "distinct (map fst (sh_circuits sh))" and "io_now io - ce_last_used e < CIRCUIT_TTL"
  shows "(entry_kept e (sh_circuits sh') k \<or> (\<exists>data. ev = Received (StreamBegin k data) \<and> cell_opens env e data))
    \<and> (same_layer e (sh_circuits sh') k
      \<or> (\<exists>data. ev \<in> {Received (Relay k data), Received (StreamBegin k data)} \<and> cell_opens env e data)
      \<or> (\<exists>answer. lk_mode lk = Answering k answer))"
proof (cases "lk_mode lk")
  case Control
  then have c: "control_turn env io ev lk (sh_circuits sh) = (lk', sh_circuits sh', es)"
    using assms(1) by (auto simp: link_step_def split: prod.splits)
  show ?thesis
  proof (cases "\<exists>cid. ev = Received (CreateCircuit cid) \<and> lk_kind lk = Client_Link \<or> (\<exists>data. ev = Received (Relay cid data) \<or> ev = Received (StreamBegin cid data))")
    case True
    then consider cid where "ev = Received (CreateCircuit cid)" "make_circuit env io cid lk (sh_circuits sh) = (lk', sh_circuits sh', es)"
      | cid data where "ev = Received (Relay cid data)" "relay_cell env io cid data lk (sh_circuits sh) = (lk', sh_circuits sh', es)"
      | cid data r where "ev = Received (StreamBegin cid data)" "open_stream (e_aead env) (e_codec env) cid data (sh_circuits sh) = (sh_circuits sh', r)"
      using c by (auto simp: control_turn_def split: sum.splits prod.splits)
    then show ?thesis
    proof cases
      case 1
      with make_circuit_circuit [OF 1(2) assms(2-4)] show ?thesis by simp
    next
      case 2
      with relay_cell_circuit [OF 2(2) assms(2)] show ?thesis by blast
    next
      case 3
      with stream_begin_circuit [OF 3(2) assms(2)] show ?thesis by blast
    qed
  next
    case False
    then have "sh_circuits sh' = sh_circuits sh"
      using c by (auto simp: control_turn_def split: link_event.splits message.splits if_splits)
    with assms(2) show ?thesis by simp
  qed
next
  case (Answering cid answer)
  show ?thesis
  proof (cases "ev = Proceed")
    case True
    then obtain m where "send_answer env io cid answer (sh_circuits sh) = (m, sh_circuits sh', es)"
      using assms(1) Answering by (auto simp: link_step_def split: prod.splits)
    from send_answer_circuit [OF this assms(2)] Answering show ?thesis by blast
  qed (use assms Answering in \<open>simp add: link_step_def\<close>)
qed (use assms in \<open>auto simp: link_step_def split: prod.splits link_event.splits if_splits\<close>)

text \<open>
  Claim C10. A strict relay dials the public internet only. Whatever its circuits ask for, the hops a strict relay
  connects to, the hops it carries extensions to and the targets its exits try are public addresses:
  an IPv4 address among them, also one carried in IPv6, lies in none of the fifteen special-purpose
  blocks of the registry, and any other IPv6 address in none of the ten of IPv6 (loopback, unique
  local, link-local, site-local, multicast, documentation, protocol assignments, 6to4, discard).
\<close>

theorem strict_relay_dials_public:
  assumes "link_step env io me ev lk sh = (lk', sh', es)" and "e_policy env = STRICT"
    and "Hop_Dialled a \<in> set es \<or> Exit_Dialled a \<in> set es"
  shows "case carried_v4 (sa_ip a) of
      Some v \<Rightarrow> \<not> list_ex (\<lambda>(base, len). in_cidr v base len) special_v4
    | None \<Rightarrow> \<exists>v. sa_ip a = V6 v \<and> \<not> list_ex (\<lambda>(base, len). in_cidr6 v base len) special_v6"
proof -
  have "dials_permitted env es" by (rule link_step_permitted [OF assms(1)])
  then have public: "is_public (sa_ip a)"
    using assms(2,3) by (auto simp: list_all_iff permits_hop_def permits_target_def STRICT_def)
  show ?thesis
  proof (cases "carried_v4 (sa_ip a)")
    case None
    then obtain v where v: "sa_ip a = V6 v" by (cases "sa_ip a") (simp_all add: carried_v4_def)
    with public have "is_public_v6 v" by (simp add: is_public_def)
    with None v is_public_v6_registry [of v] show ?thesis by simp
  next
    case (Some v)
    with public is_public_carried [OF Some] is_public_v4_registry [of v] show ?thesis by simp
  qed
qed

section \<open>An example relay\<close>

text \<open>A strict relay whose codecs know one command, the connection to a web server.\<close>

definition web_server :: socket_addr where
  "web_server = \<lparr>sa_ip = V4 (ipv4_new 8 8 8 8), sa_port = 443\<rparr>"

definition sample_router :: router_env where
  "sample_router = \<lparr>e_aead = sample_aead, e_codec = \<lparr>ser_header = (\<lambda>_. Some []), deser_header = (\<lambda>_. Some \<lparr>next_hop = None\<rparr>)\<rparr>,
     e_hkdf = (\<lambda>k label. k), e_ser = (\<lambda>_. Some [1]), e_deser = (\<lambda>_. Some (Connect ''dns.google'' 443)), e_policy = STRICT,
     e_lookup = (\<lambda>_ _. Ok [web_server]), e_ed = sample_ed, e_blake3 = (\<lambda>b. b), e_says = (\<lambda>_. []), e_says_auth = (\<lambda>_. []), e_says_hop = (\<lambda>_. [])\<rparr>"

definition sample_io :: link_io where
  "sample_io = \<lparr>io_now = 5, io_wall = 0, io_send = (\<lambda>_. True), io_send_next = True, io_dial = (\<lambda>_. True), io_handshake = (\<lambda>_. True),
     io_reply = Some (Relay 7 []), io_carry = Ok [], io_connect = (\<lambda>_. Ok ()), io_write = True, io_takes = True\<rparr>"

definition router_layer :: layer_cipher where
  "router_layer = \<lparr>forward = \<lparr>dir_key = replicate 32 1, dir_next = 0\<rparr>, backward = \<lparr>dir_key = replicate 32 2, dir_next = 0\<rparr>\<rparr>"

theorem strict_relay_dials_public_witness:
  "\<not> list_ex (\<lambda>(base, len). in_cidr (ipv4_new 8 8 8 8) base len) special_v4"
proof -
  let ?lk = "(new_link Relay_Link None)\<lparr>lk_mode := Begun 7 router_layer \<lparr>next_hop = Some web_server\<rparr> []\<rparr>"
  let ?sh = "\<lparr>sh_circuits = [], sh_registry = []\<rparr>"
  have public: "permits_hop (e_policy sample_router) web_server" by code_simp
  obtain lk sh es where step: "link_step sample_router sample_io 0 Proceed ?lk ?sh = (lk, sh, es)" by (cases "link_step sample_router sample_io 0 Proceed ?lk ?sh")
  have "Hop_Dialled web_server \<in> set es"
    using step public by (auto simp: link_step_def begin_stream_def ask_next_def ensure_next_def connect_to_next_def new_link_def sample_io_def
        read_next_relay_def split: prod.splits)
  with strict_relay_dials_public [OF step, of web_server] show ?thesis
    by (simp add: sample_router_def web_server_def carried_v4_def)
qed

theorem others_circuits_unharmed_witness:
  "let sh = \<lparr>sh_circuits = [(7, \<lparr>ce_layer = router_layer, ce_last_used = 3\<rparr>)], sh_registry = []\<rparr>;
       (_, sh', _) = link_step sample_router sample_io 0 (Received (StreamBegin 7 [0])) (new_link Relay_Link None) sh
   in entry_kept \<lparr>ce_layer = router_layer, ce_last_used = 3\<rparr> (sh_circuits sh') 7"
proof -
  let ?e = "\<lparr>ce_layer = router_layer, ce_last_used = 3\<rparr>"
  let ?sh = "\<lparr>sh_circuits = [(7, ?e)], sh_registry = []\<rparr>"
  obtain lk' sh' es where step: "link_step sample_router sample_io 0 (Received (StreamBegin 7 [0])) (new_link Relay_Link None) ?sh = (lk', sh', es)"
    by (cases "link_step sample_router sample_io 0 (Received (StreamBegin 7 [0])) (new_link Relay_Link None) ?sh")
  have "\<not> cell_opens sample_router ?e [0]"
    by (simp add: cell_opens_def sample_router_def router_layer_def sample_aead_def open_forward_def open_cell_def nonce_def)
      (auto dest: arg_cong [of _ _ length])
  moreover have "io_now sample_io - ce_last_used ?e < CIRCUIT_TTL" by (simp add: sample_io_def CIRCUIT_TTL_def)
  ultimately show ?thesis
    using others_circuits_unharmed [OF step, of 7 ?e] by (simp add: step)
qed

end
