(* ===== verification/Router_Runs.thy ===== *)
theory Router_Runs
  imports Router "HOL-Library.Multiset"
begin

text \<open>
  All the links of a relay at once (\<^verbatim>\<open>hidra-node/src/relay/router.rs\<close>): every run of the relay is a sequence of link
  steps over the one table and the one registry, and of links that open.

  The lemmas follow each layer through a run, from the session key of a link to the table and
  on to the stream that takes it, and show that the table stays bounded and that no two cells
  are sealed with one key and one count.
\<close>

section \<open>Layers and what they seal\<close>

text \<open>A layer that can still seal, as the key of its replies and the count it is at.\<close>

type_synonym token = "bytes \<times> nat"

definition token_of :: "layer_cipher \<Rightarrow> token" where
  "token_of l = (dir_key (backward l), unat (dir_next (backward l)))"

fun sealed_with :: "effect \<Rightarrow> token list" where
  "sealed_with (Sealed k n) = [(k, unat n)]"
| "sealed_with _ = []"

abbreviation seals :: "effect list \<Rightarrow> token list" where
  "seals es \<equiv> concat (map sealed_with es)"

declare concat_eq_Nil_conv [simp del]

definition advances :: "token list \<Rightarrow> token \<Rightarrow> token \<Rightarrow> bool" where
  "advances S t t' \<longleftrightarrow> t' = (fst t, snd t + length S) \<and> S = map (\<lambda>i. (fst t, snd t + i)) [0..<length S]"

lemma advances_nothing [simp]: "advances [] t t' \<longleftrightarrow> t' = t"
  by (auto simp: advances_def)

lemma advances_one: "advances [t] t (fst t, Suc (snd t))"
  by (simp add: advances_def)

lemma advances_trans:
  assumes "advances S t t'" "advances S' t' t''"
  shows "advances (S @ S') t t''"
proof -
  have "[length S..<length S + length S'] = map (\<lambda>i. length S + i) [0..<length S']"
    by (rule nth_equalityI) simp_all
  then have "map (\<lambda>i. (fst t, snd t + i)) [0..<length S + length S']
      = map (\<lambda>i. (fst t, snd t + i)) [0..<length S] @ map (\<lambda>i. (fst t, snd t + length S + i)) [0..<length S']"
    by (simp add: upt_add_eq_append [OF le0] comp_def add.assoc)
  then show ?thesis using assms by (simp add: advances_def add.assoc)
qed

lemma send_sealed_advances:
  assumes "send_sealed env goes cid l body = (l', es, r)"
  shows "advances (seals es) (token_of l) (token_of l')"
proof -
  obtain r' where "seal_backward (e_aead env) l body = (l', r')" "seals es = (if is_ok r' then [token_of l] else [])"
    using assms by (auto simp: send_sealed_def seal_mark_def token_of_def split: sum.splits prod.splits if_splits)
  with seal_backward_layer [OF this(1)] show ?thesis by (auto simp: token_of_def advances_def)
qed

lemma reply_advances: "reply env goes cid l cmd = (l', es, r) \<Longrightarrow> advances (seals es) (token_of l) (token_of l')"
  by (auto simp: reply_def split: sum.splits dest: send_sealed_advances)

lemma reply_pieces_advances: "reply_pieces env goes i cid l ps = (l', es, r) \<Longrightarrow> advances (seals es) (token_of l) (token_of l')"
proof (induction ps arbitrary: i l l' es r)
  case (Cons p ps)
  obtain l1 es1 r1 where r: "reply env (goes i) cid l (Data p) = (l1, es1, r1)" by (cases "reply env (goes i) cid l (Data p)")
  show ?case
  proof (cases r1)
    case (Inr u)
    obtain l2 es2 r2 where p: "reply_pieces env goes (Suc i) cid l1 ps = (l2, es2, r2)" by (cases "reply_pieces env goes (Suc i) cid l1 ps")
    from Cons.IH [OF p] reply_advances [OF r] Cons.prems r p Inr show ?thesis by (auto intro: advances_trans)
  qed (use Cons.prems r reply_advances [OF r] in auto)
qed simp

lemma reply_data_advances: "reply_data env goes cid l data = (l', es, r) \<Longrightarrow> advances (seals es) (token_of l) (token_of l')"
  by (simp add: reply_data_def reply_pieces_advances)

section \<open>The ledger\<close>

definition spends :: "token list \<Rightarrow> token multiset \<Rightarrow> token multiset \<Rightarrow> bool" where
  "spends S T T' \<longleftrightarrow> S = [] \<and> T' \<subseteq># T \<or> (\<exists>t t'. t \<in># T \<and> advances S t t' \<and> T' \<subseteq># T - {#t#} + {#t'#})"

lemma spends_nothing: "T' \<subseteq># T \<Longrightarrow> spends [] T T'"
  by (simp add: spends_def)

lemma spends_layer: "advances S t t' \<Longrightarrow> T' \<subseteq># {#t'#} \<Longrightarrow> spends S {#t#} T'"
  unfolding spends_def by (intro disjI2 exI [of _ t] exI [of _ t']) simp

lemma spends_frame:
  assumes "spends S T T'"
  shows "spends S (R + T) (R + T')"
proof -
  have "R + T - {#t#} + {#t'#} = R + (T - {#t#} + {#t'#})" if "t \<in># T" for t t' using that by simp
  with assms show ?thesis unfolding spends_def by (metis mset_subset_eq_mono_add_left_cancel union_iff)
qed

definition ledger_ok :: "token multiset \<Rightarrow> token list \<Rightarrow> bool" where
  "ledger_ok T L \<longleftrightarrow> (\<forall>k. count (image_mset fst T) k \<le> 1) \<and> (\<forall>t\<in>#T. \<forall>s\<in>set L. fst s = fst t \<longrightarrow> snd s < snd t) \<and> distinct L"

lemma ledger_subset:
  assumes "ledger_ok T L" "T' \<subseteq># T"
  shows "ledger_ok T' L"
proof -
  have "count (image_mset fst T') k \<le> count (image_mset fst T) k" for k
    using image_mset_subseteq_mono [OF assms(2)] by (rule mset_subset_eq_count)
  then show ?thesis using assms by (force simp: ledger_ok_def dest: mset_subset_eqD intro: order_trans)
qed

lemma ledger_advance:
  assumes ok: "ledger_ok T L" and t: "t \<in># T" and adv: "advances S t t'"
  shows "ledger_ok (T - {#t#} + {#t'#}) (L @ S)"
proof -
  have S: "set S = {(fst t, snd t + i) |i. i < length S}" "distinct S" "t' = (fst t, snd t + length S)"
  proof -
    have m: "S = map (\<lambda>i. (fst t, snd t + i)) [0..<length S]" using adv by (simp add: advances_def)
    show "set S = {(fst t, snd t + i) |i. i < length S}" by (subst m) (auto simp: image_iff)
    show "distinct S" by (subst m) (simp add: distinct_map inj_on_def)
    show "t' = (fst t, snd t + length S)" using adv by (simp add: advances_def)
  qed
  have keys: "image_mset fst (T - {#t#} + {#t'#}) = image_mset fst T" using t S(3) by (simp add: image_mset_Diff)
  have other: "fst u \<noteq> fst t" if "u \<in># T - {#t#}" for u
  proof
    assume u: "fst u = fst t"
    from multi_member_split [OF that] obtain T2 where "T - {#t#} = add_mset u T2" by blast
    with insert_DiffM [OF t] have "T = add_mset t (add_mset u T2)" by simp
    then have "2 \<le> count (image_mset fst T) (fst t)" using u by simp
    then show False using ok by (auto simp: ledger_ok_def dest: spec [of _ "fst t"])
  qed
  have low: "snd s < snd t" if "s \<in> set L" "fst s = fst t" for s using ok t that by (auto simp: ledger_ok_def)
  have "snd s < snd u" if u: "u \<in># T - {#t#} + {#t'#}" "s \<in> set (L @ S)" "fst s = fst u" for s u
  proof (cases "u \<in># T - {#t#}")
    case True
    have "fst s = fst t" if "s \<in> set S" using that unfolding S(1) by auto
    with other [OF True] u(2,3) have "s \<in> set L" by auto
    with ok in_diffD [OF True] u(3) show ?thesis by (auto simp: ledger_ok_def)
  next
    case False
    then have u': "u = t'" using u(1) by simp
    have "snd s < snd t'" if "s \<in> set S" using that unfolding S(1,3) by auto
    moreover have "snd s < snd t'" if "s \<in> set L" using low [OF that] u(3) u' S(3) by simp
    ultimately show ?thesis using u(2) u' by auto
  qed
  moreover have "set L \<inter> set S = {}"
  proof -
    have "s \<notin> set S" if "s \<in> set L" for s using low [OF that] unfolding S(1) by auto
    then show ?thesis by blast
  qed
  ultimately show ?thesis using ok S(2) unfolding ledger_ok_def keys by (metis distinct_append)
qed

lemma ledger_spends: "ledger_ok T L \<Longrightarrow> spends S T T' \<Longrightarrow> ledger_ok T' (L @ S)"
  unfolding spends_def using ledger_subset ledger_advance by fastforce

lemma ledger_fresh:
  assumes "ledger_ok T L" "fst t \<notin> fst ` set_mset T" "fst t \<notin> fst ` set L"
  shows "ledger_ok (T + {#t#}) L"
  using assms by (auto simp: ledger_ok_def count_eq_zero_iff image_iff)

section \<open>Where the layers are\<close>

fun mode_tokens :: "link_mode \<Rightarrow> token multiset" where
  "mode_tokens (Begun _ l _ _) = {#token_of l#}"
| "mode_tokens (Relaying _ l) = {#token_of l#}"
| "mode_tokens (Exiting _ l) = {#token_of l#}"
| "mode_tokens (Waiting _ l _) = {#token_of l#}"
| "mode_tokens (Serving _ l _) = {#token_of l#}"
| "mode_tokens (Visiting _ l) = {#token_of l#}"
| "mode_tokens _ = {#}"

definition session_token :: "router_env \<Rightarrow> bytes \<Rightarrow> token" where
  "session_token env key = token_of (new_layer (e_hkdf env) key)"

definition key_tokens :: "router_env \<Rightarrow> bytes option \<Rightarrow> token multiset" where
  "key_tokens env key = (case key of None \<Rightarrow> {#} | Some k \<Rightarrow> {#session_token env k#})"

definition link_tokens :: "router_env \<Rightarrow> link \<Rightarrow> token multiset" where
  "link_tokens env lk = key_tokens env (lk_session_key lk) + mode_tokens (lk_mode lk)"

definition table_tokens :: "circuits \<Rightarrow> token multiset" where
  "table_tokens table = image_mset (\<lambda>(_, e). token_of (ce_layer e)) (mset table)"

lemma then_spends:
  assumes "advances (seals es) (token_of l) (token_of l')" "\<And>l. mode_tokens (f l) = {#token_of l#}"
  shows "then_mode f (l', es, r) = (m, es') \<Longrightarrow> spends (seals es') {#token_of l#} (mode_tokens m)"
    "then_end (l', es, r) = (m, es') \<Longrightarrow> spends (seals es') {#token_of l#} (mode_tokens m)"
  using assms by (auto simp: then_mode_def then_end_def split: sum.splits intro!: spends_layer)

lemma then_reply_spends:
  assumes "\<And>l. mode_tokens (f l) = {#token_of l#}"
  shows "then_mode f (reply env goes cid l cmd) = (m, es) \<Longrightarrow> spends (seals es) {#token_of l#} (mode_tokens m)"
    "then_end (reply env goes cid l cmd) = (m, es) \<Longrightarrow> spends (seals es) {#token_of l#} (mode_tokens m)"
    "then_mode f (reply_data env gos cid l data) = (m, es) \<Longrightarrow> spends (seals es) {#token_of l#} (mode_tokens m)"
    "then_mode f (send_sealed env goes cid l body) = (m, es) \<Longrightarrow> spends (seals es) {#token_of l#} (mode_tokens m)"
  using then_spends [OF _ assms] reply_advances reply_data_advances send_sealed_advances by (metis prod_cases3)+

lemmas then_exiting = then_reply_spends [of "Exiting cid" for cid, OF mode_tokens.simps(3)]
lemmas then_relaying = then_reply_spends [of "Relaying cid" for cid, OF mode_tokens.simps(2)]
lemmas then_waiting = then_reply_spends [of "\<lambda>l. Waiting cid l hash" for cid hash, OF mode_tokens.simps(4)]
lemmas then_visiting = then_reply_spends [of "Visiting cid" for cid, OF mode_tokens.simps(6)]

lemma token_open [simp]: "open_forward a l data = (l', r) \<Longrightarrow> token_of l' = token_of l"
  by (drule open_forward_layer) (simp add: token_of_def)

lemma token_open_command: "open_command env l data = (l', r) \<Longrightarrow> token_of l' = token_of l"
  by (auto simp: open_command_def split: sum.splits prod.splits)

lemma seals_dials [simp]: "concat (map (sealed_with \<circ> Exit_Dialled) as) = []"
  by (induction as) simp_all

lemma exit_turn_spends:
  assumes "exit_turn env io cid l ev = (m, es)"
  shows "spends (seals es) {#token_of l#} (mode_tokens m)"
proof (cases ev)
  case (From_Target data)
  then show ?thesis using assms
    by (auto simp: exit_turn_def split: if_splits prod.splits intro: then_exiting spends_layer [OF reply_advances])
qed (use assms in \<open>auto simp: exit_turn_def spends_nothing split: message.splits sum.splits prod.splits relay_command.splits if_splits dest!: token_open_command\<close>)

lemma relay_turn_spends:
  assumes "relay_turn env io cid l ev = (m, es)"
  shows "spends (seals es) {#token_of l#} (mode_tokens m)"
  using assms by (auto simp: relay_turn_def spends_nothing split: link_event.splits message.splits sum.splits prod.splits if_splits dest: then_relaying)

lemma bridge_turn_spends:
  assumes "bridge_turn env io stay over cid l ev = (m, es)"
    and "\<And>l. mode_tokens (stay l) = {#token_of l#}" "\<And>e l. mode_tokens (over e l) \<subseteq># {#token_of l#}"
  shows "spends (seals es) {#token_of l#} (mode_tokens m)"
proof (cases ev)
  case (From_Other payload)
  then show ?thesis using assms
    by (auto simp: bridge_turn_def split: sum.splits prod.splits dest!: reply_data_advances intro!: spends_layer)
next
  case (Received msg)
  have "mode_tokens (over e l') \<subseteq># {#token_of l#}" if "token_of l' = token_of l" for e l' using assms(3) [of e l'] that by simp
  with assms Received show ?thesis
    by (auto simp: bridge_turn_def split: message.splits sum.splits prod.splits relay_command.splits if_splits
        dest!: token_open_command intro!: spends_nothing)
qed (use assms in \<open>auto simp: bridge_turn_def intro!: spends_nothing\<close>)

lemma exit_command_spends:
  assumes "handle_exit_command env io me cid l cmd reg = (reg', m, es)"
  shows "spends (seals es) {#token_of l#} (mode_tokens m)"
proof (cases cmd)
  case (Connect host port)
  then show ?thesis using assms
    by (auto simp: handle_exit_command_def Let_def split: prod.splits sum.splits dest: then_exiting)
qed (use assms in \<open>auto simp: handle_exit_command_def Let_def spends_nothing split: sum.splits option.splits if_splits
    dest: then_exiting then_waiting then_visiting\<close>)

lemma link_tokens_mode [simp]: "link_tokens env (lk\<lparr>lk_mode := m\<rparr>) = key_tokens env (lk_session_key lk) + mode_tokens m"
  by (simp add: link_tokens_def)

definition only_asks :: "link \<Rightarrow> link \<Rightarrow> effect list \<Rightarrow> bool" where
  "only_asks lk lk' es \<longleftrightarrow> lk_session_key lk' = lk_session_key lk \<and> lk_mode lk' = lk_mode lk \<and> seals es = []"

lemma ask_next_only: "ask_next env io hop msg lk = (lk', es, r) \<Longrightarrow> only_asks lk lk' es"
  by (auto simp: ask_next_def ensure_next_def connect_to_next_def only_asks_def split: if_splits sum.splits prod.splits)

lemma answer_here_only: "answer_here env io inner lk = (lk', es, r) \<Longrightarrow> only_asks lk lk' es"
  by (auto simp: answer_here_def handle_control_def open_and_carry_def finish_carry_def only_asks_def
      split: option.splits relay_command.splits if_splits sum.splits prod.splits)

section \<open>The table\<close>

definition table_ok :: "circuits \<Rightarrow> bool" where
  "table_ok table \<longleftrightarrow> distinct (map fst table) \<and> length table \<le> MAX_CIRCUITS"

lemma table_entry:
  assumes "distinct (map fst table)" "map_of table cid = Some e"
  obtains R where "table_tokens table = add_mset (token_of (ce_layer e)) R" "table_tokens (AList.delete cid table) = R"
    "\<And>e'. table_tokens (AList.update cid e' table) = add_mset (token_of (ce_layer e')) R"
proof -
  obtain as bs where t: "table = as @ (cid, e) # bs" using map_of_SomeD [OF assms(2)] by (auto dest: split_list)
  with assms(1) have n: "cid \<notin> fst ` set as" "cid \<notin> fst ` set bs" by auto
  have u: "AList.update cid e' (as @ (cid, e) # bs) = as @ (cid, e') # bs" for e' using n(1) by (induction as) auto
  have d': "filter (\<lambda>(k, _). cid \<noteq> k) xs = xs" if "cid \<notin> fst ` set xs" for xs :: circuits using that by (induction xs) auto
  have d: "AList.delete cid (as @ (cid, e) # bs) = as @ bs" using d' [OF n(1)] d' [OF n(2)] by (simp add: AList.delete_eq)
  show thesis by (rule that [of "table_tokens (as @ bs)"]) (simp_all add: t u d table_tokens_def)
qed

lemma table_ok_update: "table_ok table \<Longrightarrow> map_of table cid = Some e \<Longrightarrow> table_ok (AList.update cid e' table)"
proof -
  assume t: "table_ok table" and e: "map_of table cid = Some e"
  from map_of_SomeD [OF e] have "cid \<in> fst ` set table" by force
  then have k: "map fst (AList.update cid e' table) = map fst table" by (simp add: update_keys)
  then have "length (AList.update cid e' table) = length table" by (metis length_map)
  with t k show ?thesis by (simp add: table_ok_def)
qed

lemma table_ok_delete: "table_ok table \<Longrightarrow> table_ok (AList.delete cid table)"
  by (auto simp: table_ok_def AList.distinct_delete length_delete_le intro: order_trans [OF length_delete_le])

lemma create_circuit_table:
  assumes "create_circuit now cid layer table = (table', r)" "table_ok table"
  shows "table_ok table' \<and> table_tokens table' \<subseteq># (if is_ok r then {#token_of layer#} else {#}) + table_tokens table"
proof -
  let ?kept = "filter (\<lambda>(_, e). now - ce_last_used e < CIRCUIT_TTL) table"
  have k: "distinct (map fst ?kept)" "length ?kept \<le> MAX_CIRCUITS"
    using assms(2) distinct_map_filter order_trans [OF length_filter_le] by (auto simp: table_ok_def)
  have "mset ?kept \<subseteq># mset table" by (simp add: multiset_filter_subset)
  then have "table_tokens ?kept \<subseteq># table_tokens table" unfolding table_tokens_def by (rule image_mset_subseteq_mono)
  with k assms show ?thesis
    by (auto simp: create_circuit_def table_ok_def Let_def table_tokens_def map_of_eq_None_iff split: if_splits)
qed

lemma open_control_table:
  assumes "open_control a c now cid data table = (table', r)" "table_ok table"
  shows "table_ok table' \<and> table_tokens table' = table_tokens table"
proof (cases "map_of table cid")
  case (Some e)
  then obtain layer r1 where o': "open_forward_cell a c (ce_layer e) data = (layer, r1)" "table' = AList.update cid \<lparr>ce_layer = layer, ce_last_used = now\<rparr> table"
    using assms(1) by (auto simp: open_control_def split: prod.splits)
  moreover have "distinct (map fst table)" using assms(2) by (simp add: table_ok_def)
  moreover have "token_of layer = token_of (ce_layer e)" using open_forward_cell_layer [OF o'(1)] by (simp add: token_of_def)
  ultimately show ?thesis using Some assms(2) by (auto simp: table_ok_update elim: table_entry [OF _ Some])
qed (use assms in \<open>simp add: open_control_def\<close>)

lemma open_stream_table:
  assumes "open_stream a c cid data table = (table', r)" "table_ok table"
  shows "table_ok table' \<and> (case r of Err _ \<Rightarrow> table_tokens table' = table_tokens table
    | Ok (layer, _) \<Rightarrow> table_tokens table = add_mset (token_of layer) (table_tokens table'))"
proof (cases "map_of table cid")
  case (Some e)
  have d: "distinct (map fst table)" using assms(2) by (simp add: table_ok_def)
  obtain layer r1 where o': "open_forward_cell a c (ce_layer e) data = (layer, r1)" by (cases "open_forward_cell a c (ce_layer e) data")
  have t: "token_of layer = token_of (ce_layer e)" using open_forward_cell_layer [OF o'] by (simp add: token_of_def)
  obtain R where "table_tokens table = add_mset (token_of (ce_layer e)) R" "table_tokens (AList.delete cid table) = R"
    "\<And>e'. table_tokens (AList.update cid e' table) = add_mset (token_of (ce_layer e')) R"
    using table_entry [OF d Some] by blast
  then show ?thesis
    using assms Some o' t table_ok_update [OF assms(2) Some] table_ok_delete [OF assms(2)]
    by (cases r1) (auto simp: open_stream_def)
qed (use assms in \<open>auto simp: open_stream_def\<close>)

lemma send_answer_table:
  assumes "send_answer env io cid answer table = (m, table', es)" "table_ok table"
  shows "table_ok table' \<and> spends (seals es) (table_tokens table) (table_tokens table') \<and> mode_tokens m = {#}"
proof (cases "map_of table cid")
  case (Some e)
  have d: "distinct (map fst table)" using assms(2) by (simp add: table_ok_def)
  obtain layer r where l: "seal_backward (e_aead env) (ce_layer e) answer = (layer, r)" by (cases "seal_backward (e_aead env) (ce_layer e) answer")
  then have t: "table' = AList.update cid \<lparr>ce_layer = layer, ce_last_used = io_now io\<rparr> table" "mode_tokens m = {#}"
    "seals es = (if is_ok r then [token_of (ce_layer e)] else [])"
    using assms(1) Some by (cases r; auto simp: send_answer_def seal_reply_def Let_def seal_mark_def token_of_def split: prod.splits if_splits)+
  have adv: "advances (seals es) (token_of (ce_layer e)) (token_of layer)"
    using seal_backward_layer [OF l] by (auto simp: t(3) token_of_def advances_def)
  obtain R where "table_tokens table = add_mset (token_of (ce_layer e)) R" "table_tokens table' = add_mset (token_of layer) R"
    using table_entry [OF d Some] t(1) by (metis circuit_entry.select_convs(1))
  then have "spends (seals es) (table_tokens table) (table_tokens table')"
    using spends_frame [OF spends_layer [OF adv subset_mset.order_refl], of R] by simp
  with t table_ok_update [OF assms(2) Some] show ?thesis by simp
qed (use assms in \<open>auto simp: send_answer_def seal_reply_def spends_nothing\<close>)

section \<open>One step\<close>

lemma relay_cell_spends:
  assumes "relay_cell env io cid data lk table = (lk', table', es)" "table_ok table"
  shows "table_ok table' \<and> link_tokens env lk' = key_tokens env (lk_session_key lk) \<and> table_tokens table' = table_tokens table \<and> seals es = []"
proof -
  obtain r where o': "open_control (e_aead env) (e_codec env) (io_now io) cid data table = (table', r)"
    using assms(1) by (auto simp: relay_cell_def split: sum.splits prod.splits)
  have "link_tokens env lk' = key_tokens env (lk_session_key lk) \<and> seals es = []"
    using assms(1) by (auto simp: relay_cell_def only_asks_def split: sum.splits prod.splits option.splits dest!: ask_next_only answer_here_only)
  with open_control_table [OF o' assms(2)] show ?thesis by simp
qed

lemma make_circuit_spends:
  assumes "make_circuit env io cid lk table = (lk', table', es)" "table_ok table" "lk_mode lk = Control"
  shows "table_ok table' \<and> link_tokens env lk' + table_tokens table' \<subseteq># link_tokens env lk + table_tokens table \<and> seals es = []"
proof (cases "lk_session_key lk")
  case (Some key)
  obtain r where c: "create_circuit (io_now io) cid (new_layer (e_hkdf env) key) table = (table', r)"
    using assms(1) Some by (auto simp: make_circuit_def split: sum.splits prod.splits if_splits)
  have l: "link_tokens env lk' = {#}" "seals es = []"
    using assms(1,3) Some c by (auto simp: make_circuit_def link_tokens_def key_tokens_def split: sum.splits if_splits)
  have "table_tokens table' \<subseteq># {#session_token env key#} + table_tokens table"
    using create_circuit_table [OF c assms(2)] by (auto simp: session_token_def intro: subset_mset.order_trans split: if_splits)
  with l create_circuit_table [OF c assms(2)] Some assms(3) show ?thesis by (simp add: link_tokens_def key_tokens_def)
qed (use assms in \<open>auto simp: make_circuit_def link_tokens_def\<close>)

lemma control_turn_spends:
  assumes "control_turn env io ev lk table = (lk', table', es)" "table_ok table" "lk_mode lk = Control"
  shows "table_ok table' \<and> link_tokens env lk' + table_tokens table' \<subseteq># link_tokens env lk + table_tokens table \<and> seals es = []"
proof -
  have k: "key_tokens env (lk_session_key lk) \<subseteq># link_tokens env lk" by (simp add: link_tokens_def)
  have same: ?thesis if "table' = table" "seals es = []" "lk' = lk \<or> (\<exists>e. lk' = lk\<lparr>lk_mode := Ended e\<rparr>)"
    using that k assms(2) by (auto intro: subset_mset.add_mono)
  show ?thesis
  proof (cases "\<exists>cid. ev = Received (CreateCircuit cid) \<and> lk_kind lk = Client_Link \<or> (\<exists>data. ev = Received (Relay cid data) \<or> ev = Received (StreamBegin cid data))")
    case True
    then consider cid where "make_circuit env io cid lk table = (lk', table', es)"
      | cid data where "relay_cell env io cid data lk table = (lk', table', es)"
      | cid data where "ev = Received (StreamBegin cid data)"
      using assms(1) by (auto simp: control_turn_def)
    then show ?thesis
    proof cases
      case 1
      with make_circuit_spends [OF 1 assms(2,3)] show ?thesis by simp
    next
      case 2
      from relay_cell_spends [OF 2 assms(2)] k show ?thesis by (auto intro: subset_mset.add_mono)
    next
      case 3
      then obtain r where o': "open_stream (e_aead env) (e_codec env) cid data table = (table', r)" "es = []"
        "lk' = lk\<lparr>lk_mode := (case r of Err e \<Rightarrow> Ended (Some e) | Ok (layer, header, inner) \<Rightarrow> Begun cid layer header inner)\<rparr>"
        using assms(1) by (auto simp: control_turn_def split: sum.splits prod.splits)
      with open_stream_table [OF o'(1) assms(2)] k show ?thesis
        by (cases r) (auto intro: subset_mset.add_mono split: prod.splits)
    qed
  next
    case False
    with assms(1) show ?thesis
      by (intro same) (auto simp: control_turn_def split: link_event.splits message.splits if_splits)
  qed
qed

lemma begin_stream_spends:
  assumes "begin_stream env io me cid l header inner lk reg = (lk', reg', es)"
  shows "lk_session_key lk' = lk_session_key lk \<and> spends (seals es) {#token_of l#} (mode_tokens (lk_mode lk'))"
  using assms
  by (auto simp: begin_stream_def only_asks_def spends_nothing split: option.splits sum.splits prod.splits
      dest!: ask_next_only dest: then_relaying exit_command_spends)

lemma link_step_spends:
  assumes "link_step env io me ev lk sh = (lk', sh', es)" "table_ok (sh_circuits sh)"
  shows "table_ok (sh_circuits sh') \<and> spends (seals es) (link_tokens env lk + table_tokens (sh_circuits sh)) (link_tokens env lk' + table_tokens (sh_circuits sh'))"
proof -
  have mode: "table_ok (sh_circuits sh') \<and> spends (seals es) (link_tokens env lk + table_tokens (sh_circuits sh)) (link_tokens env lk' + table_tokens (sh_circuits sh'))"
    if "spends (seals es) (mode_tokens (lk_mode lk)) (mode_tokens (lk_mode lk'))" "lk_session_key lk' = lk_session_key lk" "sh_circuits sh' = sh_circuits sh"
    using spends_frame [OF that(1), of "key_tokens env (lk_session_key lk) + table_tokens (sh_circuits sh)"] that assms(2)
    by (simp add: link_tokens_def ac_simps)
  show ?thesis
  proof (cases "lk_mode lk")
    case Control
    then have "control_turn env io ev lk (sh_circuits sh) = (lk', sh_circuits sh', es)"
      using assms(1) by (auto simp: link_step_def split: prod.splits)
    from control_turn_spends [OF this assms(2) Control] show ?thesis by (simp add: spends_nothing)
  next
    case (Answering cid answer)
    show ?thesis
    proof (cases "ev = Proceed")
      case True
      then obtain m where a: "send_answer env io cid answer (sh_circuits sh) = (m, sh_circuits sh', es)" "lk' = lk\<lparr>lk_mode := m\<rparr>"
        using assms(1) Answering by (auto simp: link_step_def split: prod.splits)
      from send_answer_table [OF a(1) assms(2)] a(2) Answering show ?thesis
        by (auto simp: link_tokens_def intro: spends_frame)
    qed (use assms Answering in \<open>auto simp: link_step_def spends_nothing\<close>)
  next
    case (Begun cid l header inner)
    with assms(1) show ?thesis
      by (intro mode) (auto simp: link_step_def spends_nothing split: if_splits prod.splits dest: begin_stream_spends)
  next
    case (Relaying cid l)
    with assms(1) show ?thesis by (intro mode) (auto simp: link_step_def split: prod.splits dest: relay_turn_spends)
  next
    case (Exiting cid l)
    with assms(1) show ?thesis by (intro mode) (auto simp: link_step_def split: prod.splits dest: exit_turn_spends)
  next
    case (Waiting cid l hash)
    with assms(1) show ?thesis by (intro mode) (auto simp: link_step_def spends_nothing split: link_event.splits)
  next
    case (Serving cid l hash)
    with assms(1) show ?thesis by (intro mode) (auto simp: link_step_def split: prod.splits elim!: bridge_turn_spends)
  next
    case (Visiting cid l)
    with assms(1) show ?thesis by (intro mode) (auto simp: link_step_def split: prod.splits elim!: bridge_turn_spends)
  next
    case (Ended r)
    with assms(1) show ?thesis by (intro mode) (auto simp: link_step_def spends_nothing)
  qed
qed

section \<open>Runs\<close>

record router =
  rt_links :: "link list"
  rt_shared :: shared
  rt_log :: "effect list"

definition new_router :: router where
  "new_router = \<lparr>rt_links = [], rt_shared = \<lparr>sh_circuits = [], sh_registry = []\<rparr>, rt_log = []\<rparr>"

definition all_tokens :: "router_env \<Rightarrow> router \<Rightarrow> token multiset" where
  "all_tokens env st = \<Sum>\<^sub># (mset (map (link_tokens env) (rt_links st))) + table_tokens (sh_circuits (rt_shared st))"

text \<open>
  A session key is fresh when the layer it gives has a key no layer of the relay has and no cell was sealed with:
  what a handshake between two keys drawn anew gives.
\<close>

definition session_fresh :: "router_env \<Rightarrow> router \<Rightarrow> bytes \<Rightarrow> bool" where
  "session_fresh env st key \<longleftrightarrow> fst (session_token env key) \<notin> fst ` set_mset (all_tokens env st)
     \<and> fst (session_token env key) \<notin> fst ` set (seals (rt_log st))"

inductive router_step :: "router_env \<Rightarrow> router \<Rightarrow> router \<Rightarrow> bool" for env where
  client_link: "session_fresh env st key \<Longrightarrow>
    router_step env st (st\<lparr>rt_links := rt_links st @ [new_link Client_Link (Some key)]\<rparr>)"
| relay_link: "router_step env st (st\<lparr>rt_links := rt_links st @ [new_link Relay_Link None]\<rparr>)"
| turn: "i < length (rt_links st) \<Longrightarrow> link_step env io i ev (rt_links st ! i) (rt_shared st) = (lk, sh, es) \<Longrightarrow>
    router_step env st \<lparr>rt_links = (rt_links st)[i := lk], rt_shared = sh, rt_log = rt_log st @ es\<rparr>"

inductive router_reachable :: "router_env \<Rightarrow> router \<Rightarrow> bool" for env where
  start: "router_reachable env new_router"
| step: "router_reachable env st \<Longrightarrow> router_step env st st' \<Longrightarrow> router_reachable env st'"

definition router_ok :: "router_env \<Rightarrow> router \<Rightarrow> bool" where
  "router_ok env st \<longleftrightarrow> table_ok (sh_circuits (rt_shared st)) \<and> ledger_ok (all_tokens env st) (seals (rt_log st))"

lemma all_tokens_new_link: "all_tokens env (st\<lparr>rt_links := rt_links st @ [lk]\<rparr>) = all_tokens env st + link_tokens env lk"
  by (simp add: all_tokens_def ac_simps)

lemma all_tokens_turn:
  assumes "i < length (rt_links st)"
  obtains R where "all_tokens env st = R + (link_tokens env (rt_links st ! i) + table_tokens (sh_circuits (rt_shared st)))"
    "\<And>lk sh log. all_tokens env \<lparr>rt_links = (rt_links st)[i := lk], rt_shared = sh, rt_log = log\<rparr> = R + (link_tokens env lk + table_tokens (sh_circuits sh))"
proof -
  let ?rest = "mset (rt_links st) - {#rt_links st ! i#}"
  have "mset (rt_links st) = add_mset (rt_links st ! i) ?rest" using assms by simp
  then have "\<Sum>\<^sub># (image_mset (link_tokens env) (mset (rt_links st))) = link_tokens env (rt_links st ! i) + \<Sum>\<^sub># (image_mset (link_tokens env) ?rest)"
    by (metis image_mset_add_mset sum_mset.add_mset)
  moreover have "mset ((rt_links st)[i := lk]) = add_mset lk ?rest" for lk using assms by (simp add: mset_update)
  ultimately show thesis by (intro that [of "\<Sum>\<^sub># (image_mset (link_tokens env) ?rest)"]) (simp_all add: all_tokens_def ac_simps)
qed

lemma router_step_ok:
  assumes "router_ok env st" "router_step env st st'"
  shows "router_ok env st'"
  using assms(2)
proof cases
  case (client_link key)
  have "ledger_ok (all_tokens env st + {#session_token env key#}) (seals (rt_log st))"
    using assms(1) client_link(2) by (intro ledger_fresh) (auto simp: router_ok_def session_fresh_def)
  then show ?thesis
    using assms(1) client_link by (simp add: router_ok_def all_tokens_new_link link_tokens_def new_link_def key_tokens_def)
next
  case relay_link
  then show ?thesis
    using assms(1) by (simp add: router_ok_def all_tokens_new_link link_tokens_def new_link_def key_tokens_def)
next
  case (turn i io ev lk sh es)
  obtain R where R: "all_tokens env st = R + (link_tokens env (rt_links st ! i) + table_tokens (sh_circuits (rt_shared st)))"
    "all_tokens env st' = R + (link_tokens env lk + table_tokens (sh_circuits sh))"
    using all_tokens_turn [OF turn(2)] turn(1) by metis
  have t: "table_ok (sh_circuits (rt_shared st))" using assms(1) by (simp add: router_ok_def)
  from link_step_spends [OF turn(3) t] have "table_ok (sh_circuits sh)" "spends (seals es) (all_tokens env st) (all_tokens env st')"
    using spends_frame R by simp_all
  with assms(1) ledger_spends show ?thesis by (auto simp: router_ok_def turn(1))
qed

lemma router_reachable_ok: "router_reachable env st \<Longrightarrow> router_ok env st"
proof (induction rule: router_reachable.induct)
  case start
  show ?case by (simp add: router_ok_def new_router_def all_tokens_def table_tokens_def table_ok_def ledger_ok_def)
qed (rule router_step_ok)

text \<open>
  Claim C8. No count of a key is used twice. Through any run of a relay, however its links interleave, whatever their
  peers send and whatever fails, no two cells towards a client are sealed with the same key and the same
  count, neither in the table nor on a stream; no circuit ID names two circuits; and the table holds at most
  65536 circuits.
\<close>

theorem no_count_used_twice:
  assumes "router_reachable env st"
  shows "distinct (seals (rt_log st)) \<and> distinct (map fst (sh_circuits (rt_shared st)))
    \<and> length (sh_circuits (rt_shared st)) \<le> MAX_CIRCUITS"
  using router_reachable_ok [OF assms] by (simp add: router_ok_def ledger_ok_def table_ok_def)

theorem no_count_used_twice_witness:
  "distinct (seals (rt_log (new_router\<lparr>rt_links := [new_link Relay_Link None]\<rparr>)))"
proof -
  have "router_step sample_router new_router (new_router\<lparr>rt_links := rt_links new_router @ [new_link Relay_Link None]\<rparr>)"
    by (rule router_step.relay_link)
  then have "router_reachable sample_router (new_router\<lparr>rt_links := rt_links new_router @ [new_link Relay_Link None]\<rparr>)"
    by (rule router_reachable.step [OF router_reachable.start])
  from no_count_used_twice [OF this] show ?thesis by (simp add: new_router_def)
qed

section \<open>Services that register again\<close>

text \<open>
  A service that registers again at the same relay, on a new link after its old one broke, replaces the old
  entry of the registry. The old link's task then has no sender left, and when it sees that, it removes the
  entry of its hash: the new one. The service is gone although its new link still waits.
\<close>

lemma registered_again_is_lost:
  assumes "lk_mode old = Waiting c l hash" "lk_mode new = Waiting c' l' hash" "map_of (sh_registry sh) hash = Some j"
    and "link_step env io i Senders_Gone old sh = (old', sh', es)"
  shows "map_of (sh_registry sh') hash = None \<and> lk_mode new = Waiting c' l' hash"
  using assms by (auto simp: link_step_def delete_conv')

lemma registering_replaces:
  assumes "verify_registration (e_ed env) (e_blake3 env) (io_wall io) hash pk t sig = Ok ()"
    and "handle_exit_command env io me cid l (RegisterService hash pk t sig) reg = (reg', m, es)"
  shows "map_of reg' hash = Some me"
  using assms by (auto simp: handle_exit_command_def update_conv')

end
