(* ===== verification/Addr_Parse.thy ===== *)
theory Addr_Parse
  imports Text_Format
begin

text \<open>
  How Rust's standard library reads addresses (\<^verbatim>\<open>str::parse\<close> for \<^verbatim>\<open>Ipv6Addr\<close>, \<^verbatim>\<open>IpAddr\<close>
  and \<^verbatim>\<open>SocketAddr\<close>): a parser that reads a prefix of the text and must reach its end.
  An IPv6 address is up to eight groups, the last two possibly an IPv4 address, with
  at most one \<^verbatim>\<open>::\<close> for the zero groups left out.
\<close>

definition hex_val :: "char \<Rightarrow> nat" where
  "hex_val c = (if is_ascii_digit c then of_char c - 48
     else if is_ascii_lowercase c then of_char c - 87 else of_char c - 55)"

definition hex_number :: "string \<Rightarrow> nat" where
  "hex_number s = foldl (\<lambda>acc c. acc * 16 + hex_val c) 0 s"

text \<open>A run of digits that is not too long, and what follows it.\<close>

definition read_run :: "(char \<Rightarrow> bool) \<Rightarrow> nat \<Rightarrow> string \<Rightarrow> (string \<times> string) option" where
  "read_run p n s = (let ds = takeWhile p s in
     if ds = [] \<or> n < length ds then None else Some (ds, dropWhile p s))"

definition read_octet :: "string \<Rightarrow> (u8 \<times> string) option" where
  "read_octet s = (case read_run is_ascii_digit 3 s of
      None \<Rightarrow> None
    | Some (ds, rest) \<Rightarrow> map_option (\<lambda>b. (b, rest)) (parse_octet ds))"

definition read_char :: "char \<Rightarrow> string \<Rightarrow> string option" where
  "read_char c s = (case s of x # rest \<Rightarrow> if x = c then Some rest else None | [] \<Rightarrow> None)"

fun read_octets :: "nat \<Rightarrow> string \<Rightarrow> (u8 list \<times> string) option" where
  "read_octets 0 s = Some ([], s)"
| "read_octets (Suc n) s = (case read_char (CHR ''.'') s of
      None \<Rightarrow> None
    | Some s \<Rightarrow> (case read_octet s of
        None \<Rightarrow> None
      | Some (b, rest) \<Rightarrow> map_option (\<lambda>(bs, rest). (b # bs, rest)) (read_octets n rest)))"

definition read_ipv4 :: "string \<Rightarrow> (ipv4 \<times> string) option" where
  "read_ipv4 s = (case read_octet s of
      None \<Rightarrow> None
    | Some (a, rest) \<Rightarrow> (case read_octets 3 rest of
        Some ([b, c, d], rest) \<Rightarrow> Some (ipv4_new a b c d, rest)
      | _ \<Rightarrow> None))"

definition read_group :: "string \<Rightarrow> (u16 \<times> string) option" where
  "read_group s = map_option (\<lambda>(ds, rest). (of_nat (hex_number ds), rest)) (read_run is_ascii_hexdigit 4 s)"

text \<open>
  \<open>read_groups i n s\<close> reads at most \<open>n\<close> more groups when \<open>i\<close> have been read, and says
  whether they end in an IPv4 address.
\<close>

definition after_sep :: "nat \<Rightarrow> string \<Rightarrow> string option" where
  "after_sep i s = (if i = 0 then Some s else read_char (CHR '':'') s)"

fun read_groups :: "nat \<Rightarrow> nat \<Rightarrow> string \<Rightarrow> u16 list \<times> bool \<times> string" where
  "read_groups i 0 s = ([], False, s)"
| "read_groups i (Suc n) s = (case after_sep i s of
      None \<Rightarrow> ([], False, s)
    | Some t \<Rightarrow>
        (case (if n = 0 then None else read_ipv4 t) of
           Some (v4, rest) \<Rightarrow> ([ucast (drop_bit 16 v4), ucast v4], True, rest)
         | None \<Rightarrow> (case read_group t of
             None \<Rightarrow> ([], False, s)
           | Some (g, rest) \<Rightarrow> (case read_groups (Suc i) n rest of (gs, v4, rest) \<Rightarrow> (g # gs, v4, rest)))))"

definition ipv6_of_segments :: "u16 list \<Rightarrow> ipv6" where
  "ipv6_of_segments gs = foldl (\<lambda>acc g. acc * 65536 + ucast g) 0 gs"

definition read_ipv6 :: "string \<Rightarrow> (ipv6 \<times> string) option" where
  "read_ipv6 s = (case read_groups 0 8 s of (head, v4, rest) \<Rightarrow>
     if length head = 8 then Some (ipv6_of_segments head, rest)
     else if v4 then None
     else (case rest of
         a # b # rest \<Rightarrow>
           (if a = CHR '':'' \<and> b = CHR '':'' then
              (case read_groups 0 (7 - length head) rest of (tail, _, rest) \<Rightarrow>
                 Some (ipv6_of_segments (head @ replicate (8 - length head - length tail) 0 @ tail), rest))
            else None)
       | _ \<Rightarrow> None))"

definition parse_ipv6 :: "string \<Rightarrow> ipv6 option" where
  "parse_ipv6 s = (case read_ipv6 s of Some (a, []) \<Rightarrow> Some a | _ \<Rightarrow> None)"

definition parse_ip :: "string \<Rightarrow> ip_addr option" where
  "parse_ip s = (case parse_ipv4 s of
      Some a \<Rightarrow> Some (V4 a)
    | None \<Rightarrow> map_option V6 (parse_ipv6 s))"

definition read_port :: "string \<Rightarrow> u16 option" where
  "read_port s = (case read_char (CHR '':'') s of
      None \<Rightarrow> None
    | Some ds \<Rightarrow> (if ds = [] \<or> \<not> list_all is_ascii_digit ds \<or> 65535 < dec_val ds then None
        else Some (of_nat (dec_val ds))))"

text \<open>The scope of an IPv6 socket address (\<^verbatim>\<open>%1\<close>) is read and, like the flow label, not kept here.\<close>

definition read_scope :: "string \<Rightarrow> string option" where
  "read_scope s = (case read_char (CHR ''%'') s of
      None \<Rightarrow> Some s
    | Some t \<Rightarrow> (let ds = takeWhile is_ascii_digit t in
        if ds = [] \<or> 4294967295 < dec_val ds then None else Some (dropWhile is_ascii_digit t)))"

definition parse_socket_addr :: "string \<Rightarrow> socket_addr option" where
  "parse_socket_addr s = (case read_ipv4 s of
      Some (a, rest) \<Rightarrow> map_option (\<lambda>p. \<lparr>sa_ip = V4 a, sa_port = p\<rparr>) (read_port rest)
    | None \<Rightarrow> (case Option.bind (read_char (CHR ''['') s) read_ipv6 of
        None \<Rightarrow> None
      | Some (a, rest) \<Rightarrow> (case Option.bind (read_scope rest) (read_char (CHR '']'')) of
          None \<Rightarrow> None
        | Some rest \<Rightarrow> map_option (\<lambda>p. \<lparr>sa_ip = V6 a, sa_port = p\<rparr>) (read_port rest))))"

lemma read_run_digits:
  "list_all p ds \<Longrightarrow> ds \<noteq> [] \<Longrightarrow> length ds \<le> n \<Longrightarrow> rest = [] \<or> \<not> p (hd rest) \<Longrightarrow>
   read_run p n (ds @ rest) = Some (ds, rest)"
  by (cases rest) (simp_all add: read_run_def Let_def list_all_iff takeWhile_append2 dropWhile_append2 takeWhile_eq_all_conv [THEN iffD2])

lemma read_show_octet:
  "rest = [] \<or> \<not> is_ascii_digit (hd rest) \<Longrightarrow> read_octet (show_nat (unat x) @ rest) = Some (x, rest)" for x :: u8
  by (simp add: read_octet_def read_run_digits length_show_octet)

lemma read_show_ipv4:
  assumes "rest = [] \<or> \<not> is_ascii_digit (hd rest)"
  shows "read_ipv4 (show_ipv4 a @ rest) = Some (a, rest)"
proof -
  have dot: "\<not> is_ascii_digit (CHR ''.'')" by (simp add: is_ascii_digit_def)
  show ?thesis using assms
    by (simp add: read_ipv4_def show_ipv4_def read_show_octet dot numeral_3_eq_3 read_char_def ipv4_new_octets [unfolded numeral_3_eq_3, simplified])
qed

lemma parse_show_socket_v4:
  "sa_ip a = V4 v \<Longrightarrow> parse_socket_addr (show_socket_addr a) = Some a"
proof -
  assume v: "sa_ip a = V4 v"
  have colon: "\<not> is_ascii_digit (CHR '':'')" by (simp add: is_ascii_digit_def)
  have "unat (sa_port a) < 65536" using unsigned_less [of "sa_port a"] by simp
  then have "read_port (CHR '':'' # show_nat (unat (sa_port a))) = Some (sa_port a)"
    by (simp add: read_port_def read_char_def)
  with v colon show ?thesis
    by (simp add: parse_socket_addr_def show_socket_addr_def read_show_ipv4)
qed

end
