(* ===== verification/Client_Circuit.thy ===== *)
theory Client_Circuit
  imports Router Addr_Parse
begin

text \<open>
  The client's side of a circuit (\<^verbatim>\<open>hidra-node/src/client/streaming.rs\<close>): building it hop by hop through the hops
  already in it, and the stream it then carries, to a target or sealed to a hidden service; the pool of
  circuits built ahead (\<^verbatim>\<open>circuit_pool.rs\<close>), the one-shot client (\<^verbatim>\<open>session.rs\<close>) and the list of relays (\<^verbatim>\<open>relay/registry.rs\<close>).

  The connection to the guard is a parameter: \<open>guard_ops\<close> says what a world \<open>'w\<close> answers, so a theorem that holds for
  every such record holds against every network, and one about honest relays instantiates it with
  them. Fresh keys, the circuit's ID and the order a shuffle gives are arguments.

  The lemmas show that every hop of a circuit that was built proved the key on record for it.
\<close>

section \<open>Relays\<close>

record relay_info =
  ri_name :: string
  ri_addr :: string
  ri_noise_pubkey :: string

record relay_entry =
  re_name :: string
  re_addr :: socket_addr
  re_noise_pubkey_b64 :: string

datatype client_error =
    BadRelayAddr string
  | TooFewRelays
  | NotAKnownRelay
  | NoKeyOnRecord
  | KeyNotBase64
  | KeyNot32Bytes
  | WrongIdentity
  | Link_Failed
  | Noise noise_error
  | OnionFailed onion_error
  | CodecFailed
  | NotExtended string
  | Odd_Reply relay_command
  | Odd_Message message
  | Odd_Bytes link_error
  | Failed_There string
  | ClosedUnproven
  | Unproven auth_error
  | NotText

fun load_relay_list :: "relay_info list \<Rightarrow> client_error + relay_entry list" where
  "load_relay_list [] = Ok []"
| "load_relay_list (r # rs) = (case parse_socket_addr (ri_addr r) of
      None \<Rightarrow> Err (BadRelayAddr (ri_addr r))
    | Some addr \<Rightarrow> bind_result (load_relay_list rs) (\<lambda>es.
        Ok (\<lparr>re_name = ri_name r, re_addr = addr, re_noise_pubkey_b64 = ri_noise_pubkey r\<rparr> # es)))"

definition expected_key :: "(string \<Rightarrow> bytes option) \<Rightarrow> relay_entry \<Rightarrow> client_error + bytes" where
  "expected_key b64 relay =
     (let text = trim (re_noise_pubkey_b64 relay)
      in if text = [] then Err NoKeyOnRecord
         else (case b64 text of
             None \<Rightarrow> Err KeyNotBase64
           | Some key \<Rightarrow> if length key = 32 then Ok key else Err KeyNot32Bytes))"

definition check_identity :: "handshake_state \<Rightarrow> bytes \<Rightarrow> client_error + unit" where
  "check_identity hs expected = (case remote_static_public hs of
      Some got \<Rightarrow> if got = expected then Ok () else Err WrongIdentity
    | None \<Rightarrow> Err WrongIdentity)"

section \<open>The connection to the guard\<close>

text \<open>
  Message A out and B back (\<open>None\<close> when the guard is not reached), message C out, and messages of the secure connection
  that follows, each way.
\<close>

record 'w guard_ops =
  g_greet :: "'w \<Rightarrow> bytes \<Rightarrow> 'w \<times> bytes option"
  g_finish :: "'w \<Rightarrow> bytes \<Rightarrow> 'w \<times> bool"
  g_send :: "'w \<Rightarrow> message \<Rightarrow> 'w \<times> bool"
  g_recv :: "'w \<Rightarrow> 'w \<times> message option"

text \<open>A message out and the next one back.\<close>

definition ask :: "('w, 'z) guard_ops_scheme \<Rightarrow> 'w \<Rightarrow> message \<Rightarrow> 'w \<times> (client_error + message)" where
  "ask g w msg = (case g_send g w msg of
      (w, False) \<Rightarrow> (w, Err Link_Failed)
    | (w, True) \<Rightarrow> (case g_recv g w of
        (w, None) \<Rightarrow> (w, Err Link_Failed)
      | (w, Some answer) \<Rightarrow> (w, Ok answer)))"

definition relay_data :: "message \<Rightarrow> client_error + bytes" where
  "relay_data msg = (case msg of Relay _ data \<Rightarrow> Ok data | other \<Rightarrow> Err (Odd_Message other))"

text \<open>The keys drawn for one handshake: static, ephemeral, and the seed of the ML-KEM pair.\<close>

record fresh_keys =
  fk_secret :: bytes
  fk_eph :: bytes
  fk_kem :: bytes

definition start_handshake :: "('z) noise_ops_scheme \<Rightarrow> fresh_keys \<Rightarrow> client_error + handshake_state \<times> bytes" where
  "start_handshake ops fk = map_sum Noise id (write_message_a ops (fk_eph fk) (fk_kem fk) (new_handshake ops Initiator (fk_secret fk)))"

text \<open>From message B on: the identity of the peer, message C, and the ciphers with the session key.\<close>

definition end_handshake :: "('z) noise_ops_scheme \<Rightarrow> bytes \<Rightarrow> bytes \<Rightarrow> handshake_state
    \<Rightarrow> client_error + bytes \<times> cipher_state \<times> cipher_state \<times> bytes" where
  "end_handshake ops expected msg_b hs =
     bind_result (map_sum Noise id (read_message_b ops msg_b hs)) (\<lambda>hs.
     bind_result (check_identity hs expected) (\<lambda>_.
     bind_result (map_sum Noise id (write_message_c ops hs)) (\<lambda>(hs, msg_c).
     let (send_cipher, recv_cipher) = into_transport ops hs
     in bind_result (map_sum Noise id (session_key send_cipher)) (\<lambda>key. Ok (msg_c, send_cipher, recv_cipher, key)))))"

definition direct_handshake :: "('z) noise_ops_scheme \<Rightarrow> ('w, 'y) guard_ops_scheme \<Rightarrow> 'w \<Rightarrow> fresh_keys \<Rightarrow> bytes \<Rightarrow> u32
    \<Rightarrow> 'w \<times> (client_error + bytes)" where
  "direct_handshake ops g w fk expected cid = (case start_handshake ops fk of
      Err e \<Rightarrow> (w, Err e)
    | Ok (hs, msg_a) \<Rightarrow> (case g_greet g w msg_a of
        (w, None) \<Rightarrow> (w, Err Link_Failed)
      | (w, Some msg_b) \<Rightarrow> (case end_handshake ops expected msg_b hs of
          Err e \<Rightarrow> (w, Err e)
        | Ok (msg_c, _, _, key) \<Rightarrow> (case g_finish g w msg_c of
            (w, False) \<Rightarrow> (w, Err Link_Failed)
          | (w, True) \<Rightarrow> (case ask g w (CreateCircuit cid) of
              (w, Err e) \<Rightarrow> (w, Err e)
            | (w, Ok answer) \<Rightarrow> (w, if answer = CircuitCreated cid then Ok key else Err (Odd_Message answer)))))))"

section \<open>Extending a circuit\<close>

definition encode :: "router_env \<Rightarrow> relay_command \<Rightarrow> client_error + bytes" where
  "encode env cmd = (case e_ser env cmd of None \<Rightarrow> Err CodecFailed | Some b \<Rightarrow> Ok b)"

definition decode :: "router_env \<Rightarrow> bytes \<Rightarrow> client_error + relay_command" where
  "decode env b = (case e_deser env b of None \<Rightarrow> Err CodecFailed | Some cmd \<Rightarrow> Ok cmd)"

definition read_reply :: "router_env \<Rightarrow> circuit \<Rightarrow> message \<Rightarrow> circuit \<times> (client_error + bytes)" where
  "read_reply env circ answer = (case relay_data answer of
      Err e \<Rightarrow> (circ, Err e)
    | Ok data \<Rightarrow> (case peel_response_layers (e_aead env) circ data of (circ, r) \<Rightarrow> (circ, map_sum OnionFailed id r)))"

text \<open>An onion out, in a message of either kind, and the reply peeled.\<close>

definition onion_round :: "router_env \<Rightarrow> ('w, 'y) guard_ops_scheme \<Rightarrow> (u32 \<Rightarrow> bytes \<Rightarrow> message) \<Rightarrow> bytes \<Rightarrow> 'w \<Rightarrow> circuit
    \<Rightarrow> 'w \<times> circuit \<times> (client_error + bytes)" where
  "onion_round env g kind payload w circ = (case build_onion (e_aead env) (e_codec env) circ payload of
      (circ, Err e) \<Rightarrow> (w, circ, Err (OnionFailed e))
    | (circ, Ok onion) \<Rightarrow> (case ask g w (kind (circuit_id circ) onion) of
        (w, Err e) \<Rightarrow> (w, circ, Err e)
      | (w, Ok answer) \<Rightarrow> (case read_reply env circ answer of (circ, r) \<Rightarrow> (w, circ, r))))"

definition command_round :: "router_env \<Rightarrow> ('w, 'y) guard_ops_scheme \<Rightarrow> (u32 \<Rightarrow> bytes \<Rightarrow> message) \<Rightarrow> relay_command \<Rightarrow> 'w \<Rightarrow> circuit
    \<Rightarrow> 'w \<times> circuit \<times> (client_error + relay_command)" where
  "command_round env g kind cmd w circ = (case encode env cmd of
      Err e \<Rightarrow> (w, circ, Err e)
    | Ok b \<Rightarrow> (case onion_round env g kind b w circ of (w, circ, r) \<Rightarrow> (w, circ, bind_result r (decode env))))"

definition control_round :: "router_env \<Rightarrow> ('w, 'y) guard_ops_scheme \<Rightarrow> relay_command \<Rightarrow> 'w \<Rightarrow> circuit
    \<Rightarrow> 'w \<times> circuit \<times> (client_error + relay_command)" where
  "control_round env g cmd = command_round env g Relay cmd"

definition extended :: "relay_command \<Rightarrow> client_error + bytes" where
  "extended reply_cmd = (case reply_cmd of
      Extended frame \<Rightarrow> Ok frame
    | ExtendError why \<Rightarrow> Err (NotExtended why)
    | other \<Rightarrow> Err (Odd_Reply other))"

definition extend_done :: "relay_command \<Rightarrow> client_error + bytes" where
  "extend_done reply_cmd = (case reply_cmd of
      ExtendDone frame \<Rightarrow> Ok frame
    | ExtendError why \<Rightarrow> Err (NotExtended why)
    | other \<Rightarrow> Err (Odd_Reply other))"

text \<open>The new hop's answer to the circuit it was asked for, opened with the key just agreed.\<close>

definition confirm :: "('z) noise_ops_scheme \<Rightarrow> u32 \<Rightarrow> cipher_state \<Rightarrow> bytes \<Rightarrow> client_error + unit" where
  "confirm ops cid recv_cipher sealed_created =
     bind_result (map_sum Noise id (transport_decrypt ops sealed_created recv_cipher)) (\<lambda>(_, plaintext).
     bind_result (map_sum Odd_Bytes id (deserialize plaintext)) (\<lambda>msg.
     if msg = CircuitCreated cid then Ok () else Err (Odd_Message msg)))"

definition extend_to :: "('z) noise_ops_scheme \<Rightarrow> router_env \<Rightarrow> ('w, 'y) guard_ops_scheme \<Rightarrow> fresh_keys \<Rightarrow> socket_addr \<Rightarrow> bytes \<Rightarrow> 'w \<Rightarrow> circuit
    \<Rightarrow> 'w \<times> circuit \<times> (client_error + bytes)" where
  "extend_to ops env g fk to_addr expected w circ = (case start_handshake ops fk of
      Err e \<Rightarrow> (w, circ, Err e)
    | Ok (hs, msg_a) \<Rightarrow> (case control_round env g (Extend to_addr msg_a) w circ of
        (w, circ, r) \<Rightarrow> (case bind_result (bind_result r extended) (\<lambda>msg_b. end_handshake ops expected msg_b hs) of
          Err e \<Rightarrow> (w, circ, Err e)
        | Ok (msg_c, send_cipher, recv_cipher, key) \<Rightarrow>
            (case transport_encrypt ops (serialize (CreateCircuit (circuit_id circ))) send_cipher of
               Err e \<Rightarrow> (w, circ, Err (Noise e))
             | Ok (_, sealed_create) \<Rightarrow> (case control_round env g (ExtendFinish msg_c sealed_create) w circ of
                 (w, circ, r) \<Rightarrow> (w, circ, bind_result (bind_result r extend_done) (\<lambda>created.
                   bind_result (confirm ops (circuit_id circ) recv_cipher created) (\<lambda>_. Ok key))))))))"

definition new_hop :: "router_env \<Rightarrow> relay_entry \<Rightarrow> bytes \<Rightarrow> circuit_hop" where
  "new_hop env relay key = \<lparr>hop_addr = re_addr relay, hop_layer = new_layer (e_hkdf env) key\<rparr>"

text \<open>The loop of \<open>build_telescoped\<close> over the relays after the guard.\<close>

fun extend_all :: "('z) noise_ops_scheme \<Rightarrow> router_env \<Rightarrow> (string \<Rightarrow> bytes option) \<Rightarrow> ('w, 'y) guard_ops_scheme \<Rightarrow> (fresh_keys \<times> relay_entry) list \<Rightarrow> 'w \<Rightarrow> circuit
    \<Rightarrow> 'w \<times> (client_error + circuit)" where
  "extend_all ops env b64 g [] w circ = (w, Ok circ)"
| "extend_all ops env b64 g ((fk, relay) # todo) w circ = (case expected_key b64 relay of
      Err e \<Rightarrow> (w, Err e)
    | Ok expected \<Rightarrow> (case extend_to ops env g fk (re_addr relay) expected w circ of
        (w, circ, Err e) \<Rightarrow> (w, Err e)
      | (w, circ, Ok key) \<Rightarrow> extend_all ops env b64 g todo w (circ\<lparr>hops := hops circ @ [new_hop env relay key]\<rparr>)))"

definition build_telescoped :: "('z) noise_ops_scheme \<Rightarrow> router_env \<Rightarrow> (string \<Rightarrow> bytes option) \<Rightarrow> ('w, 'y) guard_ops_scheme \<Rightarrow> u32 \<Rightarrow> fresh_keys list \<Rightarrow> relay_entry list \<Rightarrow> 'w
    \<Rightarrow> 'w \<times> (client_error + circuit)" where
  "build_telescoped ops env b64 g cid fks relays w = (case zip fks (take 3 relays) of
      [] \<Rightarrow> (w, Err TooFewRelays)
    | (fk, guard) # todo \<Rightarrow> (case expected_key b64 guard of
        Err e \<Rightarrow> (w, Err e)
      | Ok expected \<Rightarrow> (case direct_handshake ops g w fk expected cid of
          (w, Err e) \<Rightarrow> (w, Err e)
        | (w, Ok key) \<Rightarrow> extend_all ops env b64 g todo w \<lparr>circuit_id = cid, hops = [new_hop env guard key]\<rparr>)))"

section \<open>Streams\<close>

record streaming =
  st_circuit :: circuit
  st_addrs :: "socket_addr list"
  st_sealed :: "sealed_channel option"

definition build_streaming :: "('z) noise_ops_scheme \<Rightarrow> router_env \<Rightarrow> (string \<Rightarrow> bytes option) \<Rightarrow> ('w, 'y) guard_ops_scheme \<Rightarrow> u32 \<Rightarrow> fresh_keys list \<Rightarrow> relay_entry list \<Rightarrow> 'w
    \<Rightarrow> 'w \<times> (client_error + streaming)" where
  "build_streaming ops env b64 g cid fks relays w =
     (if length relays < 3 then (w, Err TooFewRelays)
      else (case build_telescoped ops env b64 g cid fks relays w of
          (w, r) \<Rightarrow> (w, bind_result r (\<lambda>circ. Ok \<lparr>st_circuit = circ, st_addrs = map re_addr (take 3 relays), st_sealed = None\<rparr>))))"

text \<open>The exit's first answer: \<open>good\<close>, or a refusal.\<close>

definition opened_as :: "relay_command \<Rightarrow> relay_command \<Rightarrow> client_error + unit" where
  "opened_as good answer =
     (if answer = good then Ok ()
      else (case answer of ConnectFailed reason \<Rightarrow> Err (Failed_There reason) | other \<Rightarrow> Err (Odd_Reply other)))"

definition stream_request :: "router_env \<Rightarrow> ('w, 'y) guard_ops_scheme \<Rightarrow> relay_command \<Rightarrow> 'w \<Rightarrow> streaming \<Rightarrow> 'w \<times> streaming \<times> (client_error + relay_command)" where
  "stream_request env g cmd w s = (case command_round env g StreamBegin cmd w (st_circuit s) of
      (w, circ, r) \<Rightarrow> (w, s\<lparr>st_circuit := circ\<rparr>, r))"

definition connect_stream :: "router_env \<Rightarrow> ('w, 'y) guard_ops_scheme \<Rightarrow> string \<Rightarrow> u16 \<Rightarrow> 'w \<Rightarrow> streaming \<Rightarrow> 'w \<times> streaming \<times> (client_error + unit)" where
  "connect_stream env g host port w s = (case stream_request env g (Connect host port) w s of
      (w, s, r) \<Rightarrow> (w, s, bind_result r (opened_as Connected)))"

definition connect_service :: "router_env \<Rightarrow> ('w, 'y) guard_ops_scheme \<Rightarrow> bytes \<Rightarrow> 'w \<Rightarrow> streaming \<Rightarrow> 'w \<times> streaming \<times> (client_error + unit)" where
  "connect_service env g hash w s = (case stream_request env g (ConnectService hash) w s of
      (w, s, r) \<Rightarrow> (w, s, bind_result r (opened_as ServiceConnected)))"

definition register_service :: "router_env \<Rightarrow> ('w, 'y) guard_ops_scheme \<Rightarrow> bytes \<Rightarrow> 64 word \<Rightarrow> 'w \<Rightarrow> streaming \<Rightarrow> 'w \<times> streaming \<times> (client_error + unit)" where
  "register_service env g service_key now w s =
     (let (pubkey, timestamp, signature) = registration_proof (e_ed env) (e_blake3 env) service_key now
      in case stream_request env g (RegisterService (service_hash_of (e_blake3 env) pubkey) pubkey timestamp signature) w s of
          (w, s, r) \<Rightarrow> (w, s, bind_result r (opened_as ServiceRegistered)))"

text \<open>The loop of \<open>wrap_all_stream_layers\<close>, from the last hop to the first.\<close>

fun wrap_stream :: "aead \<Rightarrow> circuit_hop list \<Rightarrow> bytes \<Rightarrow> circuit_hop list \<times> (onion_error + bytes)" where
  "wrap_stream a [] current = ([], Ok current)"
| "wrap_stream a (h # hs) current = (case wrap_stream a hs current of
      (hs', Err e) \<Rightarrow> (h # hs', Err e)
    | (hs', Ok inner) \<Rightarrow> (let (l, r) = seal_forward a (hop_layer h) inner in (h\<lparr>hop_layer := l\<rparr> # hs', r)))"

definition wrap_all_stream_layers :: "aead \<Rightarrow> circuit \<Rightarrow> bytes \<Rightarrow> circuit \<times> (onion_error + bytes)" where
  "wrap_all_stream_layers a circ data = (case pad_cell data of
      Err e \<Rightarrow> (circ, Err e)
    | Ok current \<Rightarrow> (let (hs, r) = wrap_stream a (hops circ) current in (circ\<lparr>hops := hs\<rparr>, r)))"

definition peel_all_stream_layers :: "aead \<Rightarrow> circuit \<Rightarrow> bytes \<Rightarrow> circuit \<times> (onion_error + bytes)" where
  "peel_all_stream_layers a circ data =
     (let (hs, r) = peel_hops a (hops circ) data in (circ\<lparr>hops := hs\<rparr>, bind_result r unpad_cell))"

definition send_stream :: "router_env \<Rightarrow> ('w, 'y) guard_ops_scheme \<Rightarrow> relay_command \<Rightarrow> 'w \<Rightarrow> streaming \<Rightarrow> 'w \<times> streaming \<times> (client_error + unit)" where
  "send_stream env g cmd w s = (case encode env cmd of
      Err e \<Rightarrow> (w, s, Err e)
    | Ok b \<Rightarrow> (case wrap_all_stream_layers (e_aead env) (st_circuit s) b of
        (circ, Err e) \<Rightarrow> (w, s\<lparr>st_circuit := circ\<rparr>, Err (OnionFailed e))
      | (circ, Ok encrypted) \<Rightarrow> (case g_send g w (Relay (circuit_id circ) encrypted) of
          (w, ok) \<Rightarrow> (w, s\<lparr>st_circuit := circ\<rparr>, if ok then Ok () else Err Link_Failed))))"

definition send_raw :: "router_env \<Rightarrow> ('w, 'y) guard_ops_scheme \<Rightarrow> bytes \<Rightarrow> 'w \<Rightarrow> streaming \<Rightarrow> 'w \<times> streaming \<times> (client_error + unit)" where
  "send_raw env g data = send_stream env g (Data data)"

definition send_end :: "router_env \<Rightarrow> ('w, 'y) guard_ops_scheme \<Rightarrow> 'w \<Rightarrow> streaming \<Rightarrow> 'w \<times> streaming \<times> (client_error + unit)" where
  "send_end env g = send_stream env g End"

definition recv_raw :: "router_env \<Rightarrow> ('w, 'y) guard_ops_scheme \<Rightarrow> 'w \<Rightarrow> streaming \<Rightarrow> 'w \<times> streaming \<times> (client_error + bytes option)" where
  "recv_raw env g w s = (case g_recv g w of
      (w, None) \<Rightarrow> (w, s, Err Link_Failed)
    | (w, Some msg) \<Rightarrow> (case relay_data msg of
        Err e \<Rightarrow> (w, s, Err e)
      | Ok data \<Rightarrow> (case peel_all_stream_layers (e_aead env) (st_circuit s) data of
          (circ, r) \<Rightarrow> (w, s\<lparr>st_circuit := circ\<rparr>, bind_result (map_sum OnionFailed id r) (\<lambda>b. bind_result (decode env b) (\<lambda>cmd. case cmd of
              Data payload \<Rightarrow> Ok (Some payload)
            | End \<Rightarrow> Ok None
            | other \<Rightarrow> Err (Odd_Reply other)))))))"

definition SEAL_OVERHEAD :: nat where "SEAL_OVERHEAD = 16"

text \<open>The next piece as it goes over the circuit: sealed once the service has proven itself.\<close>

definition seal_piece :: "aead \<Rightarrow> bytes \<Rightarrow> streaming \<Rightarrow> streaming \<times> (client_error + bytes)" where
  "seal_piece a piece s = (case st_sealed s of
      None \<Rightarrow> (s, Ok piece)
    | Some ch \<Rightarrow> (case channel_seal a piece ch of (ch, r) \<Rightarrow> (s\<lparr>st_sealed := Some ch\<rparr>, map_sum Unproven id r)))"

fun send_pieces :: "router_env \<Rightarrow> ('w, 'y) guard_ops_scheme \<Rightarrow> bytes list \<Rightarrow> 'w \<Rightarrow> streaming \<Rightarrow> 'w \<times> streaming \<times> (client_error + unit)" where
  "send_pieces env g [] w s = (w, s, Ok ())"
| "send_pieces env g (piece # pieces) w s = (case seal_piece (e_aead env) piece s of
      (s, Err e) \<Rightarrow> (w, s, Err e)
    | (s, Ok out) \<Rightarrow> (case send_raw env g out w s of
        (w, s, Err e) \<Rightarrow> (w, s, Err e)
      | (w, s, Ok _) \<Rightarrow> send_pieces env g pieces w s))"

definition piece_size :: "streaming \<Rightarrow> nat" where
  "piece_size s = (if st_sealed s = None then MAX_DATA else MAX_DATA - SEAL_OVERHEAD)"

definition send_data :: "router_env \<Rightarrow> ('w, 'y) guard_ops_scheme \<Rightarrow> bytes \<Rightarrow> 'w \<Rightarrow> streaming \<Rightarrow> 'w \<times> streaming \<times> (client_error + unit)" where
  "send_data env g data w s = send_pieces env g (chunks (piece_size s) data) w s"

definition recv_data :: "router_env \<Rightarrow> ('w, 'y) guard_ops_scheme \<Rightarrow> 'w \<Rightarrow> streaming \<Rightarrow> 'w \<times> streaming \<times> (client_error + bytes option)" where
  "recv_data env g w s = (case recv_raw env g w s of
      (w, s, Ok (Some payload)) \<Rightarrow> (case st_sealed s of
          None \<Rightarrow> (w, s, Ok (Some payload))
        | Some ch \<Rightarrow> (case channel_open (e_aead env) payload ch of
            (ch, r) \<Rightarrow> (w, s\<lparr>st_sealed := Some ch\<rparr>, map_sum Unproven Some r)))
    | (w, s, r) \<Rightarrow> (w, s, r))"

definition connect_service_authenticated :: "router_env \<Rightarrow> ('x) exchange_ops_scheme \<Rightarrow> ('w, 'y) guard_ops_scheme \<Rightarrow> bytes \<Rightarrow> bytes \<Rightarrow> bytes \<Rightarrow> 'w \<Rightarrow> streaming
    \<Rightarrow> 'w \<times> streaming \<times> (client_error + unit)" where
  "connect_service_authenticated env x g eph nc pubkey w s =
     (case connect_service env g (service_hash_of (e_blake3 env) pubkey) w s of
        (w, s, Err e) \<Rightarrow> (w, s, Err e)
      | (w, s, Ok _) \<Rightarrow>
          (let (handshake, hello) = client_start x eph nc
           in case send_raw env g hello w s of
               (w, s, Err e) \<Rightarrow> (w, s, Err e)
             | (w, s, Ok _) \<Rightarrow> (case recv_raw env g w s of
                 (w, s, Err e) \<Rightarrow> (w, s, Err e)
               | (w, s, Ok None) \<Rightarrow> (w, s, Err ClosedUnproven)
               | (w, s, Ok (Some answer)) \<Rightarrow> (case client_finish (e_ed env) (e_blake3 env) x pubkey answer handshake of
                   Err e \<Rightarrow> (w, s, Err (Unproven e))
                 | Ok ch \<Rightarrow> (w, s\<lparr>st_sealed := Some ch\<rparr>, Ok ())))))"

section \<open>The pool\<close>

definition POOL_CIRCUIT_TTL :: nat where "POOL_CIRCUIT_TTL = secs 300"
definition POOL_TARGET_SIZE :: nat where "POOL_TARGET_SIZE = 3"
definition MAX_POOL_SIZE :: nat where "MAX_POOL_SIZE = 10"

text \<open>A pool is its circuits with the instants they were made at. \<open>shuffle\<close> is the order a shuffle gives.\<close>

type_synonym 'c pool = "('c \<times> nat) list"

definition has_identity :: "relay_entry \<Rightarrow> bool" where
  "has_identity r \<longleftrightarrow> trim (re_noise_pubkey_b64 r) \<noteq> []"

definition select_relays :: "(relay_entry list \<Rightarrow> relay_entry list) \<Rightarrow> relay_entry list \<Rightarrow> client_error + relay_entry list" where
  "select_relays shuffle relays =
     (let known = filter has_identity relays
      in if length known < 3 then Err TooFewRelays else Ok (take 3 (shuffle known)))"

definition path_via :: "(relay_entry list \<Rightarrow> relay_entry list) \<Rightarrow> socket_addr \<Rightarrow> relay_entry list \<Rightarrow> client_error + relay_entry list" where
  "path_via shuffle exit_addr relays = (case find (\<lambda>r. re_addr r = exit_addr \<and> has_identity r) relays of
      None \<Rightarrow> Err NotAKnownRelay
    | Some last_hop \<Rightarrow>
        (let others = filter (\<lambda>r. re_addr r \<noteq> exit_addr \<and> has_identity r) relays
         in if length others < 2 then Err TooFewRelays else Ok (take 2 (shuffle others) @ [last_hop])))"

text \<open>\<^verbatim>\<open>get_circuit\<close>, on the pool from its end: the first circuit that is not stale, and what is left.\<close>

fun pop_fresh :: "nat \<Rightarrow> 'c pool \<Rightarrow> 'c pool \<times> 'c option" where
  "pop_fresh now [] = ([], None)"
| "pop_fresh now ((c, created_at) # rest) = (if now - created_at < POOL_CIRCUIT_TTL then (rest, Some c) else pop_fresh now rest)"

definition take_pooled :: "nat \<Rightarrow> 'c pool \<Rightarrow> 'c pool \<times> 'c option" where
  "take_pooled now entries = (case pop_fresh now (rev entries) of (rest, c) \<Rightarrow> (rev rest, c))"

text \<open>\<^verbatim>\<open>maintain\<close>: \<open>built\<close> are the outcomes of the circuits it builds, with the instants they are done.\<close>

fun prebuild :: "nat \<Rightarrow> (nat \<times> (client_error + 'c)) list \<Rightarrow> 'c pool \<Rightarrow> 'c pool" where
  "prebuild 0 built entries = entries"
| "prebuild (Suc n) [] entries = entries"
| "prebuild (Suc n) ((at, Err e) # built) entries = entries"
| "prebuild (Suc n) ((at, Ok c) # built) entries =
     prebuild n built (if length entries < MAX_POOL_SIZE then entries @ [(c, at)] else entries)"

definition maintain :: "nat \<Rightarrow> (nat \<times> (client_error + 'c)) list \<Rightarrow> 'c pool \<Rightarrow> 'c pool" where
  "maintain now built entries =
     (let kept = filter (\<lambda>(_, created_at). now - created_at < POOL_CIRCUIT_TTL) entries
      in if length kept < POOL_TARGET_SIZE then prebuild (POOL_TARGET_SIZE - length kept) built kept else kept)"

section \<open>Every hop proves its key\<close>

text \<open>\<open>key\<close> is the session key of a handshake, from the keys \<open>fk\<close>, in which the other side showed the static key \<open>expected\<close>.\<close>

definition proves_key :: "('z) noise_ops_scheme \<Rightarrow> fresh_keys \<Rightarrow> bytes \<Rightarrow> bytes \<Rightarrow> bool" where
  "proves_key ops fk expected key \<longleftrightarrow> (\<exists>hs msg_a msg_b hs' msg_c send_cipher recv_cipher.
     start_handshake ops fk = Ok (hs, msg_a) \<and> read_message_b ops msg_b hs = Ok hs' \<and> remote_static_public hs' = Some expected
     \<and> end_handshake ops expected msg_b hs = Ok (msg_c, send_cipher, recv_cipher, key))"

fun authenticated_hop :: "('z) noise_ops_scheme \<Rightarrow> router_env \<Rightarrow> (string \<Rightarrow> bytes option) \<Rightarrow> fresh_keys \<times> relay_entry \<Rightarrow> circuit_hop \<Rightarrow> bool" where
  "authenticated_hop ops env b64 (fk, relay) hop \<longleftrightarrow> (\<exists>expected key. expected_key b64 relay = Ok expected \<and> proves_key ops fk expected key
     \<and> hop_addr hop = re_addr relay \<and> dir_key (fwd hop) = e_hkdf env key FORWARD_LABEL \<and> dir_key (bwd hop) = e_hkdf env key BACKWARD_LABEL)"

text \<open>Using a circuit moves the counts of its layers and nothing else.\<close>

definition same_hop :: "circuit_hop \<Rightarrow> circuit_hop \<Rightarrow> bool" where
  "same_hop h h' \<longleftrightarrow> hop_addr h' = hop_addr h \<and> dir_key (fwd h') = dir_key (fwd h) \<and> dir_key (bwd h') = dir_key (bwd h)"

definition same_circuit :: "circuit \<Rightarrow> circuit \<Rightarrow> bool" where
  "same_circuit c c' \<longleftrightarrow> circuit_id c' = circuit_id c \<and> list_all2 same_hop (hops c) (hops c')"

lemma same_hop_refl [simp]: "same_hop h h"
  by (simp add: same_hop_def)

lemma same_hops_refl [simp]: "list_all2 same_hop hs hs"
  by (simp add: list_all2_refl)

lemma same_circuit_refl [simp]: "same_circuit c c"
  by (simp add: same_circuit_def)

lemma same_hop_trans: "same_hop a b \<Longrightarrow> same_hop b c \<Longrightarrow> same_hop a c"
  by (simp add: same_hop_def)

lemma same_circuit_trans:
  assumes "same_circuit c c'" "same_circuit c' c''"
  shows "same_circuit c c''"
proof -
  have "list_all2 same_hop (hops c) (hops c')" "list_all2 same_hop (hops c') (hops c'')" using assms by (simp_all add: same_circuit_def)
  from list_all2_trans [OF same_hop_trans this] have "list_all2 same_hop (hops c) (hops c'')" .
  with assms show ?thesis by (simp add: same_circuit_def)
qed

lemma authenticated_same: "authenticated_hop ops env b64 r h \<Longrightarrow> same_hop h h' \<Longrightarrow> authenticated_hop ops env b64 r h'"
  by (cases r) (auto simp: same_hop_def)

lemma seal_keys: "seal a d m = (d', r) \<Longrightarrow> dir_key d' = dir_key d"
  by (auto simp: seal_def split: if_splits option.splits)

lemma open_keys: "open_cell a d m = (d', r) \<Longrightarrow> dir_key d' = dir_key d"
  by (auto simp: open_cell_def split: if_splits option.splits)

lemma seal_forward_cell_same: "seal_forward_cell a c (hop_layer h) header body = (l, r) \<Longrightarrow> same_hop h (h\<lparr>hop_layer := l\<rparr>)"
  by (auto simp: seal_forward_cell_def seal_forward_def same_hop_def Let_def split: option.splits prod.splits dest: seal_keys)

lemma wrap_hops_same: "wrap_hops a c hs body = (hs', r) \<Longrightarrow> list_all2 same_hop hs hs'"
proof (induction hs arbitrary: hs' r)
  case (Cons h hs)
  then show ?case
    by (auto simp: Let_def split: sum.splits prod.splits dest: seal_forward_cell_same)
qed simp

lemma peel_hops_same: "peel_hops a hs data = (hs', r) \<Longrightarrow> list_all2 same_hop hs hs'"
proof (induction hs arbitrary: hs' r data)
  case (Cons h hs)
  have "same_hop h (h\<lparr>hop_layer := l\<rparr>)" if "open_backward a (hop_layer h) data = (l, r1)" for l r1
    using that by (auto simp: open_backward_def same_hop_def Let_def split: prod.splits dest: open_keys)
  with Cons show ?case by (auto simp: Let_def split: sum.splits prod.splits)
qed simp

lemma build_onion_same: "build_onion a c circ b = (circ', r) \<Longrightarrow> same_circuit circ circ'"
  by (auto simp: build_onion_def Let_def same_circuit_def split: sum.splits prod.splits dest: wrap_hops_same)

lemma peel_response_same: "peel_response_layers a circ b = (circ', r) \<Longrightarrow> same_circuit circ circ'"
  by (auto simp: peel_response_layers_def Let_def same_circuit_def split: prod.splits dest: peel_hops_same)

lemma onion_round_same: "onion_round env g kind b w circ = (w', circ', r) \<Longrightarrow> same_circuit circ circ'"
proof -
  assume o': "onion_round env g kind b w circ = (w', circ', r)"
  obtain circ1 r1 where b: "build_onion (e_aead env) (e_codec env) circ b = (circ1, r1)" by fastforce
  have "same_circuit circ1 circ'"
    using o' b by (auto simp: onion_round_def read_reply_def split: sum.splits prod.splits dest: peel_response_same)
  with build_onion_same [OF b] show ?thesis by (rule same_circuit_trans)
qed

lemma control_round_same: "control_round env g cmd w circ = (w', circ', r) \<Longrightarrow> same_circuit circ circ'"
  by (auto simp: control_round_def command_round_def split: sum.splits prod.splits dest: onion_round_same)

lemma end_handshake_proves:
  assumes "start_handshake ops fk = Ok (hs, msg_a)" "end_handshake ops expected msg_b hs = Ok (msg_c, s, r, key)"
  shows "proves_key ops fk expected key"
proof -
  obtain hs' where "read_message_b ops msg_b hs = Ok hs'" "check_identity hs' expected = Ok ()"
    using assms(2) by (cases "read_message_b ops msg_b hs") (auto simp: end_handshake_def)
  moreover from this(2) have "remote_static_public hs' = Some expected"
    by (auto simp: check_identity_def split: option.splits if_splits)
  ultimately show ?thesis using assms unfolding proves_key_def by blast
qed

lemma direct_handshake_proves: "direct_handshake ops g w fk expected cid = (w', Ok key) \<Longrightarrow> proves_key ops fk expected key"
  by (auto simp: direct_handshake_def split: sum.splits prod.splits option.splits bool.splits if_splits intro: end_handshake_proves)

lemma extend_to_proves:
  assumes "extend_to ops env g fk to_addr expected w circ = (w', circ', r)"
  shows "same_circuit circ circ' \<and> (r = Ok key \<longrightarrow> proves_key ops fk expected key)"
proof (cases "start_handshake ops fk")
  case (Inr st)
  then obtain hs msg_a where s: "start_handshake ops fk = Ok (hs, msg_a)" by (cases st) auto
  obtain w1 circ1 r1 where c1: "control_round env g (Extend to_addr msg_a) w circ = (w1, circ1, r1)" by (metis prod_cases3)
  have same1: "same_circuit circ circ1" by (rule control_round_same [OF c1])
  show ?thesis
  proof (cases "bind_result (bind_result r1 extended) (\<lambda>msg_b. end_handshake ops expected msg_b hs)")
    case (Inl e)
    with assms s c1 same1 show ?thesis by (auto simp: extend_to_def)
  next
    case (Inr x)
    obtain msg_c sc rc k where x: "x = (msg_c, sc, rc, k)" by (cases x)
    with Inr have "proves_key ops fk expected k" by (auto intro: end_handshake_proves [OF s])
    moreover have "same_circuit circ1 circ' \<and> (r = Ok key \<longrightarrow> key = k)"
      using assms s c1 Inr x by (auto simp: extend_to_def split: sum.splits prod.splits dest: control_round_same)
    ultimately show ?thesis using same_circuit_trans [OF same1] by blast
  qed
qed (use assms in \<open>auto simp: extend_to_def\<close>)

lemma authenticated_hops_same: "list_all2 (authenticated_hop ops env b64) rs hs \<Longrightarrow> list_all2 same_hop hs hs' \<Longrightarrow> list_all2 (authenticated_hop ops env b64) rs hs'"
  by (rule list_all2_trans [OF authenticated_same])

lemma new_hop_authenticated:
  "expected_key b64 relay = Ok expected \<Longrightarrow> proves_key ops fk expected key \<Longrightarrow> authenticated_hop ops env b64 (fk, relay) (new_hop env relay key)"
  by (auto simp: new_hop_def new_layer_def)

lemma extend_all_authenticated:
  assumes "extend_all ops env b64 g todo w circ = (w', Ok circ')" "list_all2 (authenticated_hop ops env b64) built (hops circ)"
  shows "list_all2 (authenticated_hop ops env b64) (built @ todo) (hops circ') \<and> circuit_id circ' = circuit_id circ"
  using assms
proof (induction ops env b64 g todo w circ arbitrary: built rule: extend_all.induct)
  case (2 ops env b64 g fk relay todo w circ)
  from "2.prems"(1) obtain expected w1 circ1 key where e: "expected_key b64 relay = Ok expected"
    "extend_to ops env g fk (re_addr relay) expected w circ = (w1, circ1, Ok key)"
    "extend_all ops env b64 g todo w1 (circ1\<lparr>hops := hops circ1 @ [new_hop env relay key]\<rparr>) = (w', Ok circ')"
    by (auto split: sum.splits prod.splits)
  from extend_to_proves [OF e(2)] have p: "same_circuit circ circ1" "proves_key ops fk expected key" by auto
  then have "list_all2 (authenticated_hop ops env b64) built (hops circ1)"
    using authenticated_hops_same [OF "2.prems"(2)] by (simp add: same_circuit_def)
  then have "list_all2 (authenticated_hop ops env b64) (built @ [(fk, relay)]) (hops circ1 @ [new_hop env relay key])"
    using new_hop_authenticated [OF e(1) p(2), of env] by (auto intro!: list_all2_appendI)
  with "2.IH" [OF e(1) e(2) [symmetric] refl refl e(3), of "built @ [(fk, relay)]"] p(1) show ?case by (simp add: same_circuit_def)
qed auto

text \<open>
  Claim C9. Every hop of a circuit proved the key on record for it. Whatever the network and the relays
  answer, a circuit that was built has three hops at the addresses of the three relays chosen, and the layer of each is
  keyed by a handshake in which the other side showed the key the relay list has for that relay: no relay
  carrying an extension can put itself, or another relay, in a hop's place.
\<close>

theorem circuit_hops_authenticated:
  assumes "build_streaming ops env b64 g cid fks relays w = (w', Ok s)" and "length fks = 3"
  shows "list_all2 (authenticated_hop ops env b64) (zip fks (take 3 relays)) (hops (st_circuit s))
    \<and> length (hops (st_circuit s)) = 3 \<and> circuit_id (st_circuit s) = cid"
proof -
  have l: "3 \<le> length relays" using assms(1) by (auto simp: build_streaming_def split: if_splits)
  obtain fk guard todo where z: "zip fks (take 3 relays) = (fk, guard) # todo"
    using l assms(2) by (cases "zip fks (take 3 relays)") (auto simp: zip_eq_Nil_iff)
  have "length (zip fks (take 3 relays)) = 3" using l assms(2) by simp
  moreover obtain expected key w1 where e: "expected_key b64 guard = Ok expected" "direct_handshake ops g w fk expected cid = (w1, Ok key)"
    "extend_all ops env b64 g todo w1 \<lparr>circuit_id = cid, hops = [new_hop env guard key]\<rparr> = (w', Ok (st_circuit s))"
    using assms(1) z by (auto simp: build_streaming_def build_telescoped_def split: if_splits sum.splits prod.splits)
  have "list_all2 (authenticated_hop ops env b64) [(fk, guard)] [new_hop env guard key]"
    using new_hop_authenticated [OF e(1) direct_handshake_proves [OF e(2)]] by simp
  then have "list_all2 (authenticated_hop ops env b64) ([(fk, guard)] @ todo) (hops (st_circuit s)) \<and> circuit_id (st_circuit s) = cid"
    using extend_all_authenticated [OF e(3), of "[(fk, guard)]"] by simp
  ultimately show ?thesis unfolding z by (auto dest: list_all2_lengthD)
qed

section \<open>An example\<close>

text \<open>
  A world to run the client in: ciphers that hide nothing, keys that are all the same, and a guard
  that answers a request for a circuit with its confirmation, and control cells in turn with
  an extension's message B and with the confirmation of the new hop. The world is the number of messages and the last.
\<close>

definition toy_noise :: noise_ops where
  "toy_noise = \<lparr>n_hash = (\<lambda>_. []), n_keyed = (\<lambda>_ _. replicate 32 0), n_encrypt = (\<lambda>_ _ _ m. Some m),
     n_decrypt = (\<lambda>_ _ _ c. Some (if length c = 1584 then replicate 1568 0 else if length c = 48 then replicate 32 7 else c)),
     n_public = (\<lambda>_. replicate 32 7), n_dh = (\<lambda>_ _. replicate 32 0), kem_keypair = (\<lambda>_. ([], replicate 1568 0)),
     kem_key_ok = (\<lambda>_. True), kem_encapsulate = (\<lambda>_ _. (replicate 1568 0, [])), kem_decapsulate = (\<lambda>_ _. [])\<rparr>"

definition toy_env :: router_env where
  "toy_env = sample_router\<lparr>e_aead := \<lparr>aead_encrypt = (\<lambda>_ _ m. Some m), aead_decrypt = (\<lambda>_ _ c. Some c)\<rparr>, e_hkdf := (\<lambda>_ _. replicate 32 0),
     e_codec := \<lparr>ser_header = (\<lambda>_. Some []), deser_header = (\<lambda>_. None)\<rparr>, e_ser := (\<lambda>_. Some []),
     e_deser := (\<lambda>b. Some (if b = [0] then Extended (replicate 1680 0) else ExtendDone (serialize (CircuitCreated 9))))\<rparr>"

definition toy_cell :: "nat \<Rightarrow> bytes" where
  "toy_cell n = u16_to_be_bytes 1 @ [if even n then 0 else 1] @ replicate 2045 0"

definition toy_guard :: "(nat \<times> message) guard_ops" where
  "toy_guard = \<lparr>g_greet = (\<lambda>w _. (w, Some (replicate 1680 0))), g_finish = (\<lambda>w _. (w, True)),
     g_send = (\<lambda>(n, _) m. ((Suc n, m), True)),
     g_recv = (\<lambda>(n, m). ((n, m), Some (case m of CreateCircuit c \<Rightarrow> CircuitCreated c | _ \<Rightarrow> Relay 9 (toy_cell n))))\<rparr>"

lemma toy_codec: "e_ser toy_env cmd = Some []"
    "e_deser toy_env b = Some (if b = [0] then Extended (replicate 1680 0) else ExtendDone (serialize (CircuitCreated 9)))"
  by (simp_all add: toy_env_def del: serialize.simps)

lemma toy_cell_opens: "unpad_cell (toy_cell n) = Ok [if even n then 0 else 1]"
  by (simp add: unpad_cell_def toy_cell_def CELL_BODY_def MAX_COMMAND_def LEN_PREFIX_def u16_to_be_bytes_def u16_from_be_bytes_def Let_def)

lemma toy_handshake:
  obtains hs msg_a where "start_handshake toy_noise fk = Ok (hs, msg_a)"
    "\<exists>msg_c s r. end_handshake toy_noise (replicate 32 7) (replicate 1680 0) hs = Ok (msg_c, s, r, replicate 32 0)
      \<and> (\<exists>k. s = cipher_from_key k) \<and> (\<exists>k. r = cipher_from_key k)"
  by (rule that [of "fst (case start_handshake toy_noise fk of Ok x \<Rightarrow> x)" "snd (case start_handshake toy_noise fk of Ok x \<Rightarrow> x)"])
    (simp_all add: start_handshake_def write_message_a_def new_handshake_def toy_noise_def Let_def encrypt_and_hash_def has_key_def
      mix_hash_def symmetric_initialize_def cipher_empty_def end_handshake_def read_message_b_def DH_LEN_def KEM_CT_LEN_def TAG_LEN_def
      need_def decrypt_and_hash_def mix_key_def hkdf_def cipher_from_key_def cipher_decrypt_def sized_def dh_es_def check_identity_def
      remote_static_public_def write_message_c_def cipher_encrypt_def dh_se_def into_transport_def split_ciphers_def session_key_def)

lemma toy_wrap:
  assumes "\<forall>h\<in>set hs. ready (fwd h)"
  shows "\<exists>onion. wrap_hops (e_aead toy_env) (e_codec toy_env) hs body
    = (map (\<lambda>h. h\<lparr>hop_layer := (hop_layer h)\<lparr>forward := (fwd h)\<lparr>dir_next := dir_next (fwd h) + 1\<rparr>\<rparr>\<rparr>) hs, Ok onion)"
  using assms
  by (induction hs) (auto simp: Let_def seal_forward_cell_def seal_forward_def seal_def toy_env_def ready_def)

lemma toy_peel:
  assumes "\<forall>h\<in>set hs. length (dir_key (bwd h)) = 32"
  shows "peel_hops (e_aead toy_env) hs data
    = (map (\<lambda>h. h\<lparr>hop_layer := (hop_layer h)\<lparr>backward := (bwd h)\<lparr>dir_next := dir_next (bwd h) + 1\<rparr>\<rparr>\<rparr>) hs, Ok data)"
  using assms
  by (induction hs) (auto simp: Let_def open_backward_def open_cell_def toy_env_def)

text \<open>A circuit whose hops have sent few cells yet.\<close>

definition toy_circuit :: "nat \<Rightarrow> nat \<Rightarrow> circuit \<Rightarrow> bool" where
  "toy_circuit n len circ \<longleftrightarrow> circuit_id circ = 9 \<and> length (hops circ) = len
     \<and> (\<forall>h\<in>set (hops circ). length (dir_key (fwd h)) = 32 \<and> length (dir_key (bwd h)) = 32 \<and> unat (dir_next (fwd h)) \<le> n)"

lemma toy_round:
  assumes "toy_circuit n len circ" "n < 100"
  shows "\<exists>circ' m'. control_round toy_env toy_guard cmd (k, m) circ
      = ((Suc k, m'), circ', Ok (if even (Suc k) then Extended (replicate 1680 0) else ExtendDone (serialize (CircuitCreated 9))))
    \<and> toy_circuit (Suc n) len circ'"
proof -
  let ?up = "\<lambda>h. h\<lparr>hop_layer := (hop_layer h)\<lparr>forward := (fwd h)\<lparr>dir_next := dir_next (fwd h) + 1\<rparr>\<rparr>\<rparr>"
  let ?down = "\<lambda>h. h\<lparr>hop_layer := (hop_layer h)\<lparr>backward := (bwd h)\<lparr>dir_next := dir_next (bwd h) + 1\<rparr>\<rparr>\<rparr>"
  have low: "dir_next (fwd h) \<noteq> - 1 \<and> unat (dir_next (fwd h) + 1) = Suc (unat (dir_next (fwd h)))" if "h \<in> set (hops circ)" for h
  proof -
    have "unat (dir_next (fwd h)) < 100" using assms that by (auto simp: toy_circuit_def)
    then have "dir_next (fwd h) \<noteq> - 1" by (auto simp: unsigned_minus_1_eq_mask mask_eq_exp_minus_1)
    then show ?thesis using unat_Suc64 by blast
  qed
  have "\<forall>h\<in>set (hops circ). ready (fwd h)" using assms(1) low by (auto simp: toy_circuit_def ready_def)
  then obtain onion where "wrap_hops (e_aead toy_env) (e_codec toy_env) (hops circ) (u16_to_be_bytes 0 @ replicate 2046 0) = (map ?up (hops circ), Ok onion)"
    using toy_wrap by blast
  then have b: "build_onion (e_aead toy_env) (e_codec toy_env) circ [] = (circ\<lparr>hops := map ?up (hops circ)\<rparr>, Ok onion)"
    by (simp add: build_onion_def pad_cell_def MAX_COMMAND_def CELL_BODY_def LEN_PREFIX_def Let_def)
  have p: "peel_hops (e_aead toy_env) (map ?up (hops circ)) c = (map ?down (map ?up (hops circ)), Ok c)" for c
    using assms(1) by (intro toy_peel) (auto simp: toy_circuit_def)
  let ?circ = "circ\<lparr>hops := map ?down (map ?up (hops circ))\<rparr>"
  have "toy_circuit (Suc n) len ?circ" using assms(1) low by (auto simp: toy_circuit_def)
  moreover have "control_round toy_env toy_guard cmd (k, m) circ = ((Suc k, Relay 9 onion), ?circ,
      Ok (if even (Suc k) then Extended (replicate 1680 0) else ExtendDone (serialize (CircuitCreated 9))))"
    using assms(1)
    by (simp add: control_round_def command_round_def onion_round_def encode_def b ask_def toy_guard_def read_reply_def relay_data_def
        peel_response_layers_def p toy_cell_opens decode_def toy_circuit_def toy_codec del: serialize.simps map_map)
  ultimately show ?thesis by blast
qed

lemma toy_extend:
  assumes "toy_circuit n len circ" "n < 90" "odd k"
  shows "\<exists>circ' m'. extend_to toy_noise toy_env toy_guard fk to_addr (replicate 32 7) (k, m) circ = ((Suc (Suc k), m'), circ', Ok (replicate 32 0))
    \<and> toy_circuit (Suc (Suc n)) len circ'"
proof -
  obtain hs msg_a where h: "start_handshake toy_noise fk = Ok (hs, msg_a)"
    "\<exists>msg_c s r. end_handshake toy_noise (replicate 32 7) (replicate 1680 0) hs = Ok (msg_c, s, r, replicate 32 0)
      \<and> (\<exists>k. s = cipher_from_key k) \<and> (\<exists>k. r = cipher_from_key k)"
    by (rule toy_handshake)
  then obtain msg_c key1 key2 where e: "end_handshake toy_noise (replicate 32 7) (replicate 1680 0) hs
      = Ok (msg_c, cipher_from_key key1, cipher_from_key key2, replicate 32 0)" by blast
  obtain circ1 m1 where c1: "control_round toy_env toy_guard (Extend to_addr msg_a) (k, m) circ = ((Suc k, m1), circ1, Ok (Extended (replicate 1680 0)))"
    "toy_circuit (Suc n) len circ1"
    using toy_round [OF assms(1), of "Extend to_addr msg_a" k m] assms(2,3) by auto
  obtain sealed c where s: "transport_encrypt toy_noise (serialize (CreateCircuit (circuit_id circ1))) (cipher_from_key key1) = Ok (c, sealed)"
    by (simp add: transport_encrypt_def cipher_encrypt_def cipher_from_key_def toy_noise_def)
  obtain circ2 m2 where c2: "control_round toy_env toy_guard (ExtendFinish msg_c sealed) (Suc k, m1) circ1
      = ((Suc (Suc k), m2), circ2, Ok (ExtendDone (serialize (CircuitCreated 9))))" "toy_circuit (Suc (Suc n)) len circ2"
    using toy_round [OF c1(2), of "ExtendFinish msg_c sealed" "Suc k" m1] assms(2,3) by auto
  have "confirm toy_noise (circuit_id circ2) (cipher_from_key key2) (serialize (CircuitCreated 9)) = Ok ()"
    using c2(2) by (simp add: confirm_def transport_decrypt_def cipher_decrypt_def cipher_from_key_def toy_noise_def toy_circuit_def
        del: serialize.simps) (simp add: toy_circuit_def)
  then show ?thesis using c2(2)
    by (simp add: extend_to_def h(1) c1(1) extended_def e s c2(1) extend_done_def del: serialize.simps)
qed

definition toy_relays :: "relay_entry list" where
  "toy_relays = map (\<lambda>n. \<lparr>re_name = [], re_addr = web_server, re_noise_pubkey_b64 = [n]\<rparr>) ''abc''"

definition toy_keys :: fresh_keys where
  "toy_keys = \<lparr>fk_secret = [], fk_eph = [], fk_kem = []\<rparr>"

lemma toy_hop_circuit:
  "toy_circuit n len circ \<Longrightarrow> toy_circuit n (Suc len) (circ\<lparr>hops := hops circ @ [new_hop toy_env relay key]\<rparr>)"
  by (auto simp: toy_circuit_def new_hop_def new_layer_def toy_env_def)

theorem circuit_hops_authenticated_witness:
  "\<exists>w s. build_streaming toy_noise toy_env (\<lambda>_. Some (replicate 32 7)) toy_guard 9 [toy_keys, toy_keys, toy_keys] toy_relays (0, CreateCircuit 0) = (w, Ok s)
    \<and> length (hops (st_circuit s)) = 3"
proof -
  let ?b64 = "\<lambda>_. Some (replicate 32 7) :: bytes option" and ?a = "new_hop toy_env (toy_relays ! 0) (replicate 32 0)"
  obtain hs msg_a where h: "start_handshake toy_noise toy_keys = Ok (hs, msg_a)"
    "\<exists>msg_c s r. end_handshake toy_noise (replicate 32 7) (replicate 1680 0) hs = Ok (msg_c, s, r, replicate 32 0)
      \<and> (\<exists>k. s = cipher_from_key k) \<and> (\<exists>k. r = cipher_from_key k)"
    by (rule toy_handshake)
  then have d: "direct_handshake toy_noise toy_guard (0, CreateCircuit 0) toy_keys (replicate 32 7) 9 = ((1, CreateCircuit 9), Ok (replicate 32 0))"
    by (auto simp: direct_handshake_def toy_guard_def ask_def)
  have t1: "toy_circuit 0 1 \<lparr>circuit_id = 9, hops = [?a]\<rparr>" by (simp add: toy_circuit_def new_hop_def new_layer_def toy_env_def)
  obtain c2 m2 where x2: "extend_to toy_noise toy_env toy_guard toy_keys web_server (replicate 32 7) (1, CreateCircuit 9) \<lparr>circuit_id = 9, hops = [?a]\<rparr>
      = ((3, m2), c2, Ok (replicate 32 0))" "toy_circuit (Suc (Suc 0)) 1 c2"
    using toy_extend [OF t1, of 1 toy_keys web_server "CreateCircuit 9"] by auto
  let ?c2 = "c2\<lparr>hops := hops c2 @ [new_hop toy_env (toy_relays ! 1) (replicate 32 0)]\<rparr>"
  obtain c3 m3 where x3: "extend_to toy_noise toy_env toy_guard toy_keys web_server (replicate 32 7) (3, m2) ?c2 = ((5, m3), c3, Ok (replicate 32 0))"
    using toy_extend [OF toy_hop_circuit [OF x2(2), of "toy_relays ! 1" "replicate 32 0"], of 3 toy_keys web_server m2] by auto
  have k: "expected_key ?b64 \<lparr>re_name = [], re_addr = web_server, re_noise_pubkey_b64 = [c]\<rparr> = Ok (replicate 32 7)"
    if "c \<in> set ''abc''" for c using that by (auto simp: expected_key_def trim_id_ascii)
  have "\<exists>w s. build_streaming toy_noise toy_env ?b64 toy_guard 9 [toy_keys, toy_keys, toy_keys] toy_relays (0, CreateCircuit 0) = (w, Ok s)"
    using d x2(1) x3 k by (simp add: build_streaming_def build_telescoped_def toy_relays_def numeral_3_eq_3)
  then obtain w s where b: "build_streaming toy_noise toy_env ?b64 toy_guard 9 [toy_keys, toy_keys, toy_keys] toy_relays (0, CreateCircuit 0) = (w, Ok s)" by blast
  with circuit_hops_authenticated [OF b] show ?thesis by simp
qed

end
