(* ===== verification/Circuit_Streams.thy ===== *)
theory Circuit_Streams
  imports Client_Circuit
begin

text \<open>
  A stream over a circuit, end to end: the client (\<open>Client_Circuit\<close>), the relays in their streaming loops and the
  exit (\<open>Router\<close>) put together, one message after the other. Nothing new of the program is modelled here: the
  functions below only pass what one party sends to the next.

  The lemmas show that what a client sends is what the target is written, and that what the target
  sends is what the client reads, byte for byte and in order.
\<close>

section \<open>From the client to the target\<close>

text \<open>A message handed from relay to relay: the modes of their links after it, and the effects of the last that had it.\<close>

fun hand_on :: "router_env \<Rightarrow> link_io \<Rightarrow> link_mode list \<Rightarrow> message \<Rightarrow> link_mode list \<times> effect list" where
  "hand_on env io (Relaying cid l # ms) msg = (case relay_turn env io cid l (Received msg) of
      (m, [Sent_Next msg']) \<Rightarrow> (case hand_on env io ms msg' of (ms', es) \<Rightarrow> (m # ms', es))
    | (m, es) \<Rightarrow> (m # ms, es))"
| "hand_on env io (Exiting cid l # ms) msg = (case exit_turn env io cid l (Received msg) of (m, es) \<Rightarrow> (m # ms, es))"
| "hand_on env io ms msg = (ms, [])"

fun stream_modes :: "u32 \<Rightarrow> layer_cipher list \<Rightarrow> link_mode list" where
  "stream_modes cid [] = []"
| "stream_modes cid [l] = [Exiting cid l]"
| "stream_modes cid (l # ls) = Relaying cid l # stream_modes cid ls"

fun to_target :: "effect \<Rightarrow> bytes" where
  "to_target (To_Target b) = b"
| "to_target _ = []"

text \<open>The world of a client whose circuit is these relays: their modes, and what the target was written.\<close>

definition stream_world :: "router_env \<Rightarrow> link_io \<Rightarrow> (link_mode list \<times> bytes) guard_ops" where
  "stream_world env io = \<lparr>g_greet = (\<lambda>w _. (w, None)), g_finish = (\<lambda>w _. (w, False)),
     g_send = (\<lambda>(ms, got) msg. (case hand_on env io ms msg of (ms', es) \<Rightarrow> ((ms', got @ concat (map to_target es)), True))),
     g_recv = (\<lambda>w. (w, None))\<rparr>"

definition codec_reads :: "router_env \<Rightarrow> bool" where
  "codec_reads env \<longleftrightarrow> (\<forall>cmd b. e_ser env cmd = Some b \<longrightarrow> e_deser env b = Some cmd)"

lemma stream_modes_Cons: "ls \<noteq> [] \<Longrightarrow> stream_modes cid (l # ls) = Relaying cid l # stream_modes cid ls"
  by (cases ls) simp_all

lemma wrap_stream_arrives:
  assumes "aead_correct (e_aead env)" "io_send_next io" "io_write io" "unpad_cell body = Ok b" "e_deser env b = Some (Data p)"
  shows "wrap_stream (e_aead env) hs body = (hs', Ok d) \<Longrightarrow> map forward ls = map fwd hs \<Longrightarrow> hs \<noteq> [] \<Longrightarrow>
    \<exists>ls'. hand_on env io (stream_modes cid ls) (Relay cid d) = (stream_modes cid ls', [To_Target p]) \<and> map forward ls' = map fwd hs' \<and> ls' \<noteq> []"
proof (induction hs arbitrary: hs' d ls)
  case (Cons h hs)
  from Cons.prems(2) obtain l ls1 where ls: "ls = l # ls1" "forward l = fwd h" "map forward ls1 = map fwd hs" by auto
  from Cons.prems(1) obtain hs1 inner d1 where w: "wrap_stream (e_aead env) hs body = (hs1, Ok inner)"
    "seal (e_aead env) (fwd h) inner = (d1, Ok d)" "hs' = h\<lparr>hop_layer := (hop_layer h)\<lparr>forward := d1\<rparr>\<rparr> # hs1"
    by (auto simp: seal_forward_def Let_def split: sum.splits prod.splits)
  have op: "open_forward (e_aead env) l d = (l\<lparr>forward := d1\<rparr>, Ok inner)"
    using seal_then_open [OF assms(1) w(2)] ls(2) by (simp add: open_forward_def)
  show ?case
  proof (cases "hs = []")
    case True
    with w(1) ls(3) have "ls1 = []" "inner = body" "hs1 = []" by auto
    with op ls(1) w(3) assms(3-5) show ?thesis
      by (intro exI [of _ "[l\<lparr>forward := d1\<rparr>]"]) (simp add: exit_turn_def open_command_def)
  next
    case False
    with ls(3) have "ls1 \<noteq> []" by auto
    obtain ls' where "hand_on env io (stream_modes cid ls1) (Relay cid inner) = (stream_modes cid ls', [To_Target p])" "map forward ls' = map fwd hs1" "ls' \<noteq> []"
      using Cons.IH [OF w(1) ls(3) False] by blast
    with op ls(1) w(3) \<open>ls1 \<noteq> []\<close> assms(2) show ?thesis
      by (intro exI [of _ "l\<lparr>forward := d1\<rparr> # ls'"]) (simp add: stream_modes_Cons relay_turn_def)
  qed
qed simp

lemma send_raw_arrives:
  assumes "aead_correct (e_aead env)" "codec_reads env" "io_send_next io" "io_write io"
    and "send_raw env (stream_world env io) p (stream_modes cid ls, got) s = (w', s', Ok ())"
    and "circuit_id (st_circuit s) = cid" "map forward ls = map fwd (hops (st_circuit s))" "ls \<noteq> []"
  shows "\<exists>ls'. w' = (stream_modes cid ls', got @ p) \<and> map forward ls' = map fwd (hops (st_circuit s')) \<and> ls' \<noteq> []
    \<and> circuit_id (st_circuit s') = cid \<and> st_sealed s' = st_sealed s"
proof -
  obtain b body hs' d where x: "e_ser env (Data p) = Some b" "pad_cell b = Ok body" "wrap_stream (e_aead env) (hops (st_circuit s)) body = (hs', Ok d)"
    "g_send (stream_world env io) (stream_modes cid ls, got) (Relay cid d) = (w', True)" "s' = s\<lparr>st_circuit := (st_circuit s)\<lparr>hops := hs'\<rparr>\<rparr>"
    using assms(5,6) by (auto simp: send_raw_def send_stream_def encode_def wrap_all_stream_layers_def Let_def split: option.splits sum.splits prod.splits if_splits)
  have "e_deser env b = Some (Data p)" using assms(2) x(1) by (simp add: codec_reads_def)
  moreover have "hops (st_circuit s) \<noteq> []" using assms(7,8) by auto
  ultimately
  obtain ls' where "hand_on env io (stream_modes cid ls) (Relay cid d) = (stream_modes cid ls', [To_Target p])" "map forward ls' = map fwd hs'" "ls' \<noteq> []"
    using wrap_stream_arrives [OF assms(1,3,4) unpad_pad [OF x(2)] _ x(3) assms(7), of p cid] by blast
  with x(4,5) assms(6) show ?thesis by (auto simp: stream_world_def)
qed

lemma send_pieces_arrive:
  assumes "aead_correct (e_aead env)" "codec_reads env" "io_send_next io" "io_write io"
  shows "send_pieces env (stream_world env io) ps (stream_modes cid ls, got) s = (w', s', Ok ()) \<Longrightarrow> st_sealed s = None \<Longrightarrow>
    circuit_id (st_circuit s) = cid \<Longrightarrow> map forward ls = map fwd (hops (st_circuit s)) \<Longrightarrow> ls \<noteq> [] \<Longrightarrow>
    \<exists>ls'. w' = (stream_modes cid ls', got @ concat ps) \<and> map forward ls' = map fwd (hops (st_circuit s'))"
proof (induction ps arbitrary: ls got s)
  case (Cons p ps)
  from Cons.prems(1,2) obtain w1 s1 where r: "send_raw env (stream_world env io) p (stream_modes cid ls, got) s = (w1, s1, Ok ())"
    "send_pieces env (stream_world env io) ps w1 s1 = (w', s', Ok ())"
    by (auto simp: seal_piece_def split: sum.splits prod.splits)
  from send_raw_arrives [OF assms r(1) Cons.prems(3-5)] obtain ls1 where i: "w1 = (stream_modes cid ls1, got @ p)"
    "map forward ls1 = map fwd (hops (st_circuit s1))" "ls1 \<noteq> []" "circuit_id (st_circuit s1) = cid" "st_sealed s1 = st_sealed s" by blast
  from Cons.IH [OF r(2) [unfolded i(1)] _ i(4,2,3)] i(5) Cons.prems(2) show ?case by auto
qed auto

section \<open>From the target to the client\<close>

text \<open>A message handed back, from the exit's neighbour to the guard, and out to the client.\<close>

fun sent_first :: "effect list \<Rightarrow> message option" where
  "sent_first [] = None"
| "sent_first (Sent msg # es) = Some msg"
| "sent_first (e # es) = sent_first es"

fun hand_back :: "router_env \<Rightarrow> link_io \<Rightarrow> link_mode list \<Rightarrow> message \<Rightarrow> link_mode list \<times> message option" where
  "hand_back env io (Relaying cid l # ms) msg = (case hand_back env io ms msg of
      (ms', None) \<Rightarrow> (Relaying cid l # ms', None)
    | (ms', Some msg') \<Rightarrow> (case relay_turn env io cid l (From_Next msg') of (m, es) \<Rightarrow> (m # ms', sent_first es)))"
| "hand_back env io ms msg = (ms, Some msg)"

fun sent_all :: "effect list \<Rightarrow> message list" where
  "sent_all [] = []"
| "sent_all (Sent msg # es) = msg # sent_all es"
| "sent_all (e # es) = sent_all es"

definition relay_modes :: "u32 \<Rightarrow> layer_cipher list \<Rightarrow> link_mode list" where
  "relay_modes cid ls = map (Relaying cid) ls"

fun hand_back_all :: "router_env \<Rightarrow> link_io \<Rightarrow> link_mode list \<Rightarrow> message list \<Rightarrow> message option list" where
  "hand_back_all env io ms [] = []"
| "hand_back_all env io ms (msg # msgs) = (case hand_back env io ms msg of (ms', r) \<Rightarrow> r # hand_back_all env io ms' msgs)"

text \<open>The client reads messages as they come, until one is missing or does not open.\<close>

definition inbox_world :: "message option list guard_ops" where
  "inbox_world = \<lparr>g_greet = (\<lambda>w _. (w, None)), g_finish = (\<lambda>w _. (w, False)), g_send = (\<lambda>w _. (w, False)),
     g_recv = (\<lambda>w. case w of [] \<Rightarrow> ([], None) | m # ms \<Rightarrow> (ms, m))\<rparr>"

fun recv_datas :: "router_env \<Rightarrow> message option list \<Rightarrow> streaming \<Rightarrow> bytes list" where
  "recv_datas env [] s = []"
| "recv_datas env (m # ms) s = (case recv_data env inbox_world (m # ms) s of
      (_, s', Ok (Some data)) \<Rightarrow> data # recv_datas env ms s'
    | _ \<Rightarrow> [])"

lemma relays_seal_back:
  assumes "hand_back env io (relay_modes cid ls) (Relay cid d) = (ms', Some msg)"
  shows "\<exists>ls' d'. ms' = relay_modes cid ls' \<and> msg = Relay cid d' \<and> seal_replies (e_aead env) ls d = (ls', Ok d')"
  using assms
proof (induction ls arbitrary: ms' msg)
  case (Cons l ls)
  then obtain ms1 msg1 m es where w: "hand_back env io (relay_modes cid ls) (Relay cid d) = (ms1, Some msg1)"
    "relay_turn env io cid l (From_Next msg1) = (m, es)" "ms' = m # ms1" "sent_first es = Some msg"
    by (auto simp: relay_modes_def split: prod.splits option.splits)
  from Cons.IH [OF w(1)] obtain ls' d' where i: "ms1 = relay_modes cid ls'" "msg1 = Relay cid d'" "seal_replies (e_aead env) ls d = (ls', Ok d')"
    by blast
  from w(2,4) i(2) obtain l' d'' where "seal_backward (e_aead env) l d' = (l', Ok d'')" "m = Relaying cid l'" "msg = Relay cid d''"
    by (auto simp: relay_turn_def then_mode_def send_sealed_def seal_mark_def split: prod.splits sum.splits if_splits)
  with i w(3) show ?case by (intro exI [of _ "l' # ls'"]) (simp add: relay_modes_def)
qed (auto simp: relay_modes_def)

lemma seal_replies_snoc:
  assumes "seal_backward a l body = (l', Ok d)"
  shows "seal_replies a ls d = (ls', Ok d') \<Longrightarrow> seal_replies a (ls @ [l]) body = (ls' @ [l'], Ok d')"
proof (induction ls arbitrary: ls' d')
  case (Cons h ls)
  then show ?case by (auto simp: Let_def split: sum.splits prod.splits)
qed (use assms in simp)

lemma map_sum_Ok [simp]: "map_sum f id r = Ok x \<longleftrightarrow> r = Ok x"
  by (cases r) simp_all

lemma reply_sends:
  assumes "reply env goes cid l (Data p) = (l', es, Ok ())"
  shows "\<exists>b body d. e_ser env (Data p) = Some b \<and> pad_cell b = Ok body \<and> seal_backward (e_aead env) l body = (l', Ok d) \<and> sent_all es = [Relay cid d]"
  using assms by (auto simp: reply_def encode_command_def send_sealed_def seal_mark_def split: option.splits sum.splits prod.splits if_splits)

lemma sent_all_append [simp]: "sent_all (es @ es') = sent_all es @ sent_all es'"
  by (induction es rule: sent_all.induct) simp_all

lemma pieces_return:
  assumes "aead_correct (e_aead env)" "codec_reads env"
  shows "reply_pieces env goes i cid l ps = (l', es, Ok ()) \<Longrightarrow> None \<notin> set (hand_back_all env io (relay_modes cid ls) (sent_all es)) \<Longrightarrow>
    st_sealed s = None \<Longrightarrow> map backward (ls @ [l]) = map bwd (hops (st_circuit s)) \<Longrightarrow>
    recv_datas env (hand_back_all env io (relay_modes cid ls) (sent_all es)) s = ps"
proof (induction ps arbitrary: i l ls es s)
  case (Cons p ps)
  from Cons.prems(1) obtain l1 es1 es2 where r: "reply env (goes i) cid l (Data p) = (l1, es1, Ok ())"
    "reply_pieces env goes (Suc i) cid l1 ps = (l', es2, Ok ())" "es = es1 @ es2"
    by (auto simp: Let_def split: sum.splits prod.splits)
  from reply_sends [OF r(1)] obtain b body d where d: "e_ser env (Data p) = Some b" "pad_cell b = Ok body"
    "seal_backward (e_aead env) l body = (l1, Ok d)" "sent_all es1 = [Relay cid d]" by blast
  obtain ms1 msg where h: "hand_back env io (relay_modes cid ls) (Relay cid d) = (ms1, Some msg)"
    using Cons.prems(2) r(3) d(4)
    by (cases "hand_back env io (relay_modes cid ls) (Relay cid d)"; cases "snd (hand_back env io (relay_modes cid ls) (Relay cid d))") auto
  from relays_seal_back [OF h] obtain ls1 d' where b: "ms1 = relay_modes cid ls1" "msg = Relay cid d'" "seal_replies (e_aead env) ls d = (ls1, Ok d')" by blast
  from seal_replies_then_peel [OF assms(1) seal_replies_snoc [OF d(3) b(3)] Cons.prems(4)]
  obtain hs' where p': "peel_hops (e_aead env) (hops (st_circuit s)) d' = (hs', Ok body)" "map bwd hs' = map backward (ls1 @ [l1])" by blast
  let ?s = "s\<lparr>st_circuit := (st_circuit s)\<lparr>hops := hs'\<rparr>\<rparr>"
  have "recv_data env inbox_world (Some msg # rest) s = (rest, ?s, Ok (Some p))" for rest
    using p'(1) unpad_pad [OF d(2)] assms(2) d(1) Cons.prems(3)
    by (simp add: recv_data_def recv_raw_def inbox_world_def b(2) relay_data_def peel_all_stream_layers_def decode_def codec_reads_def)
  moreover have "recv_datas env (hand_back_all env io (relay_modes cid ls1) (sent_all es2)) ?s = ps"
    using Cons.IH [OF r(2), of ls1 ?s] Cons.prems(2,3) p'(2) r(3) d(4) h b(1) by simp
  ultimately show ?case using r(3) d(4) h b(1) by simp
qed simp

text \<open>
  Claim C35. A stream carries what either end sends. What a client sends over a circuit whose relays are in step with it is
  what the exit writes to the target, byte for byte; and when the relays pass on every message, what
  the exit reads from the target is what the client receives, in order and nothing more.
\<close>

theorem stream_delivers:
  assumes "aead_correct (e_aead env)" "codec_reads env" "st_sealed s = None"
  shows "(io_send_next io \<and> io_write io \<and> circuit_id (st_circuit s) = cid \<and> map forward ls = map fwd (hops (st_circuit s)) \<and> ls \<noteq> []
      \<and> send_data env (stream_world env io) data (stream_modes cid ls, got) s = (w, s', Ok ())
      \<longrightarrow> snd w = got @ data)
    \<and> (reply_data env goes cid l data = (l', es, Ok ()) \<and> map backward (ls @ [l]) = map bwd (hops (st_circuit s))
      \<and> None \<notin> set (hand_back_all env io (relay_modes cid ls) (sent_all es))
      \<longrightarrow> concat (recv_datas env (hand_back_all env io (relay_modes cid ls) (sent_all es)) s) = data)"
proof -
  have c: "concat (chunks MAX_DATA data) = data" by (rule concat_chunks) (simp add: MAX_DATA_def MAX_COMMAND_def CELL_BODY_def LEN_PREFIX_def)
  show ?thesis
  proof (intro conjI impI; elim conjE)
    assume a: "io_send_next io" "io_write io" "circuit_id (st_circuit s) = cid" "map forward ls = map fwd (hops (st_circuit s))" "ls \<noteq> []"
      and s: "send_data env (stream_world env io) data (stream_modes cid ls, got) s = (w, s', Ok ())"
    from s have "send_pieces env (stream_world env io) (chunks MAX_DATA data) (stream_modes cid ls, got) s = (w, s', Ok ())"
      using assms(3) by (simp add: send_data_def piece_size_def)
    from send_pieces_arrive [OF assms(1,2) a(1,2) this assms(3) a(3-5)] c show "snd w = got @ data" by auto
  next
    assume r: "reply_data env goes cid l data = (l', es, Ok ())" and m: "map backward (ls @ [l]) = map bwd (hops (st_circuit s))"
      and n: "None \<notin> set (hand_back_all env io (relay_modes cid ls) (sent_all es))"
    from pieces_return [OF assms(1,2) r [unfolded reply_data_def] n assms(3) m] c
    show "concat (recv_datas env (hand_back_all env io (relay_modes cid ls) (sent_all es)) s) = data" by simp
  qed
qed

text \<open>An example: one relay and the exit, and ciphers and codecs that hide nothing.\<close>

definition clear_env :: router_env where
  "clear_env = toy_env\<lparr>e_ser := (\<lambda>cmd. case cmd of Data b \<Rightarrow> Some b | _ \<Rightarrow> None), e_deser := (\<lambda>b. Some (Data b))\<rparr>"

definition clear_stream :: streaming where
  "clear_stream = \<lparr>st_circuit = \<lparr>circuit_id = 9, hops = replicate 2 \<lparr>hop_addr = web_server, hop_layer = router_layer\<rparr>\<rparr>, st_addrs = [], st_sealed = None\<rparr>"

theorem stream_delivers_witness:
  "\<exists>w s'. send_data clear_env (stream_world clear_env sample_io) [1, 2, 3] (stream_modes 9 [router_layer, router_layer], []) clear_stream = (w, s', Ok ())
    \<and> snd w = [1, 2, 3]"
proof -
  have c: "chunks MAX_DATA [1, 2, 3 :: u8] = [[1, 2, 3]]"
    by (simp add: chunks.simps [of _ "[1, 2, 3]"] chunks.simps [of _ "[]"] MAX_DATA_def MAX_COMMAND_def CELL_BODY_def LEN_PREFIX_def)
  have l: "length (dir_key (forward router_layer)) = 32" "dir_next (forward router_layer) \<noteq> - 1" by (simp_all add: router_layer_def)
  obtain body where body: "pad_cell [1, 2, 3] = Ok body" using pad_cell_ok [of "[1, 2, 3]"] by (auto simp: MAX_COMMAND_def CELL_BODY_def LEN_PREFIX_def)
  obtain hs d where "wrap_stream (e_aead clear_env) (hops (st_circuit clear_stream)) body = (hs, Ok d)"
    using l by (simp add: clear_stream_def numeral_2_eq_2 seal_forward_def seal_def clear_env_def toy_env_def Let_def)
  then have "\<exists>w s'. send_data clear_env (stream_world clear_env sample_io) [1, 2, 3] (stream_modes 9 [router_layer, router_layer], []) clear_stream = (w, s', Ok ())"
    using body by (auto simp: send_data_def piece_size_def c seal_piece_def send_raw_def send_stream_def encode_def wrap_all_stream_layers_def
        clear_stream_def clear_env_def stream_world_def split: prod.splits)
  moreover have "aead_correct (e_aead clear_env)" "codec_reads clear_env" "st_sealed clear_stream = None"
    by (auto simp: aead_correct_def codec_reads_def clear_env_def toy_env_def clear_stream_def split: relay_command.splits)
  ultimately show ?thesis
    using stream_delivers [of clear_env clear_stream sample_io 9 "[router_layer, router_layer]" "[1, 2, 3]" "[]"]
    by (auto simp: sample_io_def clear_stream_def numeral_2_eq_2)
qed

end
