(* ===== verification/Leases.thy ===== *)
theory Leases
  imports Text_Format "HOL-Library.Multiset"
begin

unbundle bit_operations_syntax

text \<open>
  Who is admitted to a VPN node and which tunnel address they hold
  (\<^verbatim>\<open>hidravpn-node/src/leases.rs\<close>, \<^verbatim>\<open>Lease\<close> and \<^verbatim>\<open>Leases\<close>; \<open>tunnel_network\<close> from
  \<^verbatim>\<open>hidravpn-node/src/config.rs\<close>). The WireGuard crate's test of a key is the
  parameter \<open>key_ok\<close>; \<^verbatim>\<open>now_unix()\<close> is the argument \<open>now\<close>. \<open>leases_update\<close> is the
  read-change-write under the file lock, with the outcome of the write as an
  argument; the file holds a list of leases.

  \<open>leases_inv\<close> says that no two clients share a key or a tunnel address and that
  every address is a host address of the tunnel's subnet; every operation keeps
  it.
\<close>

section \<open>The tunnel's subnet\<close>

record tunnel_net =
  tn_cidr :: string
  tn_network :: ipv4
  tn_prefix :: nat
  tn_node_ip :: ipv4

datatype net_error = CidrForm | CidrAddress | CidrPrefix | PrefixRange | NotANetwork

definition tunnel_network :: "string \<Rightarrow> net_error + tunnel_net" where
  "tunnel_network cidr = (case split_once (CHR ''/'') cidr of
      None \<Rightarrow> Err CidrForm
    | Some (net, prefix_text) \<Rightarrow> (case parse_ipv4 net of
        None \<Rightarrow> Err CidrAddress
      | Some network \<Rightarrow> (case parse_uint 255 prefix_text of
          None \<Rightarrow> Err CidrPrefix
        | Some prefix \<Rightarrow>
            (if \<not> (8 \<le> prefix \<and> prefix \<le> 30) then Err PrefixRange
             else (let mask = push_bit (32 - prefix) (- 1);
                       base = network AND mask
                   in if base \<noteq> network then Err NotANetwork
                      else Ok \<lparr>tn_cidr = show_ipv4 base @ ''/'' @ show_nat prefix, tn_network = base,
                               tn_prefix = prefix, tn_node_ip = base + 1\<rparr>)))))"

section \<open>Leases\<close>

record lease =
  l_name :: string
  l_public_key :: string
  l_ip :: ipv4
  admitted_at :: nat
  l_source :: string
  l_last_seen :: nat

type_synonym leases = "lease list"

definition manual :: string where
  "manual = ''manual''"

definition never_came_sessions :: "(string \<Rightarrow> bytes option) \<Rightarrow> leases \<Rightarrow> bytes list" where
  "never_came_sessions decode gone =
     List.map_filter (\<lambda>l. decode (l_public_key l))
       (filter (\<lambda>l. l_source l = ''session'' \<and> l_last_seen l = 0) gone)"

definition NEVER_CAME_SECS :: nat where
  "NEVER_CAME_SECS = 900"

record idle_windows =
  w_open :: nat
  w_session :: nat
  w_pass :: nat

definition SESSION_IDLE_SECS :: nat where
  "SESSION_IDLE_SECS = 600"

definition SESSION_NEVER_CAME_SECS :: nat where
  "SESSION_NEVER_CAME_SECS = 120"

datatype lease_error = InvalidKey | InvalidName | SubnetFull | NotLocked | FileUnreadable | WriteFailed

definition leases_load :: "lease_error + leases option \<Rightarrow> lease_error + leases" where
  "leases_load file = (case file of
      Err e \<Rightarrow> Err e
    | Ok None \<Rightarrow> Ok []
    | Ok (Some ls) \<Rightarrow> Ok ls)"

definition leases_update ::
  "bool \<Rightarrow> lease_error + leases option \<Rightarrow> bool \<Rightarrow> (leases \<Rightarrow> ('a \<times> bool) \<times> leases) \<Rightarrow>
   (lease_error + leases option) \<times> (lease_error + 'a)" where
  "leases_update locked file write_ok f =
     (if \<not> locked then (file, Err NotLocked)
      else (case leases_load file of
        Err e \<Rightarrow> (file, Err e)
      | Ok ls \<Rightarrow>
          (let ((out, save), ls') = f ls
           in if save then (if write_ok then (Ok (Some ls'), Ok out) else (file, Err WriteFailed))
              else (file, Ok out))))"

definition find_lease :: "leases \<Rightarrow> string \<Rightarrow> lease option" where
  "find_lease ls public_key = (let k = trim public_key in List.find (\<lambda>l. l_public_key l = k) ls)"

definition next_free :: "leases \<Rightarrow> tunnel_net \<Rightarrow> lease_error + ipv4" where
  "next_free ls net =
     (let hosts = 2 ^ (32 - tn_prefix net)
      in case List.find (\<lambda>off. \<not> list_ex (\<lambda>l. l_ip l = tn_network net + of_nat off) ls) [2..<hosts - 1] of
           Some off \<Rightarrow> Ok (tn_network net + of_nat off)
         | None \<Rightarrow> Err SubnetFull)"

definition name_ok :: "string \<Rightarrow> bool" where
  "name_ok name \<longleftrightarrow> \<not> (name = [] \<or> 32 < length name
     \<or> \<not> list_all (\<lambda>c. is_ascii_alphanumeric c \<or> c = CHR ''-'' \<or> c = CHR ''_'') name)"

definition admit ::
  "(string \<Rightarrow> bool) \<Rightarrow> nat \<Rightarrow> string \<Rightarrow> string \<Rightarrow> tunnel_net \<Rightarrow> leases \<Rightarrow> leases \<times> (lease_error + lease)" where
  "admit key_ok now name public_key net ls =
     (let key = trim public_key in
      if \<not> key_ok key then (ls, Err InvalidKey)
      else (case find_lease ls key of
              Some l \<Rightarrow> (ls, Ok l)
            | None \<Rightarrow>
                (let name = trim name in
                 if \<not> name_ok name then (ls, Err InvalidName)
                 else (case next_free ls net of
                         Err e \<Rightarrow> (ls, Err e)
                       | Ok ip \<Rightarrow>
                           (let l = \<lparr>l_name = name, l_public_key = key, l_ip = ip, admitted_at = now,
                                     l_source = manual, l_last_seen = 0\<rparr>
                            in (ls @ [l], Ok l))))))"

text \<open>\<^verbatim>\<open>iter_mut().find(p)\<close>: the first element that satisfies \<open>p\<close> is changed.\<close>

fun update_first :: "('a \<Rightarrow> bool) \<Rightarrow> ('a \<Rightarrow> 'a) \<Rightarrow> 'a list \<Rightarrow> 'a list" where
  "update_first p f [] = []"
| "update_first p f (x # xs) = (if p x then f x # xs else x # update_first p f xs)"

definition admit_as ::
  "(string \<Rightarrow> bool) \<Rightarrow> nat \<Rightarrow> string \<Rightarrow> string \<Rightarrow> tunnel_net \<Rightarrow> string \<Rightarrow> leases \<Rightarrow> leases \<times> (lease_error + lease)" where
  "admit_as key_ok now name public_key net source ls =
     (let had = find_lease ls public_key \<noteq> None in
      case admit key_ok now name public_key net ls of
        (ls', Err e) \<Rightarrow> (ls', Err e)
      | (ls', Ok l) \<Rightarrow>
          (if had then (ls', Ok l)
           else (update_first (\<lambda>m. l_public_key m = l_public_key l) (\<lambda>m. m\<lparr>l_source := source\<rparr>) ls',
                 Ok (l\<lparr>l_source := source\<rparr>))))"

definition admit_open ::
  "(string \<Rightarrow> bool) \<Rightarrow> nat \<Rightarrow> string \<Rightarrow> string \<Rightarrow> tunnel_net \<Rightarrow> bool \<Rightarrow> leases \<Rightarrow> leases \<times> (lease_error + lease)" where
  "admit_open key_ok now name public_key net session ls =
     admit_as key_ok now name public_key net (if session then ''session'' else ''open'') ls"

definition admit_pass ::
  "(string \<Rightarrow> bool) \<Rightarrow> nat \<Rightarrow> string \<Rightarrow> string \<Rightarrow> tunnel_net \<Rightarrow> leases \<Rightarrow> leases \<times> (lease_error + lease)" where
  "admit_pass key_ok now name public_key net ls = admit_as key_ok now name public_key net ''pass'' ls"

definition note_handshake :: "nat \<Rightarrow> (string \<Rightarrow> nat option option) \<Rightarrow> lease \<Rightarrow> lease" where
  "note_handshake now age l = (case age (l_public_key l) of
      Some (Some a) \<Rightarrow> (if l_last_seen l < now - a then l\<lparr>l_last_seen := now - a\<rparr> else l)
    | _ \<Rightarrow> l)"

definition note_handshakes :: "nat \<Rightarrow> (string \<Rightarrow> nat option option) \<Rightarrow> leases \<Rightarrow> leases \<times> bool" where
  "note_handshakes now age ls = (map (note_handshake now age) ls, list_ex (\<lambda>l. note_handshake now age l \<noteq> l) ls)"

definition note_active :: "nat \<Rightarrow> string list \<Rightarrow> lease \<Rightarrow> lease" where
  "note_active now active l =
     (if l_public_key l \<in> set active \<and> l_last_seen l < now then l\<lparr>l_last_seen := now\<rparr> else l)"

definition note_traffic :: "nat \<Rightarrow> string list \<Rightarrow> leases \<Rightarrow> leases \<times> bool" where
  "note_traffic now active ls = (map (note_active now active) ls, list_ex (\<lambda>l. note_active now active l \<noteq> l) ls)"

definition lease_lapsed :: "nat \<Rightarrow> lease \<Rightarrow> nat \<Rightarrow> nat \<Rightarrow> bool" where
  "lease_lapsed now l window never_came \<longleftrightarrow> 0 < window
     \<and> (window \<le> now - max (admitted_at l) (l_last_seen l)
        \<or> l_last_seen l = 0 \<and> min window never_came \<le> now - admitted_at l)"

definition is_idle :: "nat \<Rightarrow> idle_windows \<Rightarrow> lease \<Rightarrow> bool" where
  "is_idle now w l \<longleftrightarrow>
     (if l_source l = ''open'' then lease_lapsed now l (w_open w) NEVER_CAME_SECS
      else if l_source l = ''session'' then lease_lapsed now l (max (w_session w) 1) SESSION_NEVER_CAME_SECS
      else if l_source l = ''pass'' then lease_lapsed now l (w_pass w) NEVER_CAME_SECS
      else False)"

definition expire_idle :: "nat \<Rightarrow> idle_windows \<Rightarrow> leases \<Rightarrow> leases \<times> leases" where
  "expire_idle now w ls = (let (gone, kept) = partition (is_idle now w) ls in (kept, gone))"

definition revoke :: "string \<Rightarrow> leases \<Rightarrow> leases \<times> bool" where
  "revoke public_key ls =
     (let before = length ls; k = trim public_key; ls' = filter (\<lambda>l. l_public_key l \<noteq> k) ls
      in (ls', length ls' \<noteq> before))"

definition has_room :: "leases \<Rightarrow> tunnel_net \<Rightarrow> bool" where
  "has_room ls net = is_ok (next_free ls net)"

definition count_source :: "leases \<Rightarrow> string \<Rightarrow> nat" where
  "count_source ls source = length (filter (\<lambda>l. l_source l = source) ls)"

datatype room_refusal = NodeFull | NoLastingRoom

definition refusal_for_room :: "leases \<Rightarrow> string \<Rightarrow> tunnel_net \<Rightarrow> nat \<Rightarrow> nat option \<Rightarrow> room_refusal option" where
  "refusal_for_room ls public_key net max_clients lasting_open =
     (if find_lease ls public_key \<noteq> None then None
      else if max_clients \<le> length ls \<or> \<not> has_room ls net then Some NodeFull
      else (case lasting_open of
              Some cap \<Rightarrow> (if cap \<le> count_source ls ''open'' then Some NoLastingRoom else None)
            | None \<Rightarrow> None))"

section \<open>The invariant\<close>

definition net_ok :: "tunnel_net \<Rightarrow> bool" where
  "net_ok net \<longleftrightarrow> 8 \<le> tn_prefix net \<and> tn_prefix net \<le> 30
     \<and> unat (tn_network net) mod 2 ^ (32 - tn_prefix net) = 0 \<and> tn_node_ip net = tn_network net + 1"

definition host_offset :: "tunnel_net \<Rightarrow> ipv4 \<Rightarrow> nat option" where
  "host_offset net ip =
     (if in_cidr ip (tn_network net) (tn_prefix net) then Some (unat ip - unat (tn_network net)) else None)"

definition hosts_of :: "tunnel_net \<Rightarrow> nat" where
  "hosts_of net = 2 ^ (32 - tn_prefix net)"

definition leases_inv :: "tunnel_net \<Rightarrow> leases \<Rightarrow> bool" where
  "leases_inv net ls \<longleftrightarrow> distinct (map l_public_key ls) \<and> distinct (map l_ip ls)
     \<and> (\<forall>l\<in>set ls. trim (l_public_key l) = l_public_key l
          \<and> (\<exists>off. 2 \<le> off \<and> off < hosts_of net - 1 \<and> l_ip l = tn_network net + of_nat off))"

lemma push_mask_zero:
  fixes a :: ipv4
  assumes "a AND push_bit k (- 1) = a"
  shows "unat a mod 2 ^ k = 0"
proof -
  have "take_bit k a = take_bit k (a AND push_bit k (- 1))"
    using assms by simp
  also have "\<dots> = 0"
    by (rule bit_eqI) (auto simp: bit_take_bit_iff bit_and_iff bit_push_bit_iff bit_not_iff bit_mask_iff)
  finally have "unat (take_bit k a) = 0"
    by simp
  then show ?thesis
    unfolding take_bit_eq_mod [symmetric] by (simp add: unsigned_take_bit_eq del: unat_eq_zero)
qed

lemma tunnel_network_ok: "tunnel_network cidr = Ok net \<Longrightarrow> net_ok net"
  by (auto simp: tunnel_network_def net_ok_def Let_def push_mask_zero
      split: option.splits prod.splits if_splits)

lemma word_unat_of_nat_self: "(of_nat (unat a) :: 'a::len word) = a" for a :: "'a::len word"
  by simp

text \<open>Inside the subnet, adding an offset never wraps around.\<close>

lemma net_room: "net_ok net \<Longrightarrow> unat (tn_network net) + hosts_of net \<le> 2 ^ 32"
proof -
  assume n: "net_ok net"
  let ?h = "hosts_of net" and ?b = "unat (tn_network net)"
  have b: "?b < 2 ^ 32"
    using unsigned_less [of "tn_network net"] by simp
  have h: "(2::nat) ^ 32 = ?h * 2 ^ tn_prefix net"
    using n by (simp add: net_ok_def hosts_of_def flip: power_add)
  obtain q where q: "?b = ?h * q"
    using n by (auto simp: net_ok_def hosts_of_def mod_eq_0_iff_dvd)
  with b h have "q < 2 ^ tn_prefix net"
    by (metis mult_less_cancel1)
  then have "?h * Suc q \<le> ?h * 2 ^ tn_prefix net"
    by (intro mult_le_mono2) simp
  with q h show ?thesis by simp
qed

lemma unat_host:
  assumes "net_ok net" "off < hosts_of net"
  shows "unat (tn_network net + of_nat off) = unat (tn_network net) + off"
proof -
  have "unat (tn_network net) + off < 2 ^ 32"
    using net_room [OF assms(1)] assms(2) by linarith
  then have "unat (of_nat (unat (tn_network net) + off) :: ipv4) = unat (tn_network net) + off"
    by (subst unat_of_nat) (simp add: take_bit_nat_eq_self)
  then show ?thesis
    by (simp only: of_nat_add word_unat_of_nat_self)
qed

lemma host_inject:
  assumes "net_ok net" "i < hosts_of net" "j < hosts_of net"
  shows "tn_network net + of_nat i = tn_network net + of_nat j \<longleftrightarrow> i = j"
  using unat_host [OF assms(1,2)] unat_host [OF assms(1,3)] by (metis add_left_cancel)

text \<open>\<open>next_free\<close> gives the lowest host address nobody holds, and fails only when all are held.\<close>

lemma list_ex_ip: "list_ex (\<lambda>l. l_ip l = ip) ls \<longleftrightarrow> ip \<in> l_ip ` set ls"
  by (auto simp: list_ex_iff)

lemma next_free_Ok:
  assumes "next_free ls net = Ok ip"
  obtains off where "2 \<le> off" "off < hosts_of net - 1" "ip = tn_network net + of_nat off" "ip \<notin> l_ip ` set ls"
    "\<And>j. 2 \<le> j \<Longrightarrow> j < off \<Longrightarrow> tn_network net + of_nat j \<in> l_ip ` set ls"
proof -
  let ?P = "\<lambda>off. tn_network net + of_nat off \<notin> l_ip ` set ls"
  obtain off where f: "List.find ?P [2..<hosts_of net - 1] = Some off" "ip = tn_network net + of_nat off"
    using assms by (auto simp: next_free_def hosts_of_def Let_def list_ex_ip split: option.splits)
  from f(1) obtain i where "i < length [2..<hosts_of net - 1]" "?P ([2..<hosts_of net - 1] ! i)"
      "off = [2..<hosts_of net - 1] ! i" "\<forall>j<i. \<not> ?P ([2..<hosts_of net - 1] ! j)"
    unfolding find_Some_iff by blast
  then have i: "2 + i < hosts_of net - 1" "?P off" "off = 2 + i" "\<And>j. j < i \<Longrightarrow> \<not> ?P (2 + j)"
    by auto
  then have "\<not> ?P j" if "2 \<le> j" "j < off" for j
    using i(4) [of "j - 2"] that by simp
  then show ?thesis
    using that [of off] i(1-3) f(2) by simp
qed

lemma next_free_Err:
  assumes "next_free ls net = Err e" "2 \<le> off" "off < hosts_of net - 1"
  shows "tn_network net + of_nat off \<in> l_ip ` set ls"
proof -
  have "\<not> (\<exists>off. off \<in> set [2..<hosts_of net - 1] \<and> tn_network net + of_nat off \<notin> l_ip ` set ls)"
    using assms(1) by (auto simp: next_free_def hosts_of_def Let_def find_None_iff list_ex_ip split: option.splits)
  then show ?thesis
    using assms(2,3) by auto
qed

lemma find_lease_Some: "find_lease ls k = Some l \<Longrightarrow> l \<in> set ls \<and> l_public_key l = trim k"
  by (auto simp: find_lease_def find_Some_iff)

lemma find_lease_None: "find_lease ls k = None \<longleftrightarrow> trim k \<notin> l_public_key ` set ls"
  by (auto simp: find_lease_def find_None_iff intro: rev_image_eqI)

lemma admit_cases:
  assumes "admit key_ok now name public_key net ls = (ls', r)"
  obtains (refused) e where "r = Err e" "ls' = ls"
  | (had) l where "r = Ok l" "ls' = ls" "find_lease ls public_key = Some l" "key_ok (trim public_key)"
  | (new) ip where "find_lease ls public_key = None" "next_free ls net = Ok ip" "key_ok (trim public_key)"
      "r = Ok \<lparr>l_name = trim name, l_public_key = trim public_key, l_ip = ip, admitted_at = now,
         l_source = manual, l_last_seen = 0\<rparr>"
      "ls' = ls @ [\<lparr>l_name = trim name, l_public_key = trim public_key, l_ip = ip, admitted_at = now,
         l_source = manual, l_last_seen = 0\<rparr>]"
proof -
  have "find_lease ls (trim public_key) = find_lease ls public_key"
    by (simp add: find_lease_def)
  then show ?thesis
    using assms by (auto simp: admit_def Let_def split: if_splits option.splits sum.splits
        intro: refused had new)
qed

lemma leases_inv_admit:
  assumes "leases_inv net ls" "admit key_ok now name public_key net ls = (ls', r)"
  shows "leases_inv net ls'"
  using assms(2)
proof (cases rule: admit_cases)
  case (new ip)
  obtain off where "2 \<le> off" "off < hosts_of net - 1" "ip = tn_network net + of_nat off" "ip \<notin> l_ip ` set ls"
    using new(2) by (rule next_free_Ok)
  with new assms(1) show ?thesis
    by (auto simp: leases_inv_def find_lease_None)
qed (use assms(1) in simp_all)

lemma map_update_first: "(\<And>x. g (f x) = g x) \<Longrightarrow> map g (update_first p f xs) = map g xs"
  by (induction xs) auto

text \<open>Operations that keep every lease's key and address keep the invariant.\<close>

lemma leases_inv_same:
  assumes "leases_inv net ls" "map l_public_key ls' = map l_public_key ls" "map l_ip ls' = map l_ip ls"
  shows "leases_inv net ls'"
proof -
  have "set (map l_public_key ls') = set (map l_public_key ls)" "set (map l_ip ls') = set (map l_ip ls)"
    using assms by simp_all
  then have keys: "l_public_key ` set ls' = l_public_key ` set ls" and ips: "l_ip ` set ls' = l_ip ` set ls"
    by simp_all
  have "trim k = k" if "k \<in> l_public_key ` set ls'" for k
    using that assms(1) unfolding keys by (auto simp: leases_inv_def)
  moreover have "\<exists>off. 2 \<le> off \<and> off < hosts_of net - 1 \<and> i = tn_network net + of_nat off"
    if "i \<in> l_ip ` set ls'" for i
    using that assms(1) unfolding ips by (auto simp: leases_inv_def)
  ultimately show ?thesis
    using assms by (simp add: leases_inv_def)
qed

lemma leases_inv_filter: "leases_inv net ls \<Longrightarrow> leases_inv net (filter p ls)"
  by (auto simp: leases_inv_def distinct_map_filter)

lemma leases_inv_admit_as:
  assumes "leases_inv net ls" "admit_as key_ok now name public_key net source ls = (ls', r)"
  shows "leases_inv net ls'"
proof -
  obtain ls1 r1 where a: "admit key_ok now name public_key net ls = (ls1, r1)"
    by fastforce
  then have "leases_inv net ls1"
    using leases_inv_admit assms(1) by blast
  then have "leases_inv net (update_first (\<lambda>m. l_public_key m = k) (\<lambda>m. m\<lparr>l_source := source\<rparr>) ls1)" for k
    by (rule leases_inv_same) (simp_all add: map_update_first)
  then show ?thesis
    using assms(2) a \<open>leases_inv net ls1\<close> by (auto simp: admit_as_def Let_def split: sum.splits if_splits)
qed

section \<open>Steps\<close>

inductive lease_step :: "(string \<Rightarrow> bool) \<Rightarrow> tunnel_net \<Rightarrow> leases \<Rightarrow> leases \<Rightarrow> bool"
  for key_ok net where
  step_admit: "lease_step key_ok net ls (fst (admit key_ok now name public_key net ls))"
| step_open: "lease_step key_ok net ls (fst (admit_open key_ok now name public_key net session ls))"
| step_pass: "lease_step key_ok net ls (fst (admit_pass key_ok now name public_key net ls))"
| step_handshakes: "lease_step key_ok net ls (fst (note_handshakes now age ls))"
| step_traffic: "lease_step key_ok net ls (fst (note_traffic now active ls))"
| step_expire: "lease_step key_ok net ls (fst (expire_idle now w ls))"
| step_revoke: "lease_step key_ok net ls (fst (revoke public_key ls))"

inductive_cases lease_stepE: "lease_step key_ok net ls ls'"

lemma note_handshake_same [simp]:
  "l_public_key (note_handshake now age l) = l_public_key l" "l_ip (note_handshake now age l) = l_ip l"
  by (simp_all add: note_handshake_def split: option.splits)

lemma note_active_same [simp]:
  "l_public_key (note_active now active l) = l_public_key l" "l_ip (note_active now active l) = l_ip l"
  by (simp_all add: note_active_def)

lemma expire_idle_eq: "expire_idle now w ls = (filter (\<lambda>l. \<not> is_idle now w l) ls, filter (is_idle now w) ls)"
  by (simp add: expire_idle_def partition_filter_conv comp_def)

lemma lease_step_inv:
  assumes "lease_step key_ok net ls ls'" "leases_inv net ls"
  shows "leases_inv net ls'"
  using assms(1)
proof (cases rule: lease_step.cases)
  case (step_admit now name public_key)
  then show ?thesis using leases_inv_admit [OF assms(2)] by (metis prod.collapse)
next
  case (step_open now name public_key session)
  then show ?thesis unfolding admit_open_def using leases_inv_admit_as [OF assms(2)] by (metis prod.collapse)
next
  case (step_pass now name public_key)
  then show ?thesis unfolding admit_pass_def using leases_inv_admit_as [OF assms(2)] by (metis prod.collapse)
next
  case (step_handshakes now age)
  then show ?thesis using leases_inv_same [OF assms(2)] by (simp add: note_handshakes_def comp_def)
next
  case (step_traffic now active)
  then show ?thesis using leases_inv_same [OF assms(2)] by (simp add: note_traffic_def comp_def)
next
  case (step_expire now w)
  then show ?thesis using leases_inv_filter [OF assms(2)] by (simp add: expire_idle_eq)
next
  case (step_revoke public_key)
  then show ?thesis using leases_inv_filter [OF assms(2)] by (simp add: revoke_def Let_def)
qed

lemma leases_reachable_inv: "(lease_step key_ok net)\<^sup>*\<^sup>* [] ls \<Longrightarrow> leases_inv net ls"
proof (induction rule: rtranclp_induct)
  case base
  show ?case by (simp add: leases_inv_def)
qed (rule lease_step_inv)

lemma host_in_cidr:
  assumes "net_ok net" "off < hosts_of net"
  shows "in_cidr (tn_network net + of_nat off) (tn_network net) (tn_prefix net)"
proof -
  have "unat (tn_network net) mod hosts_of net = 0"
    using assms(1) by (simp add: net_ok_def hosts_of_def)
  then show ?thesis
    using assms unfolding in_cidr_unat unat_host [OF assms] hosts_of_def [symmetric]
    by (auto simp: mod_eq_0_iff_dvd)
qed

lemma leases_capacity:
  assumes "net_ok net" "leases_inv net ls"
  shows "length ls \<le> hosts_of net - 3"
proof -
  have "l_ip ` set ls \<subseteq> (\<lambda>off. tn_network net + of_nat off) ` {2..<hosts_of net - 1}"
    using assms(2) by (auto simp: leases_inv_def)
  then have "card (l_ip ` set ls) \<le> card {2..<hosts_of net - 1}"
    by (meson card_image_le card_mono finite_atLeastLessThan finite_imageI le_trans)
  moreover have "card (l_ip ` set ls) = length ls"
    using assms(2) distinct_card [of "map l_ip ls"] by (simp add: leases_inv_def)
  ultimately show ?thesis by simp
qed

section \<open>Properties\<close>

text \<open>
  Claim C13. Whatever admissions, expiries and revocations a node goes through
  from an empty start: no two leases share a key or a tunnel address; every
  address lies in the tunnel's subnet and is neither the network's, the node's
  own nor the broadcast address; so there are never more leases than the subnet
  has client addresses.
\<close>

theorem reachable_leases_disjoint:
  assumes "tunnel_network cidr = Ok net" "(lease_step key_ok net)\<^sup>*\<^sup>* [] ls"
  shows "distinct (map l_public_key ls) \<and> distinct (map l_ip ls)
    \<and> length ls \<le> 2 ^ (32 - tn_prefix net) - 3
    \<and> (\<forall>l\<in>set ls. in_cidr (l_ip l) (tn_network net) (tn_prefix net)
         \<and> l_ip l \<noteq> tn_network net \<and> l_ip l \<noteq> tn_node_ip net
         \<and> l_ip l \<noteq> tn_network net + of_nat (2 ^ (32 - tn_prefix net) - 1))"
proof -
  have net: "net_ok net"
    using assms(1) by (rule tunnel_network_ok)
  have inv: "leases_inv net ls"
    using assms(2) by (rule leases_reachable_inv)
  have host: "tn_network net + of_nat i = tn_network net + of_nat j \<longleftrightarrow> i = j"
    if "i < hosts_of net" "j < hosts_of net" for i j
    using host_inject [OF net that] .
  have "in_cidr (l_ip l) (tn_network net) (tn_prefix net) \<and> l_ip l \<noteq> tn_network net
      \<and> l_ip l \<noteq> tn_node_ip net \<and> l_ip l \<noteq> tn_network net + of_nat (hosts_of net - 1)" if l: "l \<in> set ls" for l
  proof -
    obtain off where off: "2 \<le> off" "off < hosts_of net - 1" "l_ip l = tn_network net + of_nat off"
      using inv l by (auto simp: leases_inv_def)
    then show ?thesis
      using host_in_cidr [OF net, of off] host [of off 0] host [of off 1] host [of off "hosts_of net - 1"] net
      by (simp add: net_ok_def)
  qed
  then show ?thesis
    using inv leases_capacity [OF net inv] by (simp add: leases_inv_def hosts_of_def)
qed

definition sample_net :: tunnel_net where
  "sample_net = \<lparr>tn_cidr = ''10.9.0.0/24'', tn_network = ipv4_new 10 9 0 0, tn_prefix = 24,
     tn_node_ip = ipv4_new 10 9 0 0 + 1\<rparr>"

lemma sample_tunnel_network: "tunnel_network ''10.9.0.0/24'' = Ok sample_net"
  by code_simp

lemma sample_reach_leases:
  "(lease_step (\<lambda>_. True) sample_net)\<^sup>*\<^sup>* [] (fst (admit (\<lambda>_. True) 5 ''ana'' ''KEY'' sample_net []))"
  by (rule r_into_rtranclp, rule step_admit)

theorem reachable_leases_disjoint_witness:
  "length (fst (admit (\<lambda>_. True) 5 ''ana'' ''KEY'' sample_net [])) \<le> 2 ^ 8 - 3"
  using reachable_leases_disjoint [OF sample_tunnel_network sample_reach_leases] by (simp add: sample_net_def)

text \<open>
  \<open>next_free\<close> gives the lowest host address after the node's own that no
  lease holds, and refuses only if every one of them is held.
\<close>

theorem next_free_lowest:
  "(\<forall>ip. next_free ls net = Ok ip \<longrightarrow> (\<exists>off::nat. 2 \<le> off \<and> off < 2 ^ (32 - tn_prefix net) - 1
      \<and> ip = tn_network net + of_nat off \<and> ip \<notin> l_ip ` set ls
      \<and> (\<forall>j. 2 \<le> j \<and> j < off \<longrightarrow> tn_network net + of_nat j \<in> l_ip ` set ls)))
   \<and> (\<not> is_ok (next_free ls net) \<longrightarrow>
      (\<forall>off::nat. 2 \<le> off \<and> off < 2 ^ (32 - tn_prefix net) - 1 \<longrightarrow> tn_network net + of_nat off \<in> l_ip ` set ls))"
proof (intro conjI allI impI)
  fix ip assume "next_free ls net = Ok ip"
  then show "\<exists>off::nat. 2 \<le> off \<and> off < 2 ^ (32 - tn_prefix net) - 1
      \<and> ip = tn_network net + of_nat off \<and> ip \<notin> l_ip ` set ls
      \<and> (\<forall>j. 2 \<le> j \<and> j < off \<longrightarrow> tn_network net + of_nat j \<in> l_ip ` set ls)"
    by (rule next_free_Ok) (auto simp: hosts_of_def)
next
  fix off :: nat assume "\<not> is_ok (next_free ls net)" "2 \<le> off \<and> off < 2 ^ (32 - tn_prefix net) - 1"
  then show "tn_network net + of_nat off \<in> l_ip ` set ls"
    using next_free_Err [of ls net _ off] by (cases "next_free ls net") (auto simp: hosts_of_def)
qed

lemma sample_next_free: "next_free [] sample_net = Ok (ipv4_new 10 9 0 2)"
  by code_simp

theorem next_free_lowest_witness:
  "\<exists>off::nat. 2 \<le> off \<and> off < 2 ^ 8 - 1 \<and> ipv4_new 10 9 0 2 = ipv4_new 10 9 0 0 + of_nat off"
  using next_free_lowest [of "[]" sample_net] sample_next_free by (auto simp: sample_net_def)

text \<open>
  Where \<open>refusal_for_room\<close> sees no reason to refuse, an admission with a
  valid key and a valid name succeeds, whatever its kind; the key then has the
  lease that was returned, every other key has the lease it had, and admitting
  the key again, under any name and kind, returns the same address and changes
  nothing.
\<close>

theorem room_means_admission:
  assumes "refusal_for_room ls key net max_clients lasting = None" "key_ok (trim key)" "name_ok (trim name)"
  shows "\<exists>ls' l. admit_as key_ok now name key net source ls = (ls', Ok l)
    \<and> find_lease ls' key = Some l
    \<and> (\<forall>other. trim other \<noteq> trim key \<longrightarrow> find_lease ls' other = find_lease ls other)
    \<and> admit_as key_ok now' name' key net source' ls' = (ls', Ok l)"
proof (cases "find_lease ls key")
  case (Some l)
  then have "admit_as key_ok now' name' key net source' ls = (ls, Ok l)" for now' name' source'
    using assms(2) by (simp add: admit_as_def admit_def find_lease_def Let_def)
  with Some show ?thesis by blast
next
  case None
  then obtain ip where ip: "next_free ls net = Ok ip"
    using assms(1) by (auto simp: refusal_for_room_def has_room_def is_ok_iff split: if_splits)
  let ?l = "\<lparr>l_name = trim name, l_public_key = trim key, l_ip = ip, admitted_at = now,
     l_source = source, l_last_seen = 0\<rparr>"
  have absent: "trim key \<notin> l_public_key ` set ls"
    using None by (simp add: find_lease_None)
  then have "update_first (\<lambda>m. l_public_key m = trim key) (\<lambda>m. m\<lparr>l_source := source\<rparr>)
      (ls @ [?l\<lparr>l_source := manual\<rparr>]) = ls @ [?l]"
    by (induction ls) auto
  then have adm: "admit_as key_ok now name key net source ls = (ls @ [?l], Ok ?l)"
    using assms(2,3) ip None by (simp add: admit_as_def admit_def find_lease_def Let_def)
  have found: "find_lease (ls @ [?l]) key = Some ?l"
    using absent by (induction ls) (auto simp: find_lease_def Let_def)
  then have "admit_as key_ok now' name' key net source' (ls @ [?l]) = (ls @ [?l], Ok ?l)"
    using assms(2) by (simp add: admit_as_def admit_def find_lease_def Let_def)
  moreover have "find_lease (ls @ [?l]) other = find_lease ls other" if "trim other \<noteq> trim key" for other
    using that by (induction ls) (auto simp: find_lease_def Let_def)
  ultimately show ?thesis
    using adm found by blast
qed

theorem room_means_admission_witness:
  "\<exists>ls' l. admit_as (\<lambda>_. True) 5 ''ana'' ''KEY'' sample_net ''open'' [] = (ls', Ok l) \<and> find_lease ls' ''KEY'' = Some l"
proof -
  have "refusal_for_room [] ''KEY'' sample_net 10 None = None"
    using sample_next_free by (simp add: refusal_for_room_def find_lease_def has_room_def)
  moreover have "name_ok (trim ''ana'')"
    by (subst trim_id_ascii) (simp_all add: name_ok_def is_ascii_alphanumeric_def is_ascii_alphabetic_def
        is_ascii_lowercase_def)
  ultimately show ?thesis
    using room_means_admission [of "[]" "''KEY''" sample_net 10 None "\<lambda>_. True"] by blast
qed

text \<open>What each kind of lease is held to: how long it may be silent, and how long a request may take to come.\<close>

definition idle_rule :: "idle_windows \<Rightarrow> lease \<Rightarrow> (nat \<times> nat) option" where
  "idle_rule w l =
     (if l_source l = ''open'' then Some (w_open w, 900)
      else if l_source l = ''session'' then Some (max (w_session w) 1, 120)
      else if l_source l = ''pass'' then Some (w_pass w, 900)
      else None)"

lemma is_idle_rule:
  "is_idle now w l \<longleftrightarrow> (\<exists>window grace. idle_rule w l = Some (window, grace) \<and> 0 < window
     \<and> (max (admitted_at l) (l_last_seen l) + window \<le> now
        \<or> l_last_seen l = 0 \<and> admitted_at l + min window grace \<le> now))"
proof -
  have lap: "lease_lapsed now l window grace \<longleftrightarrow> 0 < window \<and> (max (admitted_at l) (l_last_seen l) + window \<le> now
      \<or> l_last_seen l = 0 \<and> admitted_at l + min window grace \<le> now)" if "0 < grace" for window grace
    using that unfolding lease_lapsed_def by (auto simp: min_def max_def)
  show ?thesis
    by (simp add: is_idle_def idle_rule_def lap NEVER_CAME_SECS_def SESSION_NEVER_CAME_SECS_def)
qed

text \<open>
  Expiry drops exactly the lapsed leases: a lease goes if and only if
  its kind has a window and it was silent for the whole of it since its admission
  or last sign of life, or it never shook hands and is older than the grace its
  kind gives a request. So leases the operator admitted by hand stay, and so does
  any client heard from within its window. Kept and dropped leases together are
  the leases there were.
\<close>

theorem expire_idle_exact:
  assumes "expire_idle now w ls = (kept, gone)"
  shows "mset ls = mset kept + mset gone
    \<and> (\<forall>l. l \<in> set gone \<longleftrightarrow> l \<in> set ls \<and> (\<exists>window grace. idle_rule w l = Some (window, grace) \<and> 0 < window
         \<and> (max (admitted_at l) (l_last_seen l) + window \<le> now
            \<or> l_last_seen l = 0 \<and> admitted_at l + min window grace \<le> now)))
    \<and> (\<forall>l\<in>set ls. l_source l = manual \<longrightarrow> l \<in> set kept)
    \<and> (\<forall>l\<in>set ls. \<forall>window grace. idle_rule w l = Some (window, grace) \<longrightarrow>
         0 < l_last_seen l \<longrightarrow> now < l_last_seen l + window \<longrightarrow> l \<in> set kept)"
proof -
  have sets: "kept = filter (\<lambda>l. \<not> is_idle now w l) ls" "gone = filter (is_idle now w) ls"
    using assms by (simp_all add: expire_idle_eq)
  have "mset ls = mset kept + mset gone"
    unfolding sets by (metis add.commute mset_filter multiset_partition)
  moreover have "\<not> is_idle now w l" if "l_source l = manual" for l
    using that by (simp add: is_idle_def manual_def)
  moreover have "\<not> is_idle now w l" if "idle_rule w l = Some (window, grace)" "0 < l_last_seen l"
      "now < l_last_seen l + window" for l window grace
    using that unfolding is_idle_rule by auto
  ultimately show ?thesis
    unfolding sets by (auto simp: is_idle_rule [symmetric])
qed

theorem expire_idle_exact_witness:
  "\<lparr>l_name = ''a'', l_public_key = ''K'', l_ip = 5, admitted_at = 10, l_source = manual, l_last_seen = 0\<rparr>
     \<in> set (fst (expire_idle 99999 \<lparr>w_open = 1, w_session = 1, w_pass = 1\<rparr>
        [\<lparr>l_name = ''a'', l_public_key = ''K'', l_ip = 5, admitted_at = 10, l_source = manual, l_last_seen = 0\<rparr>]))"
  using expire_idle_exact [of 99999 "\<lparr>w_open = 1, w_session = 1, w_pass = 1\<rparr>"
      "[\<lparr>l_name = ''a'', l_public_key = ''K'', l_ip = 5, admitted_at = 10, l_source = manual, l_last_seen = 0\<rparr>]",
      OF prod.collapse [symmetric]]
  by simp

end
