(* ===== verification/Spent_Passes.thy ===== *)
theory Spent_Passes
  imports Text_Format "HOL-Library.AList"
begin

text \<open>
  The passes a node has taken (\<^verbatim>\<open>hidravpn-node/src/leases.rs\<close>, \<^verbatim>\<open>SpentPasses\<close>). In
  memory it is a map from tags to the end of their validity with the state of
  the journal; on disk a snapshot and a journal, the journal as the text it is.
  A \<^verbatim>\<open>BTreeMap\<close> is an association list with distinct keys. Where a write can
  fail, the outcome is an argument: how many bytes of a journal line reached the
  file, and how far \<open>save\<close> came. A power cut is a failed write followed by
  \<open>load_from\<close>.

  The main lemma is that a pass whose \<open>record\<close> succeeded stays spent, in memory
  and across power cuts, until it is taken back or no longer valid.
\<close>

record spent_passes =
  tags :: "(string \<times> int) list"
  journal :: nat
  journal_torn :: bool

record spent_disk =
  snapshot :: "(string \<times> int) list option"
  journal_file :: "string option"

definition COMPACT_AFTER :: nat where
  "COMPACT_AFTER = 4096"

abbreviation newline :: char where
  "newline \<equiv> char_of (10 :: nat)"

definition parse_line :: "string \<Rightarrow> (string \<times> int) option" where
  "parse_line line = (case split_whitespace line of
      [tag, until] \<Rightarrow> (case parse_i64 until of
         Some u \<Rightarrow> (if length tag = 64 \<and> list_all is_ascii_hexdigit tag then Some (tag, u) else None)
       | None \<Rightarrow> None)
    | _ \<Rightarrow> None)"

definition read_line :: "string \<Rightarrow> spent_passes \<Rightarrow> spent_passes" where
  "read_line line s = (case parse_line line of
      Some (tag, until) \<Rightarrow> s\<lparr>tags := AList.update tag until (tags s), journal := journal s + 1\<rparr>
    | None \<Rightarrow> s)"

definition load_from :: "spent_disk \<Rightarrow> spent_passes" where
  "load_from disk =
     (let s = \<lparr>tags = (case snapshot disk of Some ts \<Rightarrow> ts | None \<Rightarrow> []), journal = 0, journal_torn = False\<rparr>
      in case journal_file disk of
           None \<Rightarrow> s
         | Some b \<Rightarrow>
             (let s = fold read_line (split_on newline b) s
              in if b \<noteq> [] \<and> last b \<noteq> newline then s\<lparr>journal_torn := True\<rparr> else s))"

text \<open>
  Each of the two files is read first: an unreadable one is an error, an absent
  one (\<open>Ok None\<close>) is empty.
\<close>

datatype spent_error = IoError | SnapshotUnreadable

definition load_spent :: "spent_error + (string \<times> int) list option \<Rightarrow> spent_error + string option \<Rightarrow> spent_error + spent_passes" where
  "load_spent snap jour = bind_result snap (\<lambda>sn. bind_result jour (\<lambda>j.
     Ok (load_from \<lparr>snapshot = sn, journal_file = j\<rparr>)))"

text \<open>How far a \<open>save\<close> comes: not to the rename, past it but not through the journal, or all the way.\<close>

datatype save_outcome = FailsBeforeRename | FailsAfterRename bool | Saves

definition save :: "save_outcome \<Rightarrow> spent_passes \<times> spent_disk \<Rightarrow> (spent_passes \<times> spent_disk) \<times> (spent_error + unit)" where
  "save io = (\<lambda>(s, disk). case io of
      FailsBeforeRename \<Rightarrow> ((s, disk), Err IoError)
    | FailsAfterRename emptied \<Rightarrow>
        ((s, disk\<lparr>snapshot := Some (tags s),
            journal_file := (if emptied then map_option (\<lambda>_. []) (journal_file disk) else journal_file disk)\<rparr>), Err IoError)
    | Saves \<Rightarrow>
        ((s\<lparr>journal := 0, journal_torn := False\<rparr>,
          disk\<lparr>snapshot := Some (tags s), journal_file := map_option (\<lambda>_. []) (journal_file disk)\<rparr>), Ok ()))"

text \<open>How an append to the journal ends: not opened, failed with so many bytes written, or flushed.\<close>

datatype append_outcome = NotOpened | Torn nat | Flushed

definition journal_line :: "string \<Rightarrow> int \<Rightarrow> string" where
  "journal_line tag valid_until = tag @ '' '' @ show_int valid_until @ [newline]"

definition record_pass ::
  "append_outcome \<Rightarrow> save_outcome \<Rightarrow> string \<Rightarrow> int \<Rightarrow> spent_passes \<times> spent_disk \<Rightarrow>
   (spent_passes \<times> spent_disk) \<times> (spent_error + unit)" where
  "record_pass io sio tag valid_until = (\<lambda>(s, disk).
     if journal_torn s then save sio (s\<lparr>tags := AList.update tag valid_until (tags s)\<rparr>, disk)
     else
       (let line = journal_line tag valid_until;
            old = (case journal_file disk of Some b \<Rightarrow> b | None \<Rightarrow> [])
        in case io of
             NotOpened \<Rightarrow> ((s, disk), Err IoError)
           | Torn n \<Rightarrow> ((s\<lparr>journal_torn := True\<rparr>, disk\<lparr>journal_file := Some (old @ take n line)\<rparr>), Err IoError)
           | Flushed \<Rightarrow>
               ((s\<lparr>tags := AList.update tag valid_until (tags s), journal := journal s + 1\<rparr>,
                 disk\<lparr>journal_file := Some (old @ line)\<rparr>), Ok ())))"

definition forget_pass ::
  "save_outcome \<Rightarrow> string \<Rightarrow> spent_passes \<times> spent_disk \<Rightarrow> (spent_passes \<times> spent_disk) \<times> (spent_error + unit)" where
  "forget_pass io tag = (\<lambda>(s, disk).
     case map_of (tags s) tag of
       None \<Rightarrow> ((s, disk), Ok ())
     | Some until \<Rightarrow>
         (case save io (s\<lparr>tags := AList.delete tag (tags s)\<rparr>, disk) of
            ((s', disk'), Err e) \<Rightarrow> ((s'\<lparr>tags := AList.update tag until (tags s')\<rparr>, disk'), Err e)
          | ((s', disk'), Ok _) \<Rightarrow> ((s', disk'), Ok ())))"

definition needs_compacting :: "spent_passes \<Rightarrow> bool" where
  "needs_compacting s \<longleftrightarrow> COMPACT_AFTER \<le> journal s \<or> journal_torn s"

definition spent_contains :: "spent_passes \<Rightarrow> string \<Rightarrow> bool" where
  "spent_contains s tag \<longleftrightarrow> map_of (tags s) tag \<noteq> None"

definition prune :: "int \<Rightarrow> spent_passes \<Rightarrow> spent_passes \<times> nat" where
  "prune now s =
     (let before = length (tags s); s' = s\<lparr>tags := filter (\<lambda>(_, until). now \<le> until) (tags s)\<rparr>
      in (s', before - length (tags s')))"

section \<open>Reading lines\<close>

definition tag_ok :: "string \<Rightarrow> bool" where
  "tag_ok tag \<longleftrightarrow> length tag = 64 \<and> list_all is_ascii_hexdigit tag"

lemma tag_graphic: "tag_ok tag \<Longrightarrow> list_all is_graphic tag"
  by (auto simp: tag_ok_def list_all_iff is_ascii_hexdigit_def is_ascii_digit_def is_graphic_def)

lemma tag_not_Nil: "tag_ok tag \<Longrightarrow> tag \<noteq> []"
  by (auto simp: tag_ok_def)

lemma words_of_line:
  assumes "list_all is_graphic a" "list_all is_graphic b" "a \<noteq> []"
  shows "split_whitespace (a @ '' '' @ b) = (if b = [] then [a] else [a, b])"
proof -
  have "split_whitespace (a @ '' '' @ b) = a # split_whitespace ('' '' @ b)"
    using assms strip_space by (intro split_whitespace_word) auto
  also have "split_whitespace ('' '' @ b) = split_whitespace b"
    by (simp add: split_whitespace_space)
  also have "split_whitespace b = (if b = [] then [] else [b])"
    using split_whitespace_word [OF assms(2), of "[]"] by simp
  finally show ?thesis by simp
qed

lemma parse_whole_line: "tag_ok tag \<Longrightarrow> i64_ok u \<Longrightarrow> parse_line (tag @ '' '' @ show_int u) = Some (tag, u)"
proof -
  assume t: "tag_ok tag" and u: "i64_ok u"
  have "show_int u \<noteq> []"
    by (simp add: show_int_def)
  then have "split_whitespace (tag @ '' '' @ show_int u) = [tag, show_int u]"
    using words_of_line [OF tag_graphic [OF t] show_int_graphic tag_not_Nil [OF t], of u] by simp
  with t u show ?thesis by (simp add: parse_line_def tag_ok_def)
qed

text \<open>A line cut short reads as nothing or as its own tag.\<close>

lemma parse_torn_line:
  assumes "tag_ok tag"
  shows "parse_line (take n (tag @ '' '' @ show_int u)) = None
    \<or> (\<exists>v. parse_line (take n (tag @ '' '' @ show_int u)) = Some (tag, v))"
proof (cases "n \<le> length tag")
  case True
  let ?t = "take n tag"
  have g: "list_all is_graphic ?t"
    using tag_graphic [OF assms] by (auto simp: list_all_iff dest: in_set_takeD)
  have "split_whitespace ?t = (if ?t = [] then [] else [?t])"
    using split_whitespace_word [OF g, of "[]"] by simp
  then show ?thesis
    using True by (auto simp: parse_line_def)
next
  case False
  then obtain k where "n = length tag + Suc k"
    by (metis add_Suc_right less_imp_Suc_add not_le)
  then have eq: "take n (tag @ '' '' @ show_int u) = tag @ '' '' @ take k (show_int u)"
    by simp
  have "list_all is_graphic (take k (show_int u))"
    using show_int_graphic [of u] by (auto simp: list_all_iff dest: in_set_takeD)
  then have "split_whitespace (tag @ '' '' @ take k (show_int u)) =
      (if take k (show_int u) = [] then [tag] else [tag, take k (show_int u)])"
    by (rule words_of_line [OF tag_graphic [OF assms] _ tag_not_Nil [OF assms]])
  then show ?thesis
    unfolding eq parse_line_def by (auto split: option.splits)
qed

definition journal_map :: "string option \<Rightarrow> string \<rightharpoonup> int" where
  "journal_map j = (case j of
      None \<Rightarrow> Map.empty
    | Some b \<Rightarrow> map_of (rev (List.map_filter parse_line (split_on newline b))))"

definition snapshot_map :: "spent_disk \<Rightarrow> string \<rightharpoonup> int" where
  "snapshot_map disk = map_of (case snapshot disk of Some ts \<Rightarrow> ts | None \<Rightarrow> [])"

lemma tags_read_lines:
  "map_of (tags (fold read_line ls s)) = map_of (tags s) ++ map_of (rev (List.map_filter parse_line ls))"
proof (induction ls arbitrary: s)
  case Nil
  then show ?case by (simp add: List.map_filter_simps)
next
  case (Cons l ls)
  then show ?case
    by (cases "parse_line l")
      (auto simp: read_line_def List.map_filter_simps update_conv' map_add_def fun_eq_iff split: option.splits)
qed

lemma load_from_tags: "map_of (tags (load_from disk)) = snapshot_map disk ++ journal_map (journal_file disk)"
  by (simp add: load_from_def snapshot_map_def journal_map_def Let_def tags_read_lines split: option.splits)

definition whole_journal :: "spent_disk \<Rightarrow> bool" where
  "whole_journal disk \<longleftrightarrow> (case journal_file disk of None \<Rightarrow> True | Some b \<Rightarrow> b = [] \<or> last b = newline)"

lemma journal_torn_fold: "journal_torn (fold read_line ls s) = journal_torn s"
  by (induction ls arbitrary: s) (auto simp: read_line_def split: option.splits)

lemma load_from_torn: "journal_torn (load_from disk) \<longleftrightarrow> \<not> whole_journal disk"
  by (auto simp: load_from_def whole_journal_def Let_def journal_torn_fold split: option.splits)

lemma parse_line_Nil [simp]: "parse_line [] = None"
  by (simp add: parse_line_def)

lemma show_int_no_newline: "newline \<notin> set (show_int u)"
  using show_int_graphic [of u] by (auto simp: list_all_iff is_graphic_def)

lemma tag_no_newline: "tag_ok tag \<Longrightarrow> newline \<notin> set tag"
  using tag_graphic [of tag] by (auto simp: list_all_iff is_graphic_def)

lemma journal_map_append:
  assumes "whole_journal disk"
  shows "journal_map (Some ((case journal_file disk of Some b \<Rightarrow> b | None \<Rightarrow> []) @ x)) =
    journal_map (journal_file disk) ++ map_of (rev (List.map_filter parse_line (split_on newline x)))"
proof (cases "journal_file disk")
  case None
  then show ?thesis by (simp add: journal_map_def)
next
  case (Some b)
  with assms have b: "b = [] \<or> last b = newline"
    by (simp add: whole_journal_def)
  have mf: "List.map_filter parse_line (xs @ ys) = List.map_filter parse_line xs @ List.map_filter parse_line ys" for xs ys
    by (simp add: List.map_filter_def)
  obtain ps where ps: "split_on newline b = ps @ [[]]" "split_on newline (b @ x) = ps @ split_on newline x"
    using split_on_whole(1) [OF b, of x] split_on_whole(2) [OF b] by metis
  then show ?thesis
    using Some by (simp add: journal_map_def mf List.map_filter_simps)
qed

section \<open>Passes stay spent\<close>

type_synonym spent_config = "spent_passes \<times> spent_disk \<times> (string \<rightharpoonup> int)"

text \<open>
  The third component is a record of what was promised: the passes whose
  \<open>record_pass\<close> succeeded, less those taken back and those past their validity.
\<close>

inductive spent_step :: "spent_config \<Rightarrow> spent_config \<Rightarrow> bool" where
  step_record: "\<not> spent_contains s tag \<Longrightarrow> tag_ok tag \<Longrightarrow> i64_ok until \<Longrightarrow>
    record_pass io sio tag until (s, disk) = ((s', disk'), r) \<Longrightarrow>
    spent_step (s, disk, S) (s', disk', if r = Ok () then S(tag \<mapsto> until) else S)"
| step_forget: "forget_pass sio tag (s, disk) = ((s', disk'), r) \<Longrightarrow>
    spent_step (s, disk, S) (s', disk', S(tag := None))"
| step_save: "save sio (s, disk) = ((s', disk'), r) \<Longrightarrow> spent_step (s, disk, S) (s', disk', S)"
| step_prune: "spent_step (s, disk, S)
    (fst (prune now s), disk, \<lambda>t. case S t of Some u \<Rightarrow> if now \<le> u then Some u else None | None \<Rightarrow> None)"
| step_power_cut: "spent_step (s, disk, S) (load_from disk, disk, S)"

definition spent_inv :: "spent_config \<Rightarrow> bool" where
  "spent_inv = (\<lambda>(s, disk, S).
     (\<forall>t u. S t = Some u \<longrightarrow> map_of (tags s) t = Some u
        \<and> (snapshot_map disk ++ journal_map (journal_file disk)) t = Some u
        \<and> (\<forall>v. journal_map (journal_file disk) t = Some v \<longrightarrow> v = u))
     \<and> (\<not> journal_torn s \<longrightarrow> whole_journal disk))"

lemma spent_invI:
  assumes "\<And>t u. S t = Some u \<Longrightarrow> map_of (tags s) t = Some u"
    and "\<And>t u. S t = Some u \<Longrightarrow> (snapshot_map disk ++ journal_map (journal_file disk)) t = Some u"
    and "\<And>t u v. S t = Some u \<Longrightarrow> journal_map (journal_file disk) t = Some v \<Longrightarrow> v = u"
    and "\<not> journal_torn s \<Longrightarrow> whole_journal disk"
  shows "spent_inv (s, disk, S)"
  using assms unfolding spent_inv_def by simp

lemma spent_invD:
  assumes "spent_inv (s, disk, S)"
  shows "S t = Some u \<Longrightarrow> map_of (tags s) t = Some u"
    and "S t = Some u \<Longrightarrow> (snapshot_map disk ++ journal_map (journal_file disk)) t = Some u"
    and "S t = Some u \<Longrightarrow> journal_map (journal_file disk) t = Some v \<Longrightarrow> v = u"
    and "\<not> journal_torn s \<Longrightarrow> whole_journal disk"
  using assms unfolding spent_inv_def by simp_all

text \<open>What a \<open>save\<close> of other tags does to the disk, for the promises those tags still cover.\<close>

lemma spent_inv_save:
  assumes "save io (s, disk) = ((s', disk'), r)"
    and "\<And>t u. S t = Some u \<Longrightarrow> map_of (tags s) t = Some u"
    and "\<And>t u. S t = Some u \<Longrightarrow> (snapshot_map disk ++ journal_map (journal_file disk)) t = Some u \<or> r = Ok ()"
    and "\<And>t u v. S t = Some u \<Longrightarrow> journal_map (journal_file disk) t = Some v \<Longrightarrow> v = u \<or> r = Ok ()"
    and "\<not> journal_torn s \<Longrightarrow> whole_journal disk"
  shows "spent_inv (s', disk', S)"
proof (cases io)
  case FailsBeforeRename
  with assms show ?thesis by (intro spent_invI) (auto simp: save_def)
next
  case (FailsAfterRename emptied)
  have j: "journal_map (map_option (\<lambda>_. []) (journal_file disk)) = Map.empty"
    by (cases "journal_file disk") (simp_all add: journal_map_def List.map_filter_simps)
  from FailsAfterRename assms(1) have d: "s' = s" "r = Err IoError" "disk' = disk\<lparr>snapshot := Some (tags s),
      journal_file := (if emptied then map_option (\<lambda>_. []) (journal_file disk) else journal_file disk)\<rparr>"
    by (auto simp: save_def)
  show ?thesis
  proof (rule spent_invI)
    fix t u assume S: "S t = Some u"
    have k: "v = u" if "journal_map (journal_file disk) t = Some v" for v
      using assms(4) [OF S that] d(2) by simp
    show "map_of (tags s') t = Some u"
      using assms(2) [OF S] d(1) by simp
    show "(snapshot_map disk' ++ journal_map (journal_file disk')) t = Some u"
      using assms(2) [OF S] k j d(3) by (auto simp: snapshot_map_def map_add_def split: option.splits)
    show "v = u" if "journal_map (journal_file disk') t = Some v" for v
      using that k j d(3) by (auto split: if_splits)
  next
    show "\<not> journal_torn s' \<Longrightarrow> whole_journal disk'"
      using assms(5) d(1,3) by (auto simp: whole_journal_def split: option.splits)
  qed
next
  case Saves
  have j: "journal_map (map_option (\<lambda>_. []) (journal_file disk)) = Map.empty"
    by (cases "journal_file disk") (simp_all add: journal_map_def List.map_filter_simps)
  from Saves assms(1,2) j show ?thesis
    by (intro spent_invI) (auto simp: save_def snapshot_map_def whole_journal_def split: option.splits)
qed

text \<open>What appending to a whole journal makes of it, for a whole line and for a torn one.\<close>

lemma line_no_newline:
  assumes "tag_ok tag"
  shows "newline \<notin> set (take n (tag @ '' '' @ show_int until))"
proof
  assume "newline \<in> set (take n (tag @ '' '' @ show_int until))"
  then have "newline \<in> set (tag @ '' '' @ show_int until)"
    by (rule in_set_takeD)
  moreover have "newline \<noteq> CHR '' ''"
    by code_simp
  ultimately show False
    using tag_no_newline [OF assms] show_int_no_newline [of until]
    unfolding set_append list.set by blast
qed

lemma journal_line_end: "journal_line tag until \<noteq> []" "last (journal_line tag until) = newline"
  by (simp_all add: journal_line_def)

lemma journal_map_line:
  assumes "whole_journal disk" "tag_ok tag" "i64_ok until"
  shows "journal_map (Some ((case journal_file disk of Some b \<Rightarrow> b | None \<Rightarrow> []) @ journal_line tag until))
    = (journal_map (journal_file disk))(tag \<mapsto> until)"
proof -
  have "split_on newline (journal_line tag until) = [tag @ '' '' @ show_int until, []]"
    using line_no_newline [OF assms(2), of "length (tag @ '' '' @ show_int until)" until]
      split_on_append [of newline "tag @ '' '' @ show_int until" "[]"]
    by (simp add: journal_line_def)
  then show ?thesis
    using parse_whole_line [OF assms(2,3)]
    by (subst journal_map_append [OF assms(1)]) (simp add: List.map_filter_simps)
qed

lemma journal_map_torn:
  assumes "whole_journal disk" "tag_ok tag" "i64_ok until" "t \<noteq> tag"
  shows "journal_map (Some ((case journal_file disk of Some b \<Rightarrow> b | None \<Rightarrow> []) @ take n (journal_line tag until))) t
    = journal_map (journal_file disk) t"
proof (cases "n \<le> length (tag @ '' '' @ show_int until)")
  case True
  then have "take n (journal_line tag until) = take n (tag @ '' '' @ show_int until)"
    using take_append [of n "tag @ '' '' @ show_int until" "[newline]"] by (simp add: journal_line_def del: take_append)
  moreover have "split_on newline (take n (tag @ '' '' @ show_int until)) = [take n (tag @ '' '' @ show_int until)]"
    by (rule split_on_free [OF line_no_newline [OF assms(2)]])
  ultimately have "split_on newline (take n (journal_line tag until)) = [take n (tag @ '' '' @ show_int until)]"
    by simp
  then show ?thesis
    using parse_torn_line [OF assms(2), of n until] assms(4)
    by (subst journal_map_append [OF assms(1)])
      (auto simp: List.map_filter_simps map_add_def simp del: take_append)
next
  case False
  then have "take n (journal_line tag until) = journal_line tag until"
    by (simp add: journal_line_def)
  then show ?thesis
    using journal_map_line [OF assms(1-3)] assms(4) by simp
qed

lemma spent_inv_record:
  assumes inv: "spent_inv (s, disk, S)" and new: "\<not> spent_contains s tag" and ok: "tag_ok tag" "i64_ok until"
    and rec: "record_pass io sio tag until (s, disk) = ((s', disk'), r)"
  shows "spent_inv (s', disk', if r = Ok () then S(tag \<mapsto> until) else S)"
proof -
  have S: "S tag = None"
    using spent_invD(1) [OF inv] new by (cases "S tag") (auto simp: spent_contains_def)
  note D = spent_invD [OF inv]
  show ?thesis
  proof (cases "journal_torn s")
    case True
    then have sv: "save sio (s\<lparr>tags := AList.update tag until (tags s)\<rparr>, disk) = ((s', disk'), r)"
      using rec by (simp add: record_pass_def)
    show ?thesis
      using D True S by (intro spent_inv_save [OF sv]) (auto simp: update_conv' split: if_splits)
  next
    case False
    then have whole: "whole_journal disk"
      by (rule D(4))
    note line = journal_map_line [OF whole ok] and torn = journal_map_torn [OF whole ok]
    show ?thesis
    proof (cases io)
      case NotOpened
      with rec False inv show ?thesis by (auto simp: record_pass_def Let_def)
    next
      case (Torn n)
      have ne: "t \<noteq> tag" if "S t = Some u" for t u
        using that S by auto
      have "spent_inv (s\<lparr>journal_torn := True\<rparr>, disk\<lparr>journal_file :=
          Some ((case journal_file disk of Some b \<Rightarrow> b | None \<Rightarrow> []) @ take n (journal_line tag until))\<rparr>, S)"
        using D(1-3) ne by (intro spent_invI) (simp_all add: torn map_add_def snapshot_map_def)
      then show ?thesis
        using Torn rec False by (auto simp: record_pass_def Let_def)
    next
      case Flushed
      have "spent_inv (s\<lparr>tags := AList.update tag until (tags s), journal := journal s + 1\<rparr>, disk\<lparr>journal_file :=
          Some ((case journal_file disk of Some b \<Rightarrow> b | None \<Rightarrow> []) @ journal_line tag until)\<rparr>, S(tag \<mapsto> until))"
        using D(1-3) by (intro spent_invI)
          (auto simp: line map_add_def snapshot_map_def update_conv' whole_journal_def journal_line_end split: if_splits)
      then show ?thesis
        using Flushed rec False by (auto simp: record_pass_def Let_def)
    qed
  qed
qed

lemma spent_inv_forget:
  assumes inv: "spent_inv (s, disk, S)" and f: "forget_pass sio tag (s, disk) = ((s', disk'), r)"
  shows "spent_inv (s', disk', S(tag := None))"
proof (cases "map_of (tags s) tag")
  case None
  then show ?thesis
    using f spent_invD [OF inv] by (intro spent_invI) (auto simp: forget_pass_def split: if_splits)
next
  case (Some until)
  obtain s1 r1 where sv: "save sio (s\<lparr>tags := AList.delete tag (tags s)\<rparr>, disk) = ((s1, disk'), r1)"
      and s1: "s' = (if r1 = Ok () then s1 else s1\<lparr>tags := AList.update tag until (tags s1)\<rparr>)"
    using f Some by (auto simp: forget_pass_def split: prod.splits sum.splits)
  have "spent_inv (s1, disk', S(tag := None))"
    using spent_invD [OF inv] by (intro spent_inv_save [OF sv]) (auto simp: delete_conv' split: if_splits)
  then show ?thesis
    using spent_invD by (intro spent_invI) (auto simp: s1 update_conv' split: if_splits)
qed

lemma spent_step_inv:
  assumes "spent_step c c'" "spent_inv c"
  shows "spent_inv c'"
  using assms(1)
proof (cases rule: spent_step.cases)
  case (step_record s tag until io sio disk s' disk' r S)
  with spent_inv_record assms(2) show ?thesis by blast
next
  case (step_forget sio tag s disk s' disk' r S)
  with spent_inv_forget assms(2) show ?thesis by blast
next
  case (step_save sio s disk s' disk' r S)
  then have inv: "spent_inv (s, disk, S)"
    using assms(2) by simp
  show ?thesis
    unfolding step_save(2) using spent_invD [OF inv] by (intro spent_inv_save [OF step_save(3)]) blast+
next
  case (step_prune s disk S now)
  have kept: "map_of (filter (\<lambda>(_, u). now \<le> u) ts) t = Some u" if "map_of ts t = Some u" "now \<le> u" for ts t u
    using that by (induction ts) (auto split: if_splits)
  have inv: "spent_inv (s, disk, S)"
    using assms(2) step_prune(1) by simp
  show ?thesis
    unfolding step_prune(2) using spent_invD [OF inv]
    by (intro spent_invI) (auto simp: prune_def Let_def split: option.splits if_splits intro: kept)
next
  case (step_power_cut s disk S)
  then have inv: "spent_inv (s, disk, S)"
    using assms(2) by simp
  show ?thesis
    unfolding step_power_cut(2) using spent_invD [OF inv]
    by (intro spent_invI) (simp_all add: load_from_tags load_from_torn)
qed

definition no_passes :: "spent_passes \<times> spent_disk" where
  "no_passes = (\<lparr>tags = [], journal = 0, journal_torn = False\<rparr>, \<lparr>snapshot = None, journal_file = None\<rparr>)"

lemma spent_reachable_inv: "spent_step\<^sup>*\<^sup>* (fst no_passes, snd no_passes, Map.empty) c \<Longrightarrow> spent_inv c"
proof (induction rule: rtranclp_induct)
  case base
  show ?case by (simp add: spent_inv_def no_passes_def whole_journal_def)
qed (rule spent_step_inv)

section \<open>Properties\<close>

text \<open>
  A pass is not forgotten. Through any sequence of records, take-backs,
  compactions, prunings and power cuts, with any write failing at any byte: a
  pass that was recorded successfully, was not taken back since and is not past
  its validity is known as spent, with the end of its validity, both to the
  running node and to a node that starts from what is on disk.
\<close>

theorem recorded_pass_stays_spent:
  assumes "spent_step\<^sup>*\<^sup>* (fst no_passes, snd no_passes, Map.empty) (s, disk, S)" "S tag = Some until"
  shows "map_of (tags s) tag = Some until \<and> spent_contains s tag
    \<and> map_of (tags (load_from disk)) tag = Some until \<and> spent_contains (load_from disk) tag"
  using spent_invD(1,2) [OF spent_reachable_inv [OF assms(1)] assms(2)]
  by (simp add: spent_contains_def load_from_tags)

definition sample_tag :: string where
  "sample_tag = replicate 64 (CHR ''a'')"

lemma sample_record:
  "spent_step\<^sup>*\<^sup>* (fst no_passes, snd no_passes, Map.empty)
     (fst (fst (record_pass Flushed Saves sample_tag 77 no_passes)),
      snd (fst (record_pass Flushed Saves sample_tag 77 no_passes)), Map.empty(sample_tag \<mapsto> 77))"
proof -
  obtain s disk r where p: "record_pass Flushed Saves sample_tag 77 no_passes = ((s, disk), r)"
    by (metis prod.exhaust)
  have "r = Ok ()"
    using p by (auto simp: record_pass_def no_passes_def Let_def)
  moreover have "tag_ok sample_tag" "i64_ok 77" "\<not> spent_contains (fst no_passes) sample_tag"
    by (simp_all add: tag_ok_def sample_tag_def i64_ok_def spent_contains_def no_passes_def list_all_iff
        is_ascii_hexdigit_def)
  ultimately have "spent_step (fst no_passes, snd no_passes, Map.empty) (s, disk, Map.empty(sample_tag \<mapsto> 77))"
    using step_record [of "fst no_passes" sample_tag 77 Flushed Saves "snd no_passes" s disk r Map.empty] p by simp
  with p show ?thesis by auto
qed

theorem recorded_pass_stays_spent_witness:
  "spent_contains (load_from (snd (fst (record_pass Flushed Saves sample_tag 77 no_passes)))) sample_tag"
  using recorded_pass_stays_spent [OF sample_record] by simp

text \<open>
  What a failed \<open>record\<close> leaves in memory: with a whole journal, nothing
  new, so the pass may be presented again; but once the journal is torn, the tag
  is put into memory before the snapshot is written, and stays there when that
  write fails, although the caller is told that the pass was not taken.
\<close>

theorem failed_record_effect:
  assumes "record_pass io sio tag until (s, disk) = ((s', disk'), Err e)"
  shows "(\<not> journal_torn s \<longrightarrow> tags s' = tags s) \<and> (journal_torn s \<longrightarrow> spent_contains s' tag)"
proof (cases "journal_torn s")
  case True
  then show ?thesis
    using assms by (cases sio) (auto simp: record_pass_def save_def spent_contains_def update_conv')
next
  case False
  then show ?thesis
    using assms by (cases io) (auto simp: record_pass_def Let_def)
qed

theorem failed_record_effect_witness:
  "\<exists>s' disk'. record_pass Flushed FailsBeforeRename ''T'' 5
      (\<lparr>tags = [], journal = 0, journal_torn = True\<rparr>, snd no_passes) = ((s', disk'), Err IoError)
    \<and> spent_contains s' ''T''"
proof -
  obtain s' disk' where r: "record_pass Flushed FailsBeforeRename ''T'' 5
      (\<lparr>tags = [], journal = 0, journal_torn = True\<rparr>, snd no_passes) = ((s', disk'), Err IoError)"
    by (auto simp: record_pass_def save_def)
  with failed_record_effect [OF r] show ?thesis by auto
qed

end
