(* ===== verification/Admission.thy ===== *)
theory Admission
  imports Leases Nonce_Search Sliding_Window "HOL-Library.AList"
begin

text \<open>
  The limits of a node's admission service (\<^verbatim>\<open>hidravpn-node/src/admission.rs\<close>) and
  the proof of work it asks for (\<^verbatim>\<open>hidravpn-core/src/admission.rs\<close>, module \<^verbatim>\<open>work\<close>).
  An \<^verbatim>\<open>Instant\<close> is a number of nanoseconds, passed as \<open>now\<close>; SHA-256 is a parameter.
  A \<^verbatim>\<open>HashMap\<close> is an association list with distinct keys, a \<^verbatim>\<open>HashSet\<close> a set.

  The lemmas bound what a limiter ever grants: per address and overall, for
  lasting leases and for sessions, over any interval of the window's length.
\<close>

section \<open>Proof of work\<close>

definition DEFAULT_BITS :: nat where
  "DEFAULT_BITS = 20"

definition MAX_BITS :: nat where
  "MAX_BITS = 26"

definition SLACK_MINUTES :: nat where
  "SLACK_MINUTES = 2"

definition WORK_DOMAIN :: bytes where
  "WORK_DOMAIN = ascii_bytes ''HidraVPN admission work v1''"

record proof_of_work =
  w_minute :: "64 word"
  w_nonce :: "64 word"

definition work_digest :: "(bytes \<Rightarrow> bytes) \<Rightarrow> bytes \<Rightarrow> bytes \<Rightarrow> 64 word \<Rightarrow> 64 word \<Rightarrow> bytes" where
  "work_digest sha256 node client minute nonce =
     sha256 (WORK_DOMAIN @ node @ client @ u64_to_be_bytes minute @ u64_to_be_bytes nonce)"

fun zero_bits_from :: "nat \<Rightarrow> bytes \<Rightarrow> nat" where
  "zero_bits_from n [] = n"
| "zero_bits_from n (b # bs) = (if b = 0 then zero_bits_from (n + 8) bs else n + leading_zeros b)"

definition zero_bits :: "bytes \<Rightarrow> nat" where
  "zero_bits d = zero_bits_from 0 d"

partial_function (option) work_loop ::
  "(bytes \<Rightarrow> bytes) \<Rightarrow> bytes \<Rightarrow> bytes \<Rightarrow> 64 word \<Rightarrow> nat \<Rightarrow> 64 word \<Rightarrow> 64 word option" where
  "work_loop sha256 node client minute bits nonce =
     (if bits \<le> zero_bits (work_digest sha256 node client minute nonce) then Some nonce
      else work_loop sha256 node client minute bits (nonce + 1))"

definition work_solve :: "(bytes \<Rightarrow> bytes) \<Rightarrow> bytes \<Rightarrow> bytes \<Rightarrow> 64 word \<Rightarrow> nat \<Rightarrow> proof_of_work option" where
  "work_solve sha256 node client minute bits =
     map_option (\<lambda>nonce. \<lparr>w_minute = minute, w_nonce = nonce\<rparr>) (work_loop sha256 node client minute bits 0)"

definition work_verify ::
  "(bytes \<Rightarrow> bytes) \<Rightarrow> bytes \<Rightarrow> bytes \<Rightarrow> proof_of_work \<Rightarrow> nat \<Rightarrow> 64 word \<Rightarrow> bool" where
  "work_verify sha256 node client w bits now_minute \<longleftrightarrow>
     (if unat (w_minute w) \<le> unat now_minute then unat now_minute - unat (w_minute w)
      else unat (w_minute w) - unat now_minute) \<le> SLACK_MINUTES
     \<and> bits \<le> zero_bits (work_digest sha256 node client (w_minute w) (w_nonce w))"

section \<open>The rate limiter\<close>

definition secs :: "nat \<Rightarrow> nat" where
  "secs n = n * 1000000000"

definition PER_IP :: nat where
  "PER_IP = 3"

definition PER_IP_WINDOW :: nat where
  "PER_IP_WINDOW = secs 600"

definition GLOBAL :: nat where
  "GLOBAL = 120"

definition GLOBAL_WINDOW :: nat where
  "GLOBAL_WINDOW = secs 600"

definition SESSION_GLOBAL :: nat where
  "SESSION_GLOBAL = 600"

definition SESSION_PER_IP :: nat where
  "SESSION_PER_IP = 30"

record limits =
  lim_connections :: nat
  lim_per_ip :: nat
  lim_per_relay :: nat
  lim_first_byte :: nat
  lim_request :: nat
  lim_per_connection :: nat

definition LIMITS :: limits where
  "LIMITS = \<lparr>lim_connections = 4096, lim_per_ip = 8, lim_per_relay = 3072, lim_first_byte = secs 2,
     lim_request = secs 3, lim_per_connection = secs 5\<rparr>"

type_synonym windows = "(ip_addr \<times> nat list) list"

record rate_limiter =
  per_ip :: windows
  global :: "nat list"
  sessions :: "(nat \<times> bytes) list"
  session_keys :: "bytes set"
  session_per_ip :: windows

definition new_limiter :: rate_limiter where
  "new_limiter = \<lparr>per_ip = [], global = [], sessions = [], session_keys = {}, session_per_ip = []\<rparr>"

datatype recorded = New | Again

datatype session_refusal = Node | Address

definition extra_bits :: "nat \<Rightarrow> nat \<Rightarrow> nat" where
  "extra_bits used ceiling =
     (if used * 2 < ceiling then 0
      else if used * 4 < ceiling * 3 then 2
      else if used * 8 < ceiling * 7 then 4
      else 6)"

definition room :: "nat list \<Rightarrow> nat \<Rightarrow> nat \<Rightarrow> nat \<Rightarrow> nat list \<times> bool" where
  "room q now window limit =
     (let q' = dropWhile (\<lambda>t. window < now - t) q in (q', length q' < limit))"

definition window_at :: "windows \<Rightarrow> ip_addr \<Rightarrow> nat list" where
  "window_at m ip = (case map_of m ip of Some q \<Rightarrow> q | None \<Rightarrow> [])"

text \<open>The addresses that have gone quiet are dropped once there are more than ten thousand.\<close>

definition forget_quiet :: "nat \<Rightarrow> nat \<Rightarrow> windows \<Rightarrow> windows" where
  "forget_quiet now window m =
     (if 10000 < length m then filter (\<lambda>(_, q). q \<noteq> [] \<and> now - last q \<le> window) m else m)"

definition allow :: "ip_addr \<Rightarrow> nat \<Rightarrow> rate_limiter \<Rightarrow> rate_limiter \<times> bool" where
  "allow ip now s =
     (let (g, node_room) = room (global s) now GLOBAL_WINDOW GLOBAL; s1 = s\<lparr>global := g\<rparr>
      in if \<not> node_room then (s1, False)
         else
           (let (q, ip_room) = room (window_at (per_ip s1) ip) now PER_IP_WINDOW PER_IP
            in if \<not> ip_room then (s1\<lparr>per_ip := AList.update ip q (per_ip s1)\<rparr>, False)
               else (s1\<lparr>per_ip := forget_quiet now PER_IP_WINDOW (AList.update ip (q @ [now]) (per_ip s1)),
                        global := global s1 @ [now]\<rparr>, True)))"

fun slide :: "nat \<Rightarrow> (nat \<times> bytes) list \<Rightarrow> bytes set \<Rightarrow> (nat \<times> bytes) list \<times> bytes set" where
  "slide now [] keys = ([], keys)"
| "slide now ((t, key) # rest) keys =
     (if now - t \<le> GLOBAL_WINDOW then ((t, key) # rest, keys) else slide now rest (keys - {key}))"

definition slide_sessions :: "nat \<Rightarrow> rate_limiter \<Rightarrow> rate_limiter" where
  "slide_sessions now s =
     (let (q, keys) = slide now (sessions s) (session_keys s) in s\<lparr>sessions := q, session_keys := keys\<rparr>)"

definition session_bits :: "nat \<Rightarrow> nat \<Rightarrow> nat \<Rightarrow> nat \<Rightarrow> rate_limiter \<Rightarrow> rate_limiter \<times> nat" where
  "session_bits base now held max_clients s =
     (let s1 = slide_sessions now s;
          extra = max (extra_bits (length (sessions s1)) SESSION_GLOBAL) (extra_bits held max_clients)
      in (s1, min (min (base + extra) 255) (max MAX_BITS base)))"

definition session_room ::
  "bytes \<Rightarrow> ip_addr option \<Rightarrow> nat \<Rightarrow> rate_limiter \<Rightarrow> rate_limiter \<times> (session_refusal + unit)" where
  "session_room key src now s =
     (let s1 = slide_sessions now s in
      if key \<in> session_keys s1 then (s1, Ok ())
      else if SESSION_GLOBAL \<le> length (sessions s1) then (s1, Err Node)
      else (case src of
              None \<Rightarrow> (s1, Ok ())
            | Some ip \<Rightarrow> (case map_of (session_per_ip s1) ip of
                None \<Rightarrow> (s1, Ok ())
              | Some q \<Rightarrow>
                  (let (q', fits) = room q now GLOBAL_WINDOW SESSION_PER_IP;
                       s2 = s1\<lparr>session_per_ip := AList.update ip q' (session_per_ip s1)\<rparr>
                   in if fits then (s2, Ok ()) else (s2, Err Address)))))"

definition allow_session ::
  "bytes \<Rightarrow> ip_addr option \<Rightarrow> nat \<Rightarrow> rate_limiter \<Rightarrow> rate_limiter \<times> (session_refusal + recorded)" where
  "allow_session key src now s = (case session_room key src now s of
      (s1, Err e) \<Rightarrow> (s1, Err e)
    | (s1, Ok _) \<Rightarrow>
        (if key \<in> session_keys s1 then (s1, Ok Again)
         else
           (let s2 = (case src of
                  None \<Rightarrow> s1
                | Some ip \<Rightarrow> s1\<lparr>session_per_ip := forget_quiet now GLOBAL_WINDOW
                    (AList.update ip (window_at (session_per_ip s1) ip @ [now]) (session_per_ip s1))\<rparr>)
            in (s2\<lparr>sessions := sessions s2 @ [(now, key)], session_keys := insert key (session_keys s2)\<rparr>, Ok New))))"

definition forget_session :: "bytes \<Rightarrow> rate_limiter \<Rightarrow> rate_limiter" where
  "forget_session key s =
     (if key \<in> session_keys s
      then s\<lparr>session_keys := session_keys s - {key}, sessions := filter (\<lambda>(_, k). k \<noteq> key) (sessions s)\<rparr>
      else s)"

record spent_pass =
  sp_tag :: string
  sp_valid_until :: int

definition lease_name :: "string \<Rightarrow> nat \<Rightarrow> string" where
  "lease_name wanted counter =
     (let w = trim wanted in
      if w \<noteq> [] \<and> length w \<le> 32
         \<and> list_all (\<lambda>c. is_ascii_alphanumeric c \<or> c = CHR ''-'' \<or> c = CHR ''_'') w
      then w else ''open-'' @ show_nat counter)"

section \<open>Open connections per address\<close>

definition take_open :: "ip_addr \<Rightarrow> nat \<Rightarrow> (ip_addr \<times> nat) list \<Rightarrow> (ip_addr \<times> nat) list \<times> bool" where
  "take_open ip share m =
     (let n = (case map_of m ip of Some n \<Rightarrow> n | None \<Rightarrow> 0)
      in if share \<le> n then (AList.update ip n m, False) else (AList.update ip (n + 1) m, True))"

definition drop_open :: "ip_addr \<Rightarrow> (ip_addr \<times> nat) list \<Rightarrow> (ip_addr \<times> nat) list" where
  "drop_open ip m = (case map_of m ip of
      Some n \<Rightarrow> (if n - 1 = 0 then AList.delete ip m else AList.update ip (n - 1) m)
    | None \<Rightarrow> m)"

section \<open>Proof of work: lemmas\<close>

interpretation work_search: nonce_search
  "\<lambda>n. bits \<le> zero_bits (work_digest sha256 node client minute n)" "work_loop sha256 node client minute bits"
  for bits sha256 node client minute
  by unfold_locales (rule work_loop.simps)

section \<open>Windows per address\<close>

definition times_at :: "ip_addr \<Rightarrow> (ip_addr \<times> nat) list \<Rightarrow> nat list" where
  "times_at ip log = map snd (filter (\<lambda>e. fst e = ip) log)"

abbreviation span :: nat where
  "span \<equiv> Suc GLOBAL_WINDOW"

definition wins_ok :: "nat \<Rightarrow> windows \<Rightarrow> (ip_addr \<times> nat) list \<Rightarrow> nat \<Rightarrow> bool" where
  "wins_ok cap m log clock \<longleftrightarrow> distinct (map fst m) \<and> (\<forall>ip.
     window_ok span cap (window_at m ip) (times_at ip log) clock
     \<and> sorted (window_at m ip) \<and> (\<forall>t\<in>set (window_at m ip). t \<le> clock))"

lemma wins_okD:
  assumes "wins_ok cap m log clock"
  shows "distinct (map fst m)" "window_ok span cap (window_at m ip) (times_at ip log) clock"
    "sorted (window_at m ip)" "t \<in> set (window_at m ip) \<Longrightarrow> t \<le> clock"
  using assms by (auto simp: wins_ok_def)

lemma wins_later: "wins_ok cap m log clock \<Longrightarrow> clock \<le> now \<Longrightarrow> wins_ok cap m log now"
  unfolding wins_ok_def using window_ok_later by (meson order_trans)

lemma window_at_update: "window_at (AList.update ip w m) ip' = (if ip' = ip then w else window_at m ip')"
  by (simp add: window_at_def update_conv')

lemma wins_set:
  assumes "wins_ok cap m log now" "window_ok span cap w (times_at ip log') now" "sorted w" "\<forall>t\<in>set w. t \<le> now"
    and "\<And>ip'. ip' \<noteq> ip \<Longrightarrow> times_at ip' log' = times_at ip' log"
  shows "wins_ok cap (AList.update ip w m) log' now"
  using assms unfolding wins_ok_def window_at_update by (simp add: distinct_update)

abbreviation slid :: "nat \<Rightarrow> nat list \<Rightarrow> nat list" where
  "slid now q \<equiv> dropWhile (\<lambda>t. GLOBAL_WINDOW < now - t) q"

lemma slid_ok: "window_ok span cap w ts now \<Longrightarrow> window_ok span cap (slid now w) ts now"
  using window_ok_dropWhile [of span cap w ts now] by (simp add: Suc_le_eq)

lemma slid_subset: "set (slid now q) \<subseteq> set q"
  by (meson set_dropWhileD subsetI)

lemma wins_slide:
  assumes "wins_ok cap m log now"
  shows "wins_ok cap (AList.update ip (slid now (window_at m ip)) m) log now"
  using wins_okD [OF assms] slid_subset [of now "window_at m ip"]
  by (intro wins_set [OF assms]) (auto simp: slid_ok intro: sorted_dropWhile)

lemma times_at_snoc: "times_at ip' (log @ [(ip, now)]) = times_at ip' log @ (if ip' = ip then [now] else [])"
  by (simp add: times_at_def)

lemma wins_note:
  assumes "wins_ok cap m log now" "length w < cap" "window_ok span cap w (times_at ip log) now"
    and "sorted w" "\<forall>t\<in>set w. t \<le> now"
  shows "wins_ok cap (AList.update ip (w @ [now]) m) (log @ [(ip, now)]) now"
  using assms window_ok_note [OF assms(3,2)]
  by (intro wins_set [OF assms(1)]) (auto simp: times_at_snoc sorted_append)

lemma window_at_filter:
  assumes "distinct (map fst m)"
  shows "window_at (filter (\<lambda>(_, q). P q) m) ip = (if P (window_at m ip) \<or> map_of m ip = None then window_at m ip else [])"
proof -
  have "map_of (filter (\<lambda>(_, q). P q) m) ip = (case map_of m ip of Some q \<Rightarrow> if P q then Some q else None | None \<Rightarrow> None)"
    using assms by (induction m) (auto split: option.splits simp: map_of_eq_None_iff image_iff)
  then show ?thesis
    by (auto simp: window_at_def split: option.splits)
qed

lemma sorted_le_last: "sorted q \<Longrightarrow> t \<in> set q \<Longrightarrow> t \<le> last q" for t :: nat
  by (induction q) auto

text \<open>A window whose last time has slid out has nothing left to count.\<close>

lemma wins_quiet:
  assumes "wins_ok cap m log now"
  shows "wins_ok cap (forget_quiet now GLOBAL_WINDOW m) log now"
proof (cases "10000 < length m")
  case True
  let ?P = "\<lambda>q. q \<noteq> [] \<and> now - last q \<le> GLOBAL_WINDOW"
  let ?m = "filter (\<lambda>(_, q). ?P q) m"
  note d = wins_okD [OF assms]
  have "window_ok span cap (window_at ?m ip) (times_at ip log) now
      \<and> sorted (window_at ?m ip) \<and> (\<forall>t\<in>set (window_at ?m ip). t \<le> now)" for ip
  proof (cases "window_at ?m ip = window_at m ip")
    case True
    with d show ?thesis by simp
  next
    case False
    let ?q = "window_at m ip"
    from False have gone: "window_at ?m ip = []" "\<not> ?P ?q"
      unfolding window_at_filter [OF d(1)] by (auto split: if_splits)
    have "t + span \<le> T" if "t \<in> set ?q" "now \<le> T" for t T
    proof -
      have "t \<le> last ?q"
        using d(3) that(1) by (rule sorted_le_last)
      moreover have "GLOBAL_WINDOW < now - last ?q"
        using gone(2) that(1) by auto
      ultimately show ?thesis
        using that(2) by simp
    qed
    then have "\<And>T. now \<le> T \<Longrightarrow> filter (\<lambda>t. T < t + span) [] = filter (\<lambda>t. T < t + span) ?q"
      by (simp add: filter_empty_conv not_less)
    then show ?thesis
      unfolding gone(1) using window_ok_drop [OF d(2)] by simp
  qed
  then show ?thesis
    using True d(1) by (simp add: wins_ok_def forget_quiet_def distinct_map_filter)
qed (simp add: forget_quiet_def assms)

section \<open>What a limiter grants\<close>

definition sessions_ok :: "rate_limiter \<Rightarrow> bool" where
  "sessions_ok s \<longleftrightarrow> length (sessions s) \<le> SESSION_GLOBAL \<and> distinct (map snd (sessions s))
     \<and> session_keys s = snd ` set (sessions s)"

lemma sessions_ok_other [simp]:
  "sessions_ok (s\<lparr>global := g\<rparr>) = sessions_ok s" "sessions_ok (s\<lparr>per_ip := m\<rparr>) = sessions_ok s"
  "sessions_ok (s\<lparr>session_per_ip := m\<rparr>) = sessions_ok s"
  by (simp_all add: sessions_ok_def)

type_synonym limiter_config =
  "rate_limiter \<times> (ip_addr \<times> nat) list \<times> (ip_addr \<times> nat) list \<times> nat"

text \<open>
  The steps of a limiter, with the log of lasting admissions it granted, the log
  of new session keys it granted by address, and the clock.
\<close>

inductive limiter_step :: "limiter_config \<Rightarrow> limiter_config \<Rightarrow> bool" where
  step_allow: "clock \<le> now \<Longrightarrow> allow ip now s = (s', ok) \<Longrightarrow>
    limiter_step (s, lasting, news, clock) (s', if ok then lasting @ [(ip, now)] else lasting, news, now)"
| step_session: "clock \<le> now \<Longrightarrow> allow_session key src now s = (s', r) \<Longrightarrow>
    limiter_step (s, lasting, news, clock)
      (s', lasting, case src of Some ip \<Rightarrow> (if r = Ok New then news @ [(ip, now)] else news) | None \<Rightarrow> news, now)"
| step_room: "clock \<le> now \<Longrightarrow> session_room key src now s = (s', r) \<Longrightarrow>
    limiter_step (s, lasting, news, clock) (s', lasting, news, now)"
| step_bits: "clock \<le> now \<Longrightarrow> session_bits base now held max_clients s = (s', bits) \<Longrightarrow>
    limiter_step (s, lasting, news, clock) (s', lasting, news, now)"
| step_forget: "limiter_step (s, lasting, news, clock) (forget_session key s, lasting, news, clock)"

definition limiter_inv :: "limiter_config \<Rightarrow> bool" where
  "limiter_inv = (\<lambda>(s, lasting, news, clock).
     wins_ok PER_IP (per_ip s) lasting clock
     \<and> window_ok span GLOBAL (global s) (map snd lasting) clock
     \<and> wins_ok SESSION_PER_IP (session_per_ip s) news clock
     \<and> sessions_ok s)"

lemma slide_keys:
  assumes "distinct (map snd q)" "keys = snd ` set q"
  shows "snd (slide now q keys) = snd ` set (fst (slide now q keys)) \<and> (\<exists>ys. q = ys @ fst (slide now q keys))"
  using assms
proof (induction now q keys rule: slide.induct)
  case (2 now t key rest keys)
  show ?case
  proof (cases "now - t \<le> GLOBAL_WINDOW")
    case False
    have "keys - {key} = snd ` set rest"
      using "2.prems" by auto
    with 2 False obtain ys where "rest = ys @ fst (slide now rest (keys - {key}))"
        "snd (slide now rest (keys - {key})) = snd ` set (fst (slide now rest (keys - {key})))"
      by auto
    with False show ?thesis
      by (auto intro: exI [of _ "(t, key) # ys"])
  qed (use "2.prems" in simp)
qed simp

lemma slide_sessions_ok: "sessions_ok s \<Longrightarrow> sessions_ok (slide_sessions now s)"
proof -
  assume ok: "sessions_ok s"
  obtain q keys where q: "slide now (sessions s) (session_keys s) = (q, keys)"
    by fastforce
  with ok obtain ys where ys: "sessions s = ys @ q" and k: "keys = snd ` set q"
    using slide_keys [of "sessions s" "session_keys s" now] by (auto simp: sessions_ok_def)
  then show ?thesis
    using ok q by (simp add: sessions_ok_def slide_sessions_def)
qed

lemma slide_sessions_same [simp]:
  "per_ip (slide_sessions now s) = per_ip s" "global (slide_sessions now s) = global s"
  "session_per_ip (slide_sessions now s) = session_per_ip s"
  by (simp_all add: slide_sessions_def split: prod.splits)

lemma session_room_cases:
  assumes "session_room key src now s = (s', r)"
  obtains (refused) e where "r = Err e" "sessions s' = sessions (slide_sessions now s)"
      "session_keys s' = session_keys (slide_sessions now s)" "per_ip s' = per_ip s" "global s' = global s"
      "session_per_ip s' = session_per_ip s \<or> (\<exists>ip. session_per_ip s' =
         AList.update ip (slid now (window_at (session_per_ip s) ip)) (session_per_ip s))"
  | (again) "r = Ok ()" "s' = slide_sessions now s" "key \<in> session_keys s'"
  | (fits) "r = Ok ()" "sessions s' = sessions (slide_sessions now s)"
      "session_keys s' = session_keys (slide_sessions now s)" "per_ip s' = per_ip s" "global s' = global s"
      "key \<notin> session_keys s'" "length (sessions s') < SESSION_GLOBAL"
      "session_per_ip s' = session_per_ip s \<or> (\<exists>ip. session_per_ip s' =
         AList.update ip (slid now (window_at (session_per_ip s) ip)) (session_per_ip s))"
      "\<And>ip. src = Some ip \<Longrightarrow> length (window_at (session_per_ip s') ip) < SESSION_PER_IP"
proof -
  let ?s1 = "slide_sessions now s"
  consider "key \<in> session_keys ?s1" | "key \<notin> session_keys ?s1" "SESSION_GLOBAL \<le> length (sessions ?s1)"
    | "key \<notin> session_keys ?s1" "length (sessions ?s1) < SESSION_GLOBAL" by linarith
  then show ?thesis
  proof cases
    case 1
    with assms show ?thesis by (intro again) (auto simp: session_room_def Let_def)
  next
    case 2
    with assms show ?thesis by (intro refused) (auto simp: session_room_def Let_def)
  next
    case 3
    show ?thesis
    proof (cases "\<exists>ip q. src = Some ip \<and> map_of (session_per_ip s) ip = Some q")
      case False
      then show ?thesis
        using 3 assms by (intro fits)
          (auto simp: session_room_def Let_def window_at_def SESSION_PER_IP_def split: option.splits)
    next
      case True
      then obtain ip q where q: "src = Some ip" "map_of (session_per_ip s) ip = Some q"
        by blast
      let ?s2 = "?s1\<lparr>session_per_ip := AList.update ip (slid now q) (session_per_ip s)\<rparr>"
      have w: "window_at (session_per_ip s) ip = q"
        by (simp add: window_at_def q(2))
      have r: "session_room key src now s = (?s2, if length (slid now q) < SESSION_PER_IP then Ok () else Err Address)"
        using 3 q by (simp add: session_room_def Let_def room_def)
      show ?thesis
      proof (cases "length (slid now q) < SESSION_PER_IP")
        case True
        then show ?thesis
          using assms r 3 q w by (intro fits) (auto simp: window_at_update)
      next
        case False
        then show ?thesis
          using assms r 3 q w by (intro refused [of Address]) auto
      qed
    qed
  qed
qed

lemma limiter_invD:
  assumes "limiter_inv (s, lasting, news, clock)"
  shows "wins_ok PER_IP (per_ip s) lasting clock" "window_ok span GLOBAL (global s) (map snd lasting) clock"
    "wins_ok SESSION_PER_IP (session_per_ip s) news clock" "sessions_ok s"
  using assms by (simp_all add: limiter_inv_def)

lemma limiter_inv_later:
  "limiter_inv (s, lasting, news, clock) \<Longrightarrow> clock \<le> now \<Longrightarrow> limiter_inv (s, lasting, news, now)"
  unfolding limiter_inv_def by (auto intro: wins_later window_ok_later)

lemma limiter_inv_allow:
  assumes inv: "limiter_inv (s, lasting, news, now)" and a: "allow ip now s = (s', ok)"
  shows "limiter_inv (s', if ok then lasting @ [(ip, now)] else lasting, news, now)"
proof -
  note d = limiter_invD [OF inv] and w = wins_okD [OF limiter_invD(1) [OF inv]]
  let ?g = "slid now (global s)" and ?q = "slid now (window_at (per_ip s) ip)"
  have win: "PER_IP_WINDOW = GLOBAL_WINDOW"
    by (simp add: PER_IP_WINDOW_def GLOBAL_WINDOW_def)
  have eq: "allow ip now s = (if GLOBAL \<le> length ?g then (s\<lparr>global := ?g\<rparr>, False)
      else if PER_IP \<le> length ?q then (s\<lparr>global := ?g, per_ip := AList.update ip ?q (per_ip s)\<rparr>, False)
      else (s\<lparr>per_ip := forget_quiet now GLOBAL_WINDOW (AList.update ip (?q @ [now]) (per_ip s)), global := ?g @ [now]\<rparr>, True))"
    by (simp add: allow_def room_def Let_def win not_less)
  have g: "window_ok span GLOBAL ?g (map snd lasting) now"
    using d(2) by (rule slid_ok)
  have q: "window_ok span PER_IP ?q (times_at ip lasting) now" "sorted ?q" "\<forall>t\<in>set ?q. t \<le> now"
    using w slid_subset [of now "window_at (per_ip s) ip"] by (auto simp: slid_ok intro: sorted_dropWhile)
  consider "GLOBAL \<le> length ?g" | "\<not> GLOBAL \<le> length ?g" "PER_IP \<le> length ?q"
    | "\<not> GLOBAL \<le> length ?g" "\<not> PER_IP \<le> length ?q" by blast
  then show ?thesis
  proof cases
    case 1
    with a eq d g show ?thesis by (auto simp: limiter_inv_def)
  next
    case 2
    with a eq d g wins_slide [OF d(1), of ip] show ?thesis by (auto simp: limiter_inv_def)
  next
    case 3
    then have "wins_ok PER_IP (forget_quiet now GLOBAL_WINDOW (AList.update ip (?q @ [now]) (per_ip s))) (lasting @ [(ip, now)]) now"
      using wins_quiet [OF wins_note [OF d(1) _ q]] by simp
    moreover have "window_ok span GLOBAL (?g @ [now]) (map snd (lasting @ [(ip, now)])) now"
      using window_ok_note [OF g] 3(1) by simp
    ultimately show ?thesis
      using 3 a eq d(3,4) by (auto simp: limiter_inv_def)
  qed
qed

lemma limiter_inv_slide:
  assumes "limiter_inv (s, lasting, news, now)"
  shows "limiter_inv (slide_sessions now s, lasting, news, now)"
  using limiter_invD [OF assms] slide_sessions_ok by (simp add: limiter_inv_def)

lemma limiter_inv_same:
  assumes "limiter_inv (s, lasting, news, now)" "sessions s' = sessions (slide_sessions now s)"
    "session_keys s' = session_keys (slide_sessions now s)" "per_ip s' = per_ip s" "global s' = global s"
    "session_per_ip s' = session_per_ip s \<or> (\<exists>ip. session_per_ip s' =
       AList.update ip (slid now (window_at (session_per_ip s) ip)) (session_per_ip s))"
  shows "limiter_inv (s', lasting, news, now)"
proof -
  note d = limiter_invD [OF assms(1)]
  have "sessions_ok s'"
    using slide_sessions_ok [OF d(4), of now] assms(2,3) by (simp add: sessions_ok_def)
  moreover have "wins_ok SESSION_PER_IP (session_per_ip s') news now"
    using assms(6) d(3) wins_slide by metis
  ultimately show ?thesis
    using d assms(4,5) by (simp add: limiter_inv_def)
qed

lemma limiter_inv_room:
  assumes "limiter_inv (s, lasting, news, now)" "session_room key src now s = (s', r)"
  shows "limiter_inv (s', lasting, news, now)"
  using assms(2)
proof (cases rule: session_room_cases)
  case (refused e)
  then show ?thesis by (intro limiter_inv_same [OF assms(1)])
next
  case again
  then show ?thesis using limiter_inv_slide [OF assms(1)] by simp
next
  case fits
  then show ?thesis by (intro limiter_inv_same [OF assms(1)])
qed

lemma limiter_inv_session:
  assumes inv: "limiter_inv (s, lasting, news, now)" and a: "allow_session key src now s = (s', r)"
  shows "limiter_inv (s', lasting,
    case src of Some ip \<Rightarrow> (if r = Ok New then news @ [(ip, now)] else news) | None \<Rightarrow> news, now)"
proof -
  obtain s1 r1 where room: "session_room key src now s = (s1, r1)"
    by fastforce
  have inv1: "limiter_inv (s1, lasting, news, now)"
    using limiter_inv_room [OF inv room] .
  note d = limiter_invD [OF inv1]
  show ?thesis
  proof (cases "r1 = Ok () \<and> key \<notin> session_keys s1")
    case False
    then have "s' = s1" "r \<noteq> Ok New"
      using a room by (auto simp: allow_session_def split: sum.splits if_splits)
    with inv1 show ?thesis by (simp split: option.splits)
  next
    case True
    let ?w = "\<lambda>ip. window_at (session_per_ip s1) ip"
    have fits: "length (sessions s1) < SESSION_GLOBAL" "\<And>ip. src = Some ip \<Longrightarrow> length (?w ip) < SESSION_PER_IP"
      using room True by (cases rule: session_room_cases; simp)+
    have r: "r = Ok New" "sessions s' = sessions s1 @ [(now, key)]" "session_keys s' = insert key (session_keys s1)"
        "per_ip s' = per_ip s1" "global s' = global s1"
        "session_per_ip s' = (case src of None \<Rightarrow> session_per_ip s1
           | Some ip \<Rightarrow> forget_quiet now GLOBAL_WINDOW (AList.update ip (?w ip @ [now]) (session_per_ip s1)))"
      using a room True by (auto simp: allow_session_def Let_def split: option.splits)
    have "sessions_ok s'"
      using d(4) fits(1) True by (auto simp: sessions_ok_def r)
    moreover have "wins_ok SESSION_PER_IP (session_per_ip s')
        (case src of Some ip \<Rightarrow> news @ [(ip, now)] | None \<Rightarrow> news) now"
    proof (cases src)
      case (Some ip)
      then show ?thesis
        using wins_quiet [OF wins_note [OF d(3) fits(2)]] wins_okD [OF d(3)] by (simp add: r)
    qed (use d(3) in \<open>simp add: r\<close>)
    ultimately show ?thesis
      using d r by (simp add: limiter_inv_def split: option.splits)
  qed
qed

lemma limiter_step_inv:
  assumes "limiter_step c c'" "limiter_inv c"
  shows "limiter_inv c'"
  using assms(1)
proof (cases rule: limiter_step.cases)
  case (step_allow clock now ip s s' ok lasting news)
  then show ?thesis
    using limiter_inv_allow [OF limiter_inv_later step_allow(4)] assms(2) by simp
next
  case (step_session clock now key src s s' r lasting news)
  then show ?thesis
    using limiter_inv_session [OF limiter_inv_later step_session(4)] assms(2) by simp
next
  case (step_room clock now key src s s' r lasting news)
  then show ?thesis
    using limiter_inv_room [OF limiter_inv_later step_room(4)] assms(2) by simp
next
  case (step_bits clock now base held max_clients s s' bits lasting news)
  then have "s' = slide_sessions now s"
    by (simp add: session_bits_def Let_def)
  then show ?thesis
    using step_bits limiter_inv_slide [OF limiter_inv_later] assms(2) by simp
next
  case (step_forget s lasting news clock key)
  then have inv: "limiter_inv (s, lasting, news, clock)"
    using assms(2) by simp
  have "sessions_ok (forget_session key s)"
    using limiter_invD(4) [OF inv]
    by (auto simp: sessions_ok_def forget_session_def distinct_map_filter intro: le_trans [OF length_filter_le])
  then show ?thesis
    using limiter_invD [OF inv] step_forget by (simp add: limiter_inv_def forget_session_def)
qed

lemma limiter_reachable_inv: "limiter_step\<^sup>*\<^sup>* (new_limiter, [], [], 0) c \<Longrightarrow> limiter_inv c"
proof (induction rule: rtranclp_induct)
  case base
  show ?case
    by (simp add: limiter_inv_def new_limiter_def wins_ok_def window_at_def times_at_def window_ok_Nil sessions_ok_def)
qed (rule limiter_step_inv)

section \<open>Keys in the window\<close>

lemma slide_keeps:
  "distinct (map snd q) \<Longrightarrow> (t, key) \<in> set q \<Longrightarrow> now - t \<le> GLOBAL_WINDOW \<Longrightarrow> key \<in> keys \<Longrightarrow>
   key \<in> snd (slide now q keys)"
proof (induction now q keys rule: slide.induct)
  case (2 now t' key' rest keys)
  show ?case
  proof (cases "now - t' \<le> GLOBAL_WINDOW")
    case False
    then have "(t, key) \<in> set rest"
      using "2.prems" by auto
    moreover from this have "key \<noteq> key'"
      using "2.prems"(1) by (auto simp: rev_image_eqI)
    ultimately show ?thesis
      using 2 False by simp
  qed (use "2.prems" in simp)
qed simp

lemma session_New:
  assumes "allow_session key src now s = (s', Ok New)"
  shows "sessions s' = sessions (slide_sessions now s) @ [(now, key)]"
    "session_keys s' = insert key (session_keys (slide_sessions now s))"
    "key \<notin> session_keys (slide_sessions now s)"
proof -
  obtain s1 r1 where room: "session_room key src now s = (s1, r1)"
    by fastforce
  then have r: "session_room key src now s = (s1, Ok ())" "key \<notin> session_keys s1"
    using assms by (auto simp: allow_session_def split: sum.splits if_splits)
  have s': "sessions s' = sessions s1 @ [(now, key)]" "session_keys s' = insert key (session_keys s1)"
    using assms r by (cases src; simp add: allow_session_def Let_def; force)+
  from r(1) have "sessions s1 = sessions (slide_sessions now s) \<and> session_keys s1 = session_keys (slide_sessions now s)"
    by (cases rule: session_room_cases) simp_all
  with s' r(2) show "sessions s' = sessions (slide_sessions now s) @ [(now, key)]"
    "session_keys s' = insert key (session_keys (slide_sessions now s))"
    "key \<notin> session_keys (slide_sessions now s)"
    by simp_all
qed

section \<open>Properties\<close>

text \<open>
  Claim C21. Through any sequence of requests with a clock that does not run
  backwards, in any ten minutes: no address is granted more than three lasting
  admissions and all addresses together no more than 120; no counted address is
  granted more than 30 new session keys; and the window never holds more than
  600 sessions, each key once.
\<close>

theorem limiter_grants_bounded:
  assumes "limiter_step\<^sup>*\<^sup>* (new_limiter, [], [], 0) (s, lasting, news, clock)"
  shows "length (filter (\<lambda>(a, t). a = ip \<and> t \<le> T \<and> T \<le> t + secs 600) lasting) \<le> 3
    \<and> length (filter (\<lambda>(a, t). t \<le> T \<and> T \<le> t + secs 600) lasting) \<le> 120
    \<and> length (filter (\<lambda>(a, t). a = ip \<and> t \<le> T \<and> T \<le> t + secs 600) news) \<le> 30
    \<and> length (sessions s) \<le> 600 \<and> distinct (map snd (sessions s))
    \<and> session_keys s = snd ` set (sessions s)"
proof -
  note d = limiter_invD [OF limiter_reachable_inv [OF assms]]
  have times: "length (filter (\<lambda>(a, t). a = ip \<and> t \<le> T \<and> T \<le> t + secs 600) log)
      = length (filter (\<lambda>t. t \<le> T \<and> T < t + span) (times_at ip log))" for log
    unfolding times_at_def by (induction log) (auto simp: GLOBAL_WINDOW_def)
  have all: "length (filter (\<lambda>(a, t). t \<le> T \<and> T \<le> t + secs 600) lasting)
      = length (filter (\<lambda>t. t \<le> T \<and> T < t + span) (map snd lasting))"
    by (induction lasting) (auto simp: GLOBAL_WINDOW_def)
  show ?thesis
    unfolding times all
    using window_ok_quota [OF wins_okD(2) [OF d(1)], of T ip] window_ok_quota [OF d(2), of T]
      window_ok_quota [OF wins_okD(2) [OF d(3)], of T ip] d(4)
    by (simp add: PER_IP_def GLOBAL_def SESSION_PER_IP_def SESSION_GLOBAL_def sessions_ok_def)
qed

theorem limiter_grants_bounded_witness:
  "length (filter (\<lambda>(a, t). a = V4 7 \<and> t \<le> 9 \<and> 9 \<le> t + secs 600) [(V4 7, 5)]) \<le> 3"
proof -
  have "\<exists>s'. allow (V4 7) 5 new_limiter = (s', True)"
    by (simp add: allow_def new_limiter_def room_def Let_def GLOBAL_def PER_IP_def window_at_def)
  then obtain s' where "allow (V4 7) 5 new_limiter = (s', True)"
    by blast
  then have "limiter_step (new_limiter, [], [], 0) (s', [(V4 7, 5)], [], 5)"
    using step_allow [of 0 5 "V4 7" new_limiter s' True "[]" "[]"] by simp
  then have "limiter_step\<^sup>*\<^sup>* (new_limiter, [], [], 0) (s', [(V4 7, 5)], [], 5)"
    by (rule r_into_rtranclp)
  from limiter_grants_bounded [OF this] show ?thesis by blast
qed





text \<open>
  A session key takes one place. Asking again with the same key inside
  the window is allowed and takes nothing more; and giving the place back leaves
  the window as it was before the key came, so a key that never connects costs
  nobody else a place.
\<close>

theorem session_place_once_and_back:
  assumes "sessions_ok s" "allow_session key src now s = (s', Ok New)" "now' - now \<le> secs 600"
  shows "(\<exists>s''. allow_session key src' now' s' = (s'', Ok Again) \<and> s'' = slide_sessions now' s')
    \<and> sessions (forget_session key s') = sessions (slide_sessions now s)
    \<and> session_keys (forget_session key s') = session_keys (slide_sessions now s)"
proof -
  note new = session_New [OF assms(2)]
  have ok: "sessions_ok (slide_sessions now s)"
    using assms(1) by (rule slide_sessions_ok)
  then have d: "distinct (map snd (sessions s'))" and keys: "key \<notin> snd ` set (sessions (slide_sessions now s))"
    using new by (auto simp: sessions_ok_def)
  have "key \<in> snd (slide now' (sessions s') (session_keys s'))"
    using slide_keeps [OF d, of now key now'] assms(3) new by (simp add: GLOBAL_WINDOW_def)
  then have "key \<in> session_keys (slide_sessions now' s')"
    by (simp add: slide_sessions_def case_prod_beta)
  then have "allow_session key src' now' s' = (slide_sessions now' s', Ok Again)"
    by (simp add: allow_session_def session_room_def Let_def)
  moreover have "filter (\<lambda>(_, k). k \<noteq> key) (sessions (slide_sessions now s)) = sessions (slide_sessions now s)"
    using keys by (auto simp: filter_id_conv rev_image_eqI)
  ultimately show ?thesis
    using new by (simp add: forget_session_def)
qed

theorem session_place_once_and_back_witness:
  "\<exists>s'. allow_session [1] None 5 new_limiter = (s', Ok New) \<and> sessions (forget_session [1] s') = []"
proof -
  have "\<exists>s'. allow_session [1] None 5 new_limiter = (s', Ok New)"
    by (simp add: allow_session_def session_room_def slide_sessions_def new_limiter_def Let_def SESSION_GLOBAL_def)
  then obtain s' where s': "allow_session [1] None 5 new_limiter = (s', Ok New)"
    by blast
  moreover have "sessions_ok new_limiter"
    by (simp add: sessions_ok_def new_limiter_def)
  ultimately show ?thesis
    using session_place_once_and_back [of new_limiter "[1]" None 5 s' 6 None]
    by (auto simp: slide_sessions_def new_limiter_def secs_def)
qed

text \<open>
  Claim C23. A client that can prove the work does: if some nonce has enough zero
  bits, the search returns, with the least such nonce, and the node accepts the
  proof for that node, that key and that many bits within two minutes of the
  minute it was made for.
\<close>

theorem work_solve_verifies:
  assumes "bits \<le> zero_bits (work_digest sha256 node client minute nonce)"
    and "unat minute \<le> unat now_minute + 2" "unat now_minute \<le> unat minute + 2"
  shows "\<exists>w. work_solve sha256 node client minute bits = Some w \<and> w_minute w = minute \<and> w_nonce w \<le> nonce
    \<and> work_verify sha256 node client w bits now_minute"
proof -
  obtain n where n: "work_loop sha256 node client minute bits 0 = Some n"
      "bits \<le> zero_bits (work_digest sha256 node client minute n)" "n \<le> nonce"
    using work_search.search_least [OF assms(1)] assms(1) by blast
  then show ?thesis
    using assms(2,3) by (auto simp: work_solve_def work_verify_def SLACK_MINUTES_def)
qed

theorem work_solve_verifies_witness:
  "\<exists>w. work_solve (\<lambda>b. [0, last b]) [1] [2] 9 16 = Some w \<and> work_verify (\<lambda>b. [0, last b]) [1] [2] w 16 10"
proof -
  have "16 \<le> zero_bits (work_digest (\<lambda>b. [0, last b]) [1] [2] 9 256)"
    by code_simp
  then show ?thesis
    using work_solve_verifies [of 16 "\<lambda>b. [0, last b]" "[1]" "[2]" 9 256 10] by auto
qed

end
