(* ===== verification/Timefmt.thy ===== *)
theory Timefmt
  imports Text_Format "HOL-Library.Signed_Division"
begin

text \<open>
  Dates (\<^verbatim>\<open>hidravpn-core/src/timefmt.rs\<close>) and the one formatter of dates there is, the
  issuer's \<open>rfc3339\<close> (\<^verbatim>\<open>hidravpn-issuer/src/main.rs\<close>). An \<^verbatim>\<open>i64\<close> is an \<open>int\<close>: a date
  has four digits of year, so nothing here comes near its limits. Rust's \<^verbatim>\<open>/\<close>
  truncates: it is \<open>sdiv\<close> where an operand can be negative and \<open>div\<close> where none can.

  The lemmas follow the calendar algorithm: \<open>day_key\<close> never decreases and grows by 365
  exactly at each first of March, which makes \<open>year_of_era\<close> the year a day lies in.
  Together they give that \<open>rfc3339\<close> and \<open>rfc3339_to_unix\<close> are inverse.
\<close>

definition strip_suffix :: "string \<Rightarrow> string \<Rightarrow> string option" where
  "strip_suffix suf s =
     (if length suf \<le> length s \<and> drop (length s - length suf) s = suf
      then Some (take (length s - length suf) s) else None)"

definition days_from_civil :: "int \<Rightarrow> int \<Rightarrow> int \<Rightarrow> int" where
  "days_from_civil y m d =
     (let y = (if m \<le> 2 then y - 1 else y);
          era = (if 0 \<le> y then y else y - 399) sdiv 400;
          yoe = y - era * 400;
          mp = (m + 9) mod 12;
          doy = (153 * mp + 2) div 5 + d - 1;
          doe = yoe * 365 + yoe div 4 - yoe div 100 + doy
      in era * 146097 + doe - 719468)"

definition date_fields :: "string \<Rightarrow> char \<Rightarrow> nat \<times> nat \<times> nat \<Rightarrow> (int \<times> int \<times> int) option" where
  "date_fields str sep = (\<lambda>(w1, w2, w3). case split_on sep str of
      [p1, p2, p3] \<Rightarrow>
        (if (length p1 = w1 \<and> list_all is_ascii_digit p1) \<and> (length p2 = w2 \<and> list_all is_ascii_digit p2)
            \<and> (length p3 = w3 \<and> list_all is_ascii_digit p3)
         then Some (int (dec_val p1), int (dec_val p2), int (dec_val p3)) else None)
    | _ \<Rightarrow> None)"

datatype date_error = NotADate

definition clock_part :: "string \<Rightarrow> string option" where
  "clock_part rest = (case strip_suffix ''Z'' rest of
      Some t \<Rightarrow> Some t
    | None \<Rightarrow> strip_suffix ''+00:00'' rest)"

definition rfc3339_to_unix :: "string \<Rightarrow> date_error + int" where
  "rfc3339_to_unix s = (case split_once (CHR ''T'') (trim s) of
      None \<Rightarrow> Err NotADate
    | Some (date, rest) \<Rightarrow> (case clock_part rest of
        None \<Rightarrow> Err NotADate
      | Some time \<Rightarrow>
          (let (time, frac) = (case split_once (CHR ''.'') time of Some tf \<Rightarrow> tf | None \<Rightarrow> (time, ''0''))
           in if frac = [] \<or> \<not> list_all is_ascii_digit frac then Err NotADate
              else (case (date_fields date (CHR ''-'') (4, 2, 2), date_fields time (CHR '':'') (2, 2, 2)) of
                  (Some (y, m, day), Some (h, mi, sec)) \<Rightarrow>
                    (if \<not> (1 \<le> m \<and> m \<le> 12) \<or> \<not> (1 \<le> day \<and> day \<le> 31) \<or> 23 < h \<or> 59 < mi \<or> 60 < sec
                     then Err NotADate
                     else Ok (days_from_civil y m day * 86400 + h * 3600 + mi * 60 + sec))
                | _ \<Rightarrow> Err NotADate))))"

definition year_of_era :: "int \<Rightarrow> int" where
  "year_of_era doe = (doe - doe div 1460 + doe div 36524 - doe div 146096) div 365"

definition civil_of :: "int \<Rightarrow> int \<Rightarrow> int \<Rightarrow> int \<times> int \<times> int" where
  "civil_of era yoe doy =
     (let mp = (5 * doy + 2) div 153;
          d = doy - (153 * mp + 2) div 5 + 1;
          m = (if mp < 10 then mp + 3 else mp - 9);
          y = yoe + era * 400 + (if m \<le> 2 then 1 else 0)
      in (y, m, d))"

definition civil_from_days :: "int \<Rightarrow> int \<times> int \<times> int" where
  "civil_from_days days =
     (let z = days + 719468;
          era = z div 146097;
          doe = z - era * 146097;
          yoe = year_of_era doe
      in civil_of era yoe (doe - (365 * yoe + yoe div 4 - yoe div 100)))"

text \<open>\<^verbatim>\<open>format!("{:0w$}")\<close> of a signed number: the sign counts in the width.\<close>

definition show_padded_int :: "nat \<Rightarrow> int \<Rightarrow> string" where
  "show_padded_int w i =
     (if i < 0 then CHR ''-'' # show_padded (w - 1) (nat (- i)) else show_padded w (nat i))"

definition rfc3339 :: "int \<Rightarrow> string" where
  "rfc3339 unix = (case civil_from_days (unix div 86400) of (y, m, d) \<Rightarrow>
     show_padded_int 4 y @ ''-'' @ show_padded_int 2 m @ ''-'' @ show_padded_int 2 d @ ''T00:00:00Z'')"

section \<open>The calendar\<close>

definition day_key :: "int \<Rightarrow> int" where
  "day_key doe = doe - doe div 1460 + doe div 36524 - doe div 146096"

definition year_start :: "int \<Rightarrow> int" where
  "year_start yoe = 365 * yoe + yoe div 4 - yoe div 100"

lemma day_key_step: "day_key n \<le> day_key (n + 1)"
proof -
  have eq: "k div 146096 = k div 36524 div 4" for k :: int
    by (simp add: div_mult2_eq [symmetric])
  have up: "(n + 1) div 1460 \<le> n div 1460 + 1"
    using zdiv_mono1 [of "n + 1" "n + 1460" 1460] by simp
  have mono: "n div 36524 \<le> (n + 1) div 36524"
    by (simp add: zdiv_mono1)
  have "(n + 1) div 36524 div 4 - n div 36524 div 4 \<le> (n + 1) div 36524 - n div 36524"
    using mono by linarith
  with up show ?thesis
    unfolding day_key_def eq by linarith
qed

lemma day_key_mono: "m \<le> n \<Longrightarrow> day_key m \<le> day_key n"
proof (induction n rule: int_ge_induct)
  case (step i)
  with day_key_step [of i] show ?case by simp
qed simp

lemma day_key_years:
  "\<forall>y\<in>set [0..399]. 365 * y \<le> day_key (year_start y)
     \<and> day_key (if y = 399 then 146096 else year_start (y + 1) - 1) < 365 * (y + 1)"
  by code_simp

lemma year_of_era_start:
  assumes "0 \<le> y" "y < 400" "year_start y \<le> doe" "doe < (if y = 399 then 146097 else year_start (y + 1))"
  shows "year_of_era doe = y"
proof -
  have "y \<in> set [0..399]" using assms by simp
  with day_key_years have "365 * y \<le> day_key (year_start y)"
    and "day_key (if y = 399 then 146096 else year_start (y + 1) - 1) < 365 * (y + 1)" by blast+
  moreover have "day_key doe \<le> day_key (if y = 399 then 146096 else year_start (y + 1) - 1)"
    using assms by (intro day_key_mono) (simp split: if_splits)
  ultimately have "365 * y \<le> day_key doe" "day_key doe < 365 * (y + 1)"
    using day_key_mono [OF assms(3)] by linarith+
  then have "day_key doe div 365 = y"
    by (intro int_div_pos_eq [where r = "day_key doe - 365 * y"]) auto
  then show ?thesis
    by (simp add: year_of_era_def day_key_def)
qed

lemma day_in_year:
  assumes "0 \<le> doe" "doe < 146097"
  shows "\<exists>y. 0 \<le> y \<and> y < 400 \<and> year_start y \<le> doe \<and> doe < (if y = 399 then 146097 else year_start (y + 1))"
proof -
  define Y where "Y = {y :: int. 0 \<le> y \<and> y < 400 \<and> year_start y \<le> doe}"
  have fin: "finite Y" unfolding Y_def
    by (rule finite_subset [of _ "{0..<400}"]) auto
  have "0 \<in> Y" using assms by (simp add: Y_def year_start_def)
  then have "Max Y \<in> Y" using fin by (intro Max_in) auto
  moreover have "doe < year_start (Max Y + 1)" if "Max Y \<noteq> 399"
  proof (rule ccontr)
    assume "\<not> ?thesis"
    with that \<open>Max Y \<in> Y\<close> have "Max Y + 1 \<in> Y" by (simp add: Y_def)
    from Max_ge [OF fin this] show False by simp
  qed
  ultimately show ?thesis
    using assms by (intro exI [of _ "Max Y"]) (auto simp: Y_def)
qed

lemma year_length:
  assumes "0 \<le> y" "y < 400" "doe < (if y = 399 then 146097 else year_start (y + 1))"
  shows "doe - year_start y \<le> 365"
proof (cases "y = 399")
  case True
  with assms(3) show ?thesis by (simp add: year_start_def)
next
  case False
  have "(y + 1) div 4 \<le> y div 4 + 1" "y div 100 \<le> (y + 1) div 100" by linarith+
  with assms(3) False show ?thesis by (simp add: year_start_def)
qed

text \<open>Within a year: the month counted from March and the day in it.\<close>

lemma month_day:
  assumes "0 \<le> doy" "doy \<le> (365 :: int)"
  defines "mp \<equiv> (5 * doy + 2) div 153"
  shows "0 \<le> mp" "mp \<le> 11" "1 \<le> doy - (153 * mp + 2) div 5 + 1" "doy - (153 * mp + 2) div 5 + 1 \<le> 31"
proof -
  show "0 \<le> mp" "mp \<le> 11" using assms by (simp, linarith)
  have "153 * mp \<le> 5 * doy + 2" "5 * doy + 2 < 153 * mp + 153"
    unfolding mp_def by linarith+
  then show "1 \<le> doy - (153 * mp + 2) div 5 + 1" "doy - (153 * mp + 2) div 5 + 1 \<le> 31"
    by linarith+
qed

lemma sdiv_floor: "(if 0 \<le> y then y else y - 399) sdiv 400 = y div 400" for y :: int
proof (cases "0 \<le> y")
  case True
  then show ?thesis by (auto simp: signed_divide_int_def sgn_if)
next
  case False
  then have "(y - 399) sdiv 400 = - ((399 - y) div 400)"
    by (simp add: signed_divide_int_def sgn_if)
  with False show ?thesis by simp
qed

lemma civil_from_days_parts:
  obtains era Y doy where "0 \<le> Y" "Y < 400" "0 \<le> doy" "doy \<le> 365"
    "days + 719468 = era * 146097 + (year_start Y + doy)" "year_start Y + doy < 146097"
    "civil_from_days days = civil_of era Y doy"
proof -
  define z era doe where "z = days + 719468" and "era = z div 146097" and "doe = z mod 146097"
  have z: "z = era * 146097 + doe" "0 \<le> doe" "doe < 146097"
    unfolding era_def doe_def by simp_all
  obtain Y where Y: "0 \<le> Y" "Y < 400" "year_start Y \<le> doe" "doe < (if Y = 399 then 146097 else year_start (Y + 1))"
    using day_in_year [OF z(2,3)] by blast
  have eq: "z - era * 146097 = doe" using z(1) by simp
  have "civil_from_days days = civil_of era Y (doe - year_start Y)"
    unfolding civil_from_days_def Let_def z_def [symmetric] era_def [symmetric] eq year_of_era_start [OF Y]
    by (simp only: year_start_def)
  with Y z year_length [OF Y(1,2,4)] show ?thesis
    by (intro that [of Y "doe - year_start Y" era]) (simp_all add: z_def)
qed

lemma civil_from_days_valid:
  assumes "civil_from_days days = (y, m, d)"
  shows "1 \<le> m" "m \<le> 12" "1 \<le> d" "d \<le> 31" "days_from_civil y m d = days"
proof -
  obtain era Y doy where Y: "0 \<le> Y" "Y < 400" and doy: "0 \<le> doy" "doy \<le> 365"
    and z: "days + 719468 = era * 146097 + (year_start Y + doy)"
    and c: "civil_from_days days = civil_of era Y doy"
    by (rule civil_from_days_parts)
  define mp where "mp = (5 * doy + 2) div 153"
  note md = month_day [OF doy, folded mp_def]
  have r: "m = (if mp < 10 then mp + 3 else mp - 9)" "d = doy - (153 * mp + 2) div 5 + 1"
    "y = Y + era * 400 + (if m \<le> 2 then 1 else 0)"
    using assms [unfolded c] by (auto simp: civil_of_def Let_def simp flip: mp_def)
  show "1 \<le> m" "m \<le> 12" "1 \<le> d" "d \<le> 31" using md r by auto
  have "(m + 9) mod 12 = mp"
    using md(1,2) r(1) by (cases "mp < 10") simp_all
  moreover have y: "(if m \<le> 2 then y - 1 else y) = Y + era * 400" using r(3) by simp
  moreover have era: "(Y + era * 400) div 400 = era" using Y by simp
  ultimately have "days_from_civil y m d =
      era * 146097 + (Y * 365 + Y div 4 - Y div 100 + ((153 * mp + 2) div 5 + d - 1)) - 719468"
    unfolding days_from_civil_def Let_def sdiv_floor by (simp only: add_diff_cancel_right')
  also have "\<dots> = era * 146097 + (year_start Y + doy) - 719468"
    unfolding r(2) year_start_def by linarith
  finally show "days_from_civil y m d = days" using z by linarith
qed

lemma civil_year_range:
  assumes "civil_from_days days = (y, m, d)" "0 \<le> days" "days < 2932897"
  shows "0 \<le> y \<and> y \<le> 9999"
proof -
  obtain era Y doy where Y: "0 \<le> Y" "Y < 400" and doy: "0 \<le> doy" "doy \<le> 365"
    and z: "days + 719468 = era * 146097 + (year_start Y + doy)" and top: "year_start Y + doy < 146097"
    and c: "civil_from_days days = civil_of era Y doy"
    by (rule civil_from_days_parts)
  define mp where "mp = (5 * doy + 2) div 153"
  have y: "y = Y + era * 400 + (if (if mp < 10 then mp + 3 else mp - 9) \<le> 2 then 1 else 0)"
    using assms(1) [unfolded c] by (auto simp: civil_of_def Let_def simp flip: mp_def)
  have start: "0 \<le> year_start Y" using Y unfolding year_start_def by linarith
  with z assms(2,3) doy top have era: "0 \<le> era" "era \<le> 24" by linarith+
  have "mp < 10" if "era = 24" "Y = 399"
  proof -
    from that z assms(3) have "doy < 306" by (simp add: year_start_def)
    then show ?thesis unfolding mp_def by linarith
  qed
  moreover have "0 \<le> mp" using doy by (simp add: mp_def)
  ultimately show ?thesis using y Y era by (cases "era = 24"; cases "Y = 399") auto
qed

section \<open>Dates as text\<close>

lemma dec_val_zeros [simp]: "dec_val (replicate k (CHR ''0'') @ s) = dec_val s"
  by (induction k) (simp_all add: dec_val_def digit_val_def)

lemma show_padded_field:
  assumes "n < 10 ^ w" "0 < w"
  shows "length (show_padded w n) = w" "list_all is_ascii_digit (show_padded w n)" "dec_val (show_padded w n) = n"
proof -
  from assms(2) obtain k where "w = Suc k" by (cases w) auto
  with assms(1) have "length (show_nat n) \<le> w"
    using length_show_radix [of 10 n k] by (simp add: show_nat_def)
  then show "length (show_padded w n) = w" by (simp add: show_padded_def)
  show "list_all is_ascii_digit (show_padded w n)"
    by (simp add: show_padded_def list_all_iff is_ascii_digit_def) (use show_nat_digits [of n] in \<open>auto simp: list_all_iff is_ascii_digit_def\<close>)
  show "dec_val (show_padded w n) = n" by (simp add: show_padded_def)
qed

lemma digits_free: "list_all is_ascii_digit s \<Longrightarrow> \<not> is_ascii_digit c \<Longrightarrow> c \<notin> set s"
  by (auto simp: list_all_iff)

lemma not_digits: "\<not> is_ascii_digit (CHR ''-'')" "\<not> is_ascii_digit (CHR ''T'')" "\<not> is_ascii_digit (CHR '':'')"
  "\<not> is_ascii_digit (CHR ''.'')"
  by (simp_all add: is_ascii_digit_def)

lemma date_fields_join:
  assumes "list_all is_ascii_digit a" "list_all is_ascii_digit b" "list_all is_ascii_digit c" "\<not> is_ascii_digit sep"
  shows "date_fields (a @ sep # b @ sep # c) sep (length a, length b, length c) = Some (int (dec_val a), int (dec_val b), int (dec_val c))"
  using assms by (simp add: date_fields_def split_on_append split_on_free digits_free)

lemma trim_graphic: "list_all is_graphic s \<Longrightarrow> trim s = s"
  by (rule trim_id_ascii) (simp add: list_all_iff is_graphic_def)

lemma graphic_digits: "list_all is_ascii_digit s \<Longrightarrow> list_all is_graphic s"
  by (auto simp: list_all_iff is_graphic_digit)

lemma midnight_fields: "date_fields ''00:00:00'' (CHR '':'') (2, 2, 2) = Some (0, 0, 0)"
  by code_simp

lemma read_midnight:
  assumes "list_all is_ascii_digit a" "length a = 4" "list_all is_ascii_digit b" "length b = 2"
    "list_all is_ascii_digit c" "length c = 2" "1 \<le> dec_val b" "dec_val b \<le> 12" "1 \<le> dec_val c" "dec_val c \<le> 31"
  shows "rfc3339_to_unix (a @ ''-'' @ b @ ''-'' @ c @ ''T00:00:00Z'')
    = Ok (days_from_civil (int (dec_val a)) (int (dec_val b)) (int (dec_val c)) * 86400)"
proof -
  let ?date = "a @ CHR ''-'' # b @ CHR ''-'' # c"
  have "trim (?date @ CHR ''T'' # ''00:00:00Z'') = ?date @ CHR ''T'' # ''00:00:00Z''"
    using assms by (intro trim_graphic) (simp add: graphic_digits, simp add: is_graphic_def)
  moreover have "split_once (CHR ''T'') (?date @ CHR ''T'' # ''00:00:00Z'') = Some (?date, ''00:00:00Z'')"
    using assms by (intro split_once_append) (auto dest: digits_free [OF _ not_digits(2)])
  moreover have "clock_part ''00:00:00Z'' = Some ''00:00:00''"
    by code_simp
  moreover have "split_once (CHR ''.'') ''00:00:00'' = None" "list_all is_ascii_digit ''0''"
    by code_simp+
  moreover have "date_fields ?date (CHR ''-'') (4, 2, 2) = Some (int (dec_val a), int (dec_val b), int (dec_val c))"
    using date_fields_join [OF assms(1,3,5) not_digits(1)] assms(2,4,6) by simp
  ultimately show ?thesis
    using assms(7-10) by (simp add: rfc3339_to_unix_def midnight_fields)
qed

text \<open>
  The issuer writes a date that every reader understands: for every second
  from the epoch to the end of the year 9999, \<open>rfc3339\<close> gives a date that
  \<open>rfc3339_to_unix\<close> reads as midnight of that day; and the civil date it writes is a
  valid one whose day number, by the other of the two calendar algorithms, is the day
  it was made from.
\<close>

theorem date_roundtrip:
  assumes "0 \<le> t" "t < 253402300800"
  shows "rfc3339_to_unix (rfc3339 t) = Ok (t - t mod 86400)
    \<and> (case civil_from_days (t div 86400) of (y, m, d) \<Rightarrow>
         0 \<le> y \<and> y \<le> 9999 \<and> 1 \<le> m \<and> m \<le> 12 \<and> 1 \<le> d \<and> d \<le> 31 \<and> days_from_civil y m d = t div 86400)"
proof -
  obtain y m d where c: "civil_from_days (t div 86400) = (y, m, d)" by (cases "civil_from_days (t div 86400)")
  note v = civil_from_days_valid [OF c]
  have "0 \<le> t div 86400" "t div 86400 < 2932897" using assms by linarith+
  from civil_year_range [OF c this] have y: "0 \<le> y" "y \<le> 9999" by auto
  have w: "nat y < 10 ^ 4" "nat m < 10 ^ 2" "nat d < 10 ^ 2" using v y by auto
  note fs = show_padded_field [OF w(1)] show_padded_field [OF w(2)] show_padded_field [OF w(3)]
  have "rfc3339 t = show_padded 4 (nat y) @ ''-'' @ show_padded 2 (nat m) @ ''-'' @ show_padded 2 (nat d) @ ''T00:00:00Z''"
    using v y by (simp add: rfc3339_def c show_padded_int_def)
  moreover have "Suc 0 \<le> nat m" "nat m \<le> 12" "Suc 0 \<le> nat d" "nat d \<le> 31" using v by linarith+
  ultimately have "rfc3339_to_unix (rfc3339 t) = Ok (days_from_civil y m d * 86400)"
    using v y fs read_midnight [of "show_padded 4 (nat y)" "show_padded 2 (nat m)" "show_padded 2 (nat d)"] by simp
  with v y show ?thesis by (simp add: c minus_mod_eq_div_mult)
qed

theorem date_roundtrip_witness: "rfc3339_to_unix (rfc3339 1791894896) = Ok 1791849600"
  using date_roundtrip [of 1791894896] by simp

end
