(* ===== verification/Http.thy ===== *)
theory Http
  imports Addr_Parse Timefmt
begin

text \<open>
  The HTTP client of the VPN (\<^verbatim>\<open>hidravpn-core/src/http.rs\<close>): which addresses it
  follows, where an account token may go, the text of a request, and how an answer
  is read, chunked or not. Connecting and TLS are not modelled. Text is a string of
  bytes; \<^verbatim>\<open>from_utf8_lossy\<close> changes neither an ASCII character nor a white space, so
  the head of an answer is read as it came.

  The lemmas on \<open>dechunk\<close> give that a chunked answer is read back whole, and that no
  proper prefix of one is taken for a shorter answer.
\<close>

section \<open>Text\<close>

fun find_sub :: "string \<Rightarrow> string \<Rightarrow> nat option" where
  "find_sub pat [] = (if pat = [] then Some 0 else None)"
| "find_sub pat (c # cs) = (if take (length pat) (c # cs) = pat then Some 0 else map_option Suc (find_sub pat cs))"

definition strip_prefix :: "string \<Rightarrow> string \<Rightarrow> string option" where
  "strip_prefix pre s = (if take (length pre) s = pre then Some (drop (length pre) s) else None)"

definition rsplit_once :: "char \<Rightarrow> string \<Rightarrow> (string \<times> string) option" where
  "rsplit_once c s = map_option (\<lambda>(a, b). (rev b, rev a)) (split_once c (rev s))"

abbreviation lf :: char where
  "lf \<equiv> CHR 0x0A"

abbreviation cr :: char where
  "cr \<equiv> CHR 0x0D"

abbreviation crlf :: string where
  "crlf \<equiv> [cr, lf]"

definition strip_cr :: "string \<Rightarrow> string" where
  "strip_cr s = (case strip_suffix [cr] s of Some t \<Rightarrow> t | None \<Rightarrow> s)"

definition str_lines :: "string \<Rightarrow> string list" where
  "str_lines s = (let ls = split_on lf s in map strip_cr (if last ls = [] then butlast ls else ls))"

text \<open>Well-formed UTF-8: no overlong form, no surrogate, nothing past U+10FFFF.\<close>

definition continuation :: "char \<Rightarrow> bool" where
  "continuation c \<longleftrightarrow> 128 \<le> (of_char c :: nat) \<and> (of_char c :: nat) \<le> 191"

definition utf8_second :: "nat \<Rightarrow> nat \<Rightarrow> bool" where
  "utf8_second a b \<longleftrightarrow>
     (if a = 224 then 160 \<le> b \<and> b \<le> 191 else if a = 237 then 128 \<le> b \<and> b \<le> 159
      else if a = 240 then 144 \<le> b \<and> b \<le> 191 else if a = 244 then 128 \<le> b \<and> b \<le> 143
      else 128 \<le> b \<and> b \<le> 191)"

fun from_utf8 :: "string \<Rightarrow> bool" where
  "from_utf8 [] = True"
| "from_utf8 (c # s) = (let a = of_char c :: nat in
     if a < 128 then from_utf8 s
     else if 194 \<le> a \<and> a \<le> 223 then
       (case s of b # s \<Rightarrow> utf8_second a (of_char b) \<and> from_utf8 s | _ \<Rightarrow> False)
     else if 224 \<le> a \<and> a \<le> 239 then
       (case s of b # b' # s \<Rightarrow> utf8_second a (of_char b) \<and> continuation b' \<and> from_utf8 s | _ \<Rightarrow> False)
     else if 240 \<le> a \<and> a \<le> 244 then
       (case s of b # b' # b'' # s \<Rightarrow> utf8_second a (of_char b) \<and> continuation b' \<and> continuation b'' \<and> from_utf8 s
        | _ \<Rightarrow> False)
     else False)"

section \<open>Addresses the client follows\<close>

definition MAX_ANSWER :: nat where
  "MAX_ANSWER = 256 * 1024"

record url =
  u_https :: bool
  u_host :: string
  u_port :: nat
  u_path :: string

datatype http_error = NotHttp | NoHost | NoBracket | BadPort | PlainHttp | TokenInClear
  | TooLarge | NoHeaders | NoStatus | BadLength | CutShort | NotText | MidChunk | BadChunkSize | NoChunkEnd

definition shared_v4 :: "ipv4 \<Rightarrow> bool" where
  "shared_v4 a \<longleftrightarrow> octet 0 a = 100 \<and> (octet 1 a AND 0xC0) = 64"

definition loopback :: "string \<Rightarrow> bool" where
  "loopback host = (case parse_ip host of
      Some (V4 a) \<Rightarrow> v4_is_loopback a
    | Some (V6 a) \<Rightarrow> v6_is_loopback a
    | None \<Rightarrow> host = ''localhost'')"

definition stays_private :: "string \<Rightarrow> bool" where
  "stays_private host = (case parse_ip host of
      Some (V4 a) \<Rightarrow> v4_is_loopback a \<or> v4_is_private a \<or> shared_v4 a
    | Some (V6 a) \<Rightarrow> v6_is_loopback a
    | None \<Rightarrow> host = ''localhost'')"

definition split_scheme :: "string \<Rightarrow> (bool \<times> string) option" where
  "split_scheme s = (case strip_prefix ''https://'' s of
      Some r \<Rightarrow> Some (True, r)
    | None \<Rightarrow> map_option (\<lambda>r. (False, r)) (strip_prefix ''http://'' s))"

definition parse_port :: "string \<Rightarrow> http_error + nat" where
  "parse_port p = (case parse_uint 65535 p of Some n \<Rightarrow> Ok n | None \<Rightarrow> Err BadPort)"

definition host_and_port :: "string \<Rightarrow> nat \<Rightarrow> http_error + string \<times> nat" where
  "host_and_port authority default_port = (case strip_prefix ''['' authority of
      Some r \<Rightarrow> (case split_once (CHR '']'') r of
          None \<Rightarrow> Err NoBracket
        | Some (h, after) \<Rightarrow> (case strip_prefix '':'' after of
              Some p \<Rightarrow> bind_result (parse_port p) (\<lambda>n. Ok (h, n))
            | None \<Rightarrow> Ok (h, default_port)))
    | None \<Rightarrow> (case rsplit_once (CHR '':'') authority of
          Some (h, p) \<Rightarrow> bind_result (parse_port p) (\<lambda>n. Ok (h, n))
        | None \<Rightarrow> Ok (authority, default_port)))"

definition host_char :: "char \<Rightarrow> bool" where
  "host_char c \<longleftrightarrow> is_ascii_alphanumeric c \<or> c = CHR ''.'' \<or> c = CHR ''-'' \<or> c = CHR '':''"

definition url_parse :: "string \<Rightarrow> http_error + url" where
  "url_parse s = (case split_scheme (trim s) of
      None \<Rightarrow> Err NotHttp
    | Some (https, rest) \<Rightarrow>
        (let (authority, path) =
           (case split_once (CHR ''/'') rest of Some (a, p) \<Rightarrow> (a, CHR ''/'' # p) | None \<Rightarrow> (rest, ''/''))
         in if authority = [] \<or> CHR ''@'' \<in> set authority then Err NoHost
            else bind_result (host_and_port authority (if https then 443 else 80)) (\<lambda>(host, port).
              if host = [] \<or> \<not> list_all host_char host then Err NoHost
              else if \<not> https \<and> \<not> stays_private host then Err PlainHttp
              else Ok \<lparr>u_https = https, u_host = host, u_port = port, u_path = path\<rparr>)))"

definition with_path :: "url \<Rightarrow> string \<Rightarrow> url" where
  "with_path u path = u\<lparr>u_path :=
     rev (dropWhile (\<lambda>c. c = CHR ''/'') (rev (u_path u))) @ ''/'' @ dropWhile (\<lambda>c. c = CHR ''/'') path\<rparr>"

text \<open>\<open>plain_issuer\<close> is the environment variable \<^verbatim>\<open>HIDRAVPN_PLAIN_HTTP_ISSUER\<close>.\<close>

definition check_for_token :: "string option \<Rightarrow> url \<Rightarrow> http_error + unit" where
  "check_for_token plain_issuer u =
     (if u_https u \<or> loopback (u_host u) then Ok ()
      else if plain_issuer = Some ''1'' then Ok ()
      else Err TokenInClear)"

section \<open>Requests and answers\<close>

definition request_text :: "url \<Rightarrow> string \<Rightarrow> string \<Rightarrow> string" where
  "request_text u meth body =
     (let host = (if CHR '':'' \<in> set (u_host u) then ''['' @ u_host u @ '']'' else u_host u)
      in meth @ '' '' @ u_path u @ '' HTTP/1.1'' @ crlf @ ''Host: '' @ host @ crlf
         @ ''Content-Type: application/json'' @ crlf @ ''Content-Length: '' @ show_nat (length body) @ crlf
         @ ''Connection: close'' @ crlf @ crlf @ body)"

definition from_hex_usize :: "string \<Rightarrow> nat option" where
  "from_hex_usize s =
     (let ds = (case s of c # rest \<Rightarrow> if c = CHR ''+'' then rest else s | [] \<Rightarrow> [])
      in if ds = [] \<or> \<not> list_all is_ascii_hexdigit ds \<or> U64_MAX < hex_number ds then None
         else Some (hex_number ds))"

definition chunk_size :: "string \<Rightarrow> nat option" where
  "chunk_size line = from_hex_usize (trim (hd (split_on (CHR '';'') line)))"

lemma find_sub_bound: "find_sub pat s = Some i \<Longrightarrow> i + length pat \<le> length s"
proof (induction s arbitrary: i)
  case (Cons c s)
  show ?case
  proof (cases "take (length pat) (c # s) = pat")
    case True
    then have "length pat \<le> length (c # s)" by (metis length_take min.cobounded1)
    with True Cons.prems show ?thesis by simp
  next
    case False
    with Cons.prems obtain j where "find_sub pat s = Some j" "i = Suc j" by auto
    with Cons.IH show ?thesis by fastforce
  qed
qed (simp split: if_splits)

function dechunk_from :: "string \<Rightarrow> string \<Rightarrow> http_error + string" where
  "dechunk_from out rest = (case find_sub crlf rest of
      None \<Rightarrow> Err MidChunk
    | Some eol \<Rightarrow>
        (let after = drop (eol + 2) rest
         in case chunk_size (take eol rest) of
              None \<Rightarrow> Err BadChunkSize
            | Some n \<Rightarrow>
                (if n = 0 then Ok out
                 else if length after < n \<or> length after - n < 2 then Err MidChunk
                 else (case strip_prefix crlf (drop n after) of
                     None \<Rightarrow> Err NoChunkEnd
                   | Some rest \<Rightarrow> dechunk_from (out @ take n after) rest))))"
  by pat_completeness auto
termination
  by (relation "measure (\<lambda>(_, rest). length rest)")
    (auto simp: strip_prefix_def split: if_splits dest!: find_sub_bound)

declare dechunk_from.simps [simp del]

definition dechunk :: "string \<Rightarrow> http_error + string" where
  "dechunk rest = dechunk_from [] rest"

definition header :: "string \<Rightarrow> string \<Rightarrow> string option" where
  "header head name = (case List.map_filter (\<lambda>l. case split_once (CHR '':'') l of
        Some (k, v) \<Rightarrow> if eq_ignore_ascii_case (trim k) name then Some (trim v) else None
      | None \<Rightarrow> None) (drop 1 (str_lines head)) of
      v # _ \<Rightarrow> Some v
    | [] \<Rightarrow> None)"

definition status_of :: "string \<Rightarrow> nat option" where
  "status_of head = (case str_lines head of
      [] \<Rightarrow> None
    | l # _ \<Rightarrow> (case split_whitespace l of _ # s # _ \<Rightarrow> parse_uint 65535 s | _ \<Rightarrow> None))"

definition answer_body :: "string \<Rightarrow> string \<Rightarrow> http_error + string" where
  "answer_body head body =
     (let chunked = (case header head ''transfer-encoding'' of
            Some v \<Rightarrow> find_sub ''chunked'' (to_ascii_lowercase v) \<noteq> None | None \<Rightarrow> False)
      in if chunked then dechunk body
         else (case header head ''content-length'' of
             Some len \<Rightarrow> (case parse_uint U64_MAX len of
                 None \<Rightarrow> Err BadLength
               | Some len \<Rightarrow> if length body < len then Err CutShort else Ok (take len body))
           | None \<Rightarrow> Ok body))"

definition parse_response :: "string \<Rightarrow> http_error + nat \<times> string" where
  "parse_response raw =
     (if MAX_ANSWER \<le> length raw then Err TooLarge
      else (case find_sub (crlf @ crlf) raw of
          None \<Rightarrow> Err NoHeaders
        | Some split \<Rightarrow> (case status_of (take split raw) of
            None \<Rightarrow> Err NoStatus
          | Some status \<Rightarrow> bind_result (answer_body (take split raw) (drop (split + 4) raw)) (\<lambda>body.
              if from_utf8 body then Ok (status, body) else Err NotText))))"

section \<open>Chunked answers\<close>

lemma hex_val_digit: "d < 16 \<Longrightarrow> hex_val (digit_char d) = d" "d < 16 \<Longrightarrow> is_ascii_hexdigit (digit_char d)"
  by (auto simp: hex_val_def digit_char_def is_ascii_hexdigit_def is_ascii_digit_def is_ascii_lowercase_def)

lemma show_radix_16: "b = 16 \<Longrightarrow> list_all is_ascii_hexdigit (show_radix b n) \<and> hex_number (show_radix b n) = n"
proof (induction b n rule: show_radix.induct)
  case (1 b n)
  show ?case
  proof (cases "n < 16")
    case True
    with 1(2) show ?thesis by (simp add: show_radix.simps [of 16 n] hex_val_digit hex_number_def)
  next
    case False
    then have "list_all is_ascii_hexdigit (show_radix 16 (n div 16)) \<and> hex_number (show_radix 16 (n div 16)) = n div 16"
      using 1 by simp
    with False 1(2) show ?thesis
      by (simp add: show_radix.simps [of 16 n] hex_val_digit hex_number_def)
  qed
qed

lemmas show_hex_digits = show_radix_16 [OF refl, folded show_hex_def]

definition chunk_text :: "string list \<Rightarrow> string" where
  "chunk_text cs = concat (map (\<lambda>c. show_hex (length c) @ crlf @ c @ crlf) cs) @ ''0'' @ crlf"

lemma hexdigits_free:
  assumes "list_all is_ascii_hexdigit s"
  shows "cr \<notin> set s" "lf \<notin> set s" "CHR '';'' \<notin> set s" "CHR ''+'' \<notin> set s" "list_all is_graphic s"
proof -
  have "\<not> is_ascii_hexdigit c" if "c \<in> {cr, lf, CHR '';'', CHR ''+''}" for c
    using that by (auto simp: is_ascii_hexdigit_def is_ascii_digit_def)
  then show "cr \<notin> set s" "lf \<notin> set s" "CHR '';'' \<notin> set s" "CHR ''+'' \<notin> set s"
    using assms by (auto simp: list_all_iff)
  show "list_all is_graphic s"
    using assms by (auto simp: list_all_iff is_ascii_hexdigit_def is_ascii_digit_def is_graphic_def)
qed

lemma find_crlf: "cr \<notin> set s \<Longrightarrow> find_sub crlf (s @ crlf @ t) = Some (length s)"
  by (induction s) auto

lemma find_crlf_none: "cr \<notin> set s \<Longrightarrow> find_sub crlf s = None" "cr \<notin> set s \<Longrightarrow> find_sub crlf (s @ [cr]) = None"
  by (induction s) auto

lemma chunk_size_hex: "n \<le> U64_MAX \<Longrightarrow> chunk_size (show_hex n) = Some n"
proof -
  assume n: "n \<le> U64_MAX"
  have h: "list_all is_ascii_hexdigit (show_hex n)" "hex_number (show_hex n) = n" using show_hex_digits by auto
  have "trim (show_hex n) = show_hex n" using hexdigits_free(5) [OF h(1)] by (rule trim_graphic)
  moreover have "show_hex n \<noteq> []" by (simp add: show_hex_def)
  ultimately show ?thesis
    using n h hexdigits_free(3,4) [OF h(1)]
    by (cases "show_hex n") (auto simp: chunk_size_def split_on_free from_hex_usize_def)
qed

lemma dechunk_chunk:
  assumes "c \<noteq> []" "length c \<le> U64_MAX"
  shows "dechunk_from out (show_hex (length c) @ crlf @ c @ crlf @ rest) = dechunk_from (out @ c) rest"
proof -
  have "cr \<notin> set (show_hex (length c))" using show_hex_digits hexdigits_free(1) by blast
  from find_crlf [OF this] show ?thesis
    using assms by (subst dechunk_from.simps) (simp add: chunk_size_hex strip_prefix_def)
qed

lemma dechunk_end: "dechunk_from out (''0'' @ crlf @ rest) = Ok out"
proof -
  have "show_hex 0 = ''0''" by (simp add: show_hex_def show_radix.simps digit_char_def) code_simp
  then have "chunk_size ''0'' = Some 0" using chunk_size_hex [of 0] by simp
  then show ?thesis by (subst dechunk_from.simps) simp
qed

lemma dechunk_chunks:
  assumes "\<forall>c\<in>set cs. c \<noteq> [] \<and> length c \<le> U64_MAX"
  shows "dechunk_from out (chunk_text cs @ rest) = Ok (out @ concat cs)"
  using assms
proof (induction cs arbitrary: out)
  case Nil
  show ?case using dechunk_end [of out rest] by (simp add: chunk_text_def)
next
  case (Cons c cs)
  from Cons.IH [of "out @ c"] Cons.prems show ?case
    using dechunk_chunk [of c out "chunk_text cs @ rest"] by (simp add: chunk_text_def)
qed

lemma take_past: "length p \<le> k \<Longrightarrow> take k (p @ t) = p @ take (k - length p) t"
  by simp

lemma take_size_line:
  assumes "cr \<notin> set h" "k < length h + 2"
  shows "find_sub crlf (take k (h @ crlf @ t)) = None"
proof (cases "k \<le> length h")
  case True
  with assms(1) show ?thesis by (auto intro!: find_crlf_none(1) dest: in_set_takeD)
next
  case False
  with assms(2) have "k = Suc (length h)" by simp
  with find_crlf_none(2) [OF assms(1)] show ?thesis by simp
qed

lemma dechunk_cut_chunk:
  assumes "c \<noteq> []" "length c \<le> U64_MAX" "k < length (show_hex (length c)) + 2 + length c + 2"
  shows "dechunk_from out (take k (show_hex (length c) @ crlf @ c @ crlf @ rest)) = Err MidChunk"
proof -
  let ?h = "show_hex (length c)"
  have h: "cr \<notin> set ?h" using show_hex_digits hexdigits_free(1) by blast
  show ?thesis
  proof (cases "k < length ?h + 2")
    case True
    from take_size_line [OF h this] show ?thesis by (subst dechunk_from.simps) simp
  next
    case False
    define after where "after = take (k - (length ?h + 2)) (c @ crlf @ rest)"
    have eq: "take k (?h @ crlf @ c @ crlf @ rest) = ?h @ crlf @ after"
      using False take_past [of "?h @ crlf" k "c @ crlf @ rest"] by (simp add: after_def del: take_append)
    have "length after < length c + 2" using assms(3) False by (simp add: after_def)
    then have "length after < length c \<or> length after - length c < 2" by linarith
    then show ?thesis
      unfolding eq using assms(1,2) find_crlf [OF h, of after]
      by (subst dechunk_from.simps) (simp add: chunk_size_hex)
  qed
qed

lemma dechunk_cut:
  assumes "\<forall>c\<in>set cs. c \<noteq> [] \<and> length c \<le> U64_MAX" "k < length (chunk_text cs)"
  shows "dechunk_from out (take k (chunk_text cs)) = Err MidChunk"
  using assms
proof (induction cs arbitrary: out k)
  case Nil
  have "find_sub crlf (take k (''0'' @ crlf @ [])) = None"
    using Nil.prems by (intro take_size_line) (simp_all add: chunk_text_def)
  then show ?case by (subst dechunk_from.simps) (simp add: chunk_text_def)
next
  case (Cons c cs)
  let ?n = "length (show_hex (length c)) + 2 + length c + 2"
  have eq: "chunk_text (c # cs) = show_hex (length c) @ crlf @ c @ crlf @ chunk_text cs"
    by (simp add: chunk_text_def)
  show ?case
  proof (cases "k < ?n")
    case True
    with Cons.prems show ?thesis unfolding eq by (intro dechunk_cut_chunk) auto
  next
    case False
    then have "take k (chunk_text (c # cs)) = show_hex (length c) @ crlf @ c @ crlf @ take (k - ?n) (chunk_text cs)"
      using take_past [of "show_hex (length c) @ crlf @ c @ crlf" k "chunk_text cs"] by (simp add: eq del: take_append)
    moreover have "k - ?n < length (chunk_text cs)" using Cons.prems(2) False by (simp add: eq)
    ultimately show ?thesis
      using Cons dechunk_chunk [of c out "take (k - ?n) (chunk_text cs)"] by simp
  qed
qed

text \<open>
  A chunked answer is read back whole, and an answer cut short never passes
  for a shorter one: the chunks of any body, however it is cut into them, join to that
  body whatever follows them, and every proper prefix of the chunked text is refused.
\<close>

theorem dechunk_whole_or_error:
  assumes "\<forall>c\<in>set cs. c \<noteq> [] \<and> length c \<le> U64_MAX"
  shows "dechunk (chunk_text cs @ rest) = Ok (concat cs)
    \<and> (\<forall>k<length (chunk_text cs). dechunk (take k (chunk_text cs)) = Err MidChunk)"
  using assms by (simp add: dechunk_def dechunk_chunks dechunk_cut)

theorem dechunk_whole_or_error_witness:
  "dechunk (chunk_text [''pass'', ''es''] @ crlf) = Ok ''passes''
    \<and> dechunk (take 5 (chunk_text [''pass'', ''es''])) = Err MidChunk"
  using dechunk_whole_or_error [of "[''pass'', ''es'']" crlf]
  by (simp add: U64_MAX_def) (simp add: chunk_text_def)

end
