(* ===== verification/Keys.thy ===== *)
theory Keys
  imports Http Nonce_Search
begin

text \<open>
  The WireGuard keys of a client (\<^verbatim>\<open>hidravpn-core/src/keys.rs\<close>). A \<^verbatim>\<open>ClientKey\<close> is the 32
  bytes of its secret. The base64 crate, X25519 and HKDF are parameters, the fields of
  a \<open>key_env\<close>; \<open>b64_ok\<close> states what the code relies on of base64's standard engine,
  which accepts the canonical encoding of a byte string and nothing else.
\<close>

record key_env =
  b64_encode :: "bytes \<Rightarrow> string"
  b64_decode :: "string \<Rightarrow> bytes option"
  x25519_public :: "bytes \<Rightarrow> bytes"
  hkdf_sha256 :: "bytes \<Rightarrow> bytes \<Rightarrow> bytes \<Rightarrow> bytes"

definition b64_ok :: "'a key_env_scheme \<Rightarrow> bool" where
  "b64_ok env \<longleftrightarrow> (\<forall>b. b64_decode env (b64_encode env b) = Some b \<and> list_all is_graphic (b64_encode env b))
     \<and> (\<forall>s b. b64_decode env s = Some b \<longrightarrow> s = b64_encode env b)"

datatype key_error = NoRandomness | KeyNotBase64 | KeyNotThirtyTwo

definition PER_NODE_SALT :: bytes where
  "PER_NODE_SALT = ascii_bytes ''HidraVPN per-node key v1''"

definition BEHIND_SALT :: bytes where
  "BEHIND_SALT = ascii_bytes ''HidraVPN key behind an entry v1''"

definition decode32 :: "'a key_env_scheme \<Rightarrow> string \<Rightarrow> key_error + bytes" where
  "decode32 env s = (case b64_decode env s of
      None \<Rightarrow> Err KeyNotBase64
    | Some v \<Rightarrow> if length v = 32 then Ok v else Err KeyNotThirtyTwo)"

definition public_key_from_base64 :: "'a key_env_scheme \<Rightarrow> string \<Rightarrow> key_error + bytes" where
  "public_key_from_base64 env s = decode32 env (trim s)"

definition generate_key :: "bytes option \<Rightarrow> key_error + bytes" where
  "generate_key rng = (case rng of Some b \<Rightarrow> Ok b | None \<Rightarrow> Err NoRandomness)"

definition key_from_base64 :: "'a key_env_scheme \<Rightarrow> string \<Rightarrow> key_error + bytes" where
  "key_from_base64 env s = decode32 env (trim s)"

definition secret_base64 :: "'a key_env_scheme \<Rightarrow> bytes \<Rightarrow> string" where
  "secret_base64 env k = b64_encode env k"

definition public_of :: "'a key_env_scheme \<Rightarrow> bytes \<Rightarrow> bytes" where
  "public_of env k = x25519_public env k"

definition public_base64 :: "'a key_env_scheme \<Rightarrow> bytes \<Rightarrow> string" where
  "public_base64 env k = b64_encode env (public_of env k)"

definition derive :: "'a key_env_scheme \<Rightarrow> bytes \<Rightarrow> bytes \<Rightarrow> bytes \<Rightarrow> bytes" where
  "derive env k salt node_public = hkdf_sha256 env salt k node_public"

definition key_for_node :: "'a key_env_scheme \<Rightarrow> bytes \<Rightarrow> bytes \<Rightarrow> bytes" where
  "key_for_node env k node_public = derive env k PER_NODE_SALT node_public"

definition for_node_behind :: "'a key_env_scheme \<Rightarrow> bytes \<Rightarrow> bytes \<Rightarrow> bytes" where
  "for_node_behind env k node_public = derive env k BEHIND_SALT node_public"

definition for_node_base64 :: "'a key_env_scheme \<Rightarrow> bytes \<Rightarrow> string \<Rightarrow> key_error + bytes" where
  "for_node_base64 env k node_public =
     bind_result (public_key_from_base64 env node_public) (\<lambda>p. Ok (key_for_node env k p))"

definition for_node_behind_base64 :: "'a key_env_scheme \<Rightarrow> bytes \<Rightarrow> string \<Rightarrow> key_error + bytes" where
  "for_node_behind_base64 env k node_public =
     bind_result (public_key_from_base64 env node_public) (\<lambda>p. Ok (for_node_behind env k p))"

section \<open>Reading back what was written\<close>

lemma b64_okD:
  assumes "b64_ok env"
  shows "b64_decode env (b64_encode env b) = Some b" "list_all is_graphic (b64_encode env b)"
    "b64_decode env s = Some b \<Longrightarrow> s = b64_encode env b" "trim (b64_encode env b) = b64_encode env b"
  using assms by (auto simp: b64_ok_def intro: trim_graphic)

lemma b64_decode_inject:
  "b64_ok env \<Longrightarrow> b64_decode env s = Some b \<Longrightarrow> b64_decode env t = Some b \<Longrightarrow> s = t"
  using b64_okD(3) by metis

lemma decode32_Ok [simp]: "decode32 env s = Ok b \<longleftrightarrow> b64_decode env s = Some b \<and> length b = 32"
  by (auto simp: decode32_def split: option.splits if_splits)

lemma key_roundtrip:
  "b64_ok env \<Longrightarrow> length k = 32 \<Longrightarrow> key_from_base64 env (secret_base64 env k) = Ok k"
  "b64_ok env \<Longrightarrow> length k = 32 \<Longrightarrow> public_key_from_base64 env (b64_encode env k) = Ok k"
  by (simp_all add: key_from_base64_def secret_base64_def public_key_from_base64_def b64_okD)

end
