(* ===== verification/Pass.thy ===== *)
theory Pass
  imports Keys
begin

text \<open>
  Passes (\<^verbatim>\<open>hidravpn-core/src/pass.rs\<close>): the issuer's keys, the message a pass signs,
  the client's side (\<open>prepare\<close>, \<open>finalize_pass\<close>), the node's side (\<open>verify_redemption\<close>,
  \<open>spent_tag\<close>), fetching passes from an issuer and the wallet. RSA blind signatures,
  SHA-256 and the hex crate are parameters, the further fields of a \<open>pass_env\<close>;
  \<open>hex_ok\<close> and \<open>blind_rsa_ok\<close> state what is documented of them. Randomness, the
  clock and the issuer's answers are arguments; the wording of errors is not
  modelled.
\<close>

record blinding =
  blind_message :: bytes
  blind_secret :: bytes
  msg_randomizer :: "bytes option"

record pass_env = key_env +
  hex_encode :: "bytes \<Rightarrow> string"
  hex_decode :: "string \<Rightarrow> bytes option"
  sha256 :: "bytes \<Rightarrow> bytes"
  rsa_from_spki :: "bytes \<Rightarrow> bytes option"
  rsa_to_spki :: "bytes \<Rightarrow> bytes option"
  rsa_modulus :: "bytes \<Rightarrow> bytes"
  rsa_generate :: "bytes \<Rightarrow> (bytes \<times> bytes) option"
  rsa_from_der :: "bytes \<Rightarrow> bytes option"
  rsa_to_der :: "bytes \<Rightarrow> bytes option"
  rsa_public :: "bytes \<Rightarrow> bytes option"
  rsa_blind :: "bytes \<Rightarrow> bytes \<Rightarrow> bytes \<Rightarrow> blinding option"
  rsa_blind_sign :: "bytes \<Rightarrow> bytes \<Rightarrow> bytes option"
  rsa_finalize :: "bytes \<Rightarrow> bytes \<Rightarrow> blinding \<Rightarrow> bytes \<Rightarrow> bytes option"
  rsa_verify :: "bytes \<Rightarrow> bytes \<Rightarrow> bytes option \<Rightarrow> bytes \<Rightarrow> bool"

definition PASS_DOMAIN :: bytes where
  "PASS_DOMAIN = ascii_bytes ''HidraVPN pass v1'' @ [0]"

definition MAX_PER_REQUEST :: nat where
  "MAX_PER_REQUEST = 16"

definition KEY_BITS :: nat where
  "KEY_BITS = 2048"

definition KEY_ID_DOMAIN :: bytes where
  "KEY_ID_DOMAIN = ascii_bytes ''HidraVPN pass key id v1'' @ [0]"

definition SPENT_DOMAIN :: bytes where
  "SPENT_DOMAIN = ascii_bytes ''HidraVPN spent pass v1'' @ [0]"

datatype pass_error = NotBase64 | NotRsaKey | WrongKeySize nat | NoKeyMade | NotEncodable | NotSecretKey
  | NoPublicHalf | WrongBlindedLength | CouldNotSign | IdNotOfKey | BadNotAfter | NotHex | WrongLength nat
  | KeyError key_error | CouldNotBlind | OtherIssuerKey | DoesNotVerify | NoRandomizer
  | UnknownIssuerKey | IssuerKeyExpired | OtherNode | WrongSignatureLength
  | BadIssuerUrl http_error | VpnWentDown | CallFailed http_error | IssuerRefused nat string | Unreadable
  | WrongCount nat nat

section \<open>Issuer keys\<close>

record issuer_key =
  ik_pk :: bytes
  ik_spki :: bytes
  ik_id :: bytes

definition key_id :: "'a pass_env_scheme \<Rightarrow> bytes \<Rightarrow> bytes" where
  "key_id env spki = take 8 (sha256 env (KEY_ID_DOMAIN @ spki))"

definition from_spki_base64 :: "'a pass_env_scheme \<Rightarrow> string \<Rightarrow> pass_error + issuer_key" where
  "from_spki_base64 env s = (case b64_decode env (trim s) of
      None \<Rightarrow> Err NotBase64
    | Some spki \<Rightarrow> (case rsa_from_spki env spki of
        None \<Rightarrow> Err NotRsaKey
      | Some pk \<Rightarrow>
          (let n = length (dropWhile (\<lambda>b. b = 0) (rsa_modulus env pk))
           in if n \<noteq> KEY_BITS div 8 then Err (WrongKeySize (n * 8))
              else Ok \<lparr>ik_pk = pk, ik_spki = spki, ik_id = key_id env spki\<rparr>)))"

definition to_spki_base64 :: "'a pass_env_scheme \<Rightarrow> issuer_key \<Rightarrow> string" where
  "to_spki_base64 env k = b64_encode env (ik_spki k)"

definition id_hex :: "'a pass_env_scheme \<Rightarrow> issuer_key \<Rightarrow> string" where
  "id_hex env k = hex_encode env (ik_id k)"

definition modulus_bytes :: "issuer_key \<Rightarrow> nat" where
  "modulus_bytes k = KEY_BITS div 8"

record issuer_secret =
  is_sk :: bytes
  is_public :: issuer_key

definition public_from_pk :: "'a pass_env_scheme \<Rightarrow> bytes \<Rightarrow> pass_error + issuer_key" where
  "public_from_pk env pk = (case rsa_to_spki env pk of
      None \<Rightarrow> Err NotEncodable
    | Some spki \<Rightarrow> from_spki_base64 env (b64_encode env spki))"

definition generate_issuer :: "'a pass_env_scheme \<Rightarrow> bytes \<Rightarrow> pass_error + issuer_secret" where
  "generate_issuer env rng = (case rsa_generate env rng of
      None \<Rightarrow> Err NoKeyMade
    | Some (sk, pk) \<Rightarrow> bind_result (public_from_pk env pk) (\<lambda>p. Ok \<lparr>is_sk = sk, is_public = p\<rparr>))"

definition from_der_base64 :: "'a pass_env_scheme \<Rightarrow> string \<Rightarrow> pass_error + issuer_secret" where
  "from_der_base64 env s = (case b64_decode env (trim s) of
      None \<Rightarrow> Err NotBase64
    | Some der \<Rightarrow> (case rsa_from_der env der of
        None \<Rightarrow> Err NotSecretKey
      | Some sk \<Rightarrow> (case rsa_public env sk of
          None \<Rightarrow> Err NoPublicHalf
        | Some pk \<Rightarrow> bind_result (public_from_pk env pk) (\<lambda>p. Ok \<lparr>is_sk = sk, is_public = p\<rparr>))))"

definition to_der_base64 :: "'a pass_env_scheme \<Rightarrow> issuer_secret \<Rightarrow> pass_error + string" where
  "to_der_base64 env s = (case rsa_to_der env (is_sk s) of
      None \<Rightarrow> Err NotEncodable
    | Some der \<Rightarrow> Ok (b64_encode env der))"

definition sign_blinded :: "'a pass_env_scheme \<Rightarrow> issuer_secret \<Rightarrow> string \<Rightarrow> pass_error + string" where
  "sign_blinded env s blinded_b64 = (case b64_decode env (trim blinded_b64) of
      None \<Rightarrow> Err NotBase64
    | Some blinded \<Rightarrow>
        (if length blinded \<noteq> modulus_bytes (is_public s) then Err WrongBlindedLength
         else (case rsa_blind_sign env (is_sk s) blinded of
             None \<Rightarrow> Err CouldNotSign
           | Some sig \<Rightarrow> Ok (b64_encode env sig))))"

record pass_key_record =
  pkr_id :: string
  pkr_key :: string
  pkr_not_after :: string

definition record_issuer_key :: "'a pass_env_scheme \<Rightarrow> pass_key_record \<Rightarrow> pass_error + issuer_key" where
  "record_issuer_key env r = bind_result (from_spki_base64 env (pkr_key r)) (\<lambda>k.
     if id_hex env k \<noteq> trim (pkr_id r) then Err IdNotOfKey else Ok k)"

definition validate_key_record :: "'a pass_env_scheme \<Rightarrow> pass_key_record \<Rightarrow> pass_error + unit" where
  "validate_key_record env r = bind_result (record_issuer_key env r) (\<lambda>_.
     case rfc3339_to_unix (pkr_not_after r) of Err _ \<Rightarrow> Err BadNotAfter | Ok _ \<Rightarrow> Ok ())"

definition is_current :: "pass_key_record \<Rightarrow> int \<Rightarrow> bool" where
  "is_current r now = (case rfc3339_to_unix (pkr_not_after r) of Ok t \<Rightarrow> now \<le> t | Err _ \<Rightarrow> False)"

definition newest_current :: "'a pass_env_scheme \<Rightarrow> pass_key_record list \<Rightarrow> int \<Rightarrow> pass_key_record option" where
  "newest_current env keys now =
     max_by_key (\<lambda>k. case rfc3339_to_unix (pkr_not_after k) of Ok t \<Rightarrow> t | Err _ \<Rightarrow> 0)
       (filter (\<lambda>k. is_current k now \<and> is_ok (validate_key_record env k)) keys)"

section \<open>The message\<close>

definition pass_message :: "bytes \<Rightarrow> bytes \<Rightarrow> bytes \<Rightarrow> bytes \<Rightarrow> bytes" where
  "pass_message kid node client nonce = PASS_DOMAIN @ kid @ node @ client @ nonce"

definition decode_fixed :: "'a pass_env_scheme \<Rightarrow> nat \<Rightarrow> string \<Rightarrow> pass_error + bytes" where
  "decode_fixed env n s = (case b64_decode env (trim s) of
      None \<Rightarrow> Err NotBase64
    | Some b \<Rightarrow> if length b = n then Ok b else Err (WrongLength n))"

definition decode_id :: "'a pass_env_scheme \<Rightarrow> string \<Rightarrow> pass_error + bytes" where
  "decode_id env s = (case hex_decode env (trim s) of
      None \<Rightarrow> Err NotHex
    | Some b \<Rightarrow> if length b = 8 then Ok b else Err (WrongLength 8))"

definition lift_key :: "key_error + 'b \<Rightarrow> pass_error + 'b" where
  "lift_key r = (case r of Err e \<Rightarrow> Err (KeyError e) | Ok x \<Rightarrow> Ok x)"

section \<open>The client's side\<close>

record pending_pass =
  pp_result :: blinding
  pp_msg :: bytes
  pp_key_id :: bytes
  pp_node_public_key :: string
  pp_client :: bytes
  pp_nonce :: bytes

text \<open>What is drawn for one pass: the client key, the nonce and the blinding.\<close>

record draws =
  dr_key :: "bytes option"
  dr_nonce :: "bytes option"
  dr_blind :: bytes

definition prepare :: "'a pass_env_scheme \<Rightarrow> draws \<Rightarrow> issuer_key \<Rightarrow> string \<Rightarrow> pass_error + string \<times> pending_pass" where
  "prepare env dr issuer node_public_b64 =
     bind_result (lift_key (public_key_from_base64 env node_public_b64)) (\<lambda>node.
     bind_result (lift_key (generate_key (dr_key dr))) (\<lambda>client.
     case dr_nonce dr of
       None \<Rightarrow> Err (KeyError NoRandomness)
     | Some nonce \<Rightarrow>
         (let msg = pass_message (ik_id issuer) node (public_of env client) nonce
          in case rsa_blind env (dr_blind dr) (ik_pk issuer) msg of
               None \<Rightarrow> Err CouldNotBlind
             | Some result \<Rightarrow>
                 Ok (b64_encode env (blind_message result),
                     \<lparr>pp_result = result, pp_msg = msg, pp_key_id = ik_id issuer,
                      pp_node_public_key = trim node_public_b64, pp_client = client, pp_nonce = nonce\<rparr>))))"

record pass =
  ps_key_id :: string
  ps_node_public_key :: string
  ps_client_secret :: string
  ps_nonce :: string
  ps_randomizer :: string
  ps_signature :: string

definition finalize_pass :: "'a pass_env_scheme \<Rightarrow> pending_pass \<Rightarrow> issuer_key \<Rightarrow> string \<Rightarrow> pass_error + pass" where
  "finalize_pass env p issuer blind_sig_b64 =
     (if ik_id issuer \<noteq> pp_key_id p then Err OtherIssuerKey
      else (case b64_decode env (trim blind_sig_b64) of
          None \<Rightarrow> Err NotBase64
        | Some blind \<Rightarrow> (case rsa_finalize env (ik_pk issuer) blind (pp_result p) (pp_msg p) of
            None \<Rightarrow> Err DoesNotVerify
          | Some sig \<Rightarrow> (case msg_randomizer (pp_result p) of
              None \<Rightarrow> Err NoRandomizer
            | Some randomizer \<Rightarrow>
                Ok \<lparr>ps_key_id = hex_encode env (pp_key_id p), ps_node_public_key = pp_node_public_key p,
                    ps_client_secret = secret_base64 env (pp_client p), ps_nonce = b64_encode env (pp_nonce p),
                    ps_randomizer = b64_encode env randomizer, ps_signature = b64_encode env sig\<rparr>))))"

record redemption =
  rd_key_id :: string
  rd_node_public_key :: string
  rd_client_public_key :: string
  rd_nonce :: string
  rd_randomizer :: string
  rd_signature :: string

definition client_key :: "'a pass_env_scheme \<Rightarrow> pass \<Rightarrow> pass_error + bytes" where
  "client_key env p = lift_key (key_from_base64 env (ps_client_secret p))"

definition redemption_of :: "'a pass_env_scheme \<Rightarrow> pass \<Rightarrow> pass_error + redemption" where
  "redemption_of env p = bind_result (client_key env p) (\<lambda>k.
     Ok \<lparr>rd_key_id = ps_key_id p, rd_node_public_key = ps_node_public_key p,
         rd_client_public_key = public_base64 env k, rd_nonce = ps_nonce p,
         rd_randomizer = ps_randomizer p, rd_signature = ps_signature p\<rparr>)"

section \<open>The node's side\<close>

definition trusted_record :: "pass_key_record list \<Rightarrow> string \<Rightarrow> pass_key_record option" where
  "trusted_record trusted kid = find (\<lambda>k. eq_ignore_ascii_case (trim (pkr_id k)) (trim kid)) trusted"

definition verify_redemption ::
  "'a pass_env_scheme \<Rightarrow> redemption \<Rightarrow> pass_key_record list \<Rightarrow> string \<Rightarrow> int \<Rightarrow> pass_error + unit" where
  "verify_redemption env r trusted this_node now =
     bind_result (decode_id env (rd_key_id r)) (\<lambda>kid.
     case trusted_record trusted (rd_key_id r) of
       None \<Rightarrow> Err UnknownIssuerKey
     | Some rec \<Rightarrow>
         if \<not> is_current rec now then Err IssuerKeyExpired
         else bind_result (record_issuer_key env rec) (\<lambda>issuer.
           if trim (rd_node_public_key r) \<noteq> trim this_node then Err OtherNode
           else
             bind_result (lift_key (public_key_from_base64 env (rd_node_public_key r))) (\<lambda>node.
             bind_result (lift_key (public_key_from_base64 env (rd_client_public_key r))) (\<lambda>client.
             bind_result (decode_fixed env 32 (rd_nonce r)) (\<lambda>nonce.
             bind_result (decode_fixed env 32 (rd_randomizer r)) (\<lambda>randomizer.
             case b64_decode env (trim (rd_signature r)) of
               None \<Rightarrow> Err NotBase64
             | Some sig \<Rightarrow>
                 if length sig \<noteq> modulus_bytes issuer then Err WrongSignatureLength
                 else if rsa_verify env (ik_pk issuer) sig (Some randomizer) (pass_message kid node client nonce)
                      then Ok () else Err DoesNotVerify))))))"

definition spent_tag :: "'a pass_env_scheme \<Rightarrow> redemption \<Rightarrow> string" where
  "spent_tag env r = hex_encode env (sha256 env
     (SPENT_DOMAIN @ ascii_bytes (to_ascii_lowercase (trim (rd_key_id r))) @ ascii_bytes (trim (rd_nonce r))))"

section \<open>The issuer's wire\<close>

record issue_request =
  rq_token :: string
  rq_key_id :: string
  rq_blinded :: "string list"

record issue_response =
  rs_signatures :: "string list"
  rs_remaining_today :: nat
  rs_prepaid :: bool

record fetched =
  f_passes :: "pass list"
  f_remaining_today :: nat
  f_prepaid :: bool
  f_stopped :: "pass_error option"

fun prepare_all :: "'a pass_env_scheme \<Rightarrow> issuer_key \<Rightarrow> (string \<times> draws) list \<Rightarrow> pass_error + (string \<times> pending_pass) list" where
  "prepare_all env issuer [] = Ok []"
| "prepare_all env issuer ((n, dr) # chunk) =
     bind_result (prepare env dr issuer n) (\<lambda>bp.
     bind_result (prepare_all env issuer chunk) (\<lambda>bps. Ok (bp # bps)))"

text \<open>The passes are appended as each one verifies, so those before a failure are kept.\<close>

fun finalize_all :: "'a pass_env_scheme \<Rightarrow> issuer_key \<Rightarrow> (pending_pass \<times> string) list \<Rightarrow> pass list \<Rightarrow> pass list \<times> (pass_error + unit)" where
  "finalize_all env issuer [] out = (out, Ok ())"
| "finalize_all env issuer ((p, sig) # rest) out = (case finalize_pass env p issuer sig of
      Err e \<Rightarrow> (out, Err e)
    | Ok ps \<Rightarrow> finalize_all env issuer rest (out @ [ps]))"

text \<open>
  \<open>call\<close> is the exchange with the issuer: the status and the body it answers a request
  with. \<open>json\<close> reads a body as an answer.
\<close>

definition fetch_one ::
  "'a pass_env_scheme \<Rightarrow> (string \<Rightarrow> issue_response option) \<Rightarrow> (issue_request \<Rightarrow> http_error + nat \<times> string) \<Rightarrow>
   issuer_key \<Rightarrow> string \<Rightarrow> (string \<times> draws) list \<Rightarrow> pass list \<Rightarrow> pass list \<times> (pass_error + nat \<times> bool)" where
  "fetch_one env json call issuer token chunk out = (case prepare_all env issuer chunk of
      Err e \<Rightarrow> (out, Err e)
    | Ok bps \<Rightarrow>
        (case call \<lparr>rq_token = trim token, rq_key_id = id_hex env issuer, rq_blinded = map fst bps\<rparr> of
           Err e \<Rightarrow> (out, Err (CallFailed e))
         | Ok (status, answer) \<Rightarrow>
             if status \<noteq> 200 then (out, Err (IssuerRefused status answer))
             else (case json answer of
                 None \<Rightarrow> (out, Err Unreadable)
               | Some resp \<Rightarrow>
                   if length (rs_signatures resp) \<noteq> length bps
                   then (out, Err (WrongCount (length (rs_signatures resp)) (length bps)))
                   else (case finalize_all env issuer (zip (map snd bps) (rs_signatures resp)) out of
                       (out, Err e) \<Rightarrow> (out, Err e)
                     | (out, Ok _) \<Rightarrow> (out, Ok (rs_remaining_today resp, rs_prepaid resp))))))"

fun fetch_loop ::
  "'a pass_env_scheme \<Rightarrow> (string \<Rightarrow> issue_response option) \<Rightarrow> (nat \<Rightarrow> bool) \<Rightarrow>
   (nat \<Rightarrow> issue_request \<Rightarrow> http_error + nat \<times> string) \<Rightarrow> issuer_key \<Rightarrow> string \<Rightarrow>
   nat \<Rightarrow> (string \<times> draws) list list \<Rightarrow> fetched \<Rightarrow> pass_error + fetched" where
  "fetch_loop env json go_on call issuer token i [] got = Ok got"
| "fetch_loop env json go_on call issuer token i (chunk # cs) got =
     (if \<not> go_on i then
        (if f_passes got = [] then Err VpnWentDown else Ok (got\<lparr>f_stopped := Some VpnWentDown\<rparr>))
      else (case fetch_one env json (call i) issuer token chunk (f_passes got) of
          (out, Ok (left, prepaid)) \<Rightarrow>
            fetch_loop env json go_on call issuer token (Suc i) cs
              (got\<lparr>f_passes := out, f_remaining_today := left, f_prepaid := prepaid\<rparr>)
        | (out, Err e) \<Rightarrow>
            (if out = [] then Err e else Ok (got\<lparr>f_passes := out, f_stopped := Some e\<rparr>))))"

definition fetch ::
  "'a pass_env_scheme \<Rightarrow> (string \<Rightarrow> issue_response option) \<Rightarrow> string option \<Rightarrow> (nat \<Rightarrow> bool) \<Rightarrow>
   (url \<Rightarrow> nat \<Rightarrow> issue_request \<Rightarrow> http_error + nat \<times> string) \<Rightarrow> string \<Rightarrow> string \<Rightarrow> pass_key_record \<Rightarrow>
   (string \<times> draws) list \<Rightarrow> pass_error + fetched" where
  "fetch env json plain_issuer go_on call issuer_url token key nodes =
     bind_result (record_issuer_key env key) (\<lambda>issuer.
     case url_parse issuer_url of
       Err e \<Rightarrow> Err (BadIssuerUrl e)
     | Ok u \<Rightarrow>
         (let u = with_path u ''/issue''
          in case check_for_token plain_issuer u of
               Err e \<Rightarrow> Err (BadIssuerUrl e)
             | Ok _ \<Rightarrow>
                 fetch_loop env json go_on (call u) issuer token 0 (chunks MAX_PER_REQUEST nodes)
                   \<lparr>f_passes = [], f_remaining_today = 0, f_prepaid = False, f_stopped = None\<rparr>))"

section \<open>The wallet\<close>

type_synonym wallet = "pass list"

definition count_for :: "wallet \<Rightarrow> string \<Rightarrow> nat" where
  "count_for w node_public = length (filter (\<lambda>p. trim (ps_node_public_key p) = trim node_public) w)"

definition take_for :: "wallet \<Rightarrow> string \<Rightarrow> wallet \<times> pass option" where
  "take_for w node_public = (case position (\<lambda>p. trim (ps_node_public_key p) = trim node_public) w of
      None \<Rightarrow> (w, None)
    | Some i \<Rightarrow> (remove_at i w, Some (w ! i)))"

definition drop_expired :: "wallet \<Rightarrow> pass_key_record list \<Rightarrow> int \<Rightarrow> wallet \<times> nat" where
  "drop_expired w keys now =
     (let w' = filter (\<lambda>p. list_ex (\<lambda>k. eq_ignore_ascii_case (trim (pkr_id k)) (trim (ps_key_id p)) \<and> is_current k now) keys) w
      in (w', length w - length w'))"

section \<open>From the issuer to the node\<close>

definition hex_ok :: "'a pass_env_scheme \<Rightarrow> bool" where
  "hex_ok env \<longleftrightarrow> (\<forall>b. hex_decode env (hex_encode env b) = Some b \<and> list_all is_ascii_hexdigit (hex_encode env b)
       \<and> length (hex_encode env b) = 2 * length b)
     \<and> (\<forall>s b. hex_decode env s = Some b \<longrightarrow> to_ascii_lowercase s = hex_encode env b)"

text \<open>
  Correctness of RSA blind signatures: what is blinded under a public key, signed with
  its secret key and unblinded verifies with the message's randomizer, and all values
  have the size of the modulus.
\<close>

definition blind_rsa_ok :: "'a pass_env_scheme \<Rightarrow> bytes \<Rightarrow> bytes \<Rightarrow> bool" where
  "blind_rsa_ok env sk pk \<longleftrightarrow> (\<forall>rng msg b. rsa_blind env rng pk msg = Some b \<longrightarrow>
     length (blind_message b) = KEY_BITS div 8 \<and>
     (\<exists>r bs sig. msg_randomizer b = Some r \<and> length r = 32 \<and> rsa_blind_sign env sk (blind_message b) = Some bs
        \<and> rsa_finalize env pk bs b msg = Some sig \<and> length sig = KEY_BITS div 8 \<and> rsa_verify env pk sig (Some r) msg))"

lemma hex_okD:
  assumes "hex_ok env"
  shows "hex_decode env (hex_encode env b) = Some b" "trim (hex_encode env b) = hex_encode env b"
    "hex_decode env s = Some b \<Longrightarrow> to_ascii_lowercase s = hex_encode env b"
  using assms by (auto simp: hex_ok_def intro: trim_graphic hexdigits_free(5))

lemma lift_key_Ok [simp]: "lift_key r = Ok x \<longleftrightarrow> r = Ok x"
  by (auto simp: lift_key_def split: sum.splits)

lemma lift_key_of_Ok [simp]: "lift_key (Ok x) = Ok x"
  by (simp add: lift_key_def)

lemma prepare_Ok:
  assumes "prepare env dr issuer node = Ok (b, p)"
  obtains n client nonce res where "public_key_from_base64 env node = Ok n" "dr_key dr = Some client"
    "dr_nonce dr = Some nonce" "rsa_blind env (dr_blind dr) (ik_pk issuer) (pass_message (ik_id issuer) n (public_of env client) nonce) = Some res"
    "b = b64_encode env (blind_message res)"
    "p = \<lparr>pp_result = res, pp_msg = pass_message (ik_id issuer) n (public_of env client) nonce, pp_key_id = ik_id issuer,
          pp_node_public_key = trim node, pp_client = client, pp_nonce = nonce\<rparr>"
  using assms that by (auto simp: prepare_def generate_key_def Let_def split: option.splits)

lemma signed_pass:
  assumes "prepare env dr (is_public s) node = Ok (b, p)" "b64_ok env" "blind_rsa_ok env (is_sk s) (ik_pk (is_public s))"
  obtains n client nonce r sig bs where "public_key_from_base64 env node = Ok n" "dr_key dr = Some client"
    "dr_nonce dr = Some nonce" "sign_blinded env s b = Ok bs"
    "finalize_pass env p (is_public s) bs = Ok \<lparr>ps_key_id = id_hex env (is_public s), ps_node_public_key = trim node,
       ps_client_secret = secret_base64 env client, ps_nonce = b64_encode env nonce,
       ps_randomizer = b64_encode env r, ps_signature = b64_encode env sig\<rparr>"
    "length r = 32" "length sig = KEY_BITS div 8"
    "rsa_verify env (ik_pk (is_public s)) sig (Some r) (pass_message (ik_id (is_public s)) n (public_of env client) nonce)"
proof -
  obtain n client nonce res where p: "public_key_from_base64 env node = Ok n" "dr_key dr = Some client"
    "dr_nonce dr = Some nonce" and bl: "rsa_blind env (dr_blind dr) (ik_pk (is_public s)) (pass_message (ik_id (is_public s)) n (public_of env client) nonce) = Some res"
    and b: "b = b64_encode env (blind_message res)" and pp: "p = \<lparr>pp_result = res, pp_msg = pass_message (ik_id (is_public s)) n (public_of env client) nonce, pp_key_id = ik_id (is_public s),
          pp_node_public_key = trim node, pp_client = client, pp_nonce = nonce\<rparr>"
    using assms(1) by (rule prepare_Ok)
  from assms(3) bl obtain r bs sig where *: "length (blind_message res) = KEY_BITS div 8" "msg_randomizer res = Some r" "length r = 32"
    "rsa_blind_sign env (is_sk s) (blind_message res) = Some bs"
    "rsa_finalize env (ik_pk (is_public s)) bs res (pass_message (ik_id (is_public s)) n (public_of env client) nonce) = Some sig"
    "length sig = KEY_BITS div 8" "rsa_verify env (ik_pk (is_public s)) sig (Some r) (pass_message (ik_id (is_public s)) n (public_of env client) nonce)"
    unfolding blind_rsa_ok_def by blast
  show ?thesis
    by (rule that [OF p _ _ *(3,6,7), of "b64_encode env bs"])
      (use * in \<open>simp_all add: sign_blinded_def finalize_pass_def b pp modulus_bytes_def id_hex_def b64_okD [OF assms(2)]\<close>)
qed

text \<open>The message a redemption says was signed, from its fields.\<close>

definition redeemed_fields :: "'a pass_env_scheme \<Rightarrow> redemption \<Rightarrow> (bytes \<times> bytes \<times> bytes \<times> bytes) option" where
  "redeemed_fields env r =
     (case (decode_id env (rd_key_id r), public_key_from_base64 env (rd_node_public_key r),
            public_key_from_base64 env (rd_client_public_key r), decode_fixed env 32 (rd_nonce r)) of
        (Ok kid, Ok node, Ok client, Ok nonce) \<Rightarrow> Some (kid, node, client, nonce)
      | _ \<Rightarrow> None)"

lemma decode_fixed_Ok [simp]: "decode_fixed env n s = Ok b \<longleftrightarrow> b64_decode env (trim s) = Some b \<and> length b = n"
  by (auto simp: decode_fixed_def split: option.splits if_splits)

lemma decode_id_Ok [simp]: "decode_id env s = Ok b \<longleftrightarrow> hex_decode env (trim s) = Some b \<and> length b = 8"
  by (auto simp: decode_id_def split: option.splits if_splits)

lemma redeemed_fields_iff:
  "redeemed_fields env r = Some (kid, n, c, nonce) \<longleftrightarrow>
     decode_id env (rd_key_id r) = Ok kid \<and> public_key_from_base64 env (rd_node_public_key r) = Ok n
     \<and> public_key_from_base64 env (rd_client_public_key r) = Ok c \<and> decode_fixed env 32 (rd_nonce r) = Ok nonce"
  by (auto simp: redeemed_fields_def simp del: decode_id_Ok decode_fixed_Ok split: sum.splits)

lemma case_option_Ok:
  "(case x of None \<Rightarrow> Err e | Some y \<Rightarrow> f y) = Ok z \<longleftrightarrow> (\<exists>y. x = Some y \<and> f y = Ok z)"
  by (cases x) simp_all

lemma case_sum_Ok:
  "(case x of Inl e \<Rightarrow> Err (g e) | Inr y \<Rightarrow> f y) = Ok z \<longleftrightarrow> (\<exists>y. x = Ok y \<and> f y = Ok z)"
  by (cases x) simp_all

lemma if_Ok:
  "(if b then Err e else r) = Ok z \<longleftrightarrow> \<not> b \<and> r = Ok z"
  "(if b then Ok u else Err e) = Ok z \<longleftrightarrow> b \<and> u = z"
  by auto

lemma verify_redemption_Ok:
  "verify_redemption env r trusted node now = Ok () \<longleftrightarrow>
     (\<exists>rec issuer kid n c nonce randomizer sig.
        trusted_record trusted (rd_key_id r) = Some rec \<and> is_current rec now \<and> record_issuer_key env rec = Ok issuer
        \<and> trim (rd_node_public_key r) = trim node \<and> redeemed_fields env r = Some (kid, n, c, nonce)
        \<and> decode_fixed env 32 (rd_randomizer r) = Ok randomizer \<and> b64_decode env (trim (rd_signature r)) = Some sig
        \<and> length sig = KEY_BITS div 8 \<and> rsa_verify env (ik_pk issuer) sig (Some randomizer) (pass_message kid n c nonce))"
  unfolding verify_redemption_def bind_result_eq_Ok case_option_Ok if_Ok lift_key_Ok redeemed_fields_iff modulus_bytes_def
  by blast

lemma pass_message_inject:
  assumes "pass_message kid n c nonce = pass_message kid' n' c' nonce'"
    "length kid = length kid'" "length n = length n'" "length c = length c'"
  shows "kid = kid' \<and> n = n' \<and> c = c' \<and> nonce = nonce'"
  using assms by (simp add: pass_message_def)

lemma redeemed_fields_Some:
  assumes "redeemed_fields env r = Some (kid, n, c, nonce)"
  shows "hex_decode env (trim (rd_key_id r)) = Some kid" "length kid = 8" "length n = 32" "length c = 32"
    "b64_decode env (trim (rd_nonce r)) = Some nonce" "length nonce = 32"
    "b64_decode env (trim (rd_client_public_key r)) = Some c"
  using assms by (simp_all add: redeemed_fields_iff public_key_from_base64_def)

lemma same_message_same_tag:
  assumes "b64_ok env" "hex_ok env"
    "redeemed_fields env r = Some (kid, n, c, nonce)" "redeemed_fields env r' = Some (kid', n', c', nonce')"
    "pass_message kid n c nonce = pass_message kid' n' c' nonce'"
  shows "spent_tag env r = spent_tag env r'"
proof -
  note f = redeemed_fields_Some [OF assms(3)] and f' = redeemed_fields_Some [OF assms(4)]
  have "kid = kid' \<and> n = n' \<and> c = c' \<and> nonce = nonce'"
    using pass_message_inject [OF assms(5)] f(2-4) f'(2-4) by simp
  then show ?thesis
    using f f' hex_okD(3) [OF assms(2) f(1)] hex_okD(3) [OF assms(2) f'(1)] b64_decode_inject [OF assms(1) f(5)]
    by (simp add: spent_tag_def)
qed

lemma trusted_key_id:
  assumes "hex_ok env" "trusted_record trusted s = Some rec" "record_issuer_key env rec = Ok issuer"
    "hex_decode env (trim s) = Some kid"
  shows "rec \<in> set trusted \<and> kid = ik_id issuer"
proof -
  from assms(2) have r: "rec \<in> set trusted" "to_ascii_lowercase (trim (pkr_id rec)) = to_ascii_lowercase (trim s)"
    by (auto simp: trusted_record_def find_Some_iff eq_ignore_ascii_case_def)
  from assms(3) have "trim (pkr_id rec) = hex_encode env (ik_id issuer)"
    by (auto simp: record_issuer_key_def id_hex_def split: if_splits)
  with r assms(1,4) have "hex_encode env (ik_id issuer) = hex_encode env kid"
    by (metis hex_okD(1) hex_okD(3))
  with r(1) assms(1) show ?thesis by (metis hex_okD(1) option.inject)
qed

subsection \<open>A concrete environment\<close>

text \<open>
  Parameters with all the laws: the real hexadecimal codec, a base64 stand-in that is
  its strict form, and signatures that are constant.
\<close>

fun hex_bytes :: "bytes \<Rightarrow> string" where
  "hex_bytes [] = []"
| "hex_bytes (b # bs) = digit_char (unat b div 16) # digit_char (unat b mod 16) # hex_bytes bs"

fun unhex :: "string \<Rightarrow> bytes option" where
  "unhex [] = Some []"
| "unhex [_] = None"
| "unhex (h # l # s) =
     (if is_ascii_hexdigit h \<and> is_ascii_hexdigit l
      then map_option (\<lambda>bs. of_nat (hex_val h * 16 + hex_val l) # bs) (unhex s) else None)"

lemma unat_byte: "unat b < 256" for b :: u8
  using unsigned_less [of b] by simp

lemma hex_val_less: "is_ascii_hexdigit c \<Longrightarrow> hex_val c < 16"
  by (auto simp: is_ascii_hexdigit_def is_ascii_digit_def hex_val_def is_ascii_lowercase_def)

lemma digit_char_lower: "is_ascii_hexdigit c \<Longrightarrow> digit_char (hex_val c) = to_ascii_lower c"
proof -
  assume "is_ascii_hexdigit c"
  moreover have "char_of (of_char c :: nat) = c" by simp
  ultimately show ?thesis
    by (auto simp: is_ascii_hexdigit_def is_ascii_digit_def hex_val_def digit_char_def is_ascii_lowercase_def
        to_ascii_lower_def is_ascii_uppercase_def)
qed

lemma unhex_hex: "unhex (hex_bytes bs) = Some bs"
proof (induction bs)
  case (Cons b bs)
  have "unat b div 16 < 16" "unat b mod 16 < 16" using unat_byte [of b] by simp_all
  moreover have "(of_nat (unat b div 16 * 16 + unat b mod 16) :: u8) = b"
    by (simp only: div_mult_mod_eq) simp
  ultimately show ?case using Cons by (simp add: hex_val_digit del: of_nat_add of_nat_mult)
qed simp

lemma hex_bytes_digits: "list_all is_ascii_hexdigit (hex_bytes bs) \<and> length (hex_bytes bs) = 2 * length bs"
proof (induction bs)
  case (Cons b bs)
  have "unat b div 16 < 16" "unat b mod 16 < 16" using unat_byte [of b] by simp_all
  with Cons show ?case by (simp add: hex_val_digit)
qed simp

lemma hex_unhex: "unhex s = Some bs \<Longrightarrow> to_ascii_lowercase s = hex_bytes bs"
proof (induction s arbitrary: bs rule: unhex.induct)
  case (3 h l s)
  then obtain bs' where hl: "is_ascii_hexdigit h" "is_ascii_hexdigit l" and bs: "unhex s = Some bs'"
    "bs = of_nat (hex_val h * 16 + hex_val l) # bs'" by (auto split: if_splits)
  have v: "hex_val h < 16" "hex_val l < 16" using hl by (simp_all add: hex_val_less)
  then have "unat (of_nat (hex_val h * 16 + hex_val l) :: u8) = hex_val h * 16 + hex_val l"
    by (simp add: unat_of_nat take_bit_nat_eq_self del: of_nat_add of_nat_mult)
  with 3 hl bs v show ?case by (simp add: to_ascii_lowercase_def digit_char_lower del: of_nat_add of_nat_mult)
qed (auto simp: to_ascii_lowercase_def)

definition sample_env :: pass_env where
  "sample_env = \<lparr>b64_encode = hex_bytes, b64_decode = (\<lambda>s. if to_ascii_lowercase s = s then unhex s else None),
     x25519_public = (\<lambda>k. take 32 (k @ replicate 32 7)), hkdf_sha256 = (\<lambda>salt k info. take 32 (salt @ k @ info @ replicate 32 7)),
     hex_encode = hex_bytes, hex_decode = unhex, sha256 = (\<lambda>b. take 32 (rev b @ replicate 32 0)),
     rsa_from_spki = Some, rsa_to_spki = Some, rsa_modulus = (\<lambda>_. replicate 256 1), rsa_generate = (\<lambda>rng. Some (rng, rng)),
     rsa_from_der = Some, rsa_to_der = Some, rsa_public = Some,
     rsa_blind = (\<lambda>rng pk msg. Some \<lparr>blind_message = replicate 256 1, blind_secret = rng, msg_randomizer = Some (replicate 32 2)\<rparr>),
     rsa_blind_sign = (\<lambda>sk m. Some m), rsa_finalize = (\<lambda>pk bs b msg. Some bs),
     rsa_verify = (\<lambda>pk sig r msg. sig = replicate 256 1)\<rparr>"

lemma hex_bytes_lower: "to_ascii_lowercase (hex_bytes bs) = hex_bytes bs"
  using hex_unhex unhex_hex by blast

lemma sample_env_ok: "b64_ok sample_env" "hex_ok sample_env" "length (x25519_public sample_env k) = 32"
    "blind_rsa_ok sample_env sk pk"
proof -
  show "b64_ok sample_env" unfolding b64_ok_def sample_env_def
    using hex_unhex by (auto simp: unhex_hex hex_bytes_lower hex_bytes_digits hexdigits_free(5) split: if_splits)
  show "hex_ok sample_env" unfolding hex_ok_def sample_env_def
    using hex_unhex by (auto simp: unhex_hex hex_bytes_digits)
  show "length (x25519_public sample_env k) = 32" by (simp add: sample_env_def)
  show "blind_rsa_ok sample_env sk pk" by (simp add: blind_rsa_ok_def sample_env_def KEY_BITS_def)
qed

definition sample_issuer :: issuer_secret where
  "sample_issuer = \<lparr>is_sk = [5], is_public = \<lparr>ik_pk = [1, 2], ik_spki = [1, 2], ik_id = key_id sample_env [1, 2]\<rparr>\<rparr>"

definition sample_key_record :: pass_key_record where
  "sample_key_record = \<lparr>pkr_id = id_hex sample_env (is_public sample_issuer), pkr_key = to_spki_base64 sample_env (is_public sample_issuer),
     pkr_not_after = ''2100-01-01T00:00:00Z''\<rparr>"

lemma sample_trust:
  "length (ik_id (is_public sample_issuer)) = 8"
  "record_issuer_key sample_env sample_key_record = Ok (is_public sample_issuer)"
  "trusted_record [sample_key_record] (id_hex sample_env (is_public sample_issuer)) = Some sample_key_record"
proof -
  show l: "length (ik_id (is_public sample_issuer)) = 8"
    by (simp add: sample_issuer_def key_id_def KEY_ID_DOMAIN_def ascii_bytes_def sample_env_def)
  have "trim (id_hex sample_env k) = id_hex sample_env k" for k
    using hex_okD(2) [OF sample_env_ok(2)] by (simp add: id_hex_def)
  moreover have "from_spki_base64 sample_env (to_spki_base64 sample_env (is_public sample_issuer)) = Ok (is_public sample_issuer)"
    unfolding from_spki_base64_def to_spki_base64_def b64_okD [OF sample_env_ok(1)]
    by (simp add: sample_issuer_def) (simp add: sample_env_def KEY_BITS_def)
  ultimately show "record_issuer_key sample_env sample_key_record = Ok (is_public sample_issuer)"
    by (simp add: record_issuer_key_def sample_key_record_def)
  show "trusted_record [sample_key_record] (id_hex sample_env (is_public sample_issuer)) = Some sample_key_record"
    by (simp add: trusted_record_def sample_key_record_def)
qed

lemma sample_expiry: "rfc3339_to_unix ''2100-01-01T00:00:00Z'' = Ok 4102444800"
proof -
  have "rfc3339_to_unix (''2100'' @ ''-'' @ ''01'' @ ''-'' @ ''01'' @ ''T00:00:00Z'') =
      Ok (days_from_civil (int (dec_val ''2100'')) (int (dec_val ''01'')) (int (dec_val ''01'')) * 86400)"
    by (rule read_midnight) (simp_all add: is_ascii_digit_def dec_val_def digit_val_def)
  then show ?thesis
    by (simp add: dec_val_def digit_val_def days_from_civil_def Let_def signed_divide_int_def)
qed

lemma sample_current: "is_current sample_key_record now \<longleftrightarrow> now \<le> 4102444800"
  by (simp add: is_current_def sample_key_record_def sample_expiry)

definition sample_node_key :: string where
  "sample_node_key = b64_encode sample_env (replicate 32 9)"

definition sample_draws :: draws where
  "sample_draws = \<lparr>dr_key = Some (replicate 32 3), dr_nonce = Some (replicate 32 4), dr_blind = [6]\<rparr>"

lemma sample_prepare: "\<exists>b p. prepare sample_env sample_draws (is_public sample_issuer) sample_node_key = Ok (b, p)"
proof -
  have "public_key_from_base64 sample_env sample_node_key = Ok (replicate 32 9)"
    unfolding sample_node_key_def by (rule key_roundtrip(2) [OF sample_env_ok(1)]) simp
  then show ?thesis
    unfolding prepare_def by (simp add: sample_draws_def generate_key_def Let_def) (simp add: sample_env_def)
qed

text \<open>
  Claim C24. A pass works from one end to the other: what a client prepares for a node,
  an issuer signs and the client unblinds is, when shown, accepted by that node under
  the issuer's key while the key is current, admits the client key that was drawn for
  it, and is refused by every other node and after the key has expired.
\<close>

theorem pass_lifecycle:
  assumes env: "b64_ok env" "hex_ok env" "\<And>k. length (x25519_public env k) = 32"
    and rsa: "blind_rsa_ok env (is_sk s) (ik_pk (is_public s))" "length (ik_id (is_public s)) = 8"
    and prep: "prepare env dr (is_public s) node = Ok (b, p)" "dr_key dr = Some client" "length client = 32"
      "dr_nonce dr = Some nonce" "length nonce = 32"
    and trust: "trusted_record trusted (id_hex env (is_public s)) = Some rec" "record_issuer_key env rec = Ok (is_public s)"
      "is_current rec now"
  shows "\<exists>bs ps r. sign_blinded env s b = Ok bs \<and> finalize_pass env p (is_public s) bs = Ok ps
      \<and> redemption_of env ps = Ok r \<and> verify_redemption env r trusted node now = Ok ()
      \<and> rd_client_public_key r = public_base64 env client
      \<and> (\<forall>other. trim other \<noteq> trim node \<longrightarrow> verify_redemption env r trusted other now = Err OtherNode)
      \<and> (\<forall>later. \<not> is_current rec later \<longrightarrow> verify_redemption env r trusted node later = Err IssuerKeyExpired)"
proof -
  obtain n r0 sig bs where n: "public_key_from_base64 env node = Ok n" and bs: "sign_blinded env s b = Ok bs"
    and fin: "finalize_pass env p (is_public s) bs = Ok \<lparr>ps_key_id = id_hex env (is_public s), ps_node_public_key = trim node,
       ps_client_secret = secret_base64 env client, ps_nonce = b64_encode env nonce,
       ps_randomizer = b64_encode env r0, ps_signature = b64_encode env sig\<rparr>" (is "_ = Ok ?ps")
    and l: "length r0 = 32" "length sig = KEY_BITS div 8"
    and ver: "rsa_verify env (ik_pk (is_public s)) sig (Some r0) (pass_message (ik_id (is_public s)) n (public_of env client) nonce)"
    using signed_pass [OF prep(1) env(1) rsa(1)] prep(2,4) by (metis option.inject)
  let ?r = "\<lparr>rd_key_id = id_hex env (is_public s), rd_node_public_key = trim node,
    rd_client_public_key = public_base64 env client, rd_nonce = b64_encode env nonce,
    rd_randomizer = b64_encode env r0, rd_signature = b64_encode env sig\<rparr>"
  have red: "redemption_of env ?ps = Ok ?r"
    using key_roundtrip(1) [OF env(1) prep(3)] by (simp add: redemption_of_def client_key_def)
  have id: "decode_id env (id_hex env (is_public s)) = Ok (ik_id (is_public s))"
    using hex_okD [OF env(2)] rsa(2) by (simp add: id_hex_def)
  have fields: "redeemed_fields env ?r = Some (ik_id (is_public s), n, public_of env client, nonce)"
    unfolding redeemed_fields_iff
    using n id key_roundtrip(2) [OF env(1,3)] prep(5) b64_okD [OF env(1)]
    by (simp add: public_base64_def public_of_def public_key_from_base64_def)
  have "verify_redemption env ?r trusted node now = Ok ()"
    unfolding verify_redemption_Ok using fields trust ver l b64_okD [OF env(1)] by auto
  moreover have "verify_redemption env ?r trusted other now = Err OtherNode" if "trim other \<noteq> trim node" for other
    using that id trust by (auto simp: verify_redemption_def simp del: decode_id_Ok)
  moreover have "verify_redemption env ?r trusted node later = Err IssuerKeyExpired" if "\<not> is_current rec later" for later
    using that id trust by (simp add: verify_redemption_def del: decode_id_Ok)
  ultimately show ?thesis using bs fin red by auto
qed

theorem pass_lifecycle_witness:
  "\<exists>b p bs ps r. prepare sample_env sample_draws (is_public sample_issuer) sample_node_key = Ok (b, p)
     \<and> sign_blinded sample_env sample_issuer b = Ok bs \<and> finalize_pass sample_env p (is_public sample_issuer) bs = Ok ps
     \<and> redemption_of sample_env ps = Ok r \<and> verify_redemption sample_env r [sample_key_record] sample_node_key 1791894896 = Ok ()
     \<and> verify_redemption sample_env r [sample_key_record] sample_node_key 4102444801 = Err IssuerKeyExpired"
proof -
  obtain b p where p: "prepare sample_env sample_draws (is_public sample_issuer) sample_node_key = Ok (b, p)"
    using sample_prepare by blast
  have "\<exists>bs ps r. sign_blinded sample_env sample_issuer b = Ok bs \<and> finalize_pass sample_env p (is_public sample_issuer) bs = Ok ps
      \<and> redemption_of sample_env ps = Ok r \<and> verify_redemption sample_env r [sample_key_record] sample_node_key 1791894896 = Ok ()
      \<and> rd_client_public_key r = public_base64 sample_env (replicate 32 3)
      \<and> (\<forall>other. trim other \<noteq> trim sample_node_key \<longrightarrow> verify_redemption sample_env r [sample_key_record] other 1791894896 = Err OtherNode)
      \<and> (\<forall>later. \<not> is_current sample_key_record later \<longrightarrow>
           verify_redemption sample_env r [sample_key_record] sample_node_key later = Err IssuerKeyExpired)"
    by (rule pass_lifecycle [OF sample_env_ok sample_trust(1) p, where nonce = "replicate 32 4"])
      (simp_all add: sample_draws_def sample_trust sample_current)
  with p show ?thesis by (fastforce simp: sample_current)
qed

text \<open>
  Claim C4. A node takes no pass but one an issuer it trusts signed for it, and knows it
  again: a redemption that verifies carries a signature, under a current key of the
  node's list whose id the pass names, over the message made of its own fields, with
  this node's key among them; and every redemption of the same signed message, however
  it is written (blanks, capital letters in the key id), has the same tag.
\<close>

theorem verified_pass_one_tag:
  assumes "b64_ok env" "hex_ok env" "verify_redemption env r trusted this_node now = Ok ()"
  shows "\<exists>rec issuer n c nonce randomizer sig.
      rec \<in> set trusted \<and> is_current rec now \<and> record_issuer_key env rec = Ok issuer
      \<and> public_key_from_base64 env this_node = Ok n
      \<and> redeemed_fields env r = Some (ik_id issuer, n, c, nonce)
      \<and> rsa_verify env (ik_pk issuer) sig (Some randomizer) (pass_message (ik_id issuer) n c nonce)
      \<and> (\<forall>r' kid' n' c' nonce'. redeemed_fields env r' = Some (kid', n', c', nonce')
           \<and> pass_message kid' n' c' nonce' = pass_message (ik_id issuer) n c nonce
           \<longrightarrow> spent_tag env r' = spent_tag env r)"
proof -
  from assms(3) obtain rec issuer kid n c nonce randomizer sig where
    v: "trusted_record trusted (rd_key_id r) = Some rec" "is_current rec now" "record_issuer_key env rec = Ok issuer"
    "trim (rd_node_public_key r) = trim this_node" and f: "redeemed_fields env r = Some (kid, n, c, nonce)"
    and s: "rsa_verify env (ik_pk issuer) sig (Some randomizer) (pass_message kid n c nonce)"
    unfolding verify_redemption_Ok by blast
  have k: "rec \<in> set trusted \<and> kid = ik_id issuer"
    using trusted_key_id [OF assms(2) v(1,3)] redeemed_fields_Some(1) [OF f] by blast
  moreover have "public_key_from_base64 env this_node = Ok n"
    using f v(4) by (simp add: redeemed_fields_iff public_key_from_base64_def)
  moreover have "\<forall>r' kid' n' c' nonce'. redeemed_fields env r' = Some (kid', n', c', nonce')
      \<and> pass_message kid' n' c' nonce' = pass_message kid n c nonce \<longrightarrow> spent_tag env r' = spent_tag env r"
    using same_message_same_tag [OF assms(1,2) _ f] by blast
  ultimately show ?thesis using v f s by blast
qed

definition sample_redemption :: redemption where
  "sample_redemption = \<lparr>rd_key_id = id_hex sample_env (is_public sample_issuer), rd_node_public_key = sample_node_key,
     rd_client_public_key = b64_encode sample_env (replicate 32 8), rd_nonce = b64_encode sample_env (replicate 32 4),
     rd_randomizer = b64_encode sample_env (replicate 32 2), rd_signature = b64_encode sample_env (replicate 256 1)\<rparr>"

lemma sample_redemption_verifies: "verify_redemption sample_env sample_redemption [sample_key_record] sample_node_key 0 = Ok ()"
proof -
  have "redeemed_fields sample_env sample_redemption =
      Some (ik_id (is_public sample_issuer), replicate 32 9, replicate 32 8, replicate 32 4)"
    unfolding redeemed_fields_iff
    using hex_okD [OF sample_env_ok(2)] sample_trust(1) key_roundtrip(2) [OF sample_env_ok(1)] b64_okD [OF sample_env_ok(1)]
    by (simp add: sample_redemption_def sample_node_key_def id_hex_def)
  then show ?thesis
    unfolding verify_redemption_Ok using b64_okD [OF sample_env_ok(1)] sample_trust sample_current
    by (auto simp: sample_redemption_def KEY_BITS_def) (simp add: sample_env_def)
qed

theorem verified_pass_one_tag_witness:
  "verify_redemption sample_env sample_redemption [sample_key_record] sample_node_key 0 = Ok ()
   \<and> (\<exists>(issuer :: issuer_key) n c nonce. public_key_from_base64 sample_env sample_node_key = Ok n
        \<and> redeemed_fields sample_env sample_redemption = Some (ik_id issuer, n, c, nonce))"
proof -
  obtain issuer :: issuer_key and n c nonce where "public_key_from_base64 sample_env sample_node_key = Ok n"
    "redeemed_fields sample_env sample_redemption = Some (ik_id issuer, n, c, nonce)"
    using verified_pass_one_tag [OF sample_env_ok(1,2) sample_redemption_verifies] by fast
  with sample_redemption_verifies show ?thesis by fast
qed

section \<open>Fetching\<close>

abbreviation node_names :: "pass list \<Rightarrow> string list" where
  "node_names \<equiv> map ps_node_public_key"

abbreviation wanted :: "(string \<times> draws) list \<Rightarrow> string list" where
  "wanted nodes \<equiv> map (\<lambda>n. trim (fst n)) nodes"

lemma prepare_all_nodes:
  "prepare_all env issuer chunk = Ok bps \<Longrightarrow> map (\<lambda>q. pp_node_public_key (snd q)) bps = wanted chunk"
  by (induction chunk arbitrary: bps) (auto elim!: prepare_Ok)

lemma finalize_pass_node: "finalize_pass env p issuer sig = Ok ps \<Longrightarrow> ps_node_public_key ps = pp_node_public_key p"
  by (auto simp: finalize_pass_def split: option.splits if_splits)

lemma finalize_all_nodes:
  assumes "finalize_all env issuer pss out = (out', res)"
  shows "\<exists>k\<le>length pss. node_names out' = node_names out @ take k (map (\<lambda>q. pp_node_public_key (fst q)) pss) \<and> (is_ok res \<longrightarrow> k = length pss)"
  using assms
proof (induction env issuer pss out rule: finalize_all.induct)
  case (2 env issuer p sig rest out)
  show ?case
  proof (cases "finalize_pass env p issuer sig")
    case (Inl e)
    with 2 show ?thesis by (intro exI [of _ 0]) auto
  next
    case (Inr ps)
    with 2 obtain k where "k \<le> length rest" "node_names out' = node_names (out @ [ps]) @ take k (map (\<lambda>q. pp_node_public_key (fst q)) rest)"
      "is_ok res \<longrightarrow> k = length rest" by auto
    with finalize_pass_node [OF Inr] show ?thesis by (intro exI [of _ "Suc k"]) simp
  qed
qed auto

lemma fetch_one_nodes:
  assumes "fetch_one env json call issuer token chunk out = (out', res)"
  shows "\<exists>k\<le>length chunk. node_names out' = node_names out @ take k (wanted chunk) \<and> (is_ok res \<longrightarrow> k = length chunk)"
proof (cases "out' = out \<and> \<not> is_ok res")
  case True
  then show ?thesis by (intro exI [of _ 0]) auto
next
  case False
  then obtain bps resp sigs r where b: "prepare_all env issuer chunk = Ok bps" and len: "length sigs = length bps"
    and fin: "finalize_all env issuer (zip (map snd bps) sigs) out = (out', r)" and ok: "is_ok res \<longleftrightarrow> is_ok r"
    using assms by (fastforce simp: fetch_one_def split: sum.splits option.splits if_splits prod.splits)
  have eq: "map (\<lambda>q. pp_node_public_key (fst q)) (zip (map snd bps) sigs) = wanted chunk"
    using prepare_all_nodes [OF b] len
    by (metis (no_types, lifting) length_map map_fst_zip map_map comp_apply map_cong)
  then have l: "length (zip (map snd bps) sigs) = length chunk" by (metis length_map)
  from finalize_all_nodes [OF fin] show ?thesis unfolding eq l ok .
qed

lemma fetch_loop_nodes:
  assumes "fetch_loop env json go_on call issuer token i cs got = Ok got'" "f_stopped got = None"
  shows "\<exists>k\<le>length (concat cs). node_names (f_passes got') = node_names (f_passes got) @ take k (wanted (concat cs))
    \<and> (f_stopped got' = None \<longrightarrow> k = length (concat cs)) \<and> (f_stopped got' \<noteq> None \<longrightarrow> f_passes got' \<noteq> [])"
  using assms
proof (induction cs arbitrary: i got)
  case (Cons chunk cs)
  show ?case
  proof (cases "go_on i")
    case False
    with Cons.prems show ?thesis by (intro exI [of _ 0]) (auto split: if_splits)
  next
    case True
    obtain out res where f: "fetch_one env json (call i) issuer token chunk (f_passes got) = (out, res)"
      by (cases "fetch_one env json (call i) issuer token chunk (f_passes got)")
    from fetch_one_nodes [OF f] obtain k where k: "k \<le> length chunk"
      "node_names out = node_names (f_passes got) @ take k (wanted chunk)" "is_ok res \<longrightarrow> k = length chunk" by blast
    show ?thesis
    proof (cases res)
      case (Inl e)
      with True f Cons.prems k show ?thesis by (intro exI [of _ k]) (auto split: if_splits)
    next
      case (Inr lp)
      obtain left prepaid where lp: "lp = (left, prepaid)" by (cases lp)
      let ?got = "got\<lparr>f_passes := out, f_remaining_today := left, f_prepaid := prepaid\<rparr>"
      have "fetch_loop env json go_on call issuer token (Suc i) cs ?got = Ok got'"
        using True f Inr lp Cons.prems(1) by simp
      from Cons.IH [OF this] Cons.prems(2) obtain j where "j \<le> length (concat cs)"
        "node_names (f_passes got') = node_names out @ take j (wanted (concat cs))"
        "f_stopped got' = None \<longrightarrow> j = length (concat cs)" "f_stopped got' \<noteq> None \<longrightarrow> f_passes got' \<noteq> []" by auto
      with k Inr show ?thesis by (intro exI [of _ "length chunk + j"]) simp
    qed
  qed
qed auto

text \<open>
  Fetching loses no pass and sends the token nowhere in the clear: the passes
  that come back are, in order, those asked for the first nodes of the request, one per
  node, all of them unless it says why it stopped, and then at least one; and the
  issuer's address is one reached over TLS or on this machine itself (or the test
  variable is set).
\<close>

theorem fetch_in_order:
  assumes "fetch env json plain_issuer go_on call issuer_url token key nodes = Ok got"
  shows "(\<exists>k\<le>length nodes. node_names (f_passes got) = take k (wanted nodes)
      \<and> (f_stopped got = None \<longrightarrow> k = length nodes) \<and> (f_stopped got \<noteq> None \<longrightarrow> 0 < k))
    \<and> (\<exists>u. url_parse issuer_url = Ok u \<and> (u_https u \<or> loopback (u_host u) \<or> plain_issuer = Some ''1''))"
proof -
  let ?call = "\<lambda>u. fetch_loop env json go_on (call (with_path u ''/issue''))"
  let ?none = "\<lparr>f_passes = [], f_remaining_today = 0, f_prepaid = False, f_stopped = None\<rparr>"
  from assms [unfolded fetch_def Let_def bind_result_eq_Ok case_sum_Ok]
  obtain issuer u y where u: "url_parse issuer_url = Ok u"
    and chk: "check_for_token plain_issuer (with_path u ''/issue'') = Ok y"
    and l: "?call u issuer token 0 (chunks MAX_PER_REQUEST nodes) ?none = Ok got"
    by (elim exE conjE)
  have c: "concat (chunks MAX_PER_REQUEST nodes) = nodes" by (rule concat_chunks) (simp add: MAX_PER_REQUEST_def)
  obtain k where k: "k \<le> length nodes" "node_names (f_passes got) = take k (wanted nodes)"
    "f_stopped got = None \<longrightarrow> k = length nodes" "f_stopped got \<noteq> None \<longrightarrow> f_passes got \<noteq> []"
    using fetch_loop_nodes [OF l] unfolding c by auto
  have pos: "f_stopped got \<noteq> None \<longrightarrow> 0 < k" using k(2,4) by (cases k) auto
  have tok: "u_https u \<or> loopback (u_host u) \<or> plain_issuer = Some ''1''"
    using chk by (auto simp: check_for_token_def with_path_def split: if_splits)
  show ?thesis
    by (intro conjI exI [of _ k] exI [of _ u]) (use k pos tok u in simp_all)
qed

definition sample_issue :: "url \<Rightarrow> nat \<Rightarrow> issue_request \<Rightarrow> http_error + nat \<times> string" where
  "sample_issue u i rq = Ok (200, concat (map (\<lambda>_. ''s'') (rq_blinded rq)))"

definition sample_json :: "string \<Rightarrow> issue_response option" where
  "sample_json s = Some \<lparr>rs_signatures = map (\<lambda>_. b64_encode sample_env (replicate 256 1)) s, rs_remaining_today = 9, rs_prepaid = False\<rparr>"

lemma sample_url: "url_parse ''https://issuer.example'' =
    Ok \<lparr>u_https = True, u_host = ''issuer.example'', u_port = 443, u_path = ''/''\<rparr>"
proof -
  have "trim ''https://issuer.example'' = ''https://issuer.example''"
    by (rule trim_graphic) (simp add: is_graphic_def)
  then show ?thesis
    by (simp add: url_parse_def split_scheme_def strip_prefix_def host_and_port_def rsplit_once_def host_char_def
        is_ascii_alphanumeric_def is_ascii_alphabetic_def is_ascii_lowercase_def)
qed

lemma sample_fetch:
  "\<exists>got. fetch sample_env sample_json None (\<lambda>_. True) sample_issue ''https://issuer.example'' ''tok'' sample_key_record
     [(sample_node_key, sample_draws)] = Ok got"
proof -
  obtain b p where p: "prepare sample_env sample_draws (is_public sample_issuer) sample_node_key = Ok (b, p)"
    using sample_prepare by blast
  obtain ps where "finalize_pass sample_env p (is_public sample_issuer) (b64_encode sample_env (replicate 256 1)) = Ok ps"
    using p by (auto elim!: prepare_Ok simp: finalize_pass_def b64_okD [OF sample_env_ok(1)])
      (auto simp: sample_env_def)
  then show ?thesis
    using p by (simp add: fetch_def sample_trust(2) sample_url check_for_token_def with_path_def Let_def MAX_PER_REQUEST_def
        chunks.simps fetch_one_def sample_issue_def sample_json_def)
qed

theorem fetch_in_order_witness:
  "\<exists>got. fetch sample_env sample_json None (\<lambda>_. True) sample_issue ''https://issuer.example'' ''tok'' sample_key_record
     [(sample_node_key, sample_draws)] = Ok got \<and> (\<exists>k\<le>1. node_names (f_passes got) = take k [trim sample_node_key])"
proof -
  obtain got where g: "fetch sample_env sample_json None (\<lambda>_. True) sample_issue ''https://issuer.example'' ''tok'' sample_key_record
     [(sample_node_key, sample_draws)] = Ok got"
    using sample_fetch by blast
  with fetch_in_order [OF g] show ?thesis by auto
qed

end
