(* ===== verification/Invite.thy ===== *)
theory Invite
  imports Pass Exit_Policy
begin

text \<open>
  What a client knows of a node: the record of a node list (\<^verbatim>\<open>directory.rs\<close>,
  \<^verbatim>\<open>NodeRecord\<close>) and the invite a node hands out (\<^verbatim>\<open>config.rs\<close>), with their checks, and
  the key a tunnel shows its node. JSON is not modelled: an invite is what
  \<^verbatim>\<open>from_json\<close> parsed. Errors carry no wording.

  The lemmas say that an invite that passes \<open>validate\<close> sends the machine's lookups to
  a private or shared address of its own tunnel subnet, and that the key of a pass is shown
  only the way it was admitted.
\<close>

definition DEFAULT_ADMISSION_PORT :: u16 where
  "DEFAULT_ADMISSION_PORT = 51821"

definition DEFAULT_WIREGUARD_PORT :: u16 where
  "DEFAULT_WIREGUARD_PORT = 51820"

section \<open>A node's record\<close>

record node_record =
  nr_node_name :: string
  nr_node_public_key :: string
  nr_endpoint :: string
  nr_operator :: "string option"
  nr_contact :: "string option"
  nr_role :: "string option"
  nr_admission :: "string option"
  nr_admission_port :: "u16 option"
  nr_country :: "string option"
  nr_features :: "string list"

definition SESSIONS :: string where
  "SESSIONS = ''sessions''"

definition ADMISSION_RELAY :: string where
  "ADMISSION_RELAY = ''admission-relay''"

datatype invite_error = BadKey key_error | NotIpPort | EndpointIpv6 | BadCountry | BadMtu
  | AddressForm | AddressNotIpv4 | PrefixNotNumber | PrefixTooLarge
  | Address6Form | AddressNotIpv6 | Prefix6NotNumber | Prefix6Range | NotUniqueLocal
  | PrefixNotTunnel | AddressNotPrivate | DnsElsewhere
  | NoName | BadName | OperatorTooLong | ContactTooLong | BadRole | BadAdmission | BadFeatures
  | PassKeyElsewhere

definition normalise_country :: "string \<Rightarrow> invite_error + string" where
  "normalise_country c =
     (let c = trim c in
      if length c = 2 \<and> list_all is_ascii_alphabetic c then Ok (to_ascii_uppercase c) else Err BadCountry)"

definition name_char :: "char \<Rightarrow> bool" where
  "name_char c \<longleftrightarrow> is_ascii_alphanumeric c \<or> c = CHR ''-'' \<or> c = CHR ''_'' \<or> c = CHR ''.''"

definition longer_than :: "nat \<Rightarrow> string option \<Rightarrow> bool" where
  "longer_than n s = (case s of Some s \<Rightarrow> n < chars_count s | None \<Rightarrow> False)"

definition one_of :: "string list \<Rightarrow> string option \<Rightarrow> bool" where
  "one_of ws s = (case s of Some s \<Rightarrow> to_ascii_lowercase (trim s) \<in> set ws | None \<Rightarrow> True)"

definition feature_ok :: "string \<Rightarrow> bool" where
  "feature_ok f \<longleftrightarrow> f \<noteq> [] \<and> length f \<le> 32 \<and> list_all (\<lambda>c. is_ascii_lowercase c \<or> c = CHR ''-'') f"

definition check_country :: "string option \<Rightarrow> bool" where
  "check_country c = (case c of Some c \<Rightarrow> is_ok (normalise_country c) | None \<Rightarrow> True)"

definition validate_record :: "'a key_env_scheme \<Rightarrow> node_record \<Rightarrow> invite_error + unit" where
  "validate_record env r =
     (if trim (nr_node_name r) = [] then Err NoName
      else if 32 < length (trim (nr_node_name r)) \<or> \<not> list_all name_char (trim (nr_node_name r)) then Err BadName
      else if longer_than 64 (nr_operator r) then Err OperatorTooLong
      else if longer_than 128 (nr_contact r) then Err ContactTooLong
      else (case public_key_from_base64 env (nr_node_public_key r) of
          Err e \<Rightarrow> Err (BadKey e)
        | Ok _ \<Rightarrow> (case parse_socket_addr (nr_endpoint r) of
            None \<Rightarrow> Err NotIpPort
          | Some endpoint \<Rightarrow>
              (if \<not> is_ipv4 endpoint then Err EndpointIpv6
               else if \<not> check_country (nr_country r) then Err BadCountry
               else if \<not> one_of [''entry'', ''exit'', ''both''] (nr_role r) then Err BadRole
               else if \<not> one_of [''open'', ''manual'', ''pass''] (nr_admission r) then Err BadAdmission
               else if 16 < length (nr_features r) \<or> \<not> list_all feature_ok (nr_features r) then Err BadFeatures
               else Ok ()))))"

definition record_has :: "node_record \<Rightarrow> string \<Rightarrow> bool" where
  "record_has r feature = list_ex (\<lambda>f. f = feature) (nr_features r)"

definition says :: "string \<Rightarrow> string option \<Rightarrow> bool" where
  "says w a = (case a of Some a \<Rightarrow> eq_ignore_ascii_case (trim a) w | None \<Rightarrow> False)"

definition record_is_open :: "node_record \<Rightarrow> bool" where
  "record_is_open r = says ''open'' (nr_admission r)"

definition record_takes_passes :: "node_record \<Rightarrow> bool" where
  "record_takes_passes r = says ''pass'' (nr_admission r)"

section \<open>An invite\<close>

record pass_binding =
  pb_client_secret :: string
  pb_admission_port :: "u16 option"
  pb_redeemed_at :: nat
  pb_used_at :: nat
  pb_behind :: "bool option"

record invite =
  i_node_name :: string
  i_node_public_key :: string
  i_endpoint :: string
  i_client_address :: string
  i_client_address6 :: "string option"
  i_dns :: ipv4
  i_allowed_ips :: "string list"
  i_mtu :: nat
  i_keepalive :: nat
  i_operator :: "string option"
  i_role :: "string option"
  i_country :: "string option"
  i_admission :: "string option"
  i_admission_port :: "u16 option"
  i_behind :: bool
  i_features :: "string list"
  i_pass :: "pass_binding option"

definition UNUSED_LEASE_SECS :: nat where
  "UNUSED_LEASE_SECS = 600"

definition IDLE_LEASE_SECS :: nat where
  "IDLE_LEASE_SECS = 5 * 3600"

definition binding_direct :: "pass_binding \<Rightarrow> bool" where
  "binding_direct p \<longleftrightarrow> pb_behind p = Some False"

definition binding_fresh :: "pass_binding \<Rightarrow> nat \<Rightarrow> bool" where
  "binding_fresh p now \<longleftrightarrow> pb_used_at p = 0 \<and> now - pb_redeemed_at p < UNUSED_LEASE_SECS"

definition lease_likely_alive :: "pass_binding \<Rightarrow> nat \<Rightarrow> bool" where
  "lease_likely_alive p now \<longleftrightarrow> binding_fresh p now \<or> 0 < pb_used_at p \<and> now - pb_used_at p < IDLE_LEASE_SECS"

definition default_allowed :: "string list" where
  "default_allowed = [''0.0.0.0/0'', ''::/0'']"

definition default_mtu :: nat where
  "default_mtu = 1420"

definition default_keepalive :: nat where
  "default_keepalive = 25"

definition endpoint_addr :: "invite \<Rightarrow> invite_error + socket_addr" where
  "endpoint_addr i = (case parse_socket_addr (i_endpoint i) of Some a \<Rightarrow> Ok a | None \<Rightarrow> Err NotIpPort)"

definition client_ip :: "invite \<Rightarrow> invite_error + ipv4 \<times> nat" where
  "client_ip i = (case split_once (CHR ''/'') (i_client_address i) of
      None \<Rightarrow> Err AddressForm
    | Some (ip, prefix) \<Rightarrow> (case parse_ipv4 ip of
        None \<Rightarrow> Err AddressNotIpv4
      | Some ip \<Rightarrow> (case parse_uint 255 prefix of
          None \<Rightarrow> Err PrefixNotNumber
        | Some prefix \<Rightarrow> if 32 < prefix then Err PrefixTooLarge else Ok (ip, prefix))))"

definition client_ip6 :: "invite \<Rightarrow> invite_error + (ipv6 \<times> nat) option" where
  "client_ip6 i = (case i_client_address6 i of
      None \<Rightarrow> Ok None
    | Some a \<Rightarrow> (case split_once (CHR ''/'') a of
        None \<Rightarrow> Err Address6Form
      | Some (ip, prefix) \<Rightarrow> (case parse_ipv6 ip of
          None \<Rightarrow> Err AddressNotIpv6
        | Some ip \<Rightarrow> (case parse_uint 255 prefix of
            None \<Rightarrow> Err Prefix6NotNumber
          | Some prefix \<Rightarrow>
              if \<not> (48 \<le> prefix \<and> prefix \<le> 127) then Err Prefix6Range
              else if segment 0 ip AND 0xFE00 \<noteq> 0xFC00 then Err NotUniqueLocal
              else Ok (Some (ip, prefix))))))"

definition validate_shape :: "'a key_env_scheme \<Rightarrow> invite \<Rightarrow> invite_error + unit" where
  "validate_shape env i = (case public_key_from_base64 env (i_node_public_key i) of
      Err e \<Rightarrow> Err (BadKey e)
    | Ok _ \<Rightarrow> bind_result (endpoint_addr i) (\<lambda>endpoint.
        if \<not> is_ipv4 endpoint then Err EndpointIpv6
        else bind_result (client_ip i) (\<lambda>_. bind_result (client_ip6 i) (\<lambda>_.
          if \<not> check_country (i_country i) then Err BadCountry
          else if i_mtu i < 1280 \<or> 1500 < i_mtu i then Err BadMtu
          else Ok ()))))"

definition tunnel_private :: "ipv4 \<Rightarrow> bool" where
  "tunnel_private a \<longleftrightarrow> v4_is_private a \<or> octet 0 a = 100 \<and> (octet 1 a AND 0xC0) = 64"

definition check_dns :: "invite \<Rightarrow> invite_error + unit" where
  "check_dns i = bind_result (client_ip i) (\<lambda>(ip, prefix).
     if \<not> (8 \<le> prefix \<and> prefix \<le> 30) then Err PrefixNotTunnel
     else if \<not> tunnel_private ip then Err AddressNotPrivate
     else
       (let mask = push_bit (32 - prefix) (0xFFFFFFFF :: ipv4);
            same_subnet = (i_dns i AND mask = ip AND mask)
        in if \<not> same_subnet \<or> i_dns i = ip \<or> \<not> tunnel_private (i_dns i) then Err DnsElsewhere
           else Ok ()))"

definition validate_invite :: "'a key_env_scheme \<Rightarrow> invite \<Rightarrow> invite_error + unit" where
  "validate_invite env i = bind_result (validate_shape env i) (\<lambda>_. check_dns i)"

definition endpoint_ip :: "invite \<Rightarrow> invite_error + ip_addr" where
  "endpoint_ip i = bind_result (endpoint_addr i) (\<lambda>a. Ok (sa_ip a))"

definition admits_openly :: "invite \<Rightarrow> bool" where
  "admits_openly i = says ''open'' (i_admission i)"

definition invite_has :: "invite \<Rightarrow> string \<Rightarrow> bool" where
  "invite_has i feature = list_ex (\<lambda>f. f = feature) (i_features i)"

definition takes_passes :: "invite \<Rightarrow> bool" where
  "takes_passes i \<longleftrightarrow> i_pass i \<noteq> None \<or> says ''pass'' (i_admission i)"

definition direct_pass :: "invite \<Rightarrow> pass_binding option" where
  "direct_pass i = (case i_pass i of Some p \<Rightarrow> if binding_direct p then Some p else None | None \<Rightarrow> None)"

definition admits_sessions :: "invite \<Rightarrow> bool" where
  "admits_sessions i \<longleftrightarrow> admits_openly i \<and> invite_has i SESSIONS"

definition invite_record :: "invite \<Rightarrow> node_record" where
  "invite_record i = \<lparr>nr_node_name = i_node_name i, nr_node_public_key = i_node_public_key i, nr_endpoint = i_endpoint i,
     nr_operator = i_operator i, nr_contact = None, nr_role = i_role i, nr_admission = i_admission i,
     nr_admission_port = i_admission_port i, nr_country = i_country i, nr_features = i_features i\<rparr>"

definition admission_addr :: "invite \<Rightarrow> invite_error + socket_addr" where
  "admission_addr i = bind_result (endpoint_ip i) (\<lambda>ip.
     Ok \<lparr>sa_ip = ip, sa_port = (case i_admission_port i of Some p \<Rightarrow> p | None \<Rightarrow> DEFAULT_ADMISSION_PORT)\<rparr>)"

section \<open>The key a node is shown\<close>

datatype shown_key = Direct | Behind | Exact bytes

record client_config =
  cc_invite :: invite
  cc_key :: bytes
  cc_shown :: shown_key

definition direct_config :: "invite \<Rightarrow> bytes \<Rightarrow> client_config" where
  "direct_config i key = \<lparr>cc_invite = i, cc_key = key, cc_shown = Direct\<rparr>"

definition lift_bad_key :: "key_error + 'b \<Rightarrow> invite_error + 'b" where
  "lift_bad_key r = (case r of Err e \<Rightarrow> Err (BadKey e) | Ok x \<Rightarrow> Ok x)"

definition node_key :: "'a key_env_scheme \<Rightarrow> client_config \<Rightarrow> invite_error + bytes" where
  "node_key env c = (case cc_shown c of
      Exact k \<Rightarrow> Ok k
    | shown \<Rightarrow> (case i_pass (cc_invite c) of
        Some p \<Rightarrow>
          (let fits = (case shown of Behind \<Rightarrow> pb_behind p = Some True | _ \<Rightarrow> binding_direct p)
           in if \<not> fits then Err PassKeyElsewhere
              else lift_bad_key (key_from_base64 env (pb_client_secret p)))
      | None \<Rightarrow> (case shown of
          Behind \<Rightarrow> lift_bad_key (for_node_behind_base64 env (cc_key c) (i_node_public_key (cc_invite c)))
        | _ \<Rightarrow> lift_bad_key (for_node_base64 env (cc_key c) (i_node_public_key (cc_invite c))))))"

section \<open>What a valid invite promises\<close>

lemma mask_subnet:
  assumes "a AND push_bit k (0xFFFFFFFF :: ipv4) = b AND push_bit k 0xFFFFFFFF"
  shows "drop_bit k a = drop_bit k b"
proof (rule bit_word_eqI)
  fix n assume n: "n < LENGTH(32)"
  have full: "(0xFFFFFFFF :: ipv4) = - 1" by simp
  from assms have "bit (a AND push_bit k (- 1)) (k + n) = bit (b AND push_bit k (- 1)) (k + n)"
    unfolding full by (rule arg_cong)
  then show "bit (drop_bit k a) n = bit (drop_bit k b) n"
    using n by (auto simp: bit_and_iff bit_push_bit_iff bit_drop_bit_eq bit_not_iff bit_mask_iff dest: bit_imp_le_length)
qed

lemma tunnel_private_not_public: "tunnel_private a \<Longrightarrow> \<not> is_public_v4 a"
  by (auto simp: tunnel_private_def is_public_v4_def)

lemma check_dns_Ok:
  assumes "check_dns i = Ok ()"
  obtains ip prefix where "client_ip i = Ok (ip, prefix)" "8 \<le> prefix" "prefix \<le> 30" "tunnel_private ip"
    "i_dns i AND push_bit (32 - prefix) 0xFFFFFFFF = ip AND push_bit (32 - prefix) 0xFFFFFFFF" "i_dns i \<noteq> ip"
    "tunnel_private (i_dns i)"
  using assms by (auto simp: check_dns_def Let_def split: if_splits)

lemma client_ip6_Some:
  "client_ip6 i = Ok (Some (ip, prefix)) \<Longrightarrow> 48 \<le> prefix \<and> prefix \<le> 127 \<and> segment 0 ip AND 0xFE00 = 0xFC00"
  by (auto simp: client_ip6_def split: option.splits if_splits)

lemma validate_invite_Ok:
  assumes "validate_invite env i = Ok ()"
  shows "check_dns i = Ok ()" "\<exists>k. public_key_from_base64 env (i_node_public_key i) = Ok k"
    "\<exists>a. endpoint_addr i = Ok a \<and> is_ipv4 a" "\<exists>r. client_ip6 i = Ok r" "1280 \<le> i_mtu i \<and> i_mtu i \<le> 1500"
  using assms by (auto simp: validate_invite_def validate_shape_def split: sum.splits if_splits)

text \<open>The networks a tunnel may use: those of RFC 1918, and the shared address space.\<close>

definition tunnel_blocks :: "(ipv4 \<times> nat) list" where
  "tunnel_blocks = [(ipv4_new 10 0 0 0, 8), (ipv4_new 172 16 0 0, 12), (ipv4_new 192 168 0 0, 16), (ipv4_new 100 64 0 0, 10)]"

lemma tunnel_private_blocks: "tunnel_private a \<longleftrightarrow> list_ex (\<lambda>(base, len). in_cidr a base len) tunnel_blocks"
proof -
  define p q r s where "p = unat (octet 0 a)" and "q = unat (octet 1 a)"
    and "r = unat (octet 2 a)" and "s = unat (octet 3 a)"
  note defs = p_def [symmetric] q_def [symmetric] r_def [symmetric] s_def [symmetric]
  have a: "unat a = p * 16777216 + q * 65536 + r * 256 + s"
    using unat_octets [of a] by (simp only: defs)
  have b: "p < 256" "q < 256" "r < 256" "s < 256"
    by (simp_all only: p_def q_def r_def s_def octet_less)
  have d: "q div 64 < 4" "q div 16 < 16" "q * 256 + r < 65536"
    using b by (auto simp: less_mult_imp_div_less)
  have "list_ex (\<lambda>(base, len). in_cidr a base len) tunnel_blocks \<longleftrightarrow>
      p = 10 \<or> p = 172 \<and> q div 16 = 1 \<or> p = 192 \<and> q = 168 \<or> p = 100 \<and> q div 64 = 1"
    unfolding tunnel_blocks_def in_cidr_unat ipv4_new_def u32_from_be_bytes_def
    by (simp add: octet_blocks [OF a b] digit_eq [OF d(1)] digit_eq [OF d(2)] digit_eq [OF d(3)] digit_eq [OF b(2)])
  moreover have "tunnel_private a \<longleftrightarrow> p = 10 \<or> p = 172 \<and> 16 \<le> q \<and> q \<le> 31 \<or> p = 192 \<and> q = 168 \<or> p = 100 \<and> q div 64 = 1"
    unfolding tunnel_private_def v4_tests mask_c0 p_def q_def
    by (simp only: word_unat_eq_iff [of "octet _ _"] word_le_nat_alt) simp
  moreover have "q div 16 = 1 \<longleftrightarrow> 16 \<le> q \<and> q \<le> 31" by linarith
  ultimately show ?thesis by blast
qed

lemma unique_local_cidr: "in_cidr6 a 0xFC000000000000000000000000000000 7 \<longleftrightarrow> segment 0 a AND 0xFE00 = 0xFC00"
  unfolding special_masks using in_cidr6_segments [of 0 7 a "0xFC000000000000000000000000000000"] segments_v6(5) by simp

text \<open>
  Claim C25. An invite that is accepted keeps this machine's lookups and addresses inside
  the tunnel: its DNS server is an address of the client's own tunnel subnet, other
  than the client's; both lie in a private network (10/8, 172.16/12, 192.168/16) or in the
  shared address space (100.64/10), so neither is this machine itself nor on the open
  internet; an IPv6 address given is a unique local one (fc00::/7); and the node is reached over IPv4.
\<close>

theorem valid_invite_stays_inside:
  assumes "validate_invite env i = Ok ()"
  shows "\<exists>ip prefix. client_ip i = Ok (ip, prefix) \<and> 8 \<le> prefix \<and> prefix \<le> 30
      \<and> in_cidr (i_dns i) ip prefix \<and> i_dns i \<noteq> ip
      \<and> (\<forall>a\<in>{ip, i_dns i}. list_ex (\<lambda>(base, len). in_cidr a base len)
           [(ipv4_new 10 0 0 0, 8), (ipv4_new 172 16 0 0, 12), (ipv4_new 192 168 0 0, 16), (ipv4_new 100 64 0 0, 10)]
         \<and> \<not> v4_is_loopback a \<and> \<not> is_public_v4 a)
      \<and> (\<exists>v6. client_ip6 i = Ok v6 \<and> (\<forall>a p. v6 = Some (a, p) \<longrightarrow> in_cidr6 a 0xFC000000000000000000000000000000 7))
      \<and> (\<exists>v4. endpoint_ip i = Ok (V4 v4))"
proof -
  note v = validate_invite_Ok [OF assms]
  obtain ip prefix where c: "client_ip i = Ok (ip, prefix)" "8 \<le> prefix" "prefix \<le> 30" "tunnel_private ip"
    and m: "i_dns i AND push_bit (32 - prefix) 0xFFFFFFFF = ip AND push_bit (32 - prefix) 0xFFFFFFFF"
    and d: "i_dns i \<noteq> ip" "tunnel_private (i_dns i)"
    using v(1) by (rule check_dns_Ok)
  have "in_cidr (i_dns i) ip prefix" unfolding in_cidr_def by (rule mask_subnet [OF m])
  moreover obtain r where "client_ip6 i = Ok r" using v(4) by blast
  moreover have "\<exists>v4. endpoint_ip i = Ok (V4 v4)"
  proof -
    obtain a where "endpoint_addr i = Ok a" "is_ipv4 a" using v(3) by blast
    then show ?thesis by (cases "sa_ip a") (simp_all add: endpoint_ip_def is_ipv4_def)
  qed
  moreover have "\<not> v4_is_loopback a" if "tunnel_private a" for a
    using that by (auto simp: tunnel_private_def v4_is_private_def v4_is_loopback_def)
  ultimately show ?thesis
    unfolding unique_local_cidr tunnel_blocks_def [symmetric] tunnel_private_blocks [symmetric]
    using c d tunnel_private_not_public client_ip6_Some [of i] by auto
qed

definition sample_invite :: invite where
  "sample_invite = \<lparr>i_node_name = ''fi-1'', i_node_public_key = sample_node_key, i_endpoint = ''203.0.113.10:51820'',
     i_client_address = ''10.9.0.2/24'', i_client_address6 = None, i_dns = ipv4_new 10 9 0 1, i_allowed_ips = default_allowed,
     i_mtu = default_mtu, i_keepalive = default_keepalive, i_operator = Some ''alice'', i_role = Some ''both'', i_country = None,
     i_admission = Some ''open'', i_admission_port = None, i_behind = False, i_features = [SESSIONS, ADMISSION_RELAY], i_pass = None\<rparr>"

lemma sample_endpoint: "parse_socket_addr ''203.0.113.10:51820'' = Some \<lparr>sa_ip = V4 (ipv4_new 203 0 113 10), sa_port = 51820\<rparr>"
  by (simp add: parse_socket_addr_def read_ipv4_def read_octet_def read_run_def parse_octet_def is_ascii_digit_def
      dec_val_def digit_val_def read_char_def read_port_def numeral_3_eq_3 Let_def)

lemma sample_client_ip: "client_ip sample_invite = Ok (ipv4_new 10 9 0 2, 24)"
proof -
  have "split_once (CHR ''/'') ''10.9.0.2/24'' = Some (''10.9.0.2'', ''24'')" "parse_ipv4 ''10.9.0.2'' = Some (ipv4_new 10 9 0 2)"
    "parse_uint 255 ''24'' = Some 24"
    by code_simp+
  then show ?thesis by (simp add: client_ip_def sample_invite_def)
qed

lemma sample_dns: "check_dns sample_invite = Ok ()"
  unfolding check_dns_def sample_client_ip bind_result_simps
  by (simp add: sample_invite_def) code_simp

lemma sample_invite_valid: "validate_invite sample_env sample_invite = Ok ()"
proof -
  have "public_key_from_base64 sample_env (i_node_public_key sample_invite) = Ok (replicate 32 9)"
    unfolding sample_invite_def invite.simps sample_node_key_def by (rule key_roundtrip(2) [OF sample_env_ok(1)]) simp
  moreover have "endpoint_addr sample_invite = Ok \<lparr>sa_ip = V4 (ipv4_new 203 0 113 10), sa_port = 51820\<rparr>"
    by (simp add: endpoint_addr_def sample_invite_def sample_endpoint)
  moreover have "client_ip6 sample_invite = Ok None" "i_country sample_invite = None" "i_mtu sample_invite = 1420"
    by (simp_all add: client_ip6_def sample_invite_def default_mtu_def)
  ultimately show ?thesis
    by (simp add: validate_invite_def validate_shape_def is_ipv4_def sample_client_ip check_country_def sample_dns)
qed

theorem valid_invite_stays_inside_witness:
  "validate_invite sample_env sample_invite = Ok () \<and> \<not> is_public_v4 (i_dns sample_invite)"
  using valid_invite_stays_inside [OF sample_invite_valid] sample_invite_valid by blast

text \<open>
  No key is shown both from this machine's own address and behind an entry: for
  one invite, a tunnel that shows its key directly and one that shows it behind an
  entry never show the same key, and an invite won with a pass is shown one way only. The key of a pass is shown only the way the pass was
  redeemed, and never when that is not known; without a pass the two keys are
  derived with two salts, which HKDF keeps apart.
\<close>

theorem node_key_one_way:
  assumes "\<And>k n. hkdf_sha256 env PER_NODE_SALT k n \<noteq> hkdf_sha256 env BEHIND_SALT k n"
  shows "node_key env \<lparr>cc_invite = i, cc_key = key, cc_shown = Direct\<rparr> = Ok k \<longrightarrow>
         node_key env \<lparr>cc_invite = i, cc_key = key, cc_shown = Behind\<rparr> = Ok k' \<longrightarrow> k \<noteq> k' \<and> i_pass i = None"
proof (intro impI)
  assume d: "node_key env \<lparr>cc_invite = i, cc_key = key, cc_shown = Direct\<rparr> = Ok k"
    and b: "node_key env \<lparr>cc_invite = i, cc_key = key, cc_shown = Behind\<rparr> = Ok k'"
  have none: "i_pass i = None"
    using d b by (cases "i_pass i") (auto simp: node_key_def binding_direct_def split: if_splits)
  have "\<exists>n. k = hkdf_sha256 env PER_NODE_SALT key n \<and> k' = hkdf_sha256 env BEHIND_SALT key n"
    using d b none by (auto simp: node_key_def lift_bad_key_def for_node_base64_def for_node_behind_base64_def
        key_for_node_def for_node_behind_def derive_def split: sum.splits)
  with assms none show "k \<noteq> k' \<and> i_pass i = None" by auto
qed

definition salted_env :: pass_env where
  "salted_env = sample_env\<lparr>hkdf_sha256 := (\<lambda>salt k info. salt @ k @ info)\<rparr>"

theorem node_key_one_way_witness:
  "node_key salted_env \<lparr>cc_invite = sample_invite, cc_key = [1], cc_shown = Direct\<rparr> = Ok (PER_NODE_SALT @ [1] @ replicate 32 9)
   \<and> node_key salted_env \<lparr>cc_invite = sample_invite, cc_key = [1], cc_shown = Behind\<rparr> = Ok (BEHIND_SALT @ [1] @ replicate 32 9)
   \<and> PER_NODE_SALT @ [1] @ replicate 32 9 \<noteq> BEHIND_SALT @ [1] @ replicate 32 9"
proof -
  have "b64_ok salted_env" using sample_env_ok(1) by (simp add: b64_ok_def salted_env_def)
  then have p: "public_key_from_base64 salted_env (b64_encode sample_env (replicate 32 9)) = Ok (replicate 32 9)"
    using key_roundtrip(2) [of salted_env "replicate 32 9"] by (simp add: salted_env_def)
  have salts: "PER_NODE_SALT \<noteq> BEHIND_SALT" "length PER_NODE_SALT = 24" "length BEHIND_SALT = 31"
    by (simp_all add: PER_NODE_SALT_def BEHIND_SALT_def ascii_bytes_def)
  have neq: "hkdf_sha256 salted_env PER_NODE_SALT k n \<noteq> hkdf_sha256 salted_env BEHIND_SALT k n" for k n
    using salts by (auto simp: salted_env_def dest: arg_cong [where f = length])
  have d: "node_key salted_env \<lparr>cc_invite = sample_invite, cc_key = [1], cc_shown = Direct\<rparr> = Ok (PER_NODE_SALT @ [1] @ replicate 32 9)"
    "node_key salted_env \<lparr>cc_invite = sample_invite, cc_key = [1], cc_shown = Behind\<rparr> = Ok (BEHIND_SALT @ [1] @ replicate 32 9)"
    using p by (simp_all add: node_key_def sample_invite_def sample_node_key_def for_node_base64_def for_node_behind_base64_def
        key_for_node_def for_node_behind_def derive_def lift_bad_key_def)
      (simp_all add: salted_env_def)
  with node_key_one_way [where env = salted_env and i = sample_invite and key = "[1]", OF neq] show ?thesis by blast
qed

end
