(* ===== verification/Pocket.thy ===== *)
theory Pocket
  imports Invite "HOL-Library.List_Lexorder" "HOL-Library.Char_ord" "HOL-Library.Multiset"
begin

text \<open>
  The pocket (\<^verbatim>\<open>hidravpn-core/src/pocket.rs\<close>): the entries and exits a client holds
  invites for and the nodes it knows from signed lists, how they are added, learnt,
  refreshed, replaced and removed, and how one or two hops are picked. The uniform
  choice of \<^verbatim>\<open>random.rs\<close> is a loop over draws of the operating system, given as a list:
  \<open>None\<close> as a result means that every draw of the list was rejected, so that more are
  needed. Strings are sorted bytewise, as Rust sorts them.

  The lemmas say that no reachable pocket holds a node twice in a list or as known and
  admitted at once, and that the two hops picked are two nodes, of two operators
  unless that was given up, with an exit that was not just leased by hand to the one-hop key,
  and that two such hops are found whatever is drawn.
\<close>

section \<open>Random choice\<close>

datatype pocket_error = NothingToChoose | NoRandomBytes | InvalidInvite invite_error | NoNodeName | NameTaken
  | AlreadyInList | AlreadyAdmitted | AlreadyKnown | NoOneHop nat | NoEntry nat | NoExit bool nat
  | SameNodes | NoRelay | SameOperators

fun index_loop :: "nat \<Rightarrow> nat \<Rightarrow> 64 word option list \<Rightarrow> (pocket_error + nat) option" where
  "index_loop zone n [] = None"
| "index_loop zone n (d # ds) = (case d of
      None \<Rightarrow> Some (Err NoRandomBytes)
    | Some r \<Rightarrow> if unat r < zone then Some (Ok (unat r mod n)) else index_loop zone n ds)"

definition random_index :: "64 word option list \<Rightarrow> nat \<Rightarrow> (pocket_error + nat) option" where
  "random_index draws n =
     (if n = 0 then Some (Err NothingToChoose)
      else index_loop (U64_MAX - U64_MAX mod n) n draws)"

definition index_other_than :: "64 word option list \<Rightarrow> nat \<Rightarrow> nat \<Rightarrow> (pocket_error + nat option) option" where
  "index_other_than draws n other =
     (if n \<le> 1 \<or> n \<le> other
      then Some (Ok (if n = 0 then None else if 0 \<noteq> other then Some 0 else None))
      else map_option (\<lambda>r. bind_result r (\<lambda>r. Ok (Some (if other \<le> r then r + 1 else r)))) (random_index draws (n - 1)))"

section \<open>The pocket\<close>

record pass_issuer =
  pi_url :: string
  pi_keys :: "pass_key_record list"
  pi_wallet :: "string option"
  pi_mint :: "string option"

record pocket =
  entries :: "invite list"
  exits :: "invite list"
  known :: "node_record list"
  list_sequence :: nat
  pocket_issuer :: "pass_issuer option"

definition empty_pocket :: pocket where
  "empty_pocket = \<lparr>entries = [], exits = [], known = [], list_sequence = 0, pocket_issuer = None\<rparr>"

datatype slot = Entry | Exit

abbreviation i_key :: "invite \<Rightarrow> string" where
  "i_key i \<equiv> trim (i_node_public_key i)"

abbreviation r_key :: "node_record \<Rightarrow> string" where
  "r_key r \<equiv> trim (nr_node_public_key r)"

definition pocket_iter :: "pocket \<Rightarrow> (slot \<times> invite) list" where
  "pocket_iter p = map (Pair Entry) (entries p) @ map (Pair Exit) (exits p)"

definition slot_list :: "slot \<Rightarrow> pocket \<Rightarrow> invite list" where
  "slot_list s p = (case s of Entry \<Rightarrow> entries p | Exit \<Rightarrow> exits p)"

definition set_slot :: "slot \<Rightarrow> invite list \<Rightarrow> pocket \<Rightarrow> pocket" where
  "set_slot s l p = (case s of Entry \<Rightarrow> p\<lparr>entries := l\<rparr> | Exit \<Rightarrow> p\<lparr>exits := l\<rparr>)"

definition slots_for_role :: "string option \<Rightarrow> slot list" where
  "slots_for_role role =
     (if map_option (\<lambda>r. to_ascii_lowercase (trim r)) role = Some ''entry'' then [Entry]
      else if map_option (\<lambda>r. to_ascii_lowercase (trim r)) role = Some ''exit'' then [Exit]
      else [Entry, Exit])"

definition pocket_valid_shape :: "'a key_env_scheme \<Rightarrow> pocket \<Rightarrow> bool" where
  "pocket_valid_shape env p = list_all (\<lambda>i. is_ok (validate_shape env i)) (entries p @ exits p)"

definition pocket_add :: "'a key_env_scheme \<Rightarrow> slot \<Rightarrow> invite \<Rightarrow> pocket \<Rightarrow> pocket \<times> (pocket_error + unit)" where
  "pocket_add env s invt p = (case validate_invite env invt of
      Err e \<Rightarrow> (p, Err (InvalidInvite e))
    | Ok _ \<Rightarrow>
        (let name = trim (i_node_name invt)
         in if name = [] then (p, Err NoNodeName)
            else if list_ex (\<lambda>(_, i). trim (i_node_name i) = name \<and> i_key i \<noteq> i_key invt) (pocket_iter p)
            then (p, Err NameTaken)
            else if list_ex (\<lambda>i. i_key i = i_key invt) (slot_list s p) then (p, Err AlreadyInList)
            else ((set_slot s (slot_list s p @ [invt]) p)\<lparr>known := filter (\<lambda>k. r_key k \<noteq> i_key invt) (known p)\<rparr>, Ok ())))"

definition learn :: "'a key_env_scheme \<Rightarrow> node_record \<Rightarrow> pocket \<Rightarrow> pocket \<times> (pocket_error + unit)" where
  "learn env r p = (case validate_record env r of
      Err e \<Rightarrow> (p, Err (InvalidInvite e))
    | Ok _ \<Rightarrow>
        (if list_ex (\<lambda>(_, i). i_key i = r_key r) (pocket_iter p) then (p, Err AlreadyAdmitted)
         else if list_ex (\<lambda>k. r_key k = r_key r) (known p) then (p, Err AlreadyKnown)
         else (p\<lparr>known := known p @ [r]\<rparr>, Ok ())))"

definition known_changes :: "node_record \<Rightarrow> node_record \<Rightarrow> string list" where
  "known_changes k r = map fst (filter snd
     [(''name'', trim (nr_node_name k) \<noteq> trim (nr_node_name r)), (''endpoint'', trim (nr_endpoint k) \<noteq> trim (nr_endpoint r)),
      (''operator'', nr_operator k \<noteq> nr_operator r), (''contact'', nr_contact k \<noteq> nr_contact r), (''role'', nr_role k \<noteq> nr_role r),
      (''admission'', nr_admission k \<noteq> nr_admission r), (''admission port'', nr_admission_port k \<noteq> nr_admission_port r),
      (''country'', nr_country k \<noteq> nr_country r)])"

definition invite_changes :: "bool \<Rightarrow> node_record \<Rightarrow> invite \<Rightarrow> string list" where
  "invite_changes name_taken r i = map fst (filter snd
     [(''endpoint'', trim (i_endpoint i) \<noteq> trim (nr_endpoint r)), (''operator'', i_operator i \<noteq> nr_operator r),
      (''role'', i_role i \<noteq> nr_role r), (''country'', i_country i \<noteq> nr_country r),
      (''admission'', i_admission i \<noteq> nr_admission r \<or> i_admission_port i \<noteq> nr_admission_port r),
      (''features'', i_features i \<noteq> nr_features r),
      (''name'', \<not> name_taken \<and> trim (i_node_name i) \<noteq> trim (nr_node_name r))])"

definition refresh_invite :: "bool \<Rightarrow> node_record \<Rightarrow> invite \<Rightarrow> invite" where
  "refresh_invite name_taken r i =
     i\<lparr>i_endpoint := (if trim (i_endpoint i) \<noteq> trim (nr_endpoint r) then nr_endpoint r else i_endpoint i),
       i_operator := nr_operator r, i_role := nr_role r, i_country := nr_country r,
       i_admission := nr_admission r, i_admission_port := nr_admission_port r, i_features := nr_features r,
       i_node_name := (if \<not> name_taken \<and> trim (i_node_name i) \<noteq> trim (nr_node_name r) then nr_node_name r else i_node_name i)\<rparr>"

definition slot_name :: "slot \<Rightarrow> string" where
  "slot_name s = (case s of Entry \<Rightarrow> ''entry'' | Exit \<Rightarrow> ''exit'')"

text \<open>One slot follows the role the list gives.\<close>

definition follow_role :: "slot list \<Rightarrow> string \<Rightarrow> invite option \<Rightarrow> slot \<Rightarrow> pocket \<times> string list \<Rightarrow> pocket \<times> string list" where
  "follow_role allowed key copy s = (\<lambda>(p, changed).
     let has = list_ex (\<lambda>i. i_key i = key) (slot_list s p)
     in if s \<in> set allowed \<and> \<not> has then
          (case copy of
             Some invt \<Rightarrow> (set_slot s (slot_list s p @ [invt]) p, changed @ [''now also an '' @ slot_name s])
           | None \<Rightarrow> (p, changed))
        else if s \<notin> set allowed \<and> has then
          (set_slot s (filter (\<lambda>i. i_key i \<noteq> key) (slot_list s p)) p, changed @ [''no longer an '' @ slot_name s])
        else (p, changed))"

definition refresh_admitted :: "node_record \<Rightarrow> pocket \<Rightarrow> pocket \<times> string list" where
  "refresh_admitted r p =
     (let key = r_key r;
          name_taken = list_ex (\<lambda>(_, i). trim (i_node_name i) = trim (nr_node_name r) \<and> i_key i \<noteq> key) (pocket_iter p);
          upd = map (\<lambda>i. if i_key i = key then refresh_invite name_taken r i else i);
          changed = concat (map (invite_changes name_taken r) (filter (\<lambda>i. i_key i = key) (entries p @ exits p)));
          p = p\<lparr>entries := upd (entries p), exits := upd (exits p)\<rparr>;
          changed = remdups_adj (sort changed)
      in if nr_role r = None then (p, changed)
         else
           (let allowed = slots_for_role (nr_role r);
                copy = map_option snd (find (\<lambda>(_, i). i_key i = key) (pocket_iter p))
            in follow_role allowed key copy Exit (follow_role allowed key copy Entry (p, changed))))"

definition refresh :: "node_record \<Rightarrow> pocket \<Rightarrow> pocket \<times> string list" where
  "refresh r p = (case position (\<lambda>k. r_key k = r_key r) (known p) of
      Some n \<Rightarrow>
        (let changed = known_changes (known p ! n) r
         in (if changed \<noteq> [] then p\<lparr>known := (known p)[n := r]\<rparr> else p, changed))
    | None \<Rightarrow>
        (if \<not> list_ex (\<lambda>(_, i). i_key i = r_key r) (pocket_iter p) then (p, []) else refresh_admitted r p))"

definition pocket_remove :: "string \<Rightarrow> pocket \<Rightarrow> pocket \<times> nat" where
  "pocket_remove name p =
     (let before = length (entries p) + length (exits p) + length (known p);
          p' = p\<lparr>entries := filter (\<lambda>i. trim (i_node_name i) \<noteq> trim name) (entries p),
                 exits := filter (\<lambda>i. trim (i_node_name i) \<noteq> trim name) (exits p),
                 known := filter (\<lambda>k. trim (nr_node_name k) \<noteq> trim name) (known p)\<rparr>
      in (p', before - length (entries p') - length (exits p') - length (known p')))"

definition remove_by_key :: "string \<Rightarrow> pocket \<Rightarrow> pocket \<times> string list" where
  "remove_by_key key p =
     (let names = map (\<lambda>(_, i). i_node_name i) (filter (\<lambda>(_, i). i_key i = trim key) (pocket_iter p))
            @ map nr_node_name (filter (\<lambda>k. r_key k = trim key) (known p))
      in (p\<lparr>entries := filter (\<lambda>i. i_key i \<noteq> trim key) (entries p), exits := filter (\<lambda>i. i_key i \<noteq> trim key) (exits p),
            known := filter (\<lambda>k. r_key k \<noteq> trim key) (known p)\<rparr>, remdups_adj (sort names)))"

definition joinable :: "pocket \<Rightarrow> node_record list" where
  "joinable p = filter (\<lambda>k. record_is_open k \<or> record_takes_passes k) (known p)"

definition asks_by_name :: "string \<Rightarrow> node_record \<Rightarrow> bool" where
  "asks_by_name n r = eq_ignore_ascii_case (trim n) (trim (nr_node_name r))"

definition join_targets :: "pocket \<Rightarrow> string option \<Rightarrow> node_record list \<times> string list" where
  "join_targets p name =
     (let entry_only = (\<lambda>r. name = None \<and> record_is_open r \<and> slots_for_role (nr_role r) = [Entry]);
          asked = filter (\<lambda>r. case name of Some n \<Rightarrow> asks_by_name n r | None \<Rightarrow> True) (joinable p)
      in (filter (\<lambda>r. \<not> entry_only r) asked, map nr_node_name (filter entry_only asked)))"

definition replace_in :: "bool \<Rightarrow> invite \<Rightarrow> invite \<Rightarrow> invite" where
  "replace_in keeps_direct invt i =
     (if i_key i = i_key invt \<and> \<not> (keeps_direct \<and> direct_pass i \<noteq> None) then invt else i)"

fun add_all :: "'a key_env_scheme \<Rightarrow> slot list \<Rightarrow> invite \<Rightarrow> pocket \<Rightarrow> pocket \<times> (pocket_error + unit)" where
  "add_all env [] invt p = (p, Ok ())"
| "add_all env (s # ss) invt p = (case pocket_add env s invt p of
      (p, Err e) \<Rightarrow> (p, Err e)
    | (p, Ok _) \<Rightarrow> add_all env ss invt p)"

definition pocket_replace :: "'a key_env_scheme \<Rightarrow> invite \<Rightarrow> pocket \<Rightarrow> pocket \<times> (pocket_error + unit)" where
  "pocket_replace env invt p = (case validate_invite env invt of
      Err e \<Rightarrow> (p, Err (InvalidInvite e))
    | Ok _ \<Rightarrow>
        (let keeps_direct = (i_pass invt \<noteq> None \<and> direct_pass invt = None);
             placed = list_ex (\<lambda>i. i_key i = i_key invt) (entries p @ exits p);
             p = p\<lparr>entries := map (replace_in keeps_direct invt) (entries p), exits := map (replace_in keeps_direct invt) (exits p)\<rparr>
         in case (if placed then (p, Ok ()) else add_all env (slots_for_role (i_role invt)) invt p) of
              (p, Err e) \<Rightarrow> (p, Err e)
            | (p, Ok _) \<Rightarrow> (p\<lparr>known := filter (\<lambda>k. r_key k \<noteq> i_key invt) (known p)\<rparr>, Ok ())))"

section \<open>Picking the hops\<close>

definition stand_in :: "node_record \<Rightarrow> invite" where
  "stand_in r = \<lparr>i_node_name = nr_node_name r, i_node_public_key = nr_node_public_key r, i_endpoint = nr_endpoint r,
     i_client_address = ''0.0.0.0/32'', i_client_address6 = None, i_dns = 0, i_allowed_ips = [''0.0.0.0/0'', ''::/0''],
     i_mtu = 1420, i_keepalive = 25, i_operator = nr_operator r, i_role = nr_role r, i_country = nr_country r,
     i_admission = nr_admission r, i_admission_port = nr_admission_port r, i_behind = False, i_features = nr_features r,
     i_pass = None\<rparr>"

fun gather :: "invite list \<Rightarrow> invite list \<Rightarrow> nat \<Rightarrow> invite list \<times> nat" where
  "gather [] out outdated = (out, outdated)"
| "gather (c # cs) out outdated =
     (if list_ex (\<lambda>o'. i_key o' = i_key c) out then gather cs out outdated
      else if admits_openly c \<and> \<not> admits_sessions c then gather cs out (outdated + 1)
      else gather cs (out @ [c]) outdated)"

definition candidates :: "slot \<Rightarrow> (invite \<Rightarrow> bool) \<Rightarrow> pocket \<Rightarrow> invite list \<times> nat" where
  "candidates s accept p =
     gather (filter accept (slot_list s p)
       @ map stand_in (filter (\<lambda>r. s \<in> set (slots_for_role (nr_role r))) (joinable p))) [] 0"

definition rapido_exits :: "pocket \<Rightarrow> invite list \<times> nat" where
  "rapido_exits p = candidates Exit (\<lambda>i. \<not> i_behind i) p"

definition privado_entries :: "pocket \<Rightarrow> invite list \<times> nat" where
  "privado_entries p = candidates Entry (\<lambda>_. True) p"

definition privado_exits :: "pocket \<Rightarrow> invite list \<times> nat" where
  "privado_exits p = candidates Exit (\<lambda>i. i_behind i \<or> admits_openly i \<or> takes_passes i) p"

record pick =
  pk_exit :: invite
  pk_entry :: "invite option"
  pk_other_exits :: "invite list"
  pk_other_entries :: "invite list"
  pk_same_operator :: "bool option"

definition pick_rapido :: "64 word option list \<Rightarrow> pocket \<Rightarrow> (pocket_error + pick) option" where
  "pick_rapido draws p = (case rapido_exits p of (xs, outdated) \<Rightarrow>
     if xs = [] then Some (Err (NoOneHop outdated))
     else map_option (\<lambda>r. bind_result r (\<lambda>n. Ok \<lparr>pk_exit = xs ! n, pk_entry = None, pk_other_exits = remove_at n xs,
            pk_other_entries = [], pk_same_operator = None\<rparr>)) (random_index draws (length xs)))"

definition same_node :: "invite \<Rightarrow> invite \<Rightarrow> bool" where
  "same_node a b \<longleftrightarrow> i_key a = i_key b
     \<or> (case (endpoint_ip a, endpoint_ip b) of (Ok x, Ok y) \<Rightarrow> x = y | _ \<Rightarrow> False)"

definition same_operator :: "invite \<Rightarrow> invite \<Rightarrow> bool option" where
  "same_operator a b = (case (i_operator a, i_operator b) of
      (Some x, Some y) \<Rightarrow>
        (if trim x \<noteq> [] \<and> trim y \<noteq> [] then Some (eq_ignore_ascii_case (trim x) (trim y)) else None)
    | _ \<Rightarrow> None)"

definition pair_allowed :: "invite \<Rightarrow> invite \<Rightarrow> bool \<Rightarrow> bool" where
  "pair_allowed entry exit allow_same_operator \<longleftrightarrow> allow_same_operator \<or> same_operator entry exit = Some False"

definition on_relayed_port :: "invite \<Rightarrow> bool" where
  "on_relayed_port exit \<longleftrightarrow>
     (case i_admission_port exit of Some p \<Rightarrow> p | None \<Rightarrow> DEFAULT_ADMISSION_PORT) = DEFAULT_ADMISSION_PORT"

definition on_forwarded_port :: "invite \<Rightarrow> bool" where
  "on_forwarded_port exit = (case endpoint_addr exit of Ok a \<Rightarrow> sa_port a = DEFAULT_WIREGUARD_PORT | Err _ \<Rightarrow> False)"

definition entry_can_reach :: "invite \<Rightarrow> invite \<Rightarrow> bool" where
  "entry_can_reach entry exit \<longleftrightarrow> on_forwarded_port exit
     \<and> (\<not> (admits_openly exit \<or> takes_passes exit) \<or> invite_has entry ADMISSION_RELAY \<and> on_relayed_port exit)"

definition pick_privado :: "64 word option list \<Rightarrow> bool \<Rightarrow> pocket \<Rightarrow> (pocket_error + pick) option" where
  "pick_privado draws allow_same_operator p =
     (case privado_entries p of (es, entries_outdated) \<Rightarrow>
      if es = [] then Some (Err (NoEntry entries_outdated))
      else (case privado_exits p of (xs, exits_outdated) \<Rightarrow>
        if xs = [] then
          Some (Err (NoExit (list_ex (\<lambda>i. \<not> i_behind i \<and> \<not> admits_openly i) (exits p) \<and> exits_outdated = 0) exits_outdated))
        else
          (let pairs = filter (\<lambda>(e, x). \<not> same_node (es ! e) (xs ! x))
                 (concat (map (\<lambda>e. map (\<lambda>x. (e, x)) [0..<length xs]) [0..<length es]));
               relayed = filter (\<lambda>(e, x). entry_can_reach (es ! e) (xs ! x)) pairs;
               allowed = filter (\<lambda>(e, x). pair_allowed (es ! e) (xs ! x) allow_same_operator) relayed
           in if pairs = [] then Some (Err SameNodes)
              else if relayed = [] then Some (Err NoRelay)
              else if allowed = [] then Some (Err SameOperators)
              else map_option (\<lambda>r. bind_result r (\<lambda>n. case allowed ! n of (e, x) \<Rightarrow>
                     Ok \<lparr>pk_exit = xs ! x, pk_entry = Some (es ! e), pk_other_exits = remove_at x xs,
                         pk_other_entries = remove_at e es, pk_same_operator = same_operator (es ! e) (xs ! x)\<rparr>))
                   (random_index draws (length allowed)))))"

section \<open>No node twice\<close>

definition pocket_inv :: "pocket \<Rightarrow> bool" where
  "pocket_inv p \<longleftrightarrow> distinct (map i_key (entries p)) \<and> distinct (map i_key (exits p)) \<and> distinct (map r_key (known p))
     \<and> r_key ` set (known p) \<inter> i_key ` (set (entries p) \<union> set (exits p)) = {}"

lemma list_ex_pocket: "list_ex (\<lambda>(_, i). P i) (pocket_iter p) \<longleftrightarrow> (\<exists>i\<in>set (entries p) \<union> set (exits p). P i)"
  by (force simp: pocket_iter_def list_ex_iff)

lemma find_SomeD: "find P xs = Some x \<Longrightarrow> x \<in> set xs \<and> P x"
  by (auto simp: find_Some_iff)

lemma pocket_inv_empty: "pocket_inv empty_pocket"
  by (simp add: pocket_inv_def empty_pocket_def)

lemma pocket_inv_filter:
  assumes "pocket_inv p"
  shows "pocket_inv (p\<lparr>entries := filter P (entries p), exits := filter Q (exits p), known := filter R (known p)\<rparr>)"
  using assms unfolding pocket_inv_def by (auto simp: distinct_map_filter)

lemma filter_True_id: "filter (\<lambda>_. True) xs = xs"
  by simp

lemma pocket_inv_known: "pocket_inv p \<Longrightarrow> pocket_inv (p\<lparr>known := filter R (known p)\<rparr>)"
  using pocket_inv_filter [where P = "\<lambda>_. True" and Q = "\<lambda>_. True" and R = R] by simp

lemma pocket_inv_put:
  assumes "pocket_inv p" "i_key i \<notin> i_key ` set (slot_list s p)"
  shows "pocket_inv ((set_slot s (slot_list s p @ [i]) p)\<lparr>known := filter (\<lambda>k. r_key k \<noteq> i_key i) (known p)\<rparr>)"
  using assms unfolding pocket_inv_def by (cases s) (auto simp: set_slot_def slot_list_def distinct_map_filter)

lemma pocket_inv_add: "pocket_inv p \<Longrightarrow> pocket_inv (fst (pocket_add env s i p))"
  by (auto simp: pocket_add_def Let_def list_ex_iff split: sum.splits intro!: pocket_inv_put)

lemma pocket_inv_learn: "pocket_inv p \<Longrightarrow> pocket_inv (fst (learn env r p))"
  unfolding pocket_inv_def learn_def list_ex_pocket by (auto simp: list_ex_iff split: sum.splits)

lemma pocket_inv_remove: "pocket_inv p \<Longrightarrow> pocket_inv (fst (pocket_remove name p))"
  unfolding pocket_remove_def Let_def fst_conv by (rule pocket_inv_filter)

lemma pocket_inv_remove_by_key: "pocket_inv p \<Longrightarrow> pocket_inv (fst (remove_by_key key p))"
  unfolding remove_by_key_def Let_def fst_conv by (rule pocket_inv_filter)

lemma pocket_inv_map:
  assumes "pocket_inv p" "\<And>i. i_key (f i) = i_key i"
  shows "pocket_inv (p\<lparr>entries := map f (entries p), exits := map f (exits p)\<rparr>)"
  using assms(1) unfolding pocket_inv_def by (simp add: comp_def image_image image_Un assms(2))

lemma pocket_inv_add_all: "pocket_inv p \<Longrightarrow> pocket_inv (fst (add_all env ss i p))"
proof (induction ss arbitrary: p)
  case (Cons s ss)
  obtain p' r where e: "pocket_add env s i p = (p', r)" by (cases "pocket_add env s i p")
  with pocket_inv_add [OF Cons.prems, of env s i] Cons.IH [of p'] show ?case by (cases r) auto
qed simp

lemma pocket_inv_replace: "pocket_inv p \<Longrightarrow> pocket_inv (fst (pocket_replace env i p))"
proof -
  assume p: "pocket_inv p"
  let ?kd = "i_pass i \<noteq> None \<and> direct_pass i = None"
  let ?p = "p\<lparr>entries := map (replace_in ?kd i) (entries p), exits := map (replace_in ?kd i) (exits p)\<rparr>"
  have 1: "pocket_inv ?p" using p by (rule pocket_inv_map) (simp add: replace_in_def)
  let ?q = "if list_ex (\<lambda>x. i_key x = i_key i) (entries p @ exits p) then (?p, Ok ()) else add_all env (slots_for_role (i_role i)) i ?p"
  have 2: "pocket_inv (fst ?q)"
    by (cases "list_ex (\<lambda>x. i_key x = i_key i) (entries p @ exits p)")
      (simp_all only: if_True if_False fst_conv 1 pocket_inv_add_all [OF 1])
  obtain q r where q: "?q = (q, r)" by (cases ?q)
  have "fst (pocket_replace env i p) \<in> {p, q, q\<lparr>known := filter (\<lambda>k. r_key k \<noteq> i_key i) (known q)\<rparr>}"
    unfolding pocket_replace_def Let_def q by (auto split: sum.splits)
  with p 2 q pocket_inv_known [of q] show ?thesis by auto
qed

lemma follow_role_inv:
  assumes "pocket_inv p" "copy = None \<or> (\<exists>c. copy = Some c \<and> i_key c = key)" "key \<notin> r_key ` set (known p)"
  shows "pocket_inv (fst (follow_role allowed key copy s (p, changed)))"
    "known (fst (follow_role allowed key copy s (p, changed))) = known p"
  using assms unfolding pocket_inv_def
  by (cases s; auto simp: follow_role_def Let_def set_slot_def slot_list_def list_ex_iff distinct_map_filter split: option.splits)+

lemma refresh_key [simp]: "i_key (refresh_invite t r i) = i_key i"
  by (simp add: refresh_invite_def)

lemma pocket_inv_refresh_admitted:
  assumes "pocket_inv p" "r_key r \<notin> r_key ` set (known p)"
  shows "pocket_inv (fst (refresh_admitted r p))"
proof -
  define t where "t = list_ex (\<lambda>(_, i). trim (i_node_name i) = trim (nr_node_name r) \<and> i_key i \<noteq> r_key r) (pocket_iter p)"
  define f where "f = (\<lambda>i. if i_key i = r_key r then refresh_invite t r i else i)"
  define q where "q = p\<lparr>entries := map f (entries p), exits := map f (exits p)\<rparr>"
  define c where "c = map_option snd (find (\<lambda>(_, i). i_key i = r_key r) (pocket_iter q))"
  have q: "pocket_inv q" "known q = known p"
    unfolding q_def by (rule pocket_inv_map [OF assms(1)]) (simp_all add: f_def)
  have c: "c = None \<or> (\<exists>x. c = Some x \<and> i_key x = r_key r)"
    unfolding c_def by (cases "find (\<lambda>(_, i). i_key i = r_key r) (pocket_iter q)") (auto dest: find_SomeD)
  note step = follow_role_inv [OF _ c]
  show ?thesis
  proof (cases "nr_role r")
    case None
    with q(1) show ?thesis
      unfolding refresh_admitted_def Let_def t_def [symmetric] by (simp add: q_def f_def)
  next
    case (Some role)
    obtain ch where "fst (refresh_admitted r p) =
        fst (follow_role (slots_for_role (nr_role r)) (r_key r) c Exit (follow_role (slots_for_role (nr_role r)) (r_key r) c Entry (q, ch)))"
      using Some unfolding refresh_admitted_def Let_def t_def [symmetric] by (simp add: q_def f_def c_def)
    moreover obtain q' ch' where e: "follow_role (slots_for_role (nr_role r)) (r_key r) c Entry (q, ch) = (q', ch')"
      by (cases "follow_role (slots_for_role (nr_role r)) (r_key r) c Entry (q, ch)")
    moreover have "pocket_inv q'" "known q' = known p"
      using step [OF q(1), of "slots_for_role (nr_role r)" Entry ch] e assms(2) q(2) by simp_all
    ultimately show ?thesis using step [of q' "slots_for_role (nr_role r)" Exit ch'] assms(2) by simp
  qed
qed

lemma map_same_update: "g x = g (xs ! n) \<Longrightarrow> map g (xs[n := x]) = map g xs"
  by (metis list_update_id map_update)

lemma pocket_inv_refresh: "pocket_inv p \<Longrightarrow> pocket_inv (fst (refresh r p))"
proof (cases "position (\<lambda>k. r_key k = r_key r) (known p)")
  case None
  assume p: "pocket_inv p"
  have "r_key r \<notin> r_key ` set (known p)" using None by auto
  from pocket_inv_refresh_admitted [OF p this] p show ?thesis unfolding refresh_def None option.case by simp
next
  case (Some n)
  assume p: "pocket_inv p"
  from Some have "r_key r = r_key (known p ! n)" by (auto dest: position_Some)
  then have "map r_key ((known p)[n := r]) = map r_key (known p)" by (rule map_same_update)
  moreover from this have "r_key ` set ((known p)[n := r]) = r_key ` set (known p)" by (metis set_map)
  ultimately have "pocket_inv (p\<lparr>known := (known p)[n := r]\<rparr>)" using p unfolding pocket_inv_def by simp
  with p Some show ?thesis by (simp add: refresh_def Let_def)
qed

section \<open>What is picked\<close>

lemma index_loop_less: "index_loop zone n ds = Some (Ok i) \<Longrightarrow> 0 < n \<Longrightarrow> i < n"
  by (induction ds) (auto split: option.splits if_splits)

lemma random_index_less: "random_index draws n = Some (Ok i) \<Longrightarrow> i < n"
  by (auto simp: random_index_def dest: index_loop_less split: if_splits)

lemma mset_remove_at: "n < length xs \<Longrightarrow> add_mset (xs ! n) (mset (remove_at n xs)) = mset xs"
  by (metis add_mset_add_single id_take_nth_drop mset.simps(2) mset_append remove_at_def union_mset_add_mset_right)

lemma gather_set:
  "set (fst (gather cs out k)) \<subseteq> set out \<union> {c \<in> set cs. admits_openly c \<longrightarrow> admits_sessions c}"
  by (induction cs out k rule: gather.induct) (auto 4 3)

lemma stand_in_admission [simp]:
  "admits_openly (stand_in r) = record_is_open r" "takes_passes (stand_in r) = record_takes_passes r"
  by (simp_all add: stand_in_def admits_openly_def record_is_open_def takes_passes_def record_takes_passes_def)

lemma privado_exits_behind:
  "x \<in> set (fst (privado_exits p)) \<Longrightarrow> i_behind x \<or> admits_sessions x \<or> takes_passes x"
  unfolding privado_exits_def candidates_def using gather_set by (fastforce simp: joinable_def)

lemma same_nodeD:
  "\<not> same_node a b \<Longrightarrow> i_key a \<noteq> i_key b \<and> (\<forall>x y. endpoint_ip a = Ok x \<longrightarrow> endpoint_ip b = Ok y \<longrightarrow> x \<noteq> y)"
  by (auto simp: same_node_def)

definition good_pair :: "pocket \<Rightarrow> bool \<Rightarrow> invite \<Rightarrow> invite \<Rightarrow> bool" where
  "good_pair p allow e x \<longleftrightarrow> e \<in> set (fst (privado_entries p)) \<and> x \<in> set (fst (privado_exits p))
     \<and> \<not> same_node e x \<and> entry_can_reach e x \<and> pair_allowed e x allow"

definition good_indices :: "pocket \<Rightarrow> bool \<Rightarrow> (nat \<times> nat) list" where
  "good_indices p allow = (let es = fst (privado_entries p); xs = fst (privado_exits p) in
     filter (\<lambda>(e, x). pair_allowed (es ! e) (xs ! x) allow) (filter (\<lambda>(e, x). entry_can_reach (es ! e) (xs ! x))
       (filter (\<lambda>(e, x). \<not> same_node (es ! e) (xs ! x))
         (concat (map (\<lambda>e. map (\<lambda>x. (e, x)) [0..<length xs]) [0..<length es])))))"

lemma good_indices_iff:
  "(e, x) \<in> set (good_indices p allow) \<longleftrightarrow> e < length (fst (privado_entries p)) \<and> x < length (fst (privado_exits p))
     \<and> good_pair p allow (fst (privado_entries p) ! e) (fst (privado_exits p) ! x)"
  by (auto simp: good_indices_def good_pair_def Let_def image_iff)

lemma pick_privado_good:
  assumes "good_indices p allow \<noteq> []"
  shows "pick_privado draws allow p = map_option (\<lambda>r. bind_result r (\<lambda>n. case good_indices p allow ! n of (e, x) \<Rightarrow>
      Ok \<lparr>pk_exit = fst (privado_exits p) ! x, pk_entry = Some (fst (privado_entries p) ! e),
          pk_other_exits = remove_at x (fst (privado_exits p)), pk_other_entries = remove_at e (fst (privado_entries p)),
          pk_same_operator = same_operator (fst (privado_entries p) ! e) (fst (privado_exits p) ! x)\<rparr>))
    (random_index draws (length (good_indices p allow)))"
proof -
  have "fst (privado_entries p) \<noteq> []" "fst (privado_exits p) \<noteq> []"
    using assms by (auto simp: good_indices_def Let_def)
  with assms show ?thesis
    unfolding pick_privado_def good_indices_def Let_def
    by (cases "privado_entries p"; cases "privado_exits p") (auto simp: filter_empty_conv)
qed

lemma pick_privado_none:
  "good_indices p allow = [] \<Longrightarrow> \<exists>e. pick_privado draws allow p = Some (Err e)"
  unfolding pick_privado_def good_indices_def Let_def
  by (cases "privado_entries p"; cases "privado_exits p") auto

text \<open>
  Claim C26. Two hops are two nodes: the entry and the exit picked are two candidates of
  the pocket with different keys and different addresses, the entry can carry to the
  exit what it must, their operators are both named and differ unless the person gave
  that up, and every other candidate comes along for rotation. The exit's
  lease was granted to the key behind an entry, or it admits a fresh key per connection, or it
  takes passes: one with no more than a lease granted by hand to the one-hop key is never picked.
\<close>

theorem pick_privado_two_hops:
  assumes "pick_privado draws allow p = Some (Ok pk)"
  shows "\<exists>entry. pk_entry pk = Some entry \<and> i_key entry \<noteq> i_key (pk_exit pk)
      \<and> (\<forall>a b. endpoint_ip entry = Ok a \<longrightarrow> endpoint_ip (pk_exit pk) = Ok b \<longrightarrow> a \<noteq> b)
      \<and> entry_can_reach entry (pk_exit pk)
      \<and> (allow \<or> (\<exists>a b. i_operator entry = Some a \<and> i_operator (pk_exit pk) = Some b
           \<and> trim a \<noteq> [] \<and> trim b \<noteq> [] \<and> \<not> eq_ignore_ascii_case (trim a) (trim b)))
      \<and> (i_behind (pk_exit pk) \<or> admits_sessions (pk_exit pk) \<or> takes_passes (pk_exit pk))
      \<and> add_mset (pk_exit pk) (mset (pk_other_exits pk)) = mset (fst (privado_exits p))
      \<and> add_mset entry (mset (pk_other_entries pk)) = mset (fst (privado_entries p))"
proof -
  have ne: "good_indices p allow \<noteq> []"
    using assms pick_privado_none [of p allow draws] by auto
  from assms [unfolded pick_privado_good [OF ne]] obtain n where n: "random_index draws (length (good_indices p allow)) = Some (Ok n)"
    and c: "(case good_indices p allow ! n of (e, x) \<Rightarrow> Ok \<lparr>pk_exit = fst (privado_exits p) ! x,
          pk_entry = Some (fst (privado_entries p) ! e), pk_other_exits = remove_at x (fst (privado_exits p)),
          pk_other_entries = remove_at e (fst (privado_entries p)),
          pk_same_operator = same_operator (fst (privado_entries p) ! e) (fst (privado_exits p) ! x)\<rparr>) = (Ok pk :: pocket_error + pick)"
    by auto
  obtain e x where ex: "good_indices p allow ! n = (e, x)" by (cases "good_indices p allow ! n")
  with c have pk: "pk = \<lparr>pk_exit = fst (privado_exits p) ! x, pk_entry = Some (fst (privado_entries p) ! e),
          pk_other_exits = remove_at x (fst (privado_exits p)), pk_other_entries = remove_at e (fst (privado_entries p)),
          pk_same_operator = same_operator (fst (privado_entries p) ! e) (fst (privado_exits p) ! x)\<rparr>" by simp
  have "(e, x) \<in> set (good_indices p allow)" using random_index_less [OF n] ex by (metis nth_mem)
  then have i: "e < length (fst (privado_entries p))" "x < length (fst (privado_exits p))"
    and g: "good_pair p allow (fst (privado_entries p) ! e) (fst (privado_exits p) ! x)"
    by (auto simp: good_indices_iff)
  have "pair_allowed (fst (privado_entries p) ! e) (fst (privado_exits p) ! x) allow" using g by (simp add: good_pair_def)
  then have "allow \<or> (\<exists>a b. i_operator (fst (privado_entries p) ! e) = Some a \<and> i_operator (fst (privado_exits p) ! x) = Some b
           \<and> trim a \<noteq> [] \<and> trim b \<noteq> [] \<and> \<not> eq_ignore_ascii_case (trim a) (trim b))"
    by (auto simp: pair_allowed_def same_operator_def split: option.splits if_splits)
  moreover have "i_behind (fst (privado_exits p) ! x) \<or> admits_sessions (fst (privado_exits p) ! x) \<or> takes_passes (fst (privado_exits p) ! x)"
    by (rule privado_exits_behind [of _ p]) (use i in simp)
  moreover have "entry_can_reach (fst (privado_entries p) ! e) (fst (privado_exits p) ! x)" using g by (simp add: good_pair_def)
  moreover have "\<not> same_node (fst (privado_entries p) ! e) (fst (privado_exits p) ! x)" using g by (simp add: good_pair_def)
  from same_nodeD [OF this] have "i_key (fst (privado_entries p) ! e) \<noteq> i_key (fst (privado_exits p) ! x)"
    and "\<forall>a b. endpoint_ip (fst (privado_entries p) ! e) = Ok a \<longrightarrow> endpoint_ip (fst (privado_exits p) ! x) = Ok b \<longrightarrow> a \<noteq> b"
    by blast+
  ultimately show ?thesis
    unfolding pk using i by (simp add: mset_remove_at)
qed

lemma index_loop_rejects:
  "\<forall>x\<in>set rs. zone \<le> unat x \<Longrightarrow> index_loop zone n (map Some rs @ ds) = index_loop zone n ds"
  by (induction rs) auto

text \<open>What the rejection zone leaves: a positive multiple of the number of choices, and at least half of all draws.\<close>

lemma zone_bounds:
  fixes m n :: nat
  assumes "0 < n" "n \<le> m"
  shows "n \<le> m - m mod n" "m \<le> 2 * (m - m mod n)"
proof -
  have e: "m - m mod n = n * (m div n)" by (simp add: minus_mod_eq_mult_div)
  have "1 \<le> m div n" using assms by (simp add: Suc_leI div_greater_zero_iff)
  then show n: "n \<le> m - m mod n" unfolding e by simp
  have "m mod n < n" using assms(1) by simp
  with n show "m \<le> 2 * (m - m mod n)" by linarith
qed

text \<open>
  Claim C27. Two hops are found when there are two. If some entry and some exit of the
  pocket may be used together, a pair is picked whatever is drawn, as soon as one draw is below
  the rejection zone, which takes at least half of all values; only a source of random numbers that
  fails first makes it an error. And no usable pair is left out: for each there is a draw that
  picks it.
\<close>

theorem pick_privado_finds:
  assumes "good_pair p allow e x" "length (fst (privado_entries p)) * length (fst (privado_exits p)) \<le> U64_MAX"
  shows "\<exists>zone. U64_MAX \<le> 2 * zone
    \<and> (\<forall>rejected r ds. (\<forall>y\<in>set rejected. zone \<le> unat y) \<longrightarrow> unat r < zone \<longrightarrow>
        (\<exists>pk. pick_privado (map Some rejected @ Some r # ds) allow p = Some (Ok pk)))
    \<and> (\<forall>rejected ds. (\<forall>y\<in>set rejected. zone \<le> unat y) \<longrightarrow>
        pick_privado (map Some rejected @ None # ds) allow p = Some (Err NoRandomBytes))
    \<and> (\<exists>r. \<forall>ds. \<exists>pk. pick_privado (Some r # ds) allow p = Some (Ok pk) \<and> pk_entry pk = Some e \<and> pk_exit pk = x)"
proof -
  define zone where "zone = U64_MAX - U64_MAX mod length (good_indices p allow)"
  obtain i j where ij: "i < length (fst (privado_entries p))" "e = fst (privado_entries p) ! i"
    "j < length (fst (privado_exits p))" "x = fst (privado_exits p) ! j"
    using assms(1) by (auto simp: good_pair_def in_set_conv_nth)
  with assms(1) have "(i, j) \<in> set (good_indices p allow)" by (simp add: good_indices_iff)
  then obtain k where k: "k < length (good_indices p allow)" "good_indices p allow ! k = (i, j)"
    by (auto simp: in_set_conv_nth)
  then have ne: "good_indices p allow \<noteq> []" by auto
  have "length (good_indices p allow) \<le> length (concat (map (\<lambda>e. map (\<lambda>x. (e, x)) [0..<length (fst (privado_exits p))]) [0..<length (fst (privado_entries p))]))"
    unfolding good_indices_def Let_def by (meson length_filter_le order_trans)
  also have "\<dots> = length (fst (privado_entries p)) * length (fst (privado_exits p))"
    by (simp add: length_concat comp_def sum_list_triv)
  finally have le: "length (good_indices p allow) \<le> U64_MAX" using assms(2) by simp
  note z = zone_bounds [OF _ le, folded zone_def]
  have index: "random_index (map Some rs @ ds) (length (good_indices p allow)) = index_loop zone (length (good_indices p allow)) ds"
    if "\<forall>y\<in>set rs. zone \<le> unat y" for rs ds
    using ne index_loop_rejects [OF that] by (simp add: random_index_def zone_def)
  have draw: "pick_privado (map Some rs @ ds) allow p = map_option (\<lambda>r. bind_result r (\<lambda>n. case good_indices p allow ! n of (e, x) \<Rightarrow>
      Ok \<lparr>pk_exit = fst (privado_exits p) ! x, pk_entry = Some (fst (privado_entries p) ! e),
          pk_other_exits = remove_at x (fst (privado_exits p)), pk_other_entries = remove_at e (fst (privado_entries p)),
          pk_same_operator = same_operator (fst (privado_entries p) ! e) (fst (privado_exits p) ! x)\<rparr>))
      (index_loop zone (length (good_indices p allow)) ds)" if "\<forall>y\<in>set rs. zone \<le> unat y" for rs ds
    unfolding pick_privado_good [OF ne] index [OF that] ..
  have "\<exists>pk. pick_privado (map Some rs @ Some r # ds) allow p = Some (Ok pk)"
    if "\<forall>y\<in>set rs. zone \<le> unat y" "unat r < zone" for rs r ds
    using draw [OF that(1), of "Some r # ds"] that(2) by (simp split: prod.split)
  moreover have "pick_privado (map Some rs @ None # ds) allow p = Some (Err NoRandomBytes)"
    if "\<forall>y\<in>set rs. zone \<le> unat y" for rs ds
    using draw [OF that, of "None # ds"] by simp
  moreover have "\<exists>pk. pick_privado (Some (of_nat k) # ds) allow p = Some (Ok pk) \<and> pk_entry pk = Some e \<and> pk_exit pk = x" for ds
  proof -
    have "k < 2 ^ 64" using k(1) le by (simp add: U64_MAX_def)
    then have "unat (of_nat k :: 64 word) = k" by (simp add: unat_of_nat take_bit_nat_eq_self)
    moreover have "k < zone" using k(1) z(1) ne by simp
    ultimately show ?thesis using draw [of "[]" "Some (of_nat k) # ds"] k ij by simp
  qed
  ultimately show ?thesis using z(2) ne by (intro exI [of _ zone] conjI) blast+
qed

definition sample_entry :: invite where
  "sample_entry = sample_invite\<lparr>i_node_name := ''de-1'', i_node_public_key := b64_encode sample_env (replicate 32 11),
     i_endpoint := ''198.51.100.7:51820'', i_operator := Some ''bob'', i_role := Some ''entry''\<rparr>"

definition sample_pocket :: pocket where
  "sample_pocket = \<lparr>entries = [sample_entry], exits = [sample_invite], known = [], list_sequence = 0, pocket_issuer = None\<rparr>"

lemma sample_open: "admits_openly sample_invite" "admits_sessions sample_invite" "admits_sessions sample_entry"
proof -
  have "trim ''open'' = ''open''" by (rule trim_graphic) (simp add: is_graphic_def)
  then show "admits_openly sample_invite" "admits_sessions sample_invite" "admits_sessions sample_entry"
    by (simp_all add: admits_openly_def admits_sessions_def says_def invite_has_def sample_invite_def sample_entry_def)
qed

lemma sample_candidates: "privado_entries sample_pocket = ([sample_entry], 0)" "privado_exits sample_pocket = ([sample_invite], 0)"
  using sample_open
  by (simp_all add: privado_entries_def privado_exits_def candidates_def sample_pocket_def slot_list_def joinable_def)

lemma sample_endpoints:
  "endpoint_addr sample_invite = Ok \<lparr>sa_ip = V4 (ipv4_new 203 0 113 10), sa_port = 51820\<rparr>"
  "endpoint_addr sample_entry = Ok \<lparr>sa_ip = V4 (ipv4_new 198 51 100 7), sa_port = 51820\<rparr>"
proof -
  show "endpoint_addr sample_invite = Ok \<lparr>sa_ip = V4 (ipv4_new 203 0 113 10), sa_port = 51820\<rparr>"
    by (simp add: endpoint_addr_def sample_invite_def sample_endpoint)
  have "parse_socket_addr ''198.51.100.7:51820'' = Some \<lparr>sa_ip = V4 (ipv4_new 198 51 100 7), sa_port = 51820\<rparr>"
    by (simp add: parse_socket_addr_def read_ipv4_def read_octet_def read_run_def parse_octet_def is_ascii_digit_def
      dec_val_def digit_val_def read_char_def read_port_def numeral_3_eq_3 Let_def)
  then show "endpoint_addr sample_entry = Ok \<lparr>sa_ip = V4 (ipv4_new 198 51 100 7), sa_port = 51820\<rparr>"
    by (simp add: endpoint_addr_def sample_entry_def)
qed

lemma sample_good_pair: "good_pair sample_pocket False sample_entry sample_invite"
proof -
  have t: "trim ''alice'' = ''alice''" "trim ''bob'' = ''bob''" by (rule trim_graphic, simp add: is_graphic_def)+
  have k: "i_key sample_entry \<noteq> i_key sample_invite"
  proof
    assume "i_key sample_entry = i_key sample_invite"
    then have "b64_encode sample_env (replicate 32 11) = b64_encode sample_env (replicate 32 9)"
      by (simp add: sample_entry_def sample_invite_def sample_node_key_def b64_okD(4) [OF sample_env_ok(1)])
    then have "Some (replicate 32 11) = Some (replicate 32 (9 :: u8))"
      using b64_okD(1) [OF sample_env_ok(1)] by metis
    then show False by simp
  qed
  have ip: "ipv4_new 198 51 100 7 \<noteq> ipv4_new 203 0 113 10" by code_simp
  show ?thesis
    using k ip sample_endpoints sample_open t
    by (simp add: good_pair_def sample_candidates same_node_def endpoint_ip_def entry_can_reach_def on_forwarded_port_def
        on_relayed_port_def DEFAULT_WIREGUARD_PORT_def pair_allowed_def same_operator_def)
      (simp add: sample_entry_def sample_invite_def invite_has_def eq_ignore_ascii_case_def to_ascii_lowercase_def)
qed

lemma sample_pick: "\<exists>pk. pick_privado [Some 0] False sample_pocket = Some (Ok pk)"
proof -
  have g: "good_indices sample_pocket False = [(0, 0)]"
    using sample_good_pair by (simp add: good_indices_def sample_candidates good_pair_def)
  have "random_index [Some 0] 1 = Some (Ok 0)" by (simp add: random_index_def U64_MAX_def)
  with g show ?thesis by (simp add: pick_privado_good)
qed

theorem pick_privado_two_hops_witness:
  "\<exists>pk entry. pick_privado [Some 0] False sample_pocket = Some (Ok pk) \<and> pk_entry pk = Some entry \<and> i_key entry \<noteq> i_key (pk_exit pk)"
proof -
  obtain pk where pk: "pick_privado [Some 0] False sample_pocket = Some (Ok pk)" using sample_pick by blast
  with pick_privado_two_hops [OF pk] show ?thesis by blast
qed

theorem pick_privado_finds_witness:
  "good_pair sample_pocket False sample_entry sample_invite
   \<and> (\<exists>r. \<exists>pk. pick_privado [Some r] False sample_pocket = Some (Ok pk) \<and> pk_entry pk = Some sample_entry \<and> pk_exit pk = sample_invite)"
  using pick_privado_finds [OF sample_good_pair] sample_good_pair by (simp add: sample_candidates U64_MAX_def) blast

end
