(* ===== verification/Payment.thy ===== *)
theory Payment
  imports Http
begin

text \<open>
  Paying for passes (\<^verbatim>\<open>hidravpn-core/src/payment.rs\<close>): base58 text, token amounts as
  decimals, and the packs an operator sells. A \<^verbatim>\<open>u64\<close> is a \<open>nat\<close> with its bound written
  out; the carries of the base58 loops stay far below \<^verbatim>\<open>u32\<close>. Prices in dollars need
  floating point and are not modelled past their reading.

  Both base58 directions are the same loop, \<open>mul_add\<close>, which turns the canonical digits
  of a number into those of \<open>c + m * v\<close>; so each is the change of base of a number,
  and they are inverse.
\<close>

definition HNET_MINT :: string where
  "HNET_MINT = ''Aov3BtQvrGXM5V9oiHu8PKJWeV8a2rFnr24fwWcNpump''"

definition HNET_DECIMALS :: nat where
  "HNET_DECIMALS = 6"

definition MAX_DECIMALS :: nat where
  "MAX_DECIMALS = 18"

definition TAG_DIGITS :: nat where
  "TAG_DIGITS = 5"

definition UNCLAIMED_LIFETIME :: int where
  "UNCLAIMED_LIFETIME = 2 * 3600"

definition ORDER_LIFETIME :: int where
  "ORDER_LIFETIME = 24 * 3600"

definition CLOCK_SLACK :: int where
  "CLOCK_SLACK = 300"

definition ALPHABET :: string where
  "ALPHABET = ''123456789ABCDEFGHJKLMNPQRSTUVWXYZabcdefghijkmnopqrstuvwxyz''"

datatype pay_error = Base58Size | Base58Char | NotAddress | NotSignature | TooManyDecimals | NotAnAmount
  | MoreDecimals | TooLargeAmount | NotAPack | PackSize | PriceZero | PriceNotWhole

section \<open>Base58\<close>

fun carry_digits :: "nat \<Rightarrow> nat \<Rightarrow> nat list" where
  "carry_digits b c = (if c = 0 \<or> b \<le> 1 then [] else c mod b # carry_digits b (c div b))"

declare carry_digits.simps [simp del]

fun mul_add :: "nat \<Rightarrow> nat \<Rightarrow> nat \<Rightarrow> nat list \<Rightarrow> nat list" where
  "mul_add b m c [] = carry_digits b c"
| "mul_add b m c (d # ds) = (c + d * m) mod b # mul_add b m ((c + d * m) div b) ds"

fun decode_chars :: "string \<Rightarrow> nat list \<Rightarrow> pay_error + nat list" where
  "decode_chars [] out = Ok out"
| "decode_chars (c # cs) out = (case position (\<lambda>a. a = c) ALPHABET of
      None \<Rightarrow> Err Base58Char
    | Some i \<Rightarrow> decode_chars cs (mul_add 256 58 i out))"

definition base58_decode :: "string \<Rightarrow> pay_error + bytes" where
  "base58_decode s = (let s = trim s in
     if s = [] \<or> 128 < length s then Err Base58Size
     else bind_result (decode_chars s []) (\<lambda>out.
       Ok (map of_nat (rev (out @ replicate (length (takeWhile (\<lambda>c. c = CHR ''1'') s)) 0)))))"

definition base58_encode :: "bytes \<Rightarrow> string" where
  "base58_encode bs =
     (let digits = fold (\<lambda>b digits. mul_add 58 256 (unat b) digits) bs []
      in replicate (length (takeWhile (\<lambda>b. b = 0) bs)) (CHR ''1'') @ map (\<lambda>d. ALPHABET ! d) (rev digits))"

definition check_address :: "string \<Rightarrow> pay_error + string" where
  "check_address s = (case base58_decode (trim s) of
      Err e \<Rightarrow> Err NotAddress
    | Ok b \<Rightarrow> if length b \<noteq> 32 then Err NotAddress else Ok (trim s))"

definition check_signature :: "string \<Rightarrow> pay_error + string" where
  "check_signature s = (case base58_decode (trim s) of
      Err e \<Rightarrow> Err NotSignature
    | Ok b \<Rightarrow> if length b \<noteq> 64 then Err NotSignature else Ok (trim s))"

section \<open>Amounts\<close>

definition amount_to_string :: "nat \<Rightarrow> nat \<Rightarrow> string" where
  "amount_to_string raw decimals =
     (let scale = 10 ^ decimals
      in if decimals = 0 then show_nat raw
         else show_nat (raw div scale) @ ''.'' @ show_padded decimals (raw mod scale))"

definition amount_from_string :: "string \<Rightarrow> nat \<Rightarrow> pay_error + nat" where
  "amount_from_string s decimals =
     (if MAX_DECIMALS < decimals then Err TooManyDecimals
      else
        (let s = trim s;
             (whole, frac) = (case split_once (CHR ''.'') s of Some parts \<Rightarrow> parts | None \<Rightarrow> (s, []))
         in if whole = [] \<and> frac = [] then Err NotAnAmount
            else if \<not> list_all is_ascii_digit whole \<or> \<not> list_all is_ascii_digit frac then Err NotAnAmount
            else if decimals < length frac then Err MoreDecimals
            else if U64_MAX < dec_val whole then Err TooLargeAmount
            else
              (let total = dec_val whole * 10 ^ decimals + dec_val frac * 10 ^ (decimals - length frac)
               in if U64_MAX < total then Err TooLargeAmount else Ok total)))"

datatype price = Tokens nat | Usd nat

record pack_spec =
  spec_passes :: nat
  spec_price :: price

definition usd_part :: "string \<Rightarrow> string option" where
  "usd_part price = (case strip_prefix ''$'' price of
      Some d \<Rightarrow> Some d
    | None \<Rightarrow> (case strip_suffix ''usd'' price of
        Some d \<Rightarrow> Some d
      | None \<Rightarrow> (case strip_suffix ''USD'' price of
          Some d \<Rightarrow> Some d
        | None \<Rightarrow> (case strip_suffix '' USD'' price of
            Some d \<Rightarrow> Some d
          | None \<Rightarrow> strip_suffix '' usd'' price))))"

definition pack_parse :: "string \<Rightarrow> nat \<Rightarrow> pay_error + pack_spec" where
  "pack_parse spec decimals = (case split_once (CHR ''='') (trim spec) of
      None \<Rightarrow> Err NotAPack
    | Some (passes, price) \<Rightarrow> (case parse_uint 4294967295 (trim passes) of
        None \<Rightarrow> Err NotAPack
      | Some passes \<Rightarrow>
          (if passes = 0 \<or> 10000 < passes then Err PackSize
           else (case usd_part (trim price) of
               Some d \<Rightarrow> (case amount_from_string d 2 of
                   Err _ \<Rightarrow> Err NotAPack
                 | Ok cents \<Rightarrow>
                     if cents = 0 then Err PriceZero else Ok \<lparr>spec_passes = passes, spec_price = Usd cents\<rparr>)
             | None \<Rightarrow> bind_result (amount_from_string (trim price) decimals) (\<lambda>price_raw.
                 if price_raw = 0 \<or> price_raw mod 10 ^ decimals \<noteq> 0 then Err PriceNotWhole
                 else Ok \<lparr>spec_passes = passes, spec_price = Tokens price_raw\<rparr>)))))"

definition usd_to_string :: "nat \<Rightarrow> string" where
  "usd_to_string cents = show_nat (cents div 100) @ ''.'' @ show_padded 2 (cents mod 100)"

definition tag_space :: "nat \<Rightarrow> nat" where
  "tag_space decimals = 10 ^ min TAG_DIGITS decimals - 1"

section \<open>Changing base\<close>

definition digits_val :: "nat \<Rightarrow> nat list \<Rightarrow> nat" where
  "digits_val b ds = foldr (\<lambda>d v. d + b * v) ds 0"

definition canonical :: "nat \<Rightarrow> nat list \<Rightarrow> bool" where
  "canonical b ds \<longleftrightarrow> (\<forall>d\<in>set ds. d < b) \<and> (ds = [] \<or> last ds \<noteq> 0)"

lemma digits_val_simps [simp]: "digits_val b [] = 0" "digits_val b (d # ds) = d + b * digits_val b ds"
  by (simp_all add: digits_val_def)

lemma carry_digits_0 [simp]: "carry_digits b 0 = []"
  by (simp add: carry_digits.simps)

lemma mul_add_digits:
  assumes "1 < b" "0 < m"
  shows "mul_add b m c (carry_digits b v) = carry_digits b (c + m * v)"
proof (induction v arbitrary: c rule: less_induct)
  case (less v)
  show ?case
  proof (cases "v = 0")
    case False
    let ?d = "v mod b"
    have "m * v = m * (v mod b + b * (v div b))" by (simp only: mod_mult_div_eq)
    then have eq: "c + m * v = (c + ?d * m) + b * (m * (v div b))"
      by (simp only: distrib_left mult.commute [of _ m] mult.left_commute [of m b] add.assoc)
    have "mul_add b m c (carry_digits b v) = (c + ?d * m) mod b # carry_digits b ((c + ?d * m) div b + m * (v div b))"
      using False assms less [of "v div b"] by (simp add: carry_digits.simps [of b v])
    also have "\<dots> = (c + m * v) mod b # carry_digits b ((c + m * v) div b)"
      using assms(1) by (simp add: eq add.commute)
    also have "\<dots> = carry_digits b (c + m * v)"
      using False assms by (simp add: carry_digits.simps [of b "c + m * v"])
    finally show ?thesis .
  qed simp
qed

lemma carry_digits_val:
  assumes "1 < b" "canonical b ds"
  shows "carry_digits b (digits_val b ds) = ds"
  using assms(2)
proof (induction ds)
  case (Cons d ds)
  have d: "d < b" and c: "canonical b ds" using Cons.prems by (auto simp: canonical_def split: if_splits)
  have "d + b * digits_val b ds \<noteq> 0"
  proof (cases "ds = []")
    case True
    with Cons.prems show ?thesis by (simp add: canonical_def)
  next
    case False
    then have "digits_val b ds \<noteq> 0" using Cons.IH [OF c] by (metis carry_digits_0)
    with assms(1) show ?thesis by simp
  qed
  then show ?case using Cons.IH [OF c] d assms(1) by (simp add: carry_digits.simps [of b "d + b * digits_val b ds"])
qed simp

lemma carry_digits_canonical: "1 < b \<Longrightarrow> canonical b (carry_digits b v) \<and> digits_val b (carry_digits b v) = v"
proof (induction v rule: less_induct)
  case (less v)
  show ?case
  proof (cases "v = 0")
    case False
    from less have IH: "canonical b (carry_digits b (v div b)) \<and> digits_val b (carry_digits b (v div b)) = v div b"
      using False by simp
    have "carry_digits b (v div b) = [] \<Longrightarrow> v mod b \<noteq> 0"
      using IH False by (metis digits_val_simps(1) mod_mult_self1_is_0 div_mult_mod_eq add.right_neutral mult_0 add_0)
    with IH False less.prems show ?thesis by (auto simp: carry_digits.simps [of b v] canonical_def)
  qed (simp add: canonical_def)
qed

text \<open>Reading big-endian digits in one base gives the canonical digits of the number in the other.\<close>

lemma fold_mul_add:
  assumes "1 < b" "0 < m"
  shows "fold (mul_add b m) ds (carry_digits b v) = carry_digits b (foldl (\<lambda>v d. d + m * v) v ds)"
  by (induction ds arbitrary: v) (simp_all add: mul_add_digits [OF assms])

lemma digits_val_rev: "digits_val m (rev ds) = foldl (\<lambda>v d. d + m * v) 0 ds"
  by (simp add: digits_val_def foldr_conv_fold foldl_conv_fold)

lemma change_base:
  "1 < b \<Longrightarrow> 0 < m \<Longrightarrow> fold (mul_add b m) ds [] = carry_digits b (digits_val m (rev ds))"
  using fold_mul_add [of b m ds 0] by (simp add: digits_val_rev)

lemma digits_val_zeros [simp]: "digits_val b (ds @ replicate k 0) = digits_val b ds"
  by (induction ds) (simp_all, induction k, simp_all)

text \<open>A big-endian digit list is its leading zeros and a canonical number.\<close>

definition zeros :: "nat list \<Rightarrow> nat" where
  "zeros ds = length (takeWhile (\<lambda>d. d = 0) ds)"

lemma split_zeros:
  assumes "\<forall>d\<in>set ds. d < b"
  obtains r where "ds = replicate (zeros ds) 0 @ r" "canonical b (rev r)"
proof -
  have "takeWhile (\<lambda>d. d = 0) ds = replicate (zeros ds) 0"
    unfolding zeros_def by (rule replicate_eqI) (auto dest: set_takeWhileD)
  then have "ds = replicate (zeros ds) 0 @ dropWhile (\<lambda>d. d = 0) ds"
    by (metis takeWhile_dropWhile_id)
  moreover have "canonical b (rev (dropWhile (\<lambda>d. d = 0) ds))"
  proof (cases "dropWhile (\<lambda>d. d = 0) ds")
    case Nil
    then show ?thesis unfolding Nil by (simp add: canonical_def)
  next
    case (Cons a l)
    then have "a \<noteq> 0" by (simp add: dropWhile_eq_Cons_conv)
    moreover have "set (a # l) \<subseteq> set ds" unfolding Cons [symmetric] by (auto dest: set_dropWhileD)
    ultimately show ?thesis using assms by (auto simp: canonical_def Cons)
  qed
  ultimately show ?thesis by (rule that)
qed

lemma zeros_append: "canonical b (rev r) \<Longrightarrow> zeros (replicate k 0 @ r) = k"
proof -
  assume "canonical b (rev r)"
  then have "takeWhile (\<lambda>d. d = 0) r = []" by (cases r) (auto simp: canonical_def last_rev)
  then show ?thesis by (simp add: zeros_def takeWhile_append)
qed

definition rebase :: "nat \<Rightarrow> nat \<Rightarrow> nat list \<Rightarrow> nat list" where
  "rebase m b ds = replicate (zeros ds) 0 @ rev (fold (mul_add b m) ds [])"

lemma rebase_back:
  assumes "1 < b" "1 < m" "\<forall>d\<in>set ds. d < m"
  shows "rebase b m (rebase m b ds) = ds" "\<forall>d\<in>set (rebase m b ds). d < b"
proof -
  obtain r where ds: "ds = replicate (zeros ds) 0 @ r" and r: "canonical m (rev r)"
    using split_zeros [OF assms(3)] .
  define v where "v = digits_val m (rev r)"
  have "digits_val m (rev ds) = v" by (subst ds) (simp add: v_def)
  then have e: "rebase m b ds = replicate (zeros ds) 0 @ rev (carry_digits b v)"
    using assms by (simp add: rebase_def change_base)
  have c: "canonical b (carry_digits b v)" "digits_val b (carry_digits b v) = v"
    using carry_digits_canonical [OF assms(1)] by auto
  then have "zeros (rebase m b ds) = zeros ds" unfolding e by (intro zeros_append [of b]) simp
  moreover have "fold (mul_add m b) (rebase m b ds) [] = carry_digits m v"
  proof -
    have "fold (mul_add m b) (rebase m b ds) [] = carry_digits m (digits_val b (rev (rebase m b ds)))"
      by (rule change_base) (use assms in simp_all)
    also have "digits_val b (rev (rebase m b ds)) = v" by (simp add: e c)
    finally show ?thesis .
  qed
  moreover have "carry_digits m v = rev r" unfolding v_def by (rule carry_digits_val [OF assms(2) r])
  ultimately show "rebase b m (rebase m b ds) = ds"
    unfolding rebase_def [of b m] by (simp add: ds [symmetric])
  show "\<forall>d\<in>set (rebase m b ds). d < b" using c(1) assms(1) by (auto simp: e canonical_def)
qed

section \<open>Base58 both ways\<close>

lemma alphabet: "length ALPHABET = 58" "distinct ALPHABET" "hd ALPHABET = CHR ''1''"
  "\<forall>c\<in>set ALPHABET. is_graphic c"
  by (simp_all add: ALPHABET_def is_graphic_def)

definition digit_of :: "char \<Rightarrow> nat" where
  "digit_of c = (case position (\<lambda>a. a = c) ALPHABET of Some i \<Rightarrow> i | None \<Rightarrow> 0)"

lemma position_nth: "distinct xs \<Longrightarrow> i < length xs \<Longrightarrow> position (\<lambda>a. a = xs ! i) xs = Some i"
proof (induction xs arbitrary: i)
  case (Cons x xs)
  then show ?case by (cases i) auto
qed simp

lemma digit_alphabet: "d < 58 \<Longrightarrow> position (\<lambda>a. a = ALPHABET ! d) ALPHABET = Some d" "d < 58 \<Longrightarrow> digit_of (ALPHABET ! d) = d"
  using position_nth [OF alphabet(2)] alphabet(1) by (simp_all add: digit_of_def)

lemma position_digit: "position (\<lambda>a. a = c) ALPHABET = Some i \<Longrightarrow> i < 58 \<and> ALPHABET ! i = c"
  using position_Some [of "\<lambda>a. a = c" ALPHABET i] alphabet(1) by simp

lemma decode_chars_digits:
  "list_all (\<lambda>d. d < 58) ds \<Longrightarrow> decode_chars (map (\<lambda>d. ALPHABET ! d) ds) out = Ok (fold (mul_add 256 58) ds out)"
  by (induction ds arbitrary: out) (simp_all add: digit_alphabet)

lemma decode_chars_Ok:
  "decode_chars s out = Ok r \<Longrightarrow> \<exists>ds. list_all (\<lambda>d. d < 58) ds \<and> s = map (\<lambda>d. ALPHABET ! d) ds \<and> r = fold (mul_add 256 58) ds out"
proof (induction s arbitrary: out)
  case (Cons c s)
  from Cons.prems obtain i where i: "position (\<lambda>a. a = c) ALPHABET = Some i" "decode_chars s (mul_add 256 58 i out) = Ok r"
    by (auto split: option.splits)
  with Cons.IH obtain ds where "list_all (\<lambda>d. d < 58) ds" "s = map (\<lambda>d. ALPHABET ! d) ds"
    "r = fold (mul_add 256 58) ds (mul_add 256 58 i out)" by blast
  with position_digit [OF i(1)] show ?case by (intro exI [of _ "i # ds"]) simp
qed simp

lemma alphabet_one: "d < 58 \<Longrightarrow> ALPHABET ! d = CHR ''1'' \<longleftrightarrow> d = 0"
  using nth_eq_iff_index_eq [OF alphabet(2), of d 0] alphabet(1) by (simp add: ALPHABET_def)

lemma ones: "list_all (\<lambda>d. d < 58) ds \<Longrightarrow> length (takeWhile (\<lambda>c. c = CHR ''1'') (map (\<lambda>d. ALPHABET ! d) ds)) = zeros ds"
  by (induction ds) (auto simp: zeros_def alphabet_one)

lemma decode_digits:
  assumes "list_all (\<lambda>d. d < 58) ds" "ds \<noteq> []" "length ds \<le> 128"
  shows "base58_decode (map (\<lambda>d. ALPHABET ! d) ds) = Ok (map of_nat (rebase 58 256 ds))"
proof -
  have "\<forall>c\<in>set (map (\<lambda>d. ALPHABET ! d) ds). is_graphic c"
    using assms(1) alphabet(1,4) by (auto simp: list_all_iff)
  then have "trim (map (\<lambda>d. ALPHABET ! d) ds) = map (\<lambda>d. ALPHABET ! d) ds"
    by (intro trim_graphic) (simp add: list_all_iff)
  with assms show ?thesis
    by (simp add: base58_decode_def decode_chars_digits ones rebase_def)
qed

lemma encode_digits: "base58_encode bs = map (\<lambda>d. ALPHABET ! d) (rebase 256 58 (map unat bs))"
proof -
  have f: "fold (\<lambda>b. mul_add 58 256 (unat b)) bs x = fold (mul_add 58 256) (map unat bs) x" for x
    by (induction bs arbitrary: x) simp_all
  have z: "length (takeWhile (\<lambda>b. b = 0) bs) = zeros (map unat bs)"
    by (induction bs) (auto simp: zeros_def unat_eq_0)
  have "ALPHABET ! 0 = CHR ''1''" using alphabet_one [of 0] by simp
  then show ?thesis by (simp add: base58_encode_def rebase_def f z)
qed

text \<open>
  Claim C28. Base58 is one text per byte string: what is encoded is read back (when it is
  not longer than the 128 characters the reader takes), and whatever text is read, the
  encoding of its bytes is that same text without the blanks around it. Two texts of
  the same address are therefore the same text.
\<close>

theorem base58_bijective:
  "(bs \<noteq> [] \<and> length (base58_encode bs) \<le> 128 \<longrightarrow> base58_decode (base58_encode bs) = Ok bs)
   \<and> (base58_decode s = Ok bs' \<longrightarrow> base58_encode bs' = trim s)"
proof (intro conjI impI)
  assume a: "bs \<noteq> [] \<and> length (base58_encode bs) \<le> 128"
  have "unat b < 256" for b :: u8 using unsigned_less [of b] by simp
  then have b: "\<forall>d\<in>set (map unat bs). d < 256" by simp
  note r = rebase_back [of 58 256, OF _ _ b, simplified]
  have "rebase 256 58 (map unat bs) \<noteq> []"
    using r(1) a by (auto simp: rebase_def zeros_def)
  moreover have "list_all (\<lambda>d. d < 58) (rebase 256 58 (map unat bs))" using r(2) by (simp add: list_all_iff)
  ultimately show "base58_decode (base58_encode bs) = Ok bs"
    using a decode_digits [of "rebase 256 58 (map unat bs)"] r(1) by (simp add: encode_digits comp_def)
next
  assume d: "base58_decode s = Ok bs'"
  obtain out where s: "trim s \<noteq> []" "length (trim s) \<le> 128" "decode_chars (trim s) [] = Ok out"
    using d by (auto simp: base58_decode_def Let_def split: if_splits)
  obtain ds where ds: "list_all (\<lambda>d. d < 58) ds" "trim s = map (\<lambda>d. ALPHABET ! d) ds"
    using decode_chars_Ok [OF s(3)] by blast
  have "base58_decode (trim s) = Ok (map of_nat (rebase 58 256 ds))"
    unfolding ds(2) by (rule decode_digits [OF ds(1)]) (use s ds(2) in auto)
  moreover have "base58_decode (trim s) = base58_decode s" by (simp add: base58_decode_def)
  ultimately have bs: "bs' = map of_nat (rebase 58 256 ds)" using d by simp
  have b: "\<forall>d\<in>set ds. d < 58" using ds(1) by (simp add: list_all_iff)
  note r = rebase_back [of 256 58, OF _ _ b, simplified]
  have "map unat bs' = rebase 58 256 ds"
    unfolding bs using r(2) by (auto simp: unat_of_nat take_bit_nat_eq_self intro!: map_idI)
  then show "base58_encode bs' = trim s" using r(1) by (simp add: encode_digits ds(2))
qed

section \<open>Amounts both ways\<close>

lemma amount_roundtrip:
  assumes "decimals \<le> MAX_DECIMALS" "raw \<le> U64_MAX"
  shows "amount_from_string (amount_to_string raw decimals) decimals = Ok raw"
proof (cases "decimals = 0")
  case True
  have "trim (show_nat raw) = show_nat raw" by (rule trim_graphic) (simp add: graphic_digits)
  moreover have "split_once (CHR ''.'') (show_nat raw) = None"
    by (simp add: split_once_None show_nat_no_dot)
  ultimately show ?thesis
    using True assms by (simp add: amount_from_string_def amount_to_string_def Let_def)
next
  case False
  let ?w = "show_nat (raw div 10 ^ decimals)" and ?f = "show_padded decimals (raw mod 10 ^ decimals)"
  have f: "length ?f = decimals" "list_all is_ascii_digit ?f" "dec_val ?f = raw mod 10 ^ decimals"
    using show_padded_field [of "raw mod 10 ^ decimals" decimals] False by simp_all
  have t: "trim (?w @ CHR ''.'' # ?f) = ?w @ CHR ''.'' # ?f"
    by (rule trim_graphic) (simp add: graphic_digits f(2), simp add: is_graphic_def)
  have "raw div 10 ^ decimals \<le> U64_MAX" using assms(2) div_le_dividend order_trans by blast
  moreover have "raw div 10 ^ decimals * 10 ^ decimals + raw mod 10 ^ decimals = raw"
    by (rule div_mult_mod_eq)
  ultimately show ?thesis using f t assms False
    by (simp add: amount_from_string_def amount_to_string_def Let_def split_once_append show_nat_no_dot)
qed

theorem base58_bijective_witness:
  "base58_decode (base58_encode [0, 0, 1]) = Ok [0, 0, 1]"
proof -
  have "length (base58_encode [0, 0, 1]) \<le> 128" by code_simp
  with base58_bijective [of "[0, 0, 1]"] show ?thesis by simp
qed

end
