(* ===== verification/Release.thy ===== *)
theory Release
  imports Pass
begin

text \<open>
  The release key (\<^verbatim>\<open>hidravpn-core/src/release.rs\<close>): checking a detached Ed25519
  signature over a file, and release versions \<^verbatim>\<open>X.Y.Z\<close>. Ed25519 is a parameter: which
  32 bytes are a key, and which signatures it takes.
\<close>

record release_env = pass_env +
  ed_key_ok :: "bytes \<Rightarrow> bool"
  ed_verify :: "bytes \<Rightarrow> bytes \<Rightarrow> bytes \<Rightarrow> bool"

datatype release_error = ReleaseKeyNotBase64 | ReleaseKeyLength | NotAnEdKey
  | SignatureNotBase64 | SignatureLength | SignatureMismatch

definition RELEASE_PUBLIC_KEY_B64 :: string where
  "RELEASE_PUBLIC_KEY_B64 = ''denZsjS2YtKOo4LRIGGTaKuHIWDFigChoLa71o0jBq8=''"

definition LIST_PUBLIC_KEY_B64 :: string where
  "LIST_PUBLIC_KEY_B64 = ''0HfVyf5QtcUjBQSvRYQNeirD/I0432RnmlKQ+/gmNkk=''"

datatype release_key = ReleaseKey bytes

definition release_from_base64 :: "'a release_env_scheme \<Rightarrow> string \<Rightarrow> release_error + release_key" where
  "release_from_base64 env s = (case b64_decode env (trim s) of
      None \<Rightarrow> Err ReleaseKeyNotBase64
    | Some b \<Rightarrow>
        if length b \<noteq> 32 then Err ReleaseKeyLength
        else if \<not> ed_key_ok env b then Err NotAnEdKey
        else Ok (ReleaseKey b))"

definition from_constant :: "'a release_env_scheme \<Rightarrow> string \<Rightarrow> release_key option" where
  "from_constant env s = (if trim s = [] then None else ok_opt (release_from_base64 env s))"

definition embedded :: "'a release_env_scheme \<Rightarrow> release_key option" where
  "embedded env = from_constant env RELEASE_PUBLIC_KEY_B64"

definition embedded_list_key :: "'a release_env_scheme \<Rightarrow> release_key option" where
  "embedded_list_key env = from_constant env LIST_PUBLIC_KEY_B64"

fun release_to_base64 :: "'a release_env_scheme \<Rightarrow> release_key \<Rightarrow> string" where
  "release_to_base64 env (ReleaseKey b) = b64_encode env b"

fun release_verify :: "'a release_env_scheme \<Rightarrow> release_key \<Rightarrow> bytes \<Rightarrow> string \<Rightarrow> release_error + unit" where
  "release_verify env (ReleaseKey k) data sig = (case b64_decode env (trim sig) of
      None \<Rightarrow> Err SignatureNotBase64
    | Some b \<Rightarrow>
        if length b \<noteq> 64 then Err SignatureLength
        else if \<not> ed_verify env k data b then Err SignatureMismatch
        else Ok ())"

lemma release_key_roundtrip:
  assumes "b64_ok env" "release_from_base64 env s = Ok k"
  shows "release_to_base64 env k = trim s" "release_from_base64 env (release_to_base64 env k) = Ok k"
proof -
  obtain b where b: "b64_decode env (trim s) = Some b" "k = ReleaseKey b" "length b = 32" "ed_key_ok env b"
    using assms(2) by (auto simp: release_from_base64_def split: option.splits if_splits)
  then show t: "release_to_base64 env k = trim s" using assms(1) by (auto simp: b64_ok_def)
  show "release_from_base64 env (release_to_base64 env k) = Ok k"
    using assms(2) unfolding t by (simp add: release_from_base64_def)
qed

section \<open>Versions\<close>

datatype version = Version nat nat nat

definition version_part :: "string \<Rightarrow> nat option" where
  "version_part p = (if p = [] \<or> 4 < length p \<or> \<not> list_all is_ascii_digit p then None else parse_uint 65535 p)"

definition version_parse :: "string \<Rightarrow> version option" where
  "version_parse s = (case split_on (CHR ''.'') s of
      [a, b, c] \<Rightarrow> (case (version_part a, version_part b, version_part c) of
          (Some x, Some y, Some z) \<Rightarrow> Some (Version x y z)
        | _ \<Rightarrow> None)
    | _ \<Rightarrow> None)"

fun version_show :: "version \<Rightarrow> string" where
  "version_show (Version a b c) = show_nat a @ ''.'' @ show_nat b @ ''.'' @ show_nat c"

instantiation version :: linorder
begin

fun less_eq_version :: "version \<Rightarrow> version \<Rightarrow> bool" where
  "Version a b c \<le> Version a' b' c' \<longleftrightarrow> a < a' \<or> a = a' \<and> (b < b' \<or> b = b' \<and> c \<le> c')"

definition less_version :: "version \<Rightarrow> version \<Rightarrow> bool" where
  "v < w \<longleftrightarrow> v \<le> w \<and> \<not> w \<le> (v :: version)"

instance
proof
  fix u v w :: version
  show "v < w \<longleftrightarrow> v \<le> w \<and> \<not> w \<le> v" by (rule less_version_def)
  show "v \<le> v" by (cases v) simp
  show "u \<le> v \<Longrightarrow> v \<le> w \<Longrightarrow> u \<le> w" by (cases u; cases v; cases w) auto
  show "v \<le> w \<Longrightarrow> w \<le> v \<Longrightarrow> v = w" by (cases v; cases w) auto
  show "v \<le> w \<or> w \<le> v" by (cases v; cases w) auto
qed

end

lemma version_part_show: "n \<le> 9999 \<Longrightarrow> version_part (show_nat n) = Some n"
  using length_show_radix [of 10 n 3] show_nat_digits [of n] by (simp add: version_part_def show_nat_def [symmetric])

lemma version_roundtrip:
  assumes "a \<le> 9999" "b \<le> 9999" "c \<le> 9999"
  shows "version_parse (version_show (Version a b c)) = Some (Version a b c)"
  using assms
  by (simp add: version_parse_def split_on_append split_on_free show_nat_no_dot version_part_show)

end
