(* ===== verification/Directory.thy ===== *)
theory Directory
  imports Release Pocket Payment
begin

text \<open>
  Signed node lists (\<^verbatim>\<open>hidravpn-core/src/directory.rs\<close>): the list a client imports, the
  checks every list passes, its merge into the pocket, and the whole import. Serde is a
  parameter, \<open>parse_directory\<close>; the clock is an argument. A failed import gives the
  pocket back as it was.

  The lemmas follow the keys of the admitted and of the known nodes through a merge and
  give what an import does to the pocket as sets of keys; the last section closes the
  operations of the pocket under a step relation and proves its invariant for every
  pocket they reach.
\<close>

definition DIRECTORY_VERSION :: nat where
  "DIRECTORY_VERSION = 1"

record directory =
  d_version :: nat
  d_generated :: string
  d_sequence :: nat
  d_expires :: "string option"
  d_removed :: "string list"
  d_note :: "string option"
  d_nodes :: "node_record list"
  d_pass_issuer :: "pass_issuer option"

record dir_env = release_env +
  parse_directory :: "string \<Rightarrow> directory option"

datatype dir_error = NoListKey | NotAccepted release_error | ListNotUtf8 | ListNotJson | ListVersion | ListEmpty
  | BadNode invite_error | BadListExpiry | BadRemovedKey key_error
  | BadIssuerUrl | IssuerNoKey | BadIssuerKey pass_error | BadWallet pay_error | BadMint pay_error
  | ListExpired | ListOlder

fun check_all :: "('a \<Rightarrow> 'e + unit) \<Rightarrow> 'a list \<Rightarrow> 'e + unit" where
  "check_all f [] = Ok ()"
| "check_all f (x # xs) = bind_result (f x) (\<lambda>_. check_all f xs)"

definition map_err :: "('e \<Rightarrow> 'f) \<Rightarrow> 'e + 'a \<Rightarrow> 'f + 'a" where
  "map_err g r = (case r of Err e \<Rightarrow> Err (g e) | Ok x \<Rightarrow> Ok x)"

section \<open>The issuer a list names\<close>

definition check_address_opt :: "(pay_error \<Rightarrow> dir_error) \<Rightarrow> string option \<Rightarrow> dir_error + unit" where
  "check_address_opt g a = (case a of
      None \<Rightarrow> Ok ()
    | Some w \<Rightarrow> bind_result (map_err g (check_address w)) (\<lambda>_. Ok ()))"

definition validate_issuer :: "'a dir_env_scheme \<Rightarrow> pass_issuer \<Rightarrow> dir_error + unit" where
  "validate_issuer env i = (case url_parse (pi_url i) of
      Err _ \<Rightarrow> Err BadIssuerUrl
    | Ok _ \<Rightarrow>
        (if pi_keys i = [] then Err IssuerNoKey
         else bind_result (check_all (\<lambda>k. map_err BadIssuerKey (validate_key_record env k)) (pi_keys i)) (\<lambda>_.
              bind_result (check_address_opt BadWallet (pi_wallet i)) (\<lambda>_. check_address_opt BadMint (pi_mint i)))))"

definition pay_wallet :: "pass_issuer \<Rightarrow> string option" where
  "pay_wallet i = map_option trim (pi_wallet i)"

definition pay_mint :: "pass_issuer \<Rightarrow> string" where
  "pay_mint i = (case pi_mint i of Some m \<Rightarrow> trim m | None \<Rightarrow> HNET_MINT)"

section \<open>Reading a list\<close>

definition check_directory :: "'a dir_env_scheme \<Rightarrow> directory \<Rightarrow> dir_error + unit" where
  "check_directory env d =
     (if d_version d \<noteq> DIRECTORY_VERSION then Err ListVersion
      else if d_nodes d = [] \<and> d_removed d = [] then Err ListEmpty
      else bind_result (check_all (\<lambda>n. map_err BadNode (validate_record env n)) (d_nodes d)) (\<lambda>_.
           bind_result (case d_expires d of
               None \<Rightarrow> Ok ()
             | Some e \<Rightarrow> (case rfc3339_to_unix e of Err _ \<Rightarrow> Err BadListExpiry | Ok _ \<Rightarrow> Ok ())) (\<lambda>_.
           bind_result (check_all (\<lambda>k. bind_result (map_err BadRemovedKey (public_key_from_base64 env k)) (\<lambda>_. Ok ())) (d_removed d)) (\<lambda>_.
           case d_pass_issuer d of None \<Rightarrow> Ok () | Some i \<Rightarrow> validate_issuer env i))))"

definition from_json_unchecked :: "'a dir_env_scheme \<Rightarrow> string \<Rightarrow> dir_error + directory" where
  "from_json_unchecked env txt = (case parse_directory env txt of
      None \<Rightarrow> Err ListNotJson
    | Some d \<Rightarrow> bind_result (check_directory env d) (\<lambda>_. Ok d))"

definition string_of_bytes :: "bytes \<Rightarrow> string" where
  "string_of_bytes bs = map (\<lambda>b. char_of (unat b)) bs"

definition from_signed :: "'a dir_env_scheme \<Rightarrow> bytes \<Rightarrow> string \<Rightarrow> release_key \<Rightarrow> dir_error + directory" where
  "from_signed env lst sig key = (case release_verify env key lst sig of
      Err e \<Rightarrow> Err (NotAccepted e)
    | Ok _ \<Rightarrow>
        (if \<not> from_utf8 (string_of_bytes lst) then Err ListNotUtf8
         else from_json_unchecked env (string_of_bytes lst)))"

section \<open>Merging it\<close>

record merge =
  m_added :: "string list"
  m_skipped :: "(string \<times> pocket_error) list"
  m_removed :: "string list"
  m_updated :: "(string \<times> string) list"

definition merge_default :: merge where
  "merge_default = \<lparr>m_added = [], m_skipped = [], m_removed = [], m_updated = []\<rparr>"

definition merge_summary :: "merge \<Rightarrow> string" where
  "merge_summary m = ''added '' @ show_nat (length (m_added m)) @ '' node(s)''
     @ (if m_updated m \<noteq> [] then '', updated '' @ show_nat (length (m_updated m)) else [])
     @ (if m_skipped m \<noteq> [] then '', skipped '' @ show_nat (length (m_skipped m)) else [])
     @ (if m_removed m \<noteq> [] then '', removed '' @ show_nat (length (m_removed m)) else [])"

fun join_with :: "string \<Rightarrow> string list \<Rightarrow> string" where
  "join_with sep [] = []"
| "join_with sep [w] = w"
| "join_with sep (w # ws) = w @ sep @ join_with sep ws"

definition remove_key_step :: "string \<Rightarrow> pocket \<times> merge \<Rightarrow> pocket \<times> merge" where
  "remove_key_step key = (\<lambda>(p, m). case remove_by_key key p of
     (p', names) \<Rightarrow> (p', m\<lparr>m_removed := m_removed m @ names\<rparr>))"

definition merge_node :: "'a key_env_scheme \<Rightarrow> bool \<Rightarrow> string list \<Rightarrow> node_record \<Rightarrow> pocket \<times> merge \<Rightarrow> pocket \<times> merge" where
  "merge_node env newer removed n = (\<lambda>(p, m).
     if list_ex (\<lambda>k. trim k = r_key n) removed then (p, m)
     else (case learn env n p of
         (p', Ok _) \<Rightarrow> (p', m\<lparr>m_added := m_added m @ [nr_node_name n]\<rparr>)
       | (p', Err e) \<Rightarrow> (case (if newer then refresh n p' else (p', [])) of
           (p'', changed) \<Rightarrow>
             (p'', if changed = [] then m\<lparr>m_skipped := m_skipped m @ [(nr_node_name n, e)]\<rparr>
                   else m\<lparr>m_updated := m_updated m @ [(nr_node_name n, join_with '', '' changed)]\<rparr>))))"

definition merge_into :: "'a key_env_scheme \<Rightarrow> directory \<Rightarrow> pocket \<Rightarrow> pocket \<times> merge" where
  "merge_into env d p =
     (let newer = list_sequence p < d_sequence d;
          (p, m) = fold remove_key_step (d_removed d) (p, merge_default);
          (p, m) = fold (merge_node env newer (d_removed d)) (d_nodes d) (p, m);
          p = (if list_sequence p < d_sequence d then p\<lparr>list_sequence := d_sequence d\<rparr> else p);
          p = (if list_sequence p \<le> d_sequence d \<or> pocket_issuer p = None then p\<lparr>pocket_issuer := d_pass_issuer d\<rparr> else p)
      in (p, m))"

definition check_current :: "directory \<Rightarrow> pocket \<Rightarrow> int \<Rightarrow> dir_error + unit" where
  "check_current d p now =
     bind_result (case d_expires d of
         None \<Rightarrow> Ok ()
       | Some e \<Rightarrow> (case rfc3339_to_unix e of
           Err _ \<Rightarrow> Err BadListExpiry
         | Ok until \<Rightarrow> if until < now then Err ListExpired else Ok ())) (\<lambda>_.
     if d_sequence d < list_sequence p then Err ListOlder else Ok ())"

definition import_signed_at :: "'a dir_env_scheme \<Rightarrow> pocket \<Rightarrow> bytes \<Rightarrow> string \<Rightarrow> release_key option \<Rightarrow> int
    \<Rightarrow> pocket \<times> (dir_error + merge)" where
  "import_signed_at env p lst sig key now = (case key of
      None \<Rightarrow> (p, Err NoListKey)
    | Some key \<Rightarrow> (case from_signed env lst sig key of
        Err e \<Rightarrow> (p, Err e)
      | Ok d \<Rightarrow> (case check_current d p now of
          Err e \<Rightarrow> (p, Err e)
        | Ok _ \<Rightarrow> (case merge_into env d p of (p', m) \<Rightarrow> (p', Ok m)))))"

section \<open>The keys of a pocket\<close>

definition slot_keys :: "slot \<Rightarrow> pocket \<Rightarrow> string set" where
  "slot_keys s p = i_key ` set (slot_list s p)"

definition admitted_keys :: "pocket \<Rightarrow> string set" where
  "admitted_keys p = slot_keys Entry p \<union> slot_keys Exit p"

definition known_keys :: "pocket \<Rightarrow> string set" where
  "known_keys p = r_key ` set (known p)"

text \<open>What an operation on nodes leaves alone.\<close>

definition same_list :: "pocket \<Rightarrow> pocket \<Rightarrow> bool" where
  "same_list p q \<longleftrightarrow> list_sequence q = list_sequence p \<and> pocket_issuer q = pocket_issuer p"

lemma same_list_trans: "same_list p q \<Longrightarrow> same_list q r \<Longrightarrow> same_list p r"
  by (simp add: same_list_def)

lemma admitted_keys_iff: "list_ex (\<lambda>(_, i). i_key i = k) (pocket_iter p) \<longleftrightarrow> k \<in> admitted_keys p"
  unfolding list_ex_pocket by (auto simp: admitted_keys_def slot_keys_def slot_list_def)

lemma known_keys_iff: "list_ex (\<lambda>k. r_key k = x) (known p) \<longleftrightarrow> x \<in> known_keys p"
  by (auto simp: known_keys_def list_ex_iff)

lemma slot_keys_iff: "list_ex (\<lambda>i. i_key i = x) (slot_list s p) \<longleftrightarrow> x \<in> slot_keys s p"
  by (auto simp: slot_keys_def list_ex_iff)

lemma slot_list_set_slot [simp]:
  "slot_list s' (set_slot s l p) = (if s' = s then l else slot_list s' p)"
  "known (set_slot s l p) = known p" "same_list p (set_slot s l p)"
  by (cases s; cases s'; simp add: slot_list_def set_slot_def same_list_def)+

lemma same_list_refl [simp]: "same_list p p"
  by (simp add: same_list_def)

lemma remove_by_key_keys:
  "admitted_keys (fst (remove_by_key key p)) = admitted_keys p - {trim key}"
  "known_keys (fst (remove_by_key key p)) = known_keys p - {trim key}"
  "same_list p (fst (remove_by_key key p))"
  by (auto simp: remove_by_key_def Let_def admitted_keys_def slot_keys_def slot_list_def known_keys_def same_list_def)

lemma learn_keys:
  assumes "learn env n p = (p', r)"
  shows "admitted_keys p' = admitted_keys p" "same_list p p'"
    "known_keys p' = (if is_ok r then insert (r_key n) (known_keys p) else known_keys p)"
    "is_ok r \<Longrightarrow> r_key n \<notin> admitted_keys p \<union> known_keys p"
    "validate_record env n = Ok () \<Longrightarrow> \<not> is_ok r \<Longrightarrow> p' = p \<and> r_key n \<in> admitted_keys p \<union> known_keys p"
proof -
  have "known_keys (p\<lparr>known := known p @ [n]\<rparr>) = insert (r_key n) (known_keys p)"
    "admitted_keys (p\<lparr>known := known p @ [n]\<rparr>) = admitted_keys p" "same_list p (p\<lparr>known := known p @ [n]\<rparr>)"
    by (simp_all add: known_keys_def admitted_keys_def slot_keys_def slot_list_def same_list_def split: slot.splits)
  with assms show "admitted_keys p' = admitted_keys p" "same_list p p'"
    "known_keys p' = (if is_ok r then insert (r_key n) (known_keys p) else known_keys p)"
    "is_ok r \<Longrightarrow> r_key n \<notin> admitted_keys p \<union> known_keys p"
    "validate_record env n = Ok () \<Longrightarrow> \<not> is_ok r \<Longrightarrow> p' = p \<and> r_key n \<in> admitted_keys p \<union> known_keys p"
    unfolding learn_def admitted_keys_iff known_keys_iff by (auto split: sum.splits if_splits)
qed

lemma follow_role_keys:
  assumes "i_key c = key" "follow_role allowed key (Some c) s (p, ch) = (p', ch')"
  shows "slot_keys s p' = (if s \<in> set allowed then insert key (slot_keys s p) else slot_keys s p - {key})"
    "s' \<noteq> s \<Longrightarrow> slot_keys s' p' = slot_keys s' p" "known p' = known p" "same_list p p'"
  using assms unfolding follow_role_def Let_def prod.case slot_keys_iff
  by (auto simp: slot_keys_def rev_image_eqI split: if_splits)

lemma slots_for_role_some: "set (slots_for_role r) \<inter> {Entry, Exit} \<noteq> {}"
  by (simp add: slots_for_role_def)

lemma refresh_admitted_keys:
  assumes "r_key r \<in> admitted_keys p"
  shows "admitted_keys (fst (refresh_admitted r p)) = admitted_keys p"
    "known (fst (refresh_admitted r p)) = known p" "same_list p (fst (refresh_admitted r p))"
proof -
  define t where "t = list_ex (\<lambda>(_, i). trim (i_node_name i) = trim (nr_node_name r) \<and> i_key i \<noteq> r_key r) (pocket_iter p)"
  define f where "f = (\<lambda>i. if i_key i = r_key r then refresh_invite t r i else i)"
  define q where "q = p\<lparr>entries := map f (entries p), exits := map f (exits p)\<rparr>"
  let ?al = "slots_for_role (nr_role r)"
  have "i_key (f i) = i_key i" for i by (simp add: f_def)
  then have q: "slot_keys s q = slot_keys s p" "known q = known p" "same_list p q" for s
    by (cases s; simp add: q_def slot_keys_def slot_list_def image_image same_list_def)+
  have "list_ex (\<lambda>(_, i). i_key i = r_key r) (pocket_iter q)"
    using assms q(1) unfolding admitted_keys_iff by (simp add: admitted_keys_def)
  then obtain x where "find (\<lambda>(_, i). i_key i = r_key r) (pocket_iter q) = Some x"
    by (metis (mono_tags, lifting) find_None_iff list_ex_iff option.exhaust)
  then obtain c where c: "map_option snd (find (\<lambda>(_, i). i_key i = r_key r) (pocket_iter q)) = Some c" "i_key c = r_key r"
    by (auto dest: find_SomeD)
  define ch where "ch = remdups_adj (sort (concat (map (invite_changes t r) (filter (\<lambda>i. i_key i = r_key r) (entries p @ exits p)))))"
  have ch: "fst (refresh_admitted r p) = (if nr_role r = None then q
      else fst (follow_role ?al (r_key r) (Some c) Exit (follow_role ?al (r_key r) (Some c) Entry (q, ch))))"
    unfolding refresh_admitted_def Let_def t_def [symmetric] f_def [symmetric] q_def [symmetric] c(1) ch_def [symmetric] by simp
  obtain q1 c1 where q1: "follow_role ?al (r_key r) (Some c) Entry (q, ch) = (q1, c1)" by fastforce
  obtain q2 c2 where q2: "follow_role ?al (r_key r) (Some c) Exit (q1, c1) = (q2, c2)" by fastforce
  note k1 = follow_role_keys [OF c(2) q1] and k2 = follow_role_keys [OF c(2) q2]
  have "admitted_keys q2 = admitted_keys p"
    using assms slots_for_role_some [of "nr_role r"] k1(1) k2(1) k1(2) [of Exit] k2(2) [of Entry] q(1)
    by (auto simp: admitted_keys_def split: if_splits)
  moreover have "known q2 = known p" "same_list p q2"
    using k1(3,4) k2(3,4) q(2,3) by (auto intro: same_list_trans)
  ultimately show "admitted_keys (fst (refresh_admitted r p)) = admitted_keys p"
    "known (fst (refresh_admitted r p)) = known p" "same_list p (fst (refresh_admitted r p))"
    using q unfolding ch q1 q2 by (auto simp: admitted_keys_def)
qed

lemma refresh_keys:
  "admitted_keys (fst (refresh r p)) = admitted_keys p" "known_keys (fst (refresh r p)) = known_keys p"
  "same_list p (fst (refresh r p))"
proof -
  have "admitted_keys (fst (refresh r p)) = admitted_keys p \<and> known_keys (fst (refresh r p)) = known_keys p
    \<and> same_list p (fst (refresh r p))"
  proof (cases "position (\<lambda>k. r_key k = r_key r) (known p)")
    case None
    then show ?thesis
      unfolding refresh_def None option.case admitted_keys_iff
      using refresh_admitted_keys [of r p] by (simp add: known_keys_def same_list_def)
  next
    case (Some n)
    then have "r_key r = r_key (known p ! n)" by (auto dest: position_Some)
    then have "map r_key ((known p)[n := r]) = map r_key (known p)" by (rule map_same_update)
    then have "r_key ` set ((known p)[n := r]) = r_key ` set (known p)" by (metis set_map)
    with Some show ?thesis
      by (simp add: refresh_def Let_def known_keys_def admitted_keys_def slot_keys_def slot_list_def same_list_def split: slot.splits)
  qed
  then show "admitted_keys (fst (refresh r p)) = admitted_keys p" "known_keys (fst (refresh r p)) = known_keys p"
    "same_list p (fst (refresh r p))" by simp_all
qed

section \<open>What a merge does\<close>

lemma remove_steps:
  assumes "fold remove_key_step ks (p, m) = (p', m')"
  shows "admitted_keys p' = admitted_keys p - trim ` set ks" "known_keys p' = known_keys p - trim ` set ks" "same_list p p'"
    "pocket_inv p \<Longrightarrow> pocket_inv p'"
proof -
  have "admitted_keys p' = admitted_keys p - trim ` set ks \<and> known_keys p' = known_keys p - trim ` set ks \<and> same_list p p'
    \<and> (pocket_inv p \<longrightarrow> pocket_inv p')"
    using assms
  proof (induction ks arbitrary: p m)
    case (Cons k ks)
    obtain p1 m1 where 1: "remove_key_step k (p, m) = (p1, m1)" by fastforce
    then have "p1 = fst (remove_by_key k p)" by (auto simp: remove_key_step_def split: prod.splits)
    with Cons.IH [of p1 m1] Cons.prems 1 remove_by_key_keys [where key = k and p = p] pocket_inv_remove_by_key [of p k]
    show ?case by (auto intro: same_list_trans)
  qed simp
  then show "admitted_keys p' = admitted_keys p - trim ` set ks" "known_keys p' = known_keys p - trim ` set ks" "same_list p p'"
    "pocket_inv p \<Longrightarrow> pocket_inv p'" by simp_all
qed

lemma merge_node_keys:
  assumes "validate_record env n = Ok ()" "merge_node env newer removed n (p, m) = (p', m')"
  shows "admitted_keys p' = admitted_keys p"
    "known_keys p' = (if r_key n \<in> trim ` set removed \<union> admitted_keys p then known_keys p else insert (r_key n) (known_keys p))"
    "same_list p p'" "pocket_inv p \<Longrightarrow> pocket_inv p'"
proof -
  obtain q r where q: "learn env n p = (q, r)" by fastforce
  note l = learn_keys [OF q]
  have "p' = p \<and> r_key n \<in> trim ` set removed \<or> r_key n \<notin> trim ` set removed \<and> is_ok r \<and> p' = q
     \<or> r_key n \<notin> trim ` set removed \<and> \<not> is_ok r \<and> (p' = q \<or> p' = fst (refresh n q))"
    using assms(2) q unfolding merge_node_def
    by (auto simp: list_ex_iff rev_image_eqI split: sum.splits if_splits prod.splits)
  with l(5) [OF assms(1)] consider "p' = p" "r_key n \<in> trim ` set removed"
    | "r_key n \<notin> trim ` set removed" "is_ok r" "p' = q"
    | "r_key n \<notin> trim ` set removed" "r_key n \<in> admitted_keys p \<union> known_keys p" "p' = p \<or> p' = fst (refresh n p)"
    by auto
  then have "admitted_keys p' = admitted_keys p
    \<and> known_keys p' = (if r_key n \<in> trim ` set removed \<union> admitted_keys p then known_keys p else insert (r_key n) (known_keys p))
    \<and> same_list p p' \<and> (pocket_inv p \<longrightarrow> pocket_inv p')"
  proof cases
    case 2
    with l q pocket_inv_learn [of p env n] show ?thesis by auto
  next
    case 3
    with refresh_keys [where r = n and p = p] pocket_inv_refresh [of p n] show ?thesis by auto
  qed simp
  then show "admitted_keys p' = admitted_keys p"
    "known_keys p' = (if r_key n \<in> trim ` set removed \<union> admitted_keys p then known_keys p else insert (r_key n) (known_keys p))"
    "same_list p p'" "pocket_inv p \<Longrightarrow> pocket_inv p'" by simp_all
qed

lemma merge_nodes_keys:
  assumes "list_all (\<lambda>n. validate_record env n = Ok ()) ns" "fold (merge_node env newer removed) ns (p, m) = (p', m')"
  shows "admitted_keys p' = admitted_keys p"
    "known_keys p' = known_keys p \<union> (r_key ` set ns - trim ` set removed - admitted_keys p)"
    "same_list p p'" "pocket_inv p \<Longrightarrow> pocket_inv p'"
proof -
  have "admitted_keys p' = admitted_keys p
    \<and> known_keys p' = known_keys p \<union> (r_key ` set ns - trim ` set removed - admitted_keys p)
    \<and> same_list p p' \<and> (pocket_inv p \<longrightarrow> pocket_inv p')"
    using assms
  proof (induction ns arbitrary: p m)
    case (Cons n ns)
    obtain p1 m1 where 1: "merge_node env newer removed n (p, m) = (p1, m1)" by fastforce
    have v: "validate_record env n = Ok ()" "list_all (\<lambda>n. validate_record env n = Ok ()) ns" using Cons.prems(1) by simp_all
    note k = merge_node_keys [OF v(1) 1]
    from Cons.IH [OF v(2), of p1 m1] Cons.prems(2) 1 k show ?case by (auto intro: same_list_trans split: if_splits)
  qed simp
  then show "admitted_keys p' = admitted_keys p"
    "known_keys p' = known_keys p \<union> (r_key ` set ns - trim ` set removed - admitted_keys p)"
    "same_list p p'" "pocket_inv p \<Longrightarrow> pocket_inv p'" by simp_all
qed

lemma merge_into_keys:
  assumes "list_all (\<lambda>n. validate_record env n = Ok ()) (d_nodes d)" "list_sequence p \<le> d_sequence d" "merge_into env d p = (p', m)"
  shows "admitted_keys p' = admitted_keys p - trim ` set (d_removed d)"
    "known_keys p' = (known_keys p \<union> (r_key ` set (d_nodes d) - admitted_keys p)) - trim ` set (d_removed d)"
    "list_sequence p' = d_sequence d" "pocket_issuer p' = d_pass_issuer d" "pocket_inv p \<Longrightarrow> pocket_inv p'"
proof -
  obtain p1 m1 where 1: "fold remove_key_step (d_removed d) (p, merge_default) = (p1, m1)" by fastforce
  obtain p2 m2 where 2: "fold (merge_node env (list_sequence p < d_sequence d) (d_removed d)) (d_nodes d) (p1, m1) = (p2, m2)"
    by fastforce
  note r = remove_steps [OF 1] and n = merge_nodes_keys [OF assms(1) 2]
  have s: "list_sequence p2 = list_sequence p" using r(3) n(3) by (simp add: same_list_def)
  have p': "p' = p2\<lparr>list_sequence := d_sequence d, pocket_issuer := d_pass_issuer d\<rparr>"
    using assms(2,3) s by (auto simp: merge_into_def 1 2 Let_def split: if_splits)
  have k: "admitted_keys p' = admitted_keys p2" "known_keys p' = known_keys p2" "pocket_inv p' = pocket_inv p2"
    unfolding p' by (simp_all add: admitted_keys_def slot_keys_def slot_list_def known_keys_def pocket_inv_def split: slot.splits)
  show "admitted_keys p' = admitted_keys p - trim ` set (d_removed d)" using k(1) n(1) r(1) by simp
  show "known_keys p' = (known_keys p \<union> (r_key ` set (d_nodes d) - admitted_keys p)) - trim ` set (d_removed d)"
    using k(2) n(2) r(1,2) by auto
  show "list_sequence p' = d_sequence d" "pocket_issuer p' = d_pass_issuer d" by (simp_all add: p')
  show "pocket_inv p \<Longrightarrow> pocket_inv p'" using k(3) r(4) n(4) by simp
qed

section \<open>The whole import\<close>

lemma check_all_Ok: "check_all f xs = Ok () \<longleftrightarrow> list_all (\<lambda>x. f x = Ok ()) xs"
  by (induction xs) simp_all

lemma map_err_Ok [simp]: "map_err g r = Ok x \<longleftrightarrow> r = Ok x"
  by (cases r) (simp_all add: map_err_def)

lemma checked_directory:
  assumes "from_json_unchecked env txt = Ok d"
  shows "list_all (\<lambda>n. validate_record env n = Ok ()) (d_nodes d)" "d_pass_issuer d = Some i \<Longrightarrow> validate_issuer env i = Ok ()"
proof -
  have c: "check_directory env d = Ok ()" using assms by (auto simp: from_json_unchecked_def split: option.splits)
  then show "list_all (\<lambda>n. validate_record env n = Ok ()) (d_nodes d)"
    unfolding check_directory_def if_Ok bind_result_eq_Ok by (simp add: check_all_Ok)
  show "d_pass_issuer d = Some i \<Longrightarrow> validate_issuer env i = Ok ()"
    using c unfolding check_directory_def if_Ok bind_result_eq_Ok by simp
qed

lemma check_current_Ok:
  assumes "check_current d p now = Ok ()"
  shows "list_sequence p \<le> d_sequence d" "\<forall>e. d_expires d = Some e \<longrightarrow> (\<exists>t. rfc3339_to_unix e = Ok t \<and> now \<le> t)"
  using assms by (auto simp: check_current_def split: option.splits sum.splits if_splits)

lemma import_signed_Ok:
  assumes "import_signed_at env p lst sig key now = (p', Ok m)"
  obtains k d where "key = Some k" "release_verify env k lst sig = Ok ()" "from_json_unchecked env (string_of_bytes lst) = Ok d"
    "check_current d p now = Ok ()" "merge_into env d p = (p', m)"
proof -
  obtain k where k: "key = Some k" using assms by (auto simp: import_signed_at_def split: option.splits)
  obtain d where d: "from_signed env lst sig k = Ok d" "check_current d p now = Ok ()" "merge_into env d p = (p', m)"
    using assms k by (auto simp: import_signed_at_def split: sum.splits prod.splits)
  have "release_verify env k lst sig = Ok ()" "from_json_unchecked env (string_of_bytes lst) = Ok d"
    using d(1) by (auto simp: from_signed_def split: sum.splits if_splits)
  with k d(2,3) that show ?thesis by blast
qed

lemma import_signed_Err: "import_signed_at env p lst sig key now = (p', Err e) \<Longrightarrow> p' = p"
  by (auto simp: import_signed_at_def split: option.splits sum.splits prod.splits)

text \<open>
  Claim C14. What importing a signed list does, exactly. A refused import leaves the pocket as it
  was. One that succeeds had a list key and a signature of that key over the very
  bytes read, a list that has not expired and is not older than the one the pocket
  holds; afterwards the pocket holds that list's sequence and its pass issuer, the
  nodes it was admitted on are those of before less the withdrawn ones, and the nodes
  it knows are those of before and those of the list it is not admitted on, less the
  withdrawn ones.
\<close>

theorem import_signed_exact:
  "case import_signed_at env p lst sig key now of
     (p', Err e) \<Rightarrow> p' = p
   | (p', Ok m) \<Rightarrow> \<exists>k d. key = Some k \<and> release_verify env k lst sig = Ok ()
       \<and> from_json_unchecked env (string_of_bytes lst) = Ok d
       \<and> (\<forall>e. d_expires d = Some e \<longrightarrow> (\<exists>t. rfc3339_to_unix e = Ok t \<and> now \<le> t))
       \<and> list_sequence p \<le> d_sequence d \<and> list_sequence p' = d_sequence d \<and> pocket_issuer p' = d_pass_issuer d
       \<and> admitted_keys p' = admitted_keys p - trim ` set (d_removed d)
       \<and> known_keys p' = (known_keys p \<union> (r_key ` set (d_nodes d) - admitted_keys p)) - trim ` set (d_removed d)"
proof -
  obtain p' r where i: "import_signed_at env p lst sig key now = (p', r)" by fastforce
  show ?thesis
  proof (cases r)
    case (Inl e)
    with i show ?thesis by (auto dest: import_signed_Err)
  next
    case (Inr m)
    with i have "import_signed_at env p lst sig key now = (p', Ok m)" by simp
    then obtain k d where d: "key = Some k" "release_verify env k lst sig = Ok ()"
        "from_json_unchecked env (string_of_bytes lst) = Ok d" "check_current d p now = Ok ()" "merge_into env d p = (p', m)"
      by (rule import_signed_Ok)
    note c = check_current_Ok [OF d(4)]
    have "\<exists>k d. key = Some k \<and> release_verify env k lst sig = Ok ()
       \<and> from_json_unchecked env (string_of_bytes lst) = Ok d
       \<and> (\<forall>e. d_expires d = Some e \<longrightarrow> (\<exists>t. rfc3339_to_unix e = Ok t \<and> now \<le> t))
       \<and> list_sequence p \<le> d_sequence d \<and> list_sequence p' = d_sequence d \<and> pocket_issuer p' = d_pass_issuer d
       \<and> admitted_keys p' = admitted_keys p - trim ` set (d_removed d)
       \<and> known_keys p' = (known_keys p \<union> (r_key ` set (d_nodes d) - admitted_keys p)) - trim ` set (d_removed d)"
      by (intro exI conjI) (rule d c merge_into_keys [OF checked_directory(1) [OF d(3)] c(1) d(5)])+
    with i Inr show ?thesis by simp
  qed
qed

section \<open>Every reachable pocket\<close>

inductive pocket_step :: "'a dir_env_scheme \<Rightarrow> pocket \<Rightarrow> pocket \<Rightarrow> bool" for env where
  add: "pocket_step env p (fst (pocket_add env s i p))"
| replace: "pocket_step env p (fst (pocket_replace env i p))"
| remove: "pocket_step env p (fst (pocket_remove name p))"
| import_list: "pocket_step env p (fst (import_signed_at env p lst sig key now))"

definition issuer_ok :: "'a dir_env_scheme \<Rightarrow> pocket \<Rightarrow> bool" where
  "issuer_ok env p \<longleftrightarrow> (\<forall>i. pocket_issuer p = Some i \<longrightarrow> validate_issuer env i = Ok ())"

lemma same_list_add: "same_list p (fst (pocket_add env s i p))"
  by (cases s) (auto simp: pocket_add_def Let_def set_slot_def same_list_def split: sum.splits)

lemma same_list_add_all: "same_list p (fst (add_all env ss i p))"
proof (induction ss arbitrary: p)
  case (Cons s ss)
  obtain q r where q: "pocket_add env s i p = (q, r)" by fastforce
  with same_list_add [of p env s i] Cons [of q] show ?case by (cases r) (auto intro: same_list_trans)
qed simp

lemma same_list_replace: "same_list p (fst (pocket_replace env i p))"
proof -
  let ?kd = "i_pass i \<noteq> None \<and> direct_pass i = None"
  let ?p = "p\<lparr>entries := map (replace_in ?kd i) (entries p), exits := map (replace_in ?kd i) (exits p)\<rparr>"
  let ?q = "if list_ex (\<lambda>x. i_key x = i_key i) (entries p @ exits p) then (?p, Ok ()) else add_all env (slots_for_role (i_role i)) i ?p"
  obtain q r where q: "?q = (q, r)" by (cases ?q)
  have "same_list ?p (fst ?q)"
    by (cases "list_ex (\<lambda>x. i_key x = i_key i) (entries p @ exits p)")
      (simp_all only: if_True if_False fst_conv same_list_refl same_list_add_all)
  then have "same_list p q" unfolding q by (simp add: same_list_def)
  then show ?thesis
    unfolding pocket_replace_def Let_def q by (auto simp: same_list_def split: sum.splits)
qed

lemma pocket_step_keeps:
  assumes "pocket_step env p q"
  shows "pocket_inv p \<Longrightarrow> pocket_inv q" "list_sequence p \<le> list_sequence q" "issuer_ok env p \<Longrightarrow> issuer_ok env q"
proof -
  have "(pocket_inv p \<longrightarrow> pocket_inv q) \<and> list_sequence p \<le> list_sequence q \<and> (issuer_ok env p \<longrightarrow> issuer_ok env q)"
    using assms
  proof cases
    case (add s i)
    with same_list_add [of p env s i] pocket_inv_add [of p env s i] show ?thesis by (auto simp: same_list_def issuer_ok_def)
  next
    case (replace i)
    with same_list_replace [of p env i] pocket_inv_replace [of p env i] show ?thesis by (auto simp: same_list_def issuer_ok_def)
  next
    case (remove name)
    have "same_list p (fst (pocket_remove name p))" by (simp add: pocket_remove_def Let_def same_list_def)
    with remove pocket_inv_remove [of p name] show ?thesis by (auto simp: same_list_def issuer_ok_def)
  next
    case (import_list lst sig key now)
    obtain p' r where i: "import_signed_at env p lst sig key now = (p', r)" by fastforce
    show ?thesis
    proof (cases r)
      case (Inl e)
      with i have "p' = p" by (auto dest: import_signed_Err)
      with i import_list show ?thesis by simp
    next
      case (Inr m)
      with i have "import_signed_at env p lst sig key now = (p', Ok m)" by simp
      then obtain k d where d: "from_json_unchecked env (string_of_bytes lst) = Ok d" "check_current d p now = Ok ()" "merge_into env d p = (p', m)"
        by (rule import_signed_Ok)
      note c = check_current_Ok [OF d(2)] and f = checked_directory [OF d(1)]
      note m = merge_into_keys [OF f(1) c(1) d(3)]
      show ?thesis using import_list i c(1) m(3,4,5) f(2) by (auto simp: issuer_ok_def)
    qed
  qed
  then show "pocket_inv p \<Longrightarrow> pocket_inv q" "list_sequence p \<le> list_sequence q" "issuer_ok env p \<Longrightarrow> issuer_ok env q" by simp_all
qed

text \<open>
  Claim C29. Every pocket reached from another by adding, replacing and removing nodes and by
  importing signed lists keeps its shape: no node is twice in a list, none is known and
  admitted at once, the pass issuer it names is a valid one, and the sequence of its
  list never goes back. Starting from the empty pocket, all of this holds.
\<close>

theorem reachable_pocket_sound:
  assumes "(pocket_step env)\<^sup>*\<^sup>* p q"
  shows "list_sequence p \<le> list_sequence q
    \<and> (p = empty_pocket \<or> pocket_inv p \<and> issuer_ok env p \<longrightarrow> pocket_inv q \<and> issuer_ok env q)"
proof -
  have "issuer_ok env empty_pocket" by (simp add: issuer_ok_def empty_pocket_def)
  moreover have "list_sequence p \<le> list_sequence q \<and> (pocket_inv p \<and> issuer_ok env p \<longrightarrow> pocket_inv q \<and> issuer_ok env q)"
    using assms by (induction rule: rtranclp_induct) (auto dest: pocket_step_keeps order_trans)
  ultimately show ?thesis using pocket_inv_empty by auto
qed

section \<open>Two departures from the comments\<close>

text \<open>
  A known record is replaced only when one of the fields compared differs, and the
  features are not compared: a newer list that says only that a node now takes
  sessions changes nothing for a node the pocket knows.
\<close>

lemma refresh_ignores_features:
  assumes "known p = [k]"
  shows "refresh (k\<lparr>nr_features := fs\<rparr>) p = (p, [])"
  using assms by (simp add: refresh_def known_changes_def)

text \<open>
  A merge on its own takes the issuer of a list older than the pocket's when the
  pocket has none; only the check that precedes every import keeps an old issuer away.
\<close>

lemma older_list_brings_issuer:
  "pocket_issuer (fst (merge_into env (d\<lparr>d_sequence := 0, d_nodes := [], d_removed := []\<rparr>) (empty_pocket\<lparr>list_sequence := Suc n\<rparr>)))
     = d_pass_issuer d"
  by (simp add: merge_into_def empty_pocket_def)

section \<open>A list imported\<close>

definition sample_list :: directory where
  "sample_list = \<lparr>d_version = 1, d_generated = [], d_sequence = 7, d_expires = None, d_removed = [], d_note = None,
     d_nodes = [invite_record sample_invite], d_pass_issuer = None\<rparr>"

definition sample_dir_env :: dir_env where
  "sample_dir_env = \<lparr>b64_encode = b64_encode sample_env, b64_decode = b64_decode sample_env, x25519_public = x25519_public sample_env,
     hkdf_sha256 = hkdf_sha256 sample_env, hex_encode = hex_encode sample_env, hex_decode = hex_decode sample_env,
     sha256 = sha256 sample_env, rsa_from_spki = rsa_from_spki sample_env, rsa_to_spki = rsa_to_spki sample_env,
     rsa_modulus = rsa_modulus sample_env, rsa_generate = rsa_generate sample_env, rsa_from_der = rsa_from_der sample_env,
     rsa_to_der = rsa_to_der sample_env, rsa_public = rsa_public sample_env, rsa_blind = rsa_blind sample_env,
     rsa_blind_sign = rsa_blind_sign sample_env, rsa_finalize = rsa_finalize sample_env, rsa_verify = rsa_verify sample_env,
     ed_key_ok = (\<lambda>k. length k = 32), ed_verify = (\<lambda>k data sig. sig = take 64 (k @ data @ replicate 64 0)),
     parse_directory = (\<lambda>s. if s = ''{}'' then Some sample_list else None)\<rparr>"

definition sample_list_key :: release_key where
  "sample_list_key = ReleaseKey (replicate 32 1)"

definition sample_signature :: string where
  "sample_signature = b64_encode sample_env (replicate 32 1 @ [123, 125] @ replicate 30 0)"

lemma sample_record_valid: "validate_record sample_dir_env (invite_record sample_invite) = Ok ()"
proof -
  have "b64_ok sample_dir_env" using sample_env_ok(1) by (simp add: b64_ok_def sample_dir_env_def)
  then have "public_key_from_base64 sample_dir_env (b64_encode sample_dir_env (replicate 32 9)) = Ok (replicate 32 9)"
    by (rule key_roundtrip(2)) simp
  then have k: "public_key_from_base64 sample_dir_env sample_node_key = Ok (replicate 32 9)"
    by (simp add: sample_node_key_def sample_dir_env_def)
  have t: "trim ''fi-1'' = ''fi-1''" "trim ''both'' = ''both''" "trim ''open'' = ''open''"
    by (rule trim_graphic, simp add: is_graphic_def)+
  have "list_all name_char ''fi-1''" "\<not> longer_than 64 (Some ''alice'')" "one_of [''entry'', ''exit'', ''both''] (Some ''both'')"
    "one_of [''open'', ''manual'', ''pass''] (Some ''open'')" "list_all feature_ok [SESSIONS, ADMISSION_RELAY]"
    unfolding one_of_def option.case t by code_simp+
  with k t sample_endpoint show ?thesis
    by (simp add: validate_record_def invite_record_def sample_invite_def is_ipv4_def check_country_def longer_than_def)
qed

lemma sample_import:
  "import_signed_at sample_dir_env empty_pocket [123, 125] sample_signature (Some sample_list_key) 0
     = (empty_pocket\<lparr>known := [invite_record sample_invite], list_sequence := 7\<rparr>,
        Ok (merge_default\<lparr>m_added := [''fi-1'']\<rparr>))"
proof -
  have v: "release_verify sample_dir_env sample_list_key [123, 125] sample_signature = Ok ()"
    using b64_okD [OF sample_env_ok(1)] by (simp add: sample_list_key_def sample_signature_def sample_dir_env_def)
  have j: "string_of_bytes [123, 125] = ''{}''" "from_utf8 ''{}''" by code_simp+
  have "check_directory sample_dir_env sample_list = Ok ()"
    using sample_record_valid by (simp add: check_directory_def sample_list_def DIRECTORY_VERSION_def)
  moreover have "parse_directory sample_dir_env ''{}'' = Some sample_list" by (simp add: sample_dir_env_def)
  ultimately have "from_json_unchecked sample_dir_env ''{}'' = Ok sample_list" by (simp add: from_json_unchecked_def)
  with v j have "from_signed sample_dir_env [123, 125] sample_signature sample_list_key = Ok sample_list"
    by (simp add: from_signed_def)
  moreover have "learn sample_dir_env (invite_record sample_invite) empty_pocket
      = (empty_pocket\<lparr>known := [invite_record sample_invite]\<rparr>, Ok ())"
    using sample_record_valid by (simp add: learn_def pocket_iter_def empty_pocket_def)
  ultimately show ?thesis
    by (simp add: import_signed_at_def check_current_def merge_into_def merge_node_def sample_list_def empty_pocket_def Let_def)
      (simp add: invite_record_def sample_invite_def merge_default_def)
qed

theorem import_signed_exact_witness:
  "list_sequence (fst (import_signed_at sample_dir_env empty_pocket [123, 125] sample_signature (Some sample_list_key) 0)) = 7
   \<and> (\<exists>d. from_json_unchecked sample_dir_env (string_of_bytes [123, 125]) = Ok d \<and> d_sequence d = 7)"
  using import_signed_exact [where env = sample_dir_env and p = empty_pocket and lst = "[123, 125]" and sig = sample_signature
      and key = "Some sample_list_key" and now = 0]
  unfolding sample_import by auto

theorem reachable_pocket_sound_witness:
  "(pocket_step sample_dir_env)\<^sup>*\<^sup>* empty_pocket (empty_pocket\<lparr>known := [invite_record sample_invite], list_sequence := 7\<rparr>)
   \<and> pocket_inv (empty_pocket\<lparr>known := [invite_record sample_invite], list_sequence := 7\<rparr>)"
proof -
  have "pocket_step sample_dir_env empty_pocket (empty_pocket\<lparr>known := [invite_record sample_invite], list_sequence := 7\<rparr>)"
    using pocket_step.import_list [where env = sample_dir_env and p = empty_pocket and lst = "[123, 125]" and sig = sample_signature
        and key = "Some sample_list_key" and now = 0]
    by (simp add: sample_import)
  then have "(pocket_step sample_dir_env)\<^sup>*\<^sup>* empty_pocket (empty_pocket\<lparr>known := [invite_record sample_invite], list_sequence := 7\<rparr>)" ..
  with reachable_pocket_sound [OF this] show ?thesis by blast
qed

end
