(* ===== verification/Ipv6_Text.thy ===== *)
theory Ipv6_Text
  imports Http
begin

unbundle bit_operations_syntax

text \<open>
  The text of an IPv6 address and back: what \<^verbatim>\<open>Display\<close> writes for an \<^verbatim>\<open>Ipv6Addr\<close>
  (the longest run of zeros as \<open>::\<close>, an IPv4-mapped address with its IPv4 part in
  decimals) \<^verbatim>\<open>FromStr\<close> reads as the same address. The addresses a node hands out
  travel to its clients this way.
\<close>

section \<open>One group\<close>

definition group_end :: "string \<Rightarrow> bool" where
  "group_end rest \<longleftrightarrow> rest = [] \<or> hd rest = CHR '':''"

lemma read_group_hex:
  fixes g :: u16
  assumes "group_end rest"
  shows "read_group (show_hex (unat g) @ rest) = Some (g, rest)"
proof -
  have "read_run is_ascii_hexdigit 4 (show_hex (unat g) @ rest) = Some (show_hex (unat g), rest)"
    using assms show_hex_digits [of "unat g"] length_show_segment [of g]
    by (intro read_run_digits) (auto simp: group_end_def show_hex_def is_ascii_hexdigit_def is_ascii_digit_def)
  then show ?thesis using show_hex_digits [of "unat g"] by (simp add: read_group_def)
qed

lemma read_ipv4_group:
  assumes "list_all is_ascii_hexdigit ds" "group_end rest"
  shows "read_ipv4 (ds @ rest) = None"
proof (cases "read_octet (ds @ rest)")
  case (Some p)
  obtain b t where p: "p = (b, t)" by (cases p)
  have t: "t = dropWhile is_ascii_digit (ds @ rest)"
    using Some p by (auto simp: read_octet_def read_run_def Let_def split: if_splits option.splits)
  have "t = [] \<or> hd t \<noteq> CHR ''.''"
  proof (cases "dropWhile is_ascii_digit ds")
    case Nil
    then have "t = dropWhile is_ascii_digit rest" unfolding t by (simp add: dropWhile_append)
    also have "\<dots> = rest" using assms(2) by (cases rest) (auto simp: group_end_def is_ascii_digit_def)
    finally show ?thesis using assms(2) by (auto simp: group_end_def)
  next
    case (Cons x xs)
    then have "t = x # xs @ rest" unfolding t by (auto simp: dropWhile_append dropWhile_eq_Nil_conv [THEN iffD2])
    moreover have "x \<in> set ds" using Cons set_dropWhileD [of x is_ascii_digit ds] by simp
    ultimately show ?thesis using assms(1) by (auto simp: list_all_iff is_ascii_hexdigit_def is_ascii_digit_def)
  qed
  then have "read_octets 3 t = None" by (cases t) (auto simp: numeral_3_eq_3 read_char_def)
  with Some p show ?thesis by (simp add: read_ipv4_def)
qed (simp add: read_ipv4_def)

lemma no_group_here:
  "read_ipv4 (CHR '':'' # t) = None" "read_group (CHR '':'' # t) = None" "read_ipv4 [] = None" "read_group [] = None"
  by (simp_all add: read_ipv4_def read_octet_def read_group_def read_run_def is_ascii_digit_def is_ascii_hexdigit_def)

lemma no_group_at:
  assumes "rest = [] \<or> take 2 rest = ''::''"
  shows "read_groups i n rest = ([], False, rest)"
proof (cases n)
  case (Suc m)
  from assms consider "rest = []" | t where "rest = CHR '':'' # CHR '':'' # t"
    by (cases rest rule: remdups_adj.cases) (auto simp: numeral_2_eq_2)
  then show ?thesis using Suc by cases (simp_all add: after_sep_def read_char_def no_group_here)
qed simp

section \<open>Groups\<close>

definition sep_groups :: "nat \<Rightarrow> u16 list \<Rightarrow> string" where
  "sep_groups i gs = (if i = 0 \<or> gs = [] then fmt_subslice gs else CHR '':'' # fmt_subslice gs)"

lemma sep_groups_Cons:
  "sep_groups i (g # gs) = (if i = 0 then [] else '':'') @ show_hex (unat g) @ sep_groups (Suc i) gs"
  by (cases gs) (simp_all add: sep_groups_def)

lemma sep_groups_Nil [simp]: "sep_groups i [] = []"
  by (simp add: sep_groups_def)

lemma group_end_sep: "group_end rest \<Longrightarrow> group_end (sep_groups (Suc i) gs @ rest)"
  by (auto simp: sep_groups_def group_end_def)

lemma read_groups_show:
  assumes "length gs \<le> n" "length gs = n \<and> group_end rest \<or> rest = [] \<or> take 2 rest = ''::''"
  shows "read_groups i n (sep_groups i gs @ rest) = (gs, False, rest)"
  using assms
proof (induction gs arbitrary: i n)
  case Nil
  then show ?case using no_group_at [of rest i n] by (cases "n = 0") (auto simp: sep_groups_def)
next
  case (Cons g gs)
  then obtain m where m: "n = Suc m" by (cases n) auto
  have e: "group_end rest" using Cons.prems(2) by (cases rest) (auto simp: group_end_def numeral_2_eq_2)
  let ?r = "sep_groups (Suc i) gs @ rest"
  have r: "read_ipv4 (show_hex (unat g) @ ?r) = None" "read_group (show_hex (unat g) @ ?r) = Some (g, ?r)"
    using read_ipv4_group [OF _ group_end_sep [OF e]] show_hex_digits read_group_hex [OF group_end_sep [OF e]] by auto
  have "after_sep i (sep_groups i (g # gs) @ rest) = Some (show_hex (unat g) @ ?r)"
    by (simp add: sep_groups_Cons after_sep_def read_char_def)
  then show ?case using r Cons.IH [of m "Suc i"] Cons.prems by (cases "m = 0") (simp_all add: m)
qed

lemmas read_first_groups = read_groups_show [where i = 0, simplified sep_groups_def, simplified]

section \<open>The longest run of zeros\<close>

definition zero_run :: "u16 list \<Rightarrow> nat \<times> nat \<Rightarrow> bool" where
  "zero_run segs = (\<lambda>(s, l). s + l \<le> length segs \<and> (\<forall>k. s \<le> k \<and> k < s + l \<longrightarrow> segs ! k = 0))"

lemma zero_span_run:
  assumes "zero_run (pre @ ss) longest" "zero_run (pre @ ss) cur" "snd cur = 0 \<or> fst cur + snd cur = length pre"
  shows "zero_run (pre @ ss) (zero_span (length pre) cur longest ss)"
  using assms
proof (induction ss arbitrary: pre cur longest)
  case (Cons s ss)
  let ?c = "(if snd cur = 0 then length pre else fst cur, snd cur + 1)"
  have "zero_run ((pre @ [s]) @ ss) ?c" if "s = 0"
    using Cons.prems(2,3) that by (auto simp: zero_run_def nth_append less_Suc_eq split: if_splits)
  moreover have "zero_run ((pre @ [s]) @ ss) (0, 0)" by (simp add: zero_run_def)
  ultimately show ?case
    using Cons.prems Cons.IH [of "pre @ [s]" longest ?c] Cons.IH [of "pre @ [s]" ?c ?c] Cons.IH [of "pre @ [s]" longest "(0, 0)"]
    by (auto simp: Let_def)
qed simp

lemma zero_span_split:
  assumes "zero_span 0 (0, 0) (0, 0) segs = (s, l)"
  shows "take s segs @ replicate l 0 @ drop (s + l) segs = segs" "s + l \<le> length segs"
proof -
  have z: "zero_run segs (s, l)"
    using zero_span_run [of "[]" segs "(0, 0)" "(0, 0)"] assms by (simp add: zero_run_def)
  then show "s + l \<le> length segs" by (simp add: zero_run_def)
  with z show "take s segs @ replicate l 0 @ drop (s + l) segs = segs"
    by (intro nth_equalityI) (auto simp: zero_run_def nth_append min_def)
qed

section \<open>The whole address\<close>

lemma ipv6_of_segments_take: "k \<le> 8 \<Longrightarrow> ipv6_of_segments (map (\<lambda>i. segment i a) [0..<k]) = drop_bit (16 * (8 - k)) a"
proof (induction k)
  case 0
  have "drop_bit 128 a = 0" by (rule bit_word_eqI) (simp add: bit_drop_bit_eq)
  then show ?case by (simp add: ipv6_of_segments_def)
next
  case (Suc k)
  let ?b = "drop_bit (16 * (7 - k)) a"
  have "ucast (segment k a) = take_bit 16 ?b"
    by (rule bit_word_eqI) (auto simp: segment_def bit_ucast_iff bit_take_bit_iff)
  moreover have "16 * (8 - k) = 16 + 16 * (7 - k)" using Suc.prems by simp
  then have "drop_bit (16 * (8 - k)) a = drop_bit 16 ?b" by (simp only: drop_bit_drop_bit add.commute)
  moreover have "push_bit 16 (drop_bit 16 ?b) + take_bit 16 ?b = ?b" by (rule bits_ident)
  ultimately show ?case
    using Suc by (simp add: ipv6_of_segments_def push_bit_eq_mult)
qed

lemma ipv6_of_segments_all: "ipv6_of_segments (map (\<lambda>i. segment i a) [0..<8]) = a"
  using ipv6_of_segments_take [of 8 a] by simp

lemma read_mapped:
  "read_ipv6 (''::ffff:'' @ show_ipv4 v) = Some (ipv6_of_segments [0, 0, 0, 0, 0, 0xFFFF, ucast (drop_bit 16 v), ucast v], [])"
proof -
  have "hex_number ''ffff'' = 65535" "list_all is_ascii_hexdigit ''ffff''"
    by (simp_all add: hex_number_def hex_val_def is_ascii_hexdigit_def is_ascii_digit_def is_ascii_lowercase_def)
  then have f: "read_ipv4 (''ffff'' @ CHR '':'' # t) = None" "read_group (''ffff'' @ CHR '':'' # t) = Some (0xFFFF, CHR '':'' # t)" for t
    using read_ipv4_group [of "''ffff''" "CHR '':'' # t"] read_run_digits [of is_ascii_hexdigit "''ffff''" 4 "CHR '':'' # t"]
    by (simp_all add: group_end_def read_group_def is_ascii_hexdigit_def is_ascii_digit_def)
  have "read_groups 1 6 (CHR '':'' # show_ipv4 v) = ([ucast (drop_bit 16 v), ucast v], True, [])"
    using read_show_ipv4 [of "[]" v] by (simp add: eval_nat_numeral after_sep_def read_char_def)
  moreover have "(7 :: nat) = Suc 6" by simp
  ultimately have "read_groups 0 7 (''ffff'' @ CHR '':'' # show_ipv4 v) = ([0xFFFF, ucast (drop_bit 16 v), ucast v], True, [])"
    using f [of "show_ipv4 v"] by (simp only: read_groups.simps) (simp add: after_sep_def)
  moreover have "read_groups 0 8 (''::ffff:'' @ show_ipv4 v) = ([], False, ''::ffff:'' @ show_ipv4 v)"
    by (rule no_group_at) (simp add: numeral_2_eq_2)
  ultimately show ?thesis by (simp add: read_ipv6_def eval_nat_numeral)
qed

lemma read_compressed:
  assumes "length pre + length post < 8"
  shows "read_ipv6 (fmt_subslice pre @ ''::'' @ fmt_subslice post)
    = Some (ipv6_of_segments (pre @ replicate (8 - length pre - length post) 0 @ post), [])"
proof -
  have 1: "read_groups 0 8 (fmt_subslice pre @ ''::'' @ fmt_subslice post) = (pre, False, ''::'' @ fmt_subslice post)"
    using assms by (intro read_first_groups) (simp_all add: numeral_2_eq_2)
  have 2: "read_groups 0 (7 - length pre) (fmt_subslice post) = (post, False, [])"
    using read_first_groups [of post "7 - length pre" "[]"] assms by simp
  from assms have "length pre \<noteq> 8" by simp
  with 1 2 show ?thesis by (simp add: read_ipv6_def)
qed

theorem parse_show_ipv6: "parse_ipv6 (show_ipv6 a) = Some a"
proof (cases "to_ipv4_mapped a")
  case (Some v)
  then have z: "segment 0 a = 0" "segment 1 a = 0" "segment 2 a = 0" "segment 3 a = 0" "segment 4 a = 0" "segment 5 a = 0xFFFF"
    and v: "v = ucast a" by (auto simp: to_ipv4_mapped_def split: if_splits)
  have "ucast (drop_bit 16 v) = segment 6 a" "ucast v = segment 7 a"
    unfolding v by (rule bit_word_eqI, auto simp: segment_def bit_ucast_iff bit_drop_bit_eq)+
  moreover have "[0..<8] = [0, 1, 2, 3, 4, 5, 6, 7]" by (simp add: upt_rec)
  ultimately have "[0, 0, 0, 0, 0, 0xFFFF, ucast (drop_bit 16 v), ucast v] = map (\<lambda>i. segment i a) [0..<8]"
    using z by simp
  then show ?thesis using Some read_mapped [of v] ipv6_of_segments_all [of a] by (simp add: show_ipv6_def parse_ipv6_def)
next
  case None
  let ?segs = "map (\<lambda>i. segment i a) [0..<8]"
  obtain s l where sl: "zero_span 0 (0, 0) (0, 0) ?segs = (s, l)" by fastforce
  note z = zero_span_split [OF sl]
  show ?thesis
  proof (cases "1 < l")
    case True
    have len: "length (take s ?segs) = s" "length (drop (s + l) ?segs) = 8 - (s + l)" "s + l \<le> 8" using z(2) by simp_all
    then have "read_ipv6 (fmt_subslice (take s ?segs) @ ''::'' @ fmt_subslice (drop (s + l) ?segs)) = Some (ipv6_of_segments ?segs, [])"
      using read_compressed [of "take s ?segs" "drop (s + l) ?segs"] True z(1) by simp
    with None sl True show ?thesis by (simp add: show_ipv6_def parse_ipv6_def ipv6_of_segments_all Let_def)
  next
    case False
    have "read_groups 0 8 (fmt_subslice ?segs @ []) = (?segs, False, [])" by (rule read_first_groups) simp_all
    with None sl False show ?thesis by (simp add: show_ipv6_def parse_ipv6_def read_ipv6_def ipv6_of_segments_all Let_def)
  qed
qed

end
