(* ===== verification/Node_Config.thy ===== *)
theory Node_Config
  imports Invite Ipv6_Text Leases Admission
begin

unbundle bit_operations_syntax

text \<open>
  The settings of a VPN node (\<^verbatim>\<open>hidravpn-node/src/config.rs\<close>), its DNS upstreams
  (\<^verbatim>\<open>dns.rs\<close>, \<^verbatim>\<open>parse_upstream\<close>) and the invite it writes for a lease
  (\<^verbatim>\<open>main.rs\<close>, \<^verbatim>\<open>invite_for\<close>). The WireGuard crate's keys are a parameter: \<open>wg_public\<close>
  gives the base64 of the public half of a private key, if it is one. Reading and
  writing the TOML file is left out.

  The lemmas of the second half meet the client: what it reads in the invite a node
  writes for a lease, and exactly when it accepts it.
\<close>

section \<open>The settings\<close>

record node_config =
  nc_name :: string
  nc_private_key :: string
  nc_listen_port :: u16
  nc_public_endpoint :: socket_addr
  nc_tunnel_cidr :: string
  nc_interface :: string
  nc_out_interface :: "string option"
  nc_dns :: "string list"
  nc_role :: string
  nc_operator :: "string option"
  nc_contact :: "string option"
  nc_country :: "string option"
  nc_admission :: string
  nc_admission_port :: u16
  nc_max_clients :: nat
  nc_idle_days :: nat
  nc_admission_work_bits :: nat
  nc_pass_keys :: "pass_key_record list"
  nc_pass_idle_hours :: nat
  nc_ipv6 :: string
  nc_tunnel_cidr6 :: string
  nc_forward_private_destinations :: bool
  nc_admission_relays :: "ip_addr list"

definition default_interface :: string where
  "default_interface = ''hvpn0''"

definition default_role :: string where
  "default_role = ''both''"

definition default_admission :: string where
  "default_admission = ''manual''"

definition default_admission_port :: u16 where
  "default_admission_port = DEFAULT_ADMISSION_PORT"

definition default_max_clients :: nat where
  "default_max_clients = 4000"

definition default_idle_days :: nat where
  "default_idle_days = 30"

definition default_admission_work_bits :: nat where
  "default_admission_work_bits = DEFAULT_BITS"

definition default_pass_idle_hours :: nat where
  "default_pass_idle_hours = 6"

definition default_ipv6 :: string where
  "default_ipv6 = ''auto''"

definition default_tunnel_cidr6 :: string where
  "default_tunnel_cidr6 = ''fd68:6964:7261:7670::/64''"

definition default_dns :: "string list" where
  "default_dns = [''https://dns.quad9.net/dns-query@9.9.9.9,149.112.112.112'',
     ''https://cloudflare-dns.com/dns-query@1.1.1.1,1.0.0.1'']"

datatype config_error = EndpointNotV4 | TunnelNet net_error | TunnelNotPrivate | UpstreamForm | UpstreamIp
  | Ipv6Setting | Cidr6Form | Cidr6Address | Cidr6Prefix | Cidr6Range | Cidr6NotLocal | Cidr6NotNetwork
  | RoleWord | BadPrivateKey

datatype name_server = UdpAndTcp ip_addr | Https ip_addr string string

fun parse_ips :: "string list \<Rightarrow> config_error + ip_addr list" where
  "parse_ips [] = Ok []"
| "parse_ips (s # ss) = (case parse_ip (trim s) of
      None \<Rightarrow> Err UpstreamIp
    | Some ip \<Rightarrow> bind_result (parse_ips ss) (\<lambda>ips. Ok (ip # ips)))"

definition parse_upstream :: "string \<Rightarrow> config_error + name_server list" where
  "parse_upstream s = (case strip_prefix ''udp://'' s of
      Some rest \<Rightarrow> (case parse_ip rest of None \<Rightarrow> Err UpstreamIp | Some ip \<Rightarrow> Ok [UdpAndTcp ip])
    | None \<Rightarrow> (case strip_prefix ''https://'' s of
        Some rest \<Rightarrow> (case split_once (CHR ''@'') rest of
            None \<Rightarrow> Err UpstreamForm
          | Some (url, ips) \<Rightarrow>
              (let (host, path) = (case split_once (CHR ''/'') url of
                     Some (h, p) \<Rightarrow> (h, ''/'' @ p)
                   | None \<Rightarrow> (url, ''/dns-query''))
               in bind_result (parse_ips (split_on (CHR '','') ips)) (\<lambda>v.
                    if v = [] then Err UpstreamForm else Ok (map (\<lambda>ip. Https ip host path) v))))
      | None \<Rightarrow> Err UpstreamForm))"

section \<open>The tunnel's subnets\<close>

record tunnel_net6 =
  t6_network :: ipv6
  t6_prefix :: nat
  t6_node_ip :: ipv6

definition address_for :: "tunnel_net6 \<Rightarrow> ipv4 \<Rightarrow> ipv6" where
  "address_for n v4 = t6_network n OR ucast v4"

definition cidr6 :: "tunnel_net6 \<Rightarrow> string" where
  "cidr6 n = show_ipv6 (t6_network n) @ ''/'' @ show_nat (t6_prefix n)"

definition cfg_tunnel_network :: "node_config \<Rightarrow> config_error + tunnel_net" where
  "cfg_tunnel_network cfg = (case tunnel_network (nc_tunnel_cidr cfg) of Err e \<Rightarrow> Err (TunnelNet e) | Ok n \<Rightarrow> Ok n)"

definition subnet6 :: "string \<Rightarrow> config_error + tunnel_net \<Rightarrow> config_error + tunnel_net6 option" where
  "subnet6 cidr v4net = (case split_once (CHR ''/'') cidr of
      None \<Rightarrow> Err Cidr6Form
    | Some (net, prefix) \<Rightarrow> (case parse_ipv6 net of
        None \<Rightarrow> Err Cidr6Address
      | Some network \<Rightarrow> (case parse_uint 255 prefix of
          None \<Rightarrow> Err Cidr6Prefix
        | Some prefix \<Rightarrow>
            if \<not> (48 \<le> prefix \<and> prefix \<le> 96) then Err Cidr6Range
            else if segment 0 network AND 0xFE00 \<noteq> 0xFC00 then Err Cidr6NotLocal
            else if network AND drop_bit prefix (- 1) \<noteq> 0 then Err Cidr6NotNetwork
            else bind_result v4net (\<lambda>net.
              (let n6 = \<lparr>t6_network = network, t6_prefix = prefix, t6_node_ip = network\<rparr>
               in Ok (Some (n6\<lparr>t6_node_ip := address_for n6 (tn_node_ip net)\<rparr>)))))))"

definition tunnel_network6 :: "node_config \<Rightarrow> config_error + tunnel_net6 option" where
  "tunnel_network6 cfg =
     (let word = to_ascii_lowercase (trim (nc_ipv6 cfg)) in
      if word = ''off'' then Ok None
      else if word \<noteq> ''auto'' then Err Ipv6Setting
      else if eq_ignore_ascii_case (nc_role cfg) ''entry'' then Ok None
      else subnet6 (nc_tunnel_cidr6 cfg) (cfg_tunnel_network cfg))"

section \<open>Making and changing settings\<close>

fun check_upstreams :: "string list \<Rightarrow> config_error + unit" where
  "check_upstreams [] = Ok ()"
| "check_upstreams (d # ds) = bind_result (parse_upstream d) (\<lambda>_. check_upstreams ds)"

definition fresh_config :: "string \<Rightarrow> string \<Rightarrow> socket_addr \<Rightarrow> u16 \<Rightarrow> string \<Rightarrow> string list \<Rightarrow> string option \<Rightarrow> config_error + node_config" where
  "fresh_config private_key name public_endpoint listen_port tunnel_cidr dns out_interface =
     (if \<not> is_ipv4 public_endpoint then Err EndpointNotV4
      else
        (let cfg = \<lparr>nc_name = name, nc_private_key = private_key, nc_listen_port = listen_port,
               nc_public_endpoint = public_endpoint, nc_tunnel_cidr = tunnel_cidr, nc_interface = default_interface,
               nc_out_interface = out_interface, nc_dns = dns, nc_role = default_role, nc_operator = None, nc_contact = None,
               nc_country = None, nc_admission = default_admission, nc_admission_port = default_admission_port,
               nc_max_clients = default_max_clients, nc_idle_days = default_idle_days,
               nc_admission_work_bits = default_admission_work_bits, nc_pass_keys = [],
               nc_pass_idle_hours = default_pass_idle_hours, nc_ipv6 = default_ipv6, nc_tunnel_cidr6 = default_tunnel_cidr6,
               nc_forward_private_destinations = False, nc_admission_relays = []\<rparr>
         in bind_result (cfg_tunnel_network cfg) (\<lambda>net.
              if \<not> tunnel_private (tn_network net) then Err TunnelNotPrivate
              else bind_result (check_upstreams (nc_dns cfg)) (\<lambda>_.
                bind_result (tunnel_network6 cfg) (\<lambda>_. Ok cfg)))))"

definition admission_is_open :: "node_config \<Rightarrow> bool" where
  "admission_is_open cfg = eq_ignore_ascii_case (trim (nc_admission cfg)) ''open''"

definition admits_with_passes :: "node_config \<Rightarrow> bool" where
  "admits_with_passes cfg = eq_ignore_ascii_case (trim (nc_admission cfg)) ''pass''"

definition is_entry :: "node_config \<Rightarrow> bool" where
  "is_entry cfg = eq_ignore_ascii_case (trim (nc_role cfg)) ''entry''"

definition lasting_open_cap :: "node_config \<Rightarrow> nat" where
  "lasting_open_cap cfg = (if is_entry cfg then 0 else nc_max_clients cfg div 4)"

definition set_role :: "string \<Rightarrow> node_config \<Rightarrow> node_config \<times> (config_error + unit)" where
  "set_role role cfg =
     (let r = to_ascii_lowercase (trim role) in
      if r \<notin> {''entry'', ''exit'', ''both''} then (cfg, Err RoleWord) else (cfg\<lparr>nc_role := r\<rparr>, Ok ()))"

definition node_features :: "node_config \<Rightarrow> string list" where
  "node_features cfg = [SESSIONS] @ (if \<not> eq_ignore_ascii_case (nc_role cfg) ''exit'' then [ADMISSION_RELAY] else [])"

definition admission_word :: "node_config \<Rightarrow> string" where
  "admission_word cfg = (if admission_is_open cfg then ''open'' else if admits_with_passes cfg then ''pass'' else ''manual'')"

definition node_public_key :: "(string \<Rightarrow> string option) \<Rightarrow> node_config \<Rightarrow> config_error + string" where
  "node_public_key wg_public cfg = (case wg_public (nc_private_key cfg) of None \<Rightarrow> Err BadPrivateKey | Some k \<Rightarrow> Ok k)"

definition own_record :: "(string \<Rightarrow> string option) \<Rightarrow> node_config \<Rightarrow> config_error + node_record" where
  "own_record wg_public cfg = bind_result (node_public_key wg_public cfg) (\<lambda>k.
     Ok \<lparr>nr_node_name = nc_name cfg, nr_node_public_key = k, nr_endpoint = show_socket_addr (nc_public_endpoint cfg),
         nr_operator = nc_operator cfg, nr_contact = nc_contact cfg, nr_role = Some (nc_role cfg),
         nr_admission = Some (admission_word cfg),
         nr_admission_port = (if nc_admission_port cfg = default_admission_port then None else Some (nc_admission_port cfg)),
         nr_country = nc_country cfg, nr_features = node_features cfg\<rparr>)"

definition invite_for :: "(string \<Rightarrow> string option) \<Rightarrow> node_config \<Rightarrow> lease \<Rightarrow> tunnel_net6 option \<Rightarrow> config_error + invite" where
  "invite_for wg_public cfg l v6 =
     bind_result (cfg_tunnel_network cfg) (\<lambda>net. bind_result (node_public_key wg_public cfg) (\<lambda>k.
       Ok \<lparr>i_node_name = nc_name cfg, i_node_public_key = k, i_endpoint = show_socket_addr (nc_public_endpoint cfg),
         i_client_address = show_ipv4 (l_ip l) @ ''/'' @ show_nat (tn_prefix net),
         i_client_address6 = map_option (\<lambda>n. show_ipv6 (address_for n (l_ip l)) @ ''/'' @ show_nat (t6_prefix n)) v6,
         i_dns = tn_node_ip net, i_allowed_ips = [''0.0.0.0/0'', ''::/0''], i_mtu = 1420, i_keepalive = 25,
         i_operator = nc_operator cfg, i_role = Some (nc_role cfg), i_country = nc_country cfg,
         i_admission = Some (admission_word cfg), i_admission_port = Some (nc_admission_port cfg), i_behind = False,
         i_features = node_features cfg, i_pass = None\<rparr>))"

section \<open>A client's IPv6 address\<close>

lemma tunnel_network6_Some:
  assumes "tunnel_network6 cfg = Ok (Some n)"
  shows "48 \<le> t6_prefix n" "t6_prefix n \<le> 96" "segment 0 (t6_network n) AND 0xFE00 = 0xFC00"
    "t6_network n AND drop_bit (t6_prefix n) (- 1) = 0"
  using assms by (auto simp: tunnel_network6_def subnet6_def Let_def split: if_splits option.splits)

lemma address_for_high: "drop_bit 32 (address_for n v4) = drop_bit 32 (t6_network n)"
  by (rule bit_word_eqI) (auto simp: address_for_def bit_drop_bit_eq bit_or_iff bit_ucast_iff dest: bit_imp_le_length)

lemma address_for_low:
  assumes "t6_prefix n \<le> 96" "t6_network n AND drop_bit (t6_prefix n) (- 1) = 0"
  shows "ucast (address_for n v4) = v4"
proof (rule bit_word_eqI)
  fix i assume i: "i < LENGTH(32)"
  have "\<not> bit (t6_network n AND drop_bit (t6_prefix n) (- 1)) i" unfolding assms(2) by simp
  then have "\<not> bit (t6_network n) i" using i assms(1) by (auto simp: bit_and_iff bit_drop_bit_eq bit_mask_iff)
  with i show "bit (ucast (address_for n v4) :: ipv4) i = bit v4 i" by (auto simp: address_for_def bit_ucast_iff bit_or_iff)
qed

lemma address_for_segment: "segment 0 (address_for n v4) = segment 0 (t6_network n)"
  using address_for_high [of n v4] unfolding segments_96 by simp

text \<open>Two leases never share an IPv6 address.\<close>

lemma address_for_inject:
  assumes "tunnel_network6 cfg = Ok (Some n)"
  shows "address_for n a = address_for n b \<longleftrightarrow> a = b"
  using address_for_low [OF tunnel_network6_Some(2,4) [OF assms]] by metis

section \<open>A private subnet\<close>

lemma div_of_multiple:
  fixes n :: nat
  assumes "n mod 2 ^ k = 0" "j \<le> k"
  shows "n div 2 ^ j mod 2 ^ (k - j) = 0"
proof -
  obtain q where "n = 2 ^ k * q" using assms(1) by auto
  then have "n = 2 ^ j * (2 ^ (k - j) * q)" using assms(2) by (simp add: mult.assoc [symmetric] power_add [symmetric])
  then show ?thesis by simp
qed

lemma div_div_more: "j \<le> k \<Longrightarrow> a div 2 ^ j = b div 2 ^ j \<Longrightarrow> a div 2 ^ k = b div 2 ^ k" for a b :: nat
  by (metis div_mult2_eq le_add_diff_inverse power_add)

text \<open>
  The whole subnet is private when its network address is, as long as a subnet of
  192.168.0.0/16 is not wider than that block: the prefixes /13 to /15 are also
  network addresses there.
\<close>

lemma private_subnet:
  assumes "net_ok net" "tunnel_private (tn_network net)" "octet 0 (tn_network net) = 192 \<longrightarrow> 16 \<le> tn_prefix net"
    and "in_cidr ip (tn_network net) (tn_prefix net)"
  shows "tunnel_private ip"
proof -
  define k where "k = 32 - tn_prefix net"
  define a b where "a = unat ip" and "b = unat (tn_network net)"
  have k: "2 \<le> k" "k \<le> 24" "b mod 2 ^ k = 0" using assms(1) by (auto simp: net_ok_def k_def b_def)
  have ab: "a div 2 ^ k = b div 2 ^ k" using assms(4) by (simp add: in_cidr_unat k_def a_def b_def)
  have o0: "octet 0 ip = octet 0 (tn_network net)"
    using div_div_more [OF k(2) ab] by (simp add: word_unat_eq_iff unat_octet a_def b_def)
  let ?x = "unat (octet 1 ip)" and ?y = "unat (octet 1 (tn_network net))"
  have xy: "?x = a div 2 ^ 16 mod 256" "?y = b div 2 ^ 16 mod 256" by (simp_all add: unat_octet a_def b_def)
  have same: "?x div 2 ^ j = ?y div 2 ^ j" if "k \<le> 16 + j" "j \<le> 8" for j
  proof -
    have "a div 2 ^ (16 + j) = b div 2 ^ (16 + j)" using div_div_more [OF that(1) ab] .
    then have e: "a div 2 ^ 16 div 2 ^ j = b div 2 ^ 16 div 2 ^ j" by (simp only: power_add div_mult2_eq)
    have "(256 :: nat) = 2 ^ j * 2 ^ (8 - j)" using that(2) by (simp add: power_add [symmetric])
    then have "c mod 256 div 2 ^ j = c div 2 ^ j mod 2 ^ (8 - j)" for c :: nat by (simp only: mod_mult2_eq) simp
    with e show ?thesis unfolding xy by simp
  qed
  have mult: "?y mod 2 ^ (k - 16) = 0" if "16 \<le> k"
  proof -
    have "b div 2 ^ 16 mod 2 ^ (k - 16) = 0" using div_of_multiple [OF k(3) that] .
    moreover have "(256 :: nat) = 2 ^ (k - 16) * 2 ^ (24 - k)" using k(2) that by (simp add: power_add [symmetric])
    ultimately show ?thesis unfolding xy by (metis mod_mod_cancel dvd_triv_left)
  qed
  have low: "?y mod 2 ^ j = 0" if "16 + j \<le> k" for j
  proof -
    have "(2 :: nat) ^ j dvd 2 ^ (k - 16)" using that by (intro le_imp_power_dvd) simp
    with mult that show ?thesis by (metis add_leE dvd_trans mod_eq_0_iff_dvd)
  qed
  consider (ten) "octet 0 (tn_network net) = 10"
    | (b172) "octet 0 (tn_network net) = 172" "?y div 16 = 1"
    | (b192) "octet 0 (tn_network net) = 192" "?y = 168"
    | (b100) "octet 0 (tn_network net) = 100" "?y div 64 = 1"
    using assms(2) unfolding tunnel_private_def v4_is_private_def mask_c0 by (auto simp: word_le_nat_alt word_unat_eq_iff)
  then show ?thesis
  proof cases
    case ten
    with o0 show ?thesis by (simp add: tunnel_private_def v4_is_private_def)
  next
    case b172
    have "k \<le> 20"
    proof (rule ccontr)
      assume "\<not> k \<le> 20"
      then have "?y mod 32 = 0" using low [of 5] by simp
      then obtain q where "?y = 16 * (2 * q)" by (auto simp: mod_eq_0_iff_dvd)
      then have "?y div 16 = 2 * q" by simp
      with b172(2) show False by simp
    qed
    then have "?x div 16 = 1" using same [of 4] b172(2) by simp
    then have "16 \<le> ?x \<and> ?x \<le> 31" by presburger
    with b172 o0 show ?thesis by (simp add: tunnel_private_def v4_is_private_def word_le_nat_alt)
  next
    case b192
    with assms(3) have "k \<le> 16" by (simp add: k_def)
    then have "?x = 168" using same [of 0] b192(2) by simp
    then have "octet 1 ip = 168" by (simp add: word_unat_eq_iff)
    with b192 o0 show ?thesis by (simp add: tunnel_private_def v4_is_private_def)
  next
    case b100
    have "k \<le> 22"
    proof (rule ccontr)
      assume "\<not> k \<le> 22"
      then have "?y mod 128 = 0" using low [of 7] by simp
      then obtain q where "?y = 64 * (2 * q)" by (auto simp: mod_eq_0_iff_dvd)
      then have "?y div 64 = 2 * q" by simp
      with b100(2) show False by simp
    qed
    then have "?x div 64 = 1" using same [of 6] b100(2) by simp
    with b100 o0 show ?thesis by (simp add: tunnel_private_def mask_c0)
  qed
qed

section \<open>The client accepts the node's invite\<close>

lemma show_ipv4_no_slash: "CHR ''/'' \<notin> set (show_ipv4 a)"
  using show_nat_digits by (auto simp: show_ipv4_def list_all_iff is_ascii_digit_def dest!: bspec [OF show_nat_digits [unfolded list_all_iff]])

lemma subnet_mask:
  assumes "drop_bit k a = drop_bit k b"
  shows "a AND push_bit k (0xFFFFFFFF :: ipv4) = b AND push_bit k 0xFFFFFFFF"
proof (rule bit_word_eqI)
  fix n assume "n < LENGTH(32)"
  have full: "(0xFFFFFFFF :: ipv4) = - 1" by simp
  have "bit a n = bit b n" if "k \<le> n"
    using arg_cong [OF assms, of "\<lambda>w. bit w (n - k)"] that by (simp add: bit_drop_bit_eq)
  then show "bit (a AND push_bit k 0xFFFFFFFF) n = bit (b AND push_bit k 0xFFFFFFFF) n"
    unfolding full by (auto simp: bit_and_iff bit_push_bit_iff bit_not_iff bit_mask_iff)
qed

lemma fmt_subslice_no_slash: "CHR ''/'' \<notin> set (fmt_subslice gs)"
proof -
  have "CHR ''/'' \<notin> set (show_hex n)" for n
    using show_hex_digits [of n] by (auto simp: list_all_iff is_ascii_hexdigit_def is_ascii_digit_def)
  then show ?thesis by (induction gs rule: fmt_subslice.induct) simp_all
qed

lemma show_ipv6_no_slash: "CHR ''/'' \<notin> set (show_ipv6 a)"
  by (auto simp: show_ipv6_def Let_def show_ipv4_no_slash fmt_subslice_no_slash split: option.splits prod.splits)

text \<open>The text of an IPv6 socket address is never read as an IPv4 one.\<close>

lemma parse_show_socket_v6: "sa_ip a = V6 v \<Longrightarrow> parse_socket_addr (show_socket_addr a) = Some b \<Longrightarrow> \<not> is_ipv4 b"
  by (auto simp: parse_socket_addr_def show_socket_addr_def read_ipv4_def read_octet_def read_run_def is_ascii_digit_def is_ipv4_def
      split: option.splits prod.splits)

text \<open>Of a lease the check of the resolver passes exactly when both addresses are private.\<close>

lemma invite_dns_iff:
  assumes "net_ok net" "2 \<le> off" "off < hosts_of net - 1" "client_ip i = Ok (tn_network net + of_nat off, tn_prefix net)" "i_dns i = tn_node_ip net"
  shows "check_dns i = Ok () \<longleftrightarrow> tunnel_private (tn_network net + of_nat off) \<and> tunnel_private (tn_node_ip net)"
proof -
  have n: "8 \<le> tn_prefix net" "tn_prefix net \<le> 30" "tn_node_ip net = tn_network net + of_nat 1" using assms(1) by (simp_all add: net_ok_def)
  have h: "off < hosts_of net" "1 < hosts_of net" using assms(2,3) by simp_all
  note c = host_in_cidr [OF assms(1) h(1)] host_in_cidr [OF assms(1) h(2)]
  have "tn_network net + of_nat 1 \<noteq> tn_network net + of_nat off"
    using host_inject [OF assms(1) h(2,1)] assms(2) by simp
  moreover have "drop_bit (32 - tn_prefix net) (tn_network net + of_nat 1) = drop_bit (32 - tn_prefix net) (tn_network net + of_nat off)"
    using c by (simp add: in_cidr_def)
  note subnet_mask [OF this]
  ultimately show ?thesis
    unfolding check_dns_def assms(4) bind_result_simps prod.case assms(5) n(3) Let_def
    using n(1,2) by (simp only: simp_thms if_False if_True) auto
qed

lemma lease_addresses_private:
  assumes "net_ok net" "tunnel_private (tn_network net)" "octet 0 (tn_network net) = 192 \<longrightarrow> 16 \<le> tn_prefix net"
    and "2 \<le> off" "off < hosts_of net - 1"
  shows "tunnel_private (tn_network net + of_nat off)" "tunnel_private (tn_node_ip net)"
proof -
  have h: "off < hosts_of net" "1 < hosts_of net" using assms(4,5) by simp_all
  note pr = private_subnet [OF assms(1-3) host_in_cidr [OF assms(1) h(1)]] private_subnet [OF assms(1-3) host_in_cidr [OF assms(1) h(2)]]
  show "tunnel_private (tn_network net + of_nat off)" by (rule pr(1))
  show "tunnel_private (tn_node_ip net)" using pr(2) assms(1) by (simp add: net_ok_def)
qed

text \<open>
  Claim C16. When a client accepts what a node writes for a lease. For every lease of a lease book in
  good order the invite can be written, and the client reads in it exactly the address leased
  and, with IPv6, the address of the node's unique local subnet that ends in it. It
  accepts the invite exactly when the node's key is one, its endpoint is IPv4, its country is
  valid, and its own address in the tunnel and the leased one are private. Those two are private for
  every lease when the tunnel subnet is private and, inside 192.168.0.0/16, no wider than that block;
  settings with a wider one are taken by the node, and leases in it are refused.
\<close>

theorem node_invite_accepted:
  assumes "cfg_tunnel_network cfg = Ok net" "node_public_key wg_public cfg = Ok k"
    and "leases_inv net ls" "l \<in> set ls" "six = None \<or> tunnel_network6 cfg = Ok six"
  shows "\<exists>i. invite_for wg_public cfg l six = Ok i
    \<and> client_ip i = Ok (l_ip l, tn_prefix net)
    \<and> client_ip6 i = Ok (map_option (\<lambda>n. (address_for n (l_ip l), t6_prefix n)) six)
    \<and> (validate_invite env i = Ok () \<longleftrightarrow> is_ok (public_key_from_base64 env k) \<and> is_ipv4 (nc_public_endpoint cfg)
         \<and> check_country (nc_country cfg) \<and> tunnel_private (tn_node_ip net) \<and> tunnel_private (l_ip l))
    \<and> (tunnel_private (tn_network net) \<and> (octet 0 (tn_network net) = 192 \<longrightarrow> 16 \<le> tn_prefix net)
         \<longrightarrow> tunnel_private (tn_node_ip net) \<and> tunnel_private (l_ip l))"
proof -
  have ok: "net_ok net" using assms(1) by (auto simp: cfg_tunnel_network_def intro: tunnel_network_ok split: sum.splits)
  obtain off where off: "2 \<le> off" "off < hosts_of net - 1" "l_ip l = tn_network net + of_nat off"
    using assms(3,4) by (auto simp: leases_inv_def)
  obtain i where i: "invite_for wg_public cfg l six = Ok i" using assms(1,2) by (simp add: invite_for_def)
  then have f: "i_node_public_key i = k" "i_endpoint i = show_socket_addr (nc_public_endpoint cfg)"
    "i_client_address i = show_ipv4 (l_ip l) @ ''/'' @ show_nat (tn_prefix net)"
    "i_client_address6 i = map_option (\<lambda>n. show_ipv6 (address_for n (l_ip l)) @ ''/'' @ show_nat (t6_prefix n)) six"
    "i_dns i = tn_node_ip net" "i_mtu i = 1420" "i_country i = nc_country cfg"
    using assms(1,2) by (auto simp: invite_for_def)
  have c: "client_ip i = Ok (l_ip l, tn_prefix net)"
    using ok by (simp add: client_ip_def f(3) split_once_append show_ipv4_no_slash net_ok_def)
  have c6: "client_ip6 i = Ok (map_option (\<lambda>n. (address_for n (l_ip l), t6_prefix n)) six)"
  proof (cases six)
    case (Some n)
    with assms(5) have n: "tunnel_network6 cfg = Ok (Some n)" by simp
    show ?thesis
      using tunnel_network6_Some [OF n]
      by (simp add: client_ip6_def f(4) Some split_once_append show_ipv6_no_slash parse_show_ipv6 address_for_segment)
  qed (simp add: client_ip6_def f(4))
  have e: "(\<exists>a. endpoint_addr i = Ok a \<and> is_ipv4 a) \<longleftrightarrow> is_ipv4 (nc_public_endpoint cfg)"
  proof (cases "sa_ip (nc_public_endpoint cfg)")
    case (V4 v)
    with parse_show_socket_v4 [OF V4] show ?thesis by (simp add: endpoint_addr_def f(2))
  next
    case (V6 v)
    with parse_show_socket_v6 [OF V6] show ?thesis by (auto simp: endpoint_addr_def f(2) is_ipv4_def split: option.splits)
  qed
  have d: "check_dns i = Ok () \<longleftrightarrow> tunnel_private (l_ip l) \<and> tunnel_private (tn_node_ip net)"
    using invite_dns_iff [OF ok off(1,2)] c f(5) off(3) by simp
  have "validate_invite env i = Ok () \<longleftrightarrow> is_ok (public_key_from_base64 env k) \<and> (\<exists>a. endpoint_addr i = Ok a \<and> is_ipv4 a)
      \<and> check_country (nc_country cfg) \<and> check_dns i = Ok ()"
    by (auto simp: validate_invite_def validate_shape_def c c6 f(1,6,7) bind_result_def split: sum.splits)
  with i c c6 d e lease_addresses_private [OF ok _ _ off(1,2)] off(3) show ?thesis by metis
qed

text \<open>
  The check of \<^verbatim>\<open>fresh\<close> looks at the network address only, so it takes 192.168.0.0/13,
  whose addresses past 192.168.255.255 are not private: a client leased one refuses the
  invite.
\<close>

lemma wide_subnet_taken:
  "\<exists>net. tunnel_network ''192.168.0.0/13'' = Ok net \<and> tunnel_private (tn_network net)
     \<and> in_cidr (ipv4_new 192 169 0 2) (tn_network net) (tn_prefix net) \<and> \<not> tunnel_private (ipv4_new 192 169 0 2)"
proof -
  have "tunnel_network ''192.168.0.0/13'' = Ok \<lparr>tn_cidr = ''192.168.0.0/13'', tn_network = ipv4_new 192 168 0 0, tn_prefix = 13,
     tn_node_ip = ipv4_new 192 168 0 0 + 1\<rparr>" by code_simp
  moreover have "tunnel_private (ipv4_new 192 168 0 0)" "\<not> tunnel_private (ipv4_new 192 169 0 2)"
    "in_cidr (ipv4_new 192 169 0 2) (ipv4_new 192 168 0 0) 13" by code_simp+
  ultimately show ?thesis by simp
qed

text \<open>
  An entry is told by its role without the blanks around it, except for IPv6: settings
  edited by hand to a role with a blank make a node that admits as an entry and still
  hands out IPv6 addresses.
\<close>

lemma blank_role_carries_ipv6:
  assumes "nc_role cfg = '' entry''"
  shows "is_entry cfg" "tunnel_network6 cfg = tunnel_network6 (cfg\<lparr>nc_role := ''both''\<rparr>)"
proof -
  have "trim '' entry'' = trim ''entry''" using trim_start_space [of "''entry''"] by (simp add: trim_def)
  also have "\<dots> = ''entry''" by (rule trim_graphic) (simp add: is_graphic_def)
  finally have "trim '' entry'' = ''entry''" .
  then show "is_entry cfg" using assms by (simp add: is_entry_def)
  have "\<not> eq_ignore_ascii_case '' entry'' ''entry''" "\<not> eq_ignore_ascii_case ''both'' ''entry''" by code_simp+
  moreover have "cfg_tunnel_network (cfg\<lparr>nc_role := ''both''\<rparr>) = cfg_tunnel_network cfg" by (simp add: cfg_tunnel_network_def)
  ultimately show "tunnel_network6 cfg = tunnel_network6 (cfg\<lparr>nc_role := ''both''\<rparr>)"
    using assms by (simp add: tunnel_network6_def Let_def)
qed

definition sample_config :: node_config where
  "sample_config = \<lparr>nc_name = ''fi-1'', nc_private_key = ''secret'', nc_listen_port = 51820,
     nc_public_endpoint = \<lparr>sa_ip = V4 (ipv4_new 203 0 113 10), sa_port = 51820\<rparr>, nc_tunnel_cidr = ''10.9.0.0/24'',
     nc_interface = default_interface, nc_out_interface = None, nc_dns = default_dns, nc_role = default_role,
     nc_operator = None, nc_contact = None, nc_country = None, nc_admission = ''pass'', nc_admission_port = default_admission_port,
     nc_max_clients = default_max_clients, nc_idle_days = default_idle_days, nc_admission_work_bits = default_admission_work_bits,
     nc_pass_keys = [], nc_pass_idle_hours = default_pass_idle_hours, nc_ipv6 = default_ipv6,
     nc_tunnel_cidr6 = default_tunnel_cidr6, nc_forward_private_destinations = False, nc_admission_relays = []\<rparr>"

definition sample_lease :: lease where
  "sample_lease = \<lparr>l_name = ''ana'', l_public_key = ''KEY'', l_ip = ipv4_new 10 9 0 0 + of_nat 2, admitted_at = 5,
     l_source = ''pass'', l_last_seen = 0\<rparr>"

lemma sample_config_net: "cfg_tunnel_network sample_config = Ok sample_net"
  by (simp add: cfg_tunnel_network_def sample_config_def sample_tunnel_network)

lemma sample_lease_inv: "leases_inv sample_net [sample_lease]"
proof -
  have "trim ''KEY'' = ''KEY''" by (rule trim_graphic) (simp add: is_graphic_def)
  moreover have "\<exists>off. 2 \<le> off \<and> off < hosts_of sample_net - 1 \<and> ipv4_new 10 9 0 0 + of_nat 2 = tn_network sample_net + of_nat off"
    by (rule exI [of _ 2]) (simp add: hosts_of_def sample_net_def)
  ultimately show ?thesis by (simp add: leases_inv_def sample_lease_def)
qed

theorem node_invite_accepted_witness:
  "\<exists>i. invite_for (\<lambda>_. Some sample_node_key) sample_config sample_lease None = Ok i \<and> validate_invite sample_env i = Ok ()"
proof -
  have "tunnel_private (ipv4_new 10 9 0 0)" "octet 0 (ipv4_new 10 9 0 0) \<noteq> 192" by code_simp+
  then have "tunnel_private (tn_network sample_net)" "octet 0 (tn_network sample_net) = 192 \<longrightarrow> 16 \<le> tn_prefix sample_net"
    by (simp_all add: sample_net_def)
  moreover have "is_ipv4 (nc_public_endpoint sample_config)" "check_country (nc_country sample_config)"
    "node_public_key (\<lambda>_. Some sample_node_key) sample_config = Ok sample_node_key"
    by (simp_all add: sample_config_def is_ipv4_def check_country_def node_public_key_def)
  moreover have "public_key_from_base64 sample_env sample_node_key = Ok (replicate 32 9)"
    unfolding sample_node_key_def by (rule key_roundtrip(2) [OF sample_env_ok(1)]) simp
  ultimately show ?thesis
    using node_invite_accepted [where cfg = sample_config and net = sample_net and ls = "[sample_lease]" and l = sample_lease
        and six = None and env = sample_env and wg_public = "\<lambda>_. Some sample_node_key", OF sample_config_net]
      sample_lease_inv by fastforce
qed

end
