(* ===== verification/Node.thy ===== *)
theory Node
  imports Node_Config Spent_Passes
begin

text \<open>
  The VPN node at work (\<^verbatim>\<open>hidravpn-node/src/main.rs\<close>, the loop of \<^verbatim>\<open>run\<close>, and the requests
  of \<^verbatim>\<open>admission.rs\<close> that feed it): an admission from the HTTP request to the lease, the
  spent pass, the WireGuard peer and the invite, with everything that is undone when a
  part of it fails, and the reaper. Files, the WireGuard device and the channel between
  the two tasks are I/O: how each call ends is an argument (\<open>admit_io\<close>, \<open>reap_io\<close>),
  so that every combination of failures is covered. The device is a map from keys to
  tunnel addresses.

  The section on promises states what the node needs of its book of spent passes as a
  locale; \<open>Spent_Passes\<close> provides it. The lemmas show that no pass is granted twice and
  what each answer to a redemption says of the pass: a client told to keep it can use it
  again, but for two failures of the disk.
\<close>

section \<open>State and messages\<close>

record node_state =
  lease_file :: "lease_error + leases option"
  spent_mem :: spent_passes
  spent_on_disk :: spent_disk
  dev_peers :: "string \<rightharpoonup> ipv4"
  held :: nat
  rx_seen :: "(string \<times> nat) list"
  node_limiter :: rate_limiter

record admit_msg =
  am_public_key :: string
  am_name :: string
  am_session :: bool
  am_pass :: "spent_pass option"

datatype why = AlreadySpent | NoRoom room_refusal | LeaseRefused lease_error | PassNotWritten
  | CouldNotAdmit | NoInvite config_error | LeasesNotWritten lease_error | NoOneWaiting | KeyNotAdmitted | CouldNotRemove | StaysSpent why

type_synonym refused = "nat \<times> why"

record admit_io =
  io_closed :: bool
  io_delivered :: bool
  io_locked :: bool
  io_lease_write :: bool
  io_append :: append_outcome
  io_save :: save_outcome
  io_add_peer :: bool
  io_remove_peer :: bool
  io_revoke_lock :: bool
  io_revoke_write :: bool
  io_forget :: save_outcome

section \<open>An admission of the main loop\<close>

definition try_admit ::
  "(string \<Rightarrow> bool) \<Rightarrow> nat \<Rightarrow> node_config \<Rightarrow> tunnel_net \<Rightarrow> admit_io \<Rightarrow> admit_msg \<Rightarrow> spent_passes \<times> spent_disk \<Rightarrow> leases
   \<Rightarrow> (((refused + lease \<times> nat) \<times> bool) \<times> leases) \<times> spent_passes \<times> spent_disk" where
  "try_admit key_ok now cfg net io m sd ls =
     (let lasting = (if am_pass m = None \<and> \<not> am_session m then Some (lasting_open_cap cfg) else None) in
      case refusal_for_room ls (am_public_key m) net (nc_max_clients cfg) lasting of
        Some why \<Rightarrow> (((Err (503, NoRoom why), False), ls), sd)
      | None \<Rightarrow> (case (if am_pass m \<noteq> None then admit_pass key_ok now (am_name m) (am_public_key m) net ls
                      else admit_open key_ok now (am_name m) (am_public_key m) net (am_session m) ls) of
          (ls', Err e) \<Rightarrow> (((Err (400, LeaseRefused e), False), ls'), sd)
        | (ls', Ok l) \<Rightarrow> (case am_pass m of
            None \<Rightarrow> (((Ok (l, length ls'), True), ls'), sd)
          | Some p \<Rightarrow> (case record_pass (io_append io) (io_save io) (sp_tag p) (sp_valid_until p) sd of
              (sd', Err _) \<Rightarrow> (((Err (503, PassNotWritten), False), ls'), sd')
            | (sd', Ok _) \<Rightarrow> (((Ok (l, length ls'), True), ls'), sd')))))"

definition add_peer :: "(string \<Rightarrow> bool) \<Rightarrow> bool \<Rightarrow> string \<Rightarrow> ipv4 \<Rightarrow> (string \<rightharpoonup> ipv4) \<Rightarrow> (string \<rightharpoonup> ipv4) \<times> bool" where
  "add_peer key_ok applied public_key ip peers =
     (if \<not> key_ok (trim public_key) then (peers, False)
      else if applied then (peers(trim public_key \<mapsto> ip), True) else (peers, False))"

definition remove_peer :: "(string \<Rightarrow> bool) \<Rightarrow> bool \<Rightarrow> string \<Rightarrow> (string \<rightharpoonup> ipv4) \<Rightarrow> (string \<rightharpoonup> ipv4)" where
  "remove_peer key_ok applied public_key peers =
     (if key_ok (trim public_key) \<and> applied then peers(trim public_key := None) else peers)"

datatype undo = Nothing refused | Spent why | Admitted string why

definition give_back :: "admit_io \<Rightarrow> why \<Rightarrow> spent_pass option \<Rightarrow> node_state \<Rightarrow> node_state \<times> refused" where
  "give_back io why pass st = (case pass of
      None \<Rightarrow> (st, (503, why))
    | Some p \<Rightarrow> (case forget_pass (io_forget io) (sp_tag p) (spent_mem st, spent_on_disk st) of
        ((s, disk), r) \<Rightarrow>
          (st\<lparr>spent_mem := s, spent_on_disk := disk\<rparr>, case r of Ok _ \<Rightarrow> (503, why) | Err _ \<Rightarrow> (409, StaysSpent why))))"

definition undo_lease :: "(string \<Rightarrow> bool) \<Rightarrow> admit_io \<Rightarrow> string \<Rightarrow> node_state \<Rightarrow> node_state" where
  "undo_lease key_ok io key st =
     st\<lparr>dev_peers := remove_peer key_ok (io_remove_peer io) key (dev_peers st),
        lease_file := fst (leases_update (io_revoke_lock io) (lease_file st) (io_revoke_write io)
          (\<lambda>ls. case revoke key ls of (ls', changed) \<Rightarrow> (((), changed), ls')))\<rparr>"

definition undo_admission :: "(string \<Rightarrow> bool) \<Rightarrow> admit_io \<Rightarrow> undo \<Rightarrow> spent_pass option \<Rightarrow> node_state \<Rightarrow> node_state \<times> refused" where
  "undo_admission key_ok io u pass st = (case u of
      Nothing refused \<Rightarrow> (st, refused)
    | Spent why \<Rightarrow> give_back io why pass st
    | Admitted key why \<Rightarrow> give_back io why pass (undo_lease key_ok io key st))"

definition after_lease ::
  "(string \<Rightarrow> string option) \<Rightarrow> (string \<Rightarrow> bool) \<Rightarrow> node_config \<Rightarrow> tunnel_net6 option \<Rightarrow> admit_io \<Rightarrow> lease \<times> nat \<Rightarrow> node_state
   \<Rightarrow> node_state \<times> (undo + invite)" where
  "after_lease wg_public key_ok cfg v6 io = (\<lambda>(l, count) st.
     case add_peer key_ok (io_add_peer io) (l_public_key l) (l_ip l) (dev_peers st) of
       (peers, False) \<Rightarrow> (st\<lparr>dev_peers := peers\<rparr>, Err (Admitted (l_public_key l) CouldNotAdmit))
     | (peers, True) \<Rightarrow> (case invite_for wg_public cfg l v6 of
         Err e \<Rightarrow> (st\<lparr>dev_peers := peers\<rparr>, Err (Admitted (l_public_key l) (NoInvite e)))
       | Ok i \<Rightarrow> (st\<lparr>dev_peers := peers, held := count\<rparr>, Ok i)))"

definition admit_new ::
  "(string \<Rightarrow> string option) \<Rightarrow> (string \<Rightarrow> bool) \<Rightarrow> nat \<Rightarrow> node_config \<Rightarrow> tunnel_net \<Rightarrow> tunnel_net6 option \<Rightarrow> admit_io \<Rightarrow> admit_msg
   \<Rightarrow> node_state \<Rightarrow> node_state \<times> (refused + invite)" where
  "admit_new wg_public key_ok now cfg net v6 io m st =
     (let sd = (spent_mem st, spent_on_disk st);
          (file, r) = leases_update (io_locked io) (lease_file st) (io_lease_write io) (\<lambda>ls. fst (try_admit key_ok now cfg net io m sd ls));
          sd' = (case leases_load (lease_file st) of
              Ok ls \<Rightarrow> if io_locked io then snd (try_admit key_ok now cfg net io m sd ls) else sd
            | Err _ \<Rightarrow> sd);
          st1 = st\<lparr>lease_file := file, spent_mem := fst sd', spent_on_disk := snd sd'\<rparr>;
          (st2, admitted) = (case r of
              Ok (Ok lc) \<Rightarrow> after_lease wg_public key_ok cfg v6 io lc st1
            | Ok (Err refused) \<Rightarrow> (st1, Err (Nothing refused))
            | Err e \<Rightarrow> (st1, Err (Spent (LeasesNotWritten e))))
      in case admitted of
           Ok i \<Rightarrow> (st2, Ok i)
         | Err u \<Rightarrow> (case undo_admission key_ok io u (am_pass m) st2 of (st3, refused) \<Rightarrow> (st3, Err refused)))"

text \<open>
  One message of the channel. The answer is what the client is told: \<open>None\<close> when nobody
  was waiting for it any more, before or after.
\<close>

definition admit_step ::
  "(string \<Rightarrow> string option) \<Rightarrow> (string \<Rightarrow> bool) \<Rightarrow> nat \<Rightarrow> node_config \<Rightarrow> tunnel_net \<Rightarrow> tunnel_net6 option \<Rightarrow> admit_io \<Rightarrow> admit_msg
   \<Rightarrow> node_state \<Rightarrow> node_state \<times> (refused + invite) option" where
  "admit_step wg_public key_ok now cfg net v6 io m st =
     (if io_closed io then (st, None)
      else
        (let (st', answer) = (if (case am_pass m of Some p \<Rightarrow> spent_contains (spent_mem st) (sp_tag p) | None \<Rightarrow> False)
               then (st, Err (409, AlreadySpent))
               else admit_new wg_public key_ok now cfg net v6 io m st)
         in if io_delivered io then (st', Some answer)
            else if is_ok answer \<and> am_pass m \<noteq> None
            then (fst (undo_admission key_ok io (Admitted (am_public_key m) NoOneWaiting) (am_pass m) st'), None)
            else (st', None)))"

section \<open>The reaper\<close>

definition count_active :: "string \<times> nat option \<times> nat \<Rightarrow> string list \<times> (string \<times> nat) list \<Rightarrow> string list \<times> (string \<times> nat) list" where
  "count_active = (\<lambda>(k, _, rx) (active, seen).
     (if (case map_of seen k of Some n \<Rightarrow> n | None \<Rightarrow> 0) < rx then k # active else active, AList.update k rx seen))"

definition active_keys :: "(string \<times> nat option \<times> nat) list \<Rightarrow> (string \<times> nat) list \<Rightarrow> string list \<times> (string \<times> nat) list" where
  "active_keys stats seen =
     (let (active, seen') = fold count_active stats ([], seen)
      in (active, filter (\<lambda>(k, _). k \<in> fst ` set stats) seen'))"

record reap_io =
  rio_save :: save_outcome
  rio_stats :: "(string \<times> nat option \<times> nat) list option"
  rio_locked :: bool
  rio_lease_write :: bool
  rio_remove_peer :: bool

definition reap_leases :: "nat \<Rightarrow> idle_windows \<Rightarrow> (string \<times> nat option \<times> nat) list \<Rightarrow> string list \<Rightarrow> leases
    \<Rightarrow> ((leases \<times> nat) \<times> bool) \<times> leases" where
  "reap_leases now w stats active ls =
     (let ages = (\<lambda>k. map_option fst (map_of stats k));
          (ls1, touched1) = note_handshakes now ages ls;
          (ls2, touched2) = note_traffic now active ls1;
          (ls3, gone) = expire_idle now w ls2
      in (((gone, length ls3), touched1 \<or> touched2 \<or> gone \<noteq> []), ls3))"

definition reap_spent :: "int \<Rightarrow> reap_io \<Rightarrow> node_state \<Rightarrow> node_state" where
  "reap_spent unix_now io st =
     (let (s, pruned) = prune unix_now (spent_mem st)
      in if 0 < pruned \<or> needs_compacting s
         then (case fst (save (rio_save io) (s, spent_on_disk st)) of (s', disk') \<Rightarrow> st\<lparr>spent_mem := s', spent_on_disk := disk'\<rparr>)
         else st\<lparr>spent_mem := s\<rparr>)"

definition reap_step :: "(string \<Rightarrow> bool) \<Rightarrow> (string \<Rightarrow> bytes option) \<Rightarrow> nat \<Rightarrow> int \<Rightarrow> idle_windows \<Rightarrow> reap_io \<Rightarrow> node_state \<Rightarrow> node_state" where
  "reap_step key_ok decode now unix_now w io st0 =
     (let st = reap_spent unix_now io st0 in
      case rio_stats io of
        None \<Rightarrow> st
      | Some stats \<Rightarrow>
          (let (active, seen) = active_keys stats (rx_seen st);
               (file, r) = leases_update (rio_locked io) (lease_file st) (rio_lease_write io) (reap_leases now w stats active);
               st = st\<lparr>rx_seen := seen, lease_file := file\<rparr>
           in case r of
                Err _ \<Rightarrow> st
              | Ok (gone, left) \<Rightarrow>
                  st\<lparr>held := left, dev_peers := fold (\<lambda>l. remove_peer key_ok (rio_remove_peer io) (l_public_key l)) gone (dev_peers st),
                     node_limiter := fold forget_session (never_came_sessions decode gone) (node_limiter st)\<rparr>))"

section \<open>Starting, and the operator's commands\<close>

text \<open>
  A start reads the files back and puts every lease into the device; it fails when the
  leases or, on a node that takes passes, the spent passes cannot be read, or a peer
  cannot be added.
\<close>

fun add_peers :: "(string \<Rightarrow> bool) \<Rightarrow> bool \<Rightarrow> leases \<Rightarrow> (string \<rightharpoonup> ipv4) \<Rightarrow> (string \<rightharpoonup> ipv4) option" where
  "add_peers key_ok applied [] peers = Some peers"
| "add_peers key_ok applied (l # ls) peers = (case add_peer key_ok applied (l_public_key l) (l_ip l) peers of
      (peers', False) \<Rightarrow> None
    | (peers', True) \<Rightarrow> add_peers key_ok applied ls peers')"

definition start_node :: "(string \<Rightarrow> bool) \<Rightarrow> bool \<Rightarrow> bool \<Rightarrow> node_config \<Rightarrow> node_state \<Rightarrow> node_state option" where
  "start_node key_ok applied spent_readable cfg st = (case leases_load (lease_file st) of
      Err _ \<Rightarrow> None
    | Ok ls \<Rightarrow> (case add_peers key_ok applied ls Map.empty of
        None \<Rightarrow> None
      | Some peers \<Rightarrow>
          (let st = st\<lparr>dev_peers := peers, held := length ls, rx_seen := [], node_limiter := new_limiter\<rparr>
           in if admits_with_passes cfg
              then (if spent_readable then Some (st\<lparr>spent_mem := load_from (spent_on_disk st)\<rparr>) else None)
              else Some (st\<lparr>spent_mem := \<lparr>tags = [], journal = 0, journal_torn = False\<rparr>\<rparr>))))"

text \<open>
  The operator's commands run in a process of their own: \<open>device\<close> is \<open>None\<close> when the node is
  not running, and else whether the device could be told and the IPv6 network it carries.
\<close>

definition invite_or_why :: "config_error + invite \<Rightarrow> why + invite" where
  "invite_or_why r = (case r of Ok i \<Rightarrow> Ok i | Err e \<Rightarrow> Err (NoInvite e))"

definition operator_admit :: "(string \<Rightarrow> string option) \<Rightarrow> (string \<Rightarrow> bool) \<Rightarrow> nat \<Rightarrow> node_config \<Rightarrow> tunnel_net \<Rightarrow> bool \<Rightarrow> bool
    \<Rightarrow> (bool \<times> tunnel_net6 option) option \<Rightarrow> string \<Rightarrow> string \<Rightarrow> node_state \<Rightarrow> node_state \<times> (why + invite)" where
  "operator_admit wg_public key_ok now cfg net locked write_ok device name pubkey st =
     (case leases_update locked (lease_file st) write_ok (\<lambda>ls. case admit key_ok now name pubkey net ls of (ls', r) \<Rightarrow> ((r, is_ok r), ls')) of
        (file, Ok (Ok l)) \<Rightarrow> (case device of
            None \<Rightarrow> (st\<lparr>lease_file := file\<rparr>, invite_or_why (invite_for wg_public cfg l None))
          | Some (applied, v6) \<Rightarrow> (case add_peer key_ok applied (l_public_key l) (l_ip l) (dev_peers st) of
              (peers, added) \<Rightarrow> (st\<lparr>lease_file := file, dev_peers := peers\<rparr>,
                if added then invite_or_why (invite_for wg_public cfg l v6) else Err CouldNotAdmit)))
      | (file, Ok (Err e)) \<Rightarrow> (st\<lparr>lease_file := file\<rparr>, Err (LeaseRefused e))
      | (file, Err e) \<Rightarrow> (st\<lparr>lease_file := file\<rparr>, Err (LeasesNotWritten e)))"

definition operator_revoke :: "(string \<Rightarrow> bool) \<Rightarrow> bool \<Rightarrow> bool \<Rightarrow> bool option \<Rightarrow> string \<Rightarrow> node_state \<Rightarrow> node_state \<times> (why + unit)" where
  "operator_revoke key_ok locked write_ok device pubkey st =
     (case leases_update locked (lease_file st) write_ok (\<lambda>ls. case revoke pubkey ls of (ls', gone) \<Rightarrow> ((gone, gone), ls')) of
        (file, Err e) \<Rightarrow> (st\<lparr>lease_file := file\<rparr>, Err (LeasesNotWritten e))
      | (file, Ok False) \<Rightarrow> (st\<lparr>lease_file := file\<rparr>, Err KeyNotAdmitted)
      | (file, Ok True) \<Rightarrow> (case device of
          None \<Rightarrow> (st\<lparr>lease_file := file\<rparr>, Ok ())
        | Some applied \<Rightarrow> (st\<lparr>lease_file := file, dev_peers := remove_peer key_ok applied pubkey (dev_peers st)\<rparr>,
            if key_ok (trim pubkey) \<and> applied then Ok () else Err CouldNotRemove)))"

section \<open>Promises\<close>

text \<open>
  What the node relies on: a book that keeps what it promised (\<open>good s S\<close>, the
  promises \<open>S\<close>) through spending and taking back, whatever the outcome of the I/O.
\<close>

locale promise_book =
  fixes good :: "'s \<Rightarrow> (string \<rightharpoonup> int) \<Rightarrow> bool"
    and has :: "'s \<Rightarrow> string \<Rightarrow> bool"
    and legal :: "string \<Rightarrow> int \<Rightarrow> bool"
    and spend :: "'i \<Rightarrow> string \<Rightarrow> int \<Rightarrow> 's \<Rightarrow> 's \<times> bool"
    and take_back :: "'j \<Rightarrow> string \<Rightarrow> 's \<Rightarrow> 's \<times> bool"
  assumes promised: "good s S \<Longrightarrow> S t = Some u \<Longrightarrow> has s t"
    and spend_good: "good s S \<Longrightarrow> \<not> has s t \<Longrightarrow> legal t u \<Longrightarrow> spend i t u s = (s', b) \<Longrightarrow> good s' (if b then S(t \<mapsto> u) else S)"
    and take_back_good: "good s S \<Longrightarrow> take_back j t s = (s', b) \<Longrightarrow> good s' (S(t := None))"
begin

lemma unpromised: "good s S \<Longrightarrow> \<not> has s t \<Longrightarrow> S t = None"
  using promised by (cases "S t") auto

lemma take_back_unpromised: "good s S \<Longrightarrow> S t = None \<Longrightarrow> take_back j t s = (s', b) \<Longrightarrow> good s' S"
  using take_back_good [of s S j t s' b] by (simp add: fun_upd_idem)

lemma take_back_spent: "good s (S(t \<mapsto> u)) \<Longrightarrow> S t = None \<Longrightarrow> take_back j t s = (s', b) \<Longrightarrow> good s' S"
  using take_back_good [of s "S(t \<mapsto> u)" j t s' b] by (simp add: fun_upd_idem)

end

interpretation book: promise_book
  "\<lambda>(s, disk) S. spent_inv (s, disk, S)" "\<lambda>(s, disk). spent_contains s" "\<lambda>t u. tag_ok t \<and> i64_ok u"
  "\<lambda>(io, sio) t u sd. apsnd is_ok (record_pass io sio t u sd)" "\<lambda>sio t sd. apsnd is_ok (forget_pass sio t sd)"
proof (unfold_locales, goal_cases)
  case (1 s S t u)
  then show ?case by (auto simp: spent_contains_def dest: spent_invD(1))
next
  case (2 s S t u i s' b)
  obtain r where r: "record_pass (fst i) (snd i) t u s = (s', r)" "b = is_ok r"
    using 2(4) by (cases "record_pass (fst i) (snd i) t u s") (auto split: prod.splits)
  have "r = Ok () \<longleftrightarrow> is_ok r" by (cases r) auto
  with 2 r spent_inv_record [of "fst s" "snd s" S t u "fst i" "snd i" "fst s'" "snd s'" r] show ?case
    by (auto split: prod.splits)
next
  case (3 s S j t s' b)
  obtain r where "forget_pass j t s = (s', r)"
    using 3(2) by (cases "forget_pass j t s") auto
  with 3 spent_inv_forget [of "fst s" "snd s" S j t "fst s'" "snd s'" r] show ?case by (auto split: prod.splits)
qed

section \<open>Every step keeps the books\<close>

abbreviation book_of :: "node_state \<Rightarrow> spent_passes \<times> spent_disk" where
  "book_of st \<equiv> (spent_mem st, spent_on_disk st)"

abbreviation keeps :: "spent_passes \<times> spent_disk \<Rightarrow> (string \<rightharpoonup> int) \<Rightarrow> bool" where
  "keeps sd G \<equiv> spent_inv (fst sd, snd sd, G)"

definition promise :: "admit_msg \<Rightarrow> (string \<rightharpoonup> int) \<Rightarrow> (string \<rightharpoonup> int)" where
  "promise m G = (case am_pass m of Some p \<Rightarrow> G(sp_tag p \<mapsto> sp_valid_until p) | None \<Rightarrow> G)"

definition granted :: "admit_msg \<Rightarrow> (refused + invite) option \<Rightarrow> (string \<rightharpoonup> int) \<Rightarrow> (string \<rightharpoonup> int)" where
  "granted m a G = (case a of Some (Ok _) \<Rightarrow> promise m G | _ \<Rightarrow> G)"

definition msg_ok :: "admit_msg \<Rightarrow> bool" where
  "msg_ok m = (case am_pass m of Some p \<Rightarrow> tag_ok (sp_tag p) \<and> i64_ok (sp_valid_until p) | None \<Rightarrow> True)"

definition unspent :: "admit_msg \<Rightarrow> spent_passes \<Rightarrow> bool" where
  "unspent m s = (case am_pass m of Some p \<Rightarrow> \<not> spent_contains s (sp_tag p) | None \<Rightarrow> True)"

definition leases_ok :: "tunnel_net \<Rightarrow> lease_error + leases option \<Rightarrow> bool" where
  "leases_ok net file \<longleftrightarrow> (\<forall>ls. leases_load file = Ok ls \<longrightarrow> leases_inv net ls)"

lemma leases_update_ok:
  assumes "leases_ok net file" "\<And>ls. leases_inv net ls \<Longrightarrow> leases_inv net (snd (f ls))"
  shows "leases_ok net (fst (leases_update locked file write_ok f))"
proof (cases "leases_load file")
  case (Inr ls)
  with assms have "leases_inv net (snd (f ls))" by (simp add: leases_ok_def)
  with assms(1) Inr show ?thesis
    by (auto simp: leases_update_def leases_ok_def leases_load_def split: prod.splits)
qed (use assms(1) in \<open>auto simp: leases_update_def\<close>)

lemma try_admit_leases: "leases_inv net ls \<Longrightarrow> leases_inv net (snd (fst (try_admit key_ok now cfg net io m sd ls)))"
  unfolding try_admit_def Let_def admit_pass_def admit_open_def
  by (auto split: option.splits prod.splits sum.splits if_splits intro: leases_inv_admit_as)

lemma try_admit_book:
  assumes "keeps sd G" "msg_ok m" "unspent m (fst sd)"
    and "try_admit key_ok now cfg net io m sd ls = (((out, sv), ls'), sd')"
  shows "keeps sd' (if is_ok out then promise m G else G)" "sv = is_ok out"
proof -
  have r: "keeps sd1 (if is_ok r then G(sp_tag p \<mapsto> sp_valid_until p) else G)"
    if "am_pass m = Some p" "record_pass (io_append io) (io_save io) (sp_tag p) (sp_valid_until p) sd = (sd1, r)" for p sd1 r
    using book.spend_good [of sd G "sp_tag p" "sp_valid_until p" "(io_append io, io_save io)" sd1 "is_ok r"] assms(1-3) that
    by (simp add: msg_ok_def unspent_def case_prod_beta)
  show "sv = is_ok out"
    using assms(4) unfolding try_admit_def Let_def by (auto split: option.splits prod.splits sum.splits if_splits)
  have r1: "keeps sd1 (G(sp_tag p \<mapsto> sp_valid_until p))"
    if "record_pass (io_append io) (io_save io) (sp_tag p) (sp_valid_until p) sd = (sd1, Ok u)" "am_pass m = Some p" for p sd1 u
    using r [OF that(2,1)] by simp
  have r2: "keeps sd1 G"
    if "record_pass (io_append io) (io_save io) (sp_tag p) (sp_valid_until p) sd = (sd1, Err e)" "am_pass m = Some p" for p sd1 e
    using r [OF that(2,1)] by simp
  show "keeps sd' (if is_ok out then promise m G else G)"
    using assms(1,4) unfolding try_admit_def Let_def promise_def
    by (auto split: option.splits prod.splits sum.splits if_splits intro: r1 r2)
qed

lemma unspent_unpromised: "keeps sd G \<Longrightarrow> unspent m (fst sd) \<Longrightarrow> am_pass m = Some p \<Longrightarrow> G (sp_tag p) = None"
  using book.unpromised [of sd G "sp_tag p"] by (simp add: unspent_def case_prod_beta)

lemma give_back_book:
  assumes "keeps (book_of st) G \<or> keeps (book_of st) (promise m G)" "\<And>p. am_pass m = Some p \<Longrightarrow> G (sp_tag p) = None"
  shows "keeps (book_of (fst (give_back io why (am_pass m) st))) G"
    "lease_file (fst (give_back io why (am_pass m) st)) = lease_file st"
proof -
  show "lease_file (fst (give_back io why (am_pass m) st)) = lease_file st"
    by (simp add: give_back_def split: option.splits prod.splits)
  show "keeps (book_of (fst (give_back io why (am_pass m) st))) G"
  proof (cases "am_pass m")
    case None
    with assms(1) show ?thesis by (simp add: give_back_def promise_def)
  next
    case (Some p)
    obtain sd r where f: "forget_pass (io_forget io) (sp_tag p) (book_of st) = (sd, r)" by fastforce
    have "keeps sd G"
      using assms(1) assms(2) [OF Some] book.take_back_unpromised [of "book_of st" G "sp_tag p" "io_forget io" sd "is_ok r"]
        book.take_back_spent [of "book_of st" G "sp_tag p" "sp_valid_until p" "io_forget io" sd "is_ok r"] f Some
      by (auto simp: promise_def case_prod_beta)
    with Some f show ?thesis by (simp add: give_back_def case_prod_beta)
  qed
qed

lemma undo_lease_keeps:
  "book_of (undo_lease key_ok io key st) = book_of st" "leases_ok net (lease_file st) \<Longrightarrow> leases_ok net (lease_file (undo_lease key_ok io key st))"
  unfolding undo_lease_def
  by (auto intro!: leases_update_ok simp: revoke_def Let_def leases_inv_filter)

lemma undo_admission_book:
  assumes "keeps (book_of st) G \<or> keeps (book_of st) (promise m G)" "\<And>p. am_pass m = Some p \<Longrightarrow> G (sp_tag p) = None"
    and "\<And>r. u \<noteq> Nothing r" "leases_ok net (lease_file st)"
  shows "keeps (book_of (fst (undo_admission key_ok io u (am_pass m) st))) G"
    "leases_ok net (lease_file (fst (undo_admission key_ok io u (am_pass m) st)))"
proof -
  define st' where "st' = (case u of Admitted key why \<Rightarrow> undo_lease key_ok io key st | _ \<Rightarrow> st)"
  have st': "book_of st' = book_of st" "leases_ok net (lease_file st')"
    using assms(4) undo_lease_keeps by (auto simp: st'_def split: undo.splits)
  obtain why where u: "undo_admission key_ok io u (am_pass m) st = give_back io why (am_pass m) st'"
    using assms(3) by (cases u) (auto simp: undo_admission_def st'_def)
  show "keeps (book_of (fst (undo_admission key_ok io u (am_pass m) st))) G"
    unfolding u by (rule give_back_book(1)) (use assms(1,2) st'(1) in auto)
  show "leases_ok net (lease_file (fst (undo_admission key_ok io u (am_pass m) st)))"
    unfolding u using give_back_book(2) [of st' G m io why] assms(1,2) st' by simp
qed

lemma undo_any_book:
  assumes "keeps (book_of st) G \<or> keeps (book_of st) (promise m G)" "\<And>p. am_pass m = Some p \<Longrightarrow> G (sp_tag p) = None"
    and "\<And>r. u = Nothing r \<Longrightarrow> keeps (book_of st) G" "leases_ok net (lease_file st)"
  shows "keeps (book_of (fst (undo_admission key_ok io u (am_pass m) st))) G"
    "leases_ok net (lease_file (fst (undo_admission key_ok io u (am_pass m) st)))"
  using undo_admission_book [OF assms(1,2) _ assms(4), of u key_ok io] assms(3,4) by (cases u; simp add: undo_admission_def)+

lemma after_lease_keeps:
  assumes "after_lease wg_public key_ok cfg v6 io lc st = (st', r)"
  shows "book_of st' = book_of st" "lease_file st' = lease_file st" "r = Err u \<Longrightarrow> u \<noteq> Nothing x"
  using assms unfolding after_lease_def by (auto split: prod.splits bool.splits sum.splits)

text \<open>The read-change-write of an admission and what it did to the book of passes.\<close>

lemma admit_update_book:
  assumes "keeps sd G" "msg_ok m" "unspent m (fst sd)"
    and "leases_update locked file wr (\<lambda>ls. fst (try_admit key_ok now cfg net io m sd ls)) = (file', r)"
    and "sd' = (case leases_load file of Ok ls \<Rightarrow> if locked then snd (try_admit key_ok now cfg net io m sd ls) else sd | Err _ \<Rightarrow> sd)"
  shows "case r of Ok (Ok _) \<Rightarrow> keeps sd' (promise m G) | Ok (Err _) \<Rightarrow> keeps sd' G | Err _ \<Rightarrow> keeps sd' G \<or> keeps sd' (promise m G)"
proof (cases "\<exists>ls. locked \<and> leases_load file = Ok ls")
  case True
  then obtain ls where ls: "locked" "leases_load file = Ok ls" by blast
  obtain out sv ls' sd1 where t: "try_admit key_ok now cfg net io m sd ls = (((out, sv), ls'), sd1)" by (metis prod.collapse)
  from try_admit_book [OF assms(1-3) t] have k: "keeps sd1 (if is_ok out then promise m G else G)" "sv = is_ok out" by auto
  have "r = Ok out \<or> (\<exists>e. r = Err e)" using assms(4) ls t by (auto simp: leases_update_def split: if_splits)
  with k assms(5) ls t show ?thesis by (cases out) auto
next
  case False
  then have "(\<exists>e. r = Err e) \<and> sd' = sd"
    using assms(4,5) by (auto simp: leases_update_def split: if_splits sum.splits)
  with assms(1) show ?thesis by auto
qed

lemma admit_new_keeps:
  assumes "keeps (book_of st) G" "msg_ok m" "unspent m (spent_mem st)" "leases_ok net (lease_file st)"
    and "admit_new wg_public key_ok now cfg net v6 io m st = (st', r)"
  shows "keeps (book_of st') (if is_ok r then promise m G else G)" "leases_ok net (lease_file st')"
proof -
  define sd where "sd = book_of st"
  define sd' where "sd' = (case leases_load (lease_file st) of
    Ok ls \<Rightarrow> if io_locked io then snd (try_admit key_ok now cfg net io m sd ls) else sd | Err _ \<Rightarrow> sd)"
  obtain fl u where fu: "leases_update (io_locked io) (lease_file st) (io_lease_write io)
      (\<lambda>ls. fst (try_admit key_ok now cfg net io m sd ls)) = (fl, u)" by fastforce
  have f: "leases_ok net fl"
    using leases_update_ok [OF assms(4), of "\<lambda>ls. fst (try_admit key_ok now cfg net io m sd ls)"] try_admit_leases fu
    by (metis fst_conv)
  have "keeps sd G" "unspent m (fst sd)" using assms(1,3) by (simp_all add: sd_def)
  note b = admit_update_book [OF this(1) assms(2) this(2) fu sd'_def]
  define st1 where "st1 = st\<lparr>lease_file := fl, spent_mem := fst sd', spent_on_disk := snd sd'\<rparr>"
  define out where "out = (case u of Ok (Ok lc) \<Rightarrow> after_lease wg_public key_ok cfg v6 io lc st1
      | Ok (Err refused) \<Rightarrow> (st1, Err (Nothing refused)) | Err e \<Rightarrow> (st1, Err (Spent (LeasesNotWritten e))))"
  obtain st2 a where o: "out = (st2, a)" by (cases out)
  have st1: "book_of st1 = sd'" "lease_file st1 = fl" by (simp_all add: st1_def)
  have none: "\<And>p. am_pass m = Some p \<Longrightarrow> G (sp_tag p) = None" using unspent_unpromised [of "book_of st" G m] assms(1,3) by simp
  have new: "(st', r) = (case a of Ok i \<Rightarrow> (st2, Ok i)
      | Err u \<Rightarrow> (case undo_admission key_ok io u (am_pass m) st2 of (st3, refused) \<Rightarrow> (st3, Err refused)))"
    using assms(5) unfolding admit_new_def Let_def sd_def [symmetric] fu prod.case sd'_def [symmetric] st1_def [symmetric]
      out_def [symmetric] o by simp
  have s2: "book_of st2 = sd'" "leases_ok net (lease_file st2)"
    using o f st1 after_lease_keeps unfolding out_def by (auto split: sum.splits)
  have "keeps (book_of st') (if is_ok r then promise m G else G) \<and> leases_ok net (lease_file st')"
  proof (cases a)
    case (Inr i)
    then have "keeps sd' (promise m G)" using o b unfolding out_def by (auto split: sum.splits)
    with Inr new s2 show ?thesis by simp
  next
    case (Inl un)
    have "keeps (book_of st2) G" if "un = Nothing x" for x
    proof -
      have "\<exists>e. u = Ok (Err e)"
        using o Inl that after_lease_keeps(3) [of wg_public key_ok cfg v6 io _ st1 st2 a un x] unfolding out_def by (auto split: sum.splits)
      with b s2(1) show ?thesis by auto
    qed
    moreover have "keeps (book_of st2) G \<or> keeps (book_of st2) (promise m G)" using b s2(1) by (auto split: sum.splits)
    ultimately show ?thesis
      using undo_any_book [where st = st2 and G = G and m = m and u = un and net = net and key_ok = key_ok and io = io] none s2(2) new Inl
      by (cases "undo_admission key_ok io un (am_pass m) st2") simp
  qed
  then show "keeps (book_of st') (if is_ok r then promise m G else G)" "leases_ok net (lease_file st')" by simp_all
qed

lemma admit_step_keeps:
  assumes "keeps (book_of st) G" "msg_ok m" "leases_ok net (lease_file st)"
    and "admit_step wg_public key_ok now cfg net v6 io m st = (st', a)"
  shows "keeps (book_of st') (granted m a G)" "leases_ok net (lease_file st')"
    "a = Some (Ok i) \<Longrightarrow> am_pass m = Some p \<Longrightarrow> \<not> spent_contains (spent_mem st) (sp_tag p)"
proof -
  have "keeps (book_of st') (granted m a G) \<and> leases_ok net (lease_file st')
    \<and> (\<forall>i. a = Some (Ok i) \<longrightarrow> unspent m (spent_mem st))"
  proof (cases "io_closed io \<or> \<not> unspent m (spent_mem st)")
    case True
    with assms show ?thesis by (auto simp: admit_step_def unspent_def granted_def split: if_splits option.splits)
  next
    case False
    then have un: "unspent m (spent_mem st)" and open': "\<not> io_closed io" by simp_all
    obtain st1 r where n: "admit_new wg_public key_ok now cfg net v6 io m st = (st1, r)" by fastforce
    note k = admit_new_keeps [OF assms(1,2) un assms(3) n]
    have none: "\<And>p. am_pass m = Some p \<Longrightarrow> G (sp_tag p) = None" using unspent_unpromised [of "book_of st" G m] assms(1) un by simp
    have "\<not> (case am_pass m of Some p \<Rightarrow> spent_contains (spent_mem st) (sp_tag p) | None \<Rightarrow> False)"
      using un by (auto simp: unspent_def split: option.splits)
    then have st: "(st', a) = (if io_delivered io then (st1, Some r)
        else if is_ok r \<and> am_pass m \<noteq> None
        then (fst (undo_admission key_ok io (Admitted (am_public_key m) NoOneWaiting) (am_pass m) st1), None) else (st1, None))"
      using assms(4) open' n by (simp add: admit_step_def)
    have p: "am_pass m = None \<Longrightarrow> promise m G = G" by (simp add: promise_def)
    have "keeps (book_of st1) G \<or> keeps (book_of st1) (promise m G)" using k(1) by (auto split: if_splits)
    note u = undo_admission_book [OF this none _ k(2), of "Admitted (am_public_key m) NoOneWaiting" key_ok io]
    show ?thesis
    proof (cases "io_delivered io")
      case True
      with st k un show ?thesis by (cases r) (auto simp: granted_def)
    next
      case False
      with st k p u show ?thesis by (cases "is_ok r \<and> am_pass m \<noteq> None") (auto simp: granted_def split: if_splits)
    qed
  qed
  then show "keeps (book_of st') (granted m a G)" "leases_ok net (lease_file st')"
    "a = Some (Ok i) \<Longrightarrow> am_pass m = Some p \<Longrightarrow> \<not> spent_contains (spent_mem st) (sp_tag p)"
    by (simp_all add: unspent_def)
qed

definition not_past :: "int \<Rightarrow> (string \<rightharpoonup> int) \<Rightarrow> (string \<rightharpoonup> int)" where
  "not_past now G = (\<lambda>t. case G t of Some u \<Rightarrow> if now \<le> u then Some u else None | None \<Rightarrow> None)"

lemma reap_spent_keeps:
  assumes "keeps (book_of st) G"
  shows "keeps (book_of (reap_spent unix_now io st)) (not_past unix_now G)" "lease_file (reap_spent unix_now io st) = lease_file st"
proof -
  obtain s n where p: "prune unix_now (spent_mem st) = (s, n)" by fastforce
  have "spent_step (spent_mem st, spent_on_disk st, G) (s, spent_on_disk st, not_past unix_now G)"
    using step_prune [of "spent_mem st" "spent_on_disk st" G unix_now] p by (simp add: not_past_def)
  then have 1: "spent_inv (s, spent_on_disk st, not_past unix_now G)" using assms by (auto intro: spent_step_inv)
  obtain s' disk' r where sv: "save (rio_save io) (s, spent_on_disk st) = ((s', disk'), r)" by (metis prod.collapse)
  with 1 have "spent_inv (s', disk', not_past unix_now G)" by (auto intro: spent_step_inv step_save)
  with 1 p sv show "keeps (book_of (reap_spent unix_now io st)) (not_past unix_now G)" by (simp add: reap_spent_def)
  show "lease_file (reap_spent unix_now io st) = lease_file st"
    by (simp add: reap_spent_def split: prod.splits)
qed

lemma reap_leases_keeps: "leases_inv net ls \<Longrightarrow> leases_inv net (snd (reap_leases now w stats active ls))"
proof -
  assume l: "leases_inv net ls"
  define f where "f = (\<lambda>l. note_active now active (note_handshake now (\<lambda>k. map_option fst (map_of stats k)) l))"
  have "leases_inv net (map f ls)" using l by (rule leases_inv_same) (simp_all add: f_def)
  then show ?thesis
    by (simp add: reap_leases_def note_handshakes_def note_traffic_def expire_idle_eq Let_def leases_inv_filter comp_def f_def)
qed

lemma reap_step_keeps:
  assumes "keeps (book_of st) G" "leases_ok net (lease_file st)"
  shows "keeps (book_of (reap_step key_ok decode now unix_now w io st)) (not_past unix_now G)"
    "leases_ok net (lease_file (reap_step key_ok decode now unix_now w io st))"
proof -
  let ?st = "reap_spent unix_now io st"
  have up: "leases_ok net (fst (leases_update locked (lease_file ?st) wr (reap_leases now w stats active)))" for locked wr stats active
    using assms(2) reap_spent_keeps(2) [OF assms(1)] reap_leases_keeps by (auto intro!: leases_update_ok)
  have "book_of (reap_step key_ok decode now unix_now w io st) = book_of ?st"
    by (simp add: reap_step_def Let_def split: option.splits prod.splits sum.splits)
  then show "keeps (book_of (reap_step key_ok decode now unix_now w io st)) (not_past unix_now G)"
    using reap_spent_keeps(1) [OF assms(1)] by simp
  show "leases_ok net (lease_file (reap_step key_ok decode now unix_now w io st))"
    using up assms(2) reap_spent_keeps(2) [OF assms(1)]
    unfolding reap_step_def Let_def by (auto split: option.splits prod.splits sum.splits) (metis fst_conv)+
qed

section \<open>The node's history\<close>

text \<open>
  A configuration is the node and the passes it granted, a grant being an invite that
  reached its client, less those whose validity was over when the reaper ran. A power
  cut may fall inside an admission, after the pass is written down and before the
  lease is.
\<close>

type_synonym node_history = "node_state \<times> (string \<rightharpoonup> int)"

inductive node_step :: "(string \<Rightarrow> string option) \<Rightarrow> (string \<Rightarrow> bool) \<Rightarrow> node_config \<Rightarrow> tunnel_net \<Rightarrow> node_history \<Rightarrow> node_history \<Rightarrow> bool"
  for wg_public key_ok cfg net where
  n_admit: "msg_ok m \<Longrightarrow> admit_step wg_public key_ok now cfg net v6 io m st = (st', a) \<Longrightarrow>
    node_step wg_public key_ok cfg net (st, G) (st', granted m a G)"
| n_reap: "node_step wg_public key_ok cfg net (st, G) (reap_step key_ok decode now unix_now w rio st, not_past unix_now G)"
| n_start: "start_node key_ok applied readable cfg st = Some st' \<Longrightarrow> node_step wg_public key_ok cfg net (st, G) (st', G)"
| n_cut: "msg_ok m \<Longrightarrow> unspent m (spent_mem st) \<Longrightarrow> leases_load (lease_file st) = Ok ls \<Longrightarrow>
    try_admit key_ok now cfg net io m (book_of st) ls = (r, (s, disk)) \<Longrightarrow>
    start_node key_ok applied readable cfg (st\<lparr>spent_on_disk := disk\<rparr>) = Some st' \<Longrightarrow>
    node_step wg_public key_ok cfg net (st, G) (st', G)"
| n_operator_admit: "node_step wg_public key_ok cfg net (st, G) (fst (operator_admit wg_public key_ok now cfg net locked wr device name pubkey st), G)"
| n_operator_revoke: "node_step wg_public key_ok cfg net (st, G) (fst (operator_revoke key_ok locked wr running pubkey st), G)"

definition first_start :: node_state where
  "first_start = \<lparr>lease_file = Ok None, spent_mem = fst no_passes, spent_on_disk = snd no_passes, dev_peers = Map.empty,
     held = 0, rx_seen = [], node_limiter = new_limiter\<rparr>"

lemma spent_inv_fewer: "spent_inv (s, disk, S) \<Longrightarrow> T \<subseteq>\<^sub>m S \<Longrightarrow> spent_inv (s, disk, T)"
  unfolding spent_inv_def map_le_def by (auto simp: dom_def)

lemma start_keeps:
  assumes "keeps (book_of st) G" "admits_with_passes cfg" "start_node key_ok applied readable cfg st = Some st'"
  shows "keeps (book_of st') G" "lease_file st' = lease_file st"
proof -
  have "spent_inv (load_from (spent_on_disk st), spent_on_disk st, G)"
    using assms(1) by (auto intro: spent_step_inv step_power_cut)
  with assms(2,3) show "keeps (book_of st') G" "lease_file st' = lease_file st"
    by (auto simp: start_node_def Let_def split: sum.splits option.splits if_splits)
qed

lemma operator_keeps:
  "book_of (fst (operator_admit wg_public key_ok now cfg net locked wr device name pubkey st)) = book_of st"
  "book_of (fst (operator_revoke key_ok locked wr running pubkey st)) = book_of st"
  "leases_ok net (lease_file st) \<Longrightarrow> leases_ok net (lease_file (fst (operator_admit wg_public key_ok now cfg net locked wr device name pubkey st)))"
  "leases_ok net (lease_file st) \<Longrightarrow> leases_ok net (lease_file (fst (operator_revoke key_ok locked wr running pubkey st)))"
proof -
  let ?fa = "\<lambda>ls. case admit key_ok now name pubkey net ls of (ls', r) \<Rightarrow> ((r, is_ok r), ls')"
  let ?fr = "\<lambda>ls. case revoke pubkey ls of (ls', gone) \<Rightarrow> ((gone, gone), ls')"
  show "book_of (fst (operator_admit wg_public key_ok now cfg net locked wr device name pubkey st)) = book_of st"
    "book_of (fst (operator_revoke key_ok locked wr running pubkey st)) = book_of st"
    by (simp_all add: operator_admit_def operator_revoke_def split: prod.splits sum.splits bool.splits option.splits)
  assume l: "leases_ok net (lease_file st)"
  have "leases_ok net (fst (leases_update locked (lease_file st) wr ?fa))"
    by (rule leases_update_ok [OF l]) (auto split: prod.splits intro: leases_inv_admit)
  then show "leases_ok net (lease_file (fst (operator_admit wg_public key_ok now cfg net locked wr device name pubkey st)))"
    unfolding operator_admit_def by (auto split: prod.splits sum.splits option.splits)
  have "leases_ok net (fst (leases_update locked (lease_file st) wr ?fr))"
    by (rule leases_update_ok [OF l]) (simp add: revoke_def Let_def leases_inv_filter)
  then show "leases_ok net (lease_file (fst (operator_revoke key_ok locked wr running pubkey st)))"
    unfolding operator_revoke_def by (auto split: prod.splits sum.splits bool.splits option.splits)
qed

lemma node_step_keeps:
  assumes "node_step wg_public key_ok cfg net h h'" "admits_with_passes cfg"
    and "keeps (book_of (fst h)) (snd h)" "leases_ok net (lease_file (fst h))"
  shows "keeps (book_of (fst h')) (snd h') \<and> leases_ok net (lease_file (fst h'))"
  using assms(1)
proof cases
  case (n_admit m now v6 io st st' a G)
  have "keeps (book_of st) G" "leases_ok net (lease_file st)" using assms(3,4) n_admit(1) by simp_all
  from admit_step_keeps(1,2) [OF this(1) n_admit(3) this(2) n_admit(4)] n_admit(2) show ?thesis by simp
next
  case (n_reap st G decode now unix_now w rio)
  with reap_step_keeps [of st G net] assms(3,4) show ?thesis by simp
next
  case (n_start applied readable st st' G)
  with start_keeps [of st G cfg] assms(2-4) show ?thesis by simp
next
  case (n_cut m st ls now io r s disk applied readable st' G)
  obtain out sv ls' where t: "try_admit key_ok now cfg net io m (book_of st) ls = (((out, sv), ls'), (s, disk))"
    using n_cut(6) by (metis prod.collapse)
  have u: "keeps (book_of st) G" using assms(3) n_cut(1) by simp
  have "keeps (s, disk) (if is_ok out then promise m G else G)" using try_admit_book(1) [OF u n_cut(3) _ t] n_cut(4) by simp
  moreover have "G \<subseteq>\<^sub>m promise m G"
    using unspent_unpromised [OF u] n_cut(4) by (auto simp: promise_def map_le_def split: option.splits)
  ultimately have "spent_inv (s, disk, G)" by (auto intro: spent_inv_fewer split: if_splits)
  then have "keeps (book_of (st\<lparr>spent_mem := s, spent_on_disk := disk\<rparr>)) G" by simp
  moreover have "start_node key_ok applied readable cfg (st\<lparr>spent_mem := s, spent_on_disk := disk\<rparr>) = Some st'"
    using n_cut(7) assms(2) by (auto simp: start_node_def Let_def split: sum.splits option.splits if_splits)
  ultimately show ?thesis using start_keeps [of "st\<lparr>spent_mem := s, spent_on_disk := disk\<rparr>" G cfg] assms(2,4) n_cut(1,2) by simp
next
  case (n_operator_admit st G now locked wr device name pubkey)
  with operator_keeps(1,3) assms(3,4) show ?thesis by simp
next
  case (n_operator_revoke st G locked wr device pubkey)
  with operator_keeps(2,4) assms(3,4) show ?thesis by simp
qed

lemma node_reachable_keeps:
  assumes "(node_step wg_public key_ok cfg net)\<^sup>*\<^sup>* (first_start, Map.empty) h" "admits_with_passes cfg"
  shows "keeps (book_of (fst h)) (snd h) \<and> leases_ok net (lease_file (fst h))"
  using assms(1)
proof (induction rule: rtranclp_induct)
  case base
  show ?case
    by (simp add: first_start_def leases_ok_def leases_load_def leases_inv_def spent_inv_def no_passes_def whole_journal_def)
next
  case (step h h')
  with node_step_keeps [OF _ assms(2)] show ?case by blast
qed

text \<open>
  Claim C2. A pass is granted once. Through any history of a node that takes passes, with any
  outcome of every write to the leases, the journal and the snapshot of the passes and of
  every change to the device, with answers that reach no one, power cuts between and
  inside admissions, restarts and the operator's own commands: a client is given an
  invite for a pass only if that pass was not granted before, unless its validity was
  over when the reaper last ran. And the lease book it is given out of is always in order.
\<close>

theorem pass_granted_once:
  assumes "(node_step wg_public key_ok cfg net)\<^sup>*\<^sup>* (first_start, Map.empty) (st, G)" "admits_with_passes cfg"
    and "msg_ok m" "am_pass m = Some p" "admit_step wg_public key_ok now cfg net v6 io m st = (st', Some (Ok i))"
  shows "G (sp_tag p) = None \<and> spent_contains (spent_mem st') (sp_tag p)
    \<and> (\<forall>ls. leases_load (lease_file st') = Ok ls \<longrightarrow> leases_inv net ls)"
proof -
  have k: "keeps (book_of st) G" "leases_ok net (lease_file st)" using node_reachable_keeps [OF assms(1,2)] by simp_all
  note a = admit_step_keeps [OF k(1) assms(3) k(2) assms(5)]
  have "G (sp_tag p) = None" using a(3) [OF refl assms(4)] book.unpromised [of "book_of st" G "sp_tag p"] k(1) by simp
  moreover have "spent_contains (spent_mem st') (sp_tag p)"
    using a(1) assms(4) by (auto simp: granted_def promise_def spent_contains_def dest: spent_invD(1))
  ultimately show ?thesis using a(2) by (simp add: leases_ok_def)
qed

section \<open>What a redemption is answered\<close>








text \<open>
  Undoing an admission revokes the key's lease also when the key held it before: a peer
  that cannot be added costs a client the lease its operator gave it by hand.
\<close>

lemma undo_takes_earlier_lease:
  assumes "lease_file st = Ok (Some [l])" "trim (l_public_key l) = l_public_key l" "key_ok (l_public_key l)"
    and "am_public_key m = l_public_key l" "am_pass m = None" "\<not> io_closed io" "io_delivered io" "io_locked io" "io_lease_write io"
    and "\<not> io_add_peer io" "io_revoke_lock io" "io_revoke_write io"
  shows "\<exists>st'. admit_step wg_public key_ok now cfg net v6 io m st = (st', Some (Err (503, CouldNotAdmit)))
    \<and> lease_file st' = Ok (Some [])"
proof -
  have f: "find_lease [l] (l_public_key l) = Some l" using assms(2) by (simp add: find_lease_def)
  have t: "try_admit key_ok now cfg net io m sd [l] = (((Ok (l, 1), True), [l]), sd)" for sd
    using assms(2-5) f by (simp add: try_admit_def refusal_for_room_def admit_open_def admit_as_def admit_def Let_def)
  have "leases_update (io_locked io) (lease_file st) (io_lease_write io) (\<lambda>ls. fst (try_admit key_ok now cfg net io m (book_of st) ls))
      = (Ok (Some [l]), Ok (Ok (l, 1)))"
    using assms(1,8,9) t by (simp add: leases_update_def leases_load_def)
  then show ?thesis
    using assms t
    by (simp add: admit_step_def admit_new_def Let_def leases_load_def after_lease_def add_peer_def undo_admission_def give_back_def
        undo_lease_def leases_update_def revoke_def)
qed

section \<open>A pass redeemed\<close>

definition sample_io :: admit_io where
  "sample_io = \<lparr>io_closed = False, io_delivered = True, io_locked = True, io_lease_write = True, io_append = Flushed, io_save = Saves,
     io_add_peer = True, io_remove_peer = True, io_revoke_lock = True, io_revoke_write = True, io_forget = Saves\<rparr>"

definition sample_msg :: admit_msg where
  "sample_msg = \<lparr>am_public_key = ''KEY'', am_name = ''pass-1'', am_session = False,
     am_pass = Some \<lparr>sp_tag = replicate 64 (CHR ''a''), sp_valid_until = 100\<rparr>\<rparr>"

lemma sample_msg_ok: "msg_ok sample_msg"
  by (simp add: msg_ok_def sample_msg_def tag_ok_def i64_ok_def list_all_iff is_ascii_hexdigit_def is_ascii_digit_def)

lemma sample_try_admit:
  "\<exists>l ls' sd'. try_admit (\<lambda>_. True) 5 sample_config sample_net sample_io sample_msg (book_of first_start) [] = (((Ok (l, 1), True), ls'), sd')"
proof -
  have "trim ''KEY'' = ''KEY''" "trim ''pass-1'' = ''pass-1''" by (rule trim_graphic, simp add: is_graphic_def)+
  moreover have "name_ok ''pass-1''"
    by (simp add: name_ok_def is_ascii_alphanumeric_def is_ascii_alphabetic_def is_ascii_lowercase_def is_ascii_uppercase_def is_ascii_digit_def)
  ultimately show ?thesis
    using sample_next_free
    by (simp add: try_admit_def sample_msg_def refusal_for_room_def find_lease_def has_room_def sample_config_def default_max_clients_def
        admit_pass_def admit_as_def admit_def Let_def record_pass_def sample_io_def first_start_def no_passes_def)
qed

lemma sample_admission:
  "\<exists>st' i. admit_step (\<lambda>_. Some sample_node_key) (\<lambda>_. True) 5 sample_config sample_net None sample_io sample_msg first_start = (st', Some (Ok i))"
proof -
  obtain l ls' sd' where t: "try_admit (\<lambda>_. True) 5 sample_config sample_net sample_io sample_msg (book_of first_start) []
      = (((Ok (l, 1), True), ls'), sd')" using sample_try_admit by blast
  obtain i where "invite_for (\<lambda>_. Some sample_node_key) sample_config l None = Ok i"
    using sample_config_net by (simp add: invite_for_def node_public_key_def)
  with t show ?thesis
    by (simp add: admit_step_def admit_new_def Let_def sample_io_def sample_msg_def first_start_def no_passes_def leases_update_def
        leases_load_def after_lease_def add_peer_def spent_contains_def)
qed

lemma sample_takes_passes: "admits_with_passes sample_config"
proof -
  have "trim ''pass'' = ''pass''" by (rule trim_graphic) (simp add: is_graphic_def)
  then show ?thesis by (simp add: admits_with_passes_def sample_config_def)
qed

theorem pass_granted_once_witness:
  "\<exists>st' i. admit_step (\<lambda>_. Some sample_node_key) (\<lambda>_. True) 5 sample_config sample_net None sample_io sample_msg first_start = (st', Some (Ok i))
     \<and> spent_contains (spent_mem st') (replicate 64 (CHR ''a''))"
proof -
  obtain st' i where a: "admit_step (\<lambda>_. Some sample_node_key) (\<lambda>_. True) 5 sample_config sample_net None sample_io sample_msg first_start
      = (st', Some (Ok i))" using sample_admission by blast
  have "am_pass sample_msg = Some \<lparr>sp_tag = replicate 64 (CHR ''a''), sp_valid_until = 100\<rparr>" by (simp add: sample_msg_def)
  from pass_granted_once [OF rtranclp.rtrancl_refl sample_takes_passes sample_msg_ok this a] a show ?thesis by auto
qed



end
