(* ===== verification/Issuer_Accounts.thy ===== *)
theory Issuer_Accounts
  imports Pass
begin

text \<open>
  The accounts of the pass issuer (\<^verbatim>\<open>hidravpn-issuer/src/main.rs\<close>): an account per token,
  with a daily quota or a prepaid balance, the operations on the accounts file, and
  \<^verbatim>\<open>POST /issue\<close>, which charges an account and signs blinded passes for it. A \<^verbatim>\<open>u32\<close> is a
  \<open>nat\<close> with its bound written out. The file is \<open>None\<close> when it cannot be read; whether it
  can be locked and written is an argument of every change.

  Charging and signing are two steps with the issuer's other work in between, so the
  history of the accounts is a step relation that keeps the issuances under way.
\<close>

section \<open>Accounts\<close>

definition U32_MAX :: nat where
  "U32_MAX = 2 ^ 32 - 1"

definition saturating_add_u32 :: "nat \<Rightarrow> nat \<Rightarrow> nat" where
  "saturating_add_u32 a b = min (a + b) U32_MAX"

record account_entry =
  ac_name :: string
  ac_token_sha256 :: string
  ac_quota_per_day :: nat
  ac_enabled :: bool
  ac_day :: int
  ac_used :: nat
  ac_balance :: "nat option"

type_synonym accounts = "account_entry list"

datatype issue_refused = UnknownToken | Disabled | Quota nat | Balance nat

datatype account_error = BadName | NameTaken | NoRandomness | NoSuchAccount

text \<open>Compared without a short cut: all the bytes, whatever the first difference.\<close>

definition same :: "bytes \<Rightarrow> bytes \<Rightarrow> bool" where
  "same a b \<longleftrightarrow> length a = length b \<and> fold (\<lambda>(x, y) acc. acc OR (x XOR y)) (zip a b) 0 = 0"

definition token_hash :: "'a pass_env_scheme \<Rightarrow> string \<Rightarrow> string" where
  "token_hash env token = hex_encode env (sha256 env (ascii_bytes (trim token)))"

definition has_hash :: "string \<Rightarrow> account_entry \<Rightarrow> bool" where
  "has_hash hash a \<longleftrightarrow> same (ascii_bytes (ac_token_sha256 a)) (ascii_bytes hash)"

text \<open>\<^verbatim>\<open>iter_mut().find(p)\<close> and a change of what it found.\<close>

fun modify_first :: "('a \<Rightarrow> bool) \<Rightarrow> ('a \<Rightarrow> 'a) \<Rightarrow> 'a list \<Rightarrow> 'a list" where
  "modify_first p f [] = []"
| "modify_first p f (x # xs) = (if p x then f x # xs else x # modify_first p f xs)"

definition account_char :: "char \<Rightarrow> bool" where
  "account_char c \<longleftrightarrow> is_ascii_alphanumeric c \<or> c = CHR ''-'' \<or> c = CHR ''_''"

text \<open>The 32 random bytes, when there are any, and their base64 text, are arguments.\<close>

definition accounts_add :: "'a pass_env_scheme \<Rightarrow> string option \<Rightarrow> string \<Rightarrow> nat \<Rightarrow> nat option \<Rightarrow> accounts
    \<Rightarrow> accounts \<times> (account_error + string)" where
  "accounts_add env random_token name quota prepaid as =
     (let name = trim name in
      if name = [] \<or> 32 < length name \<or> \<not> list_all account_char name then (as, Err BadName)
      else if \<exists>a\<in>set as. ac_name a = name then (as, Err NameTaken)
      else (case random_token of
          None \<Rightarrow> (as, Err NoRandomness)
        | Some token \<Rightarrow> (as @ [\<lparr>ac_name = name, ac_token_sha256 = token_hash env token,
            ac_quota_per_day = (if prepaid \<noteq> None then 0 else quota), ac_enabled = True, ac_day = 0, ac_used = 0,
            ac_balance = prepaid\<rparr>], Ok token)))"

text \<open>A name of a bought account: \<^verbatim>\<open>x\<close> is added until no account has it.\<close>

function free_name :: "accounts \<Rightarrow> string \<Rightarrow> string" where
  "free_name as name = (if \<exists>a\<in>set as. ac_name a = name then free_name as (name @ ''x'') else name)"
  by pat_completeness auto
termination
proof (relation "measure (\<lambda>(as, name). length (filter (\<lambda>a. length name \<le> length (ac_name a)) as))", simp)
  fix as :: accounts and name
  assume "\<exists>a\<in>set as. ac_name a = name"
  then obtain a where a: "a \<in> set as" "ac_name a = name" by blast
  let ?n = "\<lambda>k. length (filter (\<lambda>a. k \<le> length (ac_name a)) as)"
  have "filter (\<lambda>a. Suc (length name) \<le> length (ac_name a)) as
      = filter (\<lambda>a. Suc (length name) \<le> length (ac_name a)) (filter (\<lambda>a. length name \<le> length (ac_name a)) as)"
    by (auto intro!: filter_cong)
  moreover have "\<not> Suc (length name) \<le> length (ac_name a)" "a \<in> set (filter (\<lambda>a. length name \<le> length (ac_name a)) as)"
    using a by auto
  ultimately have "?n (Suc (length name)) < ?n (length name)"
    by (metis (mono_tags, lifting) length_filter_less)
  then show "((as, name @ ''x''), as, name) \<in> measure (\<lambda>(as, name). length (filter (\<lambda>a. length name \<le> length (ac_name a)) as))"
    by simp
qed

declare free_name.simps [simp del]

definition accounts_credit :: "string option \<Rightarrow> string \<Rightarrow> nat \<Rightarrow> accounts \<Rightarrow> accounts \<times> (account_error + nat)" where
  "accounts_credit random_hex hash passes as = (case find (has_hash hash) as of
      Some a \<Rightarrow>
        (let b = saturating_add_u32 (case ac_balance a of Some b \<Rightarrow> b | None \<Rightarrow> 0) passes
         in (modify_first (has_hash hash) (\<lambda>a. a\<lparr>ac_balance := Some b\<rparr>) as, Ok b))
    | None \<Rightarrow> (case random_hex of
        None \<Rightarrow> (as, Err NoRandomness)
      | Some hex \<Rightarrow> (as @ [\<lparr>ac_name = free_name as (''paid-'' @ hex), ac_token_sha256 = hash, ac_quota_per_day = 0,
          ac_enabled = True, ac_day = 0, ac_used = 0, ac_balance = Some passes\<rparr>], Ok passes)))"

definition balance_of :: "string \<Rightarrow> accounts \<Rightarrow> nat option" where
  "balance_of hash as = (case find (has_hash hash) as of Some a \<Rightarrow> ac_balance a | None \<Rightarrow> None)"

definition refund_entry :: "nat \<Rightarrow> int \<Rightarrow> account_entry \<Rightarrow> account_entry" where
  "refund_entry n today a = (case ac_balance a of
      Some b \<Rightarrow> a\<lparr>ac_balance := Some (saturating_add_u32 b n)\<rparr>
    | None \<Rightarrow> if ac_day a = today then a\<lparr>ac_used := ac_used a - n\<rparr> else a)"

definition accounts_refund :: "'a pass_env_scheme \<Rightarrow> string \<Rightarrow> nat \<Rightarrow> int \<Rightarrow> accounts \<Rightarrow> accounts" where
  "accounts_refund env token n today as = modify_first (has_hash (token_hash env token)) (refund_entry n today) as"

definition set_enabled :: "string \<Rightarrow> bool \<Rightarrow> accounts \<Rightarrow> accounts \<times> (account_error + unit)" where
  "set_enabled name on as =
     (if \<exists>a\<in>set as. ac_name a = trim name
      then (modify_first (\<lambda>a. ac_name a = trim name) (\<lambda>a. a\<lparr>ac_enabled := on\<rparr>) as, Ok ())
      else (as, Err NoSuchAccount))"

definition charge_entry :: "nat \<Rightarrow> int \<Rightarrow> account_entry \<Rightarrow> account_entry \<times> (issue_refused + nat \<times> bool)" where
  "charge_entry n today a =
     (if \<not> ac_enabled a then (a, Err Disabled)
      else (case ac_balance a of
          Some b \<Rightarrow> if b < n then (a, Err (Balance b)) else (a\<lparr>ac_balance := Some (b - n)\<rparr>, Ok (b - n, True))
        | None \<Rightarrow>
            (let a = (if ac_day a \<noteq> today then a\<lparr>ac_day := today, ac_used := 0\<rparr> else a);
                 left = ac_quota_per_day a - ac_used a
             in if left < n then (a, Err (Quota left)) else (a\<lparr>ac_used := ac_used a + n\<rparr>, Ok (left - n, False)))))"

definition charge :: "'a pass_env_scheme \<Rightarrow> string \<Rightarrow> nat \<Rightarrow> int \<Rightarrow> accounts \<Rightarrow> accounts \<times> (issue_refused + nat \<times> bool)" where
  "charge env token n today as =
     (let h = token_hash env token in
      case find (has_hash h) as of
        None \<Rightarrow> (as, Err UnknownToken)
      | Some a \<Rightarrow> (modify_first (has_hash h) (\<lambda>a. fst (charge_entry n today a)) as, snd (charge_entry n today a)))"

section \<open>The file\<close>

type_synonym accounts_file = "accounts option"

text \<open>\<open>None\<close> as a result: the file could not be locked, read or written.\<close>

definition accounts_update :: "bool \<Rightarrow> bool \<Rightarrow> (accounts \<Rightarrow> accounts \<times> 'b) \<Rightarrow> accounts_file \<Rightarrow> accounts_file \<times> 'b option" where
  "accounts_update locked saved f file =
     (if \<not> locked then (file, None)
      else (case file of
          None \<Rightarrow> (file, None)
        | Some as \<Rightarrow> (case f as of (as', out) \<Rightarrow>
            if as' \<noteq> as then (if saved then (Some as', Some out) else (file, None)) else (file, Some out))))"

section \<open>Issuing\<close>

definition looks_blinded :: "'a pass_env_scheme \<Rightarrow> string \<Rightarrow> bool" where
  "looks_blinded env text64 = (case b64_decode env (trim text64) of Some b \<Rightarrow> length b = KEY_BITS div 8 | None \<Rightarrow> False)"

datatype issue_answer = Refusal nat | Issued issue_response

definition refusal_status :: "issue_refused \<Rightarrow> nat" where
  "refusal_status r = (case r of UnknownToken \<Rightarrow> 403 | Disabled \<Rightarrow> 403 | Quota _ \<Rightarrow> 429 | Balance _ \<Rightarrow> 402)"

text \<open>The request is \<open>None\<close> when its body is not one; the answer is the key to sign with.\<close>

definition issue_check :: "'a pass_env_scheme \<Rightarrow> (issuer_secret \<times> pass_key_record) list \<Rightarrow> int \<Rightarrow> issue_request option
    \<Rightarrow> nat + issue_request \<times> nat" where
  "issue_check env keys now body = (case body of
      None \<Rightarrow> Err 400
    | Some req \<Rightarrow>
        (if rq_blinded req = [] \<or> MAX_PER_REQUEST < length (rq_blinded req) then Err 400
         else (case position (\<lambda>(_, r). eq_ignore_ascii_case (pkr_id r) (trim (rq_key_id req)) \<and> is_current r now) keys of
             None \<Rightarrow> Err 400
           | Some i \<Rightarrow> if \<exists>b\<in>set (rq_blinded req). \<not> looks_blinded env b then Err 400 else Ok (req, i))))"

definition issue_charge :: "'a pass_env_scheme \<Rightarrow> bool \<Rightarrow> bool \<Rightarrow> int \<Rightarrow> issue_request \<Rightarrow> accounts_file
    \<Rightarrow> accounts_file \<times> (nat + nat \<times> bool)" where
  "issue_charge env locked saved day req file =
     (case accounts_update locked saved (charge env (rq_token req) (length (rq_blinded req)) day) file of
        (file', None) \<Rightarrow> (file', Err 503)
      | (file', Some (Err r)) \<Rightarrow> (file', Err (refusal_status r))
      | (file', Some (Ok left)) \<Rightarrow> (file', Ok left))"

fun sign_all :: "'a pass_env_scheme \<Rightarrow> issuer_secret \<Rightarrow> string list \<Rightarrow> pass_error + string list" where
  "sign_all env s [] = Ok []"
| "sign_all env s (b # bs) = bind_result (sign_blinded env s b) (\<lambda>g. bind_result (sign_all env s bs) (\<lambda>gs. Ok (g # gs)))"

definition issue_sign :: "'a pass_env_scheme \<Rightarrow> (issuer_secret \<times> pass_key_record) list \<Rightarrow> nat \<Rightarrow> bool \<Rightarrow> bool \<Rightarrow> int \<Rightarrow> issue_request
    \<Rightarrow> nat \<times> bool \<Rightarrow> accounts_file \<Rightarrow> accounts_file \<times> issue_answer" where
  "issue_sign env keys i locked saved day req = (\<lambda>(left, prepaid) file.
     case sign_all env (fst (keys ! i)) (rq_blinded req) of
       Ok signatures \<Rightarrow> (file, Issued \<lparr>rs_signatures = signatures, rs_remaining_today = left, rs_prepaid = prepaid\<rparr>)
     | Err _ \<Rightarrow> (fst (accounts_update locked saved
           (\<lambda>as. (accounts_refund env (rq_token req) (length (rq_blinded req)) day as, ())) file), Refusal 400))"

definition issue :: "'a pass_env_scheme \<Rightarrow> (issuer_secret \<times> pass_key_record) list \<Rightarrow> int \<Rightarrow> int \<Rightarrow> bool \<times> bool \<Rightarrow> bool \<times> bool
    \<Rightarrow> issue_request option \<Rightarrow> accounts_file \<Rightarrow> accounts_file \<times> issue_answer" where
  "issue env keys now day charge_io refund_io body file = (case issue_check env keys now body of
      Err status \<Rightarrow> (file, Refusal status)
    | Ok (req, i) \<Rightarrow> (case issue_charge env (fst charge_io) (snd charge_io) day req file of
        (file', Err status) \<Rightarrow> (file', Refusal status)
      | (file', Ok left) \<Rightarrow> issue_sign env keys i (fst refund_io) (snd refund_io) day req left file'))"

section \<open>Looking up an account\<close>

lemma xor_zero: "(x :: 8 word) XOR y = 0 \<longleftrightarrow> x = y"
proof
  assume "x XOR y = 0"
  then have "(x XOR y) XOR y = 0 XOR y" by (rule arg_cong)
  then show "x = y" by (simp add: xor.assoc)
qed simp

lemma fold_or_zero: "fold (\<lambda>(x, y) acc. acc OR (x XOR y)) ps (a :: 8 word) = 0 \<longleftrightarrow> a = 0 \<and> (\<forall>(x, y)\<in>set ps. x = y)"
proof (induction ps arbitrary: a)
  case (Cons q ps)
  have "a OR (fst q XOR snd q) = 0 \<longleftrightarrow> a = 0 \<and> fst q = snd q" by (auto simp: or_eq_0_iff xor_zero)
  with Cons show ?case by (auto simp: case_prod_beta)
qed simp

lemma same_iff [simp]: "same a b \<longleftrightarrow> a = b"
proof
  assume "same a b"
  then have l: "length a = length b" and z: "\<forall>(x, y)\<in>set (zip a b). x = y" by (simp_all add: same_def fold_or_zero)
  show "a = b" using l z by (induction a b rule: list_induct2) auto
next
  assume "a = b"
  then show "same a b" by (auto simp: same_def fold_or_zero zip_same_conv_map)
qed

lemma has_hash_iff [simp]: "has_hash h a \<longleftrightarrow> ac_token_sha256 a = h"
  by (simp add: has_hash_def ascii_bytes_inject)

abbreviation acct :: "string \<Rightarrow> accounts \<Rightarrow> account_entry option" where
  "acct h as \<equiv> find (\<lambda>a. ac_token_sha256 a = h) as"

lemma has_hash_eq: "has_hash h = (\<lambda>a. ac_token_sha256 a = h)"
  by (simp add: fun_eq_iff)

lemma find_append: "find p (xs @ ys) = (case find p xs of Some x \<Rightarrow> Some x | None \<Rightarrow> find p ys)"
  by (induction xs) auto

lemma find_modify_first: "(\<And>x. p (f x) = p x) \<Longrightarrow> find p (modify_first p f xs) = map_option f (find p xs)"
  by (induction xs) auto

lemma find_modify_other: "(\<And>x. q x \<Longrightarrow> \<not> p x \<and> \<not> p (f x)) \<Longrightarrow> find p (modify_first q f xs) = find p xs"
  by (induction xs) auto

lemma acct_modify_other:
  "h \<noteq> h' \<Longrightarrow> (\<And>x. ac_token_sha256 (f x) = ac_token_sha256 x) \<Longrightarrow> acct h (modify_first (\<lambda>a. ac_token_sha256 a = h') f as) = acct h as"
  by (rule find_modify_other) auto

lemma find_modify_any: "(\<And>x. p (f x) = p x) \<Longrightarrow> find p (modify_first q f xs) = find p xs \<or> find p (modify_first q f xs) = map_option f (find p xs)"
  by (induction xs) auto

lemma set_modify_first: "x \<in> set (modify_first p f xs) \<Longrightarrow> x \<in> set xs \<or> (\<exists>y\<in>set xs. x = f y)"
  by (induction xs) (auto split: if_splits)

lemma map_modify_first: "(\<And>x. g (f x) = g x) \<Longrightarrow> map g (modify_first p f xs) = map g xs"
  by (induction xs) auto

lemma refund_entry_sel [simp]: "ac_token_sha256 (refund_entry n d a) = ac_token_sha256 a" "ac_name (refund_entry n d a) = ac_name a"
  by (auto simp: refund_entry_def split: option.splits)

lemma charge_entry_sel [simp]:
  "ac_token_sha256 (fst (charge_entry n d a)) = ac_token_sha256 a" "ac_name (fst (charge_entry n d a)) = ac_name a"
  by (auto simp: charge_entry_def Let_def split: option.splits)

lemma acct_refund:
  "acct h (accounts_refund env t n d as) = (if h = token_hash env t then map_option (refund_entry n d) (acct h as) else acct h as)"
  by (auto simp: accounts_refund_def has_hash_eq intro: find_modify_first find_modify_other)

lemma acct_charge:
  assumes "charge env t n d as = (as', r)"
  shows "acct h as' = (if h = token_hash env t then map_option (\<lambda>a. fst (charge_entry n d a)) (acct h as) else acct h as)"
    and "r = (case acct (token_hash env t) as of None \<Rightarrow> Err UnknownToken | Some a \<Rightarrow> snd (charge_entry n d a))"
  using assms
  by (auto simp: charge_def Let_def has_hash_eq find_modify_first acct_modify_other split: option.splits)

lemma acct_credit:
  assumes "accounts_credit rh hash n as = (as', r)"
  shows "acct h as' = (if h = hash \<and> is_ok r then
      (case acct h as of Some a \<Rightarrow> Some (a\<lparr>ac_balance := Some (saturating_add_u32 (case ac_balance a of Some b \<Rightarrow> b | None \<Rightarrow> 0) n)\<rparr>)
       | None \<Rightarrow> Some \<lparr>ac_name = free_name as (''paid-'' @ the rh), ac_token_sha256 = hash, ac_quota_per_day = 0,
           ac_enabled = True, ac_day = 0, ac_used = 0, ac_balance = Some n\<rparr>)
      else acct h as)"
  using assms
  by (auto simp: accounts_credit_def Let_def has_hash_eq find_modify_first acct_modify_other find_append split: option.splits)

lemma acct_add:
  assumes "accounts_add env rt name q p as = (as', r)"
  shows "acct h as' = (case acct h as of Some a \<Rightarrow> Some a | None \<Rightarrow>
     if is_ok r \<and> rt \<noteq> None \<and> h = token_hash env (the rt)
     then Some \<lparr>ac_name = trim name, ac_token_sha256 = h, ac_quota_per_day = (if p \<noteq> None then 0 else q),
       ac_enabled = True, ac_day = 0, ac_used = 0, ac_balance = p\<rparr> else None)"
  using assms by (auto simp: accounts_add_def Let_def find_append split: option.splits if_splits)

lemma acct_enable:
  assumes "set_enabled name on as = (as', r)"
  shows "acct h as' = acct h as \<or> acct h as' = map_option (\<lambda>a. a\<lparr>ac_enabled := on\<rparr>) (acct h as)"
  using assms find_modify_any [of "\<lambda>a. ac_token_sha256 a = h" "\<lambda>a. a\<lparr>ac_enabled := on\<rparr>" "\<lambda>a. ac_name a = trim name" as]
  by (auto simp: set_enabled_def split: if_splits)

section \<open>A history of the accounts\<close>

text \<open>
  The accounts file, the issuances charged and not yet signed, and what happened so far
  to each token hash: passes credited (bought, or given by the operator), passes counted
  against a quota on each day and in all and not given back, passes signed, and how often its
  count was begun anew. \<open>day_seen\<close> is the day of the last charge: a request's day is read before the
  lock is taken, so charges around midnight may come out of the order of their days, and
  \<open>in_day_order\<close> says whether any did.
\<close>

record account_history =
  book :: accounts_file
  under_way :: "(issue_request \<times> nat \<times> (nat \<times> bool) \<times> int) list"
  credited :: "string \<Rightarrow> nat"
  counted :: "string \<Rightarrow> int \<Rightarrow> nat"
  counted_in_all :: "string \<Rightarrow> nat"
  signed_for :: "string \<Rightarrow> nat"
  day_seen :: int
  in_day_order :: bool
  renewed :: "string \<Rightarrow> nat"

definition no_accounts :: account_history where
  "no_accounts = \<lparr>book = Some [], under_way = [], credited = (\<lambda>_. 0), counted = (\<lambda>_ _. 0), counted_in_all = (\<lambda>_. 0),
     signed_for = (\<lambda>_. 0), day_seen = 0, in_day_order = True, renewed = (\<lambda>_. 0)\<rparr>"

definition plus_at :: "string \<Rightarrow> nat \<Rightarrow> (string \<Rightarrow> nat) \<Rightarrow> (string \<Rightarrow> nat)" where
  "plus_at h n f = f(h := f h + n)"

definition credits_added :: "'a pass_env_scheme \<Rightarrow> string option \<Rightarrow> nat option \<Rightarrow> (account_error + string) option \<Rightarrow> account_history \<Rightarrow> account_history" where
  "credits_added env rt prepaid r H = (case (r, rt, prepaid) of
      (Some (Ok _), Some token, Some n) \<Rightarrow> H\<lparr>credited := plus_at (token_hash env token) n (credited H)\<rparr>
    | _ \<Rightarrow> H)"

definition day_of :: "string \<Rightarrow> accounts_file \<Rightarrow> int option" where
  "day_of h file = (case file of Some as \<Rightarrow> map_option ac_day (acct h as) | None \<Rightarrow> None)"

definition charged :: "'a pass_env_scheme \<Rightarrow> issue_request \<Rightarrow> nat \<Rightarrow> int \<Rightarrow> nat + nat \<times> bool \<Rightarrow> accounts_file \<Rightarrow> account_history \<Rightarrow> account_history" where
  "charged env req i day r file H =
     (let h = token_hash env (rq_token req); n = length (rq_blinded req);
          H = H\<lparr>in_day_order := in_day_order H \<and> day_seen H \<le> day, day_seen := day,
                renewed := (\<lambda>k. renewed H k + (if day_of k (book H) = day_of k file then 0 else 1))\<rparr>
      in case r of
        Err _ \<Rightarrow> H
      | Ok (left, prepaid) \<Rightarrow>
          (let H = H\<lparr>under_way := (req, i, (left, prepaid), day) # under_way H\<rparr>
           in if prepaid then H
              else H\<lparr>counted := (counted H)(h := (counted H h)(day := counted H h day + n)), counted_in_all := plus_at h n (counted_in_all H)\<rparr>))"

definition back_to_quota :: "bool \<Rightarrow> bool \<Rightarrow> string \<Rightarrow> int \<Rightarrow> accounts_file \<Rightarrow> bool" where
  "back_to_quota locked saved h day file \<longleftrightarrow> locked \<and> saved \<and> (case file of
      Some as \<Rightarrow> (case acct h as of Some a \<Rightarrow> ac_balance a = None \<and> ac_day a = day | None \<Rightarrow> False) | None \<Rightarrow> False)"

definition answered :: "'a pass_env_scheme \<Rightarrow> bool \<Rightarrow> bool \<Rightarrow> issue_request \<times> nat \<times> (nat \<times> bool) \<times> int \<Rightarrow> issue_answer \<Rightarrow> account_history \<Rightarrow> account_history" where
  "answered env locked saved u ans H = (case u of (req, i, lp, day) \<Rightarrow>
     (let h = token_hash env (rq_token req); n = length (rq_blinded req);
          H' = H\<lparr>under_way := remove1 u (under_way H)\<rparr>
      in case ans of
           Issued _ \<Rightarrow> H'\<lparr>signed_for := plus_at h n (signed_for H)\<rparr>
         | Refusal _ \<Rightarrow> if back_to_quota locked saved h day (book H)
             then H'\<lparr>counted := (counted H)(h := (counted H h)(day := counted H h day - n)),
                     counted_in_all := (counted_in_all H)(h := counted_in_all H h - n)\<rparr>
             else H'))"

text \<open>
  The steps: the operator adds an account or switches one on or off, a purchase is
  credited, an issuance is charged, an issuance charged earlier is signed or given back,
  and a stop of the issuer forgets the issuances under way.
\<close>

inductive accounts_step :: "'a pass_env_scheme \<Rightarrow> (issuer_secret \<times> pass_key_record) list \<Rightarrow> account_history \<Rightarrow> account_history \<Rightarrow> bool"
  for env keys where
  a_add: "accounts_update locked saved (accounts_add env rt name quota prepaid) (book H) = (file, r) \<Longrightarrow>
    quota \<le> U32_MAX \<Longrightarrow> (\<And>n. prepaid = Some n \<Longrightarrow> n \<le> U32_MAX) \<Longrightarrow>
    accounts_step env keys H ((credits_added env rt prepaid r H)\<lparr>book := file\<rparr>)"
| a_enable: "accounts_update locked saved (set_enabled name on) (book H) = (file, r) \<Longrightarrow>
    accounts_step env keys H (H\<lparr>book := file\<rparr>)"
| a_credit: "accounts_update locked saved (accounts_credit rh hash n) (book H) = (file, r) \<Longrightarrow> n \<le> U32_MAX \<Longrightarrow>
    accounts_step env keys H (H\<lparr>book := file, credited := (if r \<noteq> None \<and> is_ok (the r) then plus_at hash n (credited H) else credited H)\<rparr>)"
| a_charge: "issue_check env keys now body = Ok (req, i) \<Longrightarrow>
    issue_charge env locked saved day req (book H) = (file, r) \<Longrightarrow>
    accounts_step env keys H ((charged env req i day r file H)\<lparr>book := file\<rparr>)"
| a_answer: "u \<in> set (under_way H) \<Longrightarrow> u = (req, i, lp, day) \<Longrightarrow>
    issue_sign env keys i locked saved day req lp (book H) = (file, ans) \<Longrightarrow>
    accounts_step env keys H ((answered env locked saved u ans H)\<lparr>book := file\<rparr>)"
| a_stop: "accounts_step env keys H (H\<lparr>under_way := []\<rparr>)"

definition pending :: "'a pass_env_scheme \<Rightarrow> string \<Rightarrow> account_history \<Rightarrow> nat" where
  "pending env h H = sum_list (map (\<lambda>(req, _). length (rq_blinded req)) (filter (\<lambda>(req, _). token_hash env (rq_token req) = h) (under_way H)))"

definition left_of :: "string \<Rightarrow> accounts \<Rightarrow> nat" where
  "left_of h as = (case balance_of h as of Some b \<Rightarrow> b | None \<Rightarrow> 0)"

definition quota_of :: "string \<Rightarrow> accounts \<Rightarrow> nat" where
  "quota_of h as = (case acct h as of Some a \<Rightarrow> ac_quota_per_day a | None \<Rightarrow> 0)"

text \<open>A total that is at most the sum of the counts of the days.\<close>

definition summed :: "(int \<Rightarrow> nat) \<Rightarrow> nat \<Rightarrow> bool" where
  "summed cnt tot \<longleftrightarrow> (\<exists>D. finite D \<and> (\<forall>d. d \<notin> D \<longrightarrow> cnt d = 0) \<and> tot \<le> sum cnt D)"

definition entry_ok :: "bool \<Rightarrow> (int \<Rightarrow> nat) \<Rightarrow> nat \<Rightarrow> nat \<Rightarrow> int \<Rightarrow> account_entry option \<Rightarrow> bool" where
  "entry_ok ordered cnt tot anew seen e \<longleftrightarrow> summed cnt tot \<and> (case e of
      None \<Rightarrow> (\<forall>d. cnt d = 0) \<and> tot = 0 \<and> anew = 0
    | Some a \<Rightarrow> ac_used a \<le> ac_quota_per_day a \<and> tot \<le> ac_quota_per_day a * anew + ac_used a
        \<and> (ordered \<longrightarrow> ac_day a \<le> seen \<and> cnt (ac_day a) \<le> ac_used a
             \<and> (\<forall>d. cnt d \<le> ac_quota_per_day a) \<and> (\<forall>d > ac_day a. cnt d = 0)))"

definition accounts_inv :: "'a pass_env_scheme \<Rightarrow> account_history \<Rightarrow> bool" where
  "accounts_inv env H \<longleftrightarrow> (in_day_order H \<longrightarrow> 0 \<le> day_seen H) \<and> (\<exists>as. book H = Some as \<and> (\<forall>h.
     signed_for H h + pending env h H + left_of h as \<le> credited H h + counted_in_all H h
     \<and> entry_ok (in_day_order H) (counted H h) (counted_in_all H h) (renewed H h) (day_seen H) (acct h as)))"

lemma summed_zero: "summed cnt 0 \<longleftrightarrow> (\<exists>D. finite D \<and> (\<forall>d. d \<notin> D \<longrightarrow> cnt d = 0))"
  by (simp add: summed_def)

lemma summed_none: "\<forall>d. cnt d = 0 \<Longrightarrow> summed cnt 0"
  by (auto simp: summed_zero)

lemma summed_change:
  assumes "summed cnt tot" "tot' + cnt d \<le> tot + c"
  shows "summed (cnt(d := c)) tot'"
proof -
  from assms(1) obtain D where D: "finite D" "\<forall>d. d \<notin> D \<longrightarrow> cnt d = 0" "tot \<le> sum cnt D" by (auto simp: summed_def)
  have "sum cnt D \<le> sum cnt (insert d D)" using D(1) by (intro sum_mono2) auto
  also have "\<dots> = cnt d + sum cnt (D - {d})" using D(1) by (simp add: sum.insert_remove)
  finally have "tot' \<le> c + sum cnt (D - {d})" using assms(2) D(3) by linarith
  also have "\<dots> = sum (cnt(d := c)) (insert d D)"
    using D(1) by (simp add: sum.insert_remove)
  finally show ?thesis unfolding summed_def using D(1,2) by (intro exI [of _ "insert d D"]) auto
qed

lemma summed_add: "summed cnt tot \<Longrightarrow> summed (cnt(d := cnt d + n)) (tot + n)"
  by (erule summed_change) simp

lemma summed_subtract:
  assumes "summed cnt tot"
  shows "summed (cnt(d := cnt d - n)) (tot - n)"
proof (cases "n \<le> tot")
  case False
  from assms obtain D where "finite D" "\<forall>d. d \<notin> D \<longrightarrow> cnt d = 0" by (auto simp: summed_def)
  with False show ?thesis by (auto simp: summed_zero intro!: exI [of _ "insert d D"])
next
  case True
  then show ?thesis by (intro summed_change [OF assms]) linarith
qed

lemma summed_le: "summed cnt tot \<Longrightarrow> tot \<le> (\<Sum>d | 0 < cnt d. cnt d)"
proof -
  assume "summed cnt tot"
  then obtain D where D: "finite D" "\<forall>d. d \<notin> D \<longrightarrow> cnt d = 0" "tot \<le> sum cnt D" by (auto simp: summed_def)
  have "sum cnt D = sum cnt {d. 0 < cnt d}" using D(1,2) by (intro sum.mono_neutral_right) auto
  with D(3) show ?thesis by simp
qed

definition funds :: "account_entry option \<Rightarrow> nat" where
  "funds e = (case e of Some a \<Rightarrow> (case ac_balance a of Some b \<Rightarrow> b | None \<Rightarrow> 0) | None \<Rightarrow> 0)"

lemma left_of_acct: "left_of h as = funds (acct h as)"
  by (simp add: left_of_def balance_of_def has_hash_eq funds_def split: option.splits)

lemma accounts_update_cases:
  assumes "accounts_update locked saved f (Some as) = (file, r)"
  shows "(file = Some as \<and> r = None) \<or> (file = Some (fst (f as)) \<and> r = Some (snd (f as)))"
    and "locked \<Longrightarrow> saved \<Longrightarrow> file = Some (fst (f as))"
    and "\<not> locked \<or> \<not> saved \<Longrightarrow> file = Some as"
  using assms by (auto simp: accounts_update_def split: if_splits prod.splits)

lemma entry_ok_later: "entry_ok ord c t m s e \<Longrightarrow> entry_ok (ord \<and> s \<le> s') c t m s' e"
  by (auto simp: entry_ok_def split: option.splits)

lemma entry_ok_enabled [simp]:
  "entry_ok ord c t m s (map_option (\<lambda>a. a\<lparr>ac_enabled := on\<rparr>) e) = entry_ok ord c t m s e"
  "funds (map_option (\<lambda>a. a\<lparr>ac_enabled := on\<rparr>) e) = funds e"
  by (simp_all add: entry_ok_def funds_def split: option.splits)

lemma charge_entry_ok:
  assumes "charge_entry n d a = (a', r)" "entry_ok ord c t m s (Some a)" "m' = m + (if ac_day a = ac_day a' then 0 else 1)"
  shows "r = Ok (l, True) \<Longrightarrow> entry_ok (ord \<and> s \<le> d) c t m' d (Some a') \<and> funds (Some a') + n = funds (Some a)"
    and "r = Ok (l, False) \<Longrightarrow> entry_ok (ord \<and> s \<le> d) (c(d := c d + n)) (t + n) m' d (Some a') \<and> funds (Some a') = funds (Some a)"
    and "r = Err e \<Longrightarrow> entry_ok (ord \<and> s \<le> d) c t m' d (Some a') \<and> funds (Some a') = funds (Some a)"
proof -
  show "r = Ok (l, True) \<Longrightarrow> entry_ok (ord \<and> s \<le> d) c t m' d (Some a') \<and> funds (Some a') + n = funds (Some a)"
    using assms by (cases "ac_balance a") (auto simp: charge_entry_def entry_ok_def funds_def Let_def split: if_splits)
  show "entry_ok (ord \<and> s \<le> d) (c(d := c d + n)) (t + n) m' d (Some a') \<and> funds (Some a') = funds (Some a)" if r: "r = Ok (l, False)"
  proof -
    define u where "u = (if ac_day a = d then ac_used a else 0)"
    have used: "ac_used a \<le> ac_quota_per_day a" and t: "t \<le> ac_quota_per_day a * m + ac_used a" and "summed c t"
      using assms(2) by (simp_all add: entry_ok_def)
    have bal: "ac_balance a = None" using assms(1) r by (auto simp: charge_entry_def split: option.splits if_splits)
    then have a': "a' = a\<lparr>ac_day := d, ac_used := u + n\<rparr>" and n: "u + n \<le> ac_quota_per_day a"
      using assms(1) r used by (auto simp: charge_entry_def Let_def u_def split: if_splits)
    have "t + n \<le> ac_quota_per_day a * m' + (u + n)"
      using t used unfolding assms(3) a' u_def by (simp add: algebra_simps split: if_splits)
    moreover have "summed (c(d := c d + n)) (t + n)" using \<open>summed c t\<close> by (rule summed_add)
    moreover have "c d + n \<le> u + n \<and> (\<forall>x. (c(d := c d + n)) x \<le> ac_quota_per_day a) \<and> (\<forall>x>d. c x = 0)" if o': "ord" "s \<le> d"
    proof -
      have o'': "ac_day a \<le> d" "c (ac_day a) \<le> ac_used a" "\<forall>x. c x \<le> ac_quota_per_day a" "\<forall>x>ac_day a. c x = 0"
        using assms(2) o' by (auto simp: entry_ok_def)
      then have "c d \<le> u" by (cases "ac_day a = d") (auto simp: u_def)
      with o'' n show ?thesis by fastforce
    qed
    ultimately show ?thesis using n bal by (simp add: entry_ok_def a' funds_def)
  qed
  show "r = Err e \<Longrightarrow> entry_ok (ord \<and> s \<le> d) c t m' d (Some a') \<and> funds (Some a') = funds (Some a)"
    using assms by (cases "ac_balance a"; cases "ac_day a = d") (auto simp: charge_entry_def entry_ok_def funds_def Let_def split: if_splits)
qed

lemma refund_entry_ok:
  assumes "entry_ok ord c t m s (Some a)"
  shows "funds (Some (refund_entry n d a)) \<le> funds (Some a) + (if ac_balance a = None then 0 else n)"
    and "entry_ok ord (if ac_balance a = None \<and> ac_day a = d then c(d := c d - n) else c)
      (if ac_balance a = None \<and> ac_day a = d then t - n else t) m s (Some (refund_entry n d a))"
proof -
  show "funds (Some (refund_entry n d a)) \<le> funds (Some a) + (if ac_balance a = None then 0 else n)"
    by (auto simp: refund_entry_def funds_def saturating_add_u32_def split: option.splits)
  have "t \<le> q * m + u \<Longrightarrow> t - n \<le> q * m + (u - n)" for q u :: nat by linarith
  with assms summed_subtract [of c t d n]
  show "entry_ok ord (if ac_balance a = None \<and> ac_day a = d then c(d := c d - n) else c)
      (if ac_balance a = None \<and> ac_day a = d then t - n else t) m s (Some (refund_entry n d a))"
    by (auto simp: refund_entry_def entry_ok_def split: option.splits if_splits intro: le_trans [OF diff_le_self])
qed

lemma sum_remove1:
  "u \<in> set xs \<Longrightarrow> sum_list (map f (filter P xs)) = sum_list (map f (filter P (remove1 u xs))) + (if P u then f u else (0 :: nat))"
  by (induction xs) auto

lemma pending_done:
  assumes "u \<in> set (under_way H)" "u = (req, x)"
  shows "pending env h H = pending env h (H\<lparr>under_way := remove1 u (under_way H)\<rparr>)
    + (if token_hash env (rq_token req) = h then length (rq_blinded req) else 0)"
  using sum_remove1 [OF assms(1), of "\<lambda>(req, _). length (rq_blinded req)" "\<lambda>(req, _). token_hash env (rq_token req) = h"]
    assms(2) by (simp add: pending_def)

text \<open>What the invariant says of one token hash, with the ghost state spread out.\<close>

definition hash_ok :: "'a pass_env_scheme \<Rightarrow> account_history \<Rightarrow> string \<Rightarrow> account_entry option \<Rightarrow> bool" where
  "hash_ok env H h e \<longleftrightarrow> signed_for H h + pending env h H + funds e \<le> credited H h + counted_in_all H h
     \<and> entry_ok (in_day_order H) (counted H h) (counted_in_all H h) (renewed H h) (day_seen H) e"

lemma accounts_inv_hash: "accounts_inv env H \<longleftrightarrow> (in_day_order H \<longrightarrow> 0 \<le> day_seen H)
    \<and> (\<exists>as. book H = Some as \<and> (\<forall>h. hash_ok env H h (acct h as)))"
  by (simp add: accounts_inv_def hash_ok_def left_of_acct)

lemma hash_ok_book [simp]: "hash_ok env (H\<lparr>book := f\<rparr>) = hash_ok env H"
  by (simp add: fun_eq_iff hash_ok_def pending_def)

lemma hash_ok_enable:
  "hash_ok env H h e \<Longrightarrow> e' = e \<or> e' = map_option (\<lambda>a. a\<lparr>ac_enabled := on\<rparr>) e \<Longrightarrow> hash_ok env H h e'"
  by (auto simp: hash_ok_def)

lemma credits_added_sel [simp]:
  "signed_for (credits_added env rt p r H) = signed_for H" "under_way (credits_added env rt p r H) = under_way H"
  "counted (credits_added env rt p r H) = counted H" "counted_in_all (credits_added env rt p r H) = counted_in_all H"
  "day_seen (credits_added env rt p r H) = day_seen H" "in_day_order (credits_added env rt p r H) = in_day_order H"
  "renewed (credits_added env rt p r H) = renewed H"
  by (simp_all add: credits_added_def split: option.splits sum.splits)

lemma credits_added_credited:
  "credited H h \<le> credited (credits_added env rt p r H) h"
  "is_ok x \<Longrightarrow> rt \<noteq> None \<Longrightarrow> h = token_hash env (the rt) \<Longrightarrow>
    credited (credits_added env rt p (Some x) H) h = credited H h + (case p of Some n \<Rightarrow> n | None \<Rightarrow> 0)"
  by (auto simp: credits_added_def plus_at_def split: option.splits sum.splits)

lemma hash_ok_add:
  assumes "accounts_add env rt name q p as = (as', r)" "hash_ok env H h (acct h as)" "in_day_order H \<longrightarrow> 0 \<le> day_seen H"
  shows "hash_ok env (credits_added env rt p (Some r) H) h (acct h as')"
proof (cases "acct h as = None \<and> is_ok r \<and> rt \<noteq> None \<and> h = token_hash env (the rt)")
  case True
  then have c: "credited (credits_added env rt p (Some r) H) h = credited H h + (case p of Some n \<Rightarrow> n | None \<Rightarrow> 0)"
    using credits_added_credited(2) by blast
  have "acct h as' = Some \<lparr>ac_name = trim name, ac_token_sha256 = h, ac_quota_per_day = (if p \<noteq> None then 0 else q),
       ac_enabled = True, ac_day = 0, ac_used = 0, ac_balance = p\<rparr>"
    using True unfolding acct_add [OF assms(1)] by auto
  with True assms(2,3) c show ?thesis by (simp add: hash_ok_def pending_def entry_ok_def funds_def split: option.splits)
next
  case False
  then have "acct h as' = acct h as" unfolding acct_add [OF assms(1)] by (auto split: option.splits)
  with assms(2) credits_added_credited(1) [of H h env rt p "Some r"] show ?thesis
    by (simp add: hash_ok_def pending_def)
qed

lemma hash_ok_not_added [simp]: "credits_added env rt p None H = H"
  by (simp add: credits_added_def)

lemma hash_ok_credit:
  assumes "accounts_credit rh hash n as = (as', r)" "hash_ok env H h (acct h as)" "in_day_order H \<longrightarrow> 0 \<le> day_seen H"
  shows "hash_ok env (H\<lparr>credited := (if is_ok r then plus_at hash n (credited H) else credited H)\<rparr>) h (acct h as')"
  using assms(2,3) unfolding acct_credit [OF assms(1)]
  by (auto simp: hash_ok_def pending_def plus_at_def entry_ok_def funds_def saturating_add_u32_def split: option.splits)

lemma pending_charged:
  "pending env h (charged env req i day r file H)
    = pending env h H + (if is_ok r \<and> token_hash env (rq_token req) = h then length (rq_blinded req) else 0)"
  by (auto simp: charged_def pending_def Let_def split: sum.splits)

lemma charged_sel [simp]:
  "day_seen (charged env req i day r file H) = day" "credited (charged env req i day r file H) = credited H"
  "signed_for (charged env req i day r file H) = signed_for H"
  "in_day_order (charged env req i day r file H) = (in_day_order H \<and> day_seen H \<le> day)"
  "renewed (charged env req i day r file H) h = renewed H h + (if day_of h (book H) = day_of h file then 0 else 1)"
  by (auto simp: charged_def Let_def split: sum.splits)

lemma charged_counts:
  "counted (charged env req i day (Err e) file H) = counted H" "counted_in_all (charged env req i day (Err e) file H) = counted_in_all H"
  "counted (charged env req i day (Ok (l, True)) file H) = counted H" "counted_in_all (charged env req i day (Ok (l, True)) file H) = counted_in_all H"
  "counted (charged env req i day (Ok (l, False)) file H) h = (if h = token_hash env (rq_token req)
     then (counted H h)(day := counted H h day + length (rq_blinded req)) else counted H h)"
  "counted_in_all (charged env req i day (Ok (l, False)) file H) h = (if h = token_hash env (rq_token req)
     then counted_in_all H h + length (rq_blinded req) else counted_in_all H h)"
  by (simp_all add: charged_def Let_def plus_at_def)

lemma hash_ok_not_charged:
  assumes "hash_ok env H h e" "h \<noteq> token_hash env (rq_token req) \<or> (\<exists>x. r = Err x)" "day_of h (book H) = day_of h file"
  shows "hash_ok env (charged env req i day r file H) h e"
proof -
  have "counted (charged env req i day r file H) h = counted H h \<and> counted_in_all (charged env req i day r file H) h = counted_in_all H h"
    using assms(2) by (auto simp: charged_def Let_def plus_at_def split: sum.splits)
  with assms entry_ok_later show ?thesis by (auto simp: hash_ok_def pending_charged)
qed

lemma hash_ok_charge:
  assumes "issue_charge env locked saved day req (Some as) = (file, r)" "\<forall>h. hash_ok env H h (acct h as)" "book H = Some as"
  shows "\<exists>as'. file = Some as' \<and> (\<forall>h. hash_ok env (charged env req i day r file H) h (acct h as'))"
proof -
  let ?t = "rq_token req" and ?n = "length (rq_blinded req)"
  obtain f x where u: "accounts_update locked saved (charge env ?t ?n day) (Some as) = (f, x)" by (cases "accounts_update locked saved (charge env ?t ?n day) (Some as)")
  obtain as' c where c: "charge env ?t ?n day as = (as', c)" by (cases "charge env ?t ?n day as")
  note a' = acct_charge [OF c]
  have moved: "hash_ok env (charged env req i day r' (Some as') H) h (acct h as')"
    if "(\<exists>e. r' = Err e \<and> (\<exists>e. c = Err e)) \<or> (\<exists>lp. r' = Ok lp \<and> c = Ok lp)" for r' h
  proof (cases "h = token_hash env ?t \<and> acct h as \<noteq> None")
    case False
    with a'(1) have "acct h as' = acct h as" by auto
    moreover have "h \<noteq> token_hash env ?t \<or> (\<exists>x. r' = Err x)" using False that a'(2) by auto
    moreover have "day_of h (book H) = day_of h (Some as')" using calculation(1) by (simp add: assms(3) day_of_def)
    ultimately show ?thesis using hash_ok_not_charged assms(2) by metis
  next
    case True
    then obtain a where a: "acct h as = Some a" by blast
    obtain a2 r2 where e: "charge_entry ?n day a = (a2, r2)" by (cases "charge_entry ?n day a")
    have ok: "entry_ok (in_day_order H) (counted H h) (counted_in_all H h) (renewed H h) (day_seen H) (Some a)"
      "signed_for H h + pending env h H + funds (Some a) \<le> credited H h + counted_in_all H h"
      using assms(2) a by (auto simp: hash_ok_def dest: spec [of _ h])
    have c2: "c = r2" and as2: "acct h as' = Some a2" using a' True a e by auto
    have anew: "renewed (charged env req i day r' (Some as') H) h = renewed H h + (if ac_day a = ac_day a2 then 0 else 1)"
      by (simp add: assms(3) day_of_def a as2)
    consider (err) e' where "r2 = Err e'" | (pre) l where "r2 = Ok (l, True)" | (quo) l where "r2 = Ok (l, False)"
      by (metis (full_types) obj_sumE surj_pair)
    then show ?thesis
      using charge_entry_ok [OF e ok(1) anew] that c2 as2 ok True
      by cases (auto simp: hash_ok_def pending_charged charged_counts simp del: charged_sel(5))
  qed
  from accounts_update_cases(1) [OF u] show ?thesis
  proof
    assume "f = Some as \<and> x = None"
    then have "issue_charge env locked saved day req (Some as) = (Some as, Err 503)" unfolding issue_charge_def u by simp
    with assms(1) have "file = Some as" "r = Err 503" by simp_all
    with assms(2,3) show ?thesis by (auto intro!: hash_ok_not_charged)
  next
    assume "f = Some (fst (charge env ?t ?n day as)) \<and> x = Some (snd (charge env ?t ?n day as))"
    then have fx: "f = Some as'" "x = Some c" using c by simp_all
    have "issue_charge env locked saved day req (Some as) = (Some as', case c of Err e \<Rightarrow> Err (refusal_status e) | Ok lp \<Rightarrow> Ok lp)"
      unfolding issue_charge_def u fx by (simp split: sum.split)
    with assms(1) have "file = Some as'" "r = (case c of Err e \<Rightarrow> Err (refusal_status e) | Ok lp \<Rightarrow> Ok lp)" by simp_all
    moreover have "(\<exists>e. r = Err e \<and> (\<exists>e. c = Err e)) \<or> (\<exists>lp. r = Ok lp \<and> c = Ok lp)"
      using calculation(2) by (cases c) simp_all
    ultimately show ?thesis using moved by blast
  qed
qed

lemma hash_ok_signed:
  assumes "u \<in> set (under_way H)" "u = (req, i, lp, day)" "hash_ok env H h e"
  shows "hash_ok env (answered env locked saved u (Issued a) H) h e"
  using assms(3) pending_done [OF assms(1,2), of env h]
  by (auto simp: hash_ok_def answered_def assms(2) Let_def plus_at_def pending_def)

lemma answered_refused:
  assumes "u = (req, i, lp, day)" "h = token_hash env (rq_token req)" "n = length (rq_blinded req)"
  shows "signed_for (answered env locked saved u (Refusal x) H) = signed_for H"
    "credited (answered env locked saved u (Refusal x) H) = credited H"
    "day_seen (answered env locked saved u (Refusal x) H) = day_seen H"
    "in_day_order (answered env locked saved u (Refusal x) H) = in_day_order H"
    "renewed (answered env locked saved u (Refusal x) H) = renewed H"
    "pending env k (answered env locked saved u (Refusal x) H) = pending env k (H\<lparr>under_way := remove1 u (under_way H)\<rparr>)"
    "counted (answered env locked saved u (Refusal x) H) k = (if k = h \<and> back_to_quota locked saved h day (book H)
       then (counted H h)(day := counted H h day - n) else counted H k)"
    "counted_in_all (answered env locked saved u (Refusal x) H) k = (if k = h \<and> back_to_quota locked saved h day (book H)
       then counted_in_all H h - n else counted_in_all H k)"
  using assms by (auto simp: answered_def Let_def pending_def)

lemma hash_ok_refund:
  assumes u: "u \<in> set (under_way H)" "u = (req, i, lp, day)" and b: "book H = Some as"
    and ok: "\<forall>h. hash_ok env H h (acct h as)"
    and up: "accounts_update locked saved (\<lambda>as. (accounts_refund env (rq_token req) (length (rq_blinded req)) day as, ())) (Some as) = (file, r)"
  shows "\<exists>as'. file = Some as' \<and> (\<forall>h. hash_ok env (answered env locked saved u (Refusal x) H) h (acct h as'))"
proof -
  let ?h = "token_hash env (rq_token req)" and ?n = "length (rq_blinded req)"
  let ?as = "accounts_refund env (rq_token req) ?n day as"
  let ?H = "answered env locked saved u (Refusal x) H" and ?ret = "back_to_quota locked saved ?h day (Some as)"
  note sel = answered_refused [OF u(2) refl refl, where env = env and locked = locked and saved = saved and x = x and H = H]
  have p: "pending env h H = pending env h ?H + (if ?h = h then ?n else 0)" for h
    using pending_done [OF u, of env h] sel(6) [of h] by simp
  have other: "hash_ok env ?H h (acct h as)" if "h \<noteq> ?h \<or> \<not> ?ret" for h
    using ok that p [of h] b by (auto simp: hash_ok_def sel split: if_splits dest: spec [of _ h])
  have mine: "hash_ok env ?H ?h (acct ?h ?as)" if ls: "locked" "saved"
  proof (cases "acct ?h as")
    case None
    then have "\<not> ?ret" by (simp add: back_to_quota_def)
    with None other [of ?h] show ?thesis by (simp add: acct_refund)
  next
    case (Some a)
    have e: "entry_ok (in_day_order H) (counted H ?h) (counted_in_all H ?h) (renewed H ?h) (day_seen H) (Some a)"
      "signed_for H ?h + pending env ?h H + funds (Some a) \<le> credited H ?h + counted_in_all H ?h"
      using ok Some by (auto simp: hash_ok_def dest: spec [of _ ?h])
    have "acct ?h ?as = Some (refund_entry ?n day a)" by (simp add: acct_refund Some)
    moreover have "?ret \<longleftrightarrow> ac_balance a = None \<and> ac_day a = day" using Some ls by (simp add: back_to_quota_def)
    ultimately show ?thesis
      using refund_entry_ok [OF e(1), where n = ?n and d = day] e(2) p [of ?h] b
      by (auto simp: hash_ok_def sel split: if_splits)
  qed
  show ?thesis
  proof (cases "locked \<and> saved")
    case True
    then have "file = Some ?as" using accounts_update_cases(2) [OF up] by simp
    moreover have "hash_ok env ?H h (acct h ?as)" for h
      using True mine other [of h] by (cases "h = ?h") (auto simp: acct_refund)
    ultimately show ?thesis by blast
  next
    case False
    then have "file = Some as" "\<not> ?ret" using accounts_update_cases(3) [OF up] by (auto simp: back_to_quota_def)
    with other show ?thesis by blast
  qed
qed

lemma accounts_step_inv:
  assumes "accounts_step env keys H H'" "accounts_inv env H"
  shows "accounts_inv env H'"
proof -
  from assms(2) obtain as where b: "book H = Some as" and d: "in_day_order H \<longrightarrow> 0 \<le> day_seen H" and ok: "\<forall>h. hash_ok env H h (acct h as)"
    by (auto simp: accounts_inv_hash)
  from assms(1) show ?thesis
  proof cases
    case (a_add locked saved rt name quota prepaid fl r)
    obtain as' x where x: "accounts_add env rt name quota prepaid as = (as', x)" by (cases "accounts_add env rt name quota prepaid as")
    from accounts_update_cases(1) [of locked saved "accounts_add env rt name quota prepaid" as fl r] a_add(2) b x
    consider "fl = Some as" "r = None" | "fl = Some as'" "r = Some x" by auto
    then show ?thesis using ok d hash_ok_add [OF x _ d] a_add(1) by cases (auto simp: accounts_inv_hash)
  next
    case (a_enable locked saved name on fl r)
    obtain as' x where x: "set_enabled name on as = (as', x)" by (cases "set_enabled name on as")
    from accounts_update_cases(1) [of locked saved "set_enabled name on" as fl r] a_enable(2) b x
    consider "fl = Some as" | "fl = Some as'" by auto
    then show ?thesis
      using ok d hash_ok_enable [OF _ acct_enable [OF x]] a_enable(1) by cases (simp add: accounts_inv_hash, simp add: accounts_inv_hash, blast)
  next
    case (a_credit locked saved rh hash n fl r)
    obtain as' x where x: "accounts_credit rh hash n as = (as', x)" by (cases "accounts_credit rh hash n as")
    from accounts_update_cases(1) [of locked saved "accounts_credit rh hash n" as fl r] a_credit(2) b x
    consider "fl = Some as" "r = None" | "fl = Some as'" "r = Some x" by auto
    then show ?thesis
    proof cases
      case 1
      then have "H' = H\<lparr>book := fl\<rparr>" using a_credit(1) by simp
      with 1 ok d show ?thesis by (simp add: accounts_inv_hash)
    next
      case 2
      define H2 where "H2 = H\<lparr>credited := (if is_ok x then plus_at hash n (credited H) else credited H)\<rparr>"
      then have "H' = H2\<lparr>book := fl\<rparr>" "day_seen H2 = day_seen H" "in_day_order H2 = in_day_order H" using 2 a_credit(1) by simp_all
      moreover have "\<forall>h. hash_ok env H2 h (acct h as')" unfolding H2_def using hash_ok_credit [OF x _ d] ok by blast
      ultimately show ?thesis using 2 d by (simp add: accounts_inv_hash)
    qed
  next
    case (a_charge now body req i locked saved day fl r)
    with b have "issue_charge env locked saved day req (Some as) = (fl, r)" by simp
    from hash_ok_charge [OF this ok b] obtain as' where
      "fl = Some as'" "\<forall>h. hash_ok env (charged env req i day r fl H) h (acct h as')" by blast
    with a_charge(1) d show ?thesis by (auto simp: accounts_inv_hash)
  next
    case (a_answer u req i lp day locked saved fl ans)
    obtain left pre where lp: "lp = (left, pre)" by (cases lp)
    show ?thesis
    proof (cases "sign_all env (fst (keys ! i)) (rq_blinded req)")
      case (Inr gs)
      then have f: "fl = Some as" "\<exists>a. ans = Issued a" using a_answer(4) b by (auto simp: issue_sign_def lp)
      then obtain a where a: "ans = Issued a" by blast
      have "day_seen (answered env locked saved u ans H) = day_seen H" "in_day_order (answered env locked saved u ans H) = in_day_order H"
        by (simp_all add: a answered_def a_answer(3) Let_def)
      with f(1) a d ok show ?thesis
        unfolding a_answer(1) accounts_inv_hash hash_ok_book by (auto intro!: hash_ok_signed [OF a_answer(2,3)])
    next
      case (Inl e)
      obtain fl2 r' where u: "accounts_update locked saved (\<lambda>as. (accounts_refund env (rq_token req) (length (rq_blinded req)) day as, ())) (Some as) = (fl2, r')"
        by (cases "accounts_update locked saved (\<lambda>as. (accounts_refund env (rq_token req) (length (rq_blinded req)) day as, ())) (Some as)")
      have f: "fl = fl2" "ans = Refusal 400" using Inl a_answer(4) b u by (auto simp: issue_sign_def lp)
      with hash_ok_refund [OF a_answer(2,3) b ok u, where x = 400] answered_refused(3,4) [OF a_answer(3) refl refl, where env = env] d
      show ?thesis by (auto simp: a_answer(1) accounts_inv_hash)
    qed
  next
    case a_stop
    have "pending env h H' = 0" for h by (simp add: a_stop pending_def)
    with b d ok a_stop show ?thesis by (auto simp: accounts_inv_hash hash_ok_def intro: le_trans [OF add_right_mono [OF le_add1]])
  qed
qed

lemma no_accounts_inv: "accounts_inv env no_accounts"
  by (auto simp: accounts_inv_hash no_accounts_def hash_ok_def pending_def funds_def entry_ok_def intro: summed_none)

lemma reachable_accounts_inv: "(accounts_step env keys)\<^sup>*\<^sup>* no_accounts H \<Longrightarrow> accounts_inv env H"
  by (induction rule: rtranclp_induct) (auto intro: no_accounts_inv accounts_step_inv)

section \<open>Never more than was credited\<close>

lemma accounts_inv_bounds:
  assumes "accounts_inv env H"
  shows "\<exists>as. book H = Some as
    \<and> signed_for H h + pending env h H + left_of h as \<le> credited H h + (\<Sum>d | 0 < counted H h d. counted H h d)
    \<and> signed_for H h + pending env h H + left_of h as \<le> credited H h + quota_of h as * Suc (renewed H h)
    \<and> (in_day_order H \<longrightarrow> (\<forall>d. counted H h d \<le> quota_of h as))"
proof -
  from assms obtain as where as: "book H = Some as" "hash_ok env H h (acct h as)"
    by (auto simp: accounts_inv_hash)
  then have i: "signed_for H h + pending env h H + left_of h as \<le> credited H h + counted_in_all H h"
    "entry_ok (in_day_order H) (counted H h) (counted_in_all H h) (renewed H h) (day_seen H) (acct h as)"
    by (simp_all add: hash_ok_def left_of_acct)
  then have "counted_in_all H h \<le> (\<Sum>d | 0 < counted H h d. counted H h d)" by (auto simp: entry_ok_def intro: summed_le)
  moreover have "counted_in_all H h \<le> quota_of h as * Suc (renewed H h)" "in_day_order H \<longrightarrow> counted H h d \<le> quota_of h as" for d
    using i(2) by (auto simp: entry_ok_def quota_of_def split: option.splits)
  ultimately show ?thesis using as(1) i(1) by fastforce
qed

text \<open>
  The issuer signs no pass that was not paid for. Through any history of the accounts
  - accounts added, switched on and off and credited, issuances charged, signed, refused and given
  back in any order, files that cannot be locked or written, stops of the issuer - the
  passes signed for a token, those being signed and the balance it has left never
  exceed what was credited to it and what was counted against its daily quota; what was
  counted is at most one quota for each time its count was begun anew, and one more; and while charges
  come in the order of their days, the count of no day passes the quota.
\<close>

theorem issued_within_credit:
  assumes "(accounts_step env keys)\<^sup>*\<^sup>* no_accounts H"
  shows "\<exists>as. book H = Some as
    \<and> signed_for H h + pending env h H + left_of h as \<le> credited H h + (\<Sum>d | 0 < counted H h d. counted H h d)
    \<and> signed_for H h + pending env h H + left_of h as \<le> credited H h + quota_of h as * Suc (renewed H h)
    \<and> (in_day_order H \<longrightarrow> (\<forall>d. counted H h d \<le> quota_of h as))"
  by (rule accounts_inv_bounds [OF reachable_accounts_inv [OF assms]])

section \<open>Names and sizes\<close>

definition accounts_typed :: "accounts \<Rightarrow> bool" where
  "accounts_typed as \<longleftrightarrow> distinct (map ac_name as) \<and> (\<forall>a\<in>set as. ac_used a \<le> ac_quota_per_day a
     \<and> ac_quota_per_day a \<le> U32_MAX \<and> (\<forall>b. ac_balance a = Some b \<longrightarrow> b \<le> U32_MAX))"

lemma typed_modify_first:
  assumes "accounts_typed as" "\<And>a. ac_name (f a) = ac_name a"
    and "\<And>a. a \<in> set as \<Longrightarrow> accounts_typed [a] \<Longrightarrow> accounts_typed [f a]"
  shows "accounts_typed (modify_first p f as)"
  using assms map_modify_first [of ac_name f p as]
  by (auto simp: accounts_typed_def dest!: set_modify_first)

lemma free_name_free: "free_name as name \<notin> ac_name ` set as"
proof (induction as name rule: free_name.induct)
  case (1 as name)
  then show ?case by (subst free_name.simps) auto
qed

lemma typed_charge_entry: "accounts_typed [a] \<Longrightarrow> accounts_typed [fst (charge_entry n d a)]"
  by (auto simp: accounts_typed_def charge_entry_def Let_def split: option.splits)

lemma typed_refund_entry: "accounts_typed [a] \<Longrightarrow> accounts_typed [refund_entry n d a]"
  by (auto simp: accounts_typed_def refund_entry_def saturating_add_u32_def split: option.splits)

lemma typed_operations:
  assumes "accounts_typed as"
  shows "accounts_typed (fst (charge env t n d as))" "accounts_typed (accounts_refund env t n d as)"
    "accounts_typed (fst (set_enabled name on as))"
    "n \<le> U32_MAX \<Longrightarrow> accounts_typed (fst (accounts_credit rh hash n as))"
    "q \<le> U32_MAX \<Longrightarrow> (\<And>n. p = Some n \<Longrightarrow> n \<le> U32_MAX) \<Longrightarrow> accounts_typed (fst (accounts_add env rt name q p as))"
proof -
  show "accounts_typed (fst (charge env t n d as))"
    using assms typed_modify_first [OF assms _ typed_charge_entry] by (simp add: charge_def Let_def split: option.splits)
  show "accounts_typed (accounts_refund env t n d as)"
    unfolding accounts_refund_def by (rule typed_modify_first [OF assms _ typed_refund_entry]) simp_all
  show "accounts_typed (fst (set_enabled name on as))"
    using assms by (auto simp: set_enabled_def intro!: typed_modify_first) (auto simp: accounts_typed_def)
  show "accounts_typed (fst (accounts_credit rh hash n as))" if "n \<le> U32_MAX"
  proof (cases "find (has_hash hash) as")
    case None
    with assms that free_name_free [of as] show ?thesis
      by (auto simp: accounts_credit_def accounts_typed_def split: option.splits)
  next
    case (Some a)
    then show ?thesis using assms
      by (auto simp: accounts_credit_def Let_def intro!: typed_modify_first) (auto simp: accounts_typed_def saturating_add_u32_def)
  qed
  show "accounts_typed (fst (accounts_add env rt name q p as))" if "q \<le> U32_MAX" "\<And>n. p = Some n \<Longrightarrow> n \<le> U32_MAX"
    using assms that by (auto simp: accounts_add_def Let_def accounts_typed_def split: option.splits)
qed

lemma typed_update:
  assumes "accounts_update locked saved f (Some as) = (fl, r)" "accounts_typed as" "accounts_typed (fst (f as))"
  shows "\<exists>as'. fl = Some as' \<and> accounts_typed as'"
  using accounts_update_cases(1) [OF assms(1)] assms(2,3) by auto

lemma accounts_step_typed:
  assumes "accounts_step env keys H H'" "\<exists>as. book H = Some as \<and> accounts_typed as"
  shows "\<exists>as. book H' = Some as \<and> accounts_typed as"
proof -
  from assms(2) obtain as where b: "book H = Some as" and t: "accounts_typed as" by blast
  from assms(1) show ?thesis
  proof cases
    case (a_charge now body req i locked saved day fl r)
    let ?f = "charge env (rq_token req) (length (rq_blinded req)) day"
    have "fl = fst (accounts_update locked saved ?f (Some as))"
      using a_charge(3) b by (auto simp: issue_charge_def split: prod.splits option.splits sum.splits)
    then have "accounts_update locked saved ?f (Some as) = (fl, snd (accounts_update locked saved ?f (Some as)))" by simp
    from typed_update [OF this t typed_operations(1) [OF t]] show ?thesis by (simp add: a_charge(1))
  next
    case (a_answer u req i lp day locked saved fl ans)
    let ?f = "\<lambda>as. (accounts_refund env (rq_token req) (length (rq_blinded req)) day as, ())"
    have "fl = Some as \<or> fl = fst (accounts_update locked saved ?f (Some as))"
      using a_answer(4) b by (cases lp) (auto simp: issue_sign_def split: sum.splits)
    then consider "fl = Some as" | "accounts_update locked saved ?f (Some as) = (fl, snd (accounts_update locked saved ?f (Some as)))" by auto
    then show ?thesis
    proof cases
      case 2
      have "accounts_typed (fst (?f as))" by (simp add: typed_operations(2) [OF t])
      from typed_update [OF 2 t this] show ?thesis by (simp add: a_answer(1))
    qed (use t in \<open>simp add: a_answer(1)\<close>)
  next
    case (a_add locked saved rt name quota prepaid fl r)
    from typed_update [OF a_add(2) [unfolded b] t typed_operations(5) [OF t a_add(3,4)]] show ?thesis by (simp add: a_add(1))
  next
    case (a_enable locked saved name on fl r)
    from typed_update [OF a_enable(2) [unfolded b] t typed_operations(3) [OF t]] show ?thesis by (simp add: a_enable(1))
  next
    case (a_credit locked saved rh hash n fl r)
    from typed_update [OF a_credit(2) [unfolded b] t typed_operations(4) [OF t a_credit(3)]] show ?thesis by (simp add: a_credit(1))
  next
    case a_stop
    with b t show ?thesis by simp
  qed
qed

text \<open>
  Claim C30. The accounts file stays well formed: in every reachable file no two accounts have the
  same name, the count of the day never passes the quota, and every number fits the
  32 bits it is kept in, so that no addition of the code overflows.
\<close>

theorem reachable_accounts_typed:
  assumes "(accounts_step env keys)\<^sup>*\<^sup>* no_accounts H"
  shows "\<exists>as. book H = Some as \<and> distinct (map ac_name as)
    \<and> (\<forall>a\<in>set as. ac_used a \<le> ac_quota_per_day a \<and> ac_quota_per_day a \<le> U32_MAX)
    \<and> (\<forall>a\<in>set as. \<forall>b. ac_balance a = Some b \<longrightarrow> b \<le> U32_MAX)"
proof -
  have "\<exists>as. book H = Some as \<and> accounts_typed as"
    using assms
  proof (induction rule: rtranclp_induct)
    case base
    show ?case by (simp add: no_accounts_def accounts_typed_def)
  qed (rule accounts_step_typed)
  then show ?thesis by (auto simp: accounts_typed_def)
qed

section \<open>Two ways past the count\<close>

text \<open>
  The day of a charge is read before the lock is taken. Requests around midnight that
  take the lock out of order start the count anew each time: an account with a quota
  of one pass gets three.
\<close>

lemma midnight_counts_anew:
  assumes "a = \<lparr>ac_name = n, ac_token_sha256 = h, ac_quota_per_day = 1, ac_enabled = True, ac_day = d, ac_used = 0, ac_balance = None\<rparr>"
  shows "snd (charge_entry 1 (d + 1) a) = Ok (0, False)"
    and "snd (charge_entry 1 d (fst (charge_entry 1 (d + 1) a))) = Ok (0, False)"
    and "snd (charge_entry 1 (d + 1) (fst (charge_entry 1 d (fst (charge_entry 1 (d + 1) a))))) = Ok (0, False)"
  by (simp_all add: assms charge_entry_def)

text \<open>
  Passes counted against a quota and not signed are given back to the balance when the
  account was credited in between: they become prepaid passes nobody bought.
\<close>

lemma quota_refunded_as_prepaid:
  assumes "a = \<lparr>ac_name = nm, ac_token_sha256 = h, ac_quota_per_day = q, ac_enabled = True, ac_day = d, ac_used = 0, ac_balance = None\<rparr>"
    and "n \<le> q" "p + n \<le> U32_MAX"
  shows "snd (charge_entry n d a) = Ok (q - n, False)"
    and "ac_balance (refund_entry n d ((fst (charge_entry n d a))\<lparr>ac_balance := Some p\<rparr>)) = Some (p + n)"
  using assms(2,3) by (simp_all add: assms(1) charge_entry_def refund_entry_def saturating_add_u32_def)

section \<open>An example\<close>

definition sample_request :: issue_request where
  "sample_request = \<lparr>rq_token = ''tok'', rq_key_id = id_hex sample_env (is_public sample_issuer),
     rq_blinded = [b64_encode sample_env (replicate 256 1)]\<rparr>"

definition sample_account :: account_entry where
  "sample_account = \<lparr>ac_name = ''club'', ac_token_sha256 = token_hash sample_env ''tok'', ac_quota_per_day = 0,
     ac_enabled = True, ac_day = 0, ac_used = 0, ac_balance = Some 5\<rparr>"

definition sample_history :: account_history where
  "sample_history = no_accounts\<lparr>book := Some [sample_account\<lparr>ac_balance := Some 4\<rparr>],
     credited := plus_at (token_hash sample_env ''tok'') 5 (\<lambda>_. 0), day_seen := 1, signed_for := plus_at (token_hash sample_env ''tok'') 1 (\<lambda>_. 0)\<rparr>"

lemma sample_issue_check:
  "issue_check sample_env [(sample_issuer, sample_key_record)] 0 (Some sample_request) = Ok (sample_request, 0)"
proof -
  have t: "trim (id_hex sample_env k) = id_hex sample_env k" for k
    using hex_okD(2) [OF sample_env_ok(2)] by (simp add: id_hex_def)
  have l: "looks_blinded sample_env (b64_encode sample_env (replicate 256 1))"
    by (simp add: looks_blinded_def b64_okD [OF sample_env_ok(1)] KEY_BITS_def)
  show ?thesis
    by (simp add: issue_check_def sample_request_def MAX_PER_REQUEST_def l sample_current t)
      (simp add: sample_key_record_def)
qed

lemma sample_sign: "sign_all sample_env sample_issuer (rq_blinded sample_request) = Ok [b64_encode sample_env (replicate 256 1)]"
  by (simp add: sample_request_def sign_blinded_def b64_okD [OF sample_env_ok(1)] modulus_bytes_def KEY_BITS_def)
    (simp add: sample_env_def)

lemma sample_history_reachable:
  "(accounts_step sample_env [(sample_issuer, sample_key_record)])\<^sup>*\<^sup>* no_accounts sample_history"
proof -
  let ?step = "accounts_step sample_env [(sample_issuer, sample_key_record)]" and ?h = "token_hash sample_env ''tok''"
  let ?H1 = "no_accounts\<lparr>book := Some [sample_account], credited := plus_at ?h 5 (\<lambda>_. 0)\<rparr>"
  let ?u = "(sample_request, 0, (4, True), 1)"
  let ?H2 = "?H1\<lparr>book := Some [sample_account\<lparr>ac_balance := Some 4\<rparr>], day_seen := 1, under_way := [?u]\<rparr>"
  have club: "trim ''club'' = ''club''" by (rule trim_graphic) (simp add: is_graphic_def)
  have u1: "accounts_update True True (accounts_add sample_env (Some ''tok'') ''club'' 0 (Some 5)) (book no_accounts) = (Some [sample_account], Some (Ok ''tok''))"
    by (simp add: accounts_update_def no_accounts_def accounts_add_def club Let_def account_char_def is_ascii_alphanumeric_def
        is_ascii_alphabetic_def is_ascii_lowercase_def sample_account_def)
  have "?step no_accounts ?H1"
    using a_add [where keys = "[(sample_issuer, sample_key_record)]", OF u1] by (simp add: credits_added_def no_accounts_def U32_MAX_def)
  moreover have "?step ?H1 ?H2"
  proof -
    have u2: "issue_charge sample_env True True 1 sample_request (book ?H1) = (Some [sample_account\<lparr>ac_balance := Some 4\<rparr>], Ok (4, True))"
      by (simp add: issue_charge_def accounts_update_def charge_def Let_def sample_request_def charge_entry_def sample_account_def)
    have "day_of k (Some [sample_account]) = day_of k (Some [sample_account\<lparr>ac_balance := Some 4\<rparr>])" for k
      by (simp add: day_of_def sample_account_def)
    then show ?thesis
      using a_charge [OF sample_issue_check u2] by (simp add: charged_def no_accounts_def Let_def)
  qed
  moreover have "?step ?H2 sample_history"
  proof -
    have u3: "issue_sign sample_env [(sample_issuer, sample_key_record)] 0 True True 1 sample_request (4, True) (book ?H2)
        = (book ?H2, Issued \<lparr>rs_signatures = [b64_encode sample_env (replicate 256 1)], rs_remaining_today = 4, rs_prepaid = True\<rparr>)"
      by (simp add: issue_sign_def sample_sign)
    have "length (rq_blinded sample_request) = 1" "rq_token sample_request = ''tok''" by (simp_all add: sample_request_def)
    then show ?thesis
      using a_answer [OF _ refl u3] by (simp add: answered_def no_accounts_def Let_def sample_history_def)
  qed
  ultimately show ?thesis by (meson rtranclp.rtrancl_into_rtrancl rtranclp.rtrancl_refl)
qed

theorem issued_within_credit_witness:
  "\<exists>as. book sample_history = Some as
    \<and> signed_for sample_history (token_hash sample_env ''tok'') + pending sample_env (token_hash sample_env ''tok'') sample_history
        + left_of (token_hash sample_env ''tok'') as
      \<le> credited sample_history (token_hash sample_env ''tok'') + quota_of (token_hash sample_env ''tok'') as * Suc (renewed sample_history (token_hash sample_env ''tok''))
    \<and> signed_for sample_history (token_hash sample_env ''tok'') = 1"
  using issued_within_credit [OF sample_history_reachable, of "token_hash sample_env ''tok''"]
  by (auto simp: sample_history_def plus_at_def)

theorem reachable_accounts_typed_witness:
  "\<exists>as. book sample_history = Some as \<and> as \<noteq> [] \<and> distinct (map ac_name as)"
  using reachable_accounts_typed [OF sample_history_reachable] by (auto simp: sample_history_def)

end
