(* ===== verification/Payment_Check.thy ===== *)
theory Payment_Check
  imports Payment
begin

text \<open>
  What a transaction of the chain paid (\<^verbatim>\<open>hidravpn-core/src/payment.rs\<close>, the second half,
  and the issuer's vote over several RPCs, \<^verbatim>\<open>tally\<close> of \<^verbatim>\<open>hidravpn-issuer/src/main.rs\<close>). The
  answer of an RPC is a JSON value of the serde_json crate; its accessors are the
  parameter \<open>json_ops\<close>. The going rate of a pack priced in dollars needs floating
  point: \<open>usd_rate\<close>, how many raw units so many cents buy now, is an argument.

  The lemmas show that the amount read is what the wallet gained, and that a payment is
  confirmed exactly when a strict majority of all RPCs read the same one.
\<close>

record pack =
  pk_passes :: nat
  pk_price_raw :: nat
  pk_usd_cents :: "nat option"

definition pack_at :: "(nat \<Rightarrow> nat option) \<Rightarrow> pack_spec \<Rightarrow> pack option" where
  "pack_at usd_rate spec = (case spec_price spec of
      Tokens price_raw \<Rightarrow> Some \<lparr>pk_passes = spec_passes spec, pk_price_raw = price_raw, pk_usd_cents = None\<rparr>
    | Usd cents \<Rightarrow> map_option (\<lambda>raw. \<lparr>pk_passes = spec_passes spec, pk_price_raw = raw, pk_usd_cents = Some cents\<rparr>) (usd_rate cents))"

record receiver =
  rc_wallet :: string
  rc_mint :: string
  rc_decimals :: nat

record payment =
  paid_raw :: nat
  block_time :: int

datatype rejected = NotFound | Malformed | Failed | TooEarly | WrongDecimals | NoTransfer | WrongAmount nat

definition rejected_kind :: "rejected \<Rightarrow> string" where
  "rejected_kind r = (case r of NotFound \<Rightarrow> ''not-found'' | Malformed \<Rightarrow> ''malformed'' | Failed \<Rightarrow> ''failed'' | TooEarly \<Rightarrow> ''too-early''
     | WrongDecimals \<Rightarrow> ''decimals'' | NoTransfer \<Rightarrow> ''no-transfer'' | WrongAmount _ \<Rightarrow> ''wrong-amount'')"

definition pays :: "payment \<Rightarrow> nat \<Rightarrow> int \<Rightarrow> rejected + unit" where
  "pays p amount_raw created =
     (if block_time p < created - CLOCK_SLACK then Err TooEarly
      else if paid_raw p \<noteq> amount_raw then Err (WrongAmount (paid_raw p))
      else Ok ())"

section \<open>Reading a transaction\<close>

record 'v json_ops =
  j_get :: "'v \<Rightarrow> string \<Rightarrow> 'v option"
  j_is_null :: "'v \<Rightarrow> bool"
  j_as_array :: "'v \<Rightarrow> 'v list option"
  j_as_str :: "'v \<Rightarrow> string option"
  j_as_i64 :: "'v \<Rightarrow> int option"
  j_as_u64 :: "'v \<Rightarrow> nat option"

definition or_malformed :: "'b option \<Rightarrow> rejected + 'b" where
  "or_malformed x = (case x of Some y \<Rightarrow> Ok y | None \<Rightarrow> Err Malformed)"

definition text_at :: "('v, 'z) json_ops_scheme \<Rightarrow> 'v \<Rightarrow> string \<Rightarrow> string" where
  "text_at J v key = (case Option.bind (j_get J v key) (j_as_str J) of Some s \<Rightarrow> s | None \<Rightarrow> [])"

definition read_balance :: "('v, 'z) json_ops_scheme \<Rightarrow> 'v \<Rightarrow> rejected + nat \<times> nat \<times> nat" where
  "read_balance J b =
     bind_result (or_malformed (Option.bind (j_get J b ''accountIndex'') (j_as_u64 J))) (\<lambda>index.
     bind_result (or_malformed (j_get J b ''uiTokenAmount'')) (\<lambda>ui.
     bind_result (or_malformed (Option.bind (Option.bind (j_get J ui ''amount'') (j_as_str J)) (parse_uint U64_MAX))) (\<lambda>amount.
     bind_result (or_malformed (Option.bind (Option.bind (j_get J ui ''decimals'') (j_as_u64 J))
        (\<lambda>d. if d < 256 then Some d else None))) (\<lambda>decimals.
     Ok (index, amount, decimals)))))"

fun read_balances :: "('v, 'z) json_ops_scheme \<Rightarrow> receiver \<Rightarrow> 'v list \<Rightarrow> rejected + (nat \<times> nat \<times> nat) list" where
  "read_balances J want [] = Ok []"
| "read_balances J want (b # bs) =
     (if text_at J b ''owner'' \<noteq> rc_wallet want \<or> text_at J b ''mint'' \<noteq> rc_mint want then read_balances J want bs
      else bind_result (read_balance J b) (\<lambda>x. bind_result (read_balances J want bs) (\<lambda>xs. Ok (x # xs))))"

definition token_balances :: "('v, 'z) json_ops_scheme \<Rightarrow> receiver \<Rightarrow> 'v \<Rightarrow> string \<Rightarrow> rejected + (nat \<times> nat \<times> nat) list" where
  "token_balances J want meta key = (case j_get J meta key of
      None \<Rightarrow> Ok []
    | Some l \<Rightarrow> bind_result (or_malformed (j_as_array J l)) (read_balances J want))"

definition received :: "(nat \<times> nat \<times> nat) list \<Rightarrow> (nat \<times> nat \<times> nat) list \<Rightarrow> int" where
  "received before after =
     sum_list (map (\<lambda>(index, post, _). int post - int (case find (\<lambda>(i, _, _). i = index) before of Some (_, a, _) \<Rightarrow> a | None \<Rightarrow> 0)) after)
     - sum_list (map (\<lambda>(index, pre, _). if \<exists>(i, _, _)\<in>set after. i = index then 0 else int pre) before)"

definition judge_balances :: "receiver \<Rightarrow> int \<Rightarrow> (nat \<times> nat \<times> nat) list \<Rightarrow> (nat \<times> nat \<times> nat) list \<Rightarrow> rejected + payment" where
  "judge_balances want time before after =
     (if \<exists>(_, _, d)\<in>set (before @ after). d \<noteq> rc_decimals want then Err WrongDecimals
      else if received before after \<le> 0 then Err NoTransfer
      else if int U64_MAX < received before after then Err Malformed
      else Ok \<lparr>paid_raw = nat (received before after), block_time = time\<rparr>)"

definition inspect_payment :: "('v, 'z) json_ops_scheme \<Rightarrow> 'v \<Rightarrow> receiver \<Rightarrow> rejected + payment" where
  "inspect_payment J result want =
     (if j_is_null J result then Err NotFound
      else bind_result (or_malformed (j_get J result ''meta'')) (\<lambda>meta.
        case j_get J meta ''err'' of
          None \<Rightarrow> Err Malformed
        | Some e \<Rightarrow>
            (if \<not> j_is_null J e then Err Failed
             else bind_result (or_malformed (Option.bind (j_get J result ''blockTime'') (j_as_i64 J))) (\<lambda>time.
               bind_result (token_balances J want meta ''preTokenBalances'') (\<lambda>before.
               bind_result (token_balances J want meta ''postTokenBalances'') (\<lambda>after.
               judge_balances want time before after))))))"

definition check_payment :: "('v, 'z) json_ops_scheme \<Rightarrow> 'v \<Rightarrow> receiver \<Rightarrow> nat \<Rightarrow> int \<Rightarrow> rejected + unit" where
  "check_payment J result want amount_raw created =
     bind_result (inspect_payment J result want) (\<lambda>p. pays p amount_raw created)"

section \<open>The vote of the RPCs\<close>

datatype verdict = Paid payment | Rejected rejected | Unreachable

datatype quorum = QPaid payment | QRefused rejected | Undecided

fun first_paid :: "verdict list \<Rightarrow> nat \<Rightarrow> verdict list \<Rightarrow> payment option" where
  "first_paid all need [] = None"
| "first_paid all need (v # vs) = (case v of
      Paid p \<Rightarrow> if need \<le> length (filter (\<lambda>w. w = Paid p) all) then Some p else first_paid all need vs
    | _ \<Rightarrow> first_paid all need vs)"

fun first_rejected :: "verdict list \<Rightarrow> nat \<Rightarrow> verdict list \<Rightarrow> rejected option" where
  "first_rejected all need [] = None"
| "first_rejected all need (v # vs) = (case v of
      Rejected r \<Rightarrow> if need \<le> length (filter (\<lambda>w. w = Rejected r) all) then Some r else first_rejected all need vs
    | _ \<Rightarrow> first_rejected all need vs)"

definition tally :: "verdict list \<Rightarrow> nat \<Rightarrow> quorum" where
  "tally verdicts n_rpcs = (let need = n_rpcs div 2 + 1 in
     case first_paid verdicts need verdicts of
       Some p \<Rightarrow> QPaid p
     | None \<Rightarrow> (case first_rejected verdicts need verdicts of Some r \<Rightarrow> QRefused r | None \<Rightarrow> Undecided))"

section \<open>What is read is what the wallet gained\<close>

abbreviation amounts :: "(nat \<times> nat \<times> nat) list \<Rightarrow> int" where
  "amounts bs \<equiv> sum_list (map (\<lambda>(_, a, _). int a) bs)"

lemma find_index: "find (\<lambda>(i, _, _). i = k) bs = None \<longleftrightarrow> k \<notin> fst ` set bs"
  by (force simp: find_None_iff)

lemma sum_split: "sum_list (map (\<lambda>x. f x - g x) xs) = sum_list (map f xs) - (sum_list (map g xs) :: int)"
  by (induction xs) auto

definition held_before :: "(nat \<times> nat \<times> nat) list \<Rightarrow> nat \<Rightarrow> int" where
  "held_before bs k = int (case find (\<lambda>(i, _, _). i = k) bs of Some (_, a, _) \<Rightarrow> a | None \<Rightarrow> 0)"

lemma held_before_Cons: "held_before (b # bs) k = (if fst b = k then int (fst (snd b)) else held_before bs k)"
  by (cases b) (simp add: held_before_def)

lemma held_before_outside: "k \<notin> fst ` set bs \<Longrightarrow> held_before bs k = 0"
  using find_index [of k bs] by (simp add: held_before_def)

lemma received_eq:
  "received before after = amounts after - sum_list (map (\<lambda>b. held_before before (fst b)) after)
    - sum_list (map (\<lambda>b. if fst b \<in> fst ` set after then 0 else int (fst (snd b))) before)"
proof -
  have "map (\<lambda>(index, post, _). int post - int (case find (\<lambda>(i, _, _). i = index) before of Some (_, a, _) \<Rightarrow> a | None \<Rightarrow> 0)) after
      = map (\<lambda>b. int (fst (snd b)) - held_before before (fst b)) after"
    by (auto simp: held_before_def)
  moreover have "map (\<lambda>(index, pre, _). if \<exists>(i, _, _)\<in>set after. i = index then 0 else int pre) before
      = map (\<lambda>b. if fst b \<in> fst ` set after then 0 else int (fst (snd b))) before"
    by (force simp: image_iff)
  moreover have "map (\<lambda>(_, a, _). int a) after = map (\<lambda>b. int (fst (snd b))) after" by auto
  ultimately show ?thesis unfolding received_def by (simp only: sum_split)
qed

lemma held_sum:
  assumes "distinct (map fst after)" "distinct (map fst before)"
  shows "sum_list (map (\<lambda>b. held_before before (fst b)) after)
    = sum_list (map (\<lambda>b. if fst b \<in> fst ` set after then int (fst (snd b)) else 0) before)"
  using assms(2)
proof (induction before)
  case Nil
  then show ?case by (simp add: held_before_def)
next
  case (Cons b bs)
  have "sum_list (map (\<lambda>c. held_before (b # bs) (fst c)) after)
      = sum_list (map (\<lambda>c. held_before bs (fst c) + (if fst c = fst b then int (fst (snd b)) else 0)) after)"
    using Cons.prems by (intro arg_cong [of _ _ sum_list] map_cong) (auto simp: held_before_Cons held_before_outside)
  also have "\<dots> = sum_list (map (\<lambda>c. held_before bs (fst c)) after) + sum_list (map (\<lambda>c. if fst c = fst b then int (fst (snd b)) else 0) after)"
    by (simp add: sum_list_addf)
  also have "sum_list (map (\<lambda>c. if fst c = fst b then int (fst (snd b)) else 0) after)
      = (if fst b \<in> fst ` set after then int (fst (snd b)) else 0)"
    using assms(1) by (induction after) (auto simp: image_iff)
  finally show ?case using Cons by simp
qed

lemma received_is_gain:
  assumes "distinct (map fst after)" "distinct (map fst before)"
  shows "received before after = amounts after - amounts before"
proof -
  have "amounts before = sum_list (map (\<lambda>b. (if fst b \<in> fst ` set after then int (fst (snd b)) else 0)
      + (if fst b \<in> fst ` set after then 0 else int (fst (snd b)))) before)"
    by (intro arg_cong [of _ _ sum_list] map_cong) auto
  then show ?thesis by (simp add: received_eq held_sum [OF assms] sum_list_addf)
qed

section \<open>The vote is a strict majority\<close>

definition votes :: "verdict \<Rightarrow> verdict list \<Rightarrow> nat" where
  "votes v vs = length (filter (\<lambda>w. w = v) vs)"

lemma votes_disjoint: "v \<noteq> w \<Longrightarrow> votes v vs + votes w vs \<le> length vs"
  by (induction vs) (auto simp: votes_def)

lemma votes_member: "0 < votes v vs \<Longrightarrow> v \<in> set vs"
  by (induction vs) (auto simp: votes_def split: if_splits)

lemma one_majority:
  assumes "length vs \<le> n" "n div 2 + 1 \<le> votes v vs" "n div 2 + 1 \<le> votes w vs"
  shows "v = w"
proof (rule ccontr)
  assume "v \<noteq> w"
  from votes_disjoint [OF this, of vs] assms show False by linarith
qed

lemma first_paid_Some: "first_paid vs need ws = Some p \<Longrightarrow> Paid p \<in> set ws \<and> need \<le> votes (Paid p) vs"
  by (induction ws) (auto simp: votes_def split: verdict.splits if_splits)

lemma first_paid_None: "first_paid vs need ws = None \<Longrightarrow> Paid p \<in> set ws \<Longrightarrow> votes (Paid p) vs < need"
  by (induction ws) (auto simp: votes_def split: verdict.splits if_splits)

lemma first_rejected_Some: "first_rejected vs need ws = Some r \<Longrightarrow> Rejected r \<in> set ws \<and> need \<le> votes (Rejected r) vs"
  by (induction ws) (auto simp: votes_def split: verdict.splits if_splits)

lemma first_rejected_None: "first_rejected vs need ws = None \<Longrightarrow> Rejected r \<in> set ws \<Longrightarrow> votes (Rejected r) vs < need"
  by (induction ws) (auto simp: votes_def split: verdict.splits if_splits)

lemma majority_member: "n div 2 + 1 \<le> votes v vs \<Longrightarrow> v \<in> set vs"
  using votes_member [of v vs] by simp

lemma tally_paid: "length vs \<le> n \<Longrightarrow> tally vs n = QPaid p \<longleftrightarrow> n div 2 + 1 \<le> votes (Paid p) vs"
proof
  assume "tally vs n = QPaid p"
  then show "n div 2 + 1 \<le> votes (Paid p) vs" using first_paid_Some by (auto simp: tally_def Let_def split: option.splits)
next
  assume n: "length vs \<le> n" and v: "n div 2 + 1 \<le> votes (Paid p) vs"
  from first_paid_None [OF _ majority_member [OF v], of vs "n div 2 + 1"] v
  obtain q where q: "first_paid vs (n div 2 + 1) vs = Some q" by (cases "first_paid vs (n div 2 + 1) vs") auto
  have "n div 2 + 1 \<le> votes (Paid q) vs" using first_paid_Some [OF q] by simp
  from one_majority [OF n v this] q show "tally vs n = QPaid p" by (simp add: tally_def)
qed

lemma tally_refused: "length vs \<le> n \<Longrightarrow> tally vs n = QRefused r \<longleftrightarrow> n div 2 + 1 \<le> votes (Rejected r) vs"
proof
  assume "tally vs n = QRefused r"
  then show "n div 2 + 1 \<le> votes (Rejected r) vs" using first_rejected_Some by (auto simp: tally_def Let_def split: option.splits)
next
  assume n: "length vs \<le> n" and v: "n div 2 + 1 \<le> votes (Rejected r) vs"
  have no: "first_paid vs (n div 2 + 1) vs = None"
  proof (rule ccontr)
    assume "first_paid vs (n div 2 + 1) vs \<noteq> None"
    then obtain q where "first_paid vs (n div 2 + 1) vs = Some q" by blast
    with first_paid_Some have "n div 2 + 1 \<le> votes (Paid q) vs" by blast
    from one_majority [OF n v this] show False by simp
  qed
  from first_rejected_None [OF _ majority_member [OF v], of vs "n div 2 + 1"] v
  obtain q where q: "first_rejected vs (n div 2 + 1) vs = Some q" by (cases "first_rejected vs (n div 2 + 1) vs") auto
  have "n div 2 + 1 \<le> votes (Rejected q) vs" using first_rejected_Some [OF q] by simp
  from one_majority [OF n v this] q no show "tally vs n = QRefused r" by (simp add: tally_def)
qed

lemma tally_outcome:
  assumes "length vs \<le> n"
  shows "tally vs n = QPaid p \<longleftrightarrow> n < 2 * length (filter (\<lambda>w. w = Paid p) vs)"
    and "tally vs n = QRefused r \<longleftrightarrow> n < 2 * length (filter (\<lambda>w. w = Rejected r) vs)"
    and "tally vs n = Undecided \<longleftrightarrow> (\<forall>v\<in>set vs. v \<noteq> Unreachable \<longrightarrow> 2 * length (filter (\<lambda>w. w = v) vs) \<le> n)"
proof -
  have half: "k div 2 + 1 \<le> m \<longleftrightarrow> k < 2 * m" for k m :: nat by linarith
  show paid: "tally vs n = QPaid p \<longleftrightarrow> n < 2 * length (filter (\<lambda>w. w = Paid p) vs)" for p
    using tally_paid [OF assms, of p] unfolding half by (simp add: votes_def)
  show refused: "tally vs n = QRefused r \<longleftrightarrow> n < 2 * length (filter (\<lambda>w. w = Rejected r) vs)" for r
    using tally_refused [OF assms, of r] unfolding half by (simp add: votes_def)
  have "tally vs n = Undecided \<longleftrightarrow> (\<forall>p. tally vs n \<noteq> QPaid p) \<and> (\<forall>r. tally vs n \<noteq> QRefused r)"
    by (cases "tally vs n") auto
  also have "\<dots> \<longleftrightarrow> (\<forall>v\<in>set vs. v \<noteq> Unreachable \<longrightarrow> 2 * length (filter (\<lambda>w. w = v) vs) \<le> n)"
  proof -
    have "v \<notin> set vs \<Longrightarrow> filter (\<lambda>w. w = v) vs = []" for v by (auto simp: filter_empty_conv)
    then show ?thesis unfolding paid refused by (metis linorder_not_less list.size(3) mult_0_right not_less_zero verdict.exhaust verdict.simps(5,7))
  qed
  finally show "tally vs n = Undecided \<longleftrightarrow> (\<forall>v\<in>set vs. v \<noteq> Unreachable \<longrightarrow> 2 * length (filter (\<lambda>w. w = v) vs) \<le> n)" .
qed

text \<open>
  Claim C31. A payment is what most RPCs say: of \<open>n\<close> RPCs, a payment is confirmed exactly when more
  than half of all \<open>n\<close> read that very payment, and refused for a reason exactly when more than half
  gave that reason; so whatever a minority answers, or does not answer, changes nothing
  once a majority agrees, and alone it decides nothing.
\<close>

theorem tally_strict_majority:
  assumes "length vs \<le> n"
  shows "(tally vs n = QPaid p \<longleftrightarrow> n < 2 * length (filter (\<lambda>w. w = Paid p) vs))
    \<and> (tally vs n = QRefused r \<longleftrightarrow> n < 2 * length (filter (\<lambda>w. w = Rejected r) vs))
    \<and> (tally vs n = Undecided \<longleftrightarrow> (\<forall>v\<in>set vs. v \<noteq> Unreachable \<longrightarrow> 2 * length (filter (\<lambda>w. w = v) vs) \<le> n))"
  using tally_outcome [OF assms] by blast

text \<open>
  A payment read from an answer with one entry per token account is what the wallet
  gained: its balances after the transaction less those before, more than nothing,
  and within a \<^verbatim>\<open>u64\<close>.
\<close>

lemma payment_is_gain:
  assumes "j_get J result ''meta'' = Some meta" "inspect_payment J result want = Ok q"
    and "token_balances J want meta ''preTokenBalances'' = Ok before" "token_balances J want meta ''postTokenBalances'' = Ok after"
    and "distinct (map fst before)" "distinct (map fst after)"
  shows "int (paid_raw q) = amounts after - amounts before \<and> 0 < paid_raw q \<and> paid_raw q \<le> U64_MAX"
proof -
  have "\<exists>t. judge_balances want t before after = Ok q"
    using assms(1-4) by (auto simp: inspect_payment_def or_malformed_def split: option.splits if_splits)
  then show ?thesis
    using received_is_gain [OF assms(6,5)] by (auto simp: judge_balances_def split: if_splits)
qed

theorem tally_strict_majority_witness:
  "tally [Unreachable, Paid \<lparr>paid_raw = 5, block_time = 0\<rparr>, Paid \<lparr>paid_raw = 5, block_time = 0\<rparr>] 3 = QPaid \<lparr>paid_raw = 5, block_time = 0\<rparr>
   \<and> tally [Paid \<lparr>paid_raw = 5, block_time = 0\<rparr>, Unreachable, Rejected NotFound] 3 = Undecided"
proof -
  let ?p = "\<lparr>paid_raw = 5, block_time = 0\<rparr>"
  have "tally [Unreachable, Paid ?p, Paid ?p] 3 = QPaid ?p" using tally_strict_majority [of "[Unreachable, Paid ?p, Paid ?p]" 3 ?p] by simp
  moreover have "tally [Paid ?p, Unreachable, Rejected NotFound] 3 = Undecided" using tally_strict_majority [of "[Paid ?p, Unreachable, Rejected NotFound]" 3] by simp
  ultimately show ?thesis by blast
qed

end
