(* ===== verification/Issuer_Orders.thy ===== *)
theory Issuer_Orders
  imports Issuer_Accounts Payment_Check
begin

text \<open>
  The orders of the pass issuer (\<^verbatim>\<open>hidravpn-issuer/src/main.rs\<close>): a pack bought at an amount
  no other open order has, held while its buyer claims it, paid by one transaction, and
  kept as a record once it lapsed; the orders file with the file of lapsed records
  beside it; and the index kept in memory. Times are \<open>int\<close>, counts and amounts \<open>nat\<close>;
  an amount is a \<^verbatim>\<open>u64\<close>, so a price and its tag are added modulo \<open>2 ^ 64\<close>. Random draws and
  whether a file can be written are arguments.

  The lemmas give the invariant of the orders, that the index answers as the file
  would, and that a transaction pays once.
\<close>

definition MAX_OPEN_ORDERS :: nat where "MAX_OPEN_ORDERS = 20000"
definition MAX_OPEN_PER_ACCOUNT :: nat where "MAX_OPEN_PER_ACCOUNT = 5"
definition MAX_HELD_ORDERS :: nat where "MAX_HELD_ORDERS = 4000"
definition LAPSED_KEPT :: int where "LAPSED_KEPT = 7 * 86400"
definition LAPSED_PRUNE_EVERY :: int where "LAPSED_PRUNE_EVERY = 86400"
definition KEEP_PAID :: int where "KEEP_PAID = 2 * ORDER_LIFETIME + CLOCK_SLACK"
definition MAX_CLAIM_TRIES :: nat where "MAX_CLAIM_TRIES = 30"

section \<open>Orders\<close>

record order =
  or_token_sha256 :: string
  or_passes :: nat
  or_amount_raw :: nat
  or_created :: int
  or_paid_sha256 :: "string option"
  or_tries :: nat
  or_unclaimed :: bool

definition lapses_at :: "order \<Rightarrow> int" where
  "lapses_at r = or_created r + (if or_unclaimed r then UNCLAIMED_LIFETIME else ORDER_LIFETIME)"

definition open_at :: "int \<Rightarrow> order \<Rightarrow> bool" where
  "open_at now r \<longleftrightarrow> or_paid_sha256 r = None \<and> now < lapses_at r"

record lapsed =
  la_token_sha256 :: string
  la_passes :: nat
  la_amount_raw :: nat
  la_created :: int
  la_lapsed :: int
  la_claimed :: bool

definition could_be_paid_at :: "int \<Rightarrow> lapsed \<Rightarrow> bool" where
  "could_be_paid_at time l \<longleftrightarrow> la_created l - CLOCK_SLACK \<le> time \<and> time < la_lapsed l"

record used_tx =
  us_signature_sha256 :: string
  us_at :: int

record orders =
  os_orders :: "order list"
  os_used :: "used_tx list"
  os_lapsed :: "lapsed list"
  os_lapsed_pruned :: int
  os_drop_lapsed_to :: "int option"

definition no_orders :: orders where
  "no_orders = \<lparr>os_orders = [], os_used = [], os_lapsed = [], os_lapsed_pruned = 0, os_drop_lapsed_to = None\<rparr>"

definition text_same :: "string \<Rightarrow> string \<Rightarrow> bool" where
  "text_same a b \<longleftrightarrow> same (ascii_bytes a) (ascii_bytes b)"

definition lapsed_of :: "order \<Rightarrow> lapsed" where
  "lapsed_of r = \<lparr>la_token_sha256 = or_token_sha256 r, la_passes = or_passes r, la_amount_raw = or_amount_raw r,
     la_created = or_created r, la_lapsed = lapses_at r, la_claimed = \<not> or_unclaimed r\<rparr>"

definition kept_order :: "int \<Rightarrow> order \<Rightarrow> bool" where
  "kept_order now r = (case or_paid_sha256 r of None \<Rightarrow> open_at now r | Some _ \<Rightarrow> now < or_created r + KEEP_PAID)"

definition prune_orders :: "int \<Rightarrow> orders \<Rightarrow> orders" where
  "prune_orders now ord =
     (let gone = filter (\<lambda>r. or_paid_sha256 r = None \<and> \<not> open_at now r) (os_orders ord);
          ord = ord\<lparr>os_orders := filter (kept_order now) (os_orders ord),
            os_lapsed := filter (\<lambda>l. now < la_lapsed l + LAPSED_KEPT) (os_lapsed ord @ map lapsed_of gone),
            os_used := filter (\<lambda>u. now < us_at u + KEEP_PAID) (os_used ord)\<rparr>
      in if os_lapsed_pruned ord + LAPSED_PRUNE_EVERY \<le> now
         then ord\<lparr>os_lapsed_pruned := now, os_drop_lapsed_to := Some (now - LAPSED_KEPT)\<rparr> else ord)"

definition open_count :: "int \<Rightarrow> orders \<Rightarrow> nat" where
  "open_count now ord = length (filter (open_at now) (os_orders ord))"

definition is_used :: "string \<Rightarrow> orders \<Rightarrow> bool" where
  "is_used sig ord \<longleftrightarrow> (\<exists>u\<in>set (os_used ord). text_same (us_signature_sha256 u) sig)"

datatype full = FullIssuer | FullAccount

text \<open>
  The draws of the loop, at most 64 of them, each \<open>None\<close> when the system has no randomness.
  The result is \<open>None\<close> when the code panics: a token without decimals leaves no room for a
  tag, and the remainder is taken by zero.
\<close>

fun draw_amount :: "(nat \<Rightarrow> bool) \<Rightarrow> nat \<Rightarrow> nat \<Rightarrow> nat option list \<Rightarrow> (full + nat) option" where
  "draw_amount taken price space [] = Some (Err FullIssuer)"
| "draw_amount taken price space (None # ds) = Some (Err FullIssuer)"
| "draw_amount taken price space (Some raw # ds) =
     (if space = 0 then None
      else
        (let amount = (price + (raw mod space + 1)) mod 2 ^ 64
         in if taken amount then draw_amount taken price space ds else Some (Ok amount)))"

definition open_order :: "string \<Rightarrow> pack \<Rightarrow> int \<Rightarrow> nat \<Rightarrow> (nat \<Rightarrow> nat option) \<Rightarrow> orders \<Rightarrow> (orders \<times> (full + order)) option" where
  "open_order hash pack now decimals draws ord0 =
     (let ord = prune_orders now ord0 in
      if MAX_OPEN_ORDERS \<le> open_count now ord then Some (ord, Err FullIssuer)
      else if MAX_OPEN_PER_ACCOUNT \<le> length (filter (\<lambda>r. open_at now r \<and> text_same (or_token_sha256 r) hash) (os_orders ord))
      then Some (ord, Err FullAccount)
      else map_option
        (\<lambda>x. case x of
            Err full \<Rightarrow> (ord, Err full)
          | Ok amount \<Rightarrow>
              (let r = \<lparr>or_token_sha256 = hash, or_passes = pk_passes pack, or_amount_raw = amount, or_created = now,
                 or_paid_sha256 = None, or_tries = 0, or_unclaimed = True\<rparr>
               in (ord\<lparr>os_orders := os_orders ord @ [r]\<rparr>, Ok r)))
        (draw_amount (\<lambda>amount. \<exists>r\<in>set (os_orders ord). open_at now r \<and> or_amount_raw r = amount)
           (pk_price_raw pack) (tag_space decimals) (map draws [0..<64])))"

fun hold_loop :: "(order \<Rightarrow> bool) \<Rightarrow> nat \<Rightarrow> order list \<Rightarrow> order list" where
  "hold_loop p room [] = []"
| "hold_loop p room (r # rs) =
     (if p r then (if room = 0 then r # rs else r\<lparr>or_unclaimed := False\<rparr> # hold_loop p (room - 1) rs)
      else r # hold_loop p room rs)"

definition hold :: "string \<Rightarrow> int \<Rightarrow> orders \<Rightarrow> orders" where
  "hold hash now ord0 =
     (let ord = prune_orders now ord0;
          held = length (filter (\<lambda>r. open_at now r \<and> \<not> or_unclaimed r) (os_orders ord))
      in ord\<lparr>os_orders := hold_loop (\<lambda>r. open_at now r \<and> or_unclaimed r \<and> text_same (or_token_sha256 r) hash)
           (MAX_HELD_ORDERS - held) (os_orders ord)\<rparr>)"

datatype claimable = ClaimOpen "order list" | AlreadyPaid nat nat

datatype not_claimable = NoOrder | UsedTx | TooManyTries

definition one_more_try :: "order \<Rightarrow> order" where
  "one_more_try r = r\<lparr>or_tries := saturating_add_u32 (or_tries r) 1\<rparr>"

definition before_claim :: "string \<Rightarrow> string \<Rightarrow> int \<Rightarrow> orders \<Rightarrow> orders \<times> (not_claimable + claimable)" where
  "before_claim hash sig now ord0 =
     (let ord = prune_orders now ord0 in
      case find (\<lambda>r. text_same (or_token_sha256 r) hash
          \<and> (case or_paid_sha256 r of Some p \<Rightarrow> text_same p sig | None \<Rightarrow> False)) (os_orders ord) of
        Some r \<Rightarrow> (ord, Ok (AlreadyPaid (or_passes r) (or_amount_raw r)))
      | None \<Rightarrow>
          (if is_used sig ord then (ord, Err UsedTx)
           else
             (let mine = (\<lambda>r. open_at now r \<and> text_same (or_token_sha256 r) hash);
                  ord = hold hash now ord;
                  ord = ord\<lparr>os_orders := map (\<lambda>r. if mine r then one_more_try r else r) (os_orders ord)\<rparr>;
                  opened = filter mine (os_orders ord)
              in if opened = [] then (ord, Err NoOrder)
                 else if MAX_CLAIM_TRIES < sum_list (map or_tries opened) then (ord, Err TooManyTries)
                 else (ord, Ok (ClaimOpen opened)))))"

definition mark_paid :: "string \<Rightarrow> nat \<Rightarrow> string \<Rightarrow> int \<Rightarrow> orders \<Rightarrow> orders \<times> (not_claimable + unit)" where
  "mark_paid hash amount_raw sig now ord =
     (if is_used sig ord then (ord, Err UsedTx)
      else
        (let p = (\<lambda>r. open_at now r \<and> or_amount_raw r = amount_raw \<and> text_same (or_token_sha256 r) hash)
         in if \<not> (\<exists>r\<in>set (os_orders ord). p r) then (ord, Err NoOrder)
            else (ord\<lparr>os_orders := modify_first p (\<lambda>r. r\<lparr>or_paid_sha256 := Some sig\<rparr>) (os_orders ord),
                     os_used := os_used ord @ [\<lparr>us_signature_sha256 = sig, us_at = now\<rparr>]\<rparr>, Ok ())))"

definition unmark :: "string \<Rightarrow> nat \<Rightarrow> string \<Rightarrow> orders \<Rightarrow> orders" where
  "unmark hash amount_raw sig ord =
     ord\<lparr>os_orders := modify_first (\<lambda>r. or_amount_raw r = amount_raw \<and> text_same (or_token_sha256 r) hash \<and> or_paid_sha256 r = Some sig)
           (\<lambda>r. r\<lparr>or_paid_sha256 := None\<rparr>) (os_orders ord),
         os_used := filter (\<lambda>u. \<not> text_same (us_signature_sha256 u) sig) (os_used ord)\<rparr>"

section \<open>Lapsed orders\<close>

datatype lapsed_error = TransactionUsed | NoneFits | SeveralFit nat | NotRewritten | CouldNotCredit account_error | AccountsNotWritten
  | OrdersNotWritten

definition fitting :: "nat \<Rightarrow> int \<Rightarrow> string option \<Rightarrow> int \<Rightarrow> lapsed list \<Rightarrow> lapsed list" where
  "fitting amount_raw paid_at token now ls =
     rev (fold (\<lambda>l fits. if la_amount_raw l = amount_raw \<and> now < la_lapsed l + LAPSED_KEPT \<and> could_be_paid_at paid_at l
         \<and> (case token of None \<Rightarrow> True | Some t \<Rightarrow> text_same (la_token_sha256 l) t) \<and> l \<notin> set fits then l # fits else fits) ls [])"

definition take_lapsed :: "lapsed list \<Rightarrow> nat \<Rightarrow> int \<Rightarrow> string option \<Rightarrow> string \<Rightarrow> int \<Rightarrow> orders
    \<Rightarrow> orders \<times> (lapsed_error + lapsed \<times> bool)" where
  "take_lapsed kept amount_raw paid_at token sig now ord0 =
     (let ord = prune_orders now ord0 in
      if is_used sig ord then (ord, Err TransactionUsed)
      else (case fitting amount_raw paid_at token now (kept @ os_lapsed ord) of
          [] \<Rightarrow> (ord, Err NoneFits)
        | [l] \<Rightarrow> (ord\<lparr>os_used := os_used ord @ [\<lparr>us_signature_sha256 = sig, us_at = now\<rparr>],
                     os_lapsed := filter (\<lambda>r. r \<noteq> l) (os_lapsed ord)\<rparr>, Ok (l, l \<in> set kept))
        | fits \<Rightarrow> (ord, Err (SeveralFit (length fits)))))"

definition put_back :: "lapsed option \<Rightarrow> string \<Rightarrow> orders \<Rightarrow> orders" where
  "put_back l sig ord =
     ord\<lparr>os_lapsed := os_lapsed ord @ (case l of Some l \<Rightarrow> [l] | None \<Rightarrow> []),
         os_used := filter (\<lambda>u. \<not> text_same (us_signature_sha256 u) sig) (os_used ord)\<rparr>"

section \<open>The files\<close>

text \<open>
  The orders file holds the orders and the used transactions; it is \<open>None\<close> when it cannot be
  read. The records of lapsed orders stand in a file of their own, one a line. A change
  adds those that lapsed there first; an append that fails may leave some of them.
\<close>

record order_files =
  orders_file :: "orders option"
  lapsed_file :: "lapsed list"

record orders_io =
  oio_locked :: bool
  oio_appended :: "nat option"
  oio_rewritten :: bool
  oio_saved :: bool

definition on_disk :: "orders \<Rightarrow> orders" where
  "on_disk ord = ord\<lparr>os_lapsed := [], os_drop_lapsed_to := None\<rparr>"

definition append_lapsed :: "nat option \<Rightarrow> lapsed list \<Rightarrow> lapsed list \<Rightarrow> lapsed list \<times> bool" where
  "append_lapsed short records ls = (case short of None \<Rightarrow> (ls @ records, True) | Some k \<Rightarrow> (ls @ take k records, False))"

definition read_lapsed :: "nat option \<Rightarrow> lapsed list \<Rightarrow> lapsed list" where
  "read_lapsed amount_raw ls =
     rev (fst (fold (\<lambda>l (out, seen). let k = (la_token_sha256 l, la_amount_raw l, la_created l)
       in if (case amount_raw of None \<Rightarrow> True | Some a \<Rightarrow> a = la_amount_raw l)
          then (if k \<in> set seen then (out, seen) else (l # out, k # seen)) else (out, seen)) ls ([], [])))"

definition rewrite_lapsed :: "bool \<Rightarrow> (lapsed \<Rightarrow> bool) \<Rightarrow> lapsed list \<Rightarrow> lapsed list \<times> bool" where
  "rewrite_lapsed rewritten keep ls = (if rewritten then (filter keep ls, True) else (ls, False))"

text \<open>
  The change \<open>f\<close> gives the orders and the lapsed file after it, which only a credit by hand
  touches itself; \<open>None\<close> is a panic. The result is \<open>None\<close> when the files could not be changed.
\<close>

definition orders_update :: "orders_io \<Rightarrow> (orders \<Rightarrow> lapsed list \<Rightarrow> (orders \<times> lapsed list \<times> 'b) option) \<Rightarrow> order_files
    \<Rightarrow> order_files \<times> 'b option" where
  "orders_update io f fs =
     (if \<not> oio_locked io then (fs, None)
      else (case orders_file fs of
          None \<Rightarrow> (fs, None)
        | Some saved \<Rightarrow> (case f (on_disk saved) (lapsed_file fs) of
            None \<Rightarrow> (fs, None)
          | Some (ord, lfile, out) \<Rightarrow>
              (let moved = os_lapsed ord \<noteq> [];
                   (lf1, appended) = (if moved then append_lapsed (oio_appended io) (os_lapsed ord) lfile else (lfile, True));
                   (lf2, rewritten) = (case os_drop_lapsed_to ord of
                      Some to \<Rightarrow> if appended then rewrite_lapsed (oio_rewritten io) (\<lambda>l. to < la_lapsed l) lf1 else (lf1, False)
                    | None \<Rightarrow> (lf1, True))
               in if \<not> appended then (fs\<lparr>lapsed_file := lf1\<rparr>, None)
                  else if \<not> rewritten then (fs\<lparr>lapsed_file := lf2\<rparr>, None)
                  else if moved \<or> on_disk ord \<noteq> on_disk saved
                  then (if oio_saved io then (fs\<lparr>orders_file := Some (on_disk ord), lapsed_file := lf2\<rparr>, Some out)
                        else (fs\<lparr>lapsed_file := lf2\<rparr>, None))
                  else (fs\<lparr>lapsed_file := lf2\<rparr>, Some out)))))"

section \<open>The index\<close>

record token_index =
  tk_open :: "(int \<times> bool \<times> nat) list"
  tk_paid_until :: int

record index =
  ix_unread :: bool
  ix_tokens :: "string \<rightharpoonup> token_index"
  ix_open :: "int list"
  ix_held :: "int list"

definition empty_index :: index where
  "empty_index = \<lparr>ix_unread = False, ix_tokens = Map.empty, ix_open = [], ix_held = []\<rparr>"

definition unread_index :: index where
  "unread_index = empty_index\<lparr>ix_unread := True\<rparr>"

definition index_order :: "order \<Rightarrow> index \<Rightarrow> index" where
  "index_order r ix =
     (let t = (case ix_tokens ix (or_token_sha256 r) of Some t \<Rightarrow> t | None \<Rightarrow> \<lparr>tk_open = [], tk_paid_until = 0\<rparr>);
          until = lapses_at r
      in case or_paid_sha256 r of
           None \<Rightarrow> ix\<lparr>ix_tokens := (ix_tokens ix)(or_token_sha256 r \<mapsto> t\<lparr>tk_open := tk_open t @ [(until, or_unclaimed r, or_tries r)]\<rparr>),
               ix_open := ix_open ix @ [until],
               ix_held := (if or_unclaimed r then ix_held ix else ix_held ix @ [until])\<rparr>
         | Some _ \<Rightarrow> ix\<lparr>ix_tokens := (ix_tokens ix)(or_token_sha256 r \<mapsto> t\<lparr>tk_paid_until := max (tk_paid_until t) (or_created r + KEEP_PAID)\<rparr>)\<rparr>)"

definition index_of :: "orders \<Rightarrow> index" where
  "index_of ord = (let ix = fold index_order (os_orders ord) empty_index
     in ix\<lparr>ix_open := sort (ix_open ix), ix_held := sort (ix_held ix)\<rparr>)"

text \<open>The times are sorted, so the partition point is the end of those that are over.\<close>

definition still_open :: "int list \<Rightarrow> int \<Rightarrow> nat" where
  "still_open ts now = length ts - length (takeWhile (\<lambda>t. t \<le> now) ts)"

definition room_for :: "index \<Rightarrow> string \<Rightarrow> int \<Rightarrow> full + unit" where
  "room_for ix hash now =
     (if ix_unread ix then Ok ()
      else if MAX_OPEN_ORDERS \<le> still_open (ix_open ix) now then Err FullIssuer
      else if (case ix_tokens ix hash of Some t \<Rightarrow> MAX_OPEN_PER_ACCOUNT \<le> length (filter (\<lambda>r. now < fst r) (tk_open t)) | None \<Rightarrow> False)
      then Err FullAccount else Ok ())"

datatype known = KnownOrders bool | KnownTooManyTries | KnownNothing

definition known_token :: "index \<Rightarrow> token_index \<Rightarrow> int \<Rightarrow> known" where
  "known_token ix t now =
     (let opened = filter (\<lambda>r. now < fst r) (tk_open t);
          paid = now < tk_paid_until t
      in if opened = [] then (if paid then KnownOrders False else KnownNothing)
         else if \<not> paid \<and> MAX_CLAIM_TRIES < sum_list (map (\<lambda>(_, _, n). n) opened) + length opened then KnownTooManyTries
         else KnownOrders ((\<exists>(_, unclaimed, _)\<in>set opened. unclaimed) \<and> still_open (ix_held ix) now < MAX_HELD_ORDERS))"

definition known :: "index \<Rightarrow> string \<Rightarrow> int \<Rightarrow> known" where
  "known ix hash now =
     (if ix_unread ix then KnownOrders False
      else (case ix_tokens ix hash of None \<Rightarrow> KnownNothing | Some t \<Rightarrow> known_token ix t now))"

section \<open>The index answers as the file\<close>

lemma text_same_iff [simp]: "text_same a b \<longleftrightarrow> a = b"
  by (simp add: text_same_def ascii_bytes_inject)

abbreviation unpaid :: "order \<Rightarrow> bool" where
  "unpaid r \<equiv> or_paid_sha256 r = None"

definition of_token :: "string \<Rightarrow> order list \<Rightarrow> order list" where
  "of_token hash rs = filter (\<lambda>r. or_token_sha256 r = hash) rs"

definition paid_until :: "order list \<Rightarrow> int" where
  "paid_until rs = fold (\<lambda>r m. if unpaid r then m else max m (or_created r + KEEP_PAID)) rs 0"

lemma index_fold_lists:
  "ix_open (fold index_order rs ix) = ix_open ix @ map lapses_at (filter unpaid rs)"
  "ix_held (fold index_order rs ix) = ix_held ix @ map lapses_at (filter (\<lambda>r. unpaid r \<and> \<not> or_unclaimed r) rs)"
  "ix_unread (fold index_order rs ix) = ix_unread ix"
  by (induction rs arbitrary: ix) (auto simp: index_order_def Let_def split: option.splits)

definition token_seen :: "order list \<Rightarrow> string \<Rightarrow> token_index option" where
  "token_seen rs hash = (if of_token hash rs = [] then None
     else Some \<lparr>tk_open = map (\<lambda>r. (lapses_at r, or_unclaimed r, or_tries r)) (filter unpaid (of_token hash rs)),
       tk_paid_until = paid_until (of_token hash rs)\<rparr>)"

lemma index_order_token:
  "ix_tokens (index_order r ix) = (ix_tokens ix)(or_token_sha256 r \<mapsto>
     (let t = (case ix_tokens ix (or_token_sha256 r) of Some t \<Rightarrow> t | None \<Rightarrow> \<lparr>tk_open = [], tk_paid_until = 0\<rparr>)
      in if unpaid r then t\<lparr>tk_open := tk_open t @ [(lapses_at r, or_unclaimed r, or_tries r)]\<rparr>
         else t\<lparr>tk_paid_until := max (tk_paid_until t) (or_created r + KEEP_PAID)\<rparr>))"
  by (auto simp: index_order_def Let_def split: option.splits)

lemma index_fold_tokens: "ix_tokens (fold index_order rs empty_index) hash = token_seen rs hash"
proof (induction rs rule: rev_induct)
  case Nil
  then show ?case by (simp add: empty_index_def token_seen_def of_token_def)
next
  case (snoc r rs)
  then show ?case
    by (auto simp: index_order_token token_seen_def of_token_def paid_until_def Let_def filter_empty_conv)
qed

lemma still_open_sorted: "still_open (sort ts) now = length (filter (\<lambda>t. now < t) ts)"
proof -
  have "length (takeWhile (\<lambda>t. t \<le> now) xs) + length (filter (\<lambda>t. now < t) xs) = length xs" if "sorted xs" for xs :: "int list"
    using that by (induction xs) (auto intro!: arg_cong [of _ _ length] filter_True)
  from this [of "sort ts"] have "still_open (sort ts) now = length (filter (\<lambda>t. now < t) (sort ts))"
    by (simp add: still_open_def)
  also have "\<dots> = length (filter (\<lambda>t. now < t) ts)"
    by (simp add: filter_sort)
  finally show ?thesis .
qed

lemma index_of_sel:
  "ix_unread (index_of ord) = False" "ix_tokens (index_of ord) hash = token_seen (os_orders ord) hash"
  "still_open (ix_open (index_of ord)) now = open_count now ord"
  "still_open (ix_held (index_of ord)) now = length (filter (\<lambda>r. open_at now r \<and> \<not> or_unclaimed r) (os_orders ord))"
proof -
  have e: "open_at now = (\<lambda>r. unpaid r \<and> now < lapses_at r)" by (simp add: fun_eq_iff open_at_def)
  show "ix_tokens (index_of ord) hash = token_seen (os_orders ord) hash" by (simp add: index_of_def Let_def index_fold_tokens)
  show "ix_unread (index_of ord) = False" "still_open (ix_open (index_of ord)) now = open_count now ord"
    "still_open (ix_held (index_of ord)) now = length (filter (\<lambda>r. open_at now r \<and> \<not> or_unclaimed r) (os_orders ord))"
    unfolding e open_count_def
    by (simp_all add: index_of_def Let_def index_fold_lists still_open_sorted empty_index_def filter_map comp_def conj_ac)
qed

lemma prune_sel:
  "os_orders (prune_orders now ord) = filter (kept_order now) (os_orders ord)"
  "os_used (prune_orders now ord) = filter (\<lambda>u. now < us_at u + KEEP_PAID) (os_used ord)"
  by (simp_all add: prune_orders_def Let_def)

lemma open_kept: "open_at now r \<Longrightarrow> kept_order now r"
  by (simp add: open_at_def kept_order_def)

lemma kept_unpaid: "kept_order now r \<Longrightarrow> unpaid r \<Longrightarrow> open_at now r"
  by (simp add: kept_order_def)

lemma open_prune: "filter (\<lambda>r. open_at now r \<and> P r) (os_orders (prune_orders now ord)) = filter (\<lambda>r. open_at now r \<and> P r) (os_orders ord)"
  by (auto simp: prune_sel open_kept intro: filter_cong)

lemma open_count_prune [simp]: "open_count now (prune_orders now ord) = open_count now ord"
  using open_prune [of now "\<lambda>_. True"] by (simp add: open_count_def)

lemma open_held: "open_at now r \<Longrightarrow> open_at now (r\<lparr>or_unclaimed := False\<rparr>)"
  by (auto simp: open_at_def lapses_at_def UNCLAIMED_LIFETIME_def ORDER_LIFETIME_def split: if_splits)

text \<open>What a hold leaves alone: all but the flag of the orders it holds, which stay open.\<close>

lemma hold_loop_each:
  "list_all2 (\<lambda>r r'. r' = r \<or> (p r \<and> r' = r\<lparr>or_unclaimed := False\<rparr>)) rs (hold_loop p room rs)"
  by (induction rs arbitrary: room) (auto intro: list_all2_refl)

definition view :: "int \<Rightarrow> order \<Rightarrow> bool \<times> string \<times> nat" where
  "view now r = (open_at now r, or_token_sha256 r, or_tries r)"

lemma hold_view: "map (view now) (os_orders (hold hash now ord)) = map (view now) (os_orders (prune_orders now ord))"
proof -
  let ?p = "\<lambda>r. open_at now r \<and> or_unclaimed r \<and> text_same (or_token_sha256 r) hash"
  have "list_all2 (\<lambda>r r'. view now r = view now r') rs (hold_loop ?p room rs)" for rs room
    by (rule list_all2_mono [OF hold_loop_each]) (auto simp: view_def open_held)
  then show ?thesis
    unfolding hold_def Let_def by (simp add: list_all2_conv_all_nth list_eq_iff_nth_eq)
qed

definition tries_of :: "int \<Rightarrow> string \<Rightarrow> order list \<Rightarrow> nat list" where
  "tries_of now hash rs = map or_tries (filter (\<lambda>r. open_at now r \<and> or_token_sha256 r = hash) rs)"

lemma tries_of_view: "tries_of now hash rs = map (snd \<circ> snd) (filter (\<lambda>(a, t, _). a \<and> t = hash) (map (view now) rs))"
  by (simp add: tries_of_def view_def filter_map comp_def)

lemma tries_of_hold [simp]: "tries_of now hash (os_orders (hold h now (prune_orders now ord))) = tries_of now hash (os_orders ord)"
proof -
  have "tries_of now hash (os_orders (hold h now (prune_orders now ord))) = tries_of now hash (os_orders (prune_orders now (prune_orders now ord)))"
    by (simp only: tries_of_view hold_view)
  also have "\<dots> = tries_of now hash (os_orders ord)" unfolding tries_of_def open_prune ..
  finally show ?thesis .
qed

lemma tried_once_more:
  "tries_of now hash (map (\<lambda>r. if open_at now r \<and> or_token_sha256 r = hash then one_more_try r else r) rs)
    = map (\<lambda>n. saturating_add_u32 n 1) (tries_of now hash rs)"
  by (induction rs) (auto simp: tries_of_def one_more_try_def open_at_def lapses_at_def)

lemma too_many_once_more:
  "MAX_CLAIM_TRIES < sum_list (map (\<lambda>n. saturating_add_u32 n 1) ns) \<longleftrightarrow> MAX_CLAIM_TRIES < sum_list ns + length ns"
proof (cases "\<exists>n\<in>set ns. U32_MAX \<le> n + 1")
  case True
  then obtain n where n: "n \<in> set ns" "U32_MAX \<le> n + 1" by blast
  have "saturating_add_u32 n 1 \<in> set (map (\<lambda>n. saturating_add_u32 n 1) ns)" using n(1) by simp
  then have "saturating_add_u32 n 1 \<le> sum_list (map (\<lambda>n. saturating_add_u32 n 1) ns)" by (rule member_le_sum_list) simp
  moreover have "saturating_add_u32 n 1 = U32_MAX" using n(2) by (simp add: saturating_add_u32_def)
  moreover have "n \<le> sum_list ns" using n(1) by (simp add: member_le_sum_list)
  moreover have "MAX_CLAIM_TRIES + 1 < U32_MAX" by (simp add: MAX_CLAIM_TRIES_def U32_MAX_def)
  ultimately show ?thesis using n(2) by linarith
next
  case False
  then have "map (\<lambda>n. saturating_add_u32 n 1) ns = map (\<lambda>n. n + 1) ns"
    by (auto simp: saturating_add_u32_def min_def not_le)
  moreover have "sum_list (map (\<lambda>n. n + 1) ns) = sum_list ns + length ns" by (induction ns) auto
  ultimately show ?thesis by (simp only:)
qed

text \<open>The result of a claim's first look at the file, in terms of the orders as they are.\<close>

definition paid_kept :: "int \<Rightarrow> string \<Rightarrow> orders \<Rightarrow> bool" where
  "paid_kept now hash ord \<longleftrightarrow> (\<exists>r\<in>set (os_orders ord). or_token_sha256 r = hash \<and> \<not> unpaid r \<and> now < or_created r + KEEP_PAID)"

lemma before_claim_result:
  assumes "snd (before_claim hash sig now ord) = x"
  shows "(\<exists>n a. x = Ok (AlreadyPaid n a)) \<and> paid_kept now hash ord \<or> x = Err UsedTx
      \<or> (if tries_of now hash (os_orders ord) = [] then x = Err NoOrder
         else if MAX_CLAIM_TRIES < sum_list (tries_of now hash (os_orders ord)) + length (tries_of now hash (os_orders ord))
         then x = Err TooManyTries else \<exists>rs. x = Ok (ClaimOpen rs))"
proof -
  let ?ord = "prune_orders now ord"
  let ?paid = "\<lambda>r. or_token_sha256 r = hash \<and> (case or_paid_sha256 r of Some p \<Rightarrow> p = sig | None \<Rightarrow> False)"
  let ?mine = "\<lambda>r. open_at now r \<and> or_token_sha256 r = hash"
  let ?rs = "map (\<lambda>r. if ?mine r then one_more_try r else r) (os_orders (hold hash now ?ord))"
  have tr: "map or_tries (filter ?mine ?rs) = map (\<lambda>n. saturating_add_u32 n 1) (tries_of now hash (os_orders ord))"
    using tried_once_more [of now hash "os_orders (hold hash now ?ord)"] by (simp add: tries_of_def [of now hash ?rs])
  have e: "filter ?mine ?rs = [] \<longleftrightarrow> tries_of now hash (os_orders ord) = []"
    using map_eq_imp_length_eq [OF tr] by (simp only: length_0_conv [symmetric])
  show ?thesis
  proof (cases "find ?paid (os_orders ?ord)")
    case (Some r)
    then have "r \<in> set (os_orders ?ord)" "?paid r" by (auto simp: find_Some_iff)
    then have "paid_kept now hash ord"
      unfolding paid_kept_def by (intro bexI [of _ r]) (auto simp: prune_sel kept_order_def split: option.splits)
    moreover have "x = Ok (AlreadyPaid (or_passes r) (or_amount_raw r))"
      using assms Some unfolding before_claim_def Let_def text_same_iff by simp
    ultimately show ?thesis by blast
  next
    case None
    have "x = (if is_used sig ?ord then Err UsedTx else if filter ?mine ?rs = [] then Err NoOrder
        else if MAX_CLAIM_TRIES < sum_list (map or_tries (filter ?mine ?rs)) then Err TooManyTries else Ok (ClaimOpen (filter ?mine ?rs)))"
      using assms None unfolding before_claim_def Let_def text_same_iff by (simp split: if_splits)
    then show ?thesis unfolding e tr too_many_once_more by auto
  qed
qed

lemma paid_until_less:
  "now < fold (\<lambda>r m. if unpaid r then m else max m (or_created r + KEEP_PAID)) rs m
    \<longleftrightarrow> now < m \<or> (\<exists>r\<in>set rs. \<not> unpaid r \<and> now < or_created r + KEEP_PAID)"
  by (induction rs arbitrary: m) (auto simp: less_max_iff_disj)

lemma known_index:
  assumes "0 \<le> now"
  shows "known (index_of ord) hash now =
    (let ts = tries_of now hash (os_orders ord); paid = paid_kept now hash ord in
     if ts = [] then (if paid then KnownOrders False else KnownNothing)
     else if \<not> paid \<and> MAX_CLAIM_TRIES < sum_list ts + length ts then KnownTooManyTries
     else KnownOrders ((\<exists>r\<in>set (os_orders ord). open_at now r \<and> or_token_sha256 r = hash \<and> or_unclaimed r)
        \<and> length (filter (\<lambda>r. open_at now r \<and> \<not> or_unclaimed r) (os_orders ord)) < MAX_HELD_ORDERS))"
proof (cases "of_token hash (os_orders ord) = []")
  case True
  then have n: "\<forall>r\<in>set (os_orders ord). or_token_sha256 r \<noteq> hash" by (simp add: of_token_def filter_empty_conv)
  then have "tries_of now hash (os_orders ord) = []" "\<not> paid_kept now hash ord"
    by (auto simp: tries_of_def paid_kept_def filter_empty_conv)
  then show ?thesis using True by (simp add: known_def index_of_sel token_seen_def)
next
  case False
  let ?t = "\<lparr>tk_open = map (\<lambda>r. (lapses_at r, or_unclaimed r, or_tries r)) (filter unpaid (of_token hash (os_orders ord))),
       tk_paid_until = paid_until (of_token hash (os_orders ord))\<rparr>"
  let ?mine = "filter (\<lambda>r. open_at now r \<and> or_token_sha256 r = hash) (os_orders ord)"
  have p: "now < tk_paid_until ?t \<longleftrightarrow> paid_kept now hash ord"
    using assms by (auto simp: paid_until_def paid_until_less paid_kept_def of_token_def)
  have f: "filter (\<lambda>r. now < fst r) (tk_open ?t) = map (\<lambda>r. (lapses_at r, or_unclaimed r, or_tries r)) ?mine"
    by (auto simp: filter_map comp_def of_token_def open_at_def intro: arg_cong [of _ _ "map _"] filter_cong)
  have "known (index_of ord) hash now = known_token (index_of ord) ?t now"
    using False by (simp add: known_def index_of_sel token_seen_def)
  then show ?thesis
    unfolding known_token_def f p index_of_sel
    by (simp add: tries_of_def Let_def comp_def) (auto simp: image_iff)
qed

lemma room_for_index:
  "room_for (index_of ord) hash now =
     (if MAX_OPEN_ORDERS \<le> open_count now ord then Err FullIssuer
      else if MAX_OPEN_PER_ACCOUNT \<le> length (filter (\<lambda>r. open_at now r \<and> or_token_sha256 r = hash) (os_orders ord)) then Err FullAccount
      else Ok ())"
proof -
  have f: "filter (\<lambda>r. unpaid r \<and> now < lapses_at r) (of_token hash rs) = filter (\<lambda>r. open_at now r \<and> or_token_sha256 r = hash) rs" for rs
    by (auto simp: of_token_def open_at_def intro: filter_cong)
  have "of_token hash rs = [] \<Longrightarrow> filter (\<lambda>r. open_at now r \<and> or_token_sha256 r = hash) rs = []" for rs
    by (auto simp: of_token_def filter_empty_conv)
  then show ?thesis by (simp add: room_for_def index_of_sel token_seen_def f MAX_OPEN_PER_ACCOUNT_def)
qed

lemma open_order_full:
  assumes "room_for (index_of ord) hash now = Err f"
  shows "open_order hash pack now decimals draws ord = Some (prune_orders now ord, Err f)"
  using assms unfolding room_for_index open_order_def Let_def text_same_iff open_prune open_count_prune
  by (auto split: if_splits)

lemma open_order_room:
  assumes "room_for (index_of ord) hash now = Ok ()"
  shows "open_order hash pack now decimals draws ord = map_option
      (\<lambda>x. case x of
          Err full \<Rightarrow> (prune_orders now ord, Err full)
        | Ok amount \<Rightarrow>
            (let r = \<lparr>or_token_sha256 = hash, or_passes = pk_passes pack, or_amount_raw = amount, or_created = now,
               or_paid_sha256 = None, or_tries = 0, or_unclaimed = True\<rparr>
             in ((prune_orders now ord)\<lparr>os_orders := os_orders (prune_orders now ord) @ [r]\<rparr>, Ok r)))
      (draw_amount (\<lambda>amount. \<exists>r\<in>set (os_orders (prune_orders now ord)). open_at now r \<and> or_amount_raw r = amount)
         (pk_price_raw pack) (tag_space decimals) (map draws [0..<64]))"
  using assms unfolding room_for_index open_order_def Let_def text_same_iff open_prune open_count_prune
  by (simp split: if_splits)

lemma index_answers:
  assumes "0 \<le> now"
  shows "room_for (index_of ord) hash now = Err f \<Longrightarrow>
      \<exists>ord'. open_order hash pack now decimals draws ord = Some (ord', Err f)"
    and "known (index_of ord) hash now = KnownNothing \<Longrightarrow>
      snd (before_claim hash sig now ord) \<in> {Err NoOrder, Err UsedTx}"
    and "known (index_of ord) hash now = KnownTooManyTries \<Longrightarrow>
      snd (before_claim hash sig now ord) \<in> {Err TooManyTries, Err UsedTx}"
    and "known (index_of ord) hash now = KnownOrders h \<Longrightarrow>
      snd (before_claim hash sig now ord) \<in> {Err NoOrder, Err TooManyTries} \<Longrightarrow> paid_kept now hash ord"
    and "room_for (index_of ord) hash now = Ok () \<Longrightarrow> 0 < tag_space decimals \<Longrightarrow> draws 0 = Some raw \<Longrightarrow>
      \<not> (\<exists>r\<in>set (os_orders ord). open_at now r \<and> or_amount_raw r = (pk_price_raw pack + (raw mod tag_space decimals + 1)) mod 2 ^ 64) \<Longrightarrow>
      \<exists>ord' r. open_order hash pack now decimals draws ord = Some (ord', Ok r)"
proof -
  let ?x = "snd (before_claim hash sig now ord)"
  show "room_for (index_of ord) hash now = Err f \<Longrightarrow> \<exists>ord'. open_order hash pack now decimals draws ord = Some (ord', Err f)"
    using open_order_full by blast
  note b = before_claim_result [OF refl, of hash sig now ord] and k = known_index [OF assms, of ord hash, unfolded Let_def]
  show "known (index_of ord) hash now = KnownNothing \<Longrightarrow> ?x \<in> {Err NoOrder, Err UsedTx}"
    using b unfolding k by (auto split: if_splits)
  show "known (index_of ord) hash now = KnownTooManyTries \<Longrightarrow> ?x \<in> {Err TooManyTries, Err UsedTx}"
    using b unfolding k by (auto split: if_splits)
  show "known (index_of ord) hash now = KnownOrders h \<Longrightarrow> ?x \<in> {Err NoOrder, Err TooManyTries} \<Longrightarrow> paid_kept now hash ord"
    using b unfolding k by (auto split: if_splits)
  assume room: "room_for (index_of ord) hash now = Ok ()" and t: "0 < tag_space decimals" and d: "draws 0 = Some raw"
    and free: "\<not> (\<exists>r\<in>set (os_orders ord). open_at now r \<and> or_amount_raw r = (pk_price_raw pack + (raw mod tag_space decimals + 1)) mod 2 ^ 64)"
  have free': "\<not> (\<exists>r\<in>set (os_orders (prune_orders now ord)). open_at now r
      \<and> or_amount_raw r = (pk_price_raw pack + (raw mod tag_space decimals + 1)) mod 2 ^ 64)"
    using free by (auto simp: prune_sel)
  have "map draws [0..<64] = Some raw # map draws [1..<64]" using d by (simp add: upt_rec)
  then show "\<exists>ord' r. open_order hash pack now decimals draws ord = Some (ord', Ok r)"
    using t free' unfolding open_order_room [OF room] by (auto simp: Let_def)
qed

text \<open>
  The index answers as the file would. What the index of the orders file refuses, the file
  refuses the same way: a quote refused for room is one \<open>open_order\<close> refuses for the same
  reason, a claim answered as unknown or as tried too often finds no open order, or
  too many tries, in the file (or a transaction already used); a claim it lets
  through fails there only if the token has a paid order it may be asking about; and a
  quote it lets through is opened as soon as the amount drawn is free.
\<close>

theorem index_answers_as_file:
  assumes "0 \<le> now"
  shows "(\<forall>f. room_for (index_of ord) hash now = Err f \<longrightarrow> (\<exists>ord'. open_order hash pack now decimals draws ord = Some (ord', Err f)))
    \<and> (known (index_of ord) hash now = KnownNothing \<longrightarrow> snd (before_claim hash sig now ord) \<in> {Err NoOrder, Err UsedTx})
    \<and> (known (index_of ord) hash now = KnownTooManyTries \<longrightarrow> snd (before_claim hash sig now ord) \<in> {Err TooManyTries, Err UsedTx})
    \<and> (\<forall>h. known (index_of ord) hash now = KnownOrders h \<longrightarrow> snd (before_claim hash sig now ord) \<in> {Err NoOrder, Err TooManyTries}
         \<longrightarrow> paid_kept now hash ord)
    \<and> (\<forall>raw. room_for (index_of ord) hash now = Ok () \<longrightarrow> 0 < tag_space decimals \<longrightarrow> draws 0 = Some raw \<longrightarrow>
         \<not> (\<exists>r\<in>set (os_orders ord). open_at now r \<and> or_amount_raw r = (pk_price_raw pack + (raw mod tag_space decimals + 1)) mod 2 ^ 64)
         \<longrightarrow> (\<exists>ord' r. open_order hash pack now decimals draws ord = Some (ord', Ok r)))"
  by (intro conjI allI impI) (fact index_answers [OF assms])+

section \<open>No two open orders share an amount\<close>

definition slots :: "order list \<Rightarrow> (string \<times> nat) list" where
  "slots rs = map (\<lambda>r. (or_token_sha256 r, or_amount_raw r)) (filter unpaid rs)"

definition slots_ok :: "(string \<times> nat) list \<Rightarrow> bool" where
  "slots_ok ps \<longleftrightarrow> distinct (map snd ps) \<and> length ps \<le> MAX_OPEN_ORDERS
     \<and> (\<forall>h. length (filter (\<lambda>p. fst p = h) ps) \<le> MAX_OPEN_PER_ACCOUNT)"

definition orders_ok :: "orders \<Rightarrow> bool" where
  "orders_ok ord \<longleftrightarrow> slots_ok (slots (os_orders ord))"

lemma slots_simps [simp]:
  "slots [] = []" "slots (xs @ ys) = slots xs @ slots ys"
  "slots (r # rs) = (if unpaid r then (or_token_sha256 r, or_amount_raw r) # slots rs else slots rs)"
  by (simp_all add: slots_def)

lemma slots_ok_insert:
  "slots_ok (A @ x # B) \<longleftrightarrow> slots_ok (A @ B) \<and> snd x \<notin> snd ` set (A @ B) \<and> length (A @ B) < MAX_OPEN_ORDERS
     \<and> length (filter (\<lambda>p. fst p = fst x) (A @ B)) < MAX_OPEN_PER_ACCOUNT"
proof -
  have "(\<forall>h. length (filter (\<lambda>p. fst p = h) (A @ x # B)) \<le> MAX_OPEN_PER_ACCOUNT) \<longleftrightarrow>
      (\<forall>h. length (filter (\<lambda>p. fst p = h) (A @ B)) \<le> MAX_OPEN_PER_ACCOUNT)
      \<and> length (filter (\<lambda>p. fst p = fst x) (A @ B)) < MAX_OPEN_PER_ACCOUNT" (is "?l \<longleftrightarrow> ?r")
  proof
    assume l: ?l
    have "length (filter (\<lambda>p. fst p = h) (A @ B)) \<le> MAX_OPEN_PER_ACCOUNT" for h
      using l [rule_format, of h] by (cases "fst x = h") simp_all
    then show ?r using l [rule_format, of "fst x"] by simp
  qed (auto simp: Suc_le_eq)
  moreover have "distinct (map snd (A @ x # B)) \<longleftrightarrow> distinct (map snd (A @ B)) \<and> snd x \<notin> snd ` set (A @ B)" by auto
  moreover have "length (A @ x # B) \<le> MAX_OPEN_ORDERS \<longleftrightarrow> length (A @ B) \<le> MAX_OPEN_ORDERS \<and> length (A @ B) < MAX_OPEN_ORDERS"
    by auto
  ultimately show ?thesis unfolding slots_ok_def by blast
qed

lemma slots_ok_drop: "slots_ok (A @ B @ C) \<Longrightarrow> slots_ok (A @ C)"
  by (induction B) (use slots_ok_insert in auto)

lemma slots_ok_filter: "slots_ok (A @ slots rs) \<Longrightarrow> slots_ok (A @ slots (filter P rs))"
proof (induction rs arbitrary: A)
  case (Cons r rs)
  show ?case
  proof (cases "unpaid r")
    case True
    let ?x = "(or_token_sha256 r, or_amount_raw r)"
    have a: "slots_ok ((A @ [?x]) @ slots rs)" using Cons.prems True by simp
    from Cons.IH [OF this] slots_ok_drop [of A "[?x]"] True show ?thesis by auto
  qed (use Cons in auto)
qed simp

lemma orders_ok_prune: "orders_ok ord \<Longrightarrow> orders_ok (prune_orders now ord)"
  using slots_ok_filter [of "[]"] by (simp add: orders_ok_def prune_sel)

lemma slots_open: "\<forall>r\<in>set rs. unpaid r \<longrightarrow> open_at now r \<Longrightarrow> filter unpaid rs = filter (open_at now) rs"
  by (auto simp: open_at_def intro!: filter_cong)

lemma draw_amount_free: "draw_amount taken price space ds = Some (Ok amount) \<Longrightarrow> \<not> taken amount"
  by (induction taken price space ds rule: draw_amount.induct) (auto simp: Let_def split: if_splits)

lemma orders_ok_open:
  assumes "orders_ok ord" "open_order hash pack now decimals draws ord = Some (ord', r)"
  shows "orders_ok ord'"
proof (cases "room_for (index_of ord) hash now")
  case (Inl f)
  with assms orders_ok_prune show ?thesis by (auto simp: open_order_full [OF Inl])
next
  case (Inr u)
  let ?p = "prune_orders now ord"
  have up: "filter unpaid (os_orders ?p) = filter (open_at now) (os_orders ?p)"
    by (rule slots_open) (auto simp: prune_sel dest: kept_unpaid)
  have room: "open_count now ?p < MAX_OPEN_ORDERS"
    "length (filter (\<lambda>r. open_at now r \<and> or_token_sha256 r = hash) (os_orders ?p)) < MAX_OPEN_PER_ACCOUNT"
    using Inr by (auto simp: room_for_index open_prune split: if_splits)
  consider "ord' = ?p" | amount where "ord' = ?p\<lparr>os_orders := os_orders ?p @ [\<lparr>or_token_sha256 = hash, or_passes = pk_passes pack,
        or_amount_raw = amount, or_created = now, or_paid_sha256 = None, or_tries = 0, or_unclaimed = True\<rparr>]\<rparr>"
      "\<not> (\<exists>r\<in>set (os_orders ?p). open_at now r \<and> or_amount_raw r = amount)"
  proof -
    from assms(2) obtain z where z: "draw_amount (\<lambda>amount. \<exists>r\<in>set (os_orders ?p). open_at now r \<and> or_amount_raw r = amount)
         (pk_price_raw pack) (tag_space decimals) (map draws [0..<64]) = Some z"
      and e: "(ord', r) = (case z of Err full \<Rightarrow> (?p, Err full) | Ok amount \<Rightarrow>
            (let r = \<lparr>or_token_sha256 = hash, or_passes = pk_passes pack, or_amount_raw = amount, or_created = now,
               or_paid_sha256 = None, or_tries = 0, or_unclaimed = True\<rparr> in (?p\<lparr>os_orders := os_orders ?p @ [r]\<rparr>, Ok r)))"
      unfolding open_order_room [OF Inr [unfolded unit_eq [of u]]] by auto
    show thesis
    proof (cases z)
      case (Inr amount)
      have "\<not> (\<exists>r\<in>set (os_orders ?p). open_at now r \<and> or_amount_raw r = amount)"
        using draw_amount_free [OF z [unfolded Inr]] .
      with e Inr show thesis by (intro that(2)) (simp_all add: Let_def)
    qed (use e that(1) in simp)
  qed
  then show ?thesis
  proof cases
    case 2
    have "slots_ok (slots (os_orders ?p) @ (hash, amount) # [])"
      unfolding slots_ok_insert using orders_ok_prune [OF assms(1), of now] room 2(2)
      by (auto simp: slots_def orders_ok_def up open_count_def filter_map comp_def conj_commute)
    with 2(1) show ?thesis by (simp add: orders_ok_def)
  qed (use orders_ok_prune assms(1) in simp)
qed

lemma slots_each:
  assumes "list_all2 (\<lambda>r r'. or_token_sha256 r' = or_token_sha256 r \<and> or_amount_raw r' = or_amount_raw r \<and> or_paid_sha256 r' = or_paid_sha256 r) rs rs'"
  shows "slots rs' = slots rs"
  using assms by (induction rule: list_all2_induct) auto

lemma slots_hold: "slots (os_orders (hold hash now ord)) = slots (os_orders (prune_orders now ord))"
  unfolding hold_def Let_def
  by (simp, rule slots_each, rule list_all2_mono [OF hold_loop_each]) auto

lemma orders_ok_hold: "orders_ok ord \<Longrightarrow> orders_ok (hold hash now ord)"
  using orders_ok_prune by (simp add: orders_ok_def slots_hold)

lemma slots_tried: "slots (map (\<lambda>r. if P r then one_more_try r else r) rs) = slots rs"
  by (rule slots_each) (auto simp: list_all2_conv_all_nth one_more_try_def)

lemma before_claim_orders:
  "fst (before_claim hash sig now ord) = prune_orders now ord
   \<or> (\<exists>P. fst (before_claim hash sig now ord) = (hold hash now (prune_orders now ord))\<lparr>os_orders :=
        map (\<lambda>r. if P r then one_more_try r else r) (os_orders (hold hash now (prune_orders now ord)))\<rparr>)"
  unfolding before_claim_def Let_def by (auto split: option.splits)

lemma orders_ok_before_claim: "orders_ok ord \<Longrightarrow> orders_ok (fst (before_claim hash sig now ord))"
  using before_claim_orders [of hash sig now ord] orders_ok_prune [of ord now] orders_ok_hold [of "prune_orders now ord" hash now]
  by (auto simp: orders_ok_def slots_tried)

lemma modify_first_split:
  assumes "\<exists>x\<in>set xs. p x"
  obtains ys x zs where "xs = ys @ x # zs" "p x" "modify_first p f xs = ys @ f x # zs"
proof -
  from assms obtain ys x zs where e: "xs = ys @ x # zs" "p x" "\<forall>y\<in>set ys. \<not> p y" by (metis split_list_first_prop)
  have "modify_first p f (ys @ x # zs) = ys @ f x # zs" using e(2,3) by (induction ys) auto
  with e that show ?thesis by blast
qed

lemma modify_first_none: "\<not> (\<exists>x\<in>set xs. p x) \<Longrightarrow> modify_first p f xs = xs"
  by (induction xs) auto

lemma mark_paid_Ok:
  assumes "mark_paid hash amount sig now ord = (ord', Ok u)"
  obtains ys r zs where "os_orders ord = ys @ r # zs" "open_at now r" "or_amount_raw r = amount" "or_token_sha256 r = hash"
    "os_orders ord' = ys @ r\<lparr>or_paid_sha256 := Some sig\<rparr> # zs"
    "os_used ord' = os_used ord @ [\<lparr>us_signature_sha256 = sig, us_at = now\<rparr>]" "\<not> is_used sig ord"
proof -
  let ?p = "\<lambda>r. open_at now r \<and> or_amount_raw r = amount \<and> text_same (or_token_sha256 r) hash"
  have e: "\<exists>r\<in>set (os_orders ord). ?p r" "\<not> is_used sig ord"
    and o': "ord' = ord\<lparr>os_orders := modify_first ?p (\<lambda>r. r\<lparr>or_paid_sha256 := Some sig\<rparr>) (os_orders ord),
                     os_used := os_used ord @ [\<lparr>us_signature_sha256 = sig, us_at = now\<rparr>]\<rparr>"
    using assms by (auto simp: mark_paid_def Let_def split: if_splits)
  from modify_first_split [OF e(1)] show ?thesis using that e(2) o' by (metis (no_types, lifting) orders.select_convs(1,2) orders.surjective orders.update_convs(1,2) text_same_iff)
qed

lemma mark_paid_Err: "mark_paid hash amount sig now ord = (ord', Err e) \<Longrightarrow> ord' = ord"
  by (auto simp: mark_paid_def Let_def split: if_splits)

lemma slots_ok_remove: "slots_ok (A @ x # B) \<Longrightarrow> slots_ok (A @ B)"
  using slots_ok_insert by blast

lemma orders_ok_mark_paid: "orders_ok ord \<Longrightarrow> mark_paid hash amount sig now ord = (ord', x) \<Longrightarrow> orders_ok ord'"
  by (cases x) (auto simp: orders_ok_def open_at_def dest: mark_paid_Err elim!: mark_paid_Ok intro: slots_ok_remove)

lemma orders_ok_unmark:
  assumes "orders_ok ord" "mark_paid hash amount sig now ord = (ord', Ok u)"
  shows "orders_ok (unmark hash amount sig ord')"
proof -
  from assms(2) obtain ys r zs where e: "os_orders ord = ys @ r # zs" "unpaid r" "or_amount_raw r = amount" "or_token_sha256 r = hash"
    "os_orders ord' = ys @ r\<lparr>or_paid_sha256 := Some sig\<rparr> # zs"
    by (elim mark_paid_Ok) (simp add: open_at_def)
  let ?q = "\<lambda>r. or_amount_raw r = amount \<and> text_same (or_token_sha256 r) hash \<and> or_paid_sha256 r = Some sig"
  have "\<exists>r\<in>set (os_orders ord'). ?q r" unfolding e(5) using e(3,4) by simp
  then obtain ys' r' zs' where q: "os_orders ord' = ys' @ r' # zs'" "?q r'"
    "modify_first ?q (\<lambda>r. r\<lparr>or_paid_sha256 := None\<rparr>) (os_orders ord') = ys' @ r'\<lparr>or_paid_sha256 := None\<rparr> # zs'"
    using modify_first_split [of "os_orders ord'" ?q "\<lambda>r. r\<lparr>or_paid_sha256 := None\<rparr>"] by blast
  have "slots ys @ slots zs = slots (os_orders ord')" using e(5) by simp
  also have "\<dots> = slots ys' @ slots zs'" using q(1,2) by simp
  finally have s: "slots ys' @ slots zs' = slots ys @ slots zs" ..
  have "slots_ok (slots ys @ (hash, amount) # slots zs)" using assms(1) e by (simp add: orders_ok_def)
  then have "slots_ok (slots ys' @ (hash, amount) # slots zs')" unfolding slots_ok_insert s .
  then show ?thesis using q by (simp add: orders_ok_def unmark_def)
qed

lemma orders_ok_lapsed:
  "orders_ok ord \<Longrightarrow> orders_ok (fst (take_lapsed kept amount paid_at token sig now ord))"
  "orders_ok (put_back l sig ord) \<longleftrightarrow> orders_ok ord"
  "orders_ok (on_disk ord) \<longleftrightarrow> orders_ok ord"
  using orders_ok_prune [of ord now]
  by (auto simp: take_lapsed_def put_back_def on_disk_def orders_ok_def Let_def split: list.splits)

section \<open>Limits of the code\<close>

text \<open>
  A token without decimals, which the issuer takes (0 to 12), leaves no room for a tag:
  every quote that gets as far as drawing one panics.
\<close>

lemma no_decimals_no_sale:
  assumes "room_for (index_of ord) hash now = Ok ()" "draws 0 = Some raw"
  shows "open_order hash pack now 0 draws ord = None"
proof -
  have "map draws [0..<64] = Some raw # map draws [1..<64]" using assms(2) by (simp add: upt_rec)
  then show ?thesis unfolding open_order_room [OF assms(1)] by (simp add: tag_space_def)
qed

text \<open>
  A transaction that paid an order is forgotten after \<open>KEEP_PAID\<close>, two days and five
  minutes; a lapsed order can be credited by hand for \<open>LAPSED_KEPT\<close>, seven days. Past the first, the same
  transaction is credited again to a lapsed order of the same amount.
\<close>

definition spent_twice_orders :: orders where
  "spent_twice_orders = no_orders\<lparr>os_used := [\<lparr>us_signature_sha256 = ''s'', us_at = 1000\<rparr>]\<rparr>"

definition spent_twice_lapsed :: lapsed where
  "spent_twice_lapsed = \<lparr>la_token_sha256 = ''t'', la_passes = 10, la_amount_raw = 5, la_created = 900, la_lapsed = 8100, la_claimed = False\<rparr>"

lemma credited_again_by_hand:
  "snd (take_lapsed [spent_twice_lapsed] 5 1000 None ''s'' 1000 spent_twice_orders) = Err TransactionUsed"
  "snd (take_lapsed [spent_twice_lapsed] 5 1000 None ''s'' 200000 spent_twice_orders) = Ok (spent_twice_lapsed, True)"
  by (simp_all add: take_lapsed_def spent_twice_orders_def spent_twice_lapsed_def no_orders_def prune_orders_def is_used_def fitting_def
      KEEP_PAID_def ORDER_LIFETIME_def CLOCK_SLACK_def LAPSED_KEPT_def could_be_paid_at_def LAPSED_PRUNE_EVERY_def Let_def)

text \<open>An example for the index: one open order, and one token without any.\<close>

definition sample_orders :: orders where
  "sample_orders = no_orders\<lparr>os_orders := [\<lparr>or_token_sha256 = ''t'', or_passes = 10, or_amount_raw = 50, or_created = 100,
     or_paid_sha256 = None, or_tries = 0, or_unclaimed = True\<rparr>]\<rparr>"

theorem index_answers_as_file_witness:
  "known (index_of sample_orders) ''other'' 200 = KnownNothing
   \<and> snd (before_claim ''other'' ''s'' 200 sample_orders) \<in> {Err NoOrder, Err UsedTx}
   \<and> (\<exists>ord' r. open_order ''t'' \<lparr>pk_passes = 1, pk_price_raw = 7, pk_usd_cents = None\<rparr> 200 6 (\<lambda>_. Some 0) sample_orders = Some (ord', Ok r))"
proof -
  have k: "known (index_of sample_orders) ''other'' 200 = KnownNothing"
    by (subst known_index) (simp_all add: sample_orders_def tries_of_def paid_kept_def)
  have r: "room_for (index_of sample_orders) ''t'' 200 = Ok ()"
    unfolding room_for_index by (simp add: sample_orders_def open_count_def MAX_OPEN_ORDERS_def MAX_OPEN_PER_ACCOUNT_def)
  note all = index_answers_as_file [where now = 200 and ord = sample_orders and sig = "''s''" and draws = "\<lambda>_. Some 0"]
  have "snd (before_claim ''other'' ''s'' 200 sample_orders) \<in> {Err NoOrder, Err UsedTx}"
    using all [where hash = "''other''"] k by simp
  moreover have "\<exists>ord' r. open_order ''t'' \<lparr>pk_passes = 1, pk_price_raw = 7, pk_usd_cents = None\<rparr> 200 6 (\<lambda>_. Some 0) sample_orders = Some (ord', Ok r)"
    using all [where hash = "''t''" and decimals = 6 and pack = "\<lparr>pk_passes = 1, pk_price_raw = 7, pk_usd_cents = None\<rparr>"] r
    by (simp add: tag_space_def TAG_DIGITS_def sample_orders_def)
  ultimately show ?thesis using k by blast
qed

end
