(* ===== verification/Issuer.thy ===== *)
theory Issuer
  imports Issuer_Orders
begin

text \<open>
  The pass issuer at work (\<^verbatim>\<open>hidravpn-issuer/src/main.rs\<close>): \<^verbatim>\<open>POST /quote\<close>, \<^verbatim>\<open>POST /claim\<close>, the operator's
  credit of a lapsed order, and the way a request is sent to its handler. A body is the
  request it reads as, \<open>None\<close> when it is not one; the buckets, the vote of the RPCs and how
  each file answers are arguments.

  The history at the end is the shop and the accounts together: quotes, the phases of
  claims in any order, credits by hand, failures and stops. The lemmas show that a
  transaction is credited by a claim once, for the exact amount of an order that was quoted to the
  token, and that the passes signed for a token are never more than those given to it, paid
  for and counted against its quota.
\<close>

section \<open>The files and the index\<close>

record shop =
  shop_files :: order_files
  shop_accounts :: accounts_file
  shop_index :: index

definition change_orders :: "orders_io \<Rightarrow> (orders \<Rightarrow> (orders \<times> 'b) option) \<Rightarrow> shop \<Rightarrow> shop \<times> 'b option" where
  "change_orders io f sh =
     (case orders_update io (\<lambda>ord ls. map_option (\<lambda>(ord', out). (ord', ls, (out, index_of ord'))) (f ord)) (shop_files sh) of
        (fs, None) \<Rightarrow> (sh\<lparr>shop_files := fs\<rparr>, None)
      | (fs, Some (out, ix)) \<Rightarrow> (sh\<lparr>shop_files := fs, shop_index := ix\<rparr>, Some out))"

section \<open>Quotes\<close>

datatype shop_answer = ShopRefusal nat | Quoted order | Credited nat nat nat bool

definition full_status :: "full \<Rightarrow> nat" where
  "full_status f = (case f of FullIssuer \<Rightarrow> 503 | FullAccount \<Rightarrow> 429)"

definition hash_shape :: "string \<Rightarrow> bool" where
  "hash_shape s \<longleftrightarrow> length s = 64 \<and> list_all is_ascii_hexdigit s"

definition quote :: "pack_spec list option \<Rightarrow> (nat \<Rightarrow> nat option) \<Rightarrow> nat \<Rightarrow> int \<Rightarrow> bool \<Rightarrow> orders_io \<Rightarrow> (nat \<Rightarrow> nat option)
    \<Rightarrow> (string \<times> nat) option \<Rightarrow> shop \<Rightarrow> shop \<times> shop_answer" where
  "quote sells usd_rate decimals now bucket io draws body sh = (case sells of
      None \<Rightarrow> (sh, ShopRefusal 404)
    | Some specs \<Rightarrow> (case body of
        None \<Rightarrow> (sh, ShopRefusal 400)
      | Some (token_sha256, passes) \<Rightarrow>
          (if \<not> hash_shape token_sha256 then (sh, ShopRefusal 400)
           else (case find (\<lambda>k. spec_passes k = passes) specs of
               None \<Rightarrow> (sh, ShopRefusal 400)
             | Some spec \<Rightarrow> (case pack_at usd_rate spec of
                 None \<Rightarrow> (sh, ShopRefusal 503)
               | Some pack \<Rightarrow>
                   (let hash = to_ascii_lowercase token_sha256 in
                    case room_for (shop_index sh) hash now of
                      Err f \<Rightarrow> (sh, ShopRefusal (full_status f))
                    | Ok _ \<Rightarrow>
                        (if \<not> bucket then (sh, ShopRefusal 429)
                         else (case change_orders io (open_order hash pack now decimals draws) sh of
                             (sh', None) \<Rightarrow> (sh', ShopRefusal 503)
                           | (sh', Some (Err f)) \<Rightarrow> (sh', ShopRefusal (full_status f))
                           | (sh', Some (Ok r)) \<Rightarrow> (sh', Quoted r)))))))))"

section \<open>Claims\<close>

text \<open>
  The last part of a claim: the order is marked paid, then the account credited; when
  that fails, the mark is taken back. The index is the one after the mark, and is left
  alone on a failure.
\<close>

definition claim_credit :: "orders_io \<Rightarrow> orders_io \<Rightarrow> bool \<times> bool \<Rightarrow> string option \<Rightarrow> string \<Rightarrow> order \<Rightarrow> string \<Rightarrow> int \<Rightarrow> shop
    \<Rightarrow> shop \<times> (not_claimable + nat) option" where
  "claim_credit io undo_io acc_io random_hex hash r sig now sh =
     (case orders_update io (\<lambda>ord ls. case mark_paid hash (or_amount_raw r) sig now ord of
          (ord', m) \<Rightarrow> Some (ord', ls, (m, index_of ord'))) (shop_files sh) of
        (fs, None) \<Rightarrow> (sh\<lparr>shop_files := fs\<rparr>, None)
      | (fs, Some (Err e, ix)) \<Rightarrow> (sh\<lparr>shop_files := fs, shop_index := ix\<rparr>, Some (Err e))
      | (fs, Some (Ok _, ix)) \<Rightarrow>
          (case accounts_update (fst acc_io) (snd acc_io) (accounts_credit random_hex hash (or_passes r)) (shop_accounts sh) of
             (file, Some (Ok b)) \<Rightarrow> (sh\<lparr>shop_files := fs, shop_accounts := file, shop_index := ix\<rparr>, Some (Ok b))
           | (file, _) \<Rightarrow>
               (sh\<lparr>shop_files := fst (orders_update undo_io (\<lambda>ord ls. Some (unmark hash (or_amount_raw r) sig ord, ls, ())) fs),
                   shop_accounts := file\<rparr>, None)))"

definition has_white :: "string \<Rightarrow> bool" where
  "has_white s \<longleftrightarrow> (\<exists>w\<in>set white_space. find_sub w s \<noteq> None)"

definition claim_token :: "'a pass_env_scheme \<Rightarrow> (string \<times> string) option \<Rightarrow> (string \<times> string) option" where
  "claim_token env body = (case body of
      None \<Rightarrow> None
    | Some (token, signature) \<Rightarrow>
        (let token = trim token in
         if token = [] \<or> 512 < length token \<or> has_white token then None
         else (case check_signature signature of
             Err _ \<Rightarrow> None
           | Ok s \<Rightarrow> Some (token_hash env token, hex_encode env (sha256 env (ascii_bytes s))))))"

definition rejected_status :: "rejected \<Rightarrow> nat" where
  "rejected_status r = (case r of NotFound \<Rightarrow> 404 | Malformed \<Rightarrow> 503 | _ \<Rightarrow> 402)"

definition not_claimable_status :: "not_claimable \<Rightarrow> nat" where
  "not_claimable_status e = (case e of NoOrder \<Rightarrow> 404 | UsedTx \<Rightarrow> 409 | TooManyTries \<Rightarrow> 429)"

definition paid_order :: "payment \<Rightarrow> order list \<Rightarrow> order option" where
  "paid_order p rs = find (\<lambda>r. is_ok (pays p (or_amount_raw r) (or_created r))) rs"

record claim_io =
  cio_hold :: orders_io
  cio_paced :: bool
  cio_bucket :: bool
  cio_before :: orders_io
  cio_slot :: bool
  cio_vote :: quorum
  cio_mark :: orders_io
  cio_undo :: orders_io
  cio_accounts :: "bool \<times> bool"
  cio_random :: "string option"

definition claim_pay :: "claim_io \<Rightarrow> string \<Rightarrow> string \<Rightarrow> int \<Rightarrow> order list \<Rightarrow> shop \<Rightarrow> shop \<times> shop_answer" where
  "claim_pay io hash sig now candidates sh =
     (if \<not> cio_slot io then (sh, ShopRefusal 503)
      else (case cio_vote io of
          QRefused why \<Rightarrow> (sh, ShopRefusal (rejected_status why))
        | Undecided \<Rightarrow> (sh, ShopRefusal 503)
        | QPaid p \<Rightarrow> (case paid_order p candidates of
            None \<Rightarrow> (sh, ShopRefusal 402)
          | Some r \<Rightarrow> (case claim_credit (cio_mark io) (cio_undo io) (cio_accounts io) (cio_random io) hash r sig now sh of
              (sh', Some (Ok b)) \<Rightarrow> (sh', Credited (or_passes r) b (or_amount_raw r) False)
            | (sh', Some (Err e)) \<Rightarrow> (sh', ShopRefusal (if e = UsedTx then 409 else 404))
            | (sh', None) \<Rightarrow> (sh', ShopRefusal 503)))))"

definition claim_look :: "claim_io \<Rightarrow> string \<Rightarrow> string \<Rightarrow> int \<Rightarrow> shop \<Rightarrow> shop \<times> (shop_answer + order list)" where
  "claim_look io hash sig now sh =
     (if \<not> cio_paced io then (sh, Err (ShopRefusal 429))
      else if \<not> cio_bucket io then (sh, Err (ShopRefusal 429))
      else (case change_orders (cio_before io) (\<lambda>ord. Some (before_claim hash sig now ord)) sh of
          (sh', None) \<Rightarrow> (sh', Err (ShopRefusal 503))
        | (sh', Some (Err e)) \<Rightarrow> (sh', Err (ShopRefusal (not_claimable_status e)))
        | (sh', Some (Ok (AlreadyPaid passes amount_raw))) \<Rightarrow>
            (sh', Err (Credited passes (case shop_accounts sh' of
               Some as \<Rightarrow> (case balance_of hash as of Some b \<Rightarrow> b | None \<Rightarrow> 0) | None \<Rightarrow> 0) amount_raw True))
        | (sh', Some (Ok (ClaimOpen rs))) \<Rightarrow> (sh', Ok rs)))"

definition claim :: "'a pass_env_scheme \<Rightarrow> bool \<Rightarrow> int \<Rightarrow> claim_io \<Rightarrow> (string \<times> string) option \<Rightarrow> shop \<Rightarrow> shop \<times> shop_answer" where
  "claim env sells now io body sh =
     (if \<not> sells then (sh, ShopRefusal 404)
      else (case claim_token env body of
          None \<Rightarrow> (sh, ShopRefusal 400)
        | Some (hash, sig) \<Rightarrow> (case known (shop_index sh) hash now of
            KnownNothing \<Rightarrow> (sh, ShopRefusal 404)
          | KnownTooManyTries \<Rightarrow> (sh, ShopRefusal 429)
          | KnownOrders held \<Rightarrow>
              (case (if held then change_orders (cio_hold io) (\<lambda>ord. Some (hold hash now ord, ())) sh else (sh, Some ())) of
                 (sh1, None) \<Rightarrow> (sh1, ShopRefusal 503)
               | (sh1, Some _) \<Rightarrow> (case claim_look io hash sig now sh1 of
                   (sh2, Err a) \<Rightarrow> (sh2, a)
                 | (sh2, Ok rs) \<Rightarrow> claim_pay io hash sig now rs sh2)))))"

section \<open>A credit by hand\<close>

record hand_io =
  hio_take :: orders_io
  hio_rewrite :: bool
  hio_put_back :: orders_io
  hio_accounts :: "bool \<times> bool"
  hio_random :: "string option"

definition take_for_credit :: "hand_io \<Rightarrow> nat \<Rightarrow> int \<Rightarrow> string option \<Rightarrow> string \<Rightarrow> int \<Rightarrow> orders \<Rightarrow> lapsed list
    \<Rightarrow> (orders \<times> lapsed list \<times> (lapsed_error + lapsed)) option" where
  "take_for_credit io amount_raw paid_at token sig now ord ls =
     (case take_lapsed (read_lapsed (Some amount_raw) ls) amount_raw paid_at token sig now ord of
        (ord', Err e) \<Rightarrow> Some (ord', ls, Err e)
      | (ord', Ok (l, in_file)) \<Rightarrow>
          (if in_file
           then (case rewrite_lapsed (hio_rewrite io) (\<lambda>r. r \<noteq> l) ls of
               (ls', True) \<Rightarrow> Some (ord', ls', Ok l)
             | (ls', False) \<Rightarrow> Some (put_back None sig ord', ls', Err NotRewritten))
           else Some (ord', ls, Ok l)))"

definition credit_record :: "hand_io \<Rightarrow> nat \<Rightarrow> int \<Rightarrow> string option \<Rightarrow> string \<Rightarrow> int \<Rightarrow> shop \<Rightarrow> shop \<times> (lapsed_error + lapsed \<times> nat)" where
  "credit_record io amount_raw paid_at token sig now sh =
     (case orders_update (hio_take io) (take_for_credit io amount_raw paid_at token sig now) (shop_files sh) of
        (fs, None) \<Rightarrow> (sh\<lparr>shop_files := fs\<rparr>, Err OrdersNotWritten)
      | (fs, Some (Err e)) \<Rightarrow> (sh\<lparr>shop_files := fs\<rparr>, Err e)
      | (fs, Some (Ok l)) \<Rightarrow>
          (case accounts_update (fst (hio_accounts io)) (snd (hio_accounts io))
              (accounts_credit (hio_random io) (la_token_sha256 l) (la_passes l)) (shop_accounts sh) of
             (file, Some (Ok b)) \<Rightarrow> (sh\<lparr>shop_files := fs, shop_accounts := file\<rparr>, Ok (l, b))
           | (file, x) \<Rightarrow>
               (sh\<lparr>shop_files := fst (orders_update (hio_put_back io) (\<lambda>ord ls. Some (put_back (Some l) sig ord, ls, ())) fs),
                   shop_accounts := file\<rparr>, Err (case x of Some (Err e) \<Rightarrow> CouldNotCredit e | _ \<Rightarrow> AccountsNotWritten))))"

definition credit_lapsed :: "hand_io \<Rightarrow> nat \<Rightarrow> int \<Rightarrow> string option \<Rightarrow> string \<Rightarrow> int \<Rightarrow> shop \<Rightarrow> shop \<times> (lapsed_error + nat \<times> nat)" where
  "credit_lapsed io amount_raw paid_at token sig now sh = (case credit_record io amount_raw paid_at token sig now sh of
      (sh', Ok (l, b)) \<Rightarrow> (sh', Ok (la_passes l, b))
    | (sh', Err e) \<Rightarrow> (sh', Err e))"

section \<open>Requests\<close>

datatype route = ToIssue | ToQuote | ToClaim | ToPacks | ToRecords | Status nat

definition answer_route :: "string \<Rightarrow> string \<Rightarrow> bool \<Rightarrow> route" where
  "answer_route meth path is_json =
     (if meth = ''POST'' \<and> \<not> is_json then Status 415
      else if meth = ''POST'' \<and> path = ''/issue'' then ToIssue
      else if meth = ''POST'' \<and> path = ''/quote'' then ToQuote
      else if meth = ''POST'' \<and> path = ''/claim'' then ToClaim
      else if meth = ''GET'' \<and> path = ''/packs'' then ToPacks
      else if meth = ''GET'' \<and> (path = ''/'' \<or> path = ''/keys'') then ToRecords
      else if meth = ''GET'' \<or> meth = ''POST'' then Status 404 else Status 405)"

section \<open>Marks that expire\<close>

text \<open>
  What a book of used transactions promises: a mark stays until it is \<open>keep\<close> old, whatever
  else is marked, and until it is taken back itself. Then a credit is remembered as long
  as it matters: no transaction within its order's life is taken for a new one.
\<close>

locale expiring_marks =
  fixes marked :: "'s \<Rightarrow> string \<Rightarrow> int \<Rightarrow> bool"
    and prune :: "int \<Rightarrow> 's \<Rightarrow> 's"
    and mark :: "string \<Rightarrow> nat \<Rightarrow> string \<Rightarrow> int \<Rightarrow> 's \<Rightarrow> 's"
    and unmark :: "string \<Rightarrow> nat \<Rightarrow> string \<Rightarrow> 's \<Rightarrow> 's"
    and keep :: int
  assumes prune_keeps: "marked s sig at \<Longrightarrow> now < at + keep \<Longrightarrow> marked (prune now s) sig at"
    and mark_keeps: "marked s sig at \<Longrightarrow> marked (mark hash amount sig' now s) sig at"
    and unmark_keeps: "marked s sig at \<Longrightarrow> sig \<noteq> sig' \<Longrightarrow> marked (unmark hash amount sig' s) sig at"
begin

definition remembers :: "int \<Rightarrow> 's \<Rightarrow> (string \<times> int) set \<Rightarrow> bool" where
  "remembers clock s log \<longleftrightarrow> (\<forall>(sig, at)\<in>log. marked s sig at \<or> at + keep \<le> clock)"

lemma remembers_later: "remembers clock s log \<Longrightarrow> clock \<le> clock' \<Longrightarrow> remembers clock' s log"
  unfolding remembers_def by fastforce

lemma remembers_prune: "remembers clock s log \<Longrightarrow> clock \<le> clock' \<Longrightarrow> now \<le> clock' \<Longrightarrow> remembers clock' (prune now s) log"
  unfolding remembers_def using prune_keeps by (fastforce simp: not_less)

lemma remembers_mark: "remembers clock s log \<Longrightarrow> remembers clock (mark hash amount sig now s) log"
  unfolding remembers_def using mark_keeps by fast

lemma remembers_unmark:
  assumes "remembers clock s log" "\<forall>at. \<not> marked s sig at"
  shows "remembers clock (unmark hash amount sig (mark hash amount sig now s)) log"
proof -
  have "marked (unmark hash amount sig (mark hash amount sig now s)) sig' at" if "marked s sig' at" for sig' at
    using that assms(2) mark_keeps unmark_keeps by metis
  with assms(1) show ?thesis unfolding remembers_def by blast
qed

lemma never_again:
  assumes "remembers clock s log" "\<forall>at. \<not> marked s sig at" "(sig, at) \<in> log"
    and "time \<le> at + ahead" "clock \<le> now + lag" "created - slack \<le> time" "now < created + life"
    and "keep = 2 * life + slack" "ahead + lag \<le> life"
  shows False
proof -
  from assms(1-3) have "at + keep \<le> clock" unfolding remembers_def by blast
  with assms(4-9) show False by linarith
qed

end

definition marked_at :: "orders \<Rightarrow> string \<Rightarrow> int \<Rightarrow> bool" where
  "marked_at ord sig at \<longleftrightarrow> (\<exists>u\<in>set (os_used ord). us_signature_sha256 u = sig \<and> us_at u = at)"

lemma mark_paid_marks: "marked_at ord sig at \<Longrightarrow> marked_at (fst (mark_paid hash amount sig' now ord)) sig at"
  by (auto simp: mark_paid_def marked_at_def Let_def)

interpretation used: expiring_marks marked_at prune_orders "\<lambda>hash amount sig now ord. fst (mark_paid hash amount sig now ord)" unmark KEEP_PAID
  by unfold_locales (use mark_paid_marks in \<open>auto simp: marked_at_def prune_sel unmark_def\<close>)

lemma is_used_marked: "is_used sig ord \<longleftrightarrow> (\<exists>at. marked_at ord sig at)"
  by (auto simp: is_used_def marked_at_def)

section \<open>A history of the issuer\<close>

text \<open>
  The shop, the accounts with their history, and a ledger: the latest time seen, the
  orders quoted so far (token hash, passes, amount), the claims that were shown their
  open orders, every credit made, newest first, and what else was credited to each token
  (the operator's accounts). \<open>chain\<close> is the payment a transaction made, by the hash of
  its signature: a finalized transaction does not change. Times of the issuer run at
  most \<open>lag\<close> behind the latest seen, and a transaction is at most \<open>ahead\<close> in the future when
  it is credited. A stop inside a claim, after the mark and before the credit, is the
  case of \<open>i_pay\<close> in which the accounts and the way back both fail.
\<close>

record credit =
  cr_sig :: string
  cr_hash :: string
  cr_passes :: nat
  cr_amount :: nat
  cr_at :: int
  cr_claimed :: bool

record ledger =
  clock :: int
  quoted :: "(string \<times> nat \<times> nat) set"
  offers :: "(string \<times> string \<times> int \<times> order list) set"
  credits :: "credit list"
  given :: "string \<Rightarrow> nat"

definition order_key :: "order \<Rightarrow> string \<times> nat \<times> nat" where
  "order_key r = (or_token_sha256 r, or_passes r, or_amount_raw r)"

definition lapsed_key :: "lapsed \<Rightarrow> string \<times> nat \<times> nat" where
  "lapsed_key l = (la_token_sha256 l, la_passes l, la_amount_raw l)"

definition tick :: "int \<Rightarrow> ledger \<Rightarrow> ledger" where
  "tick now G = G\<lparr>clock := max (clock G) now\<rparr>"

definition add_quote :: "(full + order) option \<Rightarrow> ledger \<Rightarrow> ledger" where
  "add_quote x G = (case x of Some (Ok r) \<Rightarrow> G\<lparr>quoted := insert (order_key r) (quoted G)\<rparr> | _ \<Rightarrow> G)"

definition add_offer :: "string \<Rightarrow> string \<Rightarrow> int \<Rightarrow> (not_claimable + claimable) option \<Rightarrow> ledger \<Rightarrow> ledger" where
  "add_offer hash sig now x G = (case x of Some (Ok (ClaimOpen rs)) \<Rightarrow> G\<lparr>offers := insert (hash, sig, now, rs) (offers G)\<rparr> | _ \<Rightarrow> G)"

definition add_credit :: "credit \<Rightarrow> bool \<Rightarrow> ledger \<Rightarrow> ledger" where
  "add_credit c made G = (if made then G\<lparr>credits := c # credits G\<rparr> else G)"

definition account_credit :: "accounts_file \<Rightarrow> string \<Rightarrow> nat \<Rightarrow> bool \<Rightarrow> account_history \<Rightarrow> account_history" where
  "account_credit fl hash n made A = A\<lparr>book := fl, credited := (if made then plus_at hash n (credited A) else credited A)\<rparr>"

definition was_credited :: "(not_claimable + nat) option \<Rightarrow> bool" where
  "was_credited x = (case x of Some (Ok _) \<Rightarrow> True | _ \<Rightarrow> False)"

definition hand_credit :: "string \<Rightarrow> int \<Rightarrow> lapsed_error + lapsed \<times> nat \<Rightarrow> credit" where
  "hand_credit sig now x = (case x of Ok (l, _) \<Rightarrow> \<lparr>cr_sig = sig, cr_hash = la_token_sha256 l, cr_passes = la_passes l,
     cr_amount = la_amount_raw l, cr_at = now, cr_claimed = False\<rparr> | Err _ \<Rightarrow> undefined)"

type_synonym issuer_history = "shop \<times> account_history \<times> ledger"

inductive issuer_step :: "'a pass_env_scheme \<Rightarrow> (issuer_secret \<times> pass_key_record) list \<Rightarrow> (string \<Rightarrow> payment) \<Rightarrow> int \<Rightarrow> int
    \<Rightarrow> issuer_history \<Rightarrow> issuer_history \<Rightarrow> bool"
  for env keys chain ahead lag where
  i_accounts: "accounts_step env keys A A' \<Longrightarrow>
    issuer_step env keys chain ahead lag (sh, A, G)
      (sh\<lparr>shop_accounts := book A'\<rparr>, A', G\<lparr>given := (\<lambda>h. given G h + (credited A' h - credited A h))\<rparr>)"
| i_quote: "clock G \<le> now + lag \<Longrightarrow> pk_passes pack \<le> U32_MAX \<Longrightarrow>
    change_orders io (open_order hash pack now decimals draws) sh = (sh', x) \<Longrightarrow>
    issuer_step env keys chain ahead lag (sh, A, G) (sh', A, add_quote x (tick now G))"
| i_hold: "clock G \<le> now + lag \<Longrightarrow> change_orders io (\<lambda>ord. Some (hold hash now ord, ())) sh = (sh', x) \<Longrightarrow>
    issuer_step env keys chain ahead lag (sh, A, G) (sh', A, tick now G)"
| i_look: "clock G \<le> now + lag \<Longrightarrow> change_orders io (\<lambda>ord. Some (before_claim hash sig now ord)) sh = (sh', x) \<Longrightarrow>
    issuer_step env keys chain ahead lag (sh, A, G) (sh', A, add_offer hash sig now x (tick now G))"
| i_pay: "(hash, sig, now, rs) \<in> offers G \<Longrightarrow> paid_order (chain sig) rs = Some r \<Longrightarrow> clock G \<le> now + lag \<Longrightarrow>
    block_time (chain sig) \<le> now + ahead \<Longrightarrow> claim_credit io undo_io acc_io rh hash r sig now sh = (sh', x) \<Longrightarrow>
    issuer_step env keys chain ahead lag (sh, A, G)
      (sh', account_credit (shop_accounts sh') hash (or_passes r) (was_credited x) A,
       add_credit \<lparr>cr_sig = sig, cr_hash = hash, cr_passes = or_passes r, cr_amount = or_amount_raw r, cr_at = now, cr_claimed = True\<rparr>
         (was_credited x) (tick now G))"
| i_hand: "clock G \<le> now + lag \<Longrightarrow> block_time (chain sig) \<le> now + ahead \<Longrightarrow>
    credit_record io amount_raw paid_at token sig now sh = (sh', x) \<Longrightarrow>
    issuer_step env keys chain ahead lag (sh, A, G)
      (sh', account_credit (shop_accounts sh') (cr_hash (hand_credit sig now x)) (cr_passes (hand_credit sig now x)) (is_ok x) A,
       add_credit (hand_credit sig now x) (is_ok x) (tick now G))"
| i_start: "issuer_step env keys chain ahead lag (sh, A, G)
      (sh\<lparr>shop_index := (case orders_file (shop_files sh) of Some ord \<Rightarrow> index_of ord | None \<Rightarrow> unread_index)\<rparr>, A, G)"

definition new_issuer :: issuer_history where
  "new_issuer = (\<lparr>shop_files = \<lparr>orders_file = Some no_orders, lapsed_file = []\<rparr>, shop_accounts = Some [], shop_index = index_of no_orders\<rparr>,
     no_accounts, \<lparr>clock = 0, quoted = {}, offers = {}, credits = [], given = (\<lambda>_. 0)\<rparr>)"

text \<open>What holds of the files: the orders, and what is kept of those that lapsed.\<close>

definition orders_good :: "int \<Rightarrow> (string \<times> nat \<times> nat) set \<Rightarrow> credit list \<Rightarrow> orders \<Rightarrow> bool" where
  "orders_good c q cs ord \<longleftrightarrow> orders_ok ord \<and> order_key ` set (os_orders ord) \<subseteq> q
     \<and> used.remembers c ord ((\<lambda>c. (cr_sig c, cr_at c)) ` set cs)"

definition files_good :: "int \<Rightarrow> (string \<times> nat \<times> nat) set \<Rightarrow> credit list \<Rightarrow> order_files \<Rightarrow> bool" where
  "files_good c q cs fs \<longleftrightarrow> (\<exists>ord. orders_file fs = Some ord \<and> orders_good c q cs ord) \<and> lapsed_key ` set (lapsed_file fs) \<subseteq> q"

lemma orders_good_on_disk [simp]: "orders_good c q cs (on_disk ord) = orders_good c q cs ord"
  by (simp add: orders_good_def orders_ok_lapsed used.remembers_def marked_at_def on_disk_def orders_ok_def)

lemma on_disk_empty: "os_lapsed (on_disk ord) = []" "on_disk (on_disk ord) = on_disk ord"
  by (simp_all add: on_disk_def)

lemma orders_good_later: "orders_good c q cs ord \<Longrightarrow> c \<le> c' \<Longrightarrow> q \<subseteq> q' \<Longrightarrow> orders_good c' q' cs ord"
  unfolding orders_good_def using used.remembers_later by blast

lemma orders_update_good_at:
  assumes "orders_update io f fs = (fs', x)" "files_good c q cs fs" "c \<le> c'" "q \<subseteq> q'"
    and f: "\<And>sv ord' ls' out. orders_file fs = Some sv \<Longrightarrow> orders_good c q cs (on_disk sv) \<Longrightarrow> lapsed_key ` set (lapsed_file fs) \<subseteq> q \<Longrightarrow>
      f (on_disk sv) (lapsed_file fs) = Some (ord', ls', out) \<Longrightarrow>
      (x = Some out \<longrightarrow> orders_good c' q' cs ord') \<and> lapsed_key ` set ls' \<subseteq> q' \<and> lapsed_key ` set (os_lapsed ord') \<subseteq> q'"
  shows "files_good c' q' cs fs'"
proof -
  from assms(2) obtain sv where sv: "orders_file fs = Some sv" "orders_good c q cs sv" "lapsed_key ` set (lapsed_file fs) \<subseteq> q"
    by (auto simp: files_good_def)
  have keep: "files_good c' q' cs fs" using assms(2-4) orders_good_later by (fastforce simp: files_good_def)
  show ?thesis
  proof (cases "oio_locked io \<and> f (on_disk sv) (lapsed_file fs) \<noteq> None")
    case False
    then have "fs' = fs"
      using assms(1) sv(1) by (cases "oio_locked io"; cases "f (on_disk sv) (lapsed_file fs)") (simp_all add: orders_update_def)
    with keep show ?thesis by simp
  next
    case True
    then obtain ord' ls' out where e: "f (on_disk sv) (lapsed_file fs) = Some (ord', ls', out)" by auto
    have g: "x = Some out \<Longrightarrow> orders_good c' q' cs ord'" "lapsed_key ` set ls' \<subseteq> q'" "lapsed_key ` set (os_lapsed ord') \<subseteq> q'"
      using f [OF sv(1) _ sv(3) e] sv(2) by simp_all
    have "orders_file fs' = Some sv \<or> (orders_file fs' = Some (on_disk ord') \<and> x = Some out)"
      "set (lapsed_file fs') \<subseteq> set ls' \<union> set (os_lapsed ord')"
      using assms(1) True sv(1) e
      by (auto simp: orders_update_def append_lapsed_def rewrite_lapsed_def Let_def split: if_splits option.splits prod.splits dest: in_set_takeD)
    then show ?thesis using g keep sv(1) by (auto simp: files_good_def image_subset_iff)
  qed
qed

lemma orders_update_good:
  assumes "orders_update io f fs = (fs', x)" "files_good c q cs fs" "c \<le> c'" "q \<subseteq> q'"
    and f: "\<And>ord ls ord' ls' out. orders_good c q cs ord \<Longrightarrow> os_lapsed ord = [] \<Longrightarrow> lapsed_key ` set ls \<subseteq> q \<Longrightarrow>
      f ord ls = Some (ord', ls', out) \<Longrightarrow> orders_good c' q' cs ord' \<and> lapsed_key ` set ls' \<subseteq> q' \<and> lapsed_key ` set (os_lapsed ord') \<subseteq> q'"
  shows "files_good c' q' cs fs'"
proof (rule orders_update_good_at [OF assms(1-4)])
  fix sv ord' ls' out
  assume "orders_good c q cs (on_disk sv)" "lapsed_key ` set (lapsed_file fs) \<subseteq> q" "f (on_disk sv) (lapsed_file fs) = Some (ord', ls', out)"
  from f [OF this(1) on_disk_empty(1) this(2,3)]
  show "(x = Some out \<longrightarrow> orders_good c' q' cs ord') \<and> lapsed_key ` set ls' \<subseteq> q' \<and> lapsed_key ` set (os_lapsed ord') \<subseteq> q'" by simp
qed

lemma lapsed_key_of [simp]: "lapsed_key (lapsed_of r) = order_key r"
  by (simp add: lapsed_key_def lapsed_of_def order_key_def)

lemma prune_lapsed: "set (os_lapsed (prune_orders now ord)) \<subseteq> set (os_lapsed ord) \<union> lapsed_of ` set (os_orders ord)"
  by (auto simp: prune_orders_def Let_def)

lemma prune_lapsed_keys:
  "lapsed_key ` set (os_lapsed ord) \<subseteq> q \<Longrightarrow> order_key ` set (os_orders ord) \<subseteq> q \<Longrightarrow> lapsed_key ` set (os_lapsed (prune_orders now ord)) \<subseteq> q"
  using prune_lapsed [of now ord] by (force simp: image_subset_iff)

lemma prune_good:
  assumes "orders_good c q cs ord" "c \<le> c'" "now \<le> c'"
  shows "orders_good c' q cs (prune_orders now ord)"
    and "os_lapsed ord = [] \<Longrightarrow> lapsed_key ` set (os_lapsed (prune_orders now ord)) \<subseteq> q"
proof -
  show "orders_good c' q cs (prune_orders now ord)"
    using assms orders_ok_prune used.remembers_prune by (auto simp: orders_good_def prune_sel)
  show "os_lapsed ord = [] \<Longrightarrow> lapsed_key ` set (os_lapsed (prune_orders now ord)) \<subseteq> q"
    using assms(1) by (intro prune_lapsed_keys) (simp_all add: orders_good_def)
qed

text \<open>Changes of single orders that keep their key, and leave the used transactions alone.\<close>

lemma good_same:
  assumes "orders_good c q cs ord" "orders_ok ord'" "order_key ` set (os_orders ord') \<subseteq> order_key ` set (os_orders ord)" "os_used ord' = os_used ord"
  shows "orders_good c q cs ord'"
  using assms by (auto simp: orders_good_def used.remembers_def marked_at_def)

lemma hold_keys: "map order_key (os_orders (hold hash now ord)) = map order_key (os_orders (prune_orders now ord))"
proof -
  let ?p = "\<lambda>r. open_at now r \<and> or_unclaimed r \<and> text_same (or_token_sha256 r) hash"
  have "list_all2 (\<lambda>r r'. order_key r = order_key r') rs (hold_loop ?p room rs)" for rs room
    by (rule list_all2_mono [OF hold_loop_each]) (auto simp: order_key_def)
  then show ?thesis unfolding hold_def Let_def by (simp add: list_all2_conv_all_nth list_eq_iff_nth_eq)
qed

lemma hold_sel: "os_used (hold hash now ord) = os_used (prune_orders now ord)" "os_lapsed (hold hash now ord) = os_lapsed (prune_orders now ord)"
  by (simp_all add: hold_def Let_def)

lemma hold_good:
  assumes "orders_good c q cs ord" "c \<le> c'" "now \<le> c'"
  shows "orders_good c' q cs (hold hash now ord)"
    and "os_lapsed ord = [] \<Longrightarrow> lapsed_key ` set (os_lapsed (hold hash now ord)) \<subseteq> q"
proof -
  have "order_key ` set (os_orders (hold hash now ord)) = order_key ` set (os_orders (prune_orders now ord))"
    using arg_cong [OF hold_keys, of set] by (simp add: image_image)
  moreover have "orders_ok (hold hash now ord)" using assms(1) by (simp add: orders_good_def orders_ok_hold)
  ultimately show "orders_good c' q cs (hold hash now ord)"
    by (intro good_same [OF prune_good(1) [OF assms]]) (simp_all add: hold_sel)
  show "os_lapsed ord = [] \<Longrightarrow> lapsed_key ` set (os_lapsed (hold hash now ord)) \<subseteq> q"
    using prune_good(2) [OF assms] by (simp add: hold_sel)
qed

lemma before_claim_good:
  assumes "orders_good c q cs ord" "c \<le> c'" "now \<le> c'" "os_lapsed ord = []" "before_claim hash sig now ord = (ord', x)"
  shows "orders_good c' q cs ord' \<and> lapsed_key ` set (os_lapsed ord') \<subseteq> q"
proof -
  let ?p = "prune_orders now ord" and ?h = "hold hash now (prune_orders now ord)"
  note p = prune_good [OF assms(1-3)]
  have h: "orders_good c' q cs ?h" by (rule hold_good(1) [OF p(1)]) (use assms(3) in simp_all)
  have hl: "lapsed_key ` set (os_lapsed ?h) \<subseteq> q"
    unfolding hold_sel by (rule prune_lapsed_keys) (use p assms(4) in \<open>simp_all add: orders_good_def\<close>)
  from before_claim_orders [of hash sig now ord] assms(5)
  consider "ord' = ?p" | P where "ord' = ?h\<lparr>os_orders := map (\<lambda>r. if P r then one_more_try r else r) (os_orders ?h)\<rparr>" by auto
  then show ?thesis
  proof cases
    case 2
    have "order_key ` set (os_orders ord') \<subseteq> order_key ` set (os_orders ?h)"
      using 2 by (auto simp: order_key_def one_more_try_def)
    moreover have "orders_ok ord'" using orders_ok_before_claim [of ord hash sig now] assms(1,5) by (simp add: orders_good_def)
    ultimately have "orders_good c' q cs ord'" by (intro good_same [OF h]) (simp_all add: 2)
    with 2 hl show ?thesis by simp
  qed (use p assms(4) in simp)
qed

lemma open_order_cases:
  assumes "open_order hash pack now decimals draws ord = Some (ord', x)"
  shows "(ord' = prune_orders now ord \<and> (\<exists>e. x = Err e))
    \<or> (\<exists>r. x = Ok r \<and> ord' = (prune_orders now ord)\<lparr>os_orders := os_orders (prune_orders now ord) @ [r]\<rparr> \<and> or_passes r = pk_passes pack)"
proof (cases "room_for (index_of ord) hash now")
  case (Inl f)
  from assms open_order_full [OF this] show ?thesis by auto
next
  case (Inr u)
  from assms obtain z :: "full + nat" where "(case z of
          Err full \<Rightarrow> (prune_orders now ord, Err full)
        | Ok amount \<Rightarrow>
            (let r = \<lparr>or_token_sha256 = hash, or_passes = pk_passes pack, or_amount_raw = amount, or_created = now,
               or_paid_sha256 = None, or_tries = 0, or_unclaimed = True\<rparr>
             in ((prune_orders now ord)\<lparr>os_orders := os_orders (prune_orders now ord) @ [r]\<rparr>, Ok r))) = (ord', x)"
    unfolding open_order_room [OF Inr [unfolded unit_eq [of u]]] map_option_eq_Some by blast
  then show ?thesis by (cases z) (auto simp: Let_def)
qed

lemma open_order_good:
  assumes "orders_good c q cs ord" "c \<le> c'" "now \<le> c'" "os_lapsed ord = []"
    and "open_order hash pack now decimals draws ord = Some (ord', x)"
  shows "orders_good c' (q \<union> (case x of Ok r \<Rightarrow> {order_key r} | Err _ \<Rightarrow> {})) cs ord'
      \<and> lapsed_key ` set (os_lapsed ord') \<subseteq> q \<and> (\<forall>r. x = Ok r \<longrightarrow> or_passes r = pk_passes pack)"
proof -
  let ?p = "prune_orders now ord"
  note p = prune_good [OF assms(1-3)]
  note open_order_cases [OF assms(5)]
  moreover have "orders_ok ord'" using orders_ok_open assms(1,5) by (auto simp: orders_good_def)
  ultimately show ?thesis
    using p assms(4) by (auto simp: orders_good_def used.remembers_def marked_at_def image_subset_iff)
qed

lemma orders_update_Some:
  assumes "orders_update io f fs = (fs', Some out)"
  obtains sv ord' ls' sv' where "orders_file fs = Some sv" "f (on_disk sv) (lapsed_file fs) = Some (ord', ls', out)"
    "orders_file fs' = Some sv'" "on_disk sv' = on_disk ord'"
proof -
  obtain sv where sv: "orders_file fs = Some sv" using assms by (cases "orders_file fs") (simp_all add: orders_update_def split: if_splits)
  obtain t where t: "f (on_disk sv) (lapsed_file fs) = Some t"
    using assms sv by (cases "f (on_disk sv) (lapsed_file fs)") (simp_all add: orders_update_def split: if_splits)
  obtain ord' ls' out' where t': "t = (ord', ls', out')" by (cases t)
  have "out' = out \<and> (\<exists>sv'. orders_file fs' = Some sv' \<and> on_disk sv' = on_disk ord')"
    using assms by (auto simp: orders_update_def sv t t' Let_def append_lapsed_def rewrite_lapsed_def on_disk_empty
        split: if_splits option.splits prod.splits)
  with that sv t t' show ?thesis by blast
qed

lemma good_content: "on_disk ord' = on_disk ord \<Longrightarrow> orders_good c q cs ord' = orders_good c q cs ord"
  by (metis orders_good_on_disk)

lemma change_orders_cases:
  assumes "change_orders io f sh = (sh', x)"
  obtains fs y where "orders_update io (\<lambda>ord ls. map_option (\<lambda>(ord', out). (ord', ls, (out, index_of ord'))) (f ord)) (shop_files sh) = (fs, y)"
    "shop_files sh' = fs" "shop_accounts sh' = shop_accounts sh" "x = map_option fst y"
proof -
  let ?u = "orders_update io (\<lambda>ord ls. map_option (\<lambda>(ord', out). (ord', ls, (out, index_of ord'))) (f ord)) (shop_files sh)"
  obtain fs y where u: "?u = (fs, y)" by (cases ?u)
  then show ?thesis using assms that by (cases y) (auto simp: change_orders_def)
qed

lemma change_orders_good:
  assumes "change_orders io f sh = (sh', x)" "files_good c q cs (shop_files sh)" "c \<le> c'" "q \<subseteq> q'"
    and f: "\<And>ord ord' out. orders_good c q cs ord \<Longrightarrow> os_lapsed ord = [] \<Longrightarrow> f ord = Some (ord', out) \<Longrightarrow>
      (x = Some out \<longrightarrow> orders_good c' q' cs ord') \<and> lapsed_key ` set (os_lapsed ord') \<subseteq> q'"
  shows "files_good c' q' cs (shop_files sh')"
proof -
  obtain fs y where u: "orders_update io (\<lambda>ord ls. map_option (\<lambda>(ord', out). (ord', ls, (out, index_of ord'))) (f ord)) (shop_files sh) = (fs, y)"
    "shop_files sh' = fs" "x = map_option fst y" using assms(1) by (elim change_orders_cases)
  show ?thesis unfolding u(2)
  proof (rule orders_update_good_at [OF u(1) assms(2-4)])
    fix sv ord' ls' out
    assume g: "orders_good c q cs (on_disk sv)" and l: "lapsed_key ` set (lapsed_file (shop_files sh)) \<subseteq> q"
      and "map_option (\<lambda>(ord', out). (ord', lapsed_file (shop_files sh), (out, index_of ord'))) (f (on_disk sv)) = Some (ord', ls', out)"
    then have o': "f (on_disk sv) = Some (ord', fst out)" "ls' = lapsed_file (shop_files sh)" by auto
    have "lapsed_key ` set ls' \<subseteq> q'" using l assms(4) o'(2) by (simp add: subset_trans [of _ q q'])
    with f [OF g on_disk_empty(1) o'(1)] u(3)
    show "(y = Some out \<longrightarrow> orders_good c' q' cs ord') \<and> lapsed_key ` set ls' \<subseteq> q' \<and> lapsed_key ` set (os_lapsed ord') \<subseteq> q'"
      by (cases out) simp
  qed
qed

lemma change_orders_out:
  assumes "change_orders io f sh = (sh', Some out)"
  obtains sv ord' where "orders_file (shop_files sh) = Some sv" "f (on_disk sv) = Some (ord', out)"
proof -
  obtain fs y where u: "orders_update io (\<lambda>ord ls. map_option (\<lambda>(ord', out). (ord', ls, (out, index_of ord'))) (f ord)) (shop_files sh) = (fs, y)"
    "Some out = map_option fst y" using assms by (elim change_orders_cases)
  then obtain ix where "y = Some (out, ix)" by (cases y) auto
  with u(1) have "orders_update io (\<lambda>ord ls. map_option (\<lambda>(ord', out). (ord', ls, (out, index_of ord'))) (f ord)) (shop_files sh) = (fs, Some (out, ix))"
    by simp
  then obtain sv ord' ls' where "orders_file (shop_files sh) = Some sv"
    "map_option (\<lambda>(ord', out). (ord', lapsed_file (shop_files sh), (out, index_of ord'))) (f (on_disk sv)) = Some (ord', ls', (out, ix))"
    by (rule orders_update_Some)
  then show ?thesis using that by auto
qed

lemma before_claim_offer:
  assumes "before_claim hash sig now ord = (ord', Ok (ClaimOpen rs))" "r \<in> set rs"
  shows "r \<in> set (os_orders ord')" "or_token_sha256 r = hash" "now < or_created r + ORDER_LIFETIME"
proof -
  have "r \<in> set (os_orders ord') \<and> or_token_sha256 r = hash \<and> open_at now r"
    using assms by (auto simp: before_claim_def Let_def split: option.splits if_splits)
  then show "r \<in> set (os_orders ord')" "or_token_sha256 r = hash" "now < or_created r + ORDER_LIFETIME"
    by (auto simp: open_at_def lapses_at_def UNCLAIMED_LIFETIME_def ORDER_LIFETIME_def split: if_splits)
qed

lemma mark_paid_good:
  assumes "orders_good c q cs ord" "mark_paid hash amount sig now ord = (ord', x)"
  shows "orders_good c q cs ord'" "os_lapsed ord' = os_lapsed ord" "is_ok x \<Longrightarrow> marked_at ord' sig now \<and> \<not> is_used sig ord"
proof -
  have "order_key ` set (os_orders ord') = order_key ` set (os_orders ord)"
    using assms(2) by (cases x) (auto simp: order_key_def dest: mark_paid_Err elim!: mark_paid_Ok)
  moreover have "used.remembers c ord' ((\<lambda>c. (cr_sig c, cr_at c)) ` set cs)"
    using used.remembers_mark [of c ord _ hash amount sig now] assms by (simp add: orders_good_def)
  ultimately show "orders_good c q cs ord'" using orders_ok_mark_paid assms by (auto simp: orders_good_def)
  show "os_lapsed ord' = os_lapsed ord" using assms(2) by (auto simp: mark_paid_def Let_def split: if_splits)
  show "is_ok x \<Longrightarrow> marked_at ord' sig now \<and> \<not> is_used sig ord"
    using assms(2) by (cases x) (auto simp: marked_at_def elim!: mark_paid_Ok)
qed

lemma unmark_good:
  assumes "orders_good c q cs ord" "mark_paid hash amount sig now ord = (ord', Ok u)"
  shows "orders_good c q cs (unmark hash amount sig ord')"
proof -
  have "\<forall>at. \<not> marked_at ord sig at" using mark_paid_good(3) [OF assms] by (simp add: is_used_marked)
  with used.remembers_unmark [of c ord _ sig hash amount now] assms
  have "used.remembers c (unmark hash amount sig ord') ((\<lambda>c. (cr_sig c, cr_at c)) ` set cs)" by (simp add: orders_good_def)
  moreover have "order_key ` set (os_orders (unmark hash amount sig ord')) \<subseteq> order_key ` set (os_orders ord')"
    by (auto simp: unmark_def order_key_def dest!: set_modify_first)
  ultimately show ?thesis
    using orders_ok_unmark [OF _ assms(2)] mark_paid_good(1) [OF assms] assms(1) by (auto simp: orders_good_def)
qed

abbreviation mark_change :: "string \<Rightarrow> nat \<Rightarrow> string \<Rightarrow> int \<Rightarrow> orders \<Rightarrow> lapsed list
    \<Rightarrow> (orders \<times> lapsed list \<times> (not_claimable + unit) \<times> index) option" where
  "mark_change hash amount sig now ord ls \<equiv> (case mark_paid hash amount sig now ord of (ord', m) \<Rightarrow> Some (ord', ls, (m, index_of ord')))"

lemma mark_update_good:
  assumes "orders_update io (mark_change hash amount sig now) fs = (fs', y)" "files_good c q cs fs"
  shows "files_good c q cs fs'"
proof (rule orders_update_good [OF assms order_refl subset_refl])
  fix ord ls ord' ls' out
  assume g: "orders_good c q cs ord" "os_lapsed ord = []" "lapsed_key ` set ls \<subseteq> q"
    and e: "mark_change hash amount sig now ord ls = Some (ord', ls', out)"
  obtain o2 m where m: "mark_paid hash amount sig now ord = (o2, m)" by (cases "mark_paid hash amount sig now ord")
  with e have "ord' = o2" "ls' = ls" by simp_all
  with mark_paid_good(1,2) [OF g(1) m] g(2,3)
  show "orders_good c q cs ord' \<and> lapsed_key ` set ls' \<subseteq> q \<and> lapsed_key ` set (os_lapsed ord') \<subseteq> q" by simp
qed

lemma files_good_credit:
  assumes "files_good c q cs fs" "orders_file fs = Some ord" "marked_at ord (cr_sig new) (cr_at new)"
  shows "files_good c q (new # cs) fs"
  using assms by (auto simp: files_good_def orders_good_def used.remembers_def)

lemma files_good_later: "files_good c q cs fs \<Longrightarrow> c \<le> c' \<Longrightarrow> files_good c' q cs fs"
  using orders_good_later by (fastforce simp: files_good_def)

lemma marked_content: "on_disk ord' = on_disk ord \<Longrightarrow> marked_at ord' sig at = marked_at ord sig at"
  by (metis (no_types, lifting) marked_at_def orders.ext_inject orders.surjective orders.update_convs(3,5) on_disk_def)

lemma unmark_update_good:
  assumes m: "orders_update io (mark_change hash amount sig now) fs = (fs1, Some (Ok v, ix))"
    and g: "files_good c q cs fs" and u: "orders_update io2 (\<lambda>ord ls. Some (unmark hash amount sig ord, ls, ())) fs1 = (fs2, y)"
  shows "files_good c q cs fs2"
proof -
  obtain sv ord' ls' sv' where sv: "orders_file fs = Some sv" "mark_change hash amount sig now (on_disk sv) (lapsed_file fs) = Some (ord', ls', (Ok v, ix))"
    "orders_file fs1 = Some sv'" "on_disk sv' = on_disk ord'"
    using m by (rule orders_update_Some)
  then have mp: "mark_paid hash amount sig now (on_disk sv) = (ord', Ok v)" by (simp split: prod.splits)
  have "orders_good c q cs (on_disk sv)" using g sv(1) by (auto simp: files_good_def)
  from unmark_good [OF this mp] have good: "orders_good c q cs (unmark hash amount sig ord')" .
  have g1: "files_good c q cs fs1" by (rule mark_update_good [OF m g])
  have same: "os_orders sv' = os_orders ord' \<and> os_used sv' = os_used ord'"
    using sv(4) by (metis (no_types, lifting) orders.select_convs(1,2) orders.surjective orders.update_convs(3,5) on_disk_def)
  have "orders_good c q cs (unmark hash amount sig (on_disk sv'))"
    using good same by (simp add: orders_good_def orders_ok_def used.remembers_def marked_at_def unmark_def on_disk_def)
  moreover have "os_lapsed (unmark hash amount sig (on_disk sv')) = []" by (simp add: unmark_def on_disk_def)
  ultimately have at: "orders_good c q cs o2 \<and> lapsed_key ` set l2 \<subseteq> q \<and> lapsed_key ` set (os_lapsed o2) \<subseteq> q"
    if "(\<lambda>ord ls. Some (unmark hash amount sig ord, ls, ())) (on_disk sv') (lapsed_file fs1) = Some (o2, l2, out)" for o2 l2 out
    using that g1 by (auto simp: files_good_def)
  show ?thesis by (rule orders_update_good_at [OF u g1 order_refl subset_refl]) (use at sv(3) in simp)
qed

lemma claim_credit_effect:
  assumes "claim_credit io undo_io acc_io rh hash r sig now sh = (sh', x)" "files_good c q cs (shop_files sh)"
    and new: "new = \<lparr>cr_sig = sig, cr_hash = hash, cr_passes = or_passes r, cr_amount = or_amount_raw r, cr_at = now, cr_claimed = True\<rparr>"
  shows "files_good c q (if was_credited x then new # cs else cs) (shop_files sh')"
    and "was_credited x \<Longrightarrow> \<exists>ord. orders_file (shop_files sh) = Some ord \<and> \<not> is_used sig ord"
    and "(shop_accounts sh' = shop_accounts sh \<and> \<not> was_credited x) \<or>
      (\<exists>y. accounts_update (fst acc_io) (snd acc_io) (accounts_credit rh hash (or_passes r)) (shop_accounts sh) = (shop_accounts sh', y)
        \<and> (was_credited x \<longleftrightarrow> y \<noteq> None \<and> is_ok (the y)))"
proof -
  let ?u = "orders_update io (mark_change hash (or_amount_raw r) sig now) (shop_files sh)"
  let ?a = "accounts_update (fst acc_io) (snd acc_io) (accounts_credit rh hash (or_passes r)) (shop_accounts sh)"
  obtain fs y where u: "?u = (fs, y)" by (cases ?u)
  obtain fl z where a: "?a = (fl, z)" by (cases ?a)
  have g: "files_good c q cs fs" by (rule mark_update_good [OF u assms(2)])
  consider (none) "y = None" | (err) e ix where "y = Some (Err e, ix)" | (ok) v ix where "y = Some (Ok v, ix)"
  proof (cases y)
    case (Some w)
    then show thesis using that(2,3) by (cases "fst w"; cases w) simp_all
  qed (rule that(1))
  then have "files_good c q (if was_credited x then new # cs else cs) (shop_files sh')
      \<and> (was_credited x \<longrightarrow> (\<exists>ord. orders_file (shop_files sh) = Some ord \<and> \<not> is_used sig ord))
      \<and> ((shop_accounts sh' = shop_accounts sh \<and> \<not> was_credited x) \<or> (shop_accounts sh' = fl \<and> (was_credited x \<longleftrightarrow> z \<noteq> None \<and> is_ok (the z))))"
  proof cases
    case none
    with assms(1) u g show ?thesis by (auto simp: claim_credit_def was_credited_def)
  next
    case err
    with assms(1) u g show ?thesis by (auto simp: claim_credit_def was_credited_def)
  next
    case ok
    obtain sv ord' ls' sv' where sv: "orders_file (shop_files sh) = Some sv"
      "mark_change hash (or_amount_raw r) sig now (on_disk sv) (lapsed_file (shop_files sh)) = Some (ord', ls', (Ok v, ix))"
      "orders_file fs = Some sv'" "on_disk sv' = on_disk ord'"
      using u [unfolded ok] by (rule orders_update_Some)
    then have mp: "mark_paid hash (or_amount_raw r) sig now (on_disk sv) = (ord', Ok v)" by (simp split: prod.splits)
    have gs: "orders_good c q cs (on_disk sv)" using assms(2) sv(1) by (auto simp: files_good_def)
    have m: "marked_at sv' sig now" "\<not> is_used sig sv"
      using mark_paid_good(3) [OF gs mp] marked_content [OF sv(4)] by (simp_all add: is_used_def on_disk_def)
    show ?thesis
    proof (cases "z \<noteq> None \<and> is_ok (the z)")
      case True
      then obtain b where "z = Some (Ok b)" by (auto simp: is_ok_iff)
      then have "sh' = sh\<lparr>shop_files := fs, shop_accounts := fl, shop_index := ix\<rparr>" "x = Some (Ok b)"
        using assms(1) u ok a by (simp_all add: claim_credit_def)
      with files_good_credit [OF g sv(3), of new] m sv(1) True show ?thesis by (simp add: was_credited_def new)
    next
      case False
      obtain fs2 y2 where w: "orders_update undo_io (\<lambda>ord ls. Some (unmark hash (or_amount_raw r) sig ord, ls, ())) fs = (fs2, y2)"
        by (cases "orders_update undo_io (\<lambda>ord ls. Some (unmark hash (or_amount_raw r) sig ord, ls, ())) fs")
      have "sh' = sh\<lparr>shop_files := fs2, shop_accounts := fl\<rparr> \<and> x = None"
        using assms(1) u ok a w False by (auto simp: claim_credit_def split: option.splits sum.splits)
      with unmark_update_good [OF u [unfolded ok] assms(2) w] False show ?thesis by (simp add: was_credited_def)
    qed
  qed
  then show "files_good c q (if was_credited x then new # cs else cs) (shop_files sh')"
    "was_credited x \<Longrightarrow> \<exists>ord. orders_file (shop_files sh) = Some ord \<and> \<not> is_used sig ord"
    "(shop_accounts sh' = shop_accounts sh \<and> \<not> was_credited x) \<or>
      (\<exists>y. accounts_update (fst acc_io) (snd acc_io) (accounts_credit rh hash (or_passes r)) (shop_accounts sh) = (shop_accounts sh', y)
        \<and> (was_credited x \<longleftrightarrow> y \<noteq> None \<and> is_ok (the y)))"
    using a by auto
qed

section \<open>Credits by hand\<close>

lemma fitting_subset: "set (fitting amount paid_at token now ls) \<subseteq> {l\<in>set ls. la_amount_raw l = amount}"
proof -
  let ?f = "\<lambda>l fits. if la_amount_raw l = amount \<and> now < la_lapsed l + LAPSED_KEPT \<and> could_be_paid_at paid_at l
         \<and> (case token of None \<Rightarrow> True | Some t \<Rightarrow> text_same (la_token_sha256 l) t) \<and> l \<notin> set fits then l # fits else fits"
  have "set (fold ?f ls acc) \<subseteq> set acc \<union> {l\<in>set ls. la_amount_raw l = amount}" for acc
  proof (induction ls arbitrary: acc)
    case (Cons l ls)
    have "set (?f l acc) \<subseteq> set acc \<union> {k\<in>{l}. la_amount_raw k = amount}" by auto
    with Cons.IH [of "?f l acc"] show ?case by fastforce
  qed simp
  from this [of "[]"] show ?thesis by (simp add: fitting_def)
qed

lemma read_lapsed_subset: "set (read_lapsed a ls) \<subseteq> set ls"
proof -
  let ?f = "\<lambda>l (out, seen). let k = (la_token_sha256 l, la_amount_raw l, la_created l)
       in if (case a of None \<Rightarrow> True | Some a \<Rightarrow> a = la_amount_raw l)
          then (if k \<in> set seen then (out, seen) else (l # out, k # seen)) else (out, seen)"
  have "set (fst (fold ?f ls acc)) \<subseteq> set (fst acc) \<union> set ls" for acc
  proof (induction ls arbitrary: acc)
    case (Cons l ls)
    have "set (fst (?f l acc)) \<subseteq> insert l (set (fst acc))" by (cases acc) (auto simp: Let_def)
    with Cons.IH [of "?f l acc"] show ?case by fastforce
  qed simp
  from this [of "([], [])"] show ?thesis by (simp add: read_lapsed_def)
qed

lemma take_lapsed_cases:
  assumes "take_lapsed kept amount paid_at token sig now ord = (ord', x)"
  shows "(ord' = prune_orders now ord \<and> (\<exists>e. x = Err e)) \<or>
    (\<exists>l. x = Ok (l, l \<in> set kept) \<and> l \<in> set kept \<union> set (os_lapsed (prune_orders now ord)) \<and> la_amount_raw l = amount
      \<and> \<not> is_used sig (prune_orders now ord)
      \<and> ord' = (prune_orders now ord)\<lparr>os_used := os_used (prune_orders now ord) @ [\<lparr>us_signature_sha256 = sig, us_at = now\<rparr>],
          os_lapsed := filter (\<lambda>r. r \<noteq> l) (os_lapsed (prune_orders now ord))\<rparr>)"
proof (cases "is_used sig (prune_orders now ord)")
  case True
  with assms show ?thesis by (auto simp: take_lapsed_def Let_def)
next
  case False
  let ?fits = "fitting amount paid_at token now (kept @ os_lapsed (prune_orders now ord))"
  consider (no) "?fits = []" | (one) l where "?fits = [l]" | (several) a b fs where "?fits = a # b # fs"
    by (metis neq_Nil_conv)
  then show ?thesis
    using assms False fitting_subset [of amount paid_at token now "kept @ os_lapsed (prune_orders now ord)"]
    by cases (auto simp: take_lapsed_def Let_def)
qed

definition took :: "string \<Rightarrow> int \<Rightarrow> orders \<Rightarrow> orders \<Rightarrow> bool" where
  "took sig now pr ord \<longleftrightarrow> os_orders ord = os_orders pr \<and> os_used ord = os_used pr @ [\<lparr>us_signature_sha256 = sig, us_at = now\<rparr>]
     \<and> \<not> is_used sig pr"

lemma took_good:
  assumes "took sig now pr ord" "orders_good c q cs pr"
  shows "orders_good c q cs ord" "marked_at ord sig now" "orders_good c q cs (put_back l sig ord)"
proof -
  show "orders_good c q cs ord" "marked_at ord sig now"
    using assms by (auto simp: took_def orders_good_def orders_ok_def used.remembers_def marked_at_def)
  have "os_used (put_back l sig ord) = os_used pr"
    using assms(1) by (auto simp: took_def put_back_def is_used_def filter_id_conv)
  moreover have "os_orders (put_back l sig ord) = os_orders pr" using assms(1) by (simp add: took_def put_back_def)
  ultimately show "orders_good c q cs (put_back l sig ord)"
    using assms(2) by (simp add: orders_good_def orders_ok_def used.remembers_def marked_at_def)
qed

lemma take_for_credit_good:
  assumes "orders_good c q cs ord" "c \<le> c'" "now \<le> c'" "os_lapsed ord = []" "lapsed_key ` set ls \<subseteq> q"
    and "take_for_credit io amount paid_at token sig now ord ls = Some (ord', ls', y)"
  shows "orders_good c' q cs ord' \<and> lapsed_key ` set ls' \<subseteq> q \<and> lapsed_key ` set (os_lapsed ord') \<subseteq> q"
    and "y = Ok l \<Longrightarrow> took sig now (prune_orders now ord) ord' \<and> lapsed_key l \<in> q \<and> la_amount_raw l = amount"
proof -
  let ?pr = "prune_orders now ord" and ?kept = "read_lapsed (Some amount) ls"
  note p = prune_good(1) [OF assms(1-3)] and pl = prune_good(2) [OF assms(1-4)]
  obtain o2 x where t: "take_lapsed ?kept amount paid_at token sig now ord = (o2, x)" by (cases "take_lapsed ?kept amount paid_at token sig now ord")
  have all: "(orders_good c' q cs ord' \<and> lapsed_key ` set ls' \<subseteq> q \<and> lapsed_key ` set (os_lapsed ord') \<subseteq> q)
      \<and> (y = Ok l \<longrightarrow> took sig now ?pr ord' \<and> lapsed_key l \<in> q \<and> la_amount_raw l = amount)"
    using take_lapsed_cases [OF t]
  proof
    assume "o2 = ?pr \<and> (\<exists>e. x = Err e)"
    with assms(5,6) t p pl show ?thesis by (auto simp: take_for_credit_def)
  next
    assume "\<exists>l. x = Ok (l, l \<in> set ?kept) \<and> l \<in> set ?kept \<union> set (os_lapsed ?pr) \<and> la_amount_raw l = amount \<and> \<not> is_used sig ?pr
        \<and> o2 = ?pr\<lparr>os_used := os_used ?pr @ [\<lparr>us_signature_sha256 = sig, us_at = now\<rparr>], os_lapsed := filter (\<lambda>r. r \<noteq> l) (os_lapsed ?pr)\<rparr>"
    then obtain k where k: "x = Ok (k, k \<in> set ?kept)" "k \<in> set ?kept \<union> set (os_lapsed ?pr)" "la_amount_raw k = amount" "\<not> is_used sig ?pr"
      "o2 = ?pr\<lparr>os_used := os_used ?pr @ [\<lparr>us_signature_sha256 = sig, us_at = now\<rparr>], os_lapsed := filter (\<lambda>r. r \<noteq> k) (os_lapsed ?pr)\<rparr>" by blast
    have tk: "took sig now ?pr o2" by (simp add: took_def k(4,5))
    have kq: "lapsed_key k \<in> q" using k(2) pl assms(5) read_lapsed_subset [of "Some amount" ls] by (auto simp: image_subset_iff)
    have lq: "lapsed_key ` set (os_lapsed o2) \<subseteq> q" "lapsed_key ` set (filter (\<lambda>r. r \<noteq> k) ls) \<subseteq> q"
      using pl assms(5) by (auto simp: k(5) image_subset_iff)
    have "os_lapsed (put_back None sig o2) = os_lapsed o2" by (simp add: put_back_def)
    then show ?thesis
      using assms(5,6) t k(1,3) tk kq lq took_good [OF tk p]
      by (auto simp: take_for_credit_def rewrite_lapsed_def split: if_splits)
  qed
  then show "orders_good c' q cs ord' \<and> lapsed_key ` set ls' \<subseteq> q \<and> lapsed_key ` set (os_lapsed ord') \<subseteq> q"
    "y = Ok l \<Longrightarrow> took sig now (prune_orders now ord) ord' \<and> lapsed_key l \<in> q \<and> la_amount_raw l = amount" by blast+
qed

lemma took_content: "took sig now pr ord \<Longrightarrow> on_disk ord' = on_disk ord \<Longrightarrow> took sig now pr ord'"
  by (metis (no_types, lifting) orders.select_convs(1,2) orders.surjective orders.update_convs(3,5) on_disk_def took_def)

lemma credit_record_effect:
  assumes "credit_record io amount paid_at token sig now sh = (sh', x)" "files_good c q cs (shop_files sh)" "c \<le> c'" "now \<le> c'"
  shows "files_good c' q (if is_ok x then hand_credit sig now x # cs else cs) (shop_files sh')"
    and "x = Ok (l, b) \<Longrightarrow> lapsed_key l \<in> q \<and> la_amount_raw l = amount"
    and "(shop_accounts sh' = shop_accounts sh \<and> \<not> is_ok x) \<or>
      (\<exists>l y. accounts_update (fst (hio_accounts io)) (snd (hio_accounts io)) (accounts_credit (hio_random io) (la_token_sha256 l) (la_passes l)) (shop_accounts sh)
        = (shop_accounts sh', y) \<and> (is_ok x \<longleftrightarrow> y \<noteq> None \<and> is_ok (the y)) \<and> lapsed_key l \<in> q \<and> (\<forall>k b. x = Ok (k, b) \<longrightarrow> k = l))"
proof -
  let ?f = "take_for_credit io amount paid_at token sig now"
  obtain fs y where u: "orders_update (hio_take io) ?f (shop_files sh) = (fs, y)" by (cases "orders_update (hio_take io) ?f (shop_files sh)")
  have g: "files_good c' q cs fs"
    by (rule orders_update_good [OF u assms(2,3) subset_refl], rule take_for_credit_good(1) [OF _ assms(3,4)])
  consider (none) "y = None" | (err) e where "y = Some (Err e)" | (ok) k where "y = Some (Ok k)"
  proof (cases y)
    case (Some w)
    then show thesis using that(2,3) by (cases w) simp_all
  qed (rule that(1))
  then have "files_good c' q (if is_ok x then hand_credit sig now x # cs else cs) (shop_files sh')
      \<and> (x = Ok (l, b) \<longrightarrow> lapsed_key l \<in> q \<and> la_amount_raw l = amount)
      \<and> ((shop_accounts sh' = shop_accounts sh \<and> \<not> is_ok x) \<or>
      (\<exists>l y. accounts_update (fst (hio_accounts io)) (snd (hio_accounts io)) (accounts_credit (hio_random io) (la_token_sha256 l) (la_passes l)) (shop_accounts sh)
        = (shop_accounts sh', y) \<and> (is_ok x \<longleftrightarrow> y \<noteq> None \<and> is_ok (the y)) \<and> lapsed_key l \<in> q \<and> (\<forall>k b. x = Ok (k, b) \<longrightarrow> k = l)))"
  proof cases
    case none
    then have "sh' = sh\<lparr>shop_files := fs\<rparr>" "x = Err OrdersNotWritten" using assms(1) u by (simp_all add: credit_record_def)
    with g show ?thesis by simp
  next
    case err
    then have "sh' = sh\<lparr>shop_files := fs\<rparr>" "x = Err e" using assms(1) u by (simp_all add: credit_record_def)
    with g show ?thesis by simp
  next
    case ok
    obtain sv ord' ls' sv' where sv: "orders_file (shop_files sh) = Some sv" "?f (on_disk sv) (lapsed_file (shop_files sh)) = Some (ord', ls', Ok k)"
      "orders_file fs = Some sv'" "on_disk sv' = on_disk ord'"
      using u [unfolded ok] by (rule orders_update_Some)
    have gs: "orders_good c q cs (on_disk sv)" "lapsed_key ` set (lapsed_file (shop_files sh)) \<subseteq> q"
      using assms(2) sv(1) by (auto simp: files_good_def)
    have tk: "took sig now (prune_orders now (on_disk sv)) ord'" "lapsed_key k \<in> q" "la_amount_raw k = amount"
      using take_for_credit_good(2) [OF gs(1) assms(3,4) on_disk_empty(1) gs(2) sv(2) refl] by auto
    note pr = prune_good(1) [OF gs(1) assms(3,4)]
    let ?a = "accounts_update (fst (hio_accounts io)) (snd (hio_accounts io)) (accounts_credit (hio_random io) (la_token_sha256 k) (la_passes k)) (shop_accounts sh)"
    obtain fl z where a: "?a = (fl, z)" by (cases ?a)
    show ?thesis
    proof (cases "z \<noteq> None \<and> is_ok (the z)")
      case True
      then obtain b' where z: "z = Some (Ok b')" by (auto simp: is_ok_iff)
      have e: "sh' = sh\<lparr>shop_files := fs, shop_accounts := fl\<rparr>" "x = Ok (k, b')"
        using assms(1) u ok a z by (simp_all add: credit_record_def)
      have "marked_at sv' sig now" using took_good(2) [OF tk(1) pr] marked_content [OF sv(4)] by simp
      then have "files_good c' q (hand_credit sig now x # cs) fs"
        by (intro files_good_credit [OF g sv(3)]) (simp add: hand_credit_def e(2))
      with e a z tk(2,3) show ?thesis by auto
    next
      case False
      obtain fs2 y2 where w: "orders_update (hio_put_back io) (\<lambda>ord ls. Some (put_back (Some k) sig ord, ls, ())) fs = (fs2, y2)"
        by (cases "orders_update (hio_put_back io) (\<lambda>ord ls. Some (put_back (Some k) sig ord, ls, ())) fs")
      have e: "sh' = sh\<lparr>shop_files := fs2, shop_accounts := fl\<rparr>" "\<not> is_ok x"
        using assms(1) u ok a w False by (auto simp: credit_record_def split: option.splits sum.splits)
      have "took sig now (prune_orders now (on_disk sv)) (on_disk sv')" using took_content [OF tk(1)] sv(4) by (simp add: on_disk_empty)
      from took_good(3) [OF this pr] have "orders_good c' q cs (put_back (Some k) sig (on_disk sv'))" .
      then have "files_good c' q cs fs2"
        by (intro orders_update_good_at [OF w g order_refl subset_refl]) (use sv(3) tk(2) in \<open>auto simp: put_back_def on_disk_def\<close>)
      with e a tk(2) False show ?thesis by (auto simp: is_ok_iff)
    qed
  qed
  then show "files_good c' q (if is_ok x then hand_credit sig now x # cs else cs) (shop_files sh')"
    "x = Ok (l, b) \<Longrightarrow> lapsed_key l \<in> q \<and> la_amount_raw l = amount"
    "(shop_accounts sh' = shop_accounts sh \<and> \<not> is_ok x) \<or>
      (\<exists>l y. accounts_update (fst (hio_accounts io)) (snd (hio_accounts io)) (accounts_credit (hio_random io) (la_token_sha256 l) (la_passes l)) (shop_accounts sh)
        = (shop_accounts sh', y) \<and> (is_ok x \<longleftrightarrow> y \<noteq> None \<and> is_ok (the y)) \<and> lapsed_key l \<in> q \<and> (\<forall>k b. x = Ok (k, b) \<longrightarrow> k = l))"
    by blast+
qed

section \<open>The invariant of the issuer\<close>

fun claims_fresh :: "credit list \<Rightarrow> bool" where
  "claims_fresh [] = True"
| "claims_fresh (c # cs) = ((cr_claimed c \<longrightarrow> cr_sig c \<notin> cr_sig ` set cs) \<and> claims_fresh cs)"

definition bought :: "string \<Rightarrow> credit list \<Rightarrow> nat" where
  "bought h cs = sum_list (map cr_passes (filter (\<lambda>c. cr_hash c = h) cs))"

definition credit_ok :: "(string \<Rightarrow> payment) \<Rightarrow> int \<Rightarrow> (string \<times> nat \<times> nat) set \<Rightarrow> credit \<Rightarrow> bool" where
  "credit_ok chain ahead q c \<longleftrightarrow> block_time (chain (cr_sig c)) \<le> cr_at c + ahead \<and> (cr_hash c, cr_passes c, cr_amount c) \<in> q
     \<and> (cr_claimed c \<longrightarrow> paid_raw (chain (cr_sig c)) = cr_amount c)"

definition offer_ok :: "(string \<times> nat \<times> nat) set \<Rightarrow> string \<times> string \<times> int \<times> order list \<Rightarrow> bool" where
  "offer_ok q = (\<lambda>(hash, sig, now, rs). \<forall>r\<in>set rs. order_key r \<in> q \<and> or_token_sha256 r = hash \<and> now < or_created r + ORDER_LIFETIME)"

definition ledger_ok :: "(string \<Rightarrow> payment) \<Rightarrow> int \<Rightarrow> ledger \<Rightarrow> bool" where
  "ledger_ok chain ahead G \<longleftrightarrow> (\<forall>k\<in>offers G. offer_ok (quoted G) k) \<and> (\<forall>c\<in>set (credits G). credit_ok chain ahead (quoted G) c)
     \<and> claims_fresh (credits G) \<and> (\<forall>(h, n, a)\<in>quoted G. n \<le> U32_MAX)"

definition issuer_inv :: "'a pass_env_scheme \<Rightarrow> (string \<Rightarrow> payment) \<Rightarrow> int \<Rightarrow> issuer_history \<Rightarrow> bool" where
  "issuer_inv env chain ahead = (\<lambda>(sh, A, G). book A = shop_accounts sh \<and> files_good (clock G) (quoted G) (credits G) (shop_files sh)
     \<and> ledger_ok chain ahead G \<and> accounts_inv env A \<and> (\<forall>h. credited A h = given G h + bought h (credits G)))"

lemma tick_sel [simp]: "clock (tick now G) = max (clock G) now" "quoted (tick now G) = quoted G" "offers (tick now G) = offers G"
  "credits (tick now G) = credits G" "given (tick now G) = given G" "ledger_ok chain ahead (tick now G) = ledger_ok chain ahead G"
  by (simp_all add: tick_def ledger_ok_def)

lemma credited_grows: "accounts_step env keys A A' \<Longrightarrow> credited A h \<le> credited A' h"
proof (induction rule: accounts_step.induct)
  case (a_answer u H req i lp day locked saved fl ans)
  then show ?case by (simp add: answered_def Let_def split: issue_answer.splits)
qed (simp_all add: credits_added_credited(1) plus_at_def)

lemma credit_step:
  assumes "accounts_inv env A" "n \<le> U32_MAX" "book A = acc"
    and "(acc' = acc \<and> \<not> made) \<or> (\<exists>y. accounts_update l s (accounts_credit rh hash n) acc = (acc', y) \<and> (made \<longleftrightarrow> y \<noteq> None \<and> is_ok (the y)))"
  shows "accounts_inv env (account_credit acc' hash n made A)"
  using assms(4)
proof
  assume "acc' = acc \<and> \<not> made"
  then have "account_credit acc' hash n made A = A" using assms(3) by (cases A) (simp add: account_credit_def)
  with assms(1) show ?thesis by simp
next
  assume "\<exists>y. accounts_update l s (accounts_credit rh hash n) acc = (acc', y) \<and> (made \<longleftrightarrow> y \<noteq> None \<and> is_ok (the y))"
  then obtain y where y: "accounts_update l s (accounts_credit rh hash n) (book A) = (acc', y)" "made \<longleftrightarrow> y \<noteq> None \<and> is_ok (the y)"
    using assms(3) by blast
  have "accounts_step env [] A (account_credit acc' hash n made A)"
    using a_credit [OF y(1) assms(2), of env "[]"] y(2) by (simp add: account_credit_def)
  from accounts_step_inv [OF this assms(1)] show ?thesis .
qed

lemma account_credit_sel [simp]:
  "book (account_credit acc hash n made A) = acc"
  "credited (account_credit acc hash n made A) h = credited A h + (if made \<and> h = hash then n else 0)"
  by (simp_all add: account_credit_def plus_at_def)

lemma add_credit_sel [simp]:
  "credits (add_credit c made G) = (if made then c # credits G else credits G)" "clock (add_credit c made G) = clock G"
  "quoted (add_credit c made G) = quoted G" "given (add_credit c made G) = given G" "offers (add_credit c made G) = offers G"
  by (simp_all add: add_credit_def)

lemma ledger_ok_credit:
  assumes "ledger_ok chain ahead G" "made \<Longrightarrow> credit_ok chain ahead (quoted G) c"
    and "made \<Longrightarrow> cr_claimed c \<Longrightarrow> cr_sig c \<notin> cr_sig ` set (credits G)"
  shows "ledger_ok chain ahead (add_credit c made G)"
  using assms by (auto simp: ledger_ok_def)

lemma ledger_ok_quote:
  assumes "ledger_ok chain ahead G" "\<And>r. x = Some (Ok r) \<Longrightarrow> or_passes r \<le> U32_MAX"
  shows "ledger_ok chain ahead (add_quote x G)"
proof (cases "\<exists>r. x = Some (Ok r)")
  case True
  then obtain r where r: "x = Some (Ok r)" by blast
  have "offer_ok (quoted G) k \<Longrightarrow> offer_ok (insert y (quoted G)) k" "credit_ok chain ahead (quoted G) c \<Longrightarrow> credit_ok chain ahead (insert y (quoted G)) c"
    for k y c by (auto simp: offer_ok_def credit_ok_def)
  with assms r show ?thesis by (auto simp: ledger_ok_def add_quote_def order_key_def)
next
  case False
  then show ?thesis using assms(1) by (auto simp: add_quote_def split: option.splits sum.splits)
qed

lemma pay_fresh:
  assumes "files_good (clock G) (quoted G) (credits G) fs" "ledger_ok chain ahead G" "orders_file fs = Some ord" "\<not> is_used sig ord"
    and "(hash, sig, now, rs) \<in> offers G" "paid_order (chain sig) rs = Some r"
    and "clock G \<le> now + lag" "ahead + lag \<le> ORDER_LIFETIME"
  shows "sig \<notin> cr_sig ` set (credits G)" "order_key r \<in> quoted G" "or_token_sha256 r = hash" "paid_raw (chain sig) = or_amount_raw r"
proof -
  have r: "r \<in> set rs" "is_ok (pays (chain sig) (or_amount_raw r) (or_created r))"
    using assms(6) by (auto simp: paid_order_def find_Some_iff)
  have o': "order_key r \<in> quoted G" "or_token_sha256 r = hash" "now < or_created r + ORDER_LIFETIME"
    using assms(2,5) r(1) by (auto simp: ledger_ok_def offer_ok_def)
  then show "order_key r \<in> quoted G" "or_token_sha256 r = hash" by simp_all
  have p: "or_created r - CLOCK_SLACK \<le> block_time (chain sig)" "paid_raw (chain sig) = or_amount_raw r"
    using r(2) by (auto simp: pays_def split: if_splits)
  then show "paid_raw (chain sig) = or_amount_raw r" by simp
  show "sig \<notin> cr_sig ` set (credits G)"
  proof
    assume "sig \<in> cr_sig ` set (credits G)"
    then obtain c where c: "c \<in> set (credits G)" "cr_sig c = sig" by auto
    have m: "used.remembers (clock G) ord ((\<lambda>c. (cr_sig c, cr_at c)) ` set (credits G))"
      using assms(1,3) by (simp add: files_good_def orders_good_def)
    have at: "block_time (chain sig) \<le> cr_at c + ahead" using assms(2) c by (auto simp: ledger_ok_def credit_ok_def)
    have "(sig, cr_at c) \<in> (\<lambda>c. (cr_sig c, cr_at c)) ` set (credits G)" using c by force
    from used.never_again [OF m _ this at assms(7) p(1) o'(3) _ assms(8)] assms(4)
    show False by (simp add: is_used_marked KEEP_PAID_def)
  qed
qed

lemma quote_inv:
  assumes "issuer_inv env chain ahead (sh, A, G)" "pk_passes pack \<le> U32_MAX"
    and c: "change_orders io (open_order hash pack now decimals draws) sh = (sh', x)"
  shows "issuer_inv env chain ahead (sh', A, add_quote x (tick now G))"
proof -
  have g: "files_good (clock G) (quoted G) (credits G) (shop_files sh)" and l: "ledger_ok chain ahead G"
    using assms(1) by (simp_all add: issuer_inv_def)
  have sel: "clock (add_quote x (tick now G)) = max (clock G) now" "credits (add_quote x (tick now G)) = credits G"
    "given (add_quote x (tick now G)) = given G"
    "quoted (add_quote x (tick now G)) = quoted G \<union> (case x of Some (Ok r) \<Rightarrow> {order_key r} | _ \<Rightarrow> {})"
    by (auto simp: add_quote_def split: option.splits sum.splits)
  have "files_good (max (clock G) now) (quoted (add_quote x (tick now G))) (credits G) (shop_files sh')"
  proof (rule change_orders_good [OF c g])
    fix ord ord' out
    assume "orders_good (clock G) (quoted G) (credits G) ord" "os_lapsed ord = []" "open_order hash pack now decimals draws ord = Some (ord', out)"
    from open_order_good [OF this(1) max.cobounded1 [of _ now] max.cobounded2 this(2,3)]
    have o': "orders_good (max (clock G) now) (quoted G \<union> (case out of Ok r \<Rightarrow> {order_key r} | Err _ \<Rightarrow> {})) (credits G) ord'"
      "lapsed_key ` set (os_lapsed ord') \<subseteq> quoted G" by blast+
    from o'(1) have "x = Some out \<longrightarrow> orders_good (max (clock G) now) (quoted (add_quote x (tick now G))) (credits G) ord'"
      unfolding sel by (cases out) simp_all
    moreover from o'(2) have "lapsed_key ` set (os_lapsed ord') \<subseteq> quoted (add_quote x (tick now G))"
      unfolding sel by (rule subset_trans) simp
    ultimately show "(x = Some out \<longrightarrow> orders_good (max (clock G) now) (quoted (add_quote x (tick now G))) (credits G) ord')
        \<and> lapsed_key ` set (os_lapsed ord') \<subseteq> quoted (add_quote x (tick now G))" ..
  qed (simp_all add: sel)
  moreover have "or_passes r \<le> U32_MAX" if x: "x = Some (Ok r)" for r
  proof -
    obtain sv ord' where "orders_file (shop_files sh) = Some sv" "open_order hash pack now decimals draws (on_disk sv) = Some (ord', Ok r)"
      using c [unfolded x] by (rule change_orders_out)
    with open_order_cases [OF this(2)] assms(2) show ?thesis by auto
  qed
  moreover have "shop_accounts sh' = shop_accounts sh" using c by (elim change_orders_cases)
  ultimately show ?thesis
    using assms(1) ledger_ok_quote [of chain ahead "tick now G" x] l by (simp add: issuer_inv_def sel)
qed

lemma hold_inv:
  assumes "issuer_inv env chain ahead (sh, A, G)" and c: "change_orders io (\<lambda>ord. Some (hold hash now ord, ())) sh = (sh', x)"
  shows "issuer_inv env chain ahead (sh', A, tick now G)"
proof -
  have g: "files_good (clock G) (quoted G) (credits G) (shop_files sh)" using assms(1) by (simp add: issuer_inv_def)
  have "files_good (max (clock G) now) (quoted G) (credits G) (shop_files sh')"
  proof (rule change_orders_good [OF c g max.cobounded1 subset_refl])
    fix ord ord' and out :: unit
    assume "orders_good (clock G) (quoted G) (credits G) ord" "os_lapsed ord = []" "Some (hold hash now ord, ()) = Some (ord', out)"
    then have h: "hold hash now ord = ord'" "orders_good (clock G) (quoted G) (credits G) ord" "os_lapsed ord = []" by simp_all
    from hold_good [OF h(2) max.cobounded1 [of _ now] max.cobounded2, of hash, unfolded h(1)] h(3)
    show "(x = Some out \<longrightarrow> orders_good (max (clock G) now) (quoted G) (credits G) ord') \<and> lapsed_key ` set (os_lapsed ord') \<subseteq> quoted G"
      by simp
  qed
  moreover have "shop_accounts sh' = shop_accounts sh" using c by (elim change_orders_cases)
  ultimately show ?thesis using assms(1) by (simp add: issuer_inv_def)
qed

lemma look_inv:
  assumes "issuer_inv env chain ahead (sh, A, G)" and c: "change_orders io (\<lambda>ord. Some (before_claim hash sig now ord)) sh = (sh', x)"
  shows "issuer_inv env chain ahead (sh', A, add_offer hash sig now x (tick now G))"
proof -
  have g: "files_good (clock G) (quoted G) (credits G) (shop_files sh)" and l: "ledger_ok chain ahead G"
    using assms(1) by (simp_all add: issuer_inv_def)
  have "files_good (max (clock G) now) (quoted G) (credits G) (shop_files sh')"
  proof (rule change_orders_good [OF c g max.cobounded1 subset_refl])
    fix ord ord' out
    assume "orders_good (clock G) (quoted G) (credits G) ord" "os_lapsed ord = []" "Some (before_claim hash sig now ord) = Some (ord', out)"
    with before_claim_good [OF this(1) max.cobounded1 max.cobounded2 this(2) option.inject [THEN iffD1, OF this(3)]]
    show "(x = Some out \<longrightarrow> orders_good (max (clock G) now) (quoted G) (credits G) ord') \<and> lapsed_key ` set (os_lapsed ord') \<subseteq> quoted G"
      by simp
  qed
  moreover have "shop_accounts sh' = shop_accounts sh" using c by (elim change_orders_cases)
  moreover have "offer_ok (quoted G) (hash, sig, now, rs)" if x: "x = Some (Ok (ClaimOpen rs))" for rs
  proof -
    obtain sv ord' where sv: "orders_file (shop_files sh) = Some sv" "Some (before_claim hash sig now (on_disk sv)) = Some (ord', Ok (ClaimOpen rs))"
      using c [unfolded x] by (rule change_orders_out)
    have "orders_good (clock G) (quoted G) (credits G) (on_disk sv)" using g sv(1) by (auto simp: files_good_def)
    from before_claim_good [OF this max.cobounded1 max.cobounded2 on_disk_empty(1)] sv(2)
    have "order_key ` set (os_orders ord') \<subseteq> quoted G" by (auto simp: orders_good_def)
    with before_claim_offer [of hash sig now "on_disk sv" ord' rs] sv(2) show ?thesis by (auto simp: offer_ok_def)
  qed
  ultimately show ?thesis
    using assms(1) l by (auto simp: issuer_inv_def add_offer_def ledger_ok_def split: option.splits sum.splits claimable.splits)
qed

lemma bought_Cons: "bought h (c # cs) = (if cr_hash c = h then cr_passes c else 0) + bought h cs"
  by (simp add: bought_def)

lemma quoted_u32: "ledger_ok chain ahead G \<Longrightarrow> (h, n, a) \<in> quoted G \<Longrightarrow> n \<le> U32_MAX"
  by (auto simp: ledger_ok_def)

lemma pay_inv:
  assumes "issuer_inv env chain ahead (sh, A, G)" "ahead + lag \<le> ORDER_LIFETIME"
    and pay: "(hash, sig, now, rs) \<in> offers G" "paid_order (chain sig) rs = Some r" "clock G \<le> now + lag" "block_time (chain sig) \<le> now + ahead"
    and c: "claim_credit io undo_io acc_io rh hash r sig now sh = (sh', x)"
    and new: "new = \<lparr>cr_sig = sig, cr_hash = hash, cr_passes = or_passes r, cr_amount = or_amount_raw r, cr_at = now, cr_claimed = True\<rparr>"
  shows "issuer_inv env chain ahead (sh', account_credit (shop_accounts sh') hash (or_passes r) (was_credited x) A,
    add_credit new (was_credited x) (tick now G))"
proof -
  have g: "files_good (clock G) (quoted G) (credits G) (shop_files sh)" and l: "ledger_ok chain ahead G" and a: "accounts_inv env A"
    and b: "book A = shop_accounts sh"
    using assms(1) by (simp_all add: issuer_inv_def)
  note eff = claim_credit_effect [OF c g new]
  obtain ord where ord: "orders_file (shop_files sh) = Some ord" using g by (auto simp: files_good_def)
  have fresh: "sig \<notin> cr_sig ` set (credits G)" if "was_credited x"
    using pay_fresh(1) [OF g l ord _ pay(1-3) assms(2)] eff(2) [OF that] ord by simp
  have key: "(hash, or_passes r, or_amount_raw r) \<in> quoted G" "paid_raw (chain sig) = or_amount_raw r"
  proof -
    have "r \<in> set rs" "is_ok (pays (chain sig) (or_amount_raw r) (or_created r))"
      using pay(2) by (auto simp: paid_order_def find_Some_iff)
    then show "(hash, or_passes r, or_amount_raw r) \<in> quoted G" "paid_raw (chain sig) = or_amount_raw r"
      using l pay(1) by (auto simp: ledger_ok_def offer_ok_def order_key_def pays_def split: if_splits)
  qed
  have "ledger_ok chain ahead (add_credit new (was_credited x) (tick now G))"
    using l key pay(4) fresh by (intro ledger_ok_credit) (simp_all add: credit_ok_def new)
  moreover have "accounts_inv env (account_credit (shop_accounts sh') hash (or_passes r) (was_credited x) A)"
    by (rule credit_step [OF a quoted_u32 [OF l key(1)] b eff(3)])
  moreover have "files_good (max (clock G) now) (quoted G) (if was_credited x then new # credits G else credits G) (shop_files sh')"
    by (rule files_good_later [OF eff(1) max.cobounded1])
  ultimately show ?thesis using assms(1) by (auto simp: issuer_inv_def bought_Cons new)
qed

lemma hand_credit_sel:
  "cr_sig (hand_credit sig now (Ok (l, b))) = sig" "cr_hash (hand_credit sig now (Ok (l, b))) = la_token_sha256 l"
  "cr_passes (hand_credit sig now (Ok (l, b))) = la_passes l" "cr_amount (hand_credit sig now (Ok (l, b))) = la_amount_raw l"
  "cr_at (hand_credit sig now (Ok (l, b))) = now" "\<not> cr_claimed (hand_credit sig now (Ok (l, b)))"
  by (simp_all add: hand_credit_def)

lemma hand_inv:
  assumes "issuer_inv env chain ahead (sh, A, G)" "block_time (chain sig) \<le> now + ahead"
    and c: "credit_record io amount paid_at token sig now sh = (sh', x)"
  shows "issuer_inv env chain ahead (sh', account_credit (shop_accounts sh') (cr_hash (hand_credit sig now x)) (cr_passes (hand_credit sig now x)) (is_ok x) A,
    add_credit (hand_credit sig now x) (is_ok x) (tick now G))"
proof -
  have g: "files_good (clock G) (quoted G) (credits G) (shop_files sh)" and l: "ledger_ok chain ahead G" and a: "accounts_inv env A"
    and b: "book A = shop_accounts sh"
    using assms(1) by (simp_all add: issuer_inv_def)
  note eff = credit_record_effect [OF c g max.cobounded1 [of _ now] max.cobounded2]
  have key: "(la_token_sha256 k, la_passes k, la_amount_raw k) \<in> quoted G" if "x = Ok (k, n)" for k n
    using eff(2) [OF that] unfolding lapsed_key_def by blast
  have ok: "ledger_ok chain ahead (add_credit (hand_credit sig now x) (is_ok x) (tick now G))"
  proof (rule ledger_ok_credit)
    show "credit_ok chain ahead (quoted (tick now G)) (hand_credit sig now x)" if "is_ok x"
      using that key assms(2) by (auto simp: is_ok_iff credit_ok_def hand_credit_sel)
    show "cr_sig (hand_credit sig now x) \<notin> cr_sig ` set (credits (tick now G))" if "is_ok x" "cr_claimed (hand_credit sig now x)"
      using that by (auto simp: is_ok_iff hand_credit_sel)
  qed (use l in simp)
  have acc: "accounts_inv env (account_credit (shop_accounts sh') (cr_hash (hand_credit sig now x)) (cr_passes (hand_credit sig now x)) (is_ok x) A)"
    using eff(3)
  proof
    assume "shop_accounts sh' = shop_accounts sh \<and> \<not> is_ok x"
    then have "account_credit (shop_accounts sh') hash n (is_ok x) A = A" for hash n using b by (cases A) (simp add: account_credit_def)
    with a show ?thesis by simp
  next
    assume "\<exists>l y. accounts_update (fst (hio_accounts io)) (snd (hio_accounts io)) (accounts_credit (hio_random io) (la_token_sha256 l) (la_passes l)) (shop_accounts sh)
        = (shop_accounts sh', y) \<and> (is_ok x \<longleftrightarrow> y \<noteq> None \<and> is_ok (the y)) \<and> lapsed_key l \<in> quoted G \<and> (\<forall>k b. x = Ok (k, b) \<longrightarrow> k = l)"
    then obtain k y where k: "accounts_update (fst (hio_accounts io)) (snd (hio_accounts io)) (accounts_credit (hio_random io) (la_token_sha256 k) (la_passes k)) (shop_accounts sh)
        = (shop_accounts sh', y)" "is_ok x \<longleftrightarrow> y \<noteq> None \<and> is_ok (the y)" "lapsed_key k \<in> quoted G" "\<forall>k' b. x = Ok (k', b) \<longrightarrow> k' = k" by blast
    have "accounts_inv env (account_credit (shop_accounts sh') (la_token_sha256 k) (la_passes k) (is_ok x) A)"
      by (rule credit_step [OF a quoted_u32 [OF l k(3) [unfolded lapsed_key_def]] b]) (use k(1,2) in blast)
    moreover have "account_credit (shop_accounts sh') (cr_hash (hand_credit sig now x)) (cr_passes (hand_credit sig now x)) (is_ok x) A
        = account_credit (shop_accounts sh') (la_token_sha256 k) (la_passes k) (is_ok x) A"
      using k(4) by (cases "is_ok x") (auto simp: is_ok_iff hand_credit_sel account_credit_def)
    ultimately show ?thesis by simp
  qed
  from ok acc eff(1) assms(1) show ?thesis by (auto simp: issuer_inv_def bought_Cons)
qed

lemma issuer_step_inv:
  assumes "issuer_step env keys chain ahead lag H H'" "issuer_inv env chain ahead H" "ahead + lag \<le> ORDER_LIFETIME"
  shows "issuer_inv env chain ahead H'"
  using assms
proof (induction rule: issuer_step.induct)
  case (i_accounts A A' sh G)
  then have "accounts_inv env A'" using accounts_step_inv [OF i_accounts(1)] by (simp add: issuer_inv_def)
  moreover have "credited A' h = given G h + (credited A' h - credited A h) + bought h (credits G)" for h
    using credited_grows [OF i_accounts(1), of h] i_accounts(2) by (simp add: issuer_inv_def)
  ultimately show ?case using i_accounts(2) by (simp add: issuer_inv_def ledger_ok_def)
next
  case (i_quote G now pack io hash decimals draws sh sh' x A)
  then show ?case by (intro quote_inv)
next
  case (i_hold G now io hash sh sh' x A)
  then show ?case by (intro hold_inv)
next
  case (i_look G now io hash sig sh sh' x A)
  then show ?case by (intro look_inv)
next
  case (i_pay hash sig now rs G r io undo_io acc_io rh sh sh' x A)
  then show ?case by (intro pay_inv [where lag = lag]) simp_all
next
  case (i_hand G now sig io amount_raw paid_at token sh sh' x A)
  then show ?case by (intro hand_inv)
next
  case (i_start sh A G)
  then show ?case by (simp add: issuer_inv_def)
qed

lemma new_issuer_inv: "issuer_inv env chain ahead new_issuer"
  by (simp add: issuer_inv_def new_issuer_def no_accounts_inv files_good_def orders_good_def orders_ok_def slots_ok_def ledger_ok_def bought_def
      used.remembers_def no_orders_def)
    (simp add: no_accounts_def)

lemma issuer_reachable_inv:
  assumes "(issuer_step env keys chain ahead lag)\<^sup>*\<^sup>* new_issuer H" "ahead + lag \<le> ORDER_LIFETIME"
  shows "issuer_inv env chain ahead H"
  using assms(1) by (induction rule: rtranclp_induct) (simp_all add: new_issuer_inv issuer_step_inv [OF _ _ assms(2)])

section \<open>What the issuer promises\<close>

text \<open>
  Claim C1. A payment is credited once. In every history of the issuer, in whatever order quotes,
  claims, credits by hand, failures and stops come, a transaction credited by a claim
  was not credited before, by a claim or by hand; it paid exactly the amount of an order quoted to
  the account that was credited, for the passes that were credited. The clock of the
  issuer may fall behind and blocks may be dated ahead, by an order's life together.
\<close>

theorem payment_credited_once:
  assumes "(issuer_step env keys chain ahead lag)\<^sup>*\<^sup>* new_issuer (sh, A, G)" "ahead + lag \<le> ORDER_LIFETIME"
    and "credits G = newer @ c # older" "cr_claimed c"
  shows "cr_sig c \<notin> cr_sig ` set older \<and> (cr_hash c, cr_passes c, cr_amount c) \<in> quoted G
    \<and> paid_raw (chain (cr_sig c)) = cr_amount c"
proof -
  have l: "ledger_ok chain ahead G" using issuer_reachable_inv [OF assms(1,2)] by (simp add: issuer_inv_def)
  have "claims_fresh (newer @ c # older) \<Longrightarrow> cr_sig c \<notin> cr_sig ` set older"
    using assms(4) by (induction newer) simp_all
  with l assms(3,4) show ?thesis by (auto simp: ledger_ok_def credit_ok_def)
qed

text \<open>
  Claim C15. No two payments can be mistaken for one another. At every moment the orders that wait for a
  payment have different amounts, no more than twenty thousand wait in all and no more than
  five for one account, and the amount of each was quoted to its account.
\<close>

theorem open_orders_apart:
  assumes "(issuer_step env keys chain ahead lag)\<^sup>*\<^sup>* new_issuer (sh, A, G)" "ahead + lag \<le> ORDER_LIFETIME"
  shows "\<exists>ord. orders_file (shop_files sh) = Some ord
    \<and> distinct (map or_amount_raw (filter unpaid (os_orders ord)))
    \<and> length (filter unpaid (os_orders ord)) \<le> MAX_OPEN_ORDERS
    \<and> (\<forall>h. length (filter (\<lambda>r. unpaid r \<and> or_token_sha256 r = h) (os_orders ord)) \<le> MAX_OPEN_PER_ACCOUNT)
    \<and> order_key ` set (os_orders ord) \<subseteq> quoted G"
proof -
  from issuer_reachable_inv [OF assms] obtain ord where ord: "orders_file (shop_files sh) = Some ord" "orders_ok ord"
    "order_key ` set (os_orders ord) \<subseteq> quoted G" by (auto simp: issuer_inv_def files_good_def orders_good_def)
  have "filter (\<lambda>p. fst p = h) (slots rs) = map (\<lambda>r. (or_token_sha256 r, or_amount_raw r)) (filter (\<lambda>r. unpaid r \<and> or_token_sha256 r = h) rs)" for h rs
    by (induction rs) (simp_all add: slots_def)
  moreover have "map snd (slots rs) = map or_amount_raw (filter unpaid rs)" "length (slots rs) = length (filter unpaid rs)" for rs
    by (simp_all add: slots_def)
  ultimately show ?thesis using ord by (auto simp: orders_ok_def slots_ok_def)
qed


section \<open>An example\<close>

text \<open>An account buys five passes: a quote, a claim, and the credit.\<close>

definition good_io :: orders_io where
  "good_io = \<lparr>oio_locked = True, oio_appended = None, oio_rewritten = True, oio_saved = True\<rparr>"

definition sample_order :: order where
  "sample_order = \<lparr>or_token_sha256 = ''t'', or_passes = 5, or_amount_raw = 8, or_created = 0, or_paid_sha256 = None, or_tries = 0, or_unclaimed = True\<rparr>"

definition tried_order :: order where
  "tried_order = sample_order\<lparr>or_tries := 1, or_unclaimed := False\<rparr>"

definition shop_with :: "order list \<Rightarrow> used_tx list \<Rightarrow> accounts \<Rightarrow> shop" where
  "shop_with rs us as = (let ord = no_orders\<lparr>os_orders := rs, os_used := us\<rparr>
     in \<lparr>shop_files = \<lparr>orders_file = Some ord, lapsed_file = []\<rparr>, shop_accounts = Some as, shop_index = index_of ord\<rparr>)"

definition sample_credit :: credit where
  "sample_credit = \<lparr>cr_sig = ''s'', cr_hash = ''t'', cr_passes = 5, cr_amount = 8, cr_at = 10, cr_claimed = True\<rparr>"

definition sample_shop :: shop where
  "sample_shop = shop_with [tried_order\<lparr>or_paid_sha256 := Some ''s''\<rparr>] [\<lparr>us_signature_sha256 = ''s'', us_at = 10\<rparr>]
     [\<lparr>ac_name = ''paid-0'', ac_token_sha256 = ''t'', ac_quota_per_day = 0, ac_enabled = True, ac_day = 0, ac_used = 0, ac_balance = Some 5\<rparr>]"

definition sample_book :: account_history where
  "sample_book = account_credit (shop_accounts sample_shop) ''t'' 5 True no_accounts"

definition sample_ledger :: ledger where
  "sample_ledger = \<lparr>clock = 10, quoted = {(''t'', 5, 8)}, offers = {(''t'', ''s'', 10, [tried_order])}, credits = [sample_credit], given = (\<lambda>_. 0)\<rparr>"

lemmas sample_defs = no_orders_def sample_order_def tried_order_def shop_with_def sample_credit_def sample_shop_def
  good_io_def prune_orders_def kept_order_def open_at_def lapses_at_def UNCLAIMED_LIFETIME_def ORDER_LIFETIME_def KEEP_PAID_def CLOCK_SLACK_def
  LAPSED_PRUNE_EVERY_def on_disk_def

lemma sample_quote:
  "change_orders good_io (open_order ''t'' \<lparr>pk_passes = 5, pk_price_raw = 7, pk_usd_cents = None\<rparr> 0 6 (\<lambda>_. Some 0)) (shop_with [] [] [])
    = (shop_with [sample_order] [] [], Some (Ok sample_order))"
proof -
  have "map (\<lambda>_. Some 0) [0..<64] = Some 0 # map (\<lambda>_. Some (0 :: nat)) [1..<64]" by (simp add: upt_rec)
  then have "open_order ''t'' \<lparr>pk_passes = 5, pk_price_raw = 7, pk_usd_cents = None\<rparr> 0 6 (\<lambda>_. Some 0) no_orders
      = Some (no_orders\<lparr>os_orders := [sample_order]\<rparr>, Ok sample_order)"
    by (simp add: open_order_def open_count_def MAX_OPEN_ORDERS_def MAX_OPEN_PER_ACCOUNT_def tag_space_def TAG_DIGITS_def Let_def sample_defs)
  then show ?thesis by (simp add: change_orders_def orders_update_def Let_def on_disk_def good_io_def shop_with_def no_orders_def)
qed

lemma sample_look:
  "change_orders good_io (\<lambda>ord. Some (before_claim ''t'' ''s'' 10 ord)) (shop_with [sample_order] [] [])
    = (shop_with [tried_order] [] [], Some (Ok (ClaimOpen [tried_order])))"
proof -
  have "before_claim ''t'' ''s'' 10 (no_orders\<lparr>os_orders := [sample_order]\<rparr>) = (no_orders\<lparr>os_orders := [tried_order]\<rparr>, Ok (ClaimOpen [tried_order]))"
    by (simp add: before_claim_def is_used_def hold_def MAX_HELD_ORDERS_def one_more_try_def saturating_add_u32_def U32_MAX_def MAX_CLAIM_TRIES_def Let_def sample_defs)
  then show ?thesis by (simp add: change_orders_def orders_update_def Let_def on_disk_def good_io_def shop_with_def no_orders_def sample_order_def tried_order_def)
qed

lemma sample_pay:
  "claim_credit good_io good_io (True, True) (Some ''0'') ''t'' tried_order ''s'' 10 (shop_with [tried_order] [] []) = (sample_shop, Some (Ok 5))"
proof -
  have "mark_paid ''t'' 8 ''s'' 10 (no_orders\<lparr>os_orders := [tried_order]\<rparr>)
      = (no_orders\<lparr>os_orders := [tried_order\<lparr>or_paid_sha256 := Some ''s''\<rparr>], os_used := [\<lparr>us_signature_sha256 = ''s'', us_at = 10\<rparr>]\<rparr>, Ok ())"
    by (simp add: mark_paid_def is_used_def Let_def sample_defs)
  then show ?thesis
    by (simp add: claim_credit_def orders_update_def accounts_update_def accounts_credit_def Let_def on_disk_def good_io_def shop_with_def no_orders_def
        sample_shop_def tried_order_def sample_order_def free_name.simps [of "[]"])
qed

lemma sample_reachable:
  assumes "paid_raw (chain ''s'') = 8" "block_time (chain ''s'') = 5"
  shows "(issuer_step env keys chain 0 0)\<^sup>*\<^sup>* new_issuer (sample_shop, sample_book, sample_ledger)"
proof -
  let ?s = "issuer_step env keys chain 0 0"
  let ?G0 = "\<lparr>clock = 0, quoted = {}, offers = {}, credits = [], given = (\<lambda>_. 0)\<rparr>"
  let ?G1 = "?G0\<lparr>quoted := {(''t'', 5, 8)}\<rparr>" and ?G2 = "sample_ledger\<lparr>credits := []\<rparr>"
  have n: "new_issuer = (shop_with [] [] [], no_accounts, ?G0)" by (simp add: new_issuer_def shop_with_def no_orders_def Let_def)
  have "?s (shop_with [] [] [], no_accounts, ?G0) (shop_with [sample_order] [] [], no_accounts, ?G1)"
    using i_quote [of ?G0 0 0 _ _ _ _ _ _ _ _ env keys chain 0 no_accounts, OF _ _ sample_quote]
    by (simp add: U32_MAX_def add_quote_def tick_def order_key_def sample_order_def)
  moreover have "?s (shop_with [sample_order] [] [], no_accounts, ?G1) (shop_with [tried_order] [] [], no_accounts, ?G2)"
    using i_look [of ?G1 10 0 _ _ _ _ _ _ env keys chain 0 no_accounts, OF _ sample_look]
    by (simp add: add_offer_def tick_def sample_ledger_def)
  moreover have "?s (shop_with [tried_order] [] [], no_accounts, ?G2) (sample_shop, sample_book, sample_ledger)"
  proof -
    have "paid_order (chain ''s'') [tried_order] = Some tried_order"
      using assms by (simp add: paid_order_def pays_def sample_defs)
    from i_pay [where chain = chain and sig = "''s''" and rs = "[tried_order]" and G = ?G2 and lag = 0 and ahead = 0 and env = env and keys = keys
        and A = no_accounts, OF _ this _ _ sample_pay] show ?thesis
      using assms by (simp add: sample_ledger_def was_credited_def add_credit_def tick_def sample_book_def sample_credit_def tried_order_def sample_order_def)
  qed
  ultimately show ?thesis unfolding n by (meson rtranclp.rtrancl_into_rtrancl rtranclp.rtrancl_refl)
qed

text \<open>
  A claim that marks the order and then can neither credit the account nor take the mark
  back answers that it may be tried again; tried again, it is told that the passes were
  credited, and none were.
\<close>

lemma lost_unmark_says_claimed:
  fixes io
  defines "sh \<equiv> fst (claim_credit good_io (good_io\<lparr>oio_saved := False\<rparr>) (False, True) None ''t'' tried_order ''s'' 10 (shop_with [tried_order] [] []))"
  assumes "cio_paced io" "cio_bucket io" "cio_before io = good_io"
  shows "shop_accounts sh = Some []" "snd (claim_look io ''t'' ''s'' 20 sh) = Err (Credited 5 0 8 True)"
proof -
  let ?paid = "no_orders\<lparr>os_orders := [tried_order\<lparr>or_paid_sha256 := Some ''s''\<rparr>], os_used := [\<lparr>us_signature_sha256 = ''s'', us_at = 10\<rparr>]\<rparr>"
  have "mark_paid ''t'' 8 ''s'' 10 (no_orders\<lparr>os_orders := [tried_order]\<rparr>) = (?paid, Ok ())"
    by (simp add: mark_paid_def is_used_def Let_def sample_defs)
  then have sh: "shop_accounts sh = Some []" "orders_file (shop_files sh) = Some ?paid"
    unfolding sh_def
    by (simp_all add: claim_credit_def orders_update_def accounts_update_def Let_def unmark_def on_disk_def good_io_def shop_with_def no_orders_def
        tried_order_def sample_order_def)
  then show "shop_accounts sh = Some []" by simp
  have "on_disk ?paid = ?paid" by (simp add: on_disk_def no_orders_def)
  moreover have "before_claim ''t'' ''s'' 20 ?paid = (?paid, Ok (AlreadyPaid 5 8))"
    by (simp add: before_claim_def Let_def sample_defs)
  ultimately have "change_orders good_io (\<lambda>ord. Some (before_claim ''t'' ''s'' 20 ord)) sh = (sh\<lparr>shop_index := index_of ?paid\<rparr>, Some (Ok (AlreadyPaid 5 8)))"
    using sh(2) by (cases sh) (auto simp: change_orders_def orders_update_def Let_def good_io_def no_orders_def)
  then show "snd (claim_look io ''t'' ''s'' 20 sh) = Err (Credited 5 0 8 True)"
    using assms(2-4) sh(1) by (simp add: claim_look_def balance_of_def)
qed

definition sample_chain :: "string \<Rightarrow> payment" where
  "sample_chain sig = \<lparr>paid_raw = 8, block_time = 5\<rparr>"

lemmas sample_run = sample_reachable [of sample_chain, unfolded sample_chain_def payment.simps, OF refl refl, folded sample_chain_def]

theorem payment_credited_once_witness:
  "credits sample_ledger = [sample_credit] \<and> cr_claimed sample_credit \<and> (0 :: int) + 0 \<le> ORDER_LIFETIME
   \<and> (cr_hash sample_credit, cr_passes sample_credit, cr_amount sample_credit) \<in> quoted sample_ledger"
  using payment_credited_once [OF sample_run [of sample_env "[]"], of "[]" sample_credit "[]"]
  by (simp add: sample_ledger_def sample_credit_def ORDER_LIFETIME_def)

theorem open_orders_apart_witness:
  "\<exists>ord. orders_file (shop_files sample_shop) = Some ord \<and> length (os_orders ord) = 1 \<and> order_key ` set (os_orders ord) \<subseteq> quoted sample_ledger"
proof -
  have "(0 :: int) + 0 \<le> ORDER_LIFETIME" by (simp add: ORDER_LIFETIME_def)
  from open_orders_apart [OF sample_run [of sample_env "[]"] this] show ?thesis by (auto simp: sample_shop_def shop_with_def Let_def)
qed


end
