(* ===== verification/Client_Admission.thy ===== *)
theory Client_Admission
  imports Pocket Admission
begin

text \<open>
  Asking a node for admission (\<^verbatim>\<open>hidravpn-core/src/admission.rs\<close>): what the client sends
  on \<^verbatim>\<open>/admit\<close> and \<^verbatim>\<open>/redeem\<close>, how it holds the invite it is answered against the record
  of the signed list, and the HTTP both sides speak (\<open>http_call\<close>, \<open>read_request\<close>,
  \<open>http_response\<close>). The JSON of the bodies, the connection and its timeout are the
  parameters of a \<open>node_link\<close>; \<open>nl_exchange link i addr text\<close> is what the node at
  \<open>addr\<close> answers the \<open>i\<close>th request of the call with, if anything. The wording of errors
  (\<^verbatim>\<open>refusal_text\<close>) is not modelled.

  The lemmas say that the node reads exactly what the client sends and the client what
  the node answers, and that an invite is taken from a node only for the node the list
  named, with what the list says of it.
\<close>

section \<open>The wire\<close>

definition MAX_HEADERS :: nat where
  "MAX_HEADERS = 8 * 1024"

definition MAX_BODY :: nat where
  "MAX_BODY = 16 * 1024"

definition MAX_NODE_ANSWER :: nat where
  "MAX_NODE_ANSWER = 64 * 1024"

record admission_request =
  ar_public_key :: string
  ar_name :: string
  ar_session :: bool
  ar_work :: "proof_of_work option"

record refusal =
  rf_error :: string
  rf_work_bits :: "nat option"

record node_link =
  nl_admit_json :: "admission_request \<Rightarrow> string"
  nl_redeem_json :: "redemption \<Rightarrow> string"
  nl_refusal :: "string \<Rightarrow> refusal option"
  nl_invite :: "string \<Rightarrow> invite option"
  nl_record :: "string \<Rightarrow> node_record option"
  nl_exchange :: "nat \<Rightarrow> socket_addr \<Rightarrow> string \<Rightarrow> string option"

definition show_host_ip :: "ip_addr \<Rightarrow> string" where
  "show_host_ip a = (case a of V4 x \<Rightarrow> show_ipv4 x | V6 x \<Rightarrow> show_ipv6 x)"

definition node_request_text :: "ip_addr \<Rightarrow> string \<Rightarrow> string \<Rightarrow> string \<Rightarrow> string" where
  "node_request_text ip meth path body =
     meth @ '' '' @ path @ '' HTTP/1.1'' @ crlf @ ''Host: '' @ show_host_ip ip @ crlf
       @ ''Content-Type: application/json'' @ crlf @ ''Content-Length: '' @ show_nat (length body) @ crlf
       @ ''Connection: close'' @ crlf @ crlf @ body"

datatype admission_error = EndpointForm | KeyForm key_error | NoAnswer | BadAnswer http_error
  | NotAdmitted nat string | AnswerUnreadable | AnswerInvalid invite_error | OtherKeyNamed | OtherEndpointNamed
  | PassOfAnother | PassForm pass_error | PassRefused admission_error

definition http_call :: "node_link \<Rightarrow> nat \<Rightarrow> socket_addr \<Rightarrow> string \<Rightarrow> string \<Rightarrow> string \<Rightarrow> admission_error + nat \<times> string" where
  "http_call link i addr meth path body =
     (case nl_exchange link i addr (node_request_text (sa_ip addr) meth path body) of
        None \<Rightarrow> Err NoAnswer
      | Some raw \<Rightarrow> (case parse_response (take MAX_NODE_ANSWER raw) of
          Err e \<Rightarrow> Err (BadAnswer e)
        | Ok r \<Rightarrow> Ok r))"

section \<open>The client\<close>

definition map_invite_err :: "invite_error + 'b \<Rightarrow> admission_error + 'b" where
  "map_invite_err r = (case r of Err e \<Rightarrow> Err (AnswerInvalid e) | Ok x \<Rightarrow> Ok x)"

definition fetch_record :: "'a key_env_scheme \<Rightarrow> node_link \<Rightarrow> ip_addr \<Rightarrow> u16 \<Rightarrow> admission_error + node_record" where
  "fetch_record env link ip port =
     bind_result (http_call link 0 \<lparr>sa_ip = ip, sa_port = port\<rparr> ''GET'' ''/'' []) (\<lambda>(status, body).
     if status \<noteq> 200 then Err (NotAdmitted status body)
     else (case nl_record link body of
         None \<Rightarrow> Err AnswerUnreadable
       | Some r \<Rightarrow> bind_result (map_invite_err (validate_record env r)) (\<lambda>_. Ok r)))"

definition checked_invite :: "'a key_env_scheme \<Rightarrow> node_link \<Rightarrow> node_record \<Rightarrow> string \<Rightarrow> admission_error + invite" where
  "checked_invite env link r answer =
     (case parse_socket_addr (nr_endpoint r) of
        None \<Rightarrow> Err EndpointForm
      | Some endpoint \<Rightarrow> (case nl_invite link answer of
          None \<Rightarrow> Err AnswerUnreadable
        | Some invt \<Rightarrow>
            bind_result (map_invite_err (validate_invite env invt)) (\<lambda>_.
            if i_key invt \<noteq> r_key r then Err OtherKeyNamed
            else bind_result (map_invite_err (endpoint_addr invt)) (\<lambda>a.
              if a \<noteq> endpoint then Err OtherEndpointNamed
              else Ok (invt\<lparr>i_node_name := nr_node_name r, i_operator := nr_operator r, i_role := nr_role r,
                     i_country := nr_country r, i_admission := nr_admission r,
                     i_admission_port := nr_admission_port r, i_features := nr_features r,
                     i_pass := None, i_behind := False\<rparr>)))))"

text \<open>Where a record's node is asked.\<close>

definition ask_at :: "node_record \<Rightarrow> admission_error + socket_addr" where
  "ask_at r = (case parse_socket_addr (nr_endpoint r) of
      None \<Rightarrow> Err EndpointForm
    | Some endpoint \<Rightarrow> Ok \<lparr>sa_ip = sa_ip endpoint,
        sa_port = (case nr_admission_port r of Some p \<Rightarrow> p | None \<Rightarrow> DEFAULT_ADMISSION_PORT)\<rparr>)"

definition map_key_err :: "key_error + 'b \<Rightarrow> admission_error + 'b" where
  "map_key_err r = (case r of Err e \<Rightarrow> Err (KeyForm e) | Ok x \<Rightarrow> Ok x)"

text \<open>
  The proof of one round: \<open>None\<close> when no nonce does, which the code searches for ever.
\<close>

definition session_proof ::
  "'a pass_env_scheme \<Rightarrow> node_record \<Rightarrow> string \<Rightarrow> 64 word \<Rightarrow> nat \<Rightarrow> (admission_error + proof_of_work) option" where
  "session_proof env r client minute bits =
     (case map_key_err (public_key_from_base64 env (nr_node_public_key r)) of
        Err e \<Rightarrow> Some (Err e)
      | Ok node \<Rightarrow> (case map_key_err (public_key_from_base64 env client) of
          Err e \<Rightarrow> Some (Err e)
        | Ok ck \<Rightarrow> map_option Ok (work_solve (sha256 env) node ck minute bits)))"

definition wants_more :: "node_link \<Rightarrow> nat \<Rightarrow> nat \<Rightarrow> string \<Rightarrow> nat option" where
  "wants_more link bits status answer =
     (case nl_refusal link answer of
        Some rf \<Rightarrow> (case rf_work_bits rf of
            Some want \<Rightarrow> if status = 428 \<and> bits < want \<and> want \<le> MAX_BITS then Some want else None
          | None \<Rightarrow> None)
      | None \<Rightarrow> None)"

lemma wants_more_bits: "wants_more link bits status answer = Some want \<Longrightarrow> bits < want \<and> want \<le> MAX_BITS"
  by (auto simp: wants_more_def split: option.splits if_splits)

function session_loop ::
  "'a pass_env_scheme \<Rightarrow> node_link \<Rightarrow> (nat \<Rightarrow> 64 word) \<Rightarrow> node_record \<Rightarrow> socket_addr \<Rightarrow> string \<Rightarrow> string \<Rightarrow>
   nat \<Rightarrow> nat \<Rightarrow> (admission_error + nat \<times> string) option" where
  "session_loop env link minute r addr client name i bits =
     (case session_proof env r client (minute i) bits of
        None \<Rightarrow> None
      | Some (Err e) \<Rightarrow> Some (Err e)
      | Some (Ok w) \<Rightarrow>
          (case http_call link i addr ''POST'' ''/admit''
               (nl_admit_json link \<lparr>ar_public_key = client, ar_name = name, ar_session = True, ar_work = Some w\<rparr>) of
             Err e \<Rightarrow> Some (Err e)
           | Ok (status, answer) \<Rightarrow> (case wants_more link bits status answer of
               Some want \<Rightarrow> session_loop env link minute r addr client name (Suc i) want
             | None \<Rightarrow> Some (Ok (status, answer)))))"
  by pat_completeness auto
termination
  by (relation "measure (\<lambda>(env, link, minute, r, addr, client, name, i, bits). MAX_BITS - bits)")
    (auto dest: wants_more_bits)

declare session_loop.simps [simp del]

definition request_admission ::
  "'a pass_env_scheme \<Rightarrow> node_link \<Rightarrow> (nat \<Rightarrow> 64 word) \<Rightarrow> node_record \<Rightarrow> string \<Rightarrow> string \<Rightarrow> bool \<Rightarrow>
   (admission_error + invite) option" where
  "request_admission env link minute r client name session =
     (case ask_at r of
        Err e \<Rightarrow> Some (Err e)
      | Ok addr \<Rightarrow>
          map_option (\<lambda>res. bind_result res (\<lambda>(status, answer).
              if status \<noteq> 200 then Err (NotAdmitted status answer) else checked_invite env link r answer))
            (if session then session_loop env link minute r addr client name 0 DEFAULT_BITS
             else Some (http_call link 0 addr ''POST'' ''/admit''
               (nl_admit_json link \<lparr>ar_public_key = client, ar_name = name, ar_session = False, ar_work = None\<rparr>))))"

definition pass_was_refused :: "admission_error \<Rightarrow> bool" where
  "pass_was_refused e = (case e of PassRefused _ \<Rightarrow> True | _ \<Rightarrow> False)"

definition redeem_pass ::
  "'a pass_env_scheme \<Rightarrow> node_link \<Rightarrow> nat \<Rightarrow> node_record \<Rightarrow> pass \<Rightarrow> bool \<Rightarrow> admission_error + invite" where
  "redeem_pass env link now r p behind =
     (if trim (ps_node_public_key p) \<noteq> r_key r then Err PassOfAnother
      else bind_result (ask_at r) (\<lambda>addr.
        case redemption_of env p of
          Err e \<Rightarrow> Err (PassForm e)
        | Ok rd \<Rightarrow>
            bind_result (http_call link 0 addr ''POST'' ''/redeem'' (nl_redeem_json link rd)) (\<lambda>(status, answer).
            if status \<noteq> 200 then
              (if 500 \<le> status then Err (NotAdmitted status answer)
               else Err (PassRefused (NotAdmitted status answer)))
            else (case checked_invite env link r answer of
                Err e \<Rightarrow> Err (PassRefused e)
              | Ok invt \<Rightarrow> Ok (invt\<lparr>i_pass := Some \<lparr>pb_client_secret = ps_client_secret p,
                  pb_admission_port = nr_admission_port r, pb_redeemed_at = now, pb_used_at = 0,
                  pb_behind = Some behind\<rparr>\<rparr>)))))"

section \<open>The node's half\<close>

record http_request =
  hq_method :: string
  hq_path :: string
  hq_content_type :: "string option"
  hq_body :: string

datatype request_error = NotRequest | LineNotText | HeadersTooLong | BadContentLength | BodyTooLong | BodyCutShort

definition is_json :: "http_request \<Rightarrow> bool" where
  "is_json q = (case hq_content_type q of
      Some t \<Rightarrow> eq_ignore_ascii_case (trim (hd (split_on (CHR '';'') t))) ''application/json''
    | None \<Rightarrow> False)"

text \<open>\<^verbatim>\<open>read_text_line\<close>: up to and with the line feed, or to the end; a line is text.\<close>

definition read_text_line :: "string \<Rightarrow> request_error + string \<times> string" where
  "read_text_line s =
     (let n = (case find_sub [lf] s of Some i \<Rightarrow> Suc i | None \<Rightarrow> length s)
      in if from_utf8 (take n s) then Ok (take n s, drop n s) else Err LineNotText)"

lemma read_text_line_shorter: "read_text_line s = Ok (line, rest) \<Longrightarrow> line \<noteq> [] \<Longrightarrow> length rest < length s"
  by (cases s) (auto simp: read_text_line_def Let_def split: if_splits option.splits)

function read_headers :: "nat \<Rightarrow> nat \<Rightarrow> string option \<Rightarrow> string \<Rightarrow> request_error + nat \<times> string option \<times> string" where
  "read_headers seen len ctype s = (case read_text_line s of
      Err e \<Rightarrow> Err e
    | Ok (line, rest) \<Rightarrow>
        (if line = [] \<or> line = crlf \<or> line = [lf] then Ok (len, ctype, rest)
         else if MAX_HEADERS < seen + length line then Err HeadersTooLong
         else (case split_once (CHR '':'') line of
             None \<Rightarrow> read_headers (seen + length line) len ctype rest
           | Some (k, v) \<Rightarrow>
               (if eq_ignore_ascii_case (trim k) ''content-length'' then
                  (case parse_uint U64_MAX (trim v) of
                     None \<Rightarrow> Err BadContentLength
                   | Some n \<Rightarrow> read_headers (seen + length line) n ctype rest)
                else if eq_ignore_ascii_case (trim k) ''content-type'' then
                  read_headers (seen + length line) len (Some (trim v)) rest
                else read_headers (seen + length line) len ctype rest))))"
  by pat_completeness auto
termination
  by (relation "measure (\<lambda>(seen, len, ctype, s). length s)") (auto dest: read_text_line_shorter)

declare read_headers.simps [simp del]

definition read_request :: "string \<Rightarrow> request_error + http_request" where
  "read_request r = bind_result (read_text_line (take (MAX_HEADERS + MAX_BODY) r)) (\<lambda>(line, rest).
     let parts = split_whitespace line;
         meth = (case parts of m # _ \<Rightarrow> m | [] \<Rightarrow> []);
         path = (case parts of _ # p # _ \<Rightarrow> p | _ \<Rightarrow> [])
     in if meth = [] \<or> strip_prefix ''/'' path = None then Err NotRequest
        else bind_result (read_headers (length line) 0 None rest) (\<lambda>(len, ctype, rest).
          if MAX_BODY < len then Err BodyTooLong
          else if length rest < len then Err BodyCutShort
          else Ok \<lparr>hq_method = meth, hq_path = path, hq_content_type = ctype, hq_body = take len rest\<rparr>))"

definition http_reason :: "nat \<Rightarrow> string" where
  "http_reason status =
     (if status = 200 then ''OK'' else if status = 400 then ''Bad Request'' else if status = 403 then ''Forbidden''
      else if status = 428 then ''Precondition Required'' else if status = 404 then ''Not Found''
      else if status = 405 then ''Method Not Allowed'' else if status = 415 then ''Unsupported Media Type''
      else if status = 429 then ''Too Many Requests'' else if status = 503 then ''Service Unavailable'' else ''Error'')"

definition http_response :: "nat \<Rightarrow> string \<Rightarrow> string" where
  "http_response status body =
     ''HTTP/1.1 '' @ show_nat status @ '' '' @ http_reason status @ crlf @ ''Content-Type: application/json'' @ crlf
       @ ''Content-Length: '' @ show_nat (length body) @ crlf @ ''Connection: close'' @ crlf
       @ ''Cache-Control: no-store'' @ crlf @ crlf @ body"

section \<open>Each side reads what the other writes\<close>

lemma line_end_codes: "char_of (13 :: nat) = cr" "char_of (10 :: nat) = lf"
  by code_simp+

lemma line_end_white:
  assumes "c \<in> {cr, lf}" "v \<in> set white_space \<union> set (map rev white_space)" "hd v = c"
  shows "v = [c]"
proof -
  have c: "(of_char (hd v) :: nat) = 13 \<or> (of_char (hd v) :: nat) = 10" using assms(1,3) by auto
  have "length v = 1"
    using assms(2) c by (auto simp: white_space_def)
  with assms(3) show ?thesis by (cases v) auto
qed

lemma strip_line_end:
  assumes "c \<in> {cr, lf}" "ws = white_space \<or> ws = map rev white_space"
  shows "strip_start ws (c # s) = strip_start ws s"
proof -
  have "[c] \<in> set ws" using assms line_end_codes by (auto simp: white_space_def)
  moreover have "strips [c] (c # s)" by (simp add: strips_def)
  ultimately obtain v where v: "find (\<lambda>w. strips w (c # s)) ws = Some v"
    by (metis find_None_iff not_Some_eq)
  then have m: "v \<in> set ws" "strips v (c # s)" by (auto simp: find_Some_iff)
  then have "hd v = c" unfolding strips_def by (metis hd_take length_greater_0_conv list.sel(1))
  then have "v = [c]" using m(1) assms by (intro line_end_white) auto
  with v show ?thesis by (subst strip_start.simps) simp
qed

lemma trim_value:
  assumes "list_all is_graphic v"
  shows "trim (CHR '' '' # v @ crlf) = v"
proof (cases "v = []")
  case True
  have "strip_start ws [] = []" for ws using strip_start_suffix [of "[]" ws] by simp
  with True show ?thesis
    by (simp add: trim_def trim_end_def trim_start_space) (simp add: trim_start_def strip_line_end)
next
  case False
  obtain c cs where v: "v = c # cs" using False by (cases v) auto
  have "trim_start (CHR '' '' # v @ crlf) = v @ crlf"
    using assms by (simp add: trim_start_space trim_start_graphic v)
  moreover have "trim_end (v @ crlf) = trim_end v" by (simp add: trim_end_def strip_line_end)
  moreover have "trim_start v = v" using assms by (simp add: v trim_start_graphic)
  ultimately show ?thesis using trim_graphic [OF assms] by (simp add: trim_def)
qed

definition is_ascii :: "char \<Rightarrow> bool" where
  "is_ascii c \<longleftrightarrow> (of_char c :: nat) < 128"

lemma from_utf8_ascii: "list_all is_ascii s \<Longrightarrow> from_utf8 s"
  by (induction s) (simp_all add: is_ascii_def Let_def)

lemma graphic_ascii: "list_all is_graphic s \<Longrightarrow> list_all is_ascii s"
  by (auto simp: list_all_iff is_graphic_def is_ascii_def)

lemma graphic_free:
  assumes "list_all is_graphic s"
  shows "lf \<notin> set s" "cr \<notin> set s"
proof -
  have "\<not> is_graphic lf" "\<not> is_graphic cr" by (simp_all add: is_graphic_def)
  with assms show "lf \<notin> set s" "cr \<notin> set s" by (auto simp: list_all_iff)
qed

lemma find_lf: "lf \<notin> set s \<Longrightarrow> find_sub [lf] (s @ lf # t) = Some (length s)"
  by (induction s) auto

lemma read_text_line_crlf:
  assumes "lf \<notin> set l" "list_all is_ascii l"
  shows "read_text_line (l @ crlf @ t) = Ok (l @ crlf, t)"
proof -
  have "find_sub [lf] ((l @ [cr]) @ lf # t) = Some (length (l @ [cr]))"
    using assms(1) by (intro find_lf) simp
  moreover have "from_utf8 (l @ crlf)"
    using assms(2) by (intro from_utf8_ascii) (simp add: is_ascii_def)
  ultimately show ?thesis by (simp add: read_text_line_def)
qed

text \<open>A header line as both sides write it.\<close>

definition header_line :: "string \<Rightarrow> string \<Rightarrow> string" where
  "header_line k v = k @ '': '' @ v @ crlf"

lemma length_header_line [simp]: "length (header_line k v) = length k + length v + 4"
  by (simp add: header_line_def)

lemma read_header_line:
  assumes k: "list_all is_graphic k" "k \<noteq> []" "CHR '':'' \<notin> set k" and v: "list_all is_graphic v"
    and fits: "seen + length k + length v + 4 \<le> MAX_HEADERS"
  shows "read_headers seen len ctype (header_line k v @ t) =
    (if eq_ignore_ascii_case k ''content-length'' then
       (case parse_uint U64_MAX v of
          None \<Rightarrow> Err BadContentLength
        | Some n \<Rightarrow> read_headers (seen + length k + length v + 4) n ctype t)
     else if eq_ignore_ascii_case k ''content-type'' then
       read_headers (seen + length k + length v + 4) len (Some v) t
     else read_headers (seen + length k + length v + 4) len ctype t)"
proof -
  let ?l = "k @ '': '' @ v"
  have "lf \<notin> set ?l" "list_all is_ascii ?l"
    using graphic_free(1) [OF k(1)] graphic_free(1) [OF v] graphic_ascii [OF k(1)] graphic_ascii [OF v]
    by (simp_all add: is_ascii_def)
  from read_text_line_crlf [OF this, of t] have r: "read_text_line (header_line k v @ t) = Ok (header_line k v, t)"
    by (simp add: header_line_def)
  have s: "split_once (CHR '':'') (header_line k v) = Some (k, CHR '' '' # v @ crlf)"
    using split_once_append [OF k(3)] by (simp add: header_line_def)
  have n: "header_line k v \<noteq> []" "header_line k v \<noteq> crlf" "header_line k v \<noteq> [lf]"
    using k(1,2) graphic_free [OF k(1)] by (cases k; auto simp: header_line_def)+
  show ?thesis
    using fits by (simp add: read_headers.simps [of seen len ctype "header_line k v @ t"] r n s trim_value [OF v] trim_graphic [OF k(1)] add.assoc
        cong: option.case_cong del: append_Cons append_assoc)
qed

lemma read_headers_end: "read_headers seen len ctype (cr # lf # body) = Ok (len, ctype, body)"
  using read_text_line_crlf [of "[]" body] by (subst read_headers.simps) simp

lemma show_host_ip_graphic: "list_all is_graphic (show_host_ip a)"
proof -
  have nat: "list_all is_graphic (show_nat n)" for n
    using show_nat_digits [of n] by (auto simp: list_all_iff intro: is_graphic_digit)
  have hex: "list_all is_graphic (show_hex n)" for n
    using show_hex_digits [of n] hexdigits_free(5) by auto
  have four: "list_all is_graphic (show_ipv4 x)" for x by (simp add: show_ipv4_def nat) (simp add: is_graphic_def)
  have sub: "list_all is_graphic (fmt_subslice ss)" for ss
    by (induction ss rule: fmt_subslice.induct) (simp_all add: hex, simp add: is_graphic_def)
  have six: "list_all is_graphic (show_ipv6 x)" for x
    by (simp add: show_ipv6_def four sub Let_def split: option.splits prod.splits) (simp add: is_graphic_def)
  show "list_all is_graphic (show_host_ip a)" by (cases a) (simp_all add: show_host_ip_def four six)
qed

lemma split_word_space:
  assumes "list_all is_graphic w" "w \<noteq> []"
  shows "split_whitespace (w @ CHR '' '' # s) = w # split_whitespace s"
  using split_whitespace_word [OF assms, of "CHR '' '' # s"] strip_space by (auto simp: split_whitespace_space)

lemma trim_start_slash: "strip_prefix ''/'' path \<noteq> None \<Longrightarrow> \<exists>p. path = CHR ''/'' # p"
  by (cases path) (auto simp: strip_prefix_def split: if_splits)

lemma name_cases:
  "eq_ignore_ascii_case ''Host'' ''content-length'' = False" "eq_ignore_ascii_case ''Host'' ''content-type'' = False"
  "eq_ignore_ascii_case ''Content-Type'' ''content-length'' = False" "eq_ignore_ascii_case ''Content-Type'' ''content-type'' = True"
  "eq_ignore_ascii_case ''Content-Length'' ''content-length'' = True" "eq_ignore_ascii_case ''Connection'' ''content-length'' = False"
  "eq_ignore_ascii_case ''Connection'' ''content-type'' = False" "eq_ignore_ascii_case ''Cache-Control'' ''content-length'' = False"
  "eq_ignore_ascii_case ''Content-Type'' ''transfer-encoding'' = False" "eq_ignore_ascii_case ''Content-Length'' ''transfer-encoding'' = False"
  "eq_ignore_ascii_case ''Connection'' ''transfer-encoding'' = False" "eq_ignore_ascii_case ''Cache-Control'' ''transfer-encoding'' = False"
  by code_simp+

lemma graphic_names:
  "list_all is_graphic ''Host''" "list_all is_graphic ''Content-Type''" "list_all is_graphic ''Content-Length''"
  "list_all is_graphic ''Connection''" "list_all is_graphic ''Cache-Control''" "list_all is_graphic ''application/json''"
  "list_all is_graphic ''close''" "list_all is_graphic ''no-store''" "list_all is_graphic ''HTTP/1.1''"
  by (simp_all add: is_graphic_def)

lemma show_nat_graphic: "list_all is_graphic (show_nat n)"
  using show_nat_digits [of n] by (auto simp: list_all_iff intro: is_graphic_digit)

lemma length_show_host_ip: "length (show_host_ip a) \<le> 82"
  using length_show_ipv4 length_show_ipv6 by (cases a) (auto simp: show_host_ip_def intro: le_trans [of _ 15])

lemma length_show_size: "n < 100000 \<Longrightarrow> length (show_nat n) \<le> 5"
  using length_show_radix [of 10 n 4] by (simp add: show_nat_def)

lemma read_request_text:
  assumes m: "list_all is_graphic meth" "meth \<noteq> []" and p: "list_all is_graphic path" "strip_prefix ''/'' path \<noteq> None"
    and fits: "length meth + length path \<le> 1024" "length body \<le> MAX_BODY"
  shows "read_request (node_request_text ip meth path body) =
    Ok \<lparr>hq_method = meth, hq_path = path, hq_content_type = Some ''application/json'', hq_body = body\<rparr>"
proof -
  let ?l = "meth @ '' '' @ path @ '' HTTP/1.1''" and ?n = "show_nat (length body)"
  let ?hs = "header_line ''Host'' (show_host_ip ip) @ header_line ''Content-Type'' ''application/json''
    @ header_line ''Content-Length'' ?n @ header_line ''Connection'' ''close'' @ crlf @ body"
  have t: "node_request_text ip meth path body = ?l @ crlf @ ?hs"
    by (simp add: node_request_text_def header_line_def)
  have n: "length ?n \<le> 5" using fits(2) by (intro length_show_size) (simp add: MAX_BODY_def)
  have "length (?l @ crlf @ ?hs) \<le> MAX_HEADERS + MAX_BODY"
    using n length_show_host_ip [of ip] fits by (simp add: header_line_def MAX_HEADERS_def)
  then have w: "take (MAX_HEADERS + MAX_BODY) (node_request_text ip meth path body) = ?l @ crlf @ ?hs"
    unfolding t by simp
  have "lf \<notin> set ?l" "list_all is_ascii ?l"
    using graphic_free(1) [OF m(1)] graphic_free(1) [OF p(1)] graphic_ascii [OF m(1)] graphic_ascii [OF p(1)]
    by (simp_all add: is_ascii_def)
  note r = read_text_line_crlf [OF this, of ?hs]
  obtain q where q: "path = CHR ''/'' # q" using trim_start_slash [OF p(2)] by blast
  have ws: "split_whitespace (?l @ crlf) = meth # path # split_whitespace (''HTTP/1.1'' @ crlf)"
    using split_word_space [OF m] split_word_space [OF p(1)] q by simp
  let ?k = "length meth + length path + 12"
  have "read_headers ?k 0 None ?hs = Ok (length body, Some ''application/json'', body)"
    using n length_show_host_ip [of ip] fits
    by (simp add: read_header_line graphic_names show_nat_graphic show_host_ip_graphic name_cases read_headers_end is_graphic_def MAX_HEADERS_def MAX_BODY_def U64_MAX_def)
  moreover have "length (?l @ crlf) = ?k" by simp
  ultimately have h: "read_headers (length (?l @ crlf)) 0 None ?hs = Ok (length body, Some ''application/json'', body)"
    by (simp only:)
  show ?thesis
    unfolding read_request_def w r bind_result_simps Let_def prod.case ws h using m(2) p(2) fits(2) by simp
qed

text \<open>The head of an answer: its lines, joined by line ends.\<close>

fun join_lines :: "string list \<Rightarrow> string" where
  "join_lines [] = []"
| "join_lines [l] = l"
| "join_lines (l # ls) = l @ crlf @ join_lines ls"

definition plain_line :: "string \<Rightarrow> bool" where
  "plain_line l \<longleftrightarrow> l \<noteq> [] \<and> cr \<notin> set l \<and> lf \<notin> set l"

lemma find_sub_skip: "cr \<notin> set l \<Longrightarrow> find_sub (crlf @ crlf) (l @ s) = map_option (\<lambda>n. length l + n) (find_sub (crlf @ crlf) s)"
  by (induction l; cases "find_sub (crlf @ crlf) s") auto

lemma find_sub_head:
  "ls \<noteq> [] \<Longrightarrow> list_all plain_line ls \<Longrightarrow>
   find_sub (crlf @ crlf) (join_lines ls @ crlf @ crlf @ body) = Some (length (join_lines ls))"
proof (induction ls rule: join_lines.induct)
  case (2 l)
  then show ?case using find_sub_skip [of l "crlf @ crlf @ body"] by (simp add: plain_line_def)
next
  case (3 l l' ls)
  obtain c cs where c: "join_lines (l' # ls) = c # cs" "c \<noteq> cr"
    using 3(3) by (cases l'; cases ls) (auto simp: plain_line_def)
  have "find_sub (crlf @ crlf) (crlf @ join_lines (l' # ls) @ crlf @ crlf @ body)
      = map_option (\<lambda>n. 2 + n) (find_sub (crlf @ crlf) (join_lines (l' # ls) @ crlf @ crlf @ body))"
    using c by (simp add: option.map_comp comp_def)
  moreover have "cr \<notin> set l" using 3(3) by (simp add: plain_line_def)
  ultimately show ?case using 3(1) 3(3) find_sub_skip [of l "crlf @ join_lines (l' # ls) @ crlf @ crlf @ body"] by simp
qed simp

lemma strip_cr_plain: "cr \<notin> set l \<Longrightarrow> strip_cr (l @ [cr]) = l" "cr \<notin> set l \<Longrightarrow> strip_cr l = l"
  by (auto simp: strip_cr_def strip_suffix_def split: option.splits) (metis in_set_dropD list.set_intros(1))

lemma split_join_lines:
  "ls \<noteq> [] \<Longrightarrow> list_all plain_line ls \<Longrightarrow> split_on lf (join_lines ls) = map (\<lambda>l. l @ [cr]) (butlast ls) @ [last ls]"
proof (induction ls rule: join_lines.induct)
  case (3 l l' ls)
  have "lf \<notin> set (l @ [cr])" using 3(3) by (simp add: plain_line_def)
  from split_on_append [OF this, of "join_lines (l' # ls)"] 3(1) 3(3) show ?case by simp
qed (simp_all add: plain_line_def split_on_free)

lemma str_lines_join:
  assumes "ls \<noteq> []" "list_all plain_line ls"
  shows "str_lines (join_lines ls) = ls"
proof -
  have l: "last ls \<noteq> []" "cr \<notin> set (last ls)" using assms by (auto simp: list_all_iff plain_line_def dest: last_in_set)
  have "map strip_cr (map (\<lambda>l. l @ [cr]) (butlast ls)) = butlast ls"
    using assms(2) by (auto simp: list_all_iff plain_line_def strip_cr_plain intro!: map_idI dest: in_set_butlastD)
  then show ?thesis
    using l assms(1) by (simp add: str_lines_def split_join_lines [OF assms] strip_cr_plain Let_def)
qed

definition hline :: "string \<times> string \<Rightarrow> string" where
  "hline kv = fst kv @ '': '' @ snd kv"

definition header_ok :: "string \<times> string \<Rightarrow> bool" where
  "header_ok kv \<longleftrightarrow> list_all is_graphic (fst kv) \<and> fst kv \<noteq> [] \<and> CHR '':'' \<notin> set (fst kv) \<and> list_all is_graphic (snd kv)"

lemma trim_space_value: "list_all is_graphic v \<Longrightarrow> trim (CHR '' '' # v) = v"
  using trim_graphic [of v] by (simp add: trim_def trim_start_space)

lemma hline_plain: "header_ok kv \<Longrightarrow> plain_line (hline kv)"
  using graphic_free [of "fst kv"] graphic_free [of "snd kv"] by (auto simp: header_ok_def plain_line_def hline_def)

lemma header_join:
  assumes "plain_line l" "list_all header_ok kvs"
  shows "header (join_lines (l # map hline kvs)) name =
    map_option snd (find (\<lambda>kv. eq_ignore_ascii_case (fst kv) name) kvs)"
proof -
  have ls: "str_lines (join_lines (l # map hline kvs)) = l # map hline kvs"
    using assms by (intro str_lines_join) (auto simp: list_all_iff hline_plain)
  have one: "split_once (CHR '':'') (hline kv) = Some (fst kv, CHR '' '' # snd kv)" if "header_ok kv" for kv
    using that split_once_append [of "CHR '':''" "fst kv" "CHR '' '' # snd kv"] by (simp add: header_ok_def hline_def)
  have "(case List.map_filter (\<lambda>l. case split_once (CHR '':'') l of
        Some (k, v) \<Rightarrow> if eq_ignore_ascii_case (trim k) name then Some (trim v) else None | None \<Rightarrow> None) (map hline kvs) of
      v # _ \<Rightarrow> Some v | [] \<Rightarrow> None) = map_option snd (find (\<lambda>kv. eq_ignore_ascii_case (fst kv) name) kvs)"
    using assms(2)
  proof (induction kvs)
    case (Cons kv kvs)
    then have "trim (fst kv) = fst kv" "trim (CHR '' '' # snd kv) = snd kv"
      by (simp_all add: header_ok_def trim_graphic trim_space_value)
    with Cons show ?case by (simp add: one map_filter_simps)
  qed (simp add: map_filter_simps)
  then show ?thesis by (simp add: header_def ls)
qed

definition answer_headers :: "nat \<Rightarrow> (string \<times> string) list" where
  "answer_headers n = [(''Content-Type'', ''application/json''), (''Content-Length'', show_nat n),
     (''Connection'', ''close''), (''Cache-Control'', ''no-store'')]"

lemma answer_headers_ok: "list_all header_ok (answer_headers n)"
  by (simp add: answer_headers_def header_ok_def show_nat_graphic is_graphic_def)

lemma reason_plain: "cr \<notin> set (http_reason st)" "lf \<notin> set (http_reason st)" "length (http_reason st) \<le> 22"
  by (simp_all add: http_reason_def)

lemma http_response_read:
  assumes st: "status \<le> 65535" and b: "from_utf8 body" "length body \<le> 65000"
  shows "parse_response (take MAX_NODE_ANSWER (http_response status body)) = Ok (status, body)"
proof -
  let ?l = "''HTTP/1.1'' @ CHR '' '' # show_nat status @ CHR '' '' # http_reason status"
  let ?n = "length body"
  let ?h = "join_lines (?l # map hline (answer_headers ?n))"
  have t: "http_response status body = ?h @ crlf @ crlf @ body"
    by (simp add: http_response_def answer_headers_def hline_def)
  have l: "plain_line ?l"
    using reason_plain(1,2) [of status] graphic_free [OF show_nat_graphic, of status] by (simp add: plain_line_def)
  have ls: "list_all plain_line (?l # map hline (answer_headers ?n))"
    using l answer_headers_ok [of ?n] by (auto simp: list_all_iff hline_plain)
  have "length (show_nat status) \<le> 5" "length (show_nat ?n) \<le> 5" using st b by (simp_all add: length_show_size)
  then have len: "length (?h @ crlf @ crlf @ body) \<le> MAX_NODE_ANSWER"
    using reason_plain(3) [of status] b(2) by (simp add: answer_headers_def hline_def MAX_NODE_ANSWER_def)
  have f: "find_sub (crlf @ crlf) (?h @ crlf @ crlf @ body) = Some (length ?h)"
    by (rule find_sub_head [OF _ ls]) simp
  have "split_whitespace ?l = ''HTTP/1.1'' # show_nat status # split_whitespace (http_reason status)"
    by (subst split_word_space) (simp_all add: is_graphic_def split_word_space show_nat_graphic)
  moreover have "str_lines ?h = ?l # map hline (answer_headers ?n)" by (rule str_lines_join [OF _ ls]) simp
  ultimately have s: "status_of ?h = Some status" using st by (simp add: status_of_def)
  note h = header_join [OF l answer_headers_ok [of ?n]]
  have "header ?h ''transfer-encoding'' = None" "header ?h ''content-length'' = Some (show_nat ?n)"
    unfolding h by (simp_all add: answer_headers_def name_cases)
  then have a: "answer_body ?h body = Ok body" using b(2) by (simp add: answer_body_def U64_MAX_def)
  have big: "\<not> MAX_ANSWER \<le> length (?h @ crlf @ crlf @ body)"
    using len by (simp only: MAX_ANSWER_def MAX_NODE_ANSWER_def)
  have parts: "take (length h) (h @ crlf @ crlf @ b) = h" "drop (length h + 4) (h @ crlf @ crlf @ b) = b" for h b :: string
    by simp_all
  have "take MAX_NODE_ANSWER (http_response status body) = ?h @ crlf @ crlf @ body"
    using len unfolding t by simp
  then show ?thesis
    unfolding parse_response_def by (simp only: big f parts s a if_False option.case bind_result_simps b(1) if_True)
qed

text \<open>
  Claim C36. A call over HTTP is a call of the node's handler. When the node answers what
  \<open>read_request\<close> makes of the bytes it receives with \<open>http_response\<close>, the client is
  answered exactly what the handler answers the method, path and body it asked with,
  declared JSON: for every path and body within the limits of the request, and every
  answer of text within 65,000 bytes.
\<close>

theorem http_call_reaches_handler:
  assumes node: "\<And>t q. read_request t = Ok q \<Longrightarrow>
      nl_exchange link i addr t = Some (http_response (fst (serve q)) (snd (serve q)))"
    and ask: "list_all is_graphic meth" "meth \<noteq> []" "list_all is_graphic path" "strip_prefix ''/'' path \<noteq> None"
      "length meth + length path \<le> 1024" "length body \<le> MAX_BODY"
    and answer: "serve \<lparr>hq_method = meth, hq_path = path, hq_content_type = Some ''application/json'', hq_body = body\<rparr> = (status, out)"
      "status \<le> 65535" "from_utf8 out" "length out \<le> 65000"
  shows "http_call link i addr meth path body = Ok (status, out)"
  using node [OF read_request_text [OF ask, of "sa_ip addr"]] answer
  by (simp add: http_call_def http_response_read)

definition sample_serve :: "http_request \<Rightarrow> nat \<times> string" where
  "sample_serve q = (if hq_method q = ''POST'' \<and> is_json q then (200, hq_body q) else (404, []))"

definition sample_link :: node_link where
  "sample_link = \<lparr>nl_admit_json = (\<lambda>_. ''{}''), nl_redeem_json = (\<lambda>_. ''{}''), nl_refusal = (\<lambda>_. None), nl_invite = (\<lambda>_. None),
     nl_record = (\<lambda>_. None), nl_exchange = (\<lambda>_ _ t. case read_request t of
        Ok q \<Rightarrow> Some (http_response (fst (sample_serve q)) (snd (sample_serve q))) | Err _ \<Rightarrow> None)\<rparr>"

theorem http_call_reaches_handler_witness:
  "http_call sample_link 0 \<lparr>sa_ip = V4 0x7F000001, sa_port = 51821\<rparr> ''POST'' ''/redeem'' ''{}'' = Ok (200, ''{}'')"
proof (rule http_call_reaches_handler [where serve = sample_serve])
  have "trim (hd (split_on (CHR '';'') ''application/json'')) = ''application/json''"
    by (simp add: split_on_free) (rule trim_graphic, simp add: is_graphic_def)
  then show "sample_serve \<lparr>hq_method = ''POST'', hq_path = ''/redeem'', hq_content_type = Some ''application/json'', hq_body = ''{}''\<rparr>
      = (200, ''{}'')"
    by (simp add: sample_serve_def is_json_def)
qed (simp_all add: sample_link_def is_graphic_def strip_prefix_def MAX_BODY_def)

section \<open>What a node may say of itself\<close>

lemma ask_at_Ok: "ask_at r = Ok a \<Longrightarrow> \<exists>e. parse_socket_addr (nr_endpoint r) = Some e \<and> sa_ip a = sa_ip e"
  by (auto simp: ask_at_def split: option.splits)

text \<open>The node's invite, with what the list says of the node in place of what it says.\<close>

definition as_listed :: "node_record \<Rightarrow> invite \<Rightarrow> invite" where
  "as_listed r invt = invt\<lparr>i_node_name := nr_node_name r, i_operator := nr_operator r, i_role := nr_role r,
     i_country := nr_country r, i_admission := nr_admission r, i_admission_port := nr_admission_port r,
     i_features := nr_features r, i_pass := None, i_behind := False\<rparr>"

lemma as_listed_sel [simp]:
  "i_node_name (as_listed r i) = nr_node_name r" "i_operator (as_listed r i) = nr_operator r" "i_role (as_listed r i) = nr_role r"
  "i_country (as_listed r i) = nr_country r" "i_admission (as_listed r i) = nr_admission r"
  "i_admission_port (as_listed r i) = nr_admission_port r" "i_features (as_listed r i) = nr_features r"
  "i_pass (as_listed r i) = None" "i_behind (as_listed r i) = False" "i_node_public_key (as_listed r i) = i_node_public_key i"
  "endpoint_addr (as_listed r i) = endpoint_addr i" "client_ip (as_listed r i) = client_ip i" "client_ip6 (as_listed r i) = client_ip6 i"
  "i_dns (as_listed r i) = i_dns i" "i_mtu (as_listed r i) = i_mtu i"
  by (simp_all add: as_listed_def endpoint_addr_def client_ip_def client_ip6_def)

lemma checked_invite_Ok:
  assumes "checked_invite env link r answer = Ok invt"
  obtains i where "nl_invite link answer = Some i" "invt = as_listed r i" "validate_invite env i = Ok ()" "i_key i = r_key r"
    "ok_opt (endpoint_addr i) = parse_socket_addr (nr_endpoint r)"
  using assms by (auto simp: checked_invite_def map_invite_err_def bind_result_eq_Ok as_listed_def [symmetric] ok_opt_def
      split: option.splits sum.splits if_splits)

lemma validate_as_listed:
  assumes "validate_invite env i = Ok ()" "check_country (nr_country r)"
  shows "validate_invite env (as_listed r i) = Ok ()"
  using assms unfolding validate_invite_def validate_shape_def check_dns_def bind_result_eq_Ok
  by (auto simp: bind_result_eq_Ok split: sum.splits if_splits)

text \<open>What a redeemed pass gives: the listed node's invite, with the pass's key and how it was shown.\<close>

lemma redeem_pass_Ok:
  assumes "redeem_pass env link now r p behind = Ok invt"
  obtains i where "invt = (as_listed r i)\<lparr>i_pass := Some \<lparr>pb_client_secret = ps_client_secret p,
      pb_admission_port = nr_admission_port r, pb_redeemed_at = now, pb_used_at = 0, pb_behind = Some behind\<rparr>\<rparr>"
    "validate_invite env i = Ok ()" "i_key i = r_key r" "ok_opt (endpoint_addr i) = parse_socket_addr (nr_endpoint r)"
    "trim (ps_node_public_key p) = r_key r"
proof -
  obtain answer j where "checked_invite env link r answer = Ok j" "trim (ps_node_public_key p) = r_key r"
    "invt = j\<lparr>i_pass := Some \<lparr>pb_client_secret = ps_client_secret p,
      pb_admission_port = nr_admission_port r, pb_redeemed_at = now, pb_used_at = 0, pb_behind = Some behind\<rparr>\<rparr>"
    using assms by (auto simp: redeem_pass_def bind_result_def split: if_splits sum.splits prod.splits)
  then show ?thesis using that by (auto elim!: checked_invite_Ok)
qed

text \<open>
  What the node answered to a pass, if the pass reached it and an answer came back; and
  what a redemption makes of it. A pass is refused exactly by an answer below 500 that is no
  invite of the listed node.
\<close>

definition redeem_answer :: "'a pass_env_scheme \<Rightarrow> node_link \<Rightarrow> node_record \<Rightarrow> pass \<Rightarrow> (nat \<times> string) option" where
  "redeem_answer env link r p = (case (ask_at r, redemption_of env p) of
      (Ok addr, Ok rd) \<Rightarrow> ok_opt (http_call link 0 addr ''POST'' ''/redeem'' (nl_redeem_json link rd))
    | _ \<Rightarrow> None)"

lemma redeem_pass_decided:
  assumes "trim (ps_node_public_key p) = r_key r"
  shows "(\<exists>status answer. redeem_answer env link r p = Some (status, answer) \<and> status < 500)
    \<longleftrightarrow> (case redeem_pass env link now r p behind of Ok _ \<Rightarrow> True | Err e \<Rightarrow> pass_was_refused e)"
  using assms
  by (auto simp: redeem_answer_def redeem_pass_def pass_was_refused_def bind_result_def ask_at_def http_call_def
      split: if_splits sum.splits option.splits prod.splits)

lemma redeem_pass_no_invite:
  assumes "redeem_pass env link now r p behind = Err e" "trim (ps_node_public_key p) = r_key r"
    and "redeem_answer env link r p = Some (200, answer)"
  shows "\<not> is_ok (checked_invite env link r answer)"
  using assms
  by (auto simp: redeem_answer_def redeem_pass_def bind_result_def ask_at_def http_call_def
      split: if_splits sum.splits option.splits prod.splits)

end
