(* ===== verification/Account_Token.thy ===== *)
theory Account_Token
  imports Http "HOL-Library.AList"
begin

text \<open>
  The account token a client buys and fetches passes with
  (\<^verbatim>\<open>hidravpn-service/src/passes.rs\<close>: \<open>read_token\<close>, \<open>keep_token\<close>, \<open>token_for_purchase\<close>),
  and the atomic write of \<^verbatim>\<open>daemon.rs\<close> it uses. A \<open>folder\<close> is what the directory of
  the pocket holds, by name; \<open>Odd\<close> stands for an entry that is there and cannot be read
  as a file. Every write has an outcome, so a full disk or a crash at any point is an
  outcome that did not move the file into place. \<open>lossy\<close> is \<^verbatim>\<open>from_utf8_lossy\<close>.

  The issuer keeps only the hash of a token, so the copies here may be the only ones:
  the lemmas give that no operation, however its writes end, loses a token the folder
  held.
\<close>

section \<open>The folder\<close>

datatype folder_entry = Bytes string | Odd

type_synonym folder = "(string \<times> folder_entry) list"

datatype write_end = NotOpened | CutAt string | NotMoved | Written

datatype token_error = NoTokenFile | NotAToken | TokenUnread | WriteFailed | NoTokenDrawn

definition tmp_name :: "string \<Rightarrow> string" where
  "tmp_name p = p @ ''.tmp''"

definition write_private_atomic :: "write_end \<Rightarrow> string \<Rightarrow> string \<Rightarrow> folder \<Rightarrow> folder \<times> (token_error + unit)" where
  "write_private_atomic w path data f =
     (if map_of f (tmp_name path) = Some Odd then (f, Err WriteFailed)
      else (case w of
          NotOpened \<Rightarrow> (f, Err WriteFailed)
        | CutAt part \<Rightarrow> (AList.update (tmp_name path) (Bytes part) f, Err WriteFailed)
        | NotMoved \<Rightarrow> (AList.update (tmp_name path) (Bytes data) f, Err WriteFailed)
        | Written \<Rightarrow>
            (if map_of f path = Some Odd then (AList.update (tmp_name path) (Bytes data) f, Err WriteFailed)
             else (AList.update path (Bytes data) (AList.delete (tmp_name path) f), Ok ()))))"

section \<open>Tokens\<close>

definition parse_token :: "string \<Rightarrow> token_error + string" where
  "parse_token s =
     (let t = trim s
      in if t = [] \<or> 512 < length t \<or> list_ex (\<lambda>w. find_sub w t \<noteq> None) white_space then Err NotAToken else Ok t)"

definition read_token :: "string \<Rightarrow> folder \<Rightarrow> token_error + string" where
  "read_token path f = (case map_of f path of
      None \<Rightarrow> Err NoTokenFile
    | Some Odd \<Rightarrow> Err NoTokenFile
    | Some (Bytes b) \<Rightarrow> if from_utf8 b then parse_token b else Err NoTokenFile)"

definition previous_token_path :: "string \<Rightarrow> nat \<Rightarrow> string" where
  "previous_token_path path n = path @ ''.previous'' @ (if 0 < n then ''.'' @ show_nat n else [])"

text \<open>The number a name beside the token carries, if it is one of \<open>previous_token_path\<close>'s.\<close>

definition previous_number :: "string \<Rightarrow> string \<Rightarrow> nat option" where
  "previous_number path name = (case strip_prefix (previous_token_path path 0) name of
      None \<Rightarrow> None
    | Some rest \<Rightarrow>
        (if rest = [] then Some 0
         else (case strip_prefix ''.'' rest of
             None \<Rightarrow> None
           | Some r \<Rightarrow> (case parse_uint (2 ^ 32 - 1) r of
               Some n \<Rightarrow> if 0 < n then Some n else None
             | None \<Rightarrow> None))))"

definition kept_tokens :: "bool \<Rightarrow> string \<Rightarrow> folder \<Rightarrow> string list" where
  "kept_tokens listable path f =
     (if listable then map (previous_token_path path) (sort (List.map_filter (previous_number path) (map fst f))) else [])"

text \<open>
  The first free name. Among \<open>length f + 1\<close> names one is always free, so the search the
  code writes over all numbers ends there.
\<close>

definition free_token_path :: "string \<Rightarrow> folder \<Rightarrow> string option" where
  "free_token_path path f =
     find (\<lambda>p. map_of f p = None) (map (previous_token_path path) [0..<Suc (length f)])"

definition says_token :: "(string \<Rightarrow> string) \<Rightarrow> string \<Rightarrow> folder_entry option \<Rightarrow> bool" where
  "says_token lossy t s = (case s of Some (Bytes b) \<Rightarrow> trim (lossy b) = t | _ \<Rightarrow> False)"

text \<open>The outcomes of the two writes, and whether the directory can be listed.\<close>

record keep_io =
  io_listable :: bool
  io_keep :: write_end
  io_put :: write_end

definition keep_aside ::
  "(string \<Rightarrow> string) \<Rightarrow> keep_io \<Rightarrow> string \<Rightarrow> string \<Rightarrow> folder \<Rightarrow> folder \<times> (token_error + string option)" where
  "keep_aside lossy io path old f =
     (case find (\<lambda>p. says_token lossy (trim (lossy old)) (map_of f p)) (kept_tokens (io_listable io) path f) of
        Some p \<Rightarrow> (f, Ok (Some p))
      | None \<Rightarrow> (case free_token_path path f of
          None \<Rightarrow> (f, Err WriteFailed)
        | Some free \<Rightarrow> (case write_private_atomic (io_keep io) free old f of
            (f, Err e) \<Rightarrow> (f, Err e)
          | (f, Ok _) \<Rightarrow> (f, Ok (Some free)))))"

definition keep_token ::
  "(string \<Rightarrow> string) \<Rightarrow> keep_io \<Rightarrow> string \<Rightarrow> string \<Rightarrow> folder \<Rightarrow> folder \<times> (token_error + string option)" where
  "keep_token lossy io path token f =
     (case map_of f path of
        Some Odd \<Rightarrow> (f, Err TokenUnread)
      | before \<Rightarrow>
          (case (case before of
                   Some (Bytes old) \<Rightarrow>
                     (if trim (lossy old) \<noteq> [] \<and> trim (lossy old) \<noteq> token then keep_aside lossy io path old f
                      else (f, Ok None))
                 | _ \<Rightarrow> (f, Ok None)) of
             (f, Err e) \<Rightarrow> (f, Err e)
           | (f, Ok kept) \<Rightarrow> (case write_private_atomic (io_put io) path token f of
               (f, Err e) \<Rightarrow> (f, Err e)
             | (f, Ok _) \<Rightarrow> (f, Ok kept))))"

definition token_for_purchase ::
  "(8 word list \<Rightarrow> string) \<Rightarrow> 8 word list option \<Rightarrow> write_end \<Rightarrow> string \<Rightarrow> folder \<Rightarrow> folder \<times> (token_error + string \<times> bool)" where
  "token_for_purchase url_b64 raw w path f =
     (case read_token path f of
        Ok t \<Rightarrow> (f, Ok (t, False))
      | Err e \<Rightarrow>
          (if map_of f path = None then
             (case raw of
                None \<Rightarrow> (f, Err NoTokenDrawn)
              | Some raw \<Rightarrow> (case write_private_atomic w path (url_b64 raw) f of
                  (f, Err e) \<Rightarrow> (f, Err e)
                | (f, Ok _) \<Rightarrow> (f, Ok (url_b64 raw, True))))
           else (f, Err e)))"

text \<open>
  What a client does with the token over time: \<open>passes token\<close> and the service's
  \<open>set_pass_token\<close> keep a given one, \<open>passes buy\<close> makes one when there is none.
\<close>

inductive token_step :: "(string \<Rightarrow> string) \<Rightarrow> string \<Rightarrow> folder \<Rightarrow> folder \<Rightarrow> bool" for lossy path where
  keep: "parse_token s = Ok t \<Longrightarrow> from_utf8 t \<Longrightarrow> token_step lossy path f (fst (keep_token lossy io path t f))"
| purchase: "token_step lossy path f (fst (token_for_purchase url_b64 raw w path f))"

definition token_held :: "(string \<Rightarrow> string) \<Rightarrow> string \<Rightarrow> folder \<Rightarrow> string \<Rightarrow> bool" where
  "token_held lossy path f t \<longleftrightarrow> t \<noteq> [] \<and>
     (says_token lossy t (map_of f path) \<or> (\<exists>n. says_token lossy t (map_of f (previous_token_path path n))))"

section \<open>Names\<close>

lemma digit_text: "c \<in> set (show_nat n) \<Longrightarrow> is_ascii_digit c"
  using show_nat_digits [of n] by (simp add: list_all_iff)

lemma previous_names:
  "previous_token_path path n = previous_token_path path m \<longleftrightarrow> n = m"
  "previous_token_path path n \<noteq> path" "tmp_name p \<noteq> p"
  by (auto simp: previous_token_path_def tmp_name_def)

lemma tmp_not_digits: "''tmp'' \<noteq> show_nat m" "x @ ''.tmp'' \<noteq> show_nat m"
proof -
  have "CHR ''t'' \<notin> set (show_nat m)"
    using digit_text [of "CHR ''t''" m] by (auto simp: is_ascii_digit_def)
  moreover have "CHR ''t'' \<in> set ''tmp''" "CHR ''t'' \<in> set (x @ ''.tmp'')" by simp_all
  ultimately show "''tmp'' \<noteq> show_nat m" "x @ ''.tmp'' \<noteq> show_nat m" by metis+
qed

lemma tmp_names: "tmp_name path \<noteq> previous_token_path path m" "tmp_name (previous_token_path path n) \<noteq> previous_token_path path m"
    "tmp_name (previous_token_path path n) \<noteq> path"
  using tmp_not_digits(1) [of m] tmp_not_digits(2) [of "show_nat n" m]
  by (auto simp: tmp_name_def previous_token_path_def)

lemma free_name_exists: "\<exists>p. free_token_path path f = Some p"
proof (rule ccontr)
  assume "\<nexists>p. free_token_path path f = Some p"
  then have "\<forall>p\<in>previous_token_path path ` set [0..<Suc (length f)]. p \<in> fst ` set f"
    by (auto simp: free_token_path_def find_None_iff map_of_eq_None_iff)
  then have "card (previous_token_path path ` set [0..<Suc (length f)]) \<le> card (fst ` set f)"
    by (intro card_mono) auto
  also have "\<dots> \<le> length f" using card_image_le [of "set f" fst] card_length [of f] by simp
  also have "card (previous_token_path path ` set [0..<Suc (length f)]) = Suc (length f)"
    by (subst card_image) (auto simp: inj_on_def previous_names)
  finally show False by simp
qed

lemma free_token_path_Some: "free_token_path path f = Some p \<Longrightarrow> map_of f p = None \<and> (\<exists>n. p = previous_token_path path n)"
  by (auto simp: free_token_path_def find_Some_iff simp del: upt_Suc)

lemma kept_token_name: "p \<in> set (kept_tokens b path f) \<Longrightarrow> \<exists>n. p = previous_token_path path n"
  by (auto simp: kept_tokens_def split: if_splits)

section \<open>No token is lost\<close>

lemma write_elsewhere:
  "write_private_atomic w q data f = (f', r) \<Longrightarrow> p \<noteq> q \<Longrightarrow> p \<noteq> tmp_name q \<Longrightarrow> map_of f' p = map_of f p"
  by (auto simp: write_private_atomic_def update_conv' delete_conv' split: write_end.splits if_splits)

lemma write_here:
  "write_private_atomic w q data f = (f', r) \<Longrightarrow>
   (case r of Ok _ \<Rightarrow> map_of f' q = Some (Bytes data) | Err _ \<Rightarrow> map_of f' q = map_of f q)"
  using previous_names(3) [of q]
  by (auto simp: write_private_atomic_def update_conv' split: write_end.splits if_splits)

lemma keep_aside_keeps:
  assumes "keep_aside lossy io path old f = (f', r)"
  shows "map_of f' path = map_of f path"
    and "says_token lossy t (map_of f (previous_token_path path n)) \<Longrightarrow> says_token lossy t (map_of f' (previous_token_path path n))"
    and "r = Ok kept \<Longrightarrow> \<exists>n. says_token lossy (trim (lossy old)) (map_of f' (previous_token_path path n))"
proof -
  obtain free m where free: "free_token_path path f = Some free" "free = previous_token_path path m" "map_of f free = None"
    using free_name_exists free_token_path_Some by blast
  consider p where "f' = f" "p \<in> set (kept_tokens (io_listable io) path f)" "says_token lossy (trim (lossy old)) (map_of f p)"
    | r' where "write_private_atomic (io_keep io) free old f = (f', r')" "r = Ok kept \<Longrightarrow> r' = Ok ()"
    using assms free(1) by (auto simp: keep_aside_def find_Some_iff split: option.splits prod.splits sum.splits dest: nth_mem)
  note cs = this
  show "map_of f' path = map_of f path"
    by (rule cs) (use free(2) previous_names(2) [of path m] tmp_names(3) [of path m] in \<open>auto dest!: write_elsewhere [of _ _ _ _ _ _ path]\<close>)
  show "says_token lossy t (map_of f (previous_token_path path n)) \<Longrightarrow> says_token lossy t (map_of f' (previous_token_path path n))"
    by (rule cs; cases "n = m")
      (use free tmp_names(2) [of path m n] in \<open>auto simp: says_token_def previous_names dest!: write_elsewhere [of _ _ _ _ _ _ "previous_token_path path n"]\<close>)
  show "r = Ok kept \<Longrightarrow> \<exists>n. says_token lossy (trim (lossy old)) (map_of f' (previous_token_path path n))"
  proof (rule cs, goal_cases)
    case (1 p)
    then show ?thesis using kept_token_name by blast
  next
    case (2 r')
    then show ?thesis using write_here [of _ _ _ _ f' r'] free(2) by (auto simp: says_token_def intro!: exI [of _ m])
  qed
qed

text \<open>The three ways a replacement goes: refused, the old token put aside first, or nothing to put aside.\<close>

lemma keep_token_cases:
  assumes "keep_token lossy io path token f = (g, r)"
  obtains (unread) "g = f" "\<nexists>k. r = Ok k"
  | (aside) old f' k r' where "map_of f path = Some (Bytes old)" "keep_aside lossy io path old f = (f', Ok k)"
      "write_private_atomic (io_put io) path token f' = (g, r')" "\<And>k. r = Ok k \<Longrightarrow> r' = Ok ()"
  | (not_aside) old e where "keep_aside lossy io path old f = (g, Err e)" "r = Err e"
  | (none_there) r' where "write_private_atomic (io_put io) path token f = (g, r')" "\<And>k. r = Ok k \<Longrightarrow> r' = Ok ()"
      "\<And>t. says_token lossy t (map_of f path) \<Longrightarrow> t = [] \<or> t = token"
  using assms
  by (auto simp: keep_token_def says_token_def split: option.splits folder_entry.splits sum.splits prod.splits if_splits)

lemma token_written: "keep_token lossy io path token f = (g, Ok kept) \<Longrightarrow> map_of g path = Some (Bytes token)"
  by (erule keep_token_cases) (auto dest: write_here)

lemma token_heldI:
  "t \<noteq> [] \<Longrightarrow> says_token lossy t (map_of f path) \<Longrightarrow> token_held lossy path f t"
  "t \<noteq> [] \<Longrightarrow> says_token lossy t (map_of f (previous_token_path path n)) \<Longrightarrow> token_held lossy path f t"
  by (auto simp: token_held_def)

lemma write_keeps_previous:
  assumes "write_private_atomic w path data f = (g, r)"
  shows "map_of g (previous_token_path path n) = map_of f (previous_token_path path n)"
  using write_elsewhere [OF assms, of "previous_token_path path n"] previous_names(2) [of path n] tmp_names(1) [of path n] by metis

lemma keep_token_holds:
  assumes k: "keep_token lossy io path token f = (g, r)" and h: "token_held lossy path f t"
    and w: "trim (lossy token) = token"
  shows "token_held lossy path g t"
  using k
proof (cases rule: keep_token_cases)
  case unread
  with h show ?thesis by simp
next
  case (aside old f' k r')
  note keeps = keep_aside_keeps [OF aside(2)] and same = write_keeps_previous [OF aside(3)]
  from h consider n where "says_token lossy t (map_of f (previous_token_path path n))" | "t = trim (lossy old)"
    using aside(1) by (auto simp: token_held_def says_token_def)
  then show ?thesis
    using h keeps(2,3) same by cases (auto simp: token_held_def)
next
  case (not_aside old e)
  with h show ?thesis using keep_aside_keeps [OF not_aside(1)] by (auto simp: token_held_def)
next
  case (none_there r')
  note same = write_keeps_previous [OF none_there(1)]
  from h consider n where "says_token lossy t (map_of f (previous_token_path path n))" | "says_token lossy t (map_of f path)" "t = token"
    using none_there(3) by (auto simp: token_held_def)
  then show ?thesis
    using h same write_here [OF none_there(1)] w by cases (auto simp: token_held_def says_token_def split: sum.splits)
qed

lemma trim_of_token: "parse_token s = Ok t \<Longrightarrow> trim t = t"
  by (auto simp: parse_token_def Let_def split: if_splits)

lemma purchase_holds:
  assumes "token_held lossy path f t"
  shows "token_held lossy path (fst (token_for_purchase url_b64 raw w path f)) t"
proof (cases "map_of f path = None")
  case True
  with assms obtain n where n: "t \<noteq> []" "says_token lossy t (map_of f (previous_token_path path n))"
    by (auto simp: token_held_def says_token_def)
  then show ?thesis
    using write_keeps_previous [of w path _ f]
    by (auto simp: token_for_purchase_def says_token_def intro!: token_heldI(2) [of _ _ _ _ n]
        split: sum.splits option.splits prod.splits)
next
  case False
  with assms show ?thesis by (auto simp: token_for_purchase_def split: sum.splits)
qed

text \<open>
  Claim C37. No account token is ever lost: through any sequence of replacements
  and purchases, whatever each write does (a directory that cannot be listed, a file
  cut short or never moved into place, an old token that could not be put aside), each
  token the folder held as the current one or among those kept aside is held at the
  end. Replacements that succeed leave the new token as the current one.
\<close>

theorem no_token_lost:
  assumes "(token_step lossy path)\<^sup>*\<^sup>* f g" "token_held lossy path f t"
    and lossy: "\<And>s. from_utf8 s \<Longrightarrow> lossy s = s"
  shows "token_held lossy path g t
    \<and> (\<forall>io token h kept. keep_token lossy io path token g = (h, Ok kept) \<longrightarrow> map_of h path = Some (Bytes token))"
proof -
  from assms(1,2) have "token_held lossy path g t"
  proof (induction rule: rtranclp_induct)
    case (step g h)
    from step.hyps(2) show ?case
    proof cases
      case (keep s u io)
      with step show ?thesis
        using keep_token_holds [of lossy io path u g] lossy trim_of_token by (metis prod.collapse)
    next
      case (purchase url_b64 raw w)
      with step show ?thesis using purchase_holds by simp
    qed
  qed
  then show ?thesis using token_written by auto
qed

lemma find_sub_chars: "find_sub pat s = Some i \<Longrightarrow> set pat \<subseteq> set s"
proof (induction s arbitrary: i)
  case (Cons c s)
  show ?case
  proof (cases "take (length pat) (c # s) = pat")
    case True
    then show ?thesis by (metis set_take_subset)
  qed (use Cons in \<open>force split: if_splits\<close>)
qed (simp split: if_splits)

lemma parse_token_word:
  assumes "list_all is_graphic t" "t \<noteq> []" "length t \<le> 512"
  shows "parse_token t = Ok t"
proof -
  have "find_sub w t = None" if w: "w \<in> set white_space" for w
  proof (rule ccontr)
    assume "find_sub w t \<noteq> None"
    then have "list_all is_graphic w" using assms(1) by (auto simp: list_all_iff dest!: find_sub_chars)
    with w show False by (auto simp: white_space_def is_graphic_def)
  qed
  then show ?thesis using assms trim_graphic [OF assms(1)] by (auto simp: parse_token_def list_ex_iff)
qed

theorem no_token_lost_witness:
  "token_held (\<lambda>s. s) ''pass.token'' (fst (keep_token (\<lambda>s. s) \<lparr>io_listable = True, io_keep = Written, io_put = CutAt ''t''\<rparr>
     ''pass.token'' ''two'' [(''pass.token'', Bytes ''one'')])) ''one''"
proof -
  have one: "trim ''one'' = ''one''" by (rule trim_graphic) (simp add: is_graphic_def)
  have "parse_token ''two'' = Ok ''two''" by (rule parse_token_word) (simp_all add: is_graphic_def)
  moreover have "from_utf8 ''two''" by code_simp
  ultimately have "token_step (\<lambda>s. s) ''pass.token'' f (fst (keep_token (\<lambda>s. s) io ''pass.token'' ''two'' f))" for io f
    by (rule token_step.keep)
  then have "(token_step (\<lambda>s. s) ''pass.token'')\<^sup>*\<^sup>* f (fst (keep_token (\<lambda>s. s) io ''pass.token'' ''two'' f))" for io f
    by (rule r_into_rtranclp)
  moreover have "token_held (\<lambda>s. s) ''pass.token'' [(''pass.token'', Bytes ''one'')] ''one''"
    using one by (simp add: token_held_def says_token_def)
  ultimately show ?thesis using no_token_lost by blast
qed

end
