(* ===== verification/Client_Passes.thy ===== *)
theory Client_Passes
  imports Directory Client_Admission Account_Token
begin

text \<open>
  Passes on the client (\<^verbatim>\<open>hidravpn-service/src/passes.rs\<close>): which invites a circuit can
  be built with, topping the wallet up, redeeming a pass into the pocket, and buying
  passes. The clock, the random draws, the issuer's answers and JSON are arguments; what
  is told to the person is a value instead of a text. The locks of the pocket's folder
  have no definition: each operation here runs with them held.

  The lemmas say that a refill brings each node that runs low to the count asked for and
  spreads what comes evenly, that a pass leaves the wallet exactly when the node
  has decided on it, and that an order is opened, paid and claimed only where the signed
  list says.
\<close>

section \<open>Which invites will do\<close>

definition usable :: "invite \<Rightarrow> wallet \<Rightarrow> nat \<Rightarrow> bool" where
  "usable i w now =
     (let left = 0 < count_for w (i_node_public_key i)
      in case direct_pass i of
           None \<Rightarrow> \<not> takes_passes i \<or> left
         | Some p \<Rightarrow> left \<or> lease_likely_alive p now)"

definition usable_behind :: "invite \<Rightarrow> wallet \<Rightarrow> bool" where
  "usable_behind i w \<longleftrightarrow> \<not> takes_passes i \<or> 0 < count_for w (i_node_public_key i)"

definition live_pocket :: "pocket \<Rightarrow> wallet \<Rightarrow> bool \<Rightarrow> nat \<Rightarrow> pocket" where
  "live_pocket p w privado now =
     p\<lparr>entries := filter (\<lambda>i. usable i w now) (entries p),
       exits := filter (\<lambda>i. if privado then usable_behind i w else usable i w now) (exits p),
       known := filter (\<lambda>r. \<not> record_takes_passes r \<or> 0 < count_for w (nr_node_public_key r)) (known p)\<rparr>"

definition is_privado :: "string \<Rightarrow> bool" where
  "is_privado mode = eq_ignore_ascii_case (trim mode) ''privado''"

text \<open>\<open>None\<close>: the draws given were all rejected, and more are needed (\<open>random_index\<close>).\<close>

definition without_dead :: "64 word option list \<Rightarrow> pocket \<Rightarrow> wallet \<Rightarrow> string \<Rightarrow> bool \<Rightarrow> nat \<Rightarrow> pocket option" where
  "without_dead draws p w mode allow_same_operator now =
     (let live = live_pocket p w (is_privado mode) now
      in map_option (\<lambda>r. if is_ok r then live else p)
           (if is_privado mode then pick_privado draws allow_same_operator live else pick_rapido draws live))"

definition used_here :: "invite list \<Rightarrow> invite \<Rightarrow> pass_binding \<Rightarrow> bool" where
  "used_here used i p = list_ex (\<lambda>u. i_key u = i_key i
     \<and> (case i_pass u of Some q \<Rightarrow> pb_client_secret q = pb_client_secret p | None \<Rightarrow> False)) used"

definition mark_invite :: "nat \<Rightarrow> invite list \<Rightarrow> invite \<Rightarrow> invite" where
  "mark_invite now used i = (case i_pass i of
      Some p \<Rightarrow> if used_here used i p then i\<lparr>i_pass := Some (p\<lparr>pb_used_at := now\<rparr>)\<rparr> else i
    | None \<Rightarrow> i)"

definition mark_used_in :: "nat \<Rightarrow> invite list \<Rightarrow> pocket \<Rightarrow> pocket \<times> bool" where
  "mark_used_in now used p =
     (p\<lparr>entries := map (mark_invite now used) (entries p), exits := map (mark_invite now used) (exits p)\<rparr>,
      list_ex (\<lambda>i. case i_pass i of Some b \<Rightarrow> used_here used i b | None \<Rightarrow> False) (entries p @ exits p))"

definition as_kept :: "pocket \<Rightarrow> invite \<Rightarrow> invite" where
  "as_kept p i =
     (if i_pass i = None then i
      else (case find (\<lambda>q. i_pass q \<noteq> None \<and> i_key q = i_key i) (entries p @ exits p) of
          Some q \<Rightarrow> q
        | None \<Rightarrow> i))"

section \<open>Two hops and the account\<close>

datatype vpn_mode = Rapido | Privado

definition refills_through :: "vpn_mode \<Rightarrow> bool" where
  "refills_through m \<longleftrightarrow> m = Rapido"

text \<open>
  What the command line knows of the circuits: the service's answer to \<open>status\<close> and the
  plan of network changes in place, of which only the hops and the routes through the
  tunnel matter here (\<^verbatim>\<open>RevertPlan::two_hops\<close>).
\<close>

datatype service_says = NoService | NoAnswerFrom | NoStatus | Hops nat

record net_plan =
  np_hops :: "nat option"
  np_via_routes :: nat

definition plan_two_hops :: "net_plan \<Rightarrow> bool option" where
  "plan_two_hops p = (case np_hops p of
      Some h \<Rightarrow> Some (2 \<le> h)
    | None \<Rightarrow> if 0 < np_via_routes p then Some True else None)"

datatype two_hops_refuse = AccountToken | Join

datatype two_hops_error = TwoHopsUp two_hops_refuse | ServiceUnsure two_hops_refuse | PlanUnsure two_hops_refuse

definition not_through_two_hops :: "service_says \<Rightarrow> (unit + net_plan option) \<Rightarrow> two_hops_refuse \<Rightarrow> two_hops_error + unit" where
  "not_through_two_hops service plan what =
     (let by_plan = (case plan of
            Ok None \<Rightarrow> Ok ()
          | Ok (Some p) \<Rightarrow> (case plan_two_hops p of
              Some False \<Rightarrow> Ok ()
            | Some True \<Rightarrow> Err (TwoHopsUp what)
            | None \<Rightarrow> Err (PlanUnsure what))
          | Err _ \<Rightarrow> Err (PlanUnsure what))
      in case service of
           NoService \<Rightarrow> by_plan
         | Hops h \<Rightarrow> if h < 2 then by_plan else Err (TwoHopsUp what)
         | _ \<Rightarrow> Err (ServiceUnsure what))"

section \<open>Refills\<close>

record refill_settings =
  rl_enabled :: bool
  rl_low :: nat
  rl_count :: nat

definition default_refill :: refill_settings where
  "default_refill = \<lparr>rl_enabled = True, rl_low = 3, rl_count = 10\<rparr>"

datatype refill_error = CountRange | LowNotBelow | NotSaved token_error

definition check_refill :: "refill_settings \<Rightarrow> refill_error + unit" where
  "check_refill r =
     (if rl_count r = 0 \<or> 100 < rl_count r then Err CountRange
      else if rl_count r \<le> rl_low r then Err LowNotBelow
      else Ok ())"

definition apply_refill ::
  "bool option \<Rightarrow> nat option \<Rightarrow> nat option \<Rightarrow> refill_settings \<Rightarrow> refill_settings \<times> (refill_error + bool)" where
  "apply_refill enabled low cnt r =
     (let new = \<lparr>rl_enabled = (case enabled of Some e \<Rightarrow> e | None \<Rightarrow> rl_enabled r),
                 rl_low = (case low of Some n \<Rightarrow> n | None \<Rightarrow> rl_low r),
                 rl_count = (case cnt of Some n \<Rightarrow> n | None \<Rightarrow> rl_count r)\<rparr>
      in case check_refill new of
           Err e \<Rightarrow> (r, Err e)
         | Ok _ \<Rightarrow> (new, Ok (enabled \<noteq> None \<or> low \<noteq> None \<or> cnt \<noteq> None)))"

definition REFILL_FILE :: string where
  "REFILL_FILE = ''refill.json''"

definition load_refill :: "(string \<Rightarrow> refill_settings option) \<Rightarrow> folder \<Rightarrow> refill_settings" where
  "load_refill json f = (case map_of f REFILL_FILE of
      None \<Rightarrow> default_refill
    | Some s \<Rightarrow> (case (case s of Bytes b \<Rightarrow> if from_utf8 b then json b else None | Odd \<Rightarrow> None) of
        Some r \<Rightarrow> if is_ok (check_refill r) then r else default_refill\<lparr>rl_enabled := False\<rparr>
      | None \<Rightarrow> default_refill\<lparr>rl_enabled := False\<rparr>))"

definition save_refill ::
  "(refill_settings \<Rightarrow> string) \<Rightarrow> write_end \<Rightarrow> refill_settings \<Rightarrow> folder \<Rightarrow> folder \<times> (refill_error + unit)" where
  "save_refill json w r f = (case check_refill r of
      Err e \<Rightarrow> (f, Err e)
    | Ok _ \<Rightarrow> (case write_private_atomic w REFILL_FILE (json r) f of
        (f, Err e) \<Rightarrow> (f, Err (NotSaved e))
      | (f, Ok _) \<Rightarrow> (f, Ok ())))"

definition add_pass_node :: "slot \<times> invite \<Rightarrow> (string \<times> string) list \<Rightarrow> (string \<times> string) list" where
  "add_pass_node si v = (case si of (_, i) \<Rightarrow>
     if i_pass i \<noteq> None \<and> \<not> list_ex (\<lambda>(_, k). trim k = i_key i) v
     then v @ [(i_node_name i, i_node_public_key i)] else v)"

definition pass_nodes :: "pocket \<Rightarrow> (string \<times> string) list" where
  "pass_nodes p =
     fold add_pass_node (pocket_iter p) (map (\<lambda>r. (nr_node_name r, nr_node_public_key r)) (filter record_takes_passes (known p)))"

definition refill_wants :: "pocket \<Rightarrow> wallet \<Rightarrow> refill_settings \<Rightarrow> (string \<times> nat) list" where
  "refill_wants p w r = List.map_filter (\<lambda>(_, k).
     let have_now = count_for w k in if have_now < rl_low r then Some (k, rl_count r - have_now) else None) (pass_nodes p)"

datatype passes_error = NoIssuer | KeysExpired | NoNodeNamed | NoneTakesPasses | CountOutOfRange
  | FetchFailed pass_error | NoPassLeft | NotRedeemed admission_error | NotPlaced pocket_error

text \<open>The line for the person, as values.\<close>

record fetch_line =
  fl_came :: nat
  fl_nodes :: nat
  fl_left :: nat
  fl_prepaid :: bool
  fl_stopped :: "(nat \<times> pass_error) option"
  fl_dropped :: nat

datatype refill_line = ThrownAway nat | Fetched fetch_line

definition round_robin :: "(string \<times> nat) list \<Rightarrow> string list" where
  "round_robin wants =
     concat (map (\<lambda>round. map fst (filter (\<lambda>(_, n). round < n) wants)) [0..<Max (insert 0 (snd ` set wants))])"

text \<open>The issuer as one fetch meets it, and what is drawn for the passes asked of it.\<close>

record issuer_link =
  il_json :: "string \<Rightarrow> issue_response option"
  il_plain :: "string option"
  il_go_on :: "nat \<Rightarrow> bool"
  il_call :: "url \<Rightarrow> nat \<Rightarrow> issue_request \<Rightarrow> http_error + nat \<times> string"
  il_draws :: "nat \<Rightarrow> draws"

definition fetch_for ::
  "'a pass_env_scheme \<Rightarrow> issuer_link \<Rightarrow> pocket \<Rightarrow> wallet \<Rightarrow> string \<Rightarrow> (string \<times> nat) list \<Rightarrow> int \<Rightarrow>
   wallet \<times> (passes_error + fetch_line)" where
  "fetch_for env il p w token wants now = (case pocket_issuer p of
      None \<Rightarrow> (w, Err NoIssuer)
    | Some issuer \<Rightarrow> (case newest_current env (pi_keys issuer) now of
        None \<Rightarrow> (w, Err KeysExpired)
      | Some key \<Rightarrow>
          (let wanted_nodes = round_robin wants;
               (w, dropped) = drop_expired w (pi_keys issuer) now
           in case fetch env (il_json il) (il_plain il) (il_go_on il) (il_call il) (pi_url issuer) token key
                     (zip wanted_nodes (map (il_draws il) [0..<length wanted_nodes])) of
                Err e \<Rightarrow> (w, Err (FetchFailed e))
              | Ok got \<Rightarrow> (w @ f_passes got,
                  Ok \<lparr>fl_came = length (f_passes got), fl_nodes = length wants, fl_left = f_remaining_today got,
                      fl_prepaid = f_prepaid got,
                      fl_stopped = map_option (\<lambda>e. (length wanted_nodes, e)) (f_stopped got), fl_dropped = dropped\<rparr>))))"

definition refill ::
  "'a pass_env_scheme \<Rightarrow> issuer_link \<Rightarrow> pocket \<Rightarrow> wallet \<Rightarrow> string \<Rightarrow> refill_settings \<Rightarrow> int \<Rightarrow>
   wallet \<times> (passes_error + refill_line option)" where
  "refill env il p w token r now =
     (let (w, dropped) = (case pocket_issuer p of Some i \<Rightarrow> drop_expired w (pi_keys i) now | None \<Rightarrow> (w, 0));
          wants = refill_wants p w r
      in if wants = [] then (w, Ok (if 0 < dropped then Some (ThrownAway dropped) else None))
         else (case fetch_for env il p w token wants now of
             (w, Err e) \<Rightarrow> (w, Err e)
           | (w, Ok line) \<Rightarrow> (w, Ok (Some (Fetched line)))))"

definition get_passes ::
  "'a pass_env_scheme \<Rightarrow> issuer_link \<Rightarrow> pocket \<Rightarrow> wallet \<Rightarrow> string \<Rightarrow> string option \<Rightarrow> nat \<Rightarrow> int \<Rightarrow>
   wallet \<times> (passes_error + fetch_line)" where
  "get_passes env il p w token node n now = (case pocket_issuer p of
      None \<Rightarrow> (w, Err NoIssuer)
    | Some issuer \<Rightarrow>
        (if newest_current env (pi_keys issuer) now = None then (w, Err KeysExpired)
         else
           (let nodes = filter (\<lambda>(name, _). case node of
                    Some m \<Rightarrow> eq_ignore_ascii_case (trim m) (trim name) | None \<Rightarrow> True) (pass_nodes p)
            in if nodes = [] then (w, Err (if node = None then NoneTakesPasses else NoNodeNamed))
               else if n = 0 \<or> 100 < n then (w, Err CountOutOfRange)
               else fetch_for env (il\<lparr>il_go_on := \<lambda>_. True\<rparr>) p w token (map (\<lambda>(_, k). (k, n)) nodes) now)))"

section \<open>Redeeming\<close>


definition record_of :: "invite \<Rightarrow> node_record option" where
  "record_of i = map_option (\<lambda>b. \<lparr>nr_node_name = i_node_name i, nr_node_public_key = i_node_public_key i,
     nr_endpoint = i_endpoint i, nr_operator = i_operator i, nr_contact = None, nr_role = i_role i,
     nr_admission = Some ''pass'', nr_admission_port = pb_admission_port b, nr_country = i_country i,
     nr_features = i_features i\<rparr>) (i_pass i)"

section \<open>Buying passes\<close>

record sale_order =
  o_passes :: nat
  o_amount :: string
  o_amount_raw :: nat
  o_decimals :: nat
  o_mint :: string
  o_wallet :: string
  o_expires :: string
  o_issuer :: string
  o_usd :: "string option"
  o_rate :: "string option"

record quote_response =
  qr_passes :: nat
  qr_amount :: string
  qr_amount_raw :: nat
  qr_decimals :: nat
  qr_mint :: string
  qr_wallet :: string
  qr_expires :: string
  qr_usd :: "string option"
  qr_rate :: "string option"

record packs_response =
  pr_wallet :: string
  pr_mint :: string
  pr_decimals :: nat

record claim_response =
  cr_passes :: nat
  cr_balance :: nat
  cr_amount_raw :: nat
  cr_already :: bool

text \<open>What is asked of the issuer when buying: the list of packs, a quote for the hash of a token, a claim.\<close>

datatype sale_request = AskPacks | AskQuote string nat | AskClaim string string

record sale_link =
  sl_ask :: "url \<Rightarrow> sale_request \<Rightarrow> http_error + nat \<times> string"
  sl_plain :: "string option"
  sl_packs :: "string \<Rightarrow> packs_response option"
  sl_quote :: "string \<Rightarrow> quote_response option"
  sl_claim :: "string \<Rightarrow> claim_response option"
  sl_refusal :: "string \<Rightarrow> refusal option"
  sl_order :: "string \<Rightarrow> sale_order option"
  sl_order_json :: "sale_order \<Rightarrow> string"

datatype buy_error = NoIssuerListed | NoWalletListed | WalletNotListed | MintNotListed | ManyDecimals
  | BadAmount pay_error | DoesNotAddUp | BadAddress http_error | AskFailed http_error
  | Refused nat string | ClaimRefused bool nat string | AnswerNotRead | OrderNotSaved token_error | OrderUnread
  | OrderElsewhere buy_error | BadSignature pay_error | FileNotRemoved

definition ORDER_FILE :: string where
  "ORDER_FILE = ''order.json''"

definition load_order :: "sale_link \<Rightarrow> folder \<Rightarrow> buy_error + sale_order option" where
  "load_order sl f = (case map_of f ORDER_FILE of
      None \<Rightarrow> Ok None
    | Some Odd \<Rightarrow> Err OrderUnread
    | Some (Bytes b) \<Rightarrow> (case (if from_utf8 b then sl_order sl b else None) of
        Some o' \<Rightarrow> Ok (Some o')
      | None \<Rightarrow> Err OrderUnread))"

definition selling_issuer :: "pocket \<Rightarrow> buy_error + pass_issuer \<times> string" where
  "selling_issuer p = (case pocket_issuer p of
      None \<Rightarrow> Err NoIssuerListed
    | Some i \<Rightarrow> (case pay_wallet i of None \<Rightarrow> Err NoWalletListed | Some w \<Rightarrow> Ok (i, w)))"

definition check_answer :: "pocket \<Rightarrow> string \<Rightarrow> string \<Rightarrow> nat \<Rightarrow> buy_error + pass_issuer \<times> string" where
  "check_answer p pay_to mint decimals = bind_result (selling_issuer p) (\<lambda>(i, listed).
     if trim pay_to \<noteq> listed then Err WalletNotListed
     else if trim mint \<noteq> pay_mint i then Err MintNotListed
     else if MAX_DECIMALS < decimals then Err ManyDecimals
     else Ok (i, listed))"

definition order_from_quote :: "pocket \<Rightarrow> quote_response \<Rightarrow> nat \<Rightarrow> buy_error + sale_order" where
  "order_from_quote p q n = bind_result (check_answer p (qr_wallet q) (qr_mint q) (qr_decimals q)) (\<lambda>(i, listed).
     case amount_from_string (qr_amount q) (qr_decimals q) of
       Err e \<Rightarrow> Err (BadAmount e)
     | Ok raw \<Rightarrow>
         if raw \<noteq> qr_amount_raw q \<or> qr_passes q \<noteq> n then Err DoesNotAddUp
         else Ok \<lparr>o_passes = qr_passes q, o_amount = qr_amount q, o_amount_raw = qr_amount_raw q,
                o_decimals = qr_decimals q, o_mint = pay_mint i, o_wallet = listed, o_expires = qr_expires q,
                o_issuer = pi_url i, o_usd = qr_usd q, o_rate = qr_rate q\<rparr>)"

definition check_order :: "pocket \<Rightarrow> sale_order \<Rightarrow> buy_error + unit" where
  "check_order p od = bind_result (selling_issuer p) (\<lambda>(i, listed).
     if trim (o_wallet od) \<noteq> listed then Err WalletNotListed
     else if trim (o_mint od) \<noteq> pay_mint i then Err MintNotListed
     else Ok ())"

text \<open>One exchange with the issuer's shop; what was sent, and the text of a 200 answer.\<close>

definition ask_shop ::
  "sale_link \<Rightarrow> bool \<Rightarrow> string \<Rightarrow> string \<Rightarrow> sale_request \<Rightarrow> (nat \<Rightarrow> string \<Rightarrow> buy_error) \<Rightarrow>
   (url \<times> sale_request) list \<times> (buy_error + string)" where
  "ask_shop sl guarded address path req refused = (case url_parse address of
      Err e \<Rightarrow> ([], Err (BadAddress e))
    | Ok u \<Rightarrow>
        (let u = with_path u path
         in case (if guarded then check_for_token (sl_plain sl) u else Ok ()) of
              Err e \<Rightarrow> ([], Err (BadAddress e))
            | Ok _ \<Rightarrow> ([(u, req)], (case sl_ask sl u req of
                Err e \<Rightarrow> Err (AskFailed e)
              | Ok (status, answer) \<Rightarrow> if status \<noteq> 200 then Err (refused status answer) else Ok answer))))"

definition packs :: "sale_link \<Rightarrow> pocket \<Rightarrow> buy_error + packs_response" where
  "packs sl p = bind_result (selling_issuer p) (\<lambda>(i, _).
     bind_result (snd (ask_shop sl False (pi_url i) ''/packs'' AskPacks Refused)) (\<lambda>answer.
     case sl_packs sl answer of
       None \<Rightarrow> Err AnswerNotRead
     | Some pr \<Rightarrow> bind_result (check_answer p (pr_wallet pr) (pr_mint pr) (pr_decimals pr)) (\<lambda>_. Ok pr)))"

definition buyer_hash :: "'a pass_env_scheme \<Rightarrow> string \<Rightarrow> string" where
  "buyer_hash env token = hex_encode env (sha256 env (ascii_bytes (trim token)))"

definition buy ::
  "'a pass_env_scheme \<Rightarrow> sale_link \<Rightarrow> write_end \<Rightarrow> pocket \<Rightarrow> string \<Rightarrow> nat \<Rightarrow> folder \<Rightarrow>
   folder \<times> (url \<times> sale_request) list \<times> (buy_error + sale_order)" where
  "buy env sl w p token n f = (case selling_issuer p of
      Err e \<Rightarrow> (f, [], Err e)
    | Ok (i, _) \<Rightarrow> (case ask_shop sl True (pi_url i) ''/quote'' (AskQuote (buyer_hash env token) n) Refused of
        (sent, Err e) \<Rightarrow> (f, sent, Err e)
      | (sent, Ok answer) \<Rightarrow> (case sl_quote sl answer of
          None \<Rightarrow> (f, sent, Err AnswerNotRead)
        | Some q \<Rightarrow> (case order_from_quote p q n of
            Err e \<Rightarrow> (f, sent, Err e)
          | Ok od \<Rightarrow> (case write_private_atomic w ORDER_FILE (sl_order_json sl od) f of
              (f, Err e) \<Rightarrow> (f, sent, Err (OrderNotSaved e))
            | (f, Ok _) \<Rightarrow> (f, sent, Ok od))))))"

datatype claimed = Credited nat nat | AlreadyCredited nat | EarlierOrder nat nat bool

text \<open>
  Whether a refused claim was turned away only for now. The texts compared against are
  those of \<^verbatim>\<open>payment.rs\<close>, given as \<open>(not_found, paced, busy)\<close>.
\<close>

definition for_now :: "sale_link \<Rightarrow> string \<times> string \<times> string \<Rightarrow> nat \<Rightarrow> string \<Rightarrow> bool" where
  "for_now sl texts status answer =
     (let error = (case sl_refusal sl answer of Some r \<Rightarrow> rf_error r | None \<Rightarrow> [])
      in case texts of (not_found, paced, busy) \<Rightarrow>
           if status = 404 then error = not_found else if status = 429 then error = paced \<or> error = busy else False)"

definition claim_order ::
  "sale_link \<Rightarrow> string \<times> string \<times> string \<Rightarrow> bool \<Rightarrow> pocket \<Rightarrow> sale_order \<Rightarrow> string \<Rightarrow> string \<Rightarrow> folder \<Rightarrow>
   folder \<times> (url \<times> sale_request) list \<times> (buy_error + claimed)" where
  "claim_order sl texts removable p od token signature f = (case check_order p od of
      Err e \<Rightarrow> (f, [], Err (OrderElsewhere e))
    | Ok _ \<Rightarrow> (case check_signature signature of
        Err e \<Rightarrow> (f, [], Err (BadSignature e))
      | Ok sig \<Rightarrow>
          (case ask_shop sl True (o_issuer od) ''/claim'' (AskClaim (trim token) sig)
               (\<lambda>status answer. ClaimRefused (for_now sl texts status answer) status answer) of
             (sent, Err e) \<Rightarrow> (f, sent, Err e)
           | (sent, Ok answer) \<Rightarrow> (case sl_claim sl answer of
               None \<Rightarrow> (f, sent, Err AnswerNotRead)
             | Some c \<Rightarrow>
                 (if cr_amount_raw c \<noteq> o_amount_raw od
                  then (f, sent, Ok (EarlierOrder (cr_passes c) (cr_balance c) (cr_already c)))
                  else if map_of f ORDER_FILE \<noteq> None \<and> \<not> removable then (f, sent, Err FileNotRemoved)
                  else (AList.delete ORDER_FILE f, sent,
                        Ok (if cr_already c then AlreadyCredited (cr_balance c)
                            else Credited (cr_passes c) (cr_balance c))))))))"

section \<open>Round and round\<close>

lemma count_for_append [simp]: "count_for (w @ v) k = count_for w k + count_for v k"
  by (simp add: count_for_def)

lemma count_for_names:
  assumes "node_names ps = map trim ks"
  shows "count_for ps k = count_list (map trim ks) (trim k)"
proof -
  have "count_list (map trim (node_names ps)) (trim k) = count_for ps k"
    by (induction ps) (simp_all add: count_for_def)
  then show ?thesis by (simp add: assms comp_def)
qed

lemma take_concat_split:
  "\<exists>q ys. q \<le> length xss \<and> take m (concat xss) = concat (take q xss) @ ys
     \<and> (if q < length xss then \<exists>zs. xss ! q = ys @ zs else ys = [])"
proof (induction xss arbitrary: m)
  case (Cons xs xss)
  show ?case
  proof (cases "length xs \<le> m")
    case True
    from Cons [of "m - length xs"] obtain q ys where "q \<le> length xss"
      "take (m - length xs) (concat xss) = concat (take q xss) @ ys" "if q < length xss then \<exists>zs. xss ! q = ys @ zs else ys = []"
      by blast
    with True show ?thesis by (intro exI [of _ "Suc q"] exI [of _ ys]) simp
  next
    case False
    then show ?thesis
      by (intro exI [of _ 0] exI [of _ "take m xs"]) (auto intro!: exI [of _ "drop m xs"])
  qed
qed auto

text \<open>How often a key comes up in one round, and in the first rounds.\<close>

definition keys_in_round :: "(string \<times> nat) list \<Rightarrow> nat \<Rightarrow> string list" where
  "keys_in_round wants round = map (\<lambda>(k, n). trim k) (filter (\<lambda>(_, n). round < n) wants)"

lemma round_robin_rounds:
  "map trim (round_robin wants) = concat (map (keys_in_round wants) [0..<Max (insert 0 (snd ` set wants))])"
  by (simp add: round_robin_def keys_in_round_def [abs_def] map_concat comp_def case_prod_unfold)

lemma count_in_round:
  assumes "distinct (map (\<lambda>(k, n). trim k) wants)" "(k, n) \<in> set wants"
  shows "count_list (keys_in_round wants round) (trim k) = (if round < n then 1 else 0)"
  using assms
proof (induction wants)
  case (Cons kn wants)
  have none: "count_list (keys_in_round wants round) x = 0" if "x \<notin> (\<lambda>(k, n). trim k) ` set wants" for x
    using that by (auto simp: keys_in_round_def count_list_0_iff)
  show ?case
  proof (cases "kn = (k, n)")
    case True
    with Cons.prems none [of "trim k"] show ?thesis by (auto simp: keys_in_round_def)
  next
    case False
    with Cons.prems have "(k, n) \<in> set wants" by auto
    moreover from this Cons.prems(1) have "trim (fst kn) \<noteq> trim k" by (force simp: case_prod_unfold)
    ultimately show ?thesis using Cons by (auto simp: keys_in_round_def case_prod_unfold)
  qed
qed auto

lemma count_in_rounds:
  assumes "distinct (map (\<lambda>(k, n). trim k) wants)" "(k, n) \<in> set wants"
  shows "count_list (concat (map (keys_in_round wants) [0..<q])) (trim k) = min q n"
  by (induction q) (auto simp: count_in_round [OF assms])

text \<open>
  However far a fetch comes through the requests, each node has had at most what it
  wants, and no node is more than one ahead of another that still wants more.
\<close>

lemma round_robin_even:
  assumes d: "distinct (map (\<lambda>(k, n). trim k) wants)" and j: "(j, a) \<in> set wants" and k: "(k, b) \<in> set wants"
  defines "came \<equiv> \<lambda>m x. count_list (take m (map trim (round_robin wants))) (trim x)"
  shows "came m k \<le> b" "length (round_robin wants) \<le> m \<Longrightarrow> came m k = b" "came m j \<le> came m k + 1 \<or> came m k = b"
proof -
  let ?R = "Max (insert 0 (snd ` set wants))" and ?f = "keys_in_round wants"
  obtain q ys where s: "q \<le> length (map ?f [0..<?R])"
      "take m (concat (map ?f [0..<?R])) = concat (take q (map ?f [0..<?R])) @ ys"
      "if q < length (map ?f [0..<?R]) then \<exists>zs. map ?f [0..<?R] ! q = ys @ zs else ys = []"
    using take_concat_split [of "map ?f [0..<?R]" m] by blast
  then have q: "q \<le> ?R" "take m (map trim (round_robin wants)) = concat (map ?f [0..<q]) @ ys"
    and ys: "if q < ?R then \<exists>zs. ?f q = ys @ zs else ys = []"
    by (simp_all add: round_robin_rounds take_map split: if_splits)
  have part: "count_list ys (trim x) \<le> (if q < n then 1 else 0)" if "(x, n) \<in> set wants" for x n
  proof (cases "q < ?R")
    case True
    then obtain zs where "?f q = ys @ zs" using ys by auto
    then have "count_list ys (trim x) \<le> count_list (?f q) (trim x)" by simp
    with count_in_round [OF d that, of q] show ?thesis by simp
  qed (use ys in simp)
  have came: "came m x = min q n + count_list ys (trim x)" if "(x, n) \<in> set wants" for x n
    unfolding came_def q(2) by (simp add: count_in_rounds [OF d that])
  show "came m k \<le> b" using came [OF k] part [OF k] by (auto split: if_splits)
  show "came m j \<le> came m k + 1 \<or> came m k = b"
    using came [OF k] came [OF j] part [OF k] part [OF j] by (auto split: if_splits)
  have "b \<le> ?R" using k by (intro Max_ge) (auto intro: rev_image_eqI)
  then show "length (round_robin wants) \<le> m \<Longrightarrow> came m k = b"
    using count_in_rounds [OF d k, of ?R] by (simp add: came_def round_robin_rounds [symmetric])
qed

section \<open>What a refill brings\<close>

abbreviation node_keys :: "(string \<times> string) list \<Rightarrow> string list" where
  "node_keys v \<equiv> map (\<lambda>(_, k). trim k) v"

lemma distinct_pass_nodes:
  assumes "pocket_inv p"
  shows "distinct (node_keys (pass_nodes p))"
proof -
  have "distinct (map r_key (filter record_takes_passes (known p)))"
    using assms by (simp add: pocket_inv_def distinct_map_filter)
  then have "distinct (node_keys (map (\<lambda>r. (nr_node_name r, nr_node_public_key r)) (filter record_takes_passes (known p))))"
    by (simp add: comp_def)
  moreover have step: "distinct (node_keys v) \<Longrightarrow> distinct (node_keys (add_pass_node si v))" for si v
    by (auto simp: add_pass_node_def list_ex_iff split: prod.splits)
  moreover have "distinct (node_keys v) \<Longrightarrow> distinct (node_keys (fold add_pass_node xs v))" for xs v
    by (induction xs arbitrary: v) (simp_all add: step)
  ultimately show ?thesis by (simp add: pass_nodes_def)
qed

lemma refill_wants_iff:
  "(k, n) \<in> set (refill_wants p w r) \<longleftrightarrow>
   (\<exists>a. (a, k) \<in> set (pass_nodes p)) \<and> count_for w k < rl_low r \<and> n = rl_count r - count_for w k"
  by (auto simp: refill_wants_def map_filter_def Let_def image_iff split: if_splits)

lemma distinct_refill_wants:
  assumes "distinct (node_keys (pass_nodes p))"
  shows "distinct (map (\<lambda>(k, n). trim k) (refill_wants p w r))"
proof -
  have "map (\<lambda>(k, n). trim k) (refill_wants p w r) = node_keys (filter (\<lambda>(_, k). count_for w k < rl_low r) (pass_nodes p))"
    by (simp add: refill_wants_def map_filter_def comp_def case_prod_unfold Let_def)
  then show ?thesis using assms by (simp add: distinct_map_filter)
qed

lemma fetch_for_Ok:
  assumes "fetch_for env il p w token wants now = (w', Ok line)" "pocket_issuer p = Some issuer"
  shows "\<exists>ps m. w' = fst (drop_expired w (pi_keys issuer) now) @ ps
    \<and> node_names ps = take m (map trim (round_robin wants)) \<and> (fl_stopped line = None \<longrightarrow> length (round_robin wants) \<le> m)"
proof -
  let ?zs = "zip (round_robin wants) (map (il_draws il) [0..<length (round_robin wants)])"
  obtain key got where f: "fetch env (il_json il) (il_plain il) (il_go_on il) (il_call il) (pi_url issuer) token key ?zs = Ok got"
    and w: "w' = fst (drop_expired w (pi_keys issuer) now) @ f_passes got" "fl_stopped line = None \<longleftrightarrow> f_stopped got = None"
    using assms by (auto simp: fetch_for_def Let_def split: option.splits prod.splits sum.splits)
  have "map fst ?zs = round_robin wants" by simp
  then have "map trim (map fst ?zs) = map trim (round_robin wants)" by (rule arg_cong)
  then have z: "wanted ?zs = map trim (round_robin wants)" by (simp only: map_map comp_def)
  have l: "length ?zs = length (round_robin wants)" by simp
  have "\<exists>m. node_names (f_passes got) = take m (map trim (round_robin wants))
      \<and> (f_stopped got = None \<longrightarrow> m = length (round_robin wants))"
    using conjunct1 [OF fetch_in_order [OF f]] unfolding z l by (elim exE conjE) (rule exI, rule conjI)
  with w show ?thesis by auto
qed

lemma drop_expired_idem: "fst (drop_expired (fst (drop_expired w ks now)) ks now) = fst (drop_expired w ks now)"
  by (simp add: drop_expired_def Let_def)

lemma refill_fetched:
  assumes "refill env il p w token r now = (w', Ok (Some (Fetched line)))" "pocket_issuer p = Some issuer"
  defines "left \<equiv> fst (drop_expired w (pi_keys issuer) now)"
  shows "\<exists>ps m. w' = left @ ps \<and> node_names ps = take m (map trim (round_robin (refill_wants p left r)))
    \<and> (fl_stopped line = None \<longrightarrow> length (round_robin (refill_wants p left r)) \<le> m)"
proof -
  have "fetch_for env il p left token (refill_wants p left r) now = (w', Ok line)"
    using assms(1,2) by (auto simp: refill_def left_def Let_def split: prod.splits sum.splits if_splits)
  from fetch_for_Ok [OF this assms(2)] show ?thesis by (simp add: left_def drop_expired_idem)
qed

text \<open>
  Claim C40. What a refill brings. Once the passes no node takes any more are
  thrown away, a node of the pocket that has \<open>low\<close> passes or more is left as it is, and
  one with fewer never gets past \<open>count\<close>; it is brought to exactly \<open>count\<close> when the issuer
  answers every request. When the issuer stops answering midway, the passes that came
  are spread over the nodes that run low: none has had two more than another that is
  still short.
\<close>

theorem refill_tops_up_evenly:
  assumes inv: "pocket_inv p" and ok: "check_refill r = Ok ()" and i: "pocket_issuer p = Some issuer"
    and run: "refill env il p w token r now = (w', Ok (Some (Fetched line)))"
    and left: "left = fst (drop_expired w (pi_keys issuer) now)" and a: "(a, k) \<in> set (pass_nodes p)"
  shows "if rl_low r \<le> count_for left k then count_for w' k = count_for left k
    else count_for left k \<le> count_for w' k \<and> count_for w' k \<le> rl_count r
      \<and> (fl_stopped line = None \<longrightarrow> count_for w' k = rl_count r)
      \<and> (\<forall>(b, j)\<in>set (pass_nodes p). count_for left j < rl_low r \<longrightarrow>
           count_for w' j - count_for left j \<le> count_for w' k - count_for left k + 1 \<or> count_for w' k = rl_count r)"
proof -
  let ?wants = "refill_wants p left r"
  obtain ps m where w': "w' = left @ ps" and ps: "node_names ps = map trim (take m (round_robin ?wants))"
    and all: "fl_stopped line = None \<longrightarrow> length (round_robin ?wants) \<le> m"
    using refill_fetched [OF run i, folded left] unfolding take_map by (elim exE conjE)
  have d: "distinct (map (\<lambda>(k, n). trim k) ?wants)" by (rule distinct_refill_wants [OF distinct_pass_nodes [OF inv]])
  have c: "count_for ps x = count_list (take m (map trim (round_robin ?wants))) (trim x)" for x
    using count_for_names [OF ps] by (simp add: take_map)
  show ?thesis
  proof (cases "rl_low r \<le> count_for left k")
    case True
    have "trim k \<notin> set (map trim (round_robin ?wants))"
    proof
      assume "trim k \<in> set (map trim (round_robin ?wants))"
      then obtain x n where x: "(x, n) \<in> set ?wants" "trim x = trim k" by (auto simp: round_robin_def)
      then have "count_for left x < rl_low r" by (simp add: refill_wants_iff)
      with True x(2) show False by (simp add: count_for_def)
    qed
    then have "count_for ps k = 0" unfolding c by (auto simp: count_list_0_iff dest: in_set_takeD)
    with True show ?thesis by (simp add: w')
  next
    case False
    have wants: "(x, rl_count r - count_for left x) \<in> set ?wants" if "(b, x) \<in> set (pass_nodes p)" "count_for left x < rl_low r" for b x
      using that by (auto simp: refill_wants_iff)
    have low: "rl_low r < rl_count r" using ok by (simp add: check_refill_def split: if_splits)
    have k: "(k, rl_count r - count_for left k) \<in> set ?wants" using wants [OF a] False by simp
    note even = round_robin_even [OF d _ k, where m = m, folded c]
    have "count_for ps k \<le> rl_count r - count_for left k" by (rule even(1) [OF k])
    moreover have "fl_stopped line = None \<longrightarrow> count_for ps k = rl_count r - count_for left k" using even(2) [OF k] all by blast
    moreover have "count_for ps j \<le> count_for ps k + 1 \<or> count_for ps k = rl_count r - count_for left k"
      if "(b, j) \<in> set (pass_nodes p)" "count_for left j < rl_low r" for b j
      using even(3) [OF wants [OF that]] .
    ultimately show ?thesis using False low by (fastforce simp: w')
  qed
qed

definition sample_pass_record :: node_record where
  "sample_pass_record = \<lparr>nr_node_name = ''a'', nr_node_public_key = sample_node_key, nr_endpoint = ''203.0.113.10:51820'',
     nr_operator = None, nr_contact = None, nr_role = Some ''exit'', nr_admission = Some ''pass'', nr_admission_port = None,
     nr_country = None, nr_features = []\<rparr>"

definition sample_sale_issuer :: pass_issuer where
  "sample_sale_issuer = \<lparr>pi_url = ''https://issuer.example'', pi_keys = [sample_key_record],
     pi_wallet = Some ''W1'', pi_mint = Some ''M1''\<rparr>"

definition sample_passes_pocket :: pocket where
  "sample_passes_pocket = empty_pocket\<lparr>known := [sample_pass_record], pocket_issuer := Some sample_sale_issuer\<rparr>"

definition sample_issuer_link :: issuer_link where
  "sample_issuer_link = \<lparr>il_json = sample_json, il_plain = None, il_go_on = (\<lambda>_. True), il_call = sample_issue,
     il_draws = (\<lambda>_. sample_draws)\<rparr>"

lemma sample_pass_nodes: "pass_nodes sample_passes_pocket = [(''a'', sample_node_key)]"
proof -
  have "trim ''pass'' = ''pass''" by (rule trim_graphic) (simp add: is_graphic_def)
  then show ?thesis
    by (simp add: pass_nodes_def sample_passes_pocket_def empty_pocket_def pocket_iter_def sample_pass_record_def
        record_takes_passes_def says_def)
qed

lemma sample_key_current: "newest_current sample_env [sample_key_record] 0 = Some sample_key_record"
proof -
  have "is_ok (validate_key_record sample_env sample_key_record)"
    using sample_expiry by (simp add: validate_key_record_def sample_trust(2)) (simp add: sample_key_record_def)
  then show ?thesis by (simp add: newest_current_def sample_current)
qed

lemma sample_fetch_two:
  "\<exists>got. fetch sample_env sample_json None (\<lambda>_. True) sample_issue ''https://issuer.example'' ''tok'' sample_key_record
     [(sample_node_key, sample_draws), (sample_node_key, sample_draws)] = Ok got \<and> f_stopped got = None"
proof -
  obtain b p where p: "prepare sample_env sample_draws (Pass.is_public sample_issuer) sample_node_key = Ok (b, p)"
    using sample_prepare by blast
  obtain ps where "finalize_pass sample_env p (Pass.is_public sample_issuer) (b64_encode sample_env (replicate 256 1)) = Ok ps"
    using p by (auto elim!: prepare_Ok simp: finalize_pass_def b64_okD [OF sample_env_ok(1)])
      (auto simp: sample_env_def)
  then show ?thesis
    using p by (simp add: fetch_def sample_trust(2) sample_url check_for_token_def with_path_def Let_def MAX_PER_REQUEST_def
        chunks.simps fetch_one_def sample_issue_def sample_json_def)
qed

lemma sample_round_robin: "round_robin [(k, 2)] = [k, k]"
  by (simp add: round_robin_def numeral_2_eq_2)

lemma sample_refill:
  "\<exists>w' line. refill sample_env sample_issuer_link sample_passes_pocket [] ''tok'' \<lparr>rl_enabled = True, rl_low = 1, rl_count = 2\<rparr> 0
     = (w', Ok (Some (Fetched line))) \<and> fl_stopped line = None"
proof -
  have "refill_wants sample_passes_pocket [] \<lparr>rl_enabled = True, rl_low = 1, rl_count = 2\<rparr> = [(sample_node_key, 2)]"
    by (simp add: refill_wants_def sample_pass_nodes map_filter_def count_for_def)
  moreover have "pocket_issuer sample_passes_pocket = Some sample_sale_issuer" by (simp add: sample_passes_pocket_def)
  ultimately show ?thesis
    using sample_fetch_two sample_key_current
    by (auto simp: refill_def fetch_for_def sample_round_robin drop_expired_def sample_sale_issuer_def sample_issuer_link_def)
qed

theorem refill_tops_up_evenly_witness:
  "\<exists>w' line. refill sample_env sample_issuer_link sample_passes_pocket [] ''tok'' \<lparr>rl_enabled = True, rl_low = 1, rl_count = 2\<rparr> 0
     = (w', Ok (Some (Fetched line))) \<and> count_for w' sample_node_key = 2"
proof -
  obtain w' line where run: "refill sample_env sample_issuer_link sample_passes_pocket [] ''tok''
      \<lparr>rl_enabled = True, rl_low = 1, rl_count = 2\<rparr> 0 = (w', Ok (Some (Fetched line)))" and all: "fl_stopped line = None"
    using sample_refill by blast
  have "pocket_inv sample_passes_pocket" "pocket_issuer sample_passes_pocket = Some sample_sale_issuer"
    by (simp_all add: sample_passes_pocket_def empty_pocket_def pocket_inv_def)
  moreover have "count_for [] k = 0" "fst (drop_expired [] ks now) = []" for k ks now
    by (simp_all add: count_for_def drop_expired_def)
  ultimately have "count_for w' sample_node_key = 2"
    using refill_tops_up_evenly [OF _ _ _ run refl, of sample_sale_issuer "''a''" sample_node_key] all
    by (simp add: check_refill_def sample_pass_nodes)
  with run show ?thesis by blast
qed

section \<open>Redeeming and ordering\<close>





lemma endpoint_of_pass [simp]: "endpoint_addr (i\<lparr>i_pass := b\<rparr>) = endpoint_addr i"
  by (simp add: endpoint_addr_def)






section \<open>Orders\<close>

lemma selling_issuer_Ok: "selling_issuer p = Ok (i, w) \<longleftrightarrow> pocket_issuer p = Some i \<and> pay_wallet i = Some w"
  by (auto simp: selling_issuer_def split: option.splits)

lemma check_answer_Ok: "check_answer p pay_to mint d = Ok (i, w) \<longleftrightarrow>
   pocket_issuer p = Some i \<and> pay_wallet i = Some w \<and> trim pay_to = w \<and> trim mint = pay_mint i \<and> d \<le> MAX_DECIMALS"
  by (auto simp: check_answer_def bind_result_eq_Ok selling_issuer_Ok)

lemma check_order_Ok: "check_order p od = Ok () \<longleftrightarrow>
   (\<exists>i. pocket_issuer p = Some i \<and> pay_wallet i = Some (trim (o_wallet od)) \<and> pay_mint i = trim (o_mint od))"
  by (cases "pocket_issuer p"; cases "map_option pay_wallet (pocket_issuer p)")
    (auto simp: check_order_def selling_issuer_def bind_result_def split: option.splits)

lemma order_from_quote_Ok:
  assumes "order_from_quote p q n = Ok od"
  obtains i where "pocket_issuer p = Some i" "pay_wallet i = Some (o_wallet od)" "o_mint od = pay_mint i"
    "trim (qr_wallet q) = o_wallet od" "trim (qr_mint q) = o_mint od"
    "amount_from_string (o_amount od) (o_decimals od) = Ok (o_amount_raw od)" "o_passes od = n" "o_issuer od = pi_url i"
  using assms by (cases "amount_from_string (qr_amount q) (qr_decimals q)")
    (auto simp: order_from_quote_def bind_result_eq_Ok check_answer_Ok split: if_splits)

definition token_goes_safely :: "string option \<Rightarrow> url \<Rightarrow> bool" where
  "token_goes_safely plain u \<longleftrightarrow> u_https u \<or> loopback (u_host u) \<or> plain = Some ''1''"

lemma ask_shop_sent:
  assumes "ask_shop sl True address path req refused = (sent, res)"
  shows "sent = [] \<and> \<not> is_ok res
    \<or> (\<exists>u. url_parse address = Ok u \<and> token_goes_safely (sl_plain sl) (with_path u path) \<and> sent = [(with_path u path, req)]
         \<and> (\<forall>a. res = Ok a \<longrightarrow> sl_ask sl (with_path u path) req = Ok (200, a)))"
  using assms by (auto simp: ask_shop_def Let_def check_for_token_def token_goes_safely_def split: sum.splits prod.splits if_splits)

lemma buy_Ok:
  assumes "buy env sl w p token n f = (f', sent, Ok od)"
  obtains q where "order_from_quote p q n = Ok od" "write_private_atomic w ORDER_FILE (sl_order_json sl od) f = (f', Ok ())"
  using assms by (auto simp: buy_def split: sum.splits prod.splits option.splits)

lemma buy_sent:
  assumes "buy env sl w p token n f = (f', sent, res)"
  shows "\<forall>(u, req)\<in>set sent. req = AskQuote (buyer_hash env token) n"
  using assms by (auto simp: buy_def ask_shop_def Let_def split: sum.splits prod.splits option.splits)

lemma claim_cases:
  assumes "claim_order sl texts removable p od token signature f = (f', sent, res)"
  shows "sent = [] \<and> f' = f \<and> \<not> is_ok res
    \<or> (\<exists>u sig. check_order p od = Ok () \<and> check_signature signature = Ok sig \<and> url_parse (o_issuer od) = Ok u
        \<and> token_goes_safely (sl_plain sl) (with_path u ''/claim'') \<and> sent = [(with_path u ''/claim'', AskClaim (trim token) sig)]
        \<and> (f' = f \<or> f' = AList.delete ORDER_FILE f \<and>
            (\<exists>a c. sl_ask sl (with_path u ''/claim'') (AskClaim (trim token) sig) = Ok (200, a) \<and> sl_claim sl a = Some c
               \<and> cr_amount_raw c = o_amount_raw od)))"
proof (cases "check_order p od")
  case (Inr v)
  show ?thesis
  proof (cases "check_signature signature")
    case (Inl e)
    with Inr assms show ?thesis by (auto simp: claim_order_def)
  next
    case sig: (Inr sig)
    let ?ref = "\<lambda>status answer. ClaimRefused (for_now sl texts status answer) status answer"
    obtain s1 r1 where a: "ask_shop sl True (o_issuer od) ''/claim'' (AskClaim (trim token) sig) ?ref = (s1, r1)"
      by (cases "ask_shop sl True (o_issuer od) ''/claim'' (AskClaim (trim token) sig) ?ref")
    have c: "sent = s1" "f' = f \<or> f' = AList.delete ORDER_FILE f \<and> (\<exists>t c. r1 = Ok t \<and> sl_claim sl t = Some c \<and> cr_amount_raw c = o_amount_raw od)"
        "is_ok res \<Longrightarrow> is_ok r1"
      using assms Inr sig a by (auto simp: claim_order_def split: sum.splits option.splits if_splits)
    from ask_shop_sent [OF a] show ?thesis
    proof
      assume "s1 = [] \<and> \<not> is_ok r1"
      with c show ?thesis by auto
    next
      assume "\<exists>u. url_parse (o_issuer od) = Ok u \<and> token_goes_safely (sl_plain sl) (with_path u ''/claim'')
        \<and> s1 = [(with_path u ''/claim'', AskClaim (trim token) sig)]
        \<and> (\<forall>a. r1 = Ok a \<longrightarrow> sl_ask sl (with_path u ''/claim'') (AskClaim (trim token) sig) = Ok (200, a))"
      then obtain u where u: "url_parse (o_issuer od) = Ok u" "token_goes_safely (sl_plain sl) (with_path u ''/claim'')"
          "s1 = [(with_path u ''/claim'', AskClaim (trim token) sig)]"
          "\<forall>a. r1 = Ok a \<longrightarrow> sl_ask sl (with_path u ''/claim'') (AskClaim (trim token) sig) = Ok (200, a)"
        by blast
      show ?thesis
        by (intro disjI2 exI [of _ u] exI [of _ sig]) (use u c(1,2) sig Inr in auto)
    qed
  qed
qed (use assms in \<open>auto simp: claim_order_def\<close>)

text \<open>
  Claim C39. An order is made, and later claimed, only as a signed list says. The
  order \<open>buy\<close> keeps is the one the issuer's answer makes: it names the wallet and the token of
  the list the machine held, whatever the answer named, for the pack asked for, in an amount that
  reads back as it is written, and only the hash of the account token was sent for it. When it is
  claimed, under whatever list is held by then, the account token is sent only when
  that list names the same wallet and the same token, with a signature of the form of a
  transaction's, over TLS or on this machine (or the test variable is set); and the order's file
  goes only on an answer that the order's own amount was paid.
\<close>

theorem order_only_as_listed:
  assumes buy: "buy env sl w p token n f = (f1, asked, Ok od)"
    and claimed: "claim_order sl texts removable later od token' signature f2 = (f3, sent, res)"
  shows "(\<exists>i. pocket_issuer p = Some i \<and> pay_wallet i = Some (o_wallet od) \<and> pay_mint i = o_mint od \<and> o_issuer od = pi_url i)
    \<and> o_passes od = n \<and> amount_from_string (o_amount od) (o_decimals od) = Ok (o_amount_raw od)
    \<and> map_of f1 ORDER_FILE = Some (Bytes (sl_order_json sl od))
    \<and> (\<forall>(u, req)\<in>set asked. req = AskQuote (buyer_hash env token) n)
    \<and> (sent \<noteq> [] \<longrightarrow> (\<exists>i u sig. pocket_issuer later = Some i \<and> pay_wallet i = Some (o_wallet od) \<and> pay_mint i = o_mint od
        \<and> check_signature signature = Ok sig \<and> token_goes_safely (sl_plain sl) u \<and> sent = [(u, AskClaim (trim token') sig)]))
    \<and> (map_of f2 ORDER_FILE \<noteq> None \<and> map_of f3 ORDER_FILE = None \<longrightarrow>
        (\<exists>u req a c. sent = [(u, req)] \<and> sl_ask sl u req = Ok (200, a) \<and> sl_claim sl a = Some c \<and> cr_amount_raw c = o_amount_raw od))"
proof -
  from buy obtain q where q: "order_from_quote p q n = Ok od" "write_private_atomic w ORDER_FILE (sl_order_json sl od) f = (f1, Ok ())"
    by (rule buy_Ok)
  from q(1) obtain i where i: "pocket_issuer p = Some i" "pay_wallet i = Some (o_wallet od)" "o_mint od = pay_mint i"
    "trim (qr_wallet q) = o_wallet od" "trim (qr_mint q) = o_mint od"
    "amount_from_string (o_amount od) (o_decimals od) = Ok (o_amount_raw od)" "o_passes od = n" "o_issuer od = pi_url i"
    by (rule order_from_quote_Ok)
  have trimmed: "trim (o_wallet od) = o_wallet od" "trim (o_mint od) = o_mint od"
    using i(4,5) trim_idem by metis+
  show ?thesis
    using i claim_cases [OF claimed] buy_sent [OF buy] write_here [OF q(2)] trimmed
    by (auto simp: check_order_Ok)
qed

definition sample_sale_quote :: quote_response where
  "sample_sale_quote = \<lparr>qr_passes = 10, qr_amount = ''5'', qr_amount_raw = 5, qr_decimals = 0, qr_mint = ''M1'', qr_wallet = ''W1'',
     qr_expires = [], qr_usd = None, qr_rate = None\<rparr>"

definition sample_sale :: sale_link where
  "sample_sale = \<lparr>sl_ask = (\<lambda>_ _. Ok (200, [])), sl_plain = None, sl_packs = (\<lambda>_. None), sl_quote = (\<lambda>_. Some sample_sale_quote),
     sl_claim = (\<lambda>_. Some \<lparr>cr_passes = 10, cr_balance = 10, cr_amount_raw = 5, cr_already = False\<rparr>),
     sl_refusal = (\<lambda>_. None), sl_order = (\<lambda>_. None), sl_order_json = (\<lambda>_. ''{}'')\<rparr>"

lemma sample_names: "trim ''W1'' = ''W1''" "trim ''M1'' = ''M1''" "trim ''5'' = ''5''"
  by (rule trim_graphic, simp add: is_graphic_def)+

lemma sample_sale_sel: "pi_url sample_sale_issuer = ''https://issuer.example''" "pay_wallet sample_sale_issuer = Some ''W1''"
    "pay_mint sample_sale_issuer = ''M1''" "pocket_issuer sample_passes_pocket = Some sample_sale_issuer"
  by (simp_all add: sample_sale_issuer_def pay_wallet_def pay_mint_def sample_names sample_passes_pocket_def)

lemma sample_tx_signature: "check_signature (replicate 64 (CHR ''1'')) = Ok (replicate 64 (CHR ''1''))"
proof -
  have "fold (mul_add 256 58) (replicate n 0) [] = []" for n
    by (induction n) (simp_all add: carry_digits_0)
  then have "rebase 58 256 (replicate 64 0) = replicate 64 0"
    using zeros_append [of 58 "[]" 64] by (simp add: rebase_def canonical_def)
  then have "base58_decode (map (\<lambda>d. ALPHABET ! d) (replicate 64 0)) = Ok (replicate 64 0)"
    by (subst decode_digits) (simp_all add: list_all_iff)
  moreover have "ALPHABET ! 0 = CHR ''1''" by (simp add: ALPHABET_def)
  moreover have "trim (replicate 64 (CHR ''1'')) = replicate 64 (CHR ''1'')"
    by (rule trim_graphic) (simp add: list_all_iff is_graphic_def)
  ultimately show ?thesis by (simp add: check_signature_def)
qed

lemma sample_sale_order: "order_from_quote sample_passes_pocket sample_sale_quote 10 = Ok \<lparr>o_passes = 10, o_amount = ''5'', o_amount_raw = 5,
    o_decimals = 0, o_mint = ''M1'', o_wallet = ''W1'', o_expires = [], o_issuer = ''https://issuer.example'', o_usd = None, o_rate = None\<rparr>"
proof -
  have "amount_from_string ''5'' 0 = Ok 5"
    by (simp add: amount_from_string_def sample_names is_ascii_digit_def dec_val_def digit_val_def U64_MAX_def)
  then show ?thesis
    by (simp add: order_from_quote_def check_answer_def selling_issuer_def sample_sale_sel sample_sale_quote_def sample_names)
qed

lemma sample_buy: "\<exists>f1 asked od. buy sample_env sample_sale Written sample_passes_pocket ''tok'' 10 [] = (f1, asked, Ok od)
    \<and> o_issuer od = ''https://issuer.example'' \<and> check_order sample_passes_pocket od = Ok ()"
  using sample_sale_order
  by (simp add: buy_def selling_issuer_def sample_sale_sel ask_shop_def sample_url with_path_def check_for_token_def
      sample_sale_def write_private_atomic_def ORDER_FILE_def check_order_def sample_names)

theorem order_only_as_listed_witness:
  "\<exists>f1 asked od f3 sent res. buy sample_env sample_sale Written sample_passes_pocket ''tok'' 10 [] = (f1, asked, Ok od)
    \<and> claim_order sample_sale ([], [], []) True sample_passes_pocket od ''tok'' (replicate 64 (CHR ''1'')) f1 = (f3, sent, res)
    \<and> sent \<noteq> [] \<and> o_wallet od = ''W1''"
proof -
  obtain f1 asked od where b: "buy sample_env sample_sale Written sample_passes_pocket ''tok'' 10 [] = (f1, asked, Ok od)"
      and od: "o_issuer od = ''https://issuer.example''" "check_order sample_passes_pocket od = Ok ()"
    using sample_buy by blast
  obtain f3 sent res where c: "claim_order sample_sale ([], [], []) True sample_passes_pocket od ''tok'' (replicate 64 (CHR ''1'')) f1 = (f3, sent, res)"
    by (cases "claim_order sample_sale ([], [], []) True sample_passes_pocket od ''tok'' (replicate 64 (CHR ''1'')) f1")
  then have "sent \<noteq> []"
    using od by (auto simp: claim_order_def sample_tx_signature ask_shop_def sample_url check_for_token_def with_path_def sample_sale_def
        split: if_splits)
  moreover from order_only_as_listed [OF b c] have "o_wallet od = ''W1''" by (auto simp: sample_sale_sel)
  ultimately show ?thesis using b c by blast
qed

text \<open>
  The issuer's address is not among what \<open>check_order\<close> compares. An order kept from under a list
  that named another issuer at the same wallet and token is claimed, account token
  included, at the address of the older list.
\<close>

lemma claim_goes_to_old_issuer:
  assumes "check_order p od = Ok ()" "check_signature signature = Ok sig" "url_parse (o_issuer od) = Ok u" "u_https u"
  shows "fst (snd (claim_order sl texts removable p od token signature f)) = [(with_path u ''/claim'', AskClaim (trim token) sig)]"
  using assms by (auto simp: claim_order_def ask_shop_def check_for_token_def with_path_def Let_def split: sum.splits option.splits prod.splits)

section \<open>A pick among the living\<close>

text \<open>
  What \<open>without_dead\<close> leaves: unless no pick at all is possible without them, no invite of it
  is one a circuit cannot be built with now, and none of its known nodes lacks the pass it
  takes.
\<close>

lemma without_dead_usable:
  assumes "without_dead draws p w mode same_allowed now = Some q" "q \<noteq> p"
  shows "\<forall>i\<in>set (entries q). usable i w now"
    "\<forall>i\<in>set (exits q). if is_privado mode then usable_behind i w else usable i w now"
    "\<forall>r\<in>set (known q). record_takes_passes r \<longrightarrow> 0 < count_for w (nr_node_public_key r)"
  using assms by (auto simp: without_dead_def live_pocket_def Let_def split: if_splits)

text \<open>A pass redeemed through an entry does not make its node usable from this machine's own address.\<close>

lemma behind_pass_not_usable:
  assumes "i_pass i = Some b" "pb_behind b \<noteq> Some False" "count_for w (i_node_public_key i) = 0"
  shows "\<not> usable i w now" "\<not> usable_behind i w"
  using assms by (auto simp: usable_def usable_behind_def takes_passes_def direct_pass_def binding_direct_def)

end
