(* ===== verification/Spec2Isabelle.thy ===== *)
theory Spec2Isabelle
  imports Exit_Policy Dht_Node Routing_Table Dht_Descriptor Dht_Store Dht_Message Onion Handshake Connection Service_Auth
    Router Router_Runs Client_Circuit Circuit_Streams Leases Spent_Passes Admission
    Timefmt Addr_Parse Http Keys Pass Invite Pocket Payment Release Directory Ipv6_Text Node_Config Node Issuer_Accounts Payment_Check
    Issuer_Orders Issuer Client_Admission Account_Token Client_Passes
begin

text \<open>
  \<^bold>\<open>HidraNet: a verification library of its Rust sources.\<close>

  \<^bold>\<open>The program.\<close> HidraNet is two networks. \<^verbatim>\<open>hidra-node/\<close> is a relay of an onion network: it builds
  circuits of fixed-size cells, finds other relays and hidden services in a Kademlia-like
  DHT whose IDs cost work, and lets exits reach only public addresses. \<^verbatim>\<open>hidravpn/\<close> is a VPN of
  WireGuard nodes: an issuer sells blind-signed passes for payments seen on a chain, a
  node admits keys with passes, with proof of work or by its operator, leases them
  addresses and writes them invites, and a client keeps invites in a pocket, learns nodes from
  signed lists and connects over one or two hops.

  \<^bold>\<open>Conventions.\<close> A Rust struct is a record, an enum a datatype, a \<^verbatim>\<open>Result\<close> a sum with \<open>Err\<close> on the
  left and \<open>Ok\<close> on the right; a panic is \<open>None\<close> where it can happen. Machine words are words where
  bits matter (addresses, counters, IDs) and naturals with the bound written out
  elsewhere (\<open>saturating_add\<close>, \<open>mod 2 ^ 64\<close>). A \<^verbatim>\<open>HashMap\<close> is an association list, and where the order of an
  iteration shows, any permutation is an argument. What is outside the sources is a parameter: hashes, signatures,
  AEAD, base64, hex and JSON codecs (records of \<open>Crypto_Params\<close>, \<open>Keys\<close>, \<open>Pass\<close>, \<open>Directory\<close>,
  \<open>Payment_Check\<close>), with the laws a theorem needs as named predicates
  (\<open>aead_correct\<close>, \<open>b64_ok\<close>, \<open>hex_ok\<close>, ...) that a concrete instance is shown to satisfy. Clocks and
  randomness are arguments, and so is how a disk, a lock, a device or a peer answers: an outcome per
  call, so that every theorem covers every failure.

  \<^bold>\<open>Shared theories.\<close> \<open>Prelude\<close>: results, words, lists, first-match updates. \<open>Net_Addr\<close>, \<open>Addr_Parse\<close>,
  \<open>Ipv6_Text\<close>: addresses, their classes, their text. \<open>Text_Format\<close>: \<^verbatim>\<open>trim\<close>, splitting, decimal numbers.
  \<open>Sliding_Window\<close>: the windows of rate limits. \<open>Nonce_Search\<close>: the interface of a proof of work (a
  locale: a search from 0 upward for the first nonce that satisfies a test), interpreted for DHT
  IDs and for admissions.

  \<^bold>\<open>The onion network\<close> (\<^verbatim>\<open>hidra-node/src\<close>).
  \<^item> \<open>Exit_Policy\<close> (\<^verbatim>\<open>relay/exit_policy.rs\<close>): which addresses an exit dials; the IPv4 test is the registry of
    special-purpose blocks, also for addresses carried in IPv6, and the IPv6 test that of the IPv6 blocks.
  \<^item> \<open>Dht_Node\<close>, \<open>Routing_Table\<close> (\<^verbatim>\<open>p2p/dht/node.rs, kbuckets.rs\<close>): IDs, distances, the ID puzzle; buckets and the table. The
    table is an invariant of every update sequence (size, one entry per ID, at most so many of a
    network), refines a map from IDs to addresses, and the locale \<open>closest_table\<close> is the interface a lookup
    relies on.
  \<^item> \<open>Dht_Descriptor\<close>, \<open>Dht_Store\<close> (\<^verbatim>\<open>descriptor.rs, store.rs\<close>): signed descriptors of hidden services and the bounded store of them, with its
    quotas, eviction and own services.
  \<^item> \<open>Dht_Message\<close> (\<^verbatim>\<open>message.rs, handler.rs\<close>): the signed packet, the answers to each request and the test of
    which networks are near a target.
  \<^item> \<open>Onion\<close> (\<^verbatim>\<open>onion/cell.rs, layer.rs, builder.rs, circuit.rs\<close>): padding, layers with counters, building an onion and peeling replies.
  \<^item> \<open>Handshake\<close>, \<open>Connection\<close> (\<^verbatim>\<open>crypto/handshake.rs, network/connection.rs\<close>): the hybrid Noise XX exchange of two relays, and the frames and
    messages of the connection that follows, however the socket delivers its bytes.
  \<^item> \<open>Service_Auth\<close> (\<^verbatim>\<open>crypto/service_auth.rs\<close>): how a hidden service registers, proves its address to a client and
    talks to it.
  \<^item> \<open>Router\<close>, \<open>Router_Runs\<close> (\<^verbatim>\<open>relay/router.rs\<close>): the relay's circuits and the tasks of its links, as what a task does
    between two awaits (\<open>link_step\<close>), and every interleaving of them.
  \<^item> \<open>Client_Circuit\<close>, \<open>Circuit_Streams\<close> (\<^verbatim>\<open>client/streaming.rs, circuit_pool.rs, relay/registry.rs\<close>): building a circuit by
    extension against any network, streams over it, the pool; a stream through client, relays and exit.

  \<^bold>\<open>The VPN's core\<close> (\<^verbatim>\<open>hidravpn-core/src\<close>).
  \<^item> \<open>Timefmt\<close>, \<open>Http\<close>, \<open>Keys\<close> (\<^verbatim>\<open>timefmt.rs, http.rs, keys.rs\<close>): dates, URLs and answers, client keys per node.
  \<^item> \<open>Pass\<close> (\<^verbatim>\<open>pass.rs\<close>): issuer keys, preparing, signing, unblinding, redeeming and verifying passes, the wallet.
  \<^item> \<open>Invite\<close>, \<open>Pocket\<close>, \<open>Directory\<close>, \<open>Release\<close> (\<^verbatim>\<open>config.rs, pocket.rs, random.rs, directory.rs, release.rs\<close>): invites, the pocket and the choice of hops, signed lists and
    their import as steps on the pocket, release keys.
  \<^item> \<open>Payment\<close>, \<open>Payment_Check\<close> (\<^verbatim>\<open>payment.rs\<close> and \<^verbatim>\<open>tally\<close> of the issuer): base58, amounts, packs; reading a transaction and the vote of the RPCs.

  \<^item> \<open>Client_Admission\<close> (\<^verbatim>\<open>admission.rs\<close>): asking a node for admission or redeeming a pass there, and the HTTP both sides speak.

  \<^bold>\<open>The VPN's client\<close> (\<^verbatim>\<open>hidravpn-service/src/passes.rs\<close>).
  \<^item> \<open>Account_Token\<close>: the file of the account token and the ones kept beside it, through writes that fail anywhere.
  \<^item> \<open>Client_Passes\<close>: which invites will do, refills, redeeming into the pocket, buying and claiming orders.

  \<^bold>\<open>The VPN's node\<close> (\<^verbatim>\<open>hidravpn-node/src\<close>).
  \<^item> \<open>Leases\<close>, \<open>Spent_Passes\<close>, \<open>Admission\<close> (\<^verbatim>\<open>leases.rs, admission.rs\<close> and the work of the core's \<^verbatim>\<open>admission.rs\<close>): the lease book, the snapshot and
    journal of spent passes through failed writes and power cuts, the rate limits.
  \<^item> \<open>Node_Config\<close> (\<^verbatim>\<open>config.rs, dns.rs\<close>): settings, subnets, records and the invite for a lease.
  \<^item> \<open>Node\<close> (\<^verbatim>\<open>main.rs, wg.rs\<close>): the main loop over all of these. The locale \<open>promise_book\<close> is what the node
    needs of the spent passes, interpreted by \<open>Spent_Passes\<close>.

  \<^bold>\<open>The issuer\<close> (\<^verbatim>\<open>hidravpn-issuer/src/main.rs\<close>).
  \<^item> \<open>Issuer_Accounts\<close>: accounts, quotas, prepaid balances, \<^verbatim>\<open>POST /issue\<close> as charge, sign and give back.
  \<^item> \<open>Issuer_Orders\<close>: orders, lapsed ones, both files, the index and its equivalence with the file.
  \<^item> \<open>Issuer\<close>: \<^verbatim>\<open>POST /quote\<close>, \<^verbatim>\<open>POST /claim\<close> and credits by hand, and all of it as one step relation. The locale
    \<open>expiring_marks\<close> is what the claims need of the used transactions, interpreted by the orders.

  \<^bold>\<open>What the theorems show.\<close> State machines (\<open>table_step\<close>, \<open>store_step\<close>, \<open>lease_step\<close>, \<open>spent_step\<close>, \<open>limiter_step\<close>,
  \<open>router_step\<close>, \<open>pocket_step\<close>, \<open>node_step\<close>, \<open>accounts_step\<close>, \<open>issuer_step\<close>) with their invariants by rule induction; end to end: an
  onion reaches its exit and each cell opens once; relays agree on a handshake, and a client on a
  session with the very service it asked for; a relay never seals twice with one count and a client's
  circuit runs through the relays it chose; a descriptor is kept, displaced and
  answered as promised; a pass is good at one node, once; a client told to keep it finds it
  unspent, but for two failures of the node's disk that the theorem names, and its wallet loses a pass exactly when a node decided on
  it; a payment is credited once and no pass is signed that was not given, paid for or counted against a quota; a client pays and claims only as the signed list says and loses no account token;
  a node's invite says what was leased and is accepted by its client exactly when its addresses are private. Each theorem of the list of claims is
  headed by its id and says in words what it states; those with hypotheses have a witness, a
  concrete run.

  \<^bold>\<open>Loops and bounds.\<close> Every definition is total. The nonce searches and \<open>free_name\<close> have termination
  proofs or a bound that is the code's own (\<^verbatim>\<open>u64::MAX\<close> attempts, 64 draws of a tag); nothing is cut off by fuel.
  Where the code draws again without bound (\<open>random_index\<close>), the draws are a list and running out of it is a
  value of its own.

  \<^bold>\<open>Not modelled.\<close> Sockets, tasks and channels (the accept loops, the proxies, the DHT's lookups), the
  operating system (TUN, routes, NAT, firewalls, installers), the daemon's IPC and the command lines, key
  files, prices in floating point and
  the price feed, the web applications of the relay, the dashboard, the browser and the monitor (other languages).
\<close>

end
